(* ===== verification/Prelude.thy ===== *)
theory Prelude
  imports
    Complex_Main
    "HOL-Library.AList"
    "HOL-Library.Multiset"
    "HOL-Library.List_Lexorder"
    "HOL-Library.Char_ord"
begin

text \<open>
  Shared vocabulary of the ShipInfer development.

  \<^item> Python exceptions are values of \<^verbatim>\<open>err\<close>; a call that may raise returns \<^verbatim>\<open>err + 'a\<close>.
    The text of a message is not modelled, the class and the numbers it carries are.
  \<^item> A Python \<^verbatim>\<open>dict\<close> is an association list in insertion order (\<^verbatim>\<open>AList.update\<close> keeps the
    position of an existing key and appends a new one, \<^verbatim>\<open>AList.delete\<close> removes it), because
    several routines of the code depend on the iteration order.
  \<^item> A \<^verbatim>\<open>collections.Counter\<close> is a dict into \<^verbatim>\<open>int\<close> whose missing keys read as 0.
  \<^item> Python integers are unbounded: \<^verbatim>\<open>int\<close>.  Python floats that carry seconds or rates are
    \<^verbatim>\<open>rat\<close>: rounding is not modelled.
\<close>

named_theorems queue_laws \<open>what every queue operation keeps\<close>
named_theorems dict_simps \<open>lookups after updates of a dict\<close>

section \<open>Errors as values\<close>

datatype err =
    ValueError
  | TypeError
  | KeyError
  | IndexError
  | RuntimeError
  | ZeroDivisionError
  | QueueFullError (qf_name: string) (qf_depth: int) (qf_capacity: int)
  | RequestCancelledError
  | ServerStateError
  | ValidationError
  | InferenceError
  | ConfigurationError
  | DeviceError
  | CapsSyntaxError
  | OverflowError

type_synonym 'a result = "err + 'a"

definition rbind :: "'e + 'a \<Rightarrow> ('a \<Rightarrow> 'e + 'b) \<Rightarrow> 'e + 'b" where
  "rbind r f = (case r of Inl e \<Rightarrow> Inl e | Inr x \<Rightarrow> f x)"

lemma rbind_simps [simp]: "rbind (Inl e) f = Inl e" "rbind (Inr x) f = f x"
  by (simp_all add: rbind_def)

lemma rbind_Inr_iff: "rbind r f = Inr y \<longleftrightarrow> (\<exists>x. r = Inr x \<and> f x = Inr y)"
  by (cases r) auto

lemma rbind_Inl_iff: "rbind r f = Inl e \<longleftrightarrow> r = Inl e \<or> (\<exists>x. r = Inr x \<and> f x = Inl e)"
  by (cases r) auto

text \<open>A list comprehension whose element expression may raise: the first error wins.\<close>

fun rmapM :: "('a \<Rightarrow> 'e + 'b) \<Rightarrow> 'a list \<Rightarrow> 'e + 'b list" where
  "rmapM f [] = Inr []"
| "rmapM f (x # xs) = rbind (f x) (\<lambda>y. rbind (rmapM f xs) (\<lambda>ys. Inr (y # ys)))"

lemma rmapM_Inr_iff:
  "rmapM f xs = Inr ys \<longleftrightarrow> list_all2 (\<lambda>x y. f x = Inr y) xs ys"
  by (induction xs arbitrary: ys) (auto simp: rbind_Inr_iff list_all2_Cons1)

lemma rmapM_total: "(\<And>x. x \<in> set xs \<Longrightarrow> f x = Inr (g x)) \<Longrightarrow> rmapM f xs = Inr (map g xs)"
  by (induction xs) auto

section \<open>Dicts and counters\<close>

type_synonym ('k, 'v) dict = "('k \<times> 'v) list"
type_synonym 'k counter = "('k, int) dict"

abbreviation dict_wf :: "('k, 'v) dict \<Rightarrow> bool" where
  "dict_wf d \<equiv> distinct (map fst d)"

lemma dict_get_update [dict_simps]:
  "map_of (AList.update k v d) k' = (if k' = k then Some v else map_of d k')"
  by (simp add: AList.update_conv')

lemma dict_get_delete [dict_simps]:
  "map_of (AList.delete k d) k' = (if k' = k then None else map_of d k')"
  by (simp add: AList.delete_conv')

lemma dict_wf_update [simp]: "dict_wf d \<Longrightarrow> dict_wf (AList.update k v d)"
  by (rule AList.distinct_update)

lemma dict_wf_delete [simp]: "dict_wf d \<Longrightarrow> dict_wf (AList.delete k d)"
  by (rule AList.distinct_delete)

lemma dict_keys_update:
  "map fst (AList.update k v d) = (if k \<in> set (map fst d) then map fst d else map fst d @ [k])"
  by (induction d) auto

lemma dict_keys_delete: "map fst (AList.delete k d) = filter (\<lambda>x. x \<noteq> k) (map fst d)"
  by (induction d) (auto simp: AList.delete_eq)

lemma dict_mem_update:
  "dict_wf d \<Longrightarrow> (x, y) \<in> set (AList.update k v d) \<longleftrightarrow>
    (if x = k then y = v else (x, y) \<in> set d)"
  by (induction d) (auto simp: image_iff)

lemma dict_mem_delete: "(x, y) \<in> set (AList.delete k d) \<longleftrightarrow> x \<noteq> k \<and> (x, y) \<in> set d"
  by (auto simp: AList.delete_eq)

lemma dict_get_iff: "dict_wf d \<Longrightarrow> map_of d k = Some v \<longleftrightarrow> (k, v) \<in> set d"
  by (rule map_of_eq_Some_iff)

lemma dict_keyset_update: "fst ` set (AList.update k v d) = insert k (fst ` set d)"
  by (induction d) auto

lemma dict_keyset_delete: "fst ` set (AList.delete k d) = fst ` set d - {k}"
  by (auto simp: AList.delete_eq image_iff)

definition counter_get :: "'k counter \<Rightarrow> 'k \<Rightarrow> int" where
  "counter_get c k = (case map_of c k of None \<Rightarrow> 0 | Some n \<Rightarrow> n)"

definition counter_inc :: "'k \<Rightarrow> 'k counter \<Rightarrow> 'k counter" where
  "counter_inc k c = AList.update k (counter_get c k + 1) c"

lemma counter_get_empty [simp]: "counter_get [] k = 0"
  by (simp add: counter_get_def)

lemma counter_get_inc [simp]:
  "counter_get (counter_inc k c) k' = counter_get c k' + (if k' = k then 1 else 0)"
  by (simp add: counter_get_def counter_inc_def dict_simps)

definition counter_total :: "'k counter \<Rightarrow> int" where
  "counter_total c = (\<Sum>p\<leftarrow>c. snd p)"

lemma counter_total_update:
  "counter_total (AList.update k v c) = counter_total c + v - counter_get c k"
  by (induction c) (auto simp: counter_total_def counter_get_def)

lemma counter_total_simps [simp]:
  "counter_total [] = 0" "counter_total (counter_inc k c) = counter_total c + 1"
  by (simp_all add: counter_inc_def counter_total_update) (simp add: counter_total_def)

text \<open>\<^verbatim>\<open>Counter.update(mapping)\<close> adds the mapping's counts.\<close>

definition counter_update :: "'k counter \<Rightarrow> 'k counter \<Rightarrow> 'k counter" where
  "counter_update m c = fold (\<lambda>(k, n) c. AList.update k (counter_get c k + n) c) m c"

lemma counter_get_update:
  "dict_wf m \<Longrightarrow> counter_get (counter_update m c) k = counter_get c k + counter_get m k"
proof (induction m arbitrary: c)
  case (Cons p m)
  obtain k' n where p: "p = (k', n)" by (cases p)
  with Cons.prems have "map_of m k' = None" by (auto simp: map_of_eq_None_iff)
  with Cons p show ?case by (auto simp: counter_update_def counter_get_def dict_simps)
qed (simp add: counter_update_def)

fun counter_inc_all :: "'k list \<Rightarrow> 'k counter \<Rightarrow> 'k counter" where
  "counter_inc_all [] c = c"
| "counter_inc_all (k # ks) c = counter_inc_all ks (counter_inc k c)"

lemma counter_get_inc_all:
  "counter_get (counter_inc_all ks c) k = counter_get c k + int (count_list ks k)"
  by (induction ks arbitrary: c) auto

section \<open>Sums over lists\<close>

lemma sum_list_int_length: "int (sum_list (map length xss)) = (\<Sum>xs\<leftarrow>xss. int (length xs))"
  by (induction xss) auto

lemma sum_list_nonneg_int: "(\<And>x. x \<in> set xs \<Longrightarrow> 0 \<le> f x) \<Longrightarrow> 0 \<le> (\<Sum>x\<leftarrow>xs. f x :: int)"
  by (induction xs) auto

text \<open>
  Python's \<^verbatim>\<open>max(xs, key=f)\<close> and \<^verbatim>\<open>min(xs, key=f)\<close>: the first element in iteration order that
  attains the extremum; \<^verbatim>\<open>ValueError\<close> on an empty iterable is left to the callers, which
  all guard against it.
\<close>

fun py_max :: "('a \<Rightarrow> 'b::linorder) \<Rightarrow> 'a \<Rightarrow> 'a list \<Rightarrow> 'a" where
  "py_max f m [] = m"
| "py_max f m (x # xs) = py_max f (if f m < f x then x else m) xs"

fun py_min :: "('a \<Rightarrow> 'b::linorder) \<Rightarrow> 'a \<Rightarrow> 'a list \<Rightarrow> 'a" where
  "py_min f m [] = m"
| "py_min f m (x # xs) = py_min f (if f x < f m then x else m) xs"

lemma py_max_in: "py_max f m xs \<in> insert m (set xs)"
  by (induction xs arbitrary: m) (fastforce split: if_splits)+

lemma py_max_ge: "x \<in> insert m (set xs) \<Longrightarrow> f x \<le> f (py_max f m xs)"
proof (induction xs arbitrary: m x)
  case (Cons y ys)
  let ?m = "if f m < f y then y else m"
  have "f ?m \<le> f (py_max f ?m ys)" by (rule Cons.IH) simp
  moreover have "f m \<le> f ?m" "f y \<le> f ?m" by auto
  ultimately show ?case using Cons.prems Cons.IH [of x ?m] by fastforce
qed simp

lemma py_min_in: "py_min f m xs \<in> insert m (set xs)"
  by (induction xs arbitrary: m) (fastforce split: if_splits)+

lemma py_min_le: "x \<in> insert m (set xs) \<Longrightarrow> f (py_min f m xs) \<le> f x"
proof (induction xs arbitrary: m x)
  case (Cons y ys)
  let ?m = "if f y < f m then y else m"
  have "f (py_min f ?m ys) \<le> f ?m" by (rule Cons.IH) simp
  moreover have "f ?m \<le> f m" "f ?m \<le> f y" by auto
  ultimately show ?case using Cons.prems Cons.IH [of x ?m] by fastforce
qed simp

section \<open>Buckets: a dict of lists\<close>

text \<open>
  The lanes, the reassembly index and the caching allocator all keep a dict of non-empty
  buckets.  \<^verbatim>\<open>bucket_items\<close> is everything they hold; the three lemmas say what replacing,
  adding and dropping a bucket does to it.
\<close>

definition bucket_items :: "('k, 'v list) dict \<Rightarrow> 'v list" where
  "bucket_items d = concat (map snd d)"

lemma bucket_items_simps [simp]:
  "bucket_items [] = []" "bucket_items ((k, b) # d) = b @ bucket_items d"
  by (simp_all add: bucket_items_def)

lemma set_bucket_items: "set (bucket_items d) = (\<Union>(k, b) \<in> set d. set b)"
  by (induction d) auto

lemma mset_bucket_update:
  "map_of d k = Some u \<Longrightarrow>
    mset (bucket_items (AList.update k v d)) + mset u = mset (bucket_items d) + mset v"
  by (induction d) (auto simp: ac_simps split: if_splits)

lemma mset_bucket_insert:
  "map_of d k = None \<Longrightarrow>
    mset (bucket_items (AList.update k v d)) = mset (bucket_items d) + mset v"
  by (induction d) (auto simp: ac_simps split: if_splits)

lemma bucket_delete_absent: "k \<notin> fst ` set d \<Longrightarrow> AList.delete k d = d"
  by (simp add: AList.delete_id)

lemma mset_bucket_delete:
  "dict_wf d \<Longrightarrow> map_of d k = Some u \<Longrightarrow>
    mset (bucket_items (AList.delete k d)) + mset u = mset (bucket_items d)"
proof (induction d)
  case (Cons p d)
  obtain k' b where p: "p = (k', b)" by (cases p)
  show ?case
  proof (cases "k' = k")
    case True
    with Cons.prems p have "AList.delete k d = d" by (auto intro!: bucket_delete_absent)
    with True Cons.prems p show ?thesis by (auto simp: AList.delete_eq ac_simps)
  next
    case False
    with Cons p show ?thesis by (auto simp: AList.delete_eq ac_simps)
  qed
qed simp

lemma length_bucket_delete:
  "map_of d k = Some u \<Longrightarrow> length (bucket_items (AList.delete k d)) + length u \<le> length (bucket_items d)"
proof (induction d)
  case (Cons p d)
  obtain k' b where p: "p = (k', b)" by (cases p)
  show ?case
  proof (cases "k' = k")
    case True
    have "length (bucket_items (AList.delete k d)) \<le> length (bucket_items d)"
      by (induction d) (auto simp: AList.delete_eq)
    with True Cons.prems p show ?thesis by (auto simp: AList.delete_eq)
  next
    case False
    with Cons p show ?thesis by (auto simp: AList.delete_eq)
  qed
qed simp

lemma length_bucket_items_mset: "length (bucket_items d) = size (mset (bucket_items d))"
  by simp

lemma mset_concat_list_update:
  "i < length xs \<Longrightarrow>
    mset (concat (map f (xs[i := x]))) + mset (f (xs ! i)) = mset (concat (map f xs)) + mset (f x)"
proof (induction xs arbitrary: i)
  case (Cons y ys)
  then show ?case by (cases i) (auto simp: ac_simps)
qed simp

section \<open>Concatenations\<close>

lemma in_set_concat_nth: "w \<in> set (concat xss) \<longleftrightarrow> (\<exists>j < length xss. w \<in> set (xss ! j))"
  by (metis (no_types, lifting) UN_iff in_set_conv_nth set_concat)

lemma sorted_concat:
  "(\<And>i w. i < length xss \<Longrightarrow> w \<in> set (xss ! i) \<Longrightarrow> g w = k + i) \<Longrightarrow> sorted (map g (concat xss))"
proof (induction xss arbitrary: k)
  case (Cons xs xss)
  have a: "g w = k" if "w \<in> set xs" for w using Cons.prems[of 0] that by simp
  have b: "g w = Suc k + i" if "i < length xss" "w \<in> set (xss ! i)" for i w
    using Cons.prems[of "Suc i"] that by simp
  have "sorted (map g xs)" using a by (auto simp: sorted_iff_nth_mono)
  moreover have "k \<le> g w" if "w \<in> set (concat xss)" for w
    using that b by (fastforce simp: in_set_conv_nth)
  ultimately show ?case using Cons.IH[of "Suc k"] a b by (auto simp: sorted_append)
qed simp

lemma filter_concat_level:
  assumes "i < length xss" and "\<And>j w. j < length xss \<Longrightarrow> w \<in> set (xss ! j) \<Longrightarrow> P w \<longleftrightarrow> j = i"
  shows "filter P (concat xss) = xss ! i"
proof -
  have c: "concat xss = concat (take i xss) @ xss ! i @ concat (drop (Suc i) xss)"
    using assms(1) by (metis concat.simps(2) concat_append id_take_nth_drop)
  have "\<not> P w" if w: "w \<in> set (concat (take i xss)) \<or> w \<in> set (concat (drop (Suc i) xss))" for w
  proof -
    from w assms(1) consider j where "j < i" "w \<in> set (xss ! j)"
      | j where "Suc (i + j) < length xss" "w \<in> set (xss ! Suc (i + j))"
      unfolding in_set_concat_nth by (auto simp: less_diff_conv ac_simps)
    then show ?thesis
    proof cases
      case (1 j)
      then show ?thesis using assms(1) assms(2)[of j w] by simp
    next
      case (2 j)
      then show ?thesis using assms(2)[of "Suc (i + j)" w] by simp
    qed
  qed
  then have "filter P (concat (take i xss)) = []" "filter P (concat (drop (Suc i) xss)) = []"
    by (auto simp: filter_empty_conv)
  moreover have "filter P (xss ! i) = xss ! i" using assms by (auto simp: filter_id_conv)
  ultimately show ?thesis by (subst c) simp
qed

lemma mset_filter_split: "mset (filter P (filter (\<lambda>x. \<not> Q x) xs @ filter Q xs)) = mset (filter P xs)"
  by (induction xs) (auto simp: filter_filter_mset)

end
