(* ===== verification/Tensor_Types.thy ===== *)
theory Tensor_Types
  imports Prelude
begin

text \<open>
  \<^verbatim>\<open>src/shipinfer/core/types\<close>: devices, element types, declared tensor contracts, the tensor
  value object, \<^verbatim>\<open>stack_tensors\<close> and \<^verbatim>\<open>validate_against\<close>.

  A numpy array is its dtype, its shape and its elements in C order (every array that crosses
  a seam is contiguous: \<^verbatim>\<open>Tensor.from_numpy\<close> enforces it).  An element is an \<^verbatim>\<open>int\<close> that
  stands for its bit pattern.  numpy itself is only called, so the model holds the two array
  operations the code uses: the row slice \<^verbatim>\<open>a[start:stop]\<close> and the slice assignment into a
  preallocated destination.
\<close>

section \<open>Devices and element types\<close>

datatype device_kind = KCpu | KCuda

record device =
  kind :: device_kind
  index :: int

definition device_cpu :: device where
  "device_cpu = \<lparr>kind = KCpu, index = 0\<rparr>"

definition device_cuda :: "int \<Rightarrow> device result" where
  "device_cuda i = (if i < 0 then Inl ValueError else Inr \<lparr>kind = KCuda, index = i\<rparr>)"

definition is_cuda :: "device \<Rightarrow> bool" where
  "is_cuda d \<longleftrightarrow> kind d = KCuda"

datatype data_type = BOOL | UINT8 | INT8 | INT32 | INT64 | FP16 | FP32 | FP64

datatype np_dtype =
    NpBool | NpUint8 | NpInt8 | NpInt32 | NpInt64 | NpFloat16 | NpFloat32 | NpFloat64
  | NpOther string

fun numpy_dtype :: "data_type \<Rightarrow> np_dtype" where
  "numpy_dtype BOOL = NpBool"
| "numpy_dtype UINT8 = NpUint8"
| "numpy_dtype INT8 = NpInt8"
| "numpy_dtype INT32 = NpInt32"
| "numpy_dtype INT64 = NpInt64"
| "numpy_dtype FP16 = NpFloat16"
| "numpy_dtype FP32 = NpFloat32"
| "numpy_dtype FP64 = NpFloat64"

definition all_data_types :: "data_type list" where
  "all_data_types = [BOOL, UINT8, INT8, INT32, INT64, FP16, FP32, FP64]"

text \<open>\<^verbatim>\<open>_DTYPE_BY_NUMPY\<close> is the inverted table; an unknown dtype raises.\<close>

definition dtype_from_numpy :: "np_dtype \<Rightarrow> data_type result" where
  "dtype_from_numpy d =
     (case map_of (map (\<lambda>k. (numpy_dtype k, k)) all_data_types) d of
        None \<Rightarrow> Inl ValueError
      | Some k \<Rightarrow> Inr k)"

fun itemsize :: "data_type \<Rightarrow> int" where
  "itemsize BOOL = 1"
| "itemsize UINT8 = 1"
| "itemsize INT8 = 1"
| "itemsize INT32 = 4"
| "itemsize INT64 = 8"
| "itemsize FP16 = 2"
| "itemsize FP32 = 4"
| "itemsize FP64 = 8"

datatype memory_kind = HOST | PINNED | DEVICE

section \<open>Declared contracts\<close>

definition DYNAMIC :: int where
  "DYNAMIC = -1"

record tensor_spec =
  sname :: string
  sdtype :: data_type
  sshape :: "int list"
  optional :: bool

text \<open>\<^verbatim>\<open>TensorSpec.__post_init__\<close>.\<close>

definition mk_tensor_spec :: "string \<Rightarrow> data_type \<Rightarrow> int list \<Rightarrow> bool \<Rightarrow> tensor_spec result" where
  "mk_tensor_spec n d sh opt =
     (if n = [] then Inl ValueError
      else if \<exists>dim \<in> set sh. dim < 0 \<and> dim \<noteq> DYNAMIC then Inl ValueError
      else Inr \<lparr>sname = n, sdtype = d, sshape = sh, optional = opt\<rparr>)"

definition is_dynamic :: "tensor_spec \<Rightarrow> bool" where
  "is_dynamic s \<longleftrightarrow> DYNAMIC \<in> set (sshape s)"

definition spec_matches :: "tensor_spec \<Rightarrow> int list \<Rightarrow> bool" where
  "spec_matches s sh \<longleftrightarrow>
     (if length sh \<noteq> length (sshape s) then False
      else list_all (\<lambda>(want, got). want = DYNAMIC \<or> want = got) (zip (sshape s) sh))"

definition spec_nbytes :: "tensor_spec \<Rightarrow> int \<Rightarrow> int result" where
  "spec_nbytes s batch_size =
     (if is_dynamic s then Inl ValueError
      else Inr (fold (\<lambda>dim count. count * dim) (sshape s) batch_size * itemsize (sdtype s)))"

section \<open>Arrays and tensors\<close>

record ndarray =
  nd_dtype :: np_dtype
  nd_shape :: "int list"
  nd_data :: "int list"

definition prod_dims :: "int list \<Rightarrow> int" where
  "prod_dims sh = fold (\<lambda>dim count. count * dim) sh 1"

definition nd_wf :: "ndarray \<Rightarrow> bool" where
  "nd_wf a \<longleftrightarrow> (\<forall>d \<in> set (nd_shape a). 0 \<le> d) \<and> int (length (nd_data a)) = prod_dims (nd_shape a)"

text \<open>A slice bound as Python clips it: negative counts from the end.\<close>

definition slice_bound :: "int \<Rightarrow> int \<Rightarrow> int" where
  "slice_bound n i = (if i < 0 then max 0 (i + n) else min i n)"

text \<open>\<^verbatim>\<open>a[start:stop]\<close>: rows \<^verbatim>\<open>[start, stop)\<close> along axis 0; a 0-d array has no axis to slice.\<close>

definition nd_rows :: "ndarray \<Rightarrow> int \<Rightarrow> int \<Rightarrow> ndarray result" where
  "nd_rows a start stop =
     (case nd_shape a of
        [] \<Rightarrow> Inl IndexError
      | n # rest \<Rightarrow>
          (let lo = slice_bound n start; hi = slice_bound n stop; r = max 0 (hi - lo);
               w = prod_dims rest
           in Inr \<lparr>nd_dtype = nd_dtype a, nd_shape = r # rest,
                   nd_data = take (nat (r * w)) (drop (nat (lo * w)) (nd_data a))\<rparr>))"

record tensor =
  dtype :: data_type
  shape :: "int list"
  tdevice :: device
  tmemory :: memory_kind
  host :: "ndarray option"
  handle :: "nat option"

text \<open>\<^verbatim>\<open>Tensor.__post_init__\<close>: exactly one of host and handle, and the shapes agree.\<close>

definition mk_tensor ::
  "data_type \<Rightarrow> int list \<Rightarrow> device \<Rightarrow> memory_kind \<Rightarrow> ndarray option \<Rightarrow> nat option \<Rightarrow> tensor result" where
  "mk_tensor d sh dev mk h hnd =
     (if (h = None) = (hnd = None) then Inl ValueError
      else case h of
        Some a \<Rightarrow>
          if nd_shape a \<noteq> sh then Inl ValueError
          else Inr \<lparr>dtype = d, shape = sh, tdevice = dev, tmemory = mk, host = h, handle = hnd\<rparr>
      | None \<Rightarrow> Inr \<lparr>dtype = d, shape = sh, tdevice = dev, tmemory = mk, host = h, handle = hnd\<rparr>)"

definition from_numpy :: "ndarray \<Rightarrow> tensor result" where
  "from_numpy a =
     rbind (dtype_from_numpy (nd_dtype a))
       (\<lambda>d. mk_tensor d (nd_shape a) device_cpu HOST (Some a) None)"

definition tensor_batch_size :: "tensor \<Rightarrow> int" where
  "tensor_batch_size t = (case shape t of [] \<Rightarrow> 1 | n # _ \<Rightarrow> n)"

definition element_count :: "tensor \<Rightarrow> int" where
  "element_count t = prod_dims (shape t)"

definition tensor_nbytes :: "tensor \<Rightarrow> int" where
  "tensor_nbytes t = element_count t * itemsize (dtype t)"

definition tensor_numpy :: "tensor \<Rightarrow> ndarray result" where
  "tensor_numpy t = (case host t of None \<Rightarrow> Inl RuntimeError | Some a \<Rightarrow> Inr a)"

definition slice_batch :: "tensor \<Rightarrow> int \<Rightarrow> int \<Rightarrow> tensor result" where
  "slice_batch t start stop =
     (case host t of
        None \<Rightarrow> Inl RuntimeError
      | Some a \<Rightarrow>
          rbind (nd_rows a start stop)
            (\<lambda>view. mk_tensor (dtype t) (nd_shape view) (tdevice t) (tmemory t) (Some view) None))"

section \<open>Stacking\<close>

text \<open>
  The first loop of \<^verbatim>\<open>stack_tensors\<close>: every tensor has the head's dtype and row shape; the
  rows are summed.  \<^verbatim>\<open>t.shape[0]\<close> of a 0-d tensor raises.
\<close>

fun stack_check :: "data_type \<Rightarrow> int list \<Rightarrow> int \<Rightarrow> tensor list \<Rightarrow> int result" where
  "stack_check d rs tot [] = Inr tot"
| "stack_check d rs tot (t # ts) =
     (if dtype t \<noteq> d then Inl ValueError
      else if tl (shape t) \<noteq> rs then Inl ValueError
      else case shape t of
        [] \<Rightarrow> Inl IndexError
      | rows # _ \<Rightarrow> stack_check d rs (tot + rows) ts)"

text \<open>
  The second loop: \<^verbatim>\<open>out[offset : offset + rows] = t.numpy()\<close>, one slice assignment per tensor
  into the destination, which \<^verbatim>\<open>np.empty\<close> left with arbitrary elements.
\<close>

fun stack_fill :: "int \<Rightarrow> int list \<Rightarrow> int \<Rightarrow> tensor list \<Rightarrow> int list result" where
  "stack_fill w out off [] = Inr out"
| "stack_fill w out off (t # ts) =
     (case shape t of
        [] \<Rightarrow> Inl IndexError
      | rows # _ \<Rightarrow>
          rbind (tensor_numpy t)
            (\<lambda>a. stack_fill w
                   (take (nat (off * w)) out @ nd_data a @ drop (nat ((off + rows) * w)) out)
                   (off + rows) ts))"

definition stack_tensors :: "tensor list \<Rightarrow> tensor result" where
  "stack_tensors ts =
     (case ts of
        [] \<Rightarrow> Inl ValueError
      | [t] \<Rightarrow> Inr t
      | head # _ \<Rightarrow>
          (let rs = tl (shape head); w = prod_dims rs in
           rbind (stack_check (dtype head) rs 0 ts)
             (\<lambda>tot. rbind (stack_fill w (replicate (nat (tot * w)) 0) 0 ts)
               (\<lambda>out. from_numpy \<lparr>nd_dtype = numpy_dtype (dtype head), nd_shape = tot # rs,
                                  nd_data = out\<rparr>))))"

section \<open>Validation against declared specs\<close>

definition specs_by_name :: "tensor_spec list \<Rightarrow> (string, tensor_spec) dict" where
  "specs_by_name specs = fold (\<lambda>s d. AList.update (sname s) s d) specs []"

definition validate_one :: "(string, tensor_spec) dict \<Rightarrow> string \<times> tensor \<Rightarrow> unit result" where
  "validate_one by_name nt =
     (case map_of by_name (fst nt) of
        None \<Rightarrow> Inl ValueError
      | Some s \<Rightarrow>
          if dtype (snd nt) \<noteq> sdtype s then Inl ValueError
          else if \<not> spec_matches s (tl (shape (snd nt))) then Inl ValueError
          else Inr ())"

definition validate_against :: "(string, tensor) dict \<Rightarrow> tensor_spec list \<Rightarrow> unit result" where
  "validate_against tensors specs =
     (let by_name = specs_by_name specs in
      if \<exists>s \<in> set (map snd by_name). sname s \<notin> set (map fst tensors) \<and> \<not> optional s
      then Inl ValueError
      else rbind (rmapM (validate_one by_name) tensors) (\<lambda>_. Inr ()))"

end
