(* ===== verification/Requests.thy ===== *)
theory Requests
  imports Tensor_Types
begin

text \<open>
  \<^verbatim>\<open>src/shipinfer/core/request\<close> and \<^verbatim>\<open>src/shipinfer/scheduling/work.py\<close>: priorities, the
  provenance tag, timings, the request, the future a caller waits on, and the work item that
  travels through the scheduler.

  A future is identified by a number and its state is kept in a store from numbers to states;
  the queues name the future they fail, and \<^verbatim>\<open>future_fail\<close> says what that does to the store.
  The four states are those of \<^verbatim>\<open>concurrent.futures.Future\<close> that \<^verbatim>\<open>WorkItem.fail\<close> can meet.
\<close>

section \<open>Priorities\<close>

datatype priority = TRACKING_CRITICAL | HIGH | NORMAL | BACKGROUND

fun prio :: "priority \<Rightarrow> nat" where
  "prio TRACKING_CRITICAL = 0"
| "prio HIGH = 1"
| "prio NORMAL = 2"
| "prio BACKGROUND = 3"

definition all_priorities :: "priority list" where
  "all_priorities = [TRACKING_CRITICAL, HIGH, NORMAL, BACKGROUND]"

fun prio_name :: "priority \<Rightarrow> string" where
  "prio_name TRACKING_CRITICAL = ''TRACKING_CRITICAL''"
| "prio_name HIGH = ''HIGH''"
| "prio_name NORMAL = ''NORMAL''"
| "prio_name BACKGROUND = ''BACKGROUND''"

text \<open>What an operator or a client wrote: the Python values \<^verbatim>\<open>Priority.parse\<close> tells apart.\<close>

datatype py_value =
    PyNone
  | PyBool bool
  | PyInt int
  | PyStr string
  | PyPriority priority
  | PyOther

definition ascii_upper :: "char \<Rightarrow> char" where
  "ascii_upper c =
     (if 97 \<le> (of_char c :: nat) \<and> (of_char c :: nat) \<le> 122
      then char_of ((of_char c :: nat) - 32) else c)"

definition prio_of_int :: "int \<Rightarrow> priority option" where
  "prio_of_int i = List.find (\<lambda>p. int (prio p) = i) all_priorities"

definition prio_of_name :: "string \<Rightarrow> priority option" where
  "prio_of_name s = List.find (\<lambda>p. prio_name p = s) all_priorities"

text \<open>
  \<^verbatim>\<open>Priority.parse\<close>, on ASCII text (the band names are ASCII).  \<^verbatim>\<open>int(text)\<close> is Python's own parser of integer literals and a parameter
  here: \<^verbatim>\<open>None\<close> where it raises \<^verbatim>\<open>ValueError\<close>.
\<close>

definition priority_parse :: "(string \<Rightarrow> int option) \<Rightarrow> py_value \<Rightarrow> priority result" where
  "priority_parse py_int v =
     (case v of
        PyPriority p \<Rightarrow> Inr p
      | PyInt i \<Rightarrow> (case prio_of_int i of Some p \<Rightarrow> Inr p | None \<Rightarrow> Inl ValueError)
      | PyStr s \<Rightarrow>
          (case prio_of_name (map ascii_upper s) of
             Some p \<Rightarrow> Inr p
           | None \<Rightarrow>
               (case py_int s of
                  None \<Rightarrow> Inl ValueError
                | Some i \<Rightarrow> (case prio_of_int i of Some p \<Rightarrow> Inr p | None \<Rightarrow> Inl ValueError)))
      | _ \<Rightarrow> Inl ValueError)"

section \<open>Requests\<close>

record request_context =
  camera_id :: string
  frame_id :: int
  captured_ns :: int
  captured_unix_ns :: int
  trace_id :: string

definition context_key :: "request_context \<Rightarrow> string \<times> int" where
  "context_key c = (camera_id c, frame_id c)"

record timings =
  received_ns :: int
  queued_ns :: int
  batched_ns :: int
  compute_start_ns :: int
  compute_end_ns :: int
  completed_ns :: int

definition queue_us :: "timings \<Rightarrow> rat" where
  "queue_us t = of_int (max 0 (batched_ns t - queued_ns t)) / 1000"

definition compute_us :: "timings \<Rightarrow> rat" where
  "compute_us t = of_int (max 0 (compute_end_ns t - compute_start_ns t)) / 1000"

definition total_us :: "timings \<Rightarrow> rat" where
  "total_us t = of_int (max 0 (completed_ns t - received_ns t)) / 1000"

record inference_request =
  model_name :: string
  inputs :: "(string, tensor) dict"
  request_id :: int
  ctx :: request_context
  priority :: priority
  deadline_ns :: int
  resident_device :: "device option"
  tms :: timings

text \<open>\<^verbatim>\<open>InferenceRequest.batch_size\<close>: the rows of the first input, 0 without inputs.\<close>

definition req_batch_size :: "inference_request \<Rightarrow> int" where
  "req_batch_size r = (case inputs r of [] \<Rightarrow> 0 | (_, t) # _ \<Rightarrow> tensor_batch_size t)"

definition is_expired :: "inference_request \<Rightarrow> int \<Rightarrow> bool" where
  "is_expired r now \<longleftrightarrow> (if deadline_ns r = 0 then False else now > deadline_ns r)"

section \<open>Futures\<close>

datatype fut_state =
    PENDING
  | RUNNING
  | CANCELLED
  | CANCELLED_AND_NOTIFIED
  | FAILED err
  | RESULT

type_synonym futures = "nat \<Rightarrow> fut_state"

text \<open>\<^verbatim>\<open>Future.set_running_or_notify_cancel\<close>: raises on a future already taken.\<close>

definition set_running_or_notify_cancel :: "fut_state \<Rightarrow> (fut_state \<times> bool) result" where
  "set_running_or_notify_cancel s =
     (case s of
        CANCELLED \<Rightarrow> Inr (CANCELLED_AND_NOTIFIED, False)
      | PENDING \<Rightarrow> Inr (RUNNING, True)
      | _ \<Rightarrow> Inl RuntimeError)"

section \<open>Work items\<close>

record work_item =
  req :: inference_request
  fut :: nat
  enqueued_ns :: int

definition fairness_key :: "work_item \<Rightarrow> string" where
  "fairness_key w = (if camera_id (ctx (req w)) = [] then ''-'' else camera_id (ctx (req w)))"

text \<open>\<^verbatim>\<open>item.request.batch_size or 1\<close>: the rows an item is charged with everywhere.\<close>

definition item_rows :: "work_item \<Rightarrow> int" where
  "item_rows w = (if req_batch_size (req w) = 0 then 1 else req_batch_size (req w))"

text \<open>\<^verbatim>\<open>item.request.timings.queued_ns = item.enqueued_ns\<close>, the stamp both queues write.\<close>

definition stamp_queued :: "work_item \<Rightarrow> work_item" where
  "stamp_queued w = w\<lparr>req := (req w)\<lparr>tms := (tms (req w))\<lparr>queued_ns := enqueued_ns w\<rparr>\<rparr>\<rparr>"

text \<open>\<^verbatim>\<open>WorkItem.fail\<close>: complete the future with an error unless the caller already gave up.\<close>

definition future_fail :: "work_item \<Rightarrow> err \<Rightarrow> futures \<Rightarrow> futures result" where
  "future_fail w e fs =
     rbind (set_running_or_notify_cancel (fs (fut w)))
       (\<lambda>(s, running). Inr (if running then fs(fut w := FAILED e) else fs(fut w := s)))"

definition summarise_fairness :: "work_item list \<Rightarrow> string counter" where
  "summarise_fairness items = fold (\<lambda>w d. counter_inc (fairness_key w) d) items []"

lemma stamp_queued_simps [simp]:
  "fairness_key (stamp_queued w) = fairness_key w"
  "item_rows (stamp_queued w) = item_rows w"
  "priority (req (stamp_queued w)) = priority (req w)"
  "fut (stamp_queued w) = fut w"
  "is_expired (req (stamp_queued w)) now = is_expired (req w) now"
  "enqueued_ns (stamp_queued w) = enqueued_ns w"
  by (simp_all add: stamp_queued_def fairness_key_def item_rows_def req_batch_size_def is_expired_def)

lemma prio_less_4 [simp]: "prio p < 4"
  by (cases p) auto

lemma prio_inj [simp]: "prio p = prio q \<longleftrightarrow> p = q"
  by (cases p; cases q) auto

text \<open>Counting a batch by camera: what \<^verbatim>\<open>shipinfer bench\<close> reports is the number of items.\<close>

lemma summarise_fairness_count:
  "counter_get (summarise_fairness items) k = int (count_list (map fairness_key items) k)"
proof -
  have "counter_get (fold (\<lambda>w d. counter_inc (fairness_key w) d) items c) k =
      counter_get c k + int (count_list (map fairness_key items) k)" for c
    by (induction items arbitrary: c) auto
  then show ?thesis by (simp add: summarise_fairness_def)
qed

lemma prio_of_int_complete: "prio_of_int i = Some p \<longleftrightarrow> i = int (prio p)"
  by (cases p) (auto simp: prio_of_int_def all_priorities_def)

text \<open>A one-row request of a camera, used by the concrete runs below and in the other theories.\<close>

definition sample_item :: "string \<Rightarrow> priority \<Rightarrow> int \<Rightarrow> nat \<Rightarrow> work_item" where
  "sample_item cam p deadline n =
     \<lparr>req = \<lparr>model_name = ''yolo'', inputs = [], request_id = int n,
        ctx = \<lparr>camera_id = cam, frame_id = int n, captured_ns = 0, captured_unix_ns = 0, trace_id = []\<rparr>,
        priority = p, deadline_ns = deadline, resident_device = None,
        tms = \<lparr>received_ns = 0, queued_ns = 0, batched_ns = 0, compute_start_ns = 0,
               compute_end_ns = 0, completed_ns = 0\<rparr>\<rparr>,
      fut = n, enqueued_ns = int n\<rparr>"

lemma sample_item_simps [simp]:
  "fairness_key (sample_item cam p d n) = (if cam = [] then ''-'' else cam)"
  "priority (req (sample_item cam p d n)) = p" "item_rows (sample_item cam p d n) = 1"
  "is_expired (req (sample_item cam p d n)) now \<longleftrightarrow> d \<noteq> 0 \<and> d < now"
  "fut (sample_item cam p d n) = n"
  by (simp_all add: sample_item_def fairness_key_def item_rows_def req_batch_size_def is_expired_def)

end
