(* ===== verification/Lane.thy ===== *)
theory Lane
  imports Requests
begin

text \<open>
  \<^verbatim>\<open>src/shipinfer/scheduling/queues/lanes.py\<close>: one priority level of the fair queue, per-key
  FIFOs plus a round-robin cursor over the active keys.  The deques are lists with their left
  end first, \<^verbatim>\<open>by_key\<close> keeps Python's insertion order (the eviction breaks ties by it), and
  \<^verbatim>\<open>size\<close> is the separate integer field of the class.  Operations that index or pop raise as
  the containers do; \<^verbatim>\<open>lane_wf\<close> is the invariant under which none of them raises.
\<close>

record lane =
  by_key :: "(string, work_item list) dict"
  rr_order :: "string list"
  lsize :: int

definition lane_init :: lane where
  "lane_init = \<lparr>by_key = [], rr_order = [], lsize = 0\<rparr>"

definition lane_push :: "work_item \<Rightarrow> lane \<Rightarrow> lane" where
  "lane_push item l =
     (let key = fairness_key item in
      case map_of (by_key l) key of
        None \<Rightarrow> l\<lparr>by_key := AList.update key [item] (by_key l),
                  rr_order := rr_order l @ [key],
                  lsize := lsize l + 1\<rparr>
      | Some bucket \<Rightarrow> l\<lparr>by_key := AList.update key (bucket @ [item]) (by_key l),
                         lsize := lsize l + 1\<rparr>)"

definition lane_pop :: "lane \<Rightarrow> (work_item \<times> lane) result" where
  "lane_pop l =
     (case rr_order l of
        [] \<Rightarrow> Inl IndexError
      | key # rest \<Rightarrow>
          (case map_of (by_key l) key of
             None \<Rightarrow> Inl KeyError
           | Some [] \<Rightarrow> Inl IndexError
           | Some (item # bucket) \<Rightarrow>
               Inr (item,
                 if bucket \<noteq> []
                 then l\<lparr>by_key := AList.update key bucket (by_key l),
                        rr_order := rest @ [key], lsize := lsize l - 1\<rparr>
                 else l\<lparr>by_key := AList.delete key (by_key l),
                        rr_order := rest, lsize := lsize l - 1\<rparr>)))"

definition lane_peek :: "lane \<Rightarrow> work_item option result" where
  "lane_peek l =
     (case rr_order l of
        [] \<Rightarrow> Inr None
      | key # _ \<Rightarrow>
          (case map_of (by_key l) key of
             None \<Rightarrow> Inl KeyError
           | Some [] \<Rightarrow> Inl IndexError
           | Some (item # _) \<Rightarrow> Inr (Some item)))"

text \<open>\<^verbatim>\<open>max(self.by_key, key=lambda k: len(self.by_key[k]))\<close>: the first longest bucket.\<close>

definition longest_key :: "(string, work_item list) dict \<Rightarrow> string option" where
  "longest_key d =
     (case map fst d of
        [] \<Rightarrow> None
      | k # ks \<Rightarrow> Some (py_max (\<lambda>k. length (case map_of d k of None \<Rightarrow> [] | Some b \<Rightarrow> b)) k ks))"

definition evict_from_longest :: "lane \<Rightarrow> (work_item \<times> lane) option result" where
  "evict_from_longest l =
     (case longest_key (by_key l) of
        None \<Rightarrow> Inr None
      | Some key \<Rightarrow>
          (case map_of (by_key l) key of
             None \<Rightarrow> Inl KeyError
           | Some [] \<Rightarrow> Inl IndexError
           | Some (item # bucket) \<Rightarrow>
               if bucket \<noteq> []
               then Inr (Some (item, l\<lparr>by_key := AList.update key bucket (by_key l),
                                       lsize := lsize l - 1\<rparr>))
               else if key \<notin> set (rr_order l) then Inl ValueError
               else Inr (Some (item, l\<lparr>by_key := AList.delete key (by_key l),
                                       rr_order := remove1 key (rr_order l),
                                       lsize := lsize l - 1\<rparr>))))"

definition lane_depths :: "lane \<Rightarrow> string counter" where
  "lane_depths l = map (\<lambda>(key, bucket). (key, int (length bucket))) (by_key l)"

definition lane_drain :: "lane \<Rightarrow> work_item list \<times> lane" where
  "lane_drain l = (bucket_items (by_key l), l\<lparr>by_key := [], rr_order := [], lsize := 0\<rparr>)"

section \<open>The lane invariant\<close>

abbreviation lane_items :: "lane \<Rightarrow> work_item list" where
  "lane_items l \<equiv> bucket_items (by_key l)"

definition bucket_ok :: "string \<times> work_item list \<Rightarrow> bool" where
  "bucket_ok p \<longleftrightarrow> snd p \<noteq> [] \<and> (\<forall>w \<in> set (snd p). fairness_key w = fst p)"

definition lane_wf :: "lane \<Rightarrow> bool" where
  "lane_wf l \<longleftrightarrow>
     dict_wf (by_key l) \<and> (\<forall>p \<in> set (by_key l). bucket_ok p) \<and>
     distinct (rr_order l) \<and> set (rr_order l) = fst ` set (by_key l) \<and>
     lsize l = int (length (lane_items l))"

lemma lane_wf_init [simp]: "lane_wf lane_init"
  by (simp add: lane_wf_def lane_init_def)

lemma lane_wfD:
  assumes "lane_wf l"
  shows "dict_wf (by_key l)" "distinct (rr_order l)" "set (rr_order l) = fst ` set (by_key l)"
    "lsize l = int (length (lane_items l))"
    "map_of (by_key l) k = Some b \<Longrightarrow> b \<noteq> []"
    "map_of (by_key l) k = Some b \<Longrightarrow> w \<in> set b \<Longrightarrow> fairness_key w = k"
    "k \<in> set (rr_order l) \<longleftrightarrow> map_of (by_key l) k \<noteq> None"
  using assms by (auto simp: lane_wf_def bucket_ok_def map_of_eq_None_iff dest!: map_of_SomeD)

lemma lane_empty_iff:
  assumes "lane_wf l"
  shows "rr_order l = [] \<longleftrightarrow> lane_items l = []"
proof -
  have "lane_items l = [] \<longleftrightarrow> by_key l = []"
    using assms by (cases "by_key l") (auto simp: lane_wf_def bucket_ok_def)
  moreover have "rr_order l = [] \<longleftrightarrow> by_key l = []"
    using lane_wfD(3)[OF assms] by (metis image_is_empty set_empty)
  ultimately show ?thesis by simp
qed

lemma lane_push_wf:
  assumes "lane_wf l"
  shows "lane_wf (lane_push item l)" and "mset (lane_items (lane_push item l)) = add_mset item (mset (lane_items l))"
proof -
  let ?k = "fairness_key item"
  show ms: "mset (lane_items (lane_push item l)) = add_mset item (mset (lane_items l))"
  proof (cases "map_of (by_key l) ?k")
    case None
    then show ?thesis by (simp add: lane_push_def Let_def mset_bucket_insert)
  next
    case (Some b)
    from mset_bucket_update[OF this, of "b @ [item]"] show ?thesis
      by (simp add: lane_push_def Let_def Some)
  qed
  have len: "int (length (lane_items (lane_push item l))) = int (length (lane_items l)) + 1"
    using arg_cong[OF ms, of size] by simp
  show "lane_wf (lane_push item l)"
  proof (cases "map_of (by_key l) ?k")
    case None
    then have "?k \<notin> fst ` set (by_key l)" by (simp add: map_of_eq_None_iff)
    then show ?thesis using None assms len
      by (auto simp: lane_wf_def lane_push_def Let_def dict_keyset_update dict_mem_update
          bucket_ok_def split: if_splits)
  next
    case (Some b)
    then have kb: "(?k, b) \<in> set (by_key l)" by (rule map_of_SomeD)
    then have kin: "?k \<in> fst ` set (by_key l)" by force
    define d where "d = AList.update ?k (b @ [item]) (by_key l)"
    have "dict_wf d" using assms by (simp add: d_def lane_wf_def)
    moreover have "\<forall>p \<in> set d. bucket_ok p"
      using kb assms
      by (auto simp: d_def dict_mem_update lane_wf_def bucket_ok_def split: if_splits)
    moreover have "fst ` set d = fst ` set (by_key l)"
      using kin by (simp add: d_def dict_keyset_update insert_absorb)
    moreover have "lane_push item l = l\<lparr>by_key := d, lsize := lsize l + 1\<rparr>"
      by (simp add: lane_push_def Let_def Some d_def)
    ultimately show ?thesis using assms len by (simp add: lane_wf_def)
  qed
qed

lemma lane_pop_spec:
  assumes "lane_wf l" and "rr_order l = k # ks"
  obtains w ws l' where "map_of (by_key l) k = Some (w # ws)" "lane_pop l = Inr (w, l')"
    "l' = l\<lparr>by_key := if ws = [] then AList.delete k (by_key l) else AList.update k ws (by_key l),
            rr_order := ks @ (if ws = [] then [] else [k]), lsize := lsize l - 1\<rparr>"
proof -
  from assms have "map_of (by_key l) k \<noteq> None" using lane_wfD(7)[OF assms(1), of k] by simp
  then obtain b where b: "map_of (by_key l) k = Some b" by blast
  with lane_wfD(5)[OF assms(1)] obtain w ws where "b = w # ws" by (cases b) auto
  with b assms(2) that show ?thesis by (simp add: lane_pop_def)
qed

lemma bucket_drop_head:
  assumes "lane_wf l" and "map_of (by_key l) k = Some (w # ws)"
    and "d = (if ws = [] then AList.delete k (by_key l) else AList.update k ws (by_key l))"
  shows "add_mset w (mset (bucket_items d)) = mset (lane_items l)"
    and "dict_wf d"
    and "\<forall>p \<in> set d. bucket_ok p"
    and "fst ` set d = (if ws = [] then fst ` set (by_key l) - {k} else fst ` set (by_key l))"
    and "int (length (bucket_items d)) = lsize l - 1"
proof -
  have wf: "dict_wf (by_key l)" by (rule lane_wfD(1)[OF assms(1)])
  show ms: "add_mset w (mset (bucket_items d)) = mset (lane_items l)"
  proof (cases "ws = []")
    case True
    with mset_bucket_delete[OF wf assms(2)] assms(3) show ?thesis by simp
  next
    case False
    with mset_bucket_update[OF assms(2), of ws] assms(3) show ?thesis by simp
  qed
  show "dict_wf d" using wf assms(3) by simp
  have kin: "(k, w # ws) \<in> set (by_key l)" using assms(2) by (rule map_of_SomeD)
  then show "\<forall>p \<in> set d. bucket_ok p"
    using assms wf
    by (auto simp: lane_wf_def dict_mem_update dict_mem_delete bucket_ok_def split: if_splits)
  show "fst ` set d = (if ws = [] then fst ` set (by_key l) - {k} else fst ` set (by_key l))"
    using kin assms(3) by (force simp: dict_keyset_update dict_keyset_delete)
  from arg_cong[OF ms, of size] lane_wfD(4)[OF assms(1)]
  show "int (length (bucket_items d)) = lsize l - 1" by simp
qed

lemma lane_pop_wf:
  assumes "lane_wf l" and "lane_pop l = Inr (w, l')"
  shows "lane_wf l'" and "mset (lane_items l) = add_mset w (mset (lane_items l'))"
    and "lsize l' = lsize l - 1"
proof -
  from assms(2) obtain k ks where ks: "rr_order l = k # ks"
    by (auto simp: lane_pop_def split: list.splits)
  obtain w' ws l'' where s: "map_of (by_key l) k = Some (w' # ws)" "lane_pop l = Inr (w', l'')"
    "l'' = l\<lparr>by_key := if ws = [] then AList.delete k (by_key l) else AList.update k ws (by_key l),
            rr_order := ks @ (if ws = [] then [] else [k]), lsize := lsize l - 1\<rparr>"
    using lane_pop_spec[OF assms(1) ks] .
  define d where
    "d = (if ws = [] then AList.delete k (by_key l) else AList.update k ws (by_key l))"
  from s(2,3) assms(2) have eq: "w' = w"
    and l': "l' = l\<lparr>by_key := d, rr_order := ks @ (if ws = [] then [] else [k]), lsize := lsize l - 1\<rparr>"
    by (auto simp: d_def)
  note b = bucket_drop_head[OF assms(1) s(1) d_def]
  have dist: "distinct (k # ks)" and st: "insert k (set ks) = fst ` set (by_key l)"
    using lane_wfD(2,3)[OF assms(1)] ks by auto
  show "mset (lane_items l) = add_mset w (mset (lane_items l'))" using b(1) eq l' by simp
  show "lsize l' = lsize l - 1" using l' by simp
  show "lane_wf l'" unfolding lane_wf_def using b(2-5) dist st l' by auto
qed

lemma longest_key_spec:
  assumes "longest_key d = Some k" and "dict_wf d" and "(k', b') \<in> set d"
  obtains b where "map_of d k = Some b" "length b' \<le> length b"
proof -
  let ?f = "\<lambda>k. length (case map_of d k of None \<Rightarrow> [] | Some b \<Rightarrow> b)"
  from assms(1) obtain k0 ks where k0: "map fst d = k0 # ks" "k = py_max ?f k0 ks"
    by (auto simp: longest_key_def split: list.splits)
  then have kin: "k \<in> fst ` set d" using py_max_in[of ?f k0 ks] by (metis list.set_map list.simps(15))
  then obtain b where b: "map_of d k = Some b" by (metis (no_types) map_of_eq_None_iff not_None_eq)
  have "k' \<in> insert k0 (set ks)" using assms(3) k0(1) by (metis fst_conv image_eqI list.set_map list.simps(15))
  then have "?f k' \<le> ?f k" using py_max_ge[of k' k0 ks ?f] k0(2) by simp
  moreover have "map_of d k' = Some b'" using assms(2,3) by simp
  ultimately show ?thesis using that b by simp
qed

lemma evict_spec:
  assumes "lane_wf l"
  shows "evict_from_longest l = Inr None \<and> lane_items l = [] \<or>
    (\<exists>k w ws l'. longest_key (by_key l) = Some k \<and> map_of (by_key l) k = Some (w # ws) \<and>
       evict_from_longest l = Inr (Some (w, l')) \<and>
       l' = l\<lparr>by_key := if ws = [] then AList.delete k (by_key l) else AList.update k ws (by_key l),
              rr_order := if ws = [] then remove1 k (rr_order l) else rr_order l,
              lsize := lsize l - 1\<rparr>)"
proof (cases "longest_key (by_key l)")
  case None
  then have "by_key l = []" by (cases "by_key l") (auto simp: longest_key_def)
  with None show ?thesis by (simp add: evict_from_longest_def)
next
  case (Some k)
  then obtain p d where "by_key l = p # d" by (cases "by_key l") (auto simp: longest_key_def)
  then have "(fst p, snd p) \<in> set (by_key l)" by simp
  from longest_key_spec[OF Some lane_wfD(1)[OF assms] this]
  obtain b where b: "map_of (by_key l) k = Some b" by blast
  with lane_wfD(5)[OF assms] obtain w ws where ws: "b = w # ws" by (cases b) auto
  have "k \<in> set (rr_order l)" using lane_wfD(7)[OF assms, of k] b by simp
  with Some b ws show ?thesis by (simp add: evict_from_longest_def)
qed

lemma evict_wf:
  assumes "lane_wf l" and "evict_from_longest l = Inr (Some (w, l'))"
  shows "lane_wf l'" and "mset (lane_items l) = add_mset w (mset (lane_items l'))"
    and "lsize l' = lsize l - 1"
proof -
  from evict_spec[OF assms(1)] assms(2) obtain k ws where
    s: "map_of (by_key l) k = Some (w # ws)"
      "l' = l\<lparr>by_key := if ws = [] then AList.delete k (by_key l) else AList.update k ws (by_key l),
              rr_order := if ws = [] then remove1 k (rr_order l) else rr_order l,
              lsize := lsize l - 1\<rparr>"
    by fastforce
  define d where
    "d = (if ws = [] then AList.delete k (by_key l) else AList.update k ws (by_key l))"
  note b = bucket_drop_head[OF assms(1) s(1) d_def]
  have l': "l' = l\<lparr>by_key := d, rr_order := if ws = [] then remove1 k (rr_order l) else rr_order l,
      lsize := lsize l - 1\<rparr>" using s(2) by (simp add: d_def)
  show "mset (lane_items l) = add_mset w (mset (lane_items l'))" using b(1) l' by simp
  show "lsize l' = lsize l - 1" using l' by simp
  show "lane_wf l'" unfolding lane_wf_def
    using b(2-5) lane_wfD(2,3)[OF assms(1)] l' by auto
qed

section \<open>Fairness of the rotation\<close>

text \<open>
  A run of the lane: producers push and the drain pops, in any interleaving.  The result is
  the popped items in order and the lane that is left.
\<close>

datatype lane_op = LPush work_item | LPop

fun lane_run :: "lane_op list \<Rightarrow> lane \<Rightarrow> (work_item list \<times> lane) result" where
  "lane_run [] l = Inr ([], l)"
| "lane_run (LPush w # ops) l = lane_run ops (lane_push w l)"
| "lane_run (LPop # ops) l =
     rbind (lane_pop l)
       (\<lambda>(w, l'). rbind (lane_run ops l') (\<lambda>(ws, l''). Inr (w # ws, l'')))"

definition lane_pops :: "lane_op list \<Rightarrow> nat" where
  "lane_pops ops = length (filter (\<lambda>x. x = LPop) ops)"

lemma lane_pops_simps [simp]:
  "lane_pops [] = 0" "lane_pops (LPop # ops) = Suc (lane_pops ops)"
  "lane_pops (LPush w # ops) = lane_pops ops"
  by (simp_all add: lane_pops_def)

lemma lane_run_pushes: "lane_pops ops = 0 \<Longrightarrow> \<exists>l'. lane_run ops l = Inr ([], l')"
proof (induction ops arbitrary: l)
  case (Cons x ops)
  then show ?case by (cases x) auto
qed simp

lemma lane_push_keeps_head:
  assumes "lane_wf l" and "rr_order l = xs @ k # ys" and "map_of (by_key l) k = Some (w # ws)"
  shows "\<exists>ys' ws'. rr_order (lane_push v l) = xs @ k # ys' \<and>
           map_of (by_key (lane_push v l)) k = Some (w # ws')"
proof (cases "map_of (by_key l) (fairness_key v)")
  case None
  then show ?thesis using assms by (auto simp: lane_push_def Let_def dict_simps)
next
  case (Some b)
  then show ?thesis using assms by (auto simp: lane_push_def Let_def dict_simps)
qed

text \<open>
  C4: bounded waiting.  If a camera's key is at position \<^verbatim>\<open>length xs\<close> of the rotation, its
  oldest request is the next but \<^verbatim>\<open>length xs\<close> to be popped, whatever producers push in the
  meantime: a flood of other cameras' requests cannot delay it past one round, and no pop on
  the way raises.
\<close>

theorem lane_bounded_wait:
  assumes "lane_wf l" and "rr_order l = xs @ k # ys" and "map_of (by_key l) k = Some (w # ws)"
    and "lane_pops ops = Suc (length xs)"
  shows "\<exists>out l'. lane_run ops l = Inr (out, l') \<and> length out = Suc (length xs) \<and> last out = w"
  using assms
proof (induction ops arbitrary: l xs ys ws)
  case Nil
  then show ?case by simp
next
  case (Cons x ops)
  show ?case
  proof (cases x)
    case (LPush v)
    obtain ys' ws' where "rr_order (lane_push v l) = xs @ k # ys'"
      "map_of (by_key (lane_push v l)) k = Some (w # ws')"
      using lane_push_keeps_head[OF Cons.prems(1-3)] by blast
    from Cons.IH[OF lane_push_wf(1)[OF Cons.prems(1)] this] Cons.prems(4) LPush
    show ?thesis by simp
  next
    case LPop
    obtain h t where ht: "rr_order l = h # t" using Cons.prems(2) by (cases xs) auto
    obtain v vs l1 where s: "map_of (by_key l) h = Some (v # vs)" "lane_pop l = Inr (v, l1)"
      "l1 = l\<lparr>by_key := if vs = [] then AList.delete h (by_key l) else AList.update h vs (by_key l),
             rr_order := t @ (if vs = [] then [] else [h]), lsize := lsize l - 1\<rparr>"
      using lane_pop_spec[OF Cons.prems(1) ht] .
    show ?thesis
    proof (cases xs)
      case Nil
      with ht Cons.prems(2,3) s(1) have "v = w" by simp
      moreover obtain l2 where "lane_run ops l1 = Inr ([], l2)"
        using lane_run_pushes[of ops l1] Cons.prems(4) Nil LPop by auto
      ultimately show ?thesis using Nil LPop s(2) by simp
    next
      case (Cons h' xs')
      with ht Cons.prems(2) have h: "h' = h" "t = xs' @ k # ys" by auto
      have "h \<noteq> k" using lane_wfD(2)[OF Cons.prems(1)] ht h by auto
      then have "rr_order l1 = xs' @ k # (ys @ (if vs = [] then [] else [h]))"
        "map_of (by_key l1) k = Some (w # ws)"
        using s(3) h Cons.prems(3) by (auto simp: dict_simps)
      from Cons.IH[OF lane_pop_wf(1)[OF Cons.prems(1) s(2)] this]
      obtain out l2 where "lane_run ops l1 = Inr (out, l2)" "length out = Suc (length xs')" "last out = w"
        using Cons.prems(4) LPop \<open>xs = h' # xs'\<close> by auto
      then show ?thesis using LPop s(2) \<open>xs = h' # xs'\<close> by auto
    qed
  qed
qed

text \<open>
  The count behind max-min fairness: how often each key was served while two keys share a
  lane.  \<^verbatim>\<open>before a b xs\<close> says that \<^verbatim>\<open>a\<close> stands before \<^verbatim>\<open>b\<close> in the rotation.
\<close>

definition before :: "'a \<Rightarrow> 'a \<Rightarrow> 'a list \<Rightarrow> bool" where
  "before a b xs \<longleftrightarrow> a \<in> set (takeWhile (\<lambda>x. x \<noteq> b) xs)"

definition active :: "string \<Rightarrow> lane \<Rightarrow> bool" where
  "active k l \<longleftrightarrow> map_of (by_key l) k \<noteq> None"

lemma before_rotate:
  assumes "distinct (h # t)" and "b \<in> set t" and "a \<noteq> b"
  shows "before a b (t @ [h]) \<longleftrightarrow> a \<noteq> h \<and> before a b (h # t)"
    and "before a b t \<longleftrightarrow> a \<noteq> h \<and> before a b (h # t)"
proof -
  have tw: "takeWhile (\<lambda>x. x \<noteq> b) (t @ [h]) = takeWhile (\<lambda>x. x \<noteq> b) t"
    using assms(2) by (intro takeWhile_append1) auto
  have hb: "h \<noteq> b" and ht: "h \<notin> set (takeWhile (\<lambda>x. x \<noteq> b) t)"
    using assms by (auto dest: set_takeWhileD)
  show "before a b (t @ [h]) \<longleftrightarrow> a \<noteq> h \<and> before a b (h # t)"
    using hb ht by (auto simp: before_def tw)
  show "before a b t \<longleftrightarrow> a \<noteq> h \<and> before a b (h # t)"
    using hb ht by (auto simp: before_def)
qed

lemma lane_pop_active:
  assumes "lane_wf l" and "lane_pop l = Inr (w, l')" and "active k l'"
  shows "active k l"
proof -
  from assms(2) obtain h t where ht: "rr_order l = h # t"
    by (auto simp: lane_pop_def split: list.splits)
  obtain v vs l2 where s: "map_of (by_key l) h = Some (v # vs)" "lane_pop l = Inr (v, l2)"
    "l2 = l\<lparr>by_key := if vs = [] then AList.delete h (by_key l) else AList.update h vs (by_key l),
           rr_order := t @ (if vs = [] then [] else [h]), lsize := lsize l - 1\<rparr>"
    using lane_pop_spec[OF assms(1) ht] .
  then have "l' = l2" using assms(2) by simp
  then show ?thesis using assms(3) s(1,3) by (auto simp: active_def dict_simps split: if_splits)
qed

lemma lane_pops_active:
  "lane_wf l \<Longrightarrow> lane_run (replicate n LPop) l = Inr (out, l') \<Longrightarrow> active k l' \<Longrightarrow> active k l"
proof (induction n arbitrary: l out)
  case (Suc n)
  then obtain w l1 out1 where "lane_pop l = Inr (w, l1)" "lane_run (replicate n LPop) l1 = Inr (out1, l')"
    by (auto simp: rbind_Inr_iff)
  with Suc show ?case by (blast intro: lane_pop_active lane_pop_wf(1))
qed simp

lemma lane_pops_fair_gen:
  assumes "lane_wf l" and "lane_run (replicate n LPop) l = Inr (out, l')" and "a \<noteq> b"
    and "active b l'"
    and "active a l \<Longrightarrow> ca \<le> cb + (if before a b (rr_order l) then 0 else 1)"
    and "ca \<le> cb + (1::nat)"
  shows "ca + count_list (map fairness_key out) a \<le> cb + count_list (map fairness_key out) b + 1"
  using assms
proof (induction n arbitrary: l out ca cb)
  case (Suc n)
  from Suc.prems(2) obtain w l1 out1 where p: "lane_pop l = Inr (w, l1)"
    "lane_run (replicate n LPop) l1 = Inr (out1, l')" "out = w # out1"
    by (auto simp: rbind_Inr_iff)
  from p(1) obtain h t where ht: "rr_order l = h # t"
    by (auto simp: lane_pop_def split: list.splits)
  obtain v vs l2 where s: "map_of (by_key l) h = Some (v # vs)" "lane_pop l = Inr (v, l2)"
    "l2 = l\<lparr>by_key := if vs = [] then AList.delete h (by_key l) else AList.update h vs (by_key l),
           rr_order := t @ (if vs = [] then [] else [h]), lsize := lsize l - 1\<rparr>"
    using lane_pop_spec[OF Suc.prems(1) ht] .
  have eq: "v = w" "l2 = l1" using s(2) p(1) by auto
  have wf1: "lane_wf l1" by (rule lane_pop_wf(1)[OF Suc.prems(1) p(1)])
  have key: "fairness_key w = h" using lane_wfD(6)[OF Suc.prems(1) s(1)] eq by auto
  have dist: "distinct (h # t)" using lane_wfD(2)[OF Suc.prems(1)] ht by simp
  let ?ca = "ca + (if h = a then 1 else 0)" and ?cb = "cb + (if h = b then 1 else 0)"
  have act: "active k l" if "active k l1" for k
    by (rule lane_pop_active[OF Suc.prems(1) p(1) that])
  have bl: "active b l1" by (rule lane_pops_active[OF wf1 p(2) Suc.prems(4)])
  have bin: "b \<in> set (rr_order l)" using lane_wfD(7)[OF Suc.prems(1)] act[OF bl] by (simp add: active_def)
  have one: "?ca \<le> ?cb + 1" and two: "active a l1 \<Longrightarrow> ?ca \<le> ?cb + (if before a b (rr_order l1) then 0 else 1)"
  proof -
    have al: "h = a \<Longrightarrow> active a l \<and> before a b (rr_order l)"
      using s(1) ht Suc.prems(3) by (auto simp: active_def before_def)
    show "?ca \<le> ?cb + 1" using al Suc.prems(3,5,6) by auto
    assume a1: "active a l1"
    show "?ca \<le> ?cb + (if before a b (rr_order l1) then 0 else 1)"
    proof (cases "h = b")
      case True
      with Suc.prems(3,6) show ?thesis by auto
    next
      case False
      then have "b \<in> set t" using bin ht by auto
      from before_rotate[OF dist this Suc.prems(3)]
      have "before a b (rr_order l1) \<longleftrightarrow> a \<noteq> h \<and> before a b (rr_order l)"
        using s(3) eq ht by auto
      then show ?thesis using False al Suc.prems(5) act[OF a1] by auto
    qed
  qed
  from Suc.IH[OF wf1 p(2) Suc.prems(3,4) two one] show ?case
    using p(3) key Suc.prems(3) by auto
qed simp

text \<open>
  Max-min fairness of consecutive pops: if camera \<^verbatim>\<open>b\<close> still has requests waiting afterwards,
  no camera \<^verbatim>\<open>a\<close> was served more than once more often than \<^verbatim>\<open>b\<close>.
\<close>

lemma lane_max_min_fair:
  assumes "lane_wf l" and "lane_run (replicate n LPop) l = Inr (out, l')" and "active b l'"
  shows "count_list (map fairness_key out) a \<le> count_list (map fairness_key out) b + 1"
  using lane_pops_fair_gen[OF assms(1,2) _ assms(3), of a 0 0] by (cases "a = b") auto

definition sample_lane :: lane where
  "sample_lane = lane_push (sample_item ''b'' NORMAL 0 2) (lane_push (sample_item ''a'' NORMAL 0 1) lane_init)"

definition sample_flood :: "lane_op list" where
  "sample_flood = [LPush (sample_item ''a'' NORMAL 0 3), LPop, LPush (sample_item ''a'' NORMAL 0 4), LPop]"

lemma lane_bounded_wait_witness:
  "\<exists>out l'. lane_run sample_flood sample_lane = Inr (out, l') \<and> length out = 2 \<and>
     last out = sample_item ''b'' NORMAL 0 2"
proof -
  have "lane_wf sample_lane" by (simp add: sample_lane_def lane_push_wf)
  then have "\<exists>out l'. lane_run sample_flood sample_lane = Inr (out, l') \<and> length out = Suc (length [''a'']) \<and>
      last out = sample_item ''b'' NORMAL 0 2"
    by (rule lane_bounded_wait) code_simp+
  then show ?thesis by (simp add: numeral_2_eq_2)
qed

end
