(* ===== verification/Queue_Base.thy ===== *)
theory Queue_Base
  imports Requests
begin

text \<open>
  \<^verbatim>\<open>src/shipinfer/scheduling/queues/base.py\<close>: the request-queue contract.

  A queue method runs under the queue's condition variable, so between two points where the
  lock is released it is one atomic step.  \<^verbatim>\<open>cond.wait\<close> is the only such point inside a
  method: a call that reaches it ends its step with a \<^verbatim>\<open>Sleep\<close> outcome and continues, once
  woken, with a \<^verbatim>\<open>Wake\<close> step on whatever the queue has become.  Each clock read is an argument of
  the step (\<^verbatim>\<open>rat\<close> seconds for \<^verbatim>\<open>time.monotonic\<close>, \<^verbatim>\<open>int\<close> nanoseconds for
  \<^verbatim>\<open>time.monotonic_ns\<close>).  Completing a future happens outside the queue's own state: a step
  returns the list of items it failed, each with its error, in order.

  The locale \<^verbatim>\<open>request_queue\<close> is the contract the model instances rely on; \<^verbatim>\<open>Fair_Queue\<close> and
  \<^verbatim>\<open>Fifo_Queue\<close> interpret it.
\<close>

datatype overflow_policy = REJECT | BLOCK | DROP_OLDEST

record batch_window =
  max_batch_size :: int
  max_delay_us :: int
  preferred_sizes :: "int list"

definition mk_batch_window :: "int \<Rightarrow> int \<Rightarrow> int list \<Rightarrow> batch_window result" where
  "mk_batch_window mbs delay pref =
     (if mbs < 1 then Inl ValueError
      else if \<exists>s \<in> set pref. s < 1 \<or> s > mbs then Inl ValueError
      else Inr \<lparr>max_batch_size = mbs, max_delay_us = delay, preferred_sizes = pref\<rparr>)"

record queue_stats =
  st_depth :: int
  st_capacity :: int
  st_accepted :: int
  st_rejected :: int
  st_evicted :: int
  st_expired :: int
  st_depth_by_camera :: "string counter"
  st_rejected_by_camera :: "string counter"
  st_evicted_by_camera :: "string counter"
  st_expired_by_camera :: "string counter"

definition utilisation :: "queue_stats \<Rightarrow> rat" where
  "utilisation s = (if st_capacity s = 0 then 0 else of_int (st_depth s) / of_int (st_capacity s))"

text \<open>The fields every queue has; the two implementations extend the record.\<close>

record queue_base =
  qname :: string
  capacity :: int
  overflow :: overflow_policy
  block_timeout_s :: rat
  drop_expired :: bool
  closed :: bool
  accepted :: int
  rejected :: int
  evicted :: int
  expired :: int
  rejected_by :: "string counter"
  evicted_by :: "string counter"
  expired_by :: "string counter"

definition queue_init ::
  "string \<Rightarrow> int \<Rightarrow> overflow_policy \<Rightarrow> int \<Rightarrow> bool \<Rightarrow> queue_base result" where
  "queue_init n cap ov block_timeout_ms de =
     (if cap < 1 then Inl ValueError
      else Inr \<lparr>qname = n, capacity = cap, overflow = ov,
                block_timeout_s = of_int block_timeout_ms / 1000, drop_expired = de,
                closed = False, accepted = 0, rejected = 0, evicted = 0, expired = 0,
                rejected_by = [], evicted_by = [], expired_by = []\<rparr>)"

section \<open>Steps and outcomes\<close>

datatype queue_op =
    Put work_item rat rat
  | PutWake work_item rat rat
  | GetBatch batch_window rat rat int
  | GetWake batch_window rat rat int
  | Close "err option"

datatype outcome =
    Accepted
  | Raised err
  | SleepUntil rat
  | SleepIdle
  | Batch "work_item list"
  | Drained "work_item list"

type_synonym 'q step_result = "'q \<times> (work_item \<times> err) list \<times> outcome"

fun taken_in :: "queue_op \<Rightarrow> outcome \<Rightarrow> work_item list" where
  "taken_in (Put w t0 t1) Accepted = [stamp_queued w]"
| "taken_in (PutWake w d t) Accepted = [stamp_queued w]"
| "taken_in _ _ = []"

fun handed_out :: "outcome \<Rightarrow> work_item list" where
  "handed_out (Batch ws) = ws"
| "handed_out _ = []"

text \<open>What waiting for space in \<^verbatim>\<open>put\<close> answers: go on, give up, or sleep until a deadline.\<close>

datatype room = Room bool | RoomSleep rat

text \<open>One pass of the \<^verbatim>\<open>BLOCK\<close> loop, over the depth, capacity and closed flag it reads.\<close>

definition block_loop :: "int \<Rightarrow> int \<Rightarrow> bool \<Rightarrow> rat \<Rightarrow> rat \<Rightarrow> room" where
  "block_loop depth cap is_closed deadline now =
     (if depth \<ge> cap \<and> \<not> is_closed
      then if deadline - now \<le> 0 then Room False else RoomSleep deadline
      else Room (\<not> is_closed))"

text \<open>One pass of the loop that waits for a batch to fill: sleep on, or drain now.\<close>

definition fill_loop :: "int \<Rightarrow> bool \<Rightarrow> batch_window \<Rightarrow> rat \<Rightarrow> rat \<Rightarrow> bool" where
  "fill_loop depth is_closed w deadline now \<longleftrightarrow>
     depth < max_batch_size w \<and> \<not> is_closed \<and> depth \<notin> set (preferred_sizes w) \<and> deadline - now > 0"

definition fill_deadline :: "batch_window \<Rightarrow> rat \<Rightarrow> rat" where
  "fill_deadline w t = t + of_int (max_delay_us w) / 1000000"

text \<open>The reason \<^verbatim>\<open>close\<close> fails the queued work with.\<close>

definition close_reason :: "err option \<Rightarrow> err" where
  "close_reason e = (case e of None \<Rightarrow> RequestCancelledError | Some e \<Rightarrow> e)"

text \<open>
  A run of a queue under any interleaving of producers, consumers and a shutdown: the final
  queue, and the items it took in, handed out and failed, in order.
\<close>

fun queue_run ::
  "('q \<Rightarrow> queue_op \<Rightarrow> 'q step_result) \<Rightarrow> 'q \<Rightarrow> queue_op list \<Rightarrow>
   'q \<times> work_item list \<times> work_item list \<times> work_item list" where
  "queue_run step q [] = (q, [], [], [])"
| "queue_run step q (x # xs) =
     (case step q x of (q', f, out) \<Rightarrow>
       (case queue_run step q' xs of (q'', ins, outs, fails) \<Rightarrow>
         (q'', taken_in x out @ ins, handed_out out @ outs, map fst f @ fails)))"

section \<open>The contract\<close>

locale request_queue =
  fixes step :: "'q \<Rightarrow> queue_op \<Rightarrow> 'q step_result"
    and items :: "'q \<Rightarrow> work_item list"
    and inv :: "'q \<Rightarrow> bool"
    and cap :: "'q \<Rightarrow> int"
    and is_closed :: "'q \<Rightarrow> bool"
    and drops :: "'q \<Rightarrow> bool"
  assumes step_inv: "inv q \<Longrightarrow> step q x = (q', f, out) \<Longrightarrow> inv q'"
    and step_cap: "step q x = (q', f, out) \<Longrightarrow> cap q' = cap q \<and> drops q' = drops q"
    and bounded: "inv q \<Longrightarrow> int (length (items q)) \<le> cap q"
    and conserve: "inv q \<Longrightarrow> step q x = (q', f, out) \<Longrightarrow>
      mset (items q) + mset (taken_in x out) =
      mset (items q') + mset (handed_out out) + mset (map fst f)"
    and closed_empty: "inv q \<Longrightarrow> is_closed q \<Longrightarrow> items q = []"
    and closed_stays: "step q x = (q', f, out) \<Longrightarrow> is_closed q \<Longrightarrow> is_closed q'"
    and closed_refuses: "is_closed q \<Longrightarrow> step q x = (q', f, out) \<Longrightarrow> taken_in x out = []"
    and raises: "inv q \<Longrightarrow> step q x = (q', f, Raised e) \<Longrightarrow>
      e = RequestCancelledError \<or> (\<exists>n. e = QueueFullError n (cap q) (cap q) \<and> items q' = items q \<and> f = [])"
begin

lemma run_inv: "inv q \<Longrightarrow> queue_run step q xs = (q', ins, outs, fails) \<Longrightarrow> inv q'"
proof (induction xs arbitrary: q ins outs fails)
  case (Cons x xs)
  then show ?case by (auto split: prod.splits dest: step_inv)
qed simp

lemma run_cap: "queue_run step q xs = (q', ins, outs, fails) \<Longrightarrow> cap q' = cap q \<and> drops q' = drops q"
proof (induction xs arbitrary: q ins outs fails)
  case (Cons x xs)
  then show ?case by (fastforce split: prod.splits dest: step_cap)
qed simp

lemma run_conserve:
  "inv q \<Longrightarrow> queue_run step q xs = (q', ins, outs, fails) \<Longrightarrow>
    mset (items q) + mset ins = mset (items q') + mset outs + mset fails"
proof (induction xs arbitrary: q ins outs fails)
  case (Cons x xs)
  obtain q1 f out where s: "step q x = (q1, f, out)" by (cases "step q x") auto
  obtain i o' g where r: "queue_run step q1 xs = (q', i, o', g)"
    using Cons.prems(2) s by (auto split: prod.splits)
  have e: "ins = taken_in x out @ i" "outs = handed_out out @ o'" "fails = map fst f @ g"
    using Cons.prems(2) s r by auto
  have c1: "mset (items q) + mset (taken_in x out) =
      mset (items q1) + mset (handed_out out) + mset (map fst f)"
    by (rule conserve[OF Cons.prems(1) s])
  have c2: "mset (items q1) + mset i = mset (items q') + mset o' + mset g"
    by (rule Cons.IH[OF step_inv[OF Cons.prems(1) s] r])
  have "mset (items q) + mset ins = (mset (items q) + mset (taken_in x out)) + mset i"
    by (simp add: e ac_simps)
  also have "\<dots> = (mset (items q1) + mset i) + mset (handed_out out) + mset (map fst f)"
    by (simp add: c1 ac_simps)
  also have "\<dots> = mset (items q') + mset outs + mset fails"
    unfolding c2 e by (simp add: ac_simps)
  finally show ?case .
qed simp

text \<open>
  Exactly once: when the accepted items are pairwise different, an item that was accepted is
  in exactly one of the three places (still queued, handed to a consumer, failed), once.
\<close>

lemma run_exactly_once:
  assumes "inv q" and "items q = []" and "queue_run step q xs = (q', ins, outs, fails)"
    and "distinct ins" and "w \<in> set ins"
  shows "count_list (items q') w + count_list outs w + count_list fails w = 1"
proof -
  have "count (mset ins) w = count (mset (items q') + mset outs + mset fails) w"
    using run_conserve[OF assms(1,3)] assms(2) by simp
  moreover have "count (mset ins) w = 1"
    using assms(4,5) by (metis distinct_count_atmost_1)
  ultimately show ?thesis by (simp add: count_mset)
qed

lemma run_closed:
  "is_closed q \<Longrightarrow> queue_run step q xs = (q', ins, outs, fails) \<Longrightarrow> is_closed q' \<and> ins = []"
proof (induction xs arbitrary: q ins outs fails)
  case (Cons x xs)
  obtain q1 f out where s: "step q x = (q1, f, out)" by (cases "step q x") auto
  obtain i o' g where r: "queue_run step q1 xs = (q', i, o', g)"
    using Cons.prems(2) s by (auto split: prod.splits)
  with Cons s show ?case using closed_stays[OF s] closed_refuses[OF _ s] by auto
qed simp

end

end
