(* ===== verification/Fair_Queue.thy ===== *)
theory Fair_Queue
  imports Lane Queue_Base
begin

text \<open>
  \<^verbatim>\<open>src/shipinfer/scheduling/queues/fair.py\<close>: the default queue, one lane per priority level.
  \<^verbatim>\<open>fq_put\<close>, \<^verbatim>\<open>fq_get\<close> and \<^verbatim>\<open>fq_close\<close> are the three public methods as atomic steps,
  \<^verbatim>\<open>fq_put_wake\<close> and \<^verbatim>\<open>fq_get_wake\<close> what a sleeper does when it is woken.
\<close>

record fair_queue = queue_base +
  lanes :: "lane list"
  qsize :: int

definition fq_init ::
  "string \<Rightarrow> int \<Rightarrow> overflow_policy \<Rightarrow> int \<Rightarrow> bool \<Rightarrow> fair_queue result" where
  "fq_init n cap ov block_timeout_ms de =
     rbind (queue_init n cap ov block_timeout_ms de)
       (\<lambda>b. Inr (queue_base.extend b
          (fair_queue.fields (replicate (length all_priorities) lane_init) 0)))"

section \<open>Producer side\<close>

definition fq_accept :: "work_item \<Rightarrow> fair_queue \<Rightarrow> fair_queue" where
  "fq_accept w q =
     (let i = prio (priority (req w)) in
      q\<lparr>lanes := (lanes q)[i := lane_push (stamp_queued w) (lanes q ! i)],
        qsize := qsize q + 1, accepted := accepted q + 1\<rparr>)"

definition fq_reject :: "work_item \<Rightarrow> fair_queue \<Rightarrow> fair_queue" where
  "fq_reject w q =
     q\<lparr>rejected := rejected q + 1, rejected_by := counter_inc (fairness_key w) (rejected_by q)\<rparr>"

text \<open>\<^verbatim>\<open>for lane in reversed(self._lanes)\<close>: the first lane that has a victim gives it up.\<close>

fun evict_first :: "lane list \<Rightarrow> (work_item \<times> lane list) option result" where
  "evict_first [] = Inr None"
| "evict_first (l # ls) =
     rbind (evict_from_longest l)
       (\<lambda>r. case r of
          Some (w, l') \<Rightarrow> Inr (Some (w, l' # ls))
        | None \<Rightarrow> rbind (evict_first ls) (\<lambda>r'. Inr (map_option (\<lambda>(w, ls'). (w, l # ls')) r')))"

definition fq_make_room ::
  "fair_queue \<Rightarrow> rat \<Rightarrow> rat \<Rightarrow> (fair_queue \<times> (work_item \<times> err) list \<times> room) result" where
  "fq_make_room q t0 t1 =
     (case overflow q of
        REJECT \<Rightarrow> Inr (q, [], Room False)
      | BLOCK \<Rightarrow> Inr (q, [], block_loop (qsize q) (capacity q) (closed q) (t0 + block_timeout_s q) t1)
      | DROP_OLDEST \<Rightarrow>
          rbind (evict_first (rev (lanes q)))
            (\<lambda>r. case r of
               None \<Rightarrow> Inr (q, [], Room False)
             | Some (w, ls) \<Rightarrow>
                 (let q' = q\<lparr>lanes := rev ls, qsize := qsize q - 1, evicted := evicted q + 1,
                             evicted_by := counter_inc (fairness_key w) (evicted_by q)\<rparr>
                  in Inr (q', [(w, QueueFullError (qname q) (qsize q' + 1) (capacity q))], Room True))))"

text \<open>The rest of \<^verbatim>\<open>put\<close> once \<^verbatim>\<open>_make_room_locked\<close> has answered.\<close>

definition fq_put_after ::
  "work_item \<Rightarrow> fair_queue \<Rightarrow> (work_item \<times> err) list \<Rightarrow> room \<Rightarrow> fair_queue step_result" where
  "fq_put_after w q f r =
     (case r of
        RoomSleep d \<Rightarrow> (q, f, SleepUntil d)
      | Room True \<Rightarrow> (fq_accept w q, f, Accepted)
      | Room False \<Rightarrow>
          if closed q then (q, f, Raised RequestCancelledError)
          else (fq_reject w q, f, Raised (QueueFullError (qname q) (qsize q) (capacity q))))"

definition fq_put :: "fair_queue \<Rightarrow> work_item \<Rightarrow> rat \<Rightarrow> rat \<Rightarrow> fair_queue step_result" where
  "fq_put q w t0 t1 =
     (if closed q then (q, [], Raised RequestCancelledError)
      else if qsize q \<ge> capacity q then
        (case fq_make_room q t0 t1 of
           Inl e \<Rightarrow> (q, [], Raised e)
         | Inr (q', f, r) \<Rightarrow> fq_put_after w q' f r)
      else (fq_accept w q, [], Accepted))"

definition fq_put_wake :: "fair_queue \<Rightarrow> work_item \<Rightarrow> rat \<Rightarrow> rat \<Rightarrow> fair_queue step_result" where
  "fq_put_wake q w deadline now =
     fq_put_after w q [] (block_loop (qsize q) (capacity q) (closed q) deadline now)"

section \<open>Consumer side\<close>

text \<open>The local variables of \<^verbatim>\<open>_drain_locked\<close> and the queue fields it updates.\<close>

record drain_state =
  d_batch :: "work_item list"
  d_rows :: int
  d_size :: int
  d_expired :: int
  d_expired_by :: "string counter"
  d_failed :: "(work_item \<times> err) list"

definition drain_expire :: "work_item \<Rightarrow> drain_state \<Rightarrow> drain_state" where
  "drain_expire w st =
     st\<lparr>d_size := d_size st - 1, d_expired := d_expired st + 1,
        d_expired_by := counter_inc (fairness_key w) (d_expired_by st),
        d_failed := d_failed st @ [(w, RequestCancelledError)]\<rparr>"

definition drain_take :: "work_item \<Rightarrow> drain_state \<Rightarrow> drain_state" where
  "drain_take w st =
     st\<lparr>d_size := d_size st - 1, d_batch := d_batch st @ [w], d_rows := d_rows st + item_rows w\<rparr>"

lemma lane_pop_smaller:
  assumes "lane_pop l = Inr (w, l')"
  shows "length (lane_items l') < length (lane_items l)"
proof -
  from assms obtain k t b where p: "rr_order l = k # t" "map_of (by_key l) k = Some (w # b)"
    "by_key l' = (if b \<noteq> [] then AList.update k b (by_key l) else AList.delete k (by_key l))"
    by (auto simp: lane_pop_def split: list.splits option.splits if_splits)
  show ?thesis
  proof (cases "b = []")
    case True
    with length_bucket_delete[OF p(2)] p(3) show ?thesis by simp
  next
    case False
    with mset_bucket_update[OF p(2), of b, THEN arg_cong[of _ _ size]] p(3) show ?thesis
      by simp
  qed
qed

text \<open>The inner \<^verbatim>\<open>while lane.size\<close> loop; the last component says whether it returned.\<close>

function drain_lane ::
  "bool \<Rightarrow> int \<Rightarrow> int \<Rightarrow> lane \<Rightarrow> drain_state \<Rightarrow> (lane \<times> drain_state \<times> bool) result" where
  "drain_lane de now max_rows l st =
     (if lsize l = 0 then Inr (l, st, False)
      else case lane_peek l of
        Inl e \<Rightarrow> Inl e
      | Inr None \<Rightarrow> Inr (l, st, False)
      | Inr (Some head) \<Rightarrow>
          if d_batch st \<noteq> [] \<and> d_rows st + item_rows head > max_rows then Inr (l, st, True)
          else (case lane_pop l of
              Inl e \<Rightarrow> Inl e
            | Inr (item, l') \<Rightarrow>
                if de \<and> is_expired (req item) now
                then drain_lane de now max_rows l' (drain_expire item st)
                else if d_rows st + item_rows head \<ge> max_rows
                then Inr (l', drain_take item st, True)
                else drain_lane de now max_rows l' (drain_take item st)))"
  by pat_completeness auto
termination
  by (relation "measure (\<lambda>(de, now, max_rows, l, st). length (lane_items l))")
    (auto dest: lane_pop_smaller)

declare drain_lane.simps [simp del]

text \<open>The outer \<^verbatim>\<open>for lane in self._lanes\<close> loop, highest priority first.\<close>

fun drain_lanes ::
  "bool \<Rightarrow> int \<Rightarrow> int \<Rightarrow> lane list \<Rightarrow> drain_state \<Rightarrow> (lane list \<times> drain_state) result" where
  "drain_lanes de now max_rows [] st = Inr ([], st)"
| "drain_lanes de now max_rows (l # ls) st =
     rbind (drain_lane de now max_rows l st)
       (\<lambda>(l', st', ret).
          if ret then Inr (l' # ls, st')
          else rbind (drain_lanes de now max_rows ls st') (\<lambda>(ls', st''). Inr (l' # ls', st'')))"

definition fq_drain :: "fair_queue \<Rightarrow> int \<Rightarrow> int \<Rightarrow> fair_queue step_result" where
  "fq_drain q max_rows now =
     (case drain_lanes (drop_expired q) now max_rows (lanes q)
             \<lparr>d_batch = [], d_rows = 0, d_size = qsize q, d_expired = expired q,
              d_expired_by = expired_by q, d_failed = []\<rparr> of
        Inl e \<Rightarrow> (q, [], Raised e)
      | Inr (ls, st) \<Rightarrow>
          (q\<lparr>lanes := ls, qsize := d_size st, expired := d_expired st, expired_by := d_expired_by st\<rparr>,
           d_failed st, Batch (d_batch st)))"

definition fq_get :: "fair_queue \<Rightarrow> batch_window \<Rightarrow> rat \<Rightarrow> rat \<Rightarrow> int \<Rightarrow> fair_queue step_result" where
  "fq_get q w t0 t1 now =
     (if qsize q = 0 then (if closed q then (q, [], Batch []) else (q, [], SleepIdle))
      else if max_delay_us w > 0 \<and> qsize q < max_batch_size w \<and>
              fill_loop (qsize q) (closed q) w (fill_deadline w t0) t1
      then (q, [], SleepUntil (fill_deadline w t0))
      else fq_drain q (max_batch_size w) now)"

definition fq_get_wake :: "fair_queue \<Rightarrow> batch_window \<Rightarrow> rat \<Rightarrow> rat \<Rightarrow> int \<Rightarrow> fair_queue step_result" where
  "fq_get_wake q w deadline t now =
     (if fill_loop (qsize q) (closed q) w deadline t then (q, [], SleepUntil deadline)
      else fq_drain q (max_batch_size w) now)"

section \<open>Lifecycle and introspection\<close>

definition fq_close :: "fair_queue \<Rightarrow> err option \<Rightarrow> fair_queue step_result" where
  "fq_close q e =
     (let drained = concat (map (\<lambda>l. fst (lane_drain l)) (lanes q)) in
      (q\<lparr>closed := True, lanes := map (\<lambda>l. snd (lane_drain l)) (lanes q), qsize := 0\<rparr>,
       map (\<lambda>w. (w, close_reason e)) drained, Drained drained))"

definition fq_depth_by_camera :: "fair_queue \<Rightarrow> string counter" where
  "fq_depth_by_camera q = fold (\<lambda>l c. counter_update (lane_depths l) c) (lanes q) []"

definition fq_stats :: "fair_queue \<Rightarrow> queue_stats" where
  "fq_stats q =
     \<lparr>st_depth = qsize q, st_capacity = capacity q, st_accepted = accepted q,
      st_rejected = rejected q, st_evicted = evicted q, st_expired = expired q,
      st_depth_by_camera = fq_depth_by_camera q, st_rejected_by_camera = rejected_by q,
      st_evicted_by_camera = evicted_by q, st_expired_by_camera = expired_by q\<rparr>"

fun fair_step :: "fair_queue \<Rightarrow> queue_op \<Rightarrow> fair_queue step_result" where
  "fair_step q (Put w t0 t1) = fq_put q w t0 t1"
| "fair_step q (PutWake w d t) = fq_put_wake q w d t"
| "fair_step q (GetBatch w t0 t1 now) = fq_get q w t0 t1 now"
| "fair_step q (GetWake w d t now) = fq_get_wake q w d t now"
| "fair_step q (Close e) = fq_close q e"

definition fq_items :: "fair_queue \<Rightarrow> work_item list" where
  "fq_items q = concat (map lane_items (lanes q))"

definition lanes_ok :: "lane list \<Rightarrow> bool" where
  "lanes_ok ls \<longleftrightarrow> length ls = length all_priorities \<and>
     (\<forall>i < length ls. lane_wf (ls ! i) \<and> (\<forall>w \<in> set (lane_items (ls ! i)). prio (priority (req w)) = i))"

definition fq_wf :: "fair_queue \<Rightarrow> bool" where
  "fq_wf q \<longleftrightarrow>
     lanes_ok (lanes q) \<and> qsize q = int (length (fq_items q)) \<and> 1 \<le> capacity q \<and>
     qsize q \<le> capacity q \<and> (closed q \<longrightarrow> fq_items q = [])"

section \<open>The drain\<close>

lemma lane_peek_pop:
  assumes "lane_wf l" and "lsize l \<noteq> 0"
  obtains w l' where "lane_peek l = Inr (Some w)" "lane_pop l = Inr (w, l')"
proof -
  have "lane_items l \<noteq> []" using assms lane_wfD(4)[OF assms(1)] by auto
  then obtain k ks where ks: "rr_order l = k # ks"
    using lane_empty_iff[OF assms(1)] by (cases "rr_order l") auto
  show ?thesis
    by (rule lane_pop_spec[OF assms(1) ks]) (rule that, auto simp: lane_peek_def ks)
qed

text \<open>
  An induction rule for the inner loop on a well-formed lane, one case per way an iteration
  goes; it also says that the loop returns and never raises.
\<close>

lemma drain_lane_induct [consumes 1, case_names empty full expired last more]:
  assumes "lane_wf l"
    and empty: "\<And>l st. lane_wf l \<Longrightarrow> lane_items l = [] \<Longrightarrow> P l st (l, st, False)"
    and full: "\<And>l st w l1. lane_wf l \<Longrightarrow> lane_pop l = Inr (w, l1) \<Longrightarrow> d_batch st \<noteq> [] \<Longrightarrow>
      mr < d_rows st + item_rows w \<Longrightarrow> P l st (l, st, True)"
    and expired: "\<And>l st w l1 r. lane_wf l \<Longrightarrow> lane_pop l = Inr (w, l1) \<Longrightarrow> de \<Longrightarrow>
      is_expired (req w) now \<Longrightarrow> P l1 (drain_expire w st) r \<Longrightarrow> P l st r"
    and last: "\<And>l st w l1. lane_wf l \<Longrightarrow> lane_pop l = Inr (w, l1) \<Longrightarrow> \<not> (de \<and> is_expired (req w) now) \<Longrightarrow>
      d_batch st = [] \<or> d_rows st + item_rows w \<le> mr \<Longrightarrow> mr \<le> d_rows st + item_rows w \<Longrightarrow>
      P l st (l1, drain_take w st, True)"
    and more: "\<And>l st w l1 r. lane_wf l \<Longrightarrow> lane_pop l = Inr (w, l1) \<Longrightarrow> \<not> (de \<and> is_expired (req w) now) \<Longrightarrow>
      d_rows st + item_rows w < mr \<Longrightarrow> P l1 (drain_take w st) r \<Longrightarrow> P l st r"
  shows "\<exists>r. drain_lane de now mr l st = Inr r \<and> P l st r"
  using assms(1)
proof (induction "length (lane_items l)" arbitrary: l st rule: less_induct)
  case less
  show ?case
  proof (cases "lsize l = 0")
    case True
    then have "lane_items l = []" using lane_wfD(4)[OF less.prems] by simp
    with True show ?thesis using empty[OF less.prems] by (simp add: drain_lane.simps[of de now mr l st])
  next
    case False
    obtain w l1 where p: "lane_peek l = Inr (Some w)" "lane_pop l = Inr (w, l1)"
      using lane_peek_pop[OF less.prems False] .
    note step = drain_lane.simps[of de now mr l st] and
      IH = less.hyps[OF lane_pop_smaller[OF p(2)] lane_pop_wf(1)[OF less.prems p(2)]]
    consider "d_batch st \<noteq> [] \<and> mr < d_rows st + item_rows w"
      | "d_batch st = [] \<or> d_rows st + item_rows w \<le> mr" "de \<and> is_expired (req w) now"
      | "d_batch st = [] \<or> d_rows st + item_rows w \<le> mr" "\<not> (de \<and> is_expired (req w) now)"
        "mr \<le> d_rows st + item_rows w"
      | "\<not> (de \<and> is_expired (req w) now)" "d_rows st + item_rows w < mr"
      by linarith
    then show ?thesis
    proof cases
      case 1
      with False p show ?thesis using full[OF less.prems p(2)] by (simp add: step)
    next
      case 2
      with False p have "drain_lane de now mr l st = drain_lane de now mr l1 (drain_expire w st)"
        unfolding step by auto
      with IH[of "drain_expire w st"] show ?thesis using expired[OF less.prems p(2)] 2 by auto
    next
      case 3
      with False p show ?thesis using last[OF less.prems p(2)] by (auto simp: step)
    next
      case 4
      with False p have "drain_lane de now mr l st = drain_lane de now mr l1 (drain_take w st)"
        unfolding step by auto
      with IH[of "drain_take w st"] show ?thesis using more[OF less.prems p(2)] 4 by auto
    qed
  qed
qed

lemma lane_run_pops:
  assumes "lane_wf l" and "lane_run (replicate n LPop) l = Inr (out, l')"
  shows "lane_wf l' \<and> mset (lane_items l) = mset out + mset (lane_items l') \<and> length out = n"
  using assms
proof (induction n arbitrary: l out)
  case (Suc n)
  then obtain w l1 out1 where p: "lane_pop l = Inr (w, l1)"
    "lane_run (replicate n LPop) l1 = Inr (out1, l')" "out = w # out1"
    by (auto simp: rbind_Inr_iff)
  from Suc.IH[OF lane_pop_wf(1)[OF Suc.prems(1) p(1)] p(2)] lane_pop_wf(2)[OF Suc.prems(1) p(1)] p(3)
  show ?case by simp
qed simp

text \<open>What popping the items \<^verbatim>\<open>out\<close> in order does to the local state of the drain.\<close>

definition drain_out :: "bool \<Rightarrow> int \<Rightarrow> work_item list \<Rightarrow> drain_state \<Rightarrow> drain_state" where
  "drain_out de now out st =
     fold (\<lambda>w. if de \<and> is_expired (req w) now then drain_expire w else drain_take w) out st"

lemma drain_out_simps [simp]:
  "drain_out de now [] st = st"
  "drain_out de now (w # out) st =
     drain_out de now out (if de \<and> is_expired (req w) now then drain_expire w st else drain_take w st)"
  "drain_out de now (xs @ ys) st = drain_out de now ys (drain_out de now xs st)"
  by (simp_all add: drain_out_def)

lemma drain_out_fields:
  "d_batch (drain_out de now out st) = d_batch st @ filter (\<lambda>w. \<not> (de \<and> is_expired (req w) now)) out"
  "d_failed (drain_out de now out st) =
     d_failed st @ map (\<lambda>w. (w, RequestCancelledError)) (filter (\<lambda>w. de \<and> is_expired (req w) now) out)"
  "d_size (drain_out de now out st) = d_size st - int (length out)"
  "d_expired (drain_out de now out st) =
     d_expired st + int (length (filter (\<lambda>w. de \<and> is_expired (req w) now) out))"
  "d_expired_by (drain_out de now out st) =
     counter_inc_all (map fairness_key (filter (\<lambda>w. de \<and> is_expired (req w) now) out)) (d_expired_by st)"
  by (induction out arbitrary: st) (simp_all add: drain_expire_def drain_take_def)

text \<open>The row budget: what is in the batch fits, unless it is one item too large on its own.\<close>

definition rows_ok :: "int \<Rightarrow> drain_state \<Rightarrow> bool" where
  "rows_ok mr st \<longleftrightarrow> d_rows st = (\<Sum>w\<leftarrow>d_batch st. item_rows w) \<and>
     (d_rows st \<le> mr \<or> length (d_batch st) \<le> 1)"

lemma rows_ok_expire [simp]: "rows_ok mr (drain_expire w st) = rows_ok mr st"
  by (simp add: rows_ok_def drain_expire_def)

lemma rows_ok_take:
  "rows_ok mr st \<Longrightarrow> d_batch st = [] \<or> d_rows st + item_rows w \<le> mr \<Longrightarrow> rows_ok mr (drain_take w st)"
  by (auto simp: rows_ok_def drain_take_def)

definition lane_drained ::
  "bool \<Rightarrow> int \<Rightarrow> int \<Rightarrow> lane \<Rightarrow> drain_state \<Rightarrow> lane \<times> drain_state \<times> bool \<Rightarrow> bool" where
  "lane_drained de now mr l st r = (case r of (l', st', ret) \<Rightarrow>
     (\<exists>out. lane_run (replicate (length out) LPop) l = Inr (out, l') \<and> st' = drain_out de now out st) \<and>
     lane_wf l' \<and> (ret \<or> lane_items l' = []) \<and> (rows_ok mr st \<longrightarrow> rows_ok mr st'))"

lemma drain_lane_spec:
  assumes "lane_wf l"
  shows "\<exists>r. drain_lane de now mr l st = Inr r \<and> lane_drained de now mr l st r"
  using assms
proof (induction rule: drain_lane_induct)
  case (empty l st)
  then show ?case by (auto simp: lane_drained_def intro!: exI[of _ "[]"])
next
  case (full l st w l1)
  then show ?case by (auto simp: lane_drained_def intro!: exI[of _ "[]"])
next
  case (expired l st w l1 r)
  then obtain l' st' ret out where r: "r = (l', st', ret)" "lane_run (replicate (length out) LPop) l1 = Inr (out, l')"
    "st' = drain_out de now out (drain_expire w st)" by (auto simp: lane_drained_def)
  with expired have "\<exists>out. lane_run (replicate (length out) LPop) l = Inr (out, l') \<and> st' = drain_out de now out st"
    by (intro exI[of _ "w # out"]) simp
  with expired r show ?case by (simp add: lane_drained_def)
next
  case (last l st w l1)
  then have "\<exists>out. lane_run (replicate (length out) LPop) l = Inr (out, l1) \<and> drain_take w st = drain_out de now out st"
    by (intro exI[of _ "[w]"]) auto
  with last show ?case by (simp add: lane_drained_def rows_ok_take lane_pop_wf(1))
next
  case (more l st w l1 r)
  then obtain l' st' ret out where r: "r = (l', st', ret)" "lane_run (replicate (length out) LPop) l1 = Inr (out, l')"
    "st' = drain_out de now out (drain_take w st)" by (auto simp: lane_drained_def)
  with more have "\<exists>out. lane_run (replicate (length out) LPop) l = Inr (out, l') \<and> st' = drain_out de now out st"
    by (intro exI[of _ "w # out"]) auto
  with more r show ?case by (simp add: lane_drained_def rows_ok_take)
qed

text \<open>
  The whole drain: \<^verbatim>\<open>rs\<close> pairs what each lane gave up with what is left of it, and a lane gives
  something up only once every lane before it is empty.
\<close>

definition lanes_drained ::
  "bool \<Rightarrow> int \<Rightarrow> int \<Rightarrow> lane list \<Rightarrow> drain_state \<Rightarrow> (work_item list \<times> lane) list \<Rightarrow> drain_state \<Rightarrow> bool" where
  "lanes_drained de now mr ls st rs st' \<longleftrightarrow>
     list_all2 (\<lambda>l (out, l'). lane_run (replicate (length out) LPop) l = Inr (out, l') \<and> lane_wf l') ls rs \<and>
     st' = drain_out de now (concat (map fst rs)) st \<and>
     (\<forall>i j. i < j \<longrightarrow> j < length rs \<longrightarrow> fst (rs ! j) \<noteq> [] \<longrightarrow> lane_items (snd (rs ! i)) = []) \<and>
     (rows_ok mr st \<longrightarrow> rows_ok mr st')"

lemma drain_lanes_spec:
  "\<forall>l \<in> set ls. lane_wf l \<Longrightarrow>
     \<exists>rs st'. drain_lanes de now mr ls st = Inr (map snd rs, st') \<and> lanes_drained de now mr ls st rs st'"
proof (induction ls arbitrary: st)
  case (Cons l ls)
  from drain_lane_spec[of l de now mr st] Cons.prems obtain l1 st1 ret out where
    d: "drain_lane de now mr l st = Inr (l1, st1, ret)" "lane_wf l1"
      "lane_run (replicate (length out) LPop) l = Inr (out, l1)" "st1 = drain_out de now out st"
      "ret \<or> lane_items l1 = []" "rows_ok mr st \<longrightarrow> rows_ok mr st1"
    by (auto simp: lane_drained_def)
  show ?case
  proof (cases ret)
    case True
    let ?rs = "(out, l1) # map (\<lambda>l. ([], l)) ls"
    have [simp]: "concat (map (fst \<circ> Pair []) ls) = []" by (induction ls) auto
    have "list_all2 (\<lambda>l (out, l'). lane_run (replicate (length out) LPop) l = Inr (out, l') \<and> lane_wf l') ls
        (map (\<lambda>l. ([], l)) ls)" using Cons.prems by (auto simp: list_all2_conv_all_nth)
    then have "lanes_drained de now mr (l # ls) st ?rs st1"
      using d by (auto simp: lanes_drained_def nth_Cons')
    moreover have "drain_lanes de now mr (l # ls) st = Inr (map snd ?rs, st1)"
      using True d(1) by (simp add: comp_def)
    ultimately show ?thesis by blast
  next
    case False
    from Cons.IH[of st1] Cons.prems obtain rs st2 where
      r: "drain_lanes de now mr ls st1 = Inr (map snd rs, st2)" "lanes_drained de now mr ls st1 rs st2"
      by auto
    have "lane_items (snd (((out, l1) # rs) ! i)) = []"
      if "i < j" "j < length ((out, l1) # rs)" "fst (((out, l1) # rs) ! j) \<noteq> []" for i j
      using that r(2) d(5) False by (cases i; cases j) (auto simp: lanes_drained_def)
    then have "lanes_drained de now mr (l # ls) st ((out, l1) # rs) st2"
      using r(2) d(2-4,6) by (auto simp: lanes_drained_def)
    moreover have "drain_lanes de now mr (l # ls) st = Inr (map snd ((out, l1) # rs), st2)"
      using r(1) d(1) False by simp
    ultimately show ?thesis by blast
  qed
qed (auto simp: lanes_drained_def)


definition expires :: "fair_queue \<Rightarrow> int \<Rightarrow> work_item \<Rightarrow> bool" where
  "expires q now w \<longleftrightarrow> drop_expired q \<and> is_expired (req w) now"

lemma lanes_okD:
  assumes "lanes_ok ls"
  shows "length ls = 4" "i < 4 \<Longrightarrow> lane_wf (ls ! i)" "l \<in> set ls \<Longrightarrow> lane_wf l"
    "i < 4 \<Longrightarrow> w \<in> set (lane_items (ls ! i)) \<Longrightarrow> prio (priority (req w)) = i"
  using assms by (auto simp: lanes_ok_def all_priorities_def in_set_conv_nth)

lemma fq_wfD:
  assumes "fq_wf q"
  shows "lanes_ok (lanes q)"
    "qsize q = int (length (fq_items q))" "1 \<le> capacity q" "qsize q \<le> capacity q"
    "closed q \<Longrightarrow> fq_items q = []"
  using assms by (auto simp: fq_wf_def)

text \<open>
  What a drain of the whole queue does: \<^verbatim>\<open>rs\<close> pairs what each lane gave up with what is left
  of it, and \<^verbatim>\<open>out\<close> is everything popped, in order.
\<close>

definition fq_drained ::
  "fair_queue \<Rightarrow> int \<Rightarrow> int \<Rightarrow> (work_item list \<times> lane) list \<Rightarrow> work_item list \<Rightarrow> bool" where
  "fq_drained q mr now rs out \<longleftrightarrow>
     list_all2 (\<lambda>l (out, l'). lane_run (replicate (length out) LPop) l = Inr (out, l') \<and> lane_wf l')
       (lanes q) rs \<and>
     out = concat (map fst rs) \<and>
     (\<forall>i j. i < j \<longrightarrow> j < length rs \<longrightarrow> fst (rs ! j) \<noteq> [] \<longrightarrow> lane_items (snd (rs ! i)) = []) \<and>
     fq_drain q mr now =
       (q\<lparr>lanes := map snd rs, qsize := qsize q - int (length out),
          expired := expired q + int (length (filter (expires q now) out)),
          expired_by := counter_inc_all (map fairness_key (filter (expires q now) out)) (expired_by q)\<rparr>,
        map (\<lambda>w. (w, RequestCancelledError)) (filter (expires q now) out),
        Batch (filter (\<lambda>w. \<not> expires q now w) out)) \<and>
     ((\<Sum>w\<leftarrow>filter (\<lambda>w. \<not> expires q now w) out. item_rows w) \<le> mr \<or>
       length (filter (\<lambda>w. \<not> expires q now w) out) \<le> 1)"

lemma fq_drain_spec:
  assumes "fq_wf q"
  obtains rs out where "fq_drained q mr now rs out"
proof -
  let ?st = "\<lparr>d_batch = [], d_rows = 0, d_size = qsize q, d_expired = expired q,
              d_expired_by = expired_by q, d_failed = []\<rparr>"
  have e: "expires q now = (\<lambda>w. drop_expired q \<and> is_expired (req w) now)"
    by (auto simp: expires_def)
  have "\<forall>l \<in> set (lanes q). lane_wf l" using lanes_okD(3)[OF fq_wfD(1)[OF assms]] by blast
  from drain_lanes_spec[OF this, of "drop_expired q" now mr ?st] obtain rs st' where
    d: "drain_lanes (drop_expired q) now mr (lanes q) ?st = Inr (map snd rs, st')"
      "lanes_drained (drop_expired q) now mr (lanes q) ?st rs st'" by blast
  have "rows_ok mr ?st" by (simp add: rows_ok_def)
  then have r: "rows_ok mr st'" using d(2) by (auto simp: lanes_drained_def)
  have st': "st' = drain_out (drop_expired q) now (concat (map fst rs)) ?st"
    using d(2) by (simp add: lanes_drained_def)
  have "fq_drained q mr now rs (concat (map fst rs))"
    using d(2) r by (auto simp: fq_drained_def lanes_drained_def fq_drain_def d(1) st'
      drain_out_fields rows_ok_def e)
  then show ?thesis by (rule that)
qed

lemma fq_drained_lane:
  assumes "fq_wf q" and "fq_drained q mr now rs out" and "i < 4"
  shows "lane_run (replicate (length (fst (rs ! i))) LPop) (lanes q ! i) = Inr (rs ! i)"
    and "lane_wf (snd (rs ! i))"
    and "mset (lane_items (lanes q ! i)) = mset (fst (rs ! i)) + mset (lane_items (snd (rs ! i)))"
    and "length rs = 4"
proof -
  note ok = fq_wfD(1)[OF assms(1)]
  have l2: "list_all2 (\<lambda>l (out, l'). lane_run (replicate (length out) LPop) l = Inr (out, l') \<and> lane_wf l')
       (lanes q) rs" using assms(2) by (simp add: fq_drained_def)
  show len: "length rs = 4" using list_all2_lengthD[OF l2] lanes_okD(1)[OF ok] by simp
  show r: "lane_run (replicate (length (fst (rs ! i))) LPop) (lanes q ! i) = Inr (rs ! i)"
    and "lane_wf (snd (rs ! i))"
    using list_all2_nthD2[OF l2, of i] len assms(3) by (auto split: prod.splits)
  show "mset (lane_items (lanes q ! i)) = mset (fst (rs ! i)) + mset (lane_items (snd (rs ! i)))"
    using lane_run_pops[OF lanes_okD(2)[OF ok assms(3)], of _ "fst (rs ! i)" "snd (rs ! i)"] r by simp
qed

section \<open>The invariant\<close>

lemma lanes_ok_update:
  assumes "lanes_ok ls" and "i < 4" and "lane_wf l'"
    and "\<And>w. w \<in> set (lane_items l') \<Longrightarrow> prio (priority (req w)) = i"
  shows "lanes_ok (ls[i := l'])"
  using assms by (auto simp: lanes_ok_def all_priorities_def nth_list_update)

lemma lane_update_size:
  assumes "i < length ls"
  shows "int (length (concat (map lane_items (ls[i := l'])))) =
    int (length (concat (map lane_items ls))) - int (length (lane_items (ls ! i))) + int (length (lane_items l'))"
  using arg_cong[OF mset_concat_list_update[OF assms, of lane_items l'], of size] by simp

lemma fq_accept_wf:
  assumes "fq_wf q" and "qsize q < capacity q" and "\<not> closed q"
  shows "fq_wf (fq_accept w q)"
    and "mset (fq_items (fq_accept w q)) = add_mset (stamp_queued w) (mset (fq_items q))"
proof -
  note ok = fq_wfD(1)[OF assms(1)]
  let ?i = "prio (priority (req w))"
  let ?l = "lane_push (stamp_queued w) (lanes q ! ?i)"
  note p = lane_push_wf[OF lanes_okD(2)[OF ok, of ?i, simplified], of "stamp_queued w"]
  have i: "?i < length (lanes q)" by (simp add: lanes_okD(1)[OF ok])
  have eq: "lanes (fq_accept w q) = (lanes q)[?i := ?l]"
    by (simp add: fq_accept_def Let_def)
  show ms: "mset (fq_items (fq_accept w q)) = add_mset (stamp_queued w) (mset (fq_items q))"
    using mset_concat_list_update[OF i, of lane_items ?l] p(2)
    unfolding fq_items_def eq by simp
  have "lanes_ok ((lanes q)[?i := ?l])"
  proof (rule lanes_ok_update[OF ok _ p(1)])
    fix v assume "v \<in> set (lane_items ?l)"
    then have "v = stamp_queued w \<or> v \<in> set (lane_items (lanes q ! ?i))"
      using p(2) by (metis insertE set_mset_add_mset_insert set_mset_mset)
    then show "prio (priority (req v)) = ?i" using lanes_okD(4)[OF ok, of ?i v] by auto
  qed simp
  moreover have "int (length (fq_items (fq_accept w q))) = qsize q + 1"
    using arg_cong[OF ms, of size] fq_wfD(2)[OF assms(1)] by simp
  ultimately show "fq_wf (fq_accept w q)" using assms fq_wfD(3)[OF assms(1)] eq
    by (simp add: fq_wf_def fq_accept_def Let_def)
qed

text \<open>
  The eviction walks the lanes from the lowest priority up: the victim comes out of the first
  lane that is not empty.
\<close>

lemma evict_first_spec:
  assumes "\<forall>l \<in> set ls. lane_wf l"
  shows "evict_first ls = Inr None \<and> (\<forall>l \<in> set ls. lane_items l = []) \<or>
    (\<exists>xs l ys w l'. ls = xs @ l # ys \<and> (\<forall>x \<in> set xs. lane_items x = []) \<and>
       evict_from_longest l = Inr (Some (w, l')) \<and> evict_first ls = Inr (Some (w, xs @ l' # ys)))"
  using assms
proof (induction ls)
  case (Cons l ls)
  from Cons.prems evict_spec[of l]
  consider "evict_from_longest l = Inr None" "lane_items l = []"
    | w l' where "evict_from_longest l = Inr (Some (w, l'))" by auto
  then show ?case
  proof cases
    case 1
    from Cons.IH Cons.prems
    consider "evict_first ls = Inr None" "\<forall>l \<in> set ls. lane_items l = []"
      | xs m ys w l' where "ls = xs @ m # ys" "\<forall>x \<in> set xs. lane_items x = []"
        "evict_from_longest m = Inr (Some (w, l'))" "evict_first ls = Inr (Some (w, xs @ l' # ys))"
      by auto
    then show ?thesis
    proof cases
      case (2 xs m ys w l')
      then show ?thesis using 1 by (intro disjI2 exI[of _ "l # xs"] exI[of _ m] exI[of _ ys]) auto
    qed (use 1 in auto)
  next
    case 2
    then show ?thesis by (intro disjI2 exI[of _ "[]"]) auto
  qed
qed simp

lemma evict_lanes_spec:
  assumes "lanes_ok ls" and "concat (map lane_items ls) \<noteq> []"
  obtains i w l' where "i < 4" "evict_from_longest (ls ! i) = Inr (Some (w, l'))"
    "\<And>j. i < j \<Longrightarrow> j < 4 \<Longrightarrow> lane_items (ls ! j) = []"
    "evict_first (rev ls) = Inr (Some (w, rev (ls[i := l'])))"
proof -
  have "\<forall>l \<in> set (rev ls). lane_wf l" using lanes_okD(3)[OF assms(1)] by simp
  from evict_first_spec[OF this] assms(2) obtain xs l ys w l' where
    e: "rev ls = xs @ l # ys" "\<forall>x \<in> set xs. lane_items x = []"
      "evict_from_longest l = Inr (Some (w, l'))" "evict_first (rev ls) = Inr (Some (w, xs @ l' # ys))"
    by auto
  have ls: "ls = rev ys @ l # rev xs" using e(1) by (metis append.assoc append_Cons append_Nil rev_append rev_rev_ident rev_singleton_conv rev.simps(2))
  have len: "length ys + length xs = 3" using lanes_okD(1)[OF assms(1)] ls by simp
  show ?thesis
  proof (rule that[of "length ys" w l'])
    fix j assume "length ys < j" "j < 4"
    then have "j - Suc (length ys) < length (rev xs)" "j = Suc (length ys) + (j - Suc (length ys))"
      using len by auto
    then have "ls ! j \<in> set (rev xs)" using ls
      by (metis append_Cons length_rev length_append_singleton append.assoc append_Nil nth_append_length_plus nth_mem)
    then show "lane_items (ls ! j) = []" using e(2) by simp
  qed (use len e ls in \<open>auto simp: nth_append list_update_append\<close>)
qed


lemma fq_make_room_drop:
  assumes "fq_wf q" and "overflow q = DROP_OLDEST" and "capacity q \<le> qsize q"
  obtains i w l' q' where "i < 4" "evict_from_longest (lanes q ! i) = Inr (Some (w, l'))"
    "\<forall>j. i < j \<longrightarrow> j < 4 \<longrightarrow> lane_items (lanes q ! j) = []"
    "q' = q\<lparr>lanes := (lanes q)[i := l'], qsize := qsize q - 1, evicted := evicted q + 1,
            evicted_by := counter_inc (fairness_key w) (evicted_by q)\<rparr>"
    "fq_make_room q t0 t1 = Inr (q', [(w, QueueFullError (qname q) (capacity q) (capacity q))], Room True)"
    "fq_wf q'" "mset (fq_items q) = add_mset w (mset (fq_items q'))" "\<not> closed q"
proof -
  note ok = fq_wfD(1)[OF assms(1)]
  have full: "qsize q = capacity q" using fq_wfD(4)[OF assms(1)] assms(3) by simp
  with fq_wfD(2,3)[OF assms(1)] have ne: "fq_items q \<noteq> []" by auto
  then have open': "\<not> closed q" using fq_wfD(5)[OF assms(1)] by auto
  obtain i w l' where e: "i < 4" "evict_from_longest (lanes q ! i) = Inr (Some (w, l'))"
    "\<And>j. i < j \<Longrightarrow> j < 4 \<Longrightarrow> lane_items (lanes q ! j) = []"
    "evict_first (rev (lanes q)) = Inr (Some (w, rev ((lanes q)[i := l'])))"
    using evict_lanes_spec[OF ok] ne unfolding fq_items_def by blast
  note v = evict_wf[OF lanes_okD(2)[OF ok e(1)] e(2)]
  define q' where "q' = q\<lparr>lanes := (lanes q)[i := l'], qsize := qsize q - 1, evicted := evicted q + 1,
            evicted_by := counter_inc (fairness_key w) (evicted_by q)\<rparr>"
  have i: "i < length (lanes q)" using e(1) lanes_okD(1)[OF ok] by simp
  have ms: "mset (fq_items q) = add_mset w (mset (fq_items q'))"
    using mset_concat_list_update[OF i, of lane_items l'] v(2) by (simp add: fq_items_def q'_def)
  have "lanes_ok ((lanes q)[i := l'])"
  proof (rule lanes_ok_update[OF ok e(1) v(1)])
    fix u assume "u \<in> set (lane_items l')"
    then have "u \<in> set (lane_items (lanes q ! i))" using v(2)
      by (metis insert_iff set_mset_add_mset_insert set_mset_mset)
    then show "prio (priority (req u)) = i" by (rule lanes_okD(4)[OF ok e(1)])
  qed
  moreover have "int (length (fq_items q')) = qsize q - 1"
    using arg_cong[OF ms, of size] fq_wfD(2)[OF assms(1)] by simp
  ultimately have "fq_wf q'" using fq_wfD(3,4)[OF assms(1)] open' by (simp add: fq_wf_def q'_def)
  moreover have "fq_make_room q t0 t1 =
      Inr (q', [(w, QueueFullError (qname q) (capacity q) (capacity q))], Room True)"
    using e(4) assms(2) full by (simp add: fq_make_room_def q'_def Let_def)
  ultimately show ?thesis using that[OF e(1,2) _ q'_def] e(3) ms open' by blast
qed

text \<open>The invariant, the account of the items and the possible errors, one step at a time.\<close>

definition step_ok :: "fair_queue \<Rightarrow> work_item list \<Rightarrow> fair_queue step_result \<Rightarrow> bool" where
  "step_ok q ins r = (case r of (q', f, out) \<Rightarrow>
     fq_wf q' \<and>
     mset (fq_items q) + mset ins = mset (fq_items q') + mset (handed_out out) + mset (map fst f) \<and>
     (\<forall>e. out = Raised e \<longrightarrow> e = RequestCancelledError \<or>
        (\<exists>n. e = QueueFullError n (capacity q) (capacity q) \<and> fq_items q' = fq_items q \<and> f = [])))"

lemma fq_reject_wf [simp]: "fq_wf q \<Longrightarrow> fq_wf (fq_reject w q)" "fq_items (fq_reject w q) = fq_items q"
  by (simp_all add: fq_wf_def fq_reject_def fq_items_def)

lemma fq_put_after_block:
  assumes "fq_wf q"
  shows "step_ok q (taken_in (PutWake w d t) (snd (snd (fq_put_after w q [] (block_loop (qsize q) (capacity q) (closed q) d' t')))))
    (fq_put_after w q [] (block_loop (qsize q) (capacity q) (closed q) d' t'))"
  using assms fq_accept_wf[of q w]  fq_wfD(4)[OF assms]
  by (auto simp: step_ok_def fq_put_after_def block_loop_def)

lemma fq_put_ok:
  assumes "fq_wf q" and "fq_put q w t0 t1 = (q', f, out)"
  shows "step_ok q (taken_in (Put w t0 t1) out) (q', f, out)"
proof (cases "closed q \<or> qsize q < capacity q")
  case True
  with assms fq_accept_wf[OF assms(1), of w] show ?thesis
    by (auto simp: step_ok_def fq_put_def split: if_splits)
next
  case False
  then have full: "capacity q \<le> qsize q" "\<not> closed q" by auto
  show ?thesis
  proof (cases "overflow q")
    case REJECT
    with full assms  fq_wfD(4)[OF assms(1)] show ?thesis
      by (auto simp: step_ok_def fq_put_def fq_make_room_def fq_put_after_def)
  next
    case BLOCK
    have "taken_in (Put w t0 t1) out = taken_in (PutWake w 0 0) out" by (cases out) auto
    with BLOCK full assms fq_put_after_block[OF assms(1), of w 0 0 "t0 + block_timeout_s q" t1] show ?thesis
      by (simp add: fq_put_def fq_make_room_def)
  next
    case DROP_OLDEST
    obtain i v l' q1 where e: "fq_make_room q t0 t1 =
        Inr (q1, [(v, QueueFullError (qname q) (capacity q) (capacity q))], Room True)"
      "q1 = q\<lparr>lanes := (lanes q)[i := l'], qsize := qsize q - 1, evicted := evicted q + 1,
            evicted_by := counter_inc (fairness_key v) (evicted_by q)\<rparr>"
      "fq_wf q1" "mset (fq_items q) = add_mset v (mset (fq_items q1))"
      using fq_make_room_drop[OF assms(1) DROP_OLDEST full(1)] by metis
    have "qsize q1 < capacity q1" "\<not> closed q1" using e(2) full fq_wfD(4)[OF assms(1)] by auto
    note a = fq_accept_wf[OF e(3) this, of w]
    have "q' = fq_accept w q1" "f = [(v, QueueFullError (qname q) (capacity q) (capacity q))]" "out = Accepted"
      using assms(2) full e(1) by (auto simp: fq_put_def fq_put_after_def)
    with a e(4) show ?thesis by (simp add: step_ok_def)
  qed
qed

lemma fq_drain_ok:
  assumes "fq_wf q" and "fq_drain q mr now = (q', f, out)"
  shows "step_ok q [] (q', f, out)"
proof -
  obtain rs os where d: "fq_drained q mr now rs os" using fq_drain_spec[OF assms(1)] .
  note ok = fq_wfD(1)[OF assms(1)] and lane = fq_drained_lane[OF assms(1) d]
  have len: "length rs = 4" using lane(4)[of 0] by simp
  have os: "os = concat (map fst rs)" using d by (simp add: fq_drained_def)
  have q': "lanes q' = map snd rs" "qsize q' = qsize q - int (length os)" "capacity q' = capacity q"
    "closed q' = closed q" "out = Batch (filter (\<lambda>w. \<not> expires q now w) os)"
    "map fst f = filter (expires q now) os"
    using assms(2) d by (auto simp: fq_drained_def comp_def)
  have ms: "mset (fq_items q) = mset os + mset (fq_items q')"
  proof -
    have "list_all2 (\<lambda>l r. mset (lane_items l) = mset (fst r) + mset (lane_items (snd r))) (lanes q) rs"
      using lane(3) len lanes_okD(1)[OF ok] by (simp add: list_all2_conv_all_nth)
    then have "mset (concat (map lane_items (lanes q))) = mset (concat (map fst rs)) + mset (concat (map (lane_items \<circ> snd) rs))"
      by (induction rule: list_all2_induct) (auto simp: ac_simps)
    then show ?thesis by (simp add: fq_items_def q'(1) os)
  qed
  have "lanes_ok (map snd rs)" unfolding lanes_ok_def
  proof (intro conjI allI impI ballI)
    fix i w assume i: "i < length (map snd rs)" and w: "w \<in> set (lane_items (map snd rs ! i))"
    then have "w \<in># mset (lane_items (lanes q ! i))" using lane(3)[of i] len by simp
    then show "prio (priority (req w)) = i" using lanes_okD(4)[OF ok, of i w] i len by simp
  qed (use lane(2) len in \<open>simp_all add: all_priorities_def\<close>)
  moreover have "int (length (fq_items q')) = qsize q - int (length os)"
    using arg_cong[OF ms, of size] fq_wfD(2)[OF assms(1)] by simp
  moreover have "closed q \<Longrightarrow> fq_items q' = []" using ms fq_wfD(5)[OF assms(1)] by auto
  ultimately have "fq_wf q'" using q' fq_wfD(3,4)[OF assms(1)] by (simp add: fq_wf_def)
  moreover have "mset os = mset (handed_out out) + mset (map fst f)"
    unfolding q'(5,6) handed_out.simps by (metis add.commute mset_filter multiset_partition)
  ultimately show ?thesis using ms q'(5) by (simp add: step_ok_def ac_simps)
qed

lemma fq_close_ok: "fq_wf q \<Longrightarrow> step_ok q [] (fq_close q e)"
proof -
  assume wf: "fq_wf q"
  let ?q = "fst (fq_close q e)"
  have lanes: "lanes ?q = map (\<lambda>l. snd (lane_drain l)) (lanes q)" by (simp add: fq_close_def Let_def)
  have empty: "lane_wf (snd (lane_drain l))" "lane_items (snd (lane_drain l)) = []" for l
    by (simp_all add: lane_wf_def lane_drain_def)
  have "fq_items ?q = []" unfolding fq_items_def lanes by (simp add: empty)
  moreover have "lanes_ok (lanes ?q)"
    using fq_wfD(1)[OF wf] unfolding lanes by (simp add: lanes_ok_def empty)
  ultimately have "fq_wf ?q" using wf by (simp add: fq_wf_def fq_close_def Let_def)
  moreover have "map fst (fst (snd (fq_close q e))) = fq_items q"
    by (simp add: fq_close_def Let_def fq_items_def lane_drain_def comp_def)
  moreover have "snd (snd (fq_close q e)) = Drained (fq_items q)"
    by (simp add: fq_close_def Let_def fq_items_def lane_drain_def)
  ultimately show ?thesis using \<open>fq_items ?q = []\<close>
    by (cases "fq_close q e") (simp add: step_ok_def mset_map[symmetric] del: mset_map)
qed


lemma step_ok_refl: "fq_wf q \<Longrightarrow> (\<And>e. out \<noteq> Raised e) \<Longrightarrow> handed_out out = [] \<Longrightarrow> step_ok q [] (q, [], out)"
  by (simp add: step_ok_def)

lemma fair_step_ok:
  assumes "fq_wf q" and "fair_step q x = (q', f, out)"
  shows "step_ok q (taken_in x out) (q', f, out)"
proof (cases x)
  case (Put w t0 t1)
  with assms fq_put_ok show ?thesis by simp
next
  case (PutWake w d t)
  with assms fq_put_after_block[OF assms(1), of w d t d t] show ?thesis by (simp add: fq_put_wake_def)
next
  case (GetBatch w t0 t1 now)
  then have "fq_drain q (max_batch_size w) now = (q', f, out) \<or>
      q' = q \<and> f = [] \<and> (\<forall>e. out \<noteq> Raised e) \<and> handed_out out = []"
    using assms(2) by (auto simp: fq_get_def split: if_splits)
  with GetBatch assms(1) fq_drain_ok step_ok_refl show ?thesis by auto
next
  case (GetWake w d t now)
  then have "fq_drain q (max_batch_size w) now = (q', f, out) \<or>
      q' = q \<and> f = [] \<and> (\<forall>e. out \<noteq> Raised e) \<and> handed_out out = []"
    using assms(2) by (auto simp: fq_get_wake_def split: if_splits)
  with GetWake assms(1) fq_drain_ok step_ok_refl show ?thesis by auto
next
  case (Close e)
  with assms fq_close_ok[OF assms(1), of e] show ?thesis by simp
qed

text \<open>What no step changes: the configuration, and a closed queue stays closed.\<close>

lemma fq_put_after_frame:
  "fq_put_after w q f r = (q', f', out) \<Longrightarrow>
    capacity q' = capacity q \<and> drop_expired q' = drop_expired q \<and> qname q' = qname q \<and> closed q' = closed q"
  by (auto simp: fq_put_after_def fq_accept_def fq_reject_def Let_def split: room.splits if_splits bool.splits)

lemma fq_make_room_frame:
  "fq_make_room q t0 t1 = Inr (q', f, r) \<Longrightarrow>
    capacity q' = capacity q \<and> drop_expired q' = drop_expired q \<and> qname q' = qname q \<and> closed q' = closed q"
  by (auto simp: fq_make_room_def rbind_Inr_iff Let_def
      split: overflow_policy.splits option.splits prod.splits)

lemma fq_drain_frame:
  "fq_drain q mr now = (q', f, out) \<Longrightarrow>
    capacity q' = capacity q \<and> drop_expired q' = drop_expired q \<and> qname q' = qname q \<and> closed q' = closed q"
  by (auto simp: fq_drain_def split: sum.splits prod.splits)

lemma fq_put_frame:
  "fq_put q w t0 t1 = (q', f, out) \<Longrightarrow>
    capacity q' = capacity q \<and> drop_expired q' = drop_expired q \<and> qname q' = qname q \<and> closed q' = closed q"
proof (cases "closed q \<or> qsize q < capacity q")
  case True
  then show "fq_put q w t0 t1 = (q', f, out) \<Longrightarrow> ?thesis"
    by (auto simp: fq_put_def fq_accept_def Let_def split: if_splits)
next
  case False
  then show "fq_put q w t0 t1 = (q', f, out) \<Longrightarrow> ?thesis"
    using fq_make_room_frame[of q t0 t1]
    by (cases "fq_make_room q t0 t1") (auto simp: fq_put_def dest: fq_put_after_frame)
qed

lemma fair_step_frame:
  assumes "fair_step q x = (q', f, out)"
  shows "capacity q' = capacity q \<and> drop_expired q' = drop_expired q" and "closed q \<Longrightarrow> closed q'"
proof -
  have "capacity q' = capacity q \<and> drop_expired q' = drop_expired q \<and> (closed q \<longrightarrow> closed q')"
    using assms
  proof (cases x)
    case (Close e)
    with assms show ?thesis by (auto simp: fq_close_def Let_def)
  qed (auto simp: fq_put_wake_def fq_get_def fq_get_wake_def split: if_splits
      dest: fq_put_frame fq_put_after_frame fq_drain_frame)
  then show "capacity q' = capacity q \<and> drop_expired q' = drop_expired q" and "closed q \<Longrightarrow> closed q'"
    by auto
qed

lemma fair_step_closed:
  "closed q \<Longrightarrow> fair_step q x = (q', f, out) \<Longrightarrow> taken_in x out = []"
  by (cases x; cases out) (auto simp: fq_put_def fq_put_wake_def fq_put_after_def block_loop_def split: if_splits)

interpretation fairq: request_queue fair_step fq_items fq_wf capacity closed drop_expired
proof
  fix q x q' f out e
  show "fq_wf q \<Longrightarrow> fair_step q x = (q', f, out) \<Longrightarrow> fq_wf q'"
    and "fq_wf q \<Longrightarrow> fair_step q x = (q', f, out) \<Longrightarrow>
      mset (fq_items q) + mset (taken_in x out) = mset (fq_items q') + mset (handed_out out) + mset (map fst f)"
    by (auto dest: fair_step_ok simp: step_ok_def)
  show "fq_wf q \<Longrightarrow> fair_step q x = (q', f, Raised e) \<Longrightarrow>
      e = RequestCancelledError \<or> (\<exists>n. e = QueueFullError n (capacity q) (capacity q) \<and> fq_items q' = fq_items q \<and> f = [])"
    by (auto dest: fair_step_ok simp: step_ok_def)
qed (auto simp: fq_wf_def intro: fair_step_frame fair_step_closed dest: fair_step_frame(1))

lemma fq_init_wf:
  assumes "fq_init n cap ov bt de = Inr q"
  shows "fq_wf q" "fq_items q = []" "capacity q = cap" "overflow q = ov" "drop_expired q = de"
    "closed q = False" "qname q = n"
  using assms
  by (auto simp: fq_init_def queue_init_def rbind_def queue_base.defs fair_queue.defs fq_wf_def lanes_ok_def
      fq_items_def all_priorities_def lane_init_def lane_wf_def numeral_eq_Suc less_Suc_eq split: if_splits)

text \<open>
  C1: exactly once.  Start from a fresh queue and let any number of producers, consumers and a
  shutdown interleave in any order, with any overflow policy, sleeping and waking included.
  Every request that was accepted is afterwards in exactly one place, once: still queued, handed
  to a model instance, or failed with an error.  None is lost and none is executed twice.
\<close>

theorem fair_exactly_once:
  assumes "fq_init n cap ov bt de = Inr q" and "queue_run fair_step q xs = (q', ins, outs, fails)"
    and "distinct ins" and "w \<in> set ins"
  shows "count_list (fq_items q') w + count_list outs w + count_list fails w = 1"
  by (rule fairq.run_exactly_once[OF fq_init_wf(1,2)[OF assms(1)] assms(2-4)])

text \<open>
  C2: the depth counter and the bound.  In every state a fresh queue can reach, the integer field
  \<^verbatim>\<open>_size\<close> is the number of requests in the lanes, it never exceeds the capacity the queue was
  built with, every lane is well formed and holds only requests of its own priority level.
\<close>

theorem fair_bounded:
  assumes "fq_init n cap ov bt de = Inr q" and "queue_run fair_step q xs = (q', ins, outs, fails)"
  shows "qsize q' = int (length (fq_items q')) \<and> qsize q' \<le> cap \<and> lanes_ok (lanes q')"
  using fairq.run_inv[OF fq_init_wf(1)[OF assms(1)] assms(2)] fairq.run_cap[OF assms(2)]
    fq_init_wf(3)[OF assms(1)]
  by (simp add: fq_wf_def)

section \<open>What a batch is\<close>

lemma drained_order:
  "fq_drained q mr now rs out \<Longrightarrow> i < j \<Longrightarrow> j < length rs \<Longrightarrow> fst (rs ! j) \<noteq> [] \<Longrightarrow>
    lane_items (snd (rs ! i)) = []"
  by (simp add: fq_drained_def)

lemma drained_batch_prio:
  assumes "fq_wf q" and "fq_drained q mr now rs out" and "i < 4" and "w \<in> set (fst (rs ! i))"
  shows "prio (priority (req w)) = i"
proof -
  have "w \<in># mset (lane_items (lanes q ! i))" using fq_drained_lane(3)[OF assms(1-3)] assms(4) by simp
  then show ?thesis using lanes_okD(4)[OF fq_wfD(1)[OF assms(1)] assms(3)] by simp
qed

lemma fq_items_mem:
  "lanes_ok ls \<Longrightarrow> w \<in> set (concat (map lane_items ls)) \<Longrightarrow> w \<in> set (lane_items (ls ! prio (priority (req w))))"
  using lanes_okD(1,4)[of ls] by (fastforce simp: in_set_conv_nth)

text \<open>
  C3: what \<^verbatim>\<open>_drain_locked\<close> returns.  The batch fits the row budget unless it is a single
  request too large on its own, it is ordered by priority, and no request is in it (or was
  expired by it) while one of a strictly higher priority stays behind.
\<close>

theorem fair_batch_budget_priority:
  assumes "fq_wf q" and "fq_drain q max_rows now = (q', failed, Batch ws)"
  shows "((\<Sum>w\<leftarrow>ws. item_rows w) \<le> max_rows \<or> length ws \<le> 1) \<and>
    sorted (map (\<lambda>w. prio (priority (req w))) ws) \<and>
    (\<forall>w \<in> set (ws @ map fst failed). \<forall>v \<in> set (fq_items q').
       prio (priority (req w)) \<le> prio (priority (req v)))"
proof (intro conjI ballI)
  obtain rs out where d: "fq_drained q max_rows now rs out" using fq_drain_spec[OF assms(1)] .
  have ws: "ws = filter (\<lambda>w. \<not> expires q now w) out" "out = concat (map fst rs)" "lanes q' = map snd rs"
    "map fst failed = filter (expires q now) out"
    using d assms(2) by (auto simp: fq_drained_def comp_def)
  then show "(\<Sum>w\<leftarrow>ws. item_rows w) \<le> max_rows \<or> length ws \<le> 1"
    using d by (simp add: fq_drained_def)
  have len: "length rs = 4" using fq_drained_lane(4)[OF assms(1) d, of 0] by simp
  have "sorted (map (\<lambda>w. prio (priority (req w))) out)" unfolding ws(2)
    using drained_batch_prio[OF assms(1) d] len by (intro sorted_concat[of _ _ 0]) auto
  then show "sorted (map (\<lambda>w. prio (priority (req w))) ws)" unfolding ws(1) by (rule sorted_filter)
  fix w v assume w: "w \<in> set (ws @ map fst failed)" and v: "v \<in> set (fq_items q')"
  have "w \<in> set out" using w ws(1,4) by auto
  then obtain j where j: "j < length rs" "w \<in> set (fst (rs ! j))"
    unfolding ws(2) in_set_concat_nth by auto
  have pw: "prio (priority (req w)) = j" using drained_batch_prio[OF assms(1) d] j len by simp
  have ok: "lanes_ok (lanes q')" using fq_drain_ok[OF assms] by (simp add: step_ok_def fq_wfD(1))
  let ?i = "prio (priority (req v))"
  have "v \<in> set (lane_items (snd (rs ! ?i)))" using fq_items_mem[OF ok, of v] v ws(3) len
    by (simp add: fq_items_def)
  then have "\<not> ?i < j" using drained_order[OF d, of ?i j] j
    by (metis empty_iff list.set(1))
  then show "prio (priority (req w)) \<le> ?i" using pw by simp
qed

lemma active_item: "lane_wf l \<Longrightarrow> v \<in> set (lane_items l) \<Longrightarrow> active (fairness_key v) l"
proof -
  assume wf: "lane_wf l" and "v \<in> set (lane_items l)"
  then obtain k b where kb: "(k, b) \<in> set (by_key l)" "v \<in> set b" by (auto simp: set_bucket_items)
  then have "map_of (by_key l) k = Some b" using lane_wfD(1)[OF wf] by simp
  with lane_wfD(6)[OF wf this kb(2)] show ?thesis by (simp add: active_def)
qed

text \<open>
  Camera fairness of a batch.  Among the requests of one priority level that a drain removes,
  no camera gets more than one request more than a camera that still has requests of that level
  waiting afterwards, whatever the two had queued: thirty crops of one frame cannot take thirty
  consecutive slots while another camera waits.
\<close>

theorem fair_batch_max_min:
  assumes "fq_wf q" and "fq_drain q max_rows now = (q', failed, Batch ws)"
    and "v \<in> set (fq_items q')" and "gone = filter (\<lambda>w. priority (req w) = priority (req v)) (ws @ map fst failed)"
  shows "count_list (map fairness_key gone) a \<le> count_list (map fairness_key gone) (fairness_key v) + 1"
proof -
  obtain rs out where d: "fq_drained q max_rows now rs out" using fq_drain_spec[OF assms(1)] .
  have ws: "ws = filter (\<lambda>w. \<not> expires q now w) out" "out = concat (map fst rs)" "lanes q' = map snd rs"
    "map fst failed = filter (expires q now) out"
    using d assms(2) by (auto simp: fq_drained_def comp_def)
  let ?i = "prio (priority (req v))"
  have len: "length rs = 4" using fq_drained_lane(4)[OF assms(1) d, of 0] by simp
  note lane = fq_drained_lane[OF assms(1) d, of ?i, simplified]
  have ok: "lanes_ok (lanes q')" using fq_drain_ok[OF assms(1,2)] by (simp add: step_ok_def fq_wfD(1))
  have "v \<in> set (lane_items (snd (rs ! ?i)))" using fq_items_mem[OF ok, of v] assms(3) ws(3) len
    by (simp add: fq_items_def)
  then have act: "active (fairness_key v) (snd (rs ! ?i))" by (rule active_item[OF lane(2)])
  have "filter (\<lambda>w. priority (req w) = priority (req v)) out = fst (rs ! ?i)"
    using filter_concat_level[of ?i "map fst rs" "\<lambda>w. priority (req w) = priority (req v)"]
      drained_batch_prio[OF assms(1) d] len unfolding ws(2) by (auto simp flip: prio_inj)
  then have "mset gone = mset (fst (rs ! ?i))"
    unfolding assms(4) ws(1,4) by (metis mset_filter_split)
  then have c: "count_list (map fairness_key gone) k = count_list (map fairness_key (fst (rs ! ?i))) k" for k
    by (metis count_mset mset_map)
  show ?thesis unfolding c
    by (rule lane_max_min_fair) (use lane act lanes_okD(2)[OF fq_wfD(1)[OF assms(1)], of ?i] in auto)
qed

section \<open>Overflow\<close>

text \<open>
  Honest eviction.  A \<^verbatim>\<open>DROP_OLDEST\<close> queue that is full admits the new request and fails
  exactly one queued one with \<^verbatim>\<open>QueueFullError\<close>: no queued request has a lower priority than
  the victim, the victim is the oldest of its camera at that level, and no camera has more
  requests queued at that level than the victim's camera: a quiet camera never pays for a greedy one.
\<close>

theorem fair_drop_oldest_victim:
  assumes "fq_wf q" and "overflow q = DROP_OLDEST" and "qsize q = capacity q"
  shows "\<exists>q' v b. fq_put q w t0 t1 = (q', [(v, QueueFullError (qname q) (capacity q) (capacity q))], Accepted) \<and>
    (\<forall>u \<in> set (fq_items q). prio (priority (req u)) \<le> prio (priority (req v))) \<and>
    map_of (by_key (lanes q ! prio (priority (req v)))) (fairness_key v) = Some (v # b) \<and>
    (\<forall>k c. map_of (by_key (lanes q ! prio (priority (req v)))) k = Some c \<longrightarrow> length c \<le> Suc (length b)) \<and>
    counter_get (evicted_by q') (fairness_key v) = counter_get (evicted_by q) (fairness_key v) + 1"
proof -
  note ok = fq_wfD(1)[OF assms(1)]
  have full: "capacity q \<le> qsize q" using assms(3) by simp
  obtain i v l' q1 where e: "i < 4" "evict_from_longest (lanes q ! i) = Inr (Some (v, l'))"
    "\<forall>j. i < j \<longrightarrow> j < 4 \<longrightarrow> lane_items (lanes q ! j) = []"
    "q1 = q\<lparr>lanes := (lanes q)[i := l'], qsize := qsize q - 1, evicted := evicted q + 1,
            evicted_by := counter_inc (fairness_key v) (evicted_by q)\<rparr>"
    "fq_make_room q t0 t1 = Inr (q1, [(v, QueueFullError (qname q) (capacity q) (capacity q))], Room True)"
    "fq_wf q1" "mset (fq_items q) = add_mset v (mset (fq_items q1))" "\<not> closed q"
    using fq_make_room_drop[OF assms(1,2) full, where ?t0.0 = t0 and ?t1.0 = t1] .
  have wf: "lane_wf (lanes q ! i)" by (rule lanes_okD(2)[OF ok e(1)])
  obtain k b where k: "longest_key (by_key (lanes q ! i)) = Some k"
    "map_of (by_key (lanes q ! i)) k = Some (v # b)"
    using evict_spec[OF wf] e(2) by auto
  have kv: "fairness_key v = k" using lane_wfD(6)[OF wf k(2)] by simp
  have pv: "prio (priority (req v)) = i"
    using k(2) by (intro lanes_okD(4)[OF ok e(1)]) (force simp: set_bucket_items dest!: map_of_SomeD)
  have "length c \<le> Suc (length b)" if "map_of (by_key (lanes q ! i)) k' = Some c" for k' c
    by (rule longest_key_spec[OF k(1) lane_wfD(1)[OF wf] map_of_SomeD[OF that]]) (use k(2) in auto)
  moreover have "prio (priority (req u)) \<le> i" if u: "u \<in> set (fq_items q)" for u
  proof (rule ccontr)
    let ?j = "prio (priority (req u))"
    assume "\<not> ?j \<le> i"
    then have "lane_items (lanes q ! ?j) = []" using e(3) by auto
    then show False using fq_items_mem[OF ok, of u] u by (simp add: fq_items_def)
  qed
  moreover have "fq_put q w t0 t1 =
      (fq_accept w q1, [(v, QueueFullError (qname q) (capacity q) (capacity q))], Accepted)"
    using e(5,8) full by (simp add: fq_put_def fq_put_after_def)
  moreover have "counter_get (evicted_by (fq_accept w q1)) k = counter_get (evicted_by q) k + 1"
    using e(4) kv by (simp add: fq_accept_def Let_def)
  ultimately show ?thesis using k(2) kv pv by (metis (no_types, lifting))
qed

text \<open>
  Shutdown charges nobody.  Closing a queue fails every request still in it with the given
  reason, empties it, and leaves the rejected, evicted and expired counts of every camera as they
  were; from then on every \<^verbatim>\<open>put\<close>, a producer that was asleep waiting for space included, raises
  \<^verbatim>\<open>RequestCancelledError\<close> and changes nothing.
\<close>

theorem fair_close_charges_nobody:
  "\<exists>q' failed. fq_close q e = (q', failed, Drained (fq_items q)) \<and> fq_items q' = [] \<and> qsize q' = 0 \<and>
    failed = map (\<lambda>w. (w, close_reason e)) (fq_items q) \<and>
    rejected_by q' = rejected_by q \<and> evicted_by q' = evicted_by q \<and> expired_by q' = expired_by q \<and>
    rejected q' = rejected q \<and> evicted q' = evicted q \<and> expired q' = expired q \<and>
    fq_put q' w t0 t1 = (q', [], Raised RequestCancelledError) \<and>
    fq_put_wake q' w d t = (q', [], Raised RequestCancelledError)"
proof -
  have "fst (lane_drain l) = lane_items l" "lane_items (snd (lane_drain l)) = []" for l
    by (simp_all add: lane_drain_def)
  then show ?thesis
    by (simp add: fq_close_def Let_def fq_items_def fq_put_def fq_put_wake_def block_loop_def
        fq_put_after_def comp_def)
qed

section \<open>Accounting\<close>

lemma count_list_const [simp]: "count_list (replicate n x) y = (if x = y then n else 0)"
  by (induction n) auto

lemma lane_depths_get:
  "lane_wf l \<Longrightarrow> counter_get (lane_depths l) k = int (count_list (map fairness_key (lane_items l)) k)"
proof -
  assume wf: "lane_wf l"
  have d: "map_of (lane_depths l) k = map_option (\<lambda>b. int (length b)) (map_of (by_key l) k)"
    unfolding lane_depths_def map_of_map by (simp add: map_of_map)
  have "int (count_list (map fairness_key (bucket_items m)) k) =
      (case map_of m k of None \<Rightarrow> 0 | Some b \<Rightarrow> int (length b))"
    if "dict_wf m" "\<forall>p \<in> set m. bucket_ok p" for m
    using that
  proof (induction m)
    case (Cons p m)
    obtain k' b where p: "p = (k', b)" by (cases p)
    have "\<forall>w \<in> set b. fairness_key w = k'" using Cons.prems(2) p by (simp add: bucket_ok_def)
    then have key: "map fairness_key b = replicate (length b) k'" by (induction b) auto
    have "k \<notin> fst ` set m \<Longrightarrow> map_of m k = None" by (simp add: map_of_eq_None_iff)
    then show ?case using Cons p key by (auto simp: count_list_const)
  qed simp
  from this[of "by_key l"] wf show ?thesis
    by (simp add: counter_get_def d lane_wf_def split: option.splits)
qed


lemma fq_depth_by_camera_get:
  assumes "lanes_ok (lanes q)"
  shows "counter_get (fq_depth_by_camera q) k = int (count_list (map fairness_key (fq_items q)) k)"
proof -
  have "counter_get (fold (\<lambda>l c. counter_update (lane_depths l) c) ls c) k =
      counter_get c k + int (count_list (map fairness_key (concat (map lane_items ls))) k)"
    if "\<forall>l \<in> set ls. lane_wf l" for ls c
    using that
  proof (induction ls arbitrary: c)
    case (Cons l ls)
    have "dict_wf (lane_depths l)"
      using lane_wfD(1)[of l] Cons.prems by (simp add: lane_depths_def comp_def case_prod_unfold)
    with Cons lane_depths_get[of l k] show ?case by (simp add: counter_get_update)
  qed simp
  from this[of "lanes q" "[]"] lanes_okD(3)[OF assms] show ?thesis
    by (simp add: fq_depth_by_camera_def fq_items_def)
qed

lemma counter_total_inc_all [simp]:
  "counter_total (counter_inc_all ks c) = counter_total c + int (length ks)"
  by (induction ks arbitrary: c) auto

text \<open>The totals are the sums of the per-camera counts, and every change of them is an event.\<close>

definition tally :: "fair_queue \<Rightarrow> bool" where
  "tally q \<longleftrightarrow> rejected q = counter_total (rejected_by q) \<and> evicted q = counter_total (evicted_by q) \<and>
     expired q = counter_total (expired_by q)"

definition counted :: "fair_queue \<Rightarrow> work_item list \<Rightarrow> fair_queue step_result \<Rightarrow> bool" where
  "counted q ins r = (case r of (q', f, out) \<Rightarrow>
     accepted q' = accepted q + int (length ins) \<and>
     evicted q' + expired q' = evicted q + expired q + int (length f) \<and> (tally q \<longrightarrow> tally q'))"

lemma counted_block:
  "counted q (taken_in (PutWake w d t) (snd (snd (fq_put_after w q [] (block_loop a b c d' t')))))
     (fq_put_after w q [] (block_loop a b c d' t'))"
  by (auto simp: counted_def fq_put_after_def block_loop_def fq_accept_def fq_reject_def Let_def tally_def
      split: bool.splits)

lemma counted_put:
  assumes "fq_wf q" and "fq_put q w t0 t1 = (q', f, out)"
  shows "counted q (taken_in (Put w t0 t1) out) (q', f, out)"
proof (cases "closed q \<or> qsize q < capacity q")
  case True
  with assms show ?thesis by (auto simp: counted_def fq_put_def fq_accept_def Let_def tally_def split: if_splits)
next
  case False
  then have full: "capacity q \<le> qsize q" "\<not> closed q" by auto
  show ?thesis
  proof (cases "overflow q")
    case REJECT
    with full assms show ?thesis
      by (auto simp: counted_def fq_put_def fq_make_room_def fq_put_after_def fq_reject_def tally_def)
  next
    case BLOCK
    have "taken_in (Put w t0 t1) out = taken_in (PutWake w 0 0) out" by (cases out) auto
    with BLOCK full assms
      counted_block[of q w 0 0 "qsize q" "capacity q" "closed q" "t0 + block_timeout_s q" t1]
    show ?thesis by (simp add: fq_put_def fq_make_room_def)
  next
    case DROP_OLDEST
    obtain i v l' q1 where e: "fq_make_room q t0 t1 =
        Inr (q1, [(v, QueueFullError (qname q) (capacity q) (capacity q))], Room True)"
      "q1 = q\<lparr>lanes := (lanes q)[i := l'], qsize := qsize q - 1, evicted := evicted q + 1,
            evicted_by := counter_inc (fairness_key v) (evicted_by q)\<rparr>"
      using fq_make_room_drop[OF assms(1) DROP_OLDEST full(1)] by metis
    then have "q' = fq_accept w q1" "f = [(v, QueueFullError (qname q) (capacity q) (capacity q))]" "out = Accepted"
      using assms(2) full by (auto simp: fq_put_def fq_put_after_def)
    with e(2) show ?thesis by (auto simp: counted_def fq_accept_def Let_def tally_def)
  qed
qed

lemma counted_drain:
  assumes "fq_wf q" and "fq_drain q mr now = (q', f, out)"
  shows "counted q [] (q', f, out)"
proof -
  obtain rs os where "fq_drained q mr now rs os" using fq_drain_spec[OF assms(1)] .
  with assms(2) show ?thesis by (auto simp: fq_drained_def counted_def tally_def)
qed

lemma counted_refl: "counted q [] (q, [], out)"
  by (simp add: counted_def)

lemma fair_step_counted:
  assumes "fq_wf q" and "fair_step q x = (q', f, out)" and "\<forall>e. x \<noteq> Close e"
  shows "counted q (taken_in x out) (q', f, out)"
  using assms
proof (cases x)
  case (PutWake w d t)
  with assms counted_block[of q w d t "qsize q" "capacity q" "closed q" d t] show ?thesis by (simp add: fq_put_wake_def)
qed (auto simp: fq_get_def fq_get_wake_def split: if_splits intro: counted_put counted_drain counted_refl)

lemma run_counted:
  assumes "fq_wf q" and "tally q" and "queue_run fair_step q xs = (q', ins, outs, fails)"
    and "\<forall>e. Close e \<notin> set xs"
  shows "tally q' \<and> accepted q' = accepted q + int (length ins) \<and>
    evicted q' + expired q' = evicted q + expired q + int (length fails)"
  using assms
proof (induction xs arbitrary: q ins outs fails)
  case (Cons x xs)
  obtain q1 f out where s: "fair_step q x = (q1, f, out)" by (cases "fair_step q x") auto
  obtain i o' g where r: "queue_run fair_step q1 xs = (q', i, o', g)"
    using Cons.prems(3) s by (auto split: prod.splits)
  have c: "counted q (taken_in x out) (q1, f, out)"
    by (rule fair_step_counted[OF Cons.prems(1) s]) (use Cons.prems(4) in auto)
  then have "tally q1" using Cons.prems(2) by (simp add: counted_def)
  from Cons.IH[OF fairq.step_inv[OF Cons.prems(1) s] this r] Cons.prems(3,4) c s r
  show ?case by (auto simp: counted_def)
qed simp

text \<open>
  The numbers an operator reads add up.  After any run of a fresh queue that is still open,
  \<^verbatim>\<open>stats()\<close> reports: as many accepted as went in; accepted = queued + handed out + evicted +
  expired; every request that failed is counted as evicted or expired; each total is the sum of
  its per-camera map; and a camera's depth is the number of its requests in the queue.
\<close>

theorem fair_stats_add_up:
  assumes "fq_init n cap ov bt de = Inr q" and "queue_run fair_step q xs = (q', ins, outs, fails)"
    and "\<forall>e. Close e \<notin> set xs" and "s = fq_stats q'"
  shows "st_accepted s = int (length ins) \<and>
    st_accepted s = st_depth s + int (length outs) + st_evicted s + st_expired s \<and>
    st_evicted s + st_expired s = int (length fails) \<and>
    st_rejected s = counter_total (st_rejected_by_camera s) \<and>
    st_evicted s = counter_total (st_evicted_by_camera s) \<and>
    st_expired s = counter_total (st_expired_by_camera s) \<and>
    counter_get (st_depth_by_camera s) k = int (count_list (map fairness_key (fq_items q')) k)"
proof -
  note wf = fq_init_wf[OF assms(1)]
  have z: "tally q" "accepted q = 0" "evicted q = 0" "expired q = 0"
    using assms(1) by (auto simp: tally_def fq_init_def queue_init_def rbind_def queue_base.defs fair_queue.defs
        split: if_splits)
  have c: "tally q' \<and> accepted q' = int (length ins) \<and> evicted q' + expired q' = int (length fails)"
    using run_counted[OF wf(1) z(1) assms(2,3)] z by simp
  have wf': "fq_wf q'" by (rule fairq.run_inv[OF wf(1) assms(2)])
  have "int (length ins) = int (length (fq_items q')) + int (length outs) + int (length fails)"
    using arg_cong[OF fairq.run_conserve[OF wf(1) assms(2)], of size] wf(2) by simp
  then show ?thesis using c fq_wfD(2)[OF wf'] fq_depth_by_camera_get[OF fq_wfD(1)[OF wf'], of k]
    by (simp add: assms(4) fq_stats_def tally_def)
qed

section \<open>Concrete runs\<close>

definition sample_queue :: "int \<Rightarrow> overflow_policy \<Rightarrow> fair_queue" where
  "sample_queue cap ov =
     \<lparr>qname = ''q'', capacity = cap, overflow = ov, block_timeout_s = of_int 50 / 1000, drop_expired = True,
      closed = False, accepted = 0, rejected = 0, evicted = 0, expired = 0,
      rejected_by = [], evicted_by = [], expired_by = [],
      lanes = replicate 4 lane_init, qsize = 0\<rparr>"

lemma sample_queue_init: "1 \<le> cap \<Longrightarrow> fq_init ''q'' cap ov 50 True = Inr (sample_queue cap ov)"
  by (simp add: fq_init_def queue_init_def rbind_def queue_base.defs fair_queue.defs sample_queue_def
      all_priorities_def numeral_eq_Suc)

definition sample_ops :: "queue_op list" where
  "sample_ops =
     [Put (sample_item ''a'' NORMAL 0 1) 0 0, Put (sample_item ''a'' NORMAL 0 2) 0 0,
      Put (sample_item ''b'' NORMAL 0 3) 0 0, Put (sample_item ''c'' HIGH 5 4) 0 0,
      GetBatch \<lparr>max_batch_size = 2, max_delay_us = 0, preferred_sizes = []\<rparr> 0 0 9]"

definition sample_run :: "fair_queue \<times> work_item list \<times> work_item list \<times> work_item list" where
  "sample_run = queue_run fair_step (sample_queue 3 DROP_OLDEST) sample_ops"

definition sample_final :: fair_queue where "sample_final = fst sample_run"
definition sample_ins :: "work_item list" where "sample_ins = fst (snd sample_run)"
definition sample_outs :: "work_item list" where "sample_outs = fst (snd (snd sample_run))"
definition sample_fails :: "work_item list" where "sample_fails = snd (snd (snd sample_run))"

lemma sample_run_eq:
  "queue_run fair_step (sample_queue 3 DROP_OLDEST) sample_ops = (sample_final, sample_ins, sample_outs, sample_fails)"
  by (simp add: sample_final_def sample_ins_def sample_outs_def sample_fails_def flip: sample_run_def)

lemma sample_run_values:
  "sample_ins = map stamp_queued [sample_item ''a'' NORMAL 0 1, sample_item ''a'' NORMAL 0 2,
     sample_item ''b'' NORMAL 0 3, sample_item ''c'' HIGH 5 4]"
  "sample_outs = map stamp_queued [sample_item ''a'' NORMAL 0 2, sample_item ''b'' NORMAL 0 3]"
  "sample_fails = map stamp_queued [sample_item ''a'' NORMAL 0 1, sample_item ''c'' HIGH 5 4]"
  by code_simp+

lemma fair_exactly_once_witness:
  "count_list (fq_items sample_final) (stamp_queued (sample_item ''a'' NORMAL 0 1)) +
   count_list sample_outs (stamp_queued (sample_item ''a'' NORMAL 0 1)) +
   count_list sample_fails (stamp_queued (sample_item ''a'' NORMAL 0 1)) = 1"
  by (rule fair_exactly_once[OF sample_queue_init sample_run_eq]) (simp, code_simp+)

lemma fair_bounded_witness:
  "qsize sample_final = int (length (fq_items sample_final)) \<and> qsize sample_final \<le> 3 \<and>
   lanes_ok (lanes sample_final)"
  by (rule fair_bounded[OF sample_queue_init sample_run_eq]) simp

lemma fair_stats_add_up_witness:
  "st_accepted (fq_stats sample_final) = 4 \<and>
   4 = st_depth (fq_stats sample_final) + 2 + st_evicted (fq_stats sample_final) + st_expired (fq_stats sample_final)"
  using fair_stats_add_up[OF sample_queue_init sample_run_eq _ refl, of "''a''"]
  by (auto simp: sample_ops_def sample_run_values)

text \<open>A queue of capacity 4 holding three requests of one camera and one of another.\<close>

definition sample_full :: "priority \<Rightarrow> fair_queue" where
  "sample_full p = fst (queue_run fair_step (sample_queue 4 DROP_OLDEST)
     [Put (sample_item ''a'' p 0 1) 0 0, Put (sample_item ''b'' p 0 2) 0 0,
      Put (sample_item ''a'' p 0 3) 0 0, Put (sample_item ''a'' p 0 4) 0 0])"

lemma sample_full_wf: "fq_wf (sample_full p)"
proof -
  have "fq_wf (fst (queue_run fair_step (sample_queue 4 DROP_OLDEST) xs))" for xs
    using fairq.run_inv[OF fq_init_wf(1)[OF sample_queue_init[of 4 DROP_OLDEST]]]
    by (cases "queue_run fair_step (sample_queue 4 DROP_OLDEST) xs") auto
  then show ?thesis unfolding sample_full_def .
qed

definition sample_drained :: "fair_queue step_result" where
  "sample_drained = fq_drain (sample_full NORMAL) 3 0"

definition sample_batch :: "work_item list" where
  "sample_batch = map stamp_queued [sample_item ''a'' NORMAL 0 1, sample_item ''b'' NORMAL 0 2, sample_item ''a'' NORMAL 0 3]"

lemma sample_drain_eq: "fq_drain (sample_full NORMAL) 3 0 = (fst sample_drained, [], Batch sample_batch)"
  by code_simp

lemma fair_batch_budget_priority_witness:
  "((\<Sum>w\<leftarrow>sample_batch. item_rows w) \<le> 3 \<or> length sample_batch \<le> 1) \<and>
    sorted (map (\<lambda>w. prio (priority (req w))) sample_batch) \<and>
    list_all (\<lambda>w. list_all (\<lambda>v. prio (priority (req w)) \<le> prio (priority (req v)))
      (fq_items (fst sample_drained))) sample_batch"
  using fair_batch_budget_priority[OF sample_full_wf sample_drain_eq] by (simp add: list_all_iff)

lemma fair_batch_max_min_witness:
  "count_list (map fairness_key sample_batch) ''b'' \<le> count_list (map fairness_key sample_batch) ''a'' + 1"
proof -
  have "stamp_queued (sample_item ''a'' NORMAL 0 4) \<in> set (fq_items (fst sample_drained))" by code_simp
  from fair_batch_max_min[OF sample_full_wf sample_drain_eq this refl, of "''b''"] show ?thesis
    by (simp add: sample_batch_def)
qed

lemma fair_drop_oldest_victim_witness:
  "\<exists>q' v b. fq_put (sample_full NORMAL) (sample_item ''c'' NORMAL 0 5) 0 0 =
      (q', [(v, QueueFullError ''q'' 4 4)], Accepted) \<and>
    map_of (by_key (lanes (sample_full NORMAL) ! prio (priority (req v)))) (fairness_key v) = Some (v # b)"
proof -
  have "overflow (sample_full NORMAL) = DROP_OLDEST" "qsize (sample_full NORMAL) = capacity (sample_full NORMAL)"
    "qname (sample_full NORMAL) = ''q''" "capacity (sample_full NORMAL) = 4" by code_simp+
  with fair_drop_oldest_victim[OF sample_full_wf this(1,2), of "sample_item ''c'' NORMAL 0 5" 0 0]
  show ?thesis by auto
qed

section \<open>Where the comments promise more than the code does\<close>

text \<open>
  A background request can displace a critical one.  The comment in \<^verbatim>\<open>_make_room_locked\<close> says it
  never can; the lane of the incoming request is not compared with the victim's, so when only
  \<^verbatim>\<open>TRACKING_CRITICAL\<close> work is queued a \<^verbatim>\<open>BACKGROUND\<close> arrival evicts it.
\<close>

theorem background_displaces_critical:
  "\<exists>q q'. fq_wf q \<and> list_all (\<lambda>v. priority (req v) = TRACKING_CRITICAL) (fq_items q) \<and>
     fq_put q (sample_item ''c'' BACKGROUND 0 5) 0 0 =
       (q', [(stamp_queued (sample_item ''a'' TRACKING_CRITICAL 0 1), QueueFullError ''q'' 4 4)], Accepted)"
proof (intro exI conjI)
  let ?q = "sample_full TRACKING_CRITICAL"
  show "fq_wf ?q" by (rule sample_full_wf)
  show "list_all (\<lambda>v. priority (req v) = TRACKING_CRITICAL) (fq_items ?q)" by code_simp
  show "fq_put ?q (sample_item ''c'' BACKGROUND 0 5) 0 0 =
      (fst (fq_put ?q (sample_item ''c'' BACKGROUND 0 5) 0 0),
       [(stamp_queued (sample_item ''a'' TRACKING_CRITICAL 0 1), QueueFullError ''q'' 4 4)], Accepted)"
    by code_simp
qed

text \<open>
  An open queue can return an empty batch.  \<^verbatim>\<open>RequestQueue.get_batch\<close> documents the empty list
  as the sign that the queue was closed; a drain that finds only expired requests returns one from a queue
  that is open.
\<close>

theorem open_queue_empty_batch:
  "\<exists>q q' f. fq_wf q \<and> \<not> closed q \<and> \<not> closed q' \<and>
     fq_get q \<lparr>max_batch_size = 2, max_delay_us = 0, preferred_sizes = []\<rparr> 0 0 9 = (q', f, Batch [])"
proof -
  let ?q = "fst (fq_put (sample_queue 3 REJECT) (sample_item ''c'' HIGH 5 4) 0 0)"
  let ?r = "fq_get ?q \<lparr>max_batch_size = 2, max_delay_us = 0, preferred_sizes = []\<rparr> 0 0 9"
  have "fq_wf (sample_queue 3 REJECT)" by (rule fq_init_wf(1)[OF sample_queue_init]) simp
  from fq_put_ok[OF this] have "fq_wf ?q" by (metis (no_types, lifting) case_prodD prod.collapse step_ok_def)
  moreover have "\<not> closed ?q" "\<not> closed (fst ?r)" by code_simp+
  moreover have "?r = (fst ?r, fst (snd ?r), Batch [])" by code_simp
  ultimately show ?thesis by blast
qed

end
