(* ===== verification/Fifo_Queue.thy ===== *)
theory Fifo_Queue
  imports Queue_Base "HOL-Library.Sublist"
begin

text \<open>
  \<^verbatim>\<open>src/shipinfer/scheduling/queues/fifo.py\<close>: the priority-blind baseline queue, over the same
  base record and steps as the fair queue.  It interprets the same contract, so what the model
  instances rely on holds of it too; what it promises on top is order.
\<close>

record fifo_queue = queue_base +
  fitems :: "work_item list"

definition fifo_init ::
  "string \<Rightarrow> int \<Rightarrow> overflow_policy \<Rightarrow> int \<Rightarrow> bool \<Rightarrow> fifo_queue result" where
  "fifo_init n cap ov block_timeout_ms de =
     rbind (queue_init n cap ov block_timeout_ms de)
       (\<lambda>b. Inr (queue_base.extend b (fifo_queue.fields [])))"

abbreviation fifo_depth :: "fifo_queue \<Rightarrow> int" where
  "fifo_depth q \<equiv> int (length (fitems q))"

definition fifo_stats :: "fifo_queue \<Rightarrow> queue_stats" where
  "fifo_stats q =
     \<lparr>st_depth = fifo_depth q, st_capacity = capacity q, st_accepted = accepted q,
      st_rejected = rejected q, st_evicted = evicted q, st_expired = expired q,
      st_depth_by_camera = counter_inc_all (map fairness_key (fitems q)) [],
      st_rejected_by_camera = rejected_by q, st_evicted_by_camera = evicted_by q,
      st_expired_by_camera = expired_by q\<rparr>"

definition fifo_accept :: "work_item \<Rightarrow> fifo_queue \<Rightarrow> fifo_queue" where
  "fifo_accept w q = q\<lparr>fitems := fitems q @ [stamp_queued w], accepted := accepted q + 1\<rparr>"

definition fifo_make_room ::
  "fifo_queue \<Rightarrow> rat \<Rightarrow> rat \<Rightarrow> (fifo_queue \<times> (work_item \<times> err) list \<times> room) result" where
  "fifo_make_room q t0 t1 =
     (case overflow q of
        REJECT \<Rightarrow> Inr (q, [], Room False)
      | BLOCK \<Rightarrow> Inr (q, [], block_loop (fifo_depth q) (capacity q) (closed q) (t0 + block_timeout_s q) t1)
      | DROP_OLDEST \<Rightarrow>
          (case fitems q of
             [] \<Rightarrow> Inl IndexError
           | w # ws \<Rightarrow>
               Inr (q\<lparr>fitems := ws, evicted := evicted q + 1,
                      evicted_by := counter_inc (fairness_key w) (evicted_by q)\<rparr>,
                    [(w, QueueFullError (qname q) (int (length ws) + 1) (capacity q))], Room True)))"

definition fifo_put_after ::
  "work_item \<Rightarrow> fifo_queue \<Rightarrow> (work_item \<times> err) list \<Rightarrow> room \<Rightarrow> fifo_queue step_result" where
  "fifo_put_after w q f r =
     (case r of
        RoomSleep d \<Rightarrow> (q, f, SleepUntil d)
      | Room ok \<Rightarrow>
          if ok then (fifo_accept w q, f, Accepted)
          else if closed q then (q, f, Raised RequestCancelledError)
          else (q\<lparr>rejected := rejected q + 1, rejected_by := counter_inc (fairness_key w) (rejected_by q)\<rparr>,
                f, Raised (QueueFullError (qname q) (fifo_depth q) (capacity q))))"

definition fifo_put :: "fifo_queue \<Rightarrow> work_item \<Rightarrow> rat \<Rightarrow> rat \<Rightarrow> fifo_queue step_result" where
  "fifo_put q w t0 t1 =
     (if closed q then (q, [], Raised RequestCancelledError)
      else if fifo_depth q \<ge> capacity q then
        (case fifo_make_room q t0 t1 of
           Inl e \<Rightarrow> (q, [], Raised e)
         | Inr (q', f, r) \<Rightarrow> fifo_put_after w q' f r)
      else (fifo_accept w q, [], Accepted))"

definition fifo_put_wake :: "fifo_queue \<Rightarrow> work_item \<Rightarrow> rat \<Rightarrow> rat \<Rightarrow> fifo_queue step_result" where
  "fifo_put_wake q w deadline now =
     fifo_put_after w q [] (block_loop (fifo_depth q) (capacity q) (closed q) deadline now)"

text \<open>The drain loop: what is left, the batch, and the expired items in the order they were met.\<close>

fun fifo_loop ::
  "bool \<Rightarrow> int \<Rightarrow> int \<Rightarrow> work_item list \<Rightarrow> work_item list \<Rightarrow> int \<Rightarrow> work_item list \<Rightarrow>
   work_item list \<times> work_item list \<times> work_item list" where
  "fifo_loop de now mr [] batch rows ex = ([], batch, ex)"
| "fifo_loop de now mr (w # ws) batch rows ex =
     (if batch \<noteq> [] \<and> rows + item_rows w > mr then (w # ws, batch, ex)
      else if de \<and> is_expired (req w) now then fifo_loop de now mr ws batch rows (ex @ [w])
      else if rows + item_rows w \<ge> mr then (ws, batch @ [w], ex)
      else fifo_loop de now mr ws (batch @ [w]) (rows + item_rows w) ex)"

definition fifo_drain :: "fifo_queue \<Rightarrow> int \<Rightarrow> int \<Rightarrow> fifo_queue step_result" where
  "fifo_drain q max_rows now =
     (case fifo_loop (drop_expired q) now max_rows (fitems q) [] 0 [] of
        (rest, batch, ex) \<Rightarrow>
          (q\<lparr>fitems := rest, expired := expired q + int (length ex),
             expired_by := counter_inc_all (map fairness_key ex) (expired_by q)\<rparr>,
           map (\<lambda>w. (w, RequestCancelledError)) ex, Batch batch))"

definition fifo_get :: "fifo_queue \<Rightarrow> batch_window \<Rightarrow> rat \<Rightarrow> rat \<Rightarrow> int \<Rightarrow> fifo_queue step_result" where
  "fifo_get q w t0 t1 now =
     (if fitems q = [] then (if closed q then (q, [], Batch []) else (q, [], SleepIdle))
      else if max_delay_us w > 0 \<and> fifo_depth q < max_batch_size w \<and>
              fill_loop (fifo_depth q) (closed q) w (fill_deadline w t0) t1
      then (q, [], SleepUntil (fill_deadline w t0))
      else fifo_drain q (max_batch_size w) now)"

definition fifo_get_wake :: "fifo_queue \<Rightarrow> batch_window \<Rightarrow> rat \<Rightarrow> rat \<Rightarrow> int \<Rightarrow> fifo_queue step_result" where
  "fifo_get_wake q w deadline t now =
     (if fill_loop (fifo_depth q) (closed q) w deadline t then (q, [], SleepUntil deadline)
      else fifo_drain q (max_batch_size w) now)"

definition fifo_close :: "fifo_queue \<Rightarrow> err option \<Rightarrow> fifo_queue step_result" where
  "fifo_close q e =
     (q\<lparr>closed := True, fitems := []\<rparr>, map (\<lambda>w. (w, close_reason e)) (fitems q), Drained (fitems q))"

fun fifo_step :: "fifo_queue \<Rightarrow> queue_op \<Rightarrow> fifo_queue step_result" where
  "fifo_step q (Put w t0 t1) = fifo_put q w t0 t1"
| "fifo_step q (PutWake w d t) = fifo_put_wake q w d t"
| "fifo_step q (GetBatch w t0 t1 now) = fifo_get q w t0 t1 now"
| "fifo_step q (GetWake w d t now) = fifo_get_wake q w d t now"
| "fifo_step q (Close e) = fifo_close q e"

definition fifo_wf :: "fifo_queue \<Rightarrow> bool" where
  "fifo_wf q \<longleftrightarrow> 1 \<le> capacity q \<and> fifo_depth q \<le> capacity q \<and> (closed q \<longrightarrow> fitems q = [])"

lemma image_mset_fst_const [simp]: "image_mset fst {#(w, e). w \<in># M#} = M"
  by (induction M) auto

section \<open>The drain loop\<close>

text \<open>The loop takes a prefix, splits it into batch and expired items, and keeps to the budget.\<close>

lemma fifo_loop_prefix:
  assumes "fifo_loop de now mr xs batch rows ex = (rest, batch', ex')"
  shows "\<exists>pre. xs = pre @ rest \<and> batch' = batch @ filter (\<lambda>w. \<not> (de \<and> is_expired (req w) now)) pre \<and>
    ex' = ex @ filter (\<lambda>w. de \<and> is_expired (req w) now) pre"
  using assms
proof (induction xs arbitrary: batch rows ex)
  case (Cons w ws)
  let ?e = "de \<and> is_expired (req w) now"
  consider (stop) "batch \<noteq> [] \<and> rows + item_rows w > mr"
    | (exp) "?e" "fifo_loop de now mr ws batch rows (ex @ [w]) = (rest, batch', ex')"
    | (last) "\<not> ?e" "(ws, batch @ [w], ex) = (rest, batch', ex')"
    | (more) "\<not> ?e" "fifo_loop de now mr ws (batch @ [w]) (rows + item_rows w) ex = (rest, batch', ex')"
    using Cons.prems by (auto split: if_splits)
  then show ?case
  proof cases
    case stop
    with Cons.prems show ?thesis by (intro exI[of _ "[]"]) auto
  next
    case exp
    from Cons.IH[OF exp(2)] obtain pre where "ws = pre @ rest"
      "batch' = batch @ filter (\<lambda>w. \<not> (de \<and> is_expired (req w) now)) pre"
      "ex' = (ex @ [w]) @ filter (\<lambda>w. de \<and> is_expired (req w) now) pre" by blast
    with exp(1) show ?thesis by (intro exI[of _ "w # pre"]) simp
  next
    case last
    then show ?thesis by (intro exI[of _ "[w]"]) auto
  next
    case more
    from Cons.IH[OF more(2)] obtain pre where "ws = pre @ rest"
      "batch' = (batch @ [w]) @ filter (\<lambda>w. \<not> (de \<and> is_expired (req w) now)) pre"
      "ex' = ex @ filter (\<lambda>w. de \<and> is_expired (req w) now) pre" by blast
    with more(1) show ?thesis by (intro exI[of _ "w # pre"]) auto
  qed
qed simp

lemma fifo_loop_rows:
  "fifo_loop de now mr xs batch rows ex = (rest, batch', ex') \<Longrightarrow>
    rows = (\<Sum>w\<leftarrow>batch. item_rows w) \<Longrightarrow> rows \<le> mr \<or> length batch \<le> 1 \<Longrightarrow>
    (\<Sum>w\<leftarrow>batch'. item_rows w) \<le> mr \<or> length batch' \<le> 1"
proof (induction xs arbitrary: batch rows ex)
  case (Cons w ws)
  from Cons.IH[of batch rows "ex @ [w]"] Cons.IH[of "batch @ [w]" "rows + item_rows w" ex] Cons.prems
  show ?case by (auto split: if_splits)
qed simp

section \<open>The contract\<close>

definition fifo_ok :: "fifo_queue \<Rightarrow> work_item list \<Rightarrow> fifo_queue step_result \<Rightarrow> bool" where
  "fifo_ok q ins r = (case r of (q', f, out) \<Rightarrow>
     fifo_wf q' \<and> capacity q' = capacity q \<and> drop_expired q' = drop_expired q \<and> (closed q \<longrightarrow> closed q') \<and>
     mset (fitems q) + mset ins = mset (fitems q') + mset (handed_out out) + mset (map fst f) \<and>
     subseq (handed_out out @ fitems q') (fitems q @ ins) \<and>
     (\<forall>e. out = Raised e \<longrightarrow> e = RequestCancelledError \<or>
        (\<exists>n. e = QueueFullError n (capacity q) (capacity q) \<and> fitems q' = fitems q \<and> f = [])))"

lemma fifo_put_after_ok:
  assumes "fifo_wf q" and "r = block_loop (fifo_depth q) (capacity q) (closed q) d' t' \<or> r = Room False \<and> \<not> closed q \<and> fifo_depth q = capacity q"
    and "fifo_put_after w q [] r = (q', f, out)"
  shows "fifo_ok q (taken_in (Put w t0 t1) out) (q', f, out)" "fifo_ok q (taken_in (PutWake w d t) out) (q', f, out)"
  using assms
  by (auto simp: fifo_ok_def fifo_put_after_def block_loop_def fifo_accept_def fifo_wf_def split: if_splits)

lemma fifo_put_ok:
  assumes "fifo_wf q" and "fifo_put q w t0 t1 = (q', f, out)"
  shows "fifo_ok q (taken_in (Put w t0 t1) out) (q', f, out)"
proof (cases "closed q \<or> fifo_depth q < capacity q")
  case True
  with assms show ?thesis
    by (auto simp: fifo_ok_def fifo_put_def fifo_accept_def fifo_wf_def split: if_splits)
next
  case False
  then have full: "fifo_depth q = capacity q" "\<not> closed q" using assms(1) by (auto simp: fifo_wf_def)
  show ?thesis
  proof (cases "overflow q")
    case REJECT
    with full assms show ?thesis
      by (intro fifo_put_after_ok(1)[OF assms(1), of "Room False"]) (auto simp: fifo_put_def fifo_make_room_def)
  next
    case BLOCK
    with full assms show ?thesis
      by (intro fifo_put_after_ok(1)[OF assms(1) disjI1[OF refl], where d' = "t0 + block_timeout_s q" and t' = t1])
        (auto simp: fifo_put_def fifo_make_room_def)
  next
    case DROP_OLDEST
    from full assms(1) obtain v vs where v: "fitems q = v # vs" by (cases "fitems q") (auto simp: fifo_wf_def)
    with DROP_OLDEST full assms show ?thesis
      by (auto simp: fifo_ok_def fifo_put_def fifo_make_room_def fifo_put_after_def fifo_accept_def fifo_wf_def)
  qed
qed

lemma fifo_drain_ok:
  assumes "fifo_wf q" and "fifo_drain q mr now = (q', f, out)"
  shows "fifo_ok q [] (q', f, out)"
proof -
  obtain rest b ex where l: "fifo_loop (drop_expired q) now mr (fitems q) [] 0 [] = (rest, b, ex)"
    by (cases "fifo_loop (drop_expired q) now mr (fitems q) [] 0 []")
  let ?e = "\<lambda>w. drop_expired q \<and> is_expired (req w) now"
  from fifo_loop_prefix[OF l] obtain pre where
    p: "fitems q = pre @ rest" "b = filter (\<lambda>w. \<not> ?e w) pre" "ex = filter ?e pre" by auto
  have q': "q' = q\<lparr>fitems := rest, expired := expired q + int (length ex),
             expired_by := counter_inc_all (map fairness_key ex) (expired_by q)\<rparr>"
    "map fst f = ex" "out = Batch b"
    using assms(2) l by (auto simp: fifo_drain_def comp_def)
  have "mset pre = mset b + mset ex" unfolding p by (metis add.commute mset_filter multiset_partition)
  then have "mset (fitems q) = mset (fitems q') + mset b + mset ex" using p(1) q'(1) by simp
  moreover have "subseq (b @ rest) (fitems q)" unfolding p(1,2) by (intro list_emb_append_mono) auto
  ultimately show ?thesis using assms(1) q' p(1) unfolding fifo_ok_def fifo_wf_def
    by (auto simp: mset_map[symmetric] simp del: mset_map)
qed

lemma fifo_step_ok:
  assumes "fifo_wf q" and "fifo_step q x = (q', f, out)"
  shows "fifo_ok q (taken_in x out) (q', f, out)"
proof (cases x)
  case (PutWake w d t)
  with assms fifo_put_after_ok(2)[OF assms(1) disjI1[OF refl]] show ?thesis by (simp add: fifo_put_wake_def)
next
  case (GetBatch w t0 t1 now)
  then show ?thesis using assms fifo_drain_ok[OF assms(1)]
    by (auto simp: fifo_get_def fifo_ok_def[of q "[]"] split: if_splits)
next
  case (GetWake w d t now)
  then show ?thesis using assms fifo_drain_ok[OF assms(1)]
    by (auto simp: fifo_get_wake_def fifo_ok_def[of q "[]"] split: if_splits)
next
  case (Close e)
  with assms show ?thesis by (auto simp: fifo_ok_def fifo_close_def fifo_wf_def image_mset_fst_const)
qed (use assms fifo_put_ok in auto)

lemma fifo_frame:
  assumes "fifo_step q x = (q', f, out)"
  shows "capacity q' = capacity q \<and> drop_expired q' = drop_expired q" and "closed q \<Longrightarrow> closed q'"
    and "closed q \<Longrightarrow> taken_in x out = []"
proof -
  have "capacity q' = capacity q \<and> drop_expired q' = drop_expired q \<and>
      (closed q \<longrightarrow> closed q' \<and> taken_in x out = [])"
    using assms
    by (cases x)
      (auto simp: fifo_put_def fifo_put_wake_def fifo_get_def fifo_get_wake_def fifo_close_def fifo_drain_def
        fifo_make_room_def fifo_put_after_def fifo_accept_def block_loop_def
        split: if_splits prod.splits room.splits overflow_policy.splits list.splits sum.splits)
  then show "capacity q' = capacity q \<and> drop_expired q' = drop_expired q" and "closed q \<Longrightarrow> closed q'"
    and "closed q \<Longrightarrow> taken_in x out = []" by auto
qed

interpretation fifoq: request_queue fifo_step fitems fifo_wf capacity closed drop_expired
proof
  fix q x q' f out e
  show "fifo_wf q \<Longrightarrow> fifo_step q x = (q', f, out) \<Longrightarrow> fifo_wf q'"
    and "fifo_wf q \<Longrightarrow> fifo_step q x = (q', f, out) \<Longrightarrow>
      mset (fitems q) + mset (taken_in x out) = mset (fitems q') + mset (handed_out out) + mset (map fst f)"
    and "fifo_wf q \<Longrightarrow> fifo_step q x = (q', f, Raised e) \<Longrightarrow>
      e = RequestCancelledError \<or> (\<exists>n. e = QueueFullError n (capacity q) (capacity q) \<and> fitems q' = fitems q \<and> f = [])"
    by (auto dest: fifo_step_ok simp: fifo_ok_def)
qed (auto simp: fifo_wf_def intro: fifo_frame dest: fifo_frame(1))

lemma fifo_init_wf:
  assumes "fifo_init n cap ov bt de = Inr q"
  shows "fifo_wf q" "fitems q = []" "capacity q = cap"
  using assms
  by (auto simp: fifo_init_def queue_init_def rbind_def queue_base.defs fifo_queue.defs fifo_wf_def split: if_splits)

lemma fifo_run_order:
  "fifo_wf q \<Longrightarrow> queue_run fifo_step q xs = (q', ins, outs, fails) \<Longrightarrow>
    subseq (outs @ fitems q') (fitems q @ ins)"
proof (induction xs arbitrary: q ins outs fails)
  case (Cons x xs)
  obtain q1 f out where s: "fifo_step q x = (q1, f, out)" by (cases "fifo_step q x") auto
  obtain i o' g where r: "queue_run fifo_step q1 xs = (q', i, o', g)"
    using Cons.prems(2) s by (auto split: prod.splits)
  have e: "ins = taken_in x out @ i" "outs = handed_out out @ o'"
    using Cons.prems(2) s r by auto
  have one: "subseq (handed_out out @ fitems q1) (fitems q @ taken_in x out)"
    using fifo_step_ok[OF Cons.prems(1) s] by (simp add: fifo_ok_def)
  have two: "subseq (o' @ fitems q') (fitems q1 @ i)"
    by (rule Cons.IH[OF fifoq.step_inv[OF Cons.prems(1) s] r])
  have "subseq (handed_out out @ o' @ fitems q') (handed_out out @ fitems q1 @ i)"
    using two by (simp add: subseq_append')
  also have "subseq \<dots> ((fitems q @ taken_in x out) @ i)"
    using list_emb_append_mono[OF one subseq_order.refl[of i]] by simp
  finally show ?case by (simp add: e)
qed simp

text \<open>
  C5: the baseline queue keeps order and loses nothing.  In any run of a fresh \<^verbatim>\<open>FifoQueue\<close> the
  requests handed out, followed by those still queued, are in the order in which they were accepted, and
  every accepted request is exactly once among queued, handed out and failed.
\<close>

theorem fifo_order_exactly_once:
  assumes "fifo_init n cap ov bt de = Inr q" and "queue_run fifo_step q xs = (q', ins, outs, fails)"
  shows "subseq (outs @ fitems q') ins \<and> mset ins = mset (fitems q') + mset outs + mset fails \<and>
    int (length (fitems q')) \<le> cap"
  using fifo_run_order[OF fifo_init_wf(1)[OF assms(1)] assms(2)]
    fifoq.run_conserve[OF fifo_init_wf(1)[OF assms(1)] assms(2)]
    fifoq.bounded[OF fifoq.run_inv[OF fifo_init_wf(1)[OF assms(1)] assms(2)]]
    fifoq.run_cap[OF assms(2)] fifo_init_wf(2,3)[OF assms(1)] by simp

definition sample_fifo_run :: "fifo_queue \<times> work_item list \<times> work_item list \<times> work_item list" where
  "sample_fifo_run = queue_run fifo_step (projr (fifo_init ''q'' 2 DROP_OLDEST 50 True))
     [Put (sample_item ''a'' NORMAL 0 1) 0 0, Put (sample_item ''b'' HIGH 0 2) 0 0,
      Put (sample_item ''a'' NORMAL 0 3) 0 0,
      GetBatch \<lparr>max_batch_size = 1, max_delay_us = 0, preferred_sizes = []\<rparr> 0 0 9]"

lemma fifo_order_exactly_once_witness:
  "subseq (fst (snd (snd sample_fifo_run)) @ fitems (fst sample_fifo_run)) (fst (snd sample_fifo_run)) \<and>
   fst (snd (snd sample_fifo_run)) = [stamp_queued (sample_item ''b'' HIGH 0 2)]"
proof -
  have init: "fifo_init ''q'' 2 DROP_OLDEST 50 True = Inr (projr (fifo_init ''q'' 2 DROP_OLDEST 50 True))"
    by code_simp
  have "fst (snd (snd sample_fifo_run)) = [stamp_queued (sample_item ''b'' HIGH 0 2)]" by code_simp
  with fifo_order_exactly_once[OF init, of _ "fst sample_fifo_run" "fst (snd sample_fifo_run)"
      "fst (snd (snd sample_fifo_run))" "snd (snd (snd sample_fifo_run))"]
  show ?thesis unfolding sample_fifo_run_def by (metis prod.collapse)
qed

text \<open>
  What a \<^verbatim>\<open>FifoQueue\<close> batch is: a prefix of the queue without its expired requests, within the row
  budget unless it is a single request too large on its own.
\<close>

theorem fifo_batch_prefix:
  "\<exists>pre rest. fitems q = pre @ rest \<and>
    (\<exists>q' failed ws. fifo_drain q max_rows now = (q', failed, Batch ws) \<and> fitems q' = rest \<and>
      ws = filter (\<lambda>w. \<not> (drop_expired q \<and> is_expired (req w) now)) pre \<and>
      map fst failed = filter (\<lambda>w. drop_expired q \<and> is_expired (req w) now) pre \<and>
      ((\<Sum>w\<leftarrow>ws. item_rows w) \<le> max_rows \<or> length ws \<le> 1))"
proof -
  obtain rest b ex where l: "fifo_loop (drop_expired q) now max_rows (fitems q) [] 0 [] = (rest, b, ex)"
    by (cases "fifo_loop (drop_expired q) now max_rows (fitems q) [] 0 []")
  from fifo_loop_prefix[OF l] fifo_loop_rows[OF l] show ?thesis
    by (auto simp: fifo_drain_def l comp_def)
qed

end
