(* ===== verification/Policies.thy ===== *)
theory Policies
  imports Requests
begin

text \<open>
  \<^verbatim>\<open>src/shipinfer/scheduling/policies\<close>: which instance runs a request.

  A policy sees each instance through the \<^verbatim>\<open>Placeable\<close> protocol, so the model of a candidate is the
  record of its attributes at the moment of the call plus its identity \<^verbatim>\<open>iid\<close> (Python compares
  instances by identity).  A policy object is its mutable state, and \<^verbatim>\<open>select\<close> returns the chosen
  candidate with the new state.  A random generator is the stream of integers it will draw:
  \<^verbatim>\<open>randrange(n)\<close> is the next one modulo \<^verbatim>\<open>n\<close>, so a statement about every stream covers every
  outcome.  The locale \<^verbatim>\<open>placement_policy\<close> is the contract the dispatcher relies on; the five
  policies interpret it, the two that take a fallback for any fallback that meets it.
\<close>

record placeable =
  iid :: nat
  pdevice :: device
  pdepth :: int
  pready :: bool

type_synonym 'p policy = "'p \<Rightarrow> placeable list \<Rightarrow> inference_request \<Rightarrow> (placeable \<times> 'p) result"

text \<open>\<^verbatim>\<open>RoundRobinPolicy\<close>: the state is the next value of \<^verbatim>\<open>itertools.count()\<close>.\<close>

definition rr_select :: "nat policy" where
  "rr_select n cs r =
     (if cs = [] then Inl ZeroDivisionError else Inr (cs ! (n mod length cs), Suc n))"

text \<open>\<^verbatim>\<open>JoinShortestQueuePolicy\<close>, its loop over \<^verbatim>\<open>candidates[1:]\<close> with the early exit at depth 0.\<close>

fun jsq_loop :: "placeable \<Rightarrow> int \<Rightarrow> placeable list \<Rightarrow> placeable" where
  "jsq_loop best best_depth [] = best"
| "jsq_loop best best_depth (c # cs) =
     (if pdepth c < best_depth
      then if pdepth c = 0 then c else jsq_loop c (pdepth c) cs
      else jsq_loop best best_depth cs)"

definition jsq_select :: "unit policy" where
  "jsq_select u cs r =
     (case cs of [] \<Rightarrow> Inl IndexError | c # rest \<Rightarrow> Inr (jsq_loop c (pdepth c) rest, u))"

text \<open>\<^verbatim>\<open>random.Random.randrange\<close>.\<close>

record rand =
  draws :: "nat \<Rightarrow> int"
  drawn :: nat

definition randrange :: "int \<Rightarrow> rand \<Rightarrow> (int \<times> rand) result" where
  "randrange n g =
     (if n \<le> 0 then Inl ValueError else Inr (draws g (drawn g) mod n, g\<lparr>drawn := Suc (drawn g)\<rparr>))"

definition p2c_select :: "rand policy" where
  "p2c_select g cs r =
     (let n = int (length cs) in
      if n = 1 then Inr (cs ! 0, g)
      else rbind (randrange n g) (\<lambda>(i, g1). rbind (randrange (n - 1) g1) (\<lambda>(j, g2).
        let j' = (if j \<ge> i then j + 1 else j); a = cs ! nat i; b = cs ! nat j'
        in Inr (if pdepth a \<le> pdepth b then a else b, g2))))"

text \<open>\<^verbatim>\<open>LocalityAwareSpilloverPolicy\<close> over any fallback.\<close>

fun local_best :: "device \<Rightarrow> placeable option \<Rightarrow> placeable list \<Rightarrow> placeable option" where
  "local_best d best [] = best"
| "local_best d best (c # cs) =
     local_best d
       (if pdevice c = d \<and> (case best of None \<Rightarrow> True | Some b \<Rightarrow> pdepth c < pdepth b) then Some c else best) cs"

definition mk_locality :: "int \<Rightarrow> int result" where
  "mk_locality threshold = (if threshold < 0 then Inl ConfigurationError else Inr threshold)"

definition locality_select :: "int \<Rightarrow> 'p policy \<Rightarrow> 'p policy" where
  "locality_select threshold fallback p cs r =
     (case resident_device r of
        None \<Rightarrow> fallback p cs r
      | Some d \<Rightarrow>
          if is_cuda d then
            (case local_best d None cs of
               None \<Rightarrow> fallback p cs r
             | Some b \<Rightarrow> if pdepth b \<le> threshold then Inr (b, p) else fallback p cs r)
          else fallback p cs r)"

text \<open>\<^verbatim>\<open>SequenceAffinityPolicy\<close>: the affinity table and the state of the fallback.\<close>

record 'p affinity =
  assigned :: "(string, nat) dict"
  fb :: 'p

definition affinity_select :: "int \<Rightarrow> 'p policy \<Rightarrow> 'p affinity policy" where
  "affinity_select max_sequences fallback a cs r =
     (let key = camera_id (ctx r);
          pick = (\<lambda>upd. rbind (fallback (fb a) cs r) (\<lambda>(c, p). Inr (c, upd c (a\<lparr>fb := p\<rparr>))))
      in if key = [] then pick (\<lambda>c a. a)
         else case Option.bind (map_of (assigned a) key)
                     (\<lambda>pin. List.find (\<lambda>c. iid c = pin \<and> pready c) cs) of
             Some c \<Rightarrow> Inr (c, a)
           | None \<Rightarrow> pick (\<lambda>c a.
               let t = (if int (length (assigned a)) \<ge> max_sequences then [] else assigned a)
               in a\<lparr>assigned := AList.update key (iid c) t\<rparr>))"

definition affinity_forget :: "string \<Rightarrow> 'p affinity \<Rightarrow> 'p affinity" where
  "affinity_forget key a = a\<lparr>assigned := AList.delete key (assigned a)\<rparr>"

section \<open>The contract\<close>

locale placement_policy =
  fixes select :: "'p policy" and inv :: "'p \<Rightarrow> bool"
  assumes select_in: "inv p \<Longrightarrow> cs \<noteq> [] \<Longrightarrow> \<exists>c p'. select p cs r = Inr (c, p') \<and> c \<in> set cs \<and> inv p'"
begin

lemma select_result:
  assumes "inv p" and "select p cs r = Inr (c, p')" and "cs \<noteq> []"
  shows "c \<in> set cs" and "inv p'"
  using select_in[OF assms(1,3), of r] assms(2) by auto

lemma select_total: "inv p \<Longrightarrow> cs \<noteq> [] \<Longrightarrow> \<exists>c p'. select p cs r = Inr (c, p')"
  using select_in by blast

end

interpretation rr: placement_policy rr_select "\<lambda>_. True"
  by unfold_locales (auto simp: rr_select_def)

lemma jsq_loop_in: "jsq_loop b d cs \<in> insert b (set cs)"
  by (induction b d cs rule: jsq_loop.induct) auto

interpretation jsq: placement_policy jsq_select "\<lambda>_. True"
proof
  fix u :: unit and cs :: "placeable list" and r
  assume "cs \<noteq> []"
  then obtain c rest where "cs = c # rest" by (cases cs) auto
  then show "\<exists>c p'. jsq_select u cs r = Inr (c, p') \<and> c \<in> set cs \<and> True"
    using jsq_loop_in[of c "pdepth c" rest] by (simp add: jsq_select_def)
qed

lemma p2c_pair:
  assumes "2 \<le> length cs"
  obtains i j g' where "i < length cs" "j < length cs" "i \<noteq> j"
    "p2c_select g cs r = Inr (if pdepth (cs ! i) \<le> pdepth (cs ! j) then cs ! i else cs ! j, g')"
proof -
  define n where "n = int (length cs)"
  define i where "i = draws g (drawn g) mod n"
  define j0 where "j0 = draws g (Suc (drawn g)) mod (n - 1)"
  define j where "j = (if j0 \<ge> i then j0 + 1 else j0)"
  have n: "2 \<le> n" using assms by (simp add: n_def)
  have b: "0 \<le> i" "i < n" "0 \<le> j0" "j0 < n - 1"
    using n by (simp_all add: i_def j0_def)
  have "p2c_select g cs r =
      Inr (if pdepth (cs ! nat i) \<le> pdepth (cs ! nat j) then cs ! nat i else cs ! nat j,
           g\<lparr>drawn := Suc (Suc (drawn g))\<rparr>)"
    using n unfolding p2c_select_def randrange_def Let_def n_def[symmetric]
    by (simp add: j_def flip: i_def j0_def)
  moreover have "0 \<le> j" "j < n" "i \<noteq> j" using b by (auto simp: j_def)
  ultimately show ?thesis using b that[of "nat i" "nat j"] by (auto simp: n_def)
qed

interpretation p2c: placement_policy p2c_select "\<lambda>_. True"
proof
  fix g :: rand and cs :: "placeable list" and r
  assume ne: "cs \<noteq> []"
  show "\<exists>c p'. p2c_select g cs r = Inr (c, p') \<and> c \<in> set cs \<and> True"
  proof (cases "length cs = 1")
    case True
    then show ?thesis by (auto simp: p2c_select_def)
  next
    case False
    with ne have "2 \<le> length cs" by (cases cs) (auto simp: Suc_le_eq)
    then obtain i j g' where "i < length cs" "j < length cs" "i \<noteq> j"
      "p2c_select g cs r = Inr (if pdepth (cs ! i) \<le> pdepth (cs ! j) then cs ! i else cs ! j, g')"
      by (rule p2c_pair)
    then show ?thesis by simp
  qed
qed

lemma local_best_spec:
  assumes "local_best d best cs = Some b"
  shows "(b \<in> set cs \<and> pdevice b = d \<or> best = Some b) \<and>
    (\<forall>c \<in> set cs. pdevice c = d \<longrightarrow> pdepth b \<le> pdepth c) \<and> (\<forall>c. best = Some c \<longrightarrow> pdepth b \<le> pdepth c)"
  using assms
proof (induction cs arbitrary: best)
  case (Cons c cs)
  let ?best = "if pdevice c = d \<and> (case best of None \<Rightarrow> True | Some b \<Rightarrow> pdepth c < pdepth b) then Some c else best"
  from Cons.IH[of ?best] Cons.prems show ?case by (fastforce split: if_splits option.splits)
qed simp

lemma local_best_None: "local_best d best cs = None \<longleftrightarrow> best = None \<and> (\<forall>c \<in> set cs. pdevice c \<noteq> d)"
  by (induction cs arbitrary: best) auto

lemma find_in: "List.find P xs = Some x \<Longrightarrow> x \<in> set xs \<and> P x"
  by (auto simp: find_Some_iff)

context placement_policy
begin

lemma locality_policy: "placement_policy (locality_select th select) inv"
proof
  fix p and cs :: "placeable list" and r
  assume a: "inv p" "cs \<noteq> []"
  show "\<exists>c p'. locality_select th select p cs r = Inr (c, p') \<and> c \<in> set cs \<and> inv p'"
    using select_in[OF a, of r] a(1)
    by (auto simp: locality_select_def split: option.splits dest!: local_best_spec)
qed

lemma affinity_policy: "placement_policy (affinity_select ms select) (\<lambda>a. inv (fb a))"
proof
  fix a :: "'p affinity" and cs :: "placeable list" and r
  assume a: "inv (fb a)" "cs \<noteq> []"
  from select_in[OF a, of r] obtain c p where s: "select (fb a) cs r = Inr (c, p)" "c \<in> set cs" "inv p" by blast
  show "\<exists>c p'. affinity_select ms select a cs r = Inr (c, p') \<and> c \<in> set cs \<and> inv (fb p')"
    using s a(1) by (auto simp: affinity_select_def Let_def split: option.splits bind_splits dest: find_in)
qed

end

interpretation locality: placement_policy "locality_select th p2c_select" "\<lambda>_. True" for th
  by (rule p2c.locality_policy)

interpretation affine: placement_policy "affinity_select ms p2c_select" "\<lambda>_. True" for ms
  using p2c.affinity_policy by simp

section \<open>Runs of a policy\<close>

type_synonym placement = "placeable list \<times> inference_request"

fun policy_run :: "'p policy \<Rightarrow> 'p \<Rightarrow> placement list \<Rightarrow> (placeable list \<times> 'p) result" where
  "policy_run sel p [] = Inr ([], p)"
| "policy_run sel p ((cs, r) # es) =
     rbind (sel p cs r) (\<lambda>(c, p'). rbind (policy_run sel p' es) (\<lambda>(out, p''). Inr (c # out, p'')))"

context placement_policy
begin

lemma run_total:
  "inv p \<Longrightarrow> \<forall>(cs, r) \<in> set es. cs \<noteq> [] \<Longrightarrow>
    \<exists>out p'. policy_run select p es = Inr (out, p') \<and> inv p' \<and> list_all2 (\<lambda>c (cs, r). c \<in> set cs) out es"
proof (induction es arbitrary: p)
  case (Cons e es)
  obtain cs r where e: "e = (cs, r)" by (cases e)
  with select_in[OF Cons.prems(1), of cs r] Cons.prems(2) obtain c p1 where
    s: "select p cs r = Inr (c, p1)" "c \<in> set cs" "inv p1" by auto
  from Cons.IH[OF s(3)] Cons.prems(2) obtain out p' where
    "policy_run select p1 es = Inr (out, p')" "inv p'" "list_all2 (\<lambda>c (cs, r). c \<in> set cs) out es" by auto
  with s e show ?case by auto
qed simp

end

lemma rr_run:
  "cs \<noteq> [] \<Longrightarrow> policy_run rr_select n (replicate m (cs, r)) =
    Inr (map (\<lambda>i. cs ! ((n + i) mod length cs)) [0..<m], n + m)"
proof (induction m arbitrary: n)
  case (Suc m)
  have "map (\<lambda>i. cs ! ((n + i) mod length cs)) [0..<Suc m] =
      cs ! (n mod length cs) # map (\<lambda>i. cs ! ((Suc n + i) mod length cs)) [0..<m]"
    by (simp add: upt_conv_Cons map_Suc_upt[symmetric] comp_def del: upt_Suc)
  with Suc show ?case by (simp add: rr_select_def del: upt_Suc)
qed simp

lemma mset_rotate: "mset (rotate n xs) = mset xs"
proof (induction n)
  case (Suc n)
  have "mset (rotate1 ys) = mset ys" for ys :: "'a list" by (cases ys) auto
  with Suc show ?case by simp
qed simp

lemma rr_block: "cs \<noteq> [] \<Longrightarrow> map (\<lambda>i. cs ! ((n + i) mod length cs)) [0..<length cs] = rotate n cs"
  by (rule nth_equalityI) (auto simp: nth_rotate)

text \<open>
  The rotation is even.  Over any \<^verbatim>\<open>k\<close> full rounds on the same candidates, from any counter value,
  the round-robin policy chooses every instance exactly \<^verbatim>\<open>k\<close> times.
\<close>

theorem rr_even:
  assumes "cs \<noteq> []"
  shows "\<exists>out. policy_run rr_select n (replicate (k * length cs) (cs, r)) = Inr (out, n + k * length cs) \<and>
    mset out = repeat_mset k (mset cs)"
proof -
  have "mset (map (\<lambda>i. cs ! ((n + i) mod length cs)) [0..<k * length cs]) = repeat_mset k (mset cs)"
  proof (induction k)
    case (Suc k)
    let ?L = "length cs"
    have "[0..<Suc k * ?L] = [0..<k * ?L] @ map (\<lambda>i. i + k * ?L) [0..<?L]"
      using upt_add_eq_append[of 0 "k * ?L" ?L] by (simp add: map_add_upt add.commute)
    moreover have "map (\<lambda>i. cs ! ((n + (i + k * ?L)) mod ?L)) [0..<?L] = rotate n cs"
      unfolding rr_block[OF assms, symmetric] by (simp add: add.assoc[symmetric])
    ultimately show ?case using Suc by (simp add: comp_def mset_rotate)
  qed simp
  with rr_run[OF assms] show ?thesis by simp
qed

definition sample_placeable :: "nat \<Rightarrow> int \<Rightarrow> placeable" where
  "sample_placeable n d = \<lparr>iid = n, pdevice = \<lparr>kind = KCuda, index = int n\<rparr>, pdepth = d, pready = True\<rparr>"

definition sample_pool :: "placeable list" where
  "sample_pool = [sample_placeable 0 3, sample_placeable 1 1, sample_placeable 2 5]"

definition sample_request :: "string \<Rightarrow> inference_request" where
  "sample_request cam = (req (sample_item cam NORMAL 0 1))\<lparr>resident_device := Some \<lparr>kind = KCuda, index = 2\<rparr>\<rparr>"

lemma rr_even_witness:
  "\<exists>out. policy_run rr_select 5 (replicate (2 * length sample_pool) (sample_pool, sample_request ''a'')) =
      Inr (out, 5 + 2 * length sample_pool) \<and> mset out = repeat_mset 2 (mset sample_pool)"
  by (rule rr_even) (simp add: sample_pool_def)

text \<open>
  The early exit of join-shortest-queue is sound.  On non-negative depths the loop, which stops
  scanning at the first idle instance, chooses what a full scan for the first minimum chooses, and no
  candidate has a shorter queue.
\<close>

theorem jsq_is_minimum:
  assumes "\<forall>x \<in> set (c # cs). 0 \<le> pdepth x"
  shows "jsq_select u (c # cs) r = Inr (py_min pdepth c cs, u) \<and>
    (\<forall>x \<in> set (c # cs). pdepth (py_min pdepth c cs) \<le> pdepth x)"
proof -
  have idle: "pdepth b = 0 \<Longrightarrow> \<forall>x \<in> set cs. 0 \<le> pdepth x \<Longrightarrow> py_min pdepth b cs = b" for b cs
    by (induction cs) auto
  have "\<forall>x \<in> set cs. 0 \<le> pdepth x \<Longrightarrow> jsq_loop b (pdepth b) cs = py_min pdepth b cs" for b cs
    by (induction cs arbitrary: b) (auto simp: idle)
  then show ?thesis using assms py_min_le[of _ c cs pdepth] by (auto simp: jsq_select_def)
qed

lemma jsq_is_minimum_witness:
  "jsq_select () sample_pool (sample_request ''a'') = Inr (sample_placeable 1 1, ())"
  using jsq_is_minimum[of "sample_placeable 0 3" "[sample_placeable 1 1, sample_placeable 2 5]" "()" "sample_request ''a''"]
  by (simp add: sample_pool_def sample_placeable_def)

text \<open>
  Power of two choices.  With two or more candidates the policy compares two different ones and returns
  one with the shorter queue, whatever the generator draws; an instance with a strictly longer queue than
  every other is never chosen.
\<close>

theorem p2c_shorter_of_two:
  assumes "2 \<le> length cs"
  shows "\<exists>c g'. p2c_select g cs r = Inr (c, g') \<and>
    (\<exists>i < length cs. \<exists>j < length cs. i \<noteq> j \<and> c = cs ! i \<and> pdepth c \<le> pdepth (cs ! j))"
proof -
  obtain i j g' where p: "i < length cs" "j < length cs" "i \<noteq> j"
    "p2c_select g cs r = Inr (if pdepth (cs ! i) \<le> pdepth (cs ! j) then cs ! i else cs ! j, g')"
    using p2c_pair[OF assms] .
  then show ?thesis by (cases "pdepth (cs ! i) \<le> pdepth (cs ! j)") (auto 4 4)
qed

lemma p2c_shorter_of_two_witness:
  "\<exists>c g'. p2c_select \<lparr>draws = (\<lambda>n. 7 * int n + 2), drawn = 0\<rparr> sample_pool (sample_request ''a'') = Inr (c, g') \<and>
    (\<exists>i < length sample_pool. \<exists>j < length sample_pool. i \<noteq> j \<and> c = sample_pool ! i \<and> pdepth c \<le> pdepth (sample_pool ! j))"
  by (rule p2c_shorter_of_two) (simp add: sample_pool_def)

text \<open>
  Locality.  A request resident on a GPU that has a candidate whose shortest queue is within the threshold
  runs there, on the candidate with the shortest queue of that GPU, and the fallback is not consulted; when every candidate on
  that GPU is above the threshold, or there is none, the decision is the fallback's.
\<close>

theorem locality_spill:
  assumes "resident_device r = Some d" and "is_cuda d"
  shows "(if \<exists>c \<in> set cs. pdevice c = d \<and> pdepth c \<le> th
     then \<exists>c \<in> set cs. locality_select th fallback p cs r = Inr (c, p) \<and> pdevice c = d \<and>
            (\<forall>x \<in> set cs. pdevice x = d \<longrightarrow> pdepth c \<le> pdepth x)
     else locality_select th fallback p cs r = fallback p cs r)"
proof (cases "local_best d None cs")
  case None
  then have "\<forall>c \<in> set cs. pdevice c \<noteq> d" by (simp add: local_best_None)
  with None show ?thesis using assms by (auto simp: locality_select_def)
next
  case (Some b)
  from local_best_spec[OF this] have b: "b \<in> set cs" "pdevice b = d"
    "\<And>c. c \<in> set cs \<Longrightarrow> pdevice c = d \<Longrightarrow> pdepth b \<le> pdepth c" by auto
  show ?thesis
  proof (cases "pdepth b \<le> th")
    case True
    with Some assms b show ?thesis by (auto simp: locality_select_def)
  next
    case False
    then have "\<not> (\<exists>c \<in> set cs. pdevice c = d \<and> pdepth c \<le> th)" using b(3) by fastforce
    with Some assms False show ?thesis by (auto simp: locality_select_def)
  qed
qed

lemma locality_spill_witness:
  "\<exists>c \<in> set sample_pool. locality_select 6 p2c_select \<lparr>draws = int, drawn = 0\<rparr> sample_pool (sample_request ''a'') =
     Inr (c, \<lparr>draws = int, drawn = 0\<rparr>) \<and> pdevice c = \<lparr>kind = KCuda, index = 2\<rparr>"
  using locality_spill[of "sample_request ''a''" "\<lparr>kind = KCuda, index = 2\<rparr>" sample_pool 6 p2c_select "\<lparr>draws = int, drawn = 0\<rparr>"]
  by (auto simp: sample_request_def is_cuda_def sample_pool_def sample_placeable_def)

section \<open>Affinity\<close>

lemma affinity_cases:
  assumes "affinity_select ms fallback a cs r = Inr (c, a')" and "camera_id (ctx r) = k" and "k \<noteq> []"
  shows "map_of (assigned a) k = Some (iid c) \<and> a' = a \<or>
    (\<exists>p. fallback (fb a) cs r = Inr (c, p)) \<and>
     (\<forall>x \<in> set cs. pready x \<longrightarrow> map_of (assigned a) k \<noteq> Some (iid x)) \<and>
     assigned a' = AList.update k (iid c) (if int (length (assigned a)) \<ge> ms then [] else assigned a)"
proof (cases "Option.bind (map_of (assigned a) k) (\<lambda>pin. List.find (\<lambda>c. iid c = pin \<and> pready c) cs)")
  case None
  then have "\<forall>x \<in> set cs. pready x \<longrightarrow> map_of (assigned a) k \<noteq> Some (iid x)"
    by (auto simp: find_None_iff split: bind_splits)
  with None assms show ?thesis by (auto simp: affinity_select_def Let_def rbind_Inr_iff)
next
  case (Some d)
  with assms show ?thesis by (auto simp: affinity_select_def Let_def split: bind_splits dest!: find_in)
qed

lemma affinity_step:
  assumes "affinity_select ms fallback a cs r = Inr (c, a')" and "camera_id (ctx r) = k" and "k \<noteq> []"
  shows "map_of (assigned a') k = Some (iid c)"
    and "int (length (assigned a)) < ms \<Longrightarrow> j \<noteq> k \<Longrightarrow> map_of (assigned a') j = map_of (assigned a) j"
    and "fst ` set (assigned a') \<subseteq> insert k (fst ` set (assigned a))"
proof -
  note c = affinity_cases[OF assms]
  show "map_of (assigned a') k = Some (iid c)"
    and "int (length (assigned a)) < ms \<Longrightarrow> j \<noteq> k \<Longrightarrow> map_of (assigned a') j = map_of (assigned a) j"
    using c by (auto simp: dict_simps)
  have "fst ` set (AList.update k (iid c) t) = insert k (fst ` set t)" for t by (rule dict_keyset_update)
  with c show "fst ` set (assigned a') \<subseteq> insert k (fst ` set (assigned a))" by (elim disjE conjE) auto
qed

lemma affinity_step_anon:
  "affinity_select ms fallback a cs r = Inr (c, a') \<Longrightarrow> camera_id (ctx r) = [] \<Longrightarrow> assigned a' = assigned a"
  by (auto simp: affinity_select_def Let_def rbind_Inr_iff)

lemma affinity_wf:
  "affinity_select ms fallback a cs r = Inr (c, a') \<Longrightarrow> dict_wf (assigned a) \<Longrightarrow> dict_wf (assigned a')"
  by (auto simp: affinity_select_def Let_def rbind_Inr_iff split: option.splits if_splits)

lemma affinity_size:
  "affinity_select ms fallback a cs r = Inr (c, a') \<Longrightarrow> int (length (assigned a)) \<le> max 1 ms \<Longrightarrow>
    int (length (assigned a')) \<le> max 1 ms"
proof -
  assume s: "affinity_select ms fallback a cs r = Inr (c, a')" and l: "int (length (assigned a)) \<le> max 1 ms"
  have u: "length (AList.update k v d) \<le> Suc (length d)" for k :: string and v :: nat and d
    by (induction d) auto
  show ?thesis
  proof (cases "camera_id (ctx r) = []")
    case True
    with affinity_step_anon[OF s] l show ?thesis by simp
  next
    case False
    from affinity_cases[OF s refl False] l u[of "camera_id (ctx r)" "iid c" "assigned a"] show ?thesis
      by (auto split: if_splits)
  qed
qed

definition run_keys :: "placement list \<Rightarrow> string set" where
  "run_keys es = (\<lambda>(cs, r). camera_id (ctx r)) ` set es - {[]}"

text \<open>While the table has room for every camera of the run, a pin is only ever changed by its own camera.\<close>

lemma affinity_pinned_run:
  assumes "policy_run (affinity_select ms fallback) a es = Inr (out, a')" and "k \<noteq> []"
    and "map_of (assigned a) k = Some pin" and "dict_wf (assigned a)"
    and "int (card (fst ` set (assigned a) \<union> run_keys es)) < ms"
    and "\<forall>(cs, r) \<in> set es. camera_id (ctx r) = k \<longrightarrow> (\<exists>x \<in> set cs. iid x = pin \<and> pready x)"
  shows "list_all2 (\<lambda>(cs, r) c. camera_id (ctx r) = k \<longrightarrow> iid c = pin) es out"
  using assms
proof (induction es arbitrary: a out)
  case (Cons e es)
  obtain cs r where e: "e = (cs, r)" by (cases e)
  obtain c a1 out1 where s: "affinity_select ms fallback a cs r = Inr (c, a1)"
    "policy_run (affinity_select ms fallback) a1 es = Inr (out1, a')" "out = c # out1"
    using Cons.prems(1) e by (auto simp: rbind_Inr_iff)
  let ?k = "camera_id (ctx r)"
  have fin: "finite (fst ` set (assigned a) \<union> run_keys (e # es))" by (simp add: run_keys_def)
  have "int (length (assigned a)) = int (card (fst ` set (assigned a)))"
    using Cons.prems(4) by (metis distinct_card length_map list.set_map)
  also have "\<dots> \<le> int (card (fst ` set (assigned a) \<union> run_keys (e # es)))"
    using card_mono[OF fin, of "fst ` set (assigned a)"] by auto
  finally have room: "int (length (assigned a)) < ms" using Cons.prems(5) by simp
  have keep: "map_of (assigned a1) k = Some pin \<and> (?k = k \<longrightarrow> iid c = pin)"
  proof (cases "?k = []")
    case True
    with affinity_step_anon[OF s(1)] Cons.prems(2,3) show ?thesis by auto
  next
    case False
    show ?thesis
    proof (cases "?k = k")
      case True
      with affinity_cases[OF s(1) refl False] Cons.prems(3,6) e show ?thesis by auto
    next
      case False2: False
      from affinity_step(2)[OF s(1) refl False room, of k] False2 Cons.prems(3) show ?thesis by auto
    qed
  qed
  have keys: "fst ` set (assigned a1) \<union> run_keys es \<subseteq> fst ` set (assigned a) \<union> run_keys (e # es)"
    using affinity_step(3)[OF s(1) refl] affinity_step_anon[OF s(1)] e
    by (cases "?k = []") (auto simp: run_keys_def)
  have small: "int (card (fst ` set (assigned a1) \<union> run_keys es)) < ms"
    using card_mono[OF fin keys] Cons.prems(5) by linarith
  from Cons.IH[OF s(2) Cons.prems(2) _ affinity_wf[OF s(1) Cons.prems(4)] small] keep Cons.prems(6) e s(3)
  show ?case by auto
qed simp

text \<open>
  A sequence sticks to its instance.  As long as the table has room for the cameras in play, every later
  request of a camera goes to the instance its first request was placed on, provided that instance is
  still a ready candidate when the camera's requests arrive, whatever other cameras do in between.
\<close>

theorem affinity_sticky:
  assumes "policy_run (affinity_select ms fallback) a ((cs, r) # es) = Inr (c # out, a')"
    and "camera_id (ctx r) = k" and "k \<noteq> []" and "dict_wf (assigned a)"
    and "int (card (fst ` set (assigned a) \<union> run_keys ((cs, r) # es))) < ms"
    and "\<forall>(cs', r') \<in> set es. camera_id (ctx r') = k \<longrightarrow> (\<exists>x \<in> set cs'. iid x = iid c \<and> pready x)"
  shows "list_all2 (\<lambda>(cs', r') c'. camera_id (ctx r') = k \<longrightarrow> iid c' = iid c) es out"
proof -
  obtain a1 where s: "affinity_select ms fallback a cs r = Inr (c, a1)"
    "policy_run (affinity_select ms fallback) a1 es = Inr (out, a')"
    using assms(1) by (auto simp: rbind_Inr_iff)
  have fin: "finite (fst ` set (assigned a) \<union> run_keys ((cs, r) # es))" by (simp add: run_keys_def)
  have "fst ` set (assigned a1) \<union> run_keys es \<subseteq> fst ` set (assigned a) \<union> run_keys ((cs, r) # es)"
    using affinity_step(3)[OF s(1) assms(2,3)] assms(2,3) by (auto simp: run_keys_def)
  from card_mono[OF fin this] assms(5) have "int (card (fst ` set (assigned a1) \<union> run_keys es)) < ms" by linarith
  from affinity_pinned_run[OF s(2) assms(3) affinity_step(1)[OF s(1) assms(2,3)]
      affinity_wf[OF s(1) assms(4)] this assms(6)] show ?thesis .
qed

lemma affinity_sticky_witness:
  "\<exists>c out a'. policy_run (affinity_select 4 rr_select) \<lparr>assigned = [], fb = 0\<rparr>
      [(sample_pool, sample_request ''a''), (sample_pool, sample_request ''b''), (rev sample_pool, sample_request ''a'')] =
        Inr (c # out, a') \<and> iid (out ! 1) = iid c"
proof -
  let ?es = "[(sample_pool, sample_request ''b''), (rev sample_pool, sample_request ''a'')]"
  let ?r = "projr (policy_run (affinity_select 4 rr_select) \<lparr>assigned = [], fb = 0\<rparr> ((sample_pool, sample_request ''a'') # ?es))"
  have run: "policy_run (affinity_select 4 rr_select) \<lparr>assigned = [], fb = 0\<rparr> ((sample_pool, sample_request ''a'') # ?es) =
      Inr (hd (fst ?r) # tl (fst ?r), snd ?r)" by code_simp
  have card: "int (card (fst ` set (assigned \<lparr>assigned = [], fb = 0::nat\<rparr>) \<union> run_keys ((sample_pool, sample_request ''a'') # ?es))) < 4"
    by code_simp
  have "list_all2 (\<lambda>(cs', r') c'. camera_id (ctx r') = ''a'' \<longrightarrow> iid c' = iid (hd (fst ?r))) ?es (tl (fst ?r))"
    by (rule affinity_sticky[OF run _ _ _ card]) code_simp+
  then have "iid (tl (fst ?r) ! 1) = iid (hd (fst ?r))"
    by (auto simp: list_all2_Cons1 sample_request_def sample_item_def)
  with run show ?thesis by blast
qed

text \<open>
  The affinity table is bounded and the policy never raises on a non-empty candidate list: starting from an empty
  table, any run returns, every choice is one of its candidates, and the table holds at most
  \<^verbatim>\<open>max_sequences\<close> cameras (one, when the limit is below one).
\<close>

theorem affinity_bounded:
  assumes "assigned a = []" and "list_all (\<lambda>(cs, r). cs \<noteq> []) es"
  shows "\<exists>out a'. policy_run (affinity_select ms p2c_select) a es = Inr (out, a') \<and>
    list_all2 (\<lambda>c (cs, r). c \<in> set cs) out es \<and> int (length (assigned a')) \<le> max 1 ms"
proof -
  have "policy_run (affinity_select ms p2c_select) a es = Inr (out, a') \<Longrightarrow>
      int (length (assigned a)) \<le> max 1 ms \<Longrightarrow> int (length (assigned a')) \<le> max 1 ms" for a out a'
  proof (induction es arbitrary: a out)
    case (Cons e es)
    then show ?case by (cases e) (auto simp: rbind_Inr_iff dest: affinity_size)
  qed simp
  moreover have "\<forall>(cs, r) \<in> set es. cs \<noteq> []" using assms(2) by (simp add: list_all_iff)
  ultimately show ?thesis using affine.run_total[where p = a and es = es and ms = ms] assms(1) by fastforce
qed

lemma affinity_bounded_witness:
  "\<exists>out a'. policy_run (affinity_select 1 p2c_select) \<lparr>assigned = [], fb = \<lparr>draws = int, drawn = 0\<rparr>\<rparr>
      [(sample_pool, sample_request ''a''), (sample_pool, sample_request ''b'')] = Inr (out, a') \<and>
    int (length (assigned a')) \<le> 1"
  using affinity_bounded[of "\<lparr>assigned = [], fb = \<lparr>draws = int, drawn = 0\<rparr>\<rparr>"
      "[(sample_pool, sample_request ''a''), (sample_pool, sample_request ''b'')]" 1]
  by (auto simp: sample_pool_def)

end
