(* ===== verification/Dispatcher.thy ===== *)
theory Dispatcher
  imports Policies Fair_Queue
begin

text \<open>
  \<^verbatim>\<open>src/shipinfer/scheduling/dispatcher.py\<close>: pick an instance, enqueue, and spill when the first
  choice is full.  The dispatcher only knows instances through \<^verbatim>\<open>Placeable\<close> and the injected
  \<^verbatim>\<open>enqueue\<close> callable, so both are arguments here: \<^verbatim>\<open>view s i\<close> is what instance \<^verbatim>\<open>i\<close> shows
  in the state \<^verbatim>\<open>s\<close> of the pool, \<^verbatim>\<open>enq i w s\<close> the new state and what it raised.  The calls of
  \<^verbatim>\<open>on_spill\<close> are returned as pairs.  The locale \<^verbatim>\<open>instance_pool\<close> says what the dispatcher needs of
  \<^verbatim>\<open>ModelInstance.enqueue\<close>; a pool of fair queues in their default overflow mode interprets it.
\<close>

record dispatch_result =
  dr_instance :: nat
  attempts :: int
  spilled :: bool

definition mk_dispatcher :: "nat list \<Rightarrow> nat list result" where
  "mk_dispatcher insts = (if insts = [] then Inl ServerStateError else Inr insts)"

definition ready_instances :: "('s \<Rightarrow> nat \<Rightarrow> placeable) \<Rightarrow> nat list \<Rightarrow> 's \<Rightarrow> nat list" where
  "ready_instances view insts s = filter (\<lambda>i. pready (view s i)) insts"

definition disp_select ::
  "('s \<Rightarrow> nat \<Rightarrow> placeable) \<Rightarrow> 'p policy \<Rightarrow> nat list \<Rightarrow> inference_request \<Rightarrow> 'p \<Rightarrow> 's \<Rightarrow>
   (placeable \<times> 'p) result" where
  "disp_select view sel insts r p s =
     (let ready = ready_instances view insts s in
      if ready = [] then Inl ServerStateError else sel p (map (view s) ready) r)"

type_synonym 's enqueue = "nat \<Rightarrow> work_item \<Rightarrow> 's \<Rightarrow> 's \<times> err option"

text \<open>The spill loop over the remaining instances; only \<^verbatim>\<open>QueueFullError\<close> is caught.\<close>

fun spill_loop ::
  "'s enqueue \<Rightarrow> work_item \<Rightarrow> nat list \<Rightarrow> int \<Rightarrow> err \<Rightarrow> 's \<Rightarrow> 's \<times> dispatch_result result" where
  "spill_loop enq w [] n last_error s = (s, Inl last_error)"
| "spill_loop enq w (i # rest) n last_error s =
     (case enq i w s of
        (s', None) \<Rightarrow> (s', Inr \<lparr>dr_instance = i, attempts = n, spilled = True\<rparr>)
      | (s', Some e) \<Rightarrow>
          if is_QueueFullError e then spill_loop enq w rest (n + 1) e s' else (s', Inl e))"

definition dispatch ::
  "('s \<Rightarrow> nat \<Rightarrow> placeable) \<Rightarrow> 's enqueue \<Rightarrow> 'p policy \<Rightarrow> nat list \<Rightarrow> work_item \<Rightarrow> 'p \<Rightarrow> 's \<Rightarrow>
   'p \<times> 's \<times> (nat \<times> nat) list \<times> dispatch_result result" where
  "dispatch view enq sel insts w p s =
     (let ready = ready_instances view insts s in
      if ready = [] then (p, s, [], Inl ServerStateError)
      else case sel p (map (view s) ready) (req w) of
        Inl e \<Rightarrow> (p, s, [], Inl e)
      | Inr (c, p') \<Rightarrow>
          (let first = iid c in
           case enq first w s of
             (s1, None) \<Rightarrow> (p', s1, [], Inr \<lparr>dr_instance = first, attempts = 1, spilled = False\<rparr>)
           | (s1, Some e) \<Rightarrow>
               if is_QueueFullError e then
                 (let remaining = sort_key (\<lambda>i. pdepth (view s1 i)) (filter (\<lambda>i. i \<noteq> first) ready)
                  in case spill_loop enq w remaining 2 e s1 of
                       (s2, Inl e') \<Rightarrow> (p', s2, [], Inl e')
                     | (s2, Inr r) \<Rightarrow> (p', s2, [(first, dr_instance r)], Inr r))
               else (p', s1, [], Inl e)))"

section \<open>What the dispatcher needs of the instances\<close>

locale instance_pool =
  fixes view :: "'s \<Rightarrow> nat \<Rightarrow> placeable" and enq :: "'s enqueue"
    and queued :: "'s \<Rightarrow> nat \<Rightarrow> work_item multiset" and full :: "'s \<Rightarrow> nat \<Rightarrow> bool" and pinv :: "'s \<Rightarrow> bool"
  assumes view_id: "iid (view s i) = i"
    and enq_room: "pinv s \<Longrightarrow> \<not> full s i \<Longrightarrow> enq i w s = (s', x) \<Longrightarrow>
      x = None \<and> pinv s' \<and> queued s' = (queued s)(i := add_mset (stamp_queued w) (queued s i))"
    and enq_full: "pinv s \<Longrightarrow> full s i \<Longrightarrow> enq i w s = (s', x) \<Longrightarrow>
      (\<exists>n d c. x = Some (QueueFullError n d c)) \<and> pinv s' \<and> queued s' = queued s \<and> full s' = full s \<and> view s' = view s"
begin

lemma spill_loop_full:
  "pinv s \<Longrightarrow> \<forall>i \<in> set is. full s i \<Longrightarrow> is_QueueFullError e \<Longrightarrow>
    \<exists>s' e'. spill_loop enq w is n e s = (s', Inl e') \<and> is_QueueFullError e' \<and> pinv s' \<and> queued s' = queued s"
proof (induction "is" arbitrary: s n e)
  case (Cons i "is")
  obtain s1 x where s1: "enq i w s = (s1, x)" by (cases "enq i w s")
  with enq_full[OF Cons.prems(1) _ s1] Cons.prems(2) obtain a d c where
    "x = Some (QueueFullError a d c)" "pinv s1" "queued s1 = queued s" "full s1 = full s" by auto
  with Cons.IH[of s1 "QueueFullError a d c" "n + 1"] Cons.prems(2) s1 show ?case by simp
qed simp

lemma spill_loop_room:
  assumes "pinv s" and "\<forall>i \<in> set xs. full s i" and "\<not> full s j"
  shows "\<exists>s'. spill_loop enq w (xs @ j # ys) n e s =
      (s', Inr \<lparr>dr_instance = j, attempts = n + int (length xs), spilled = True\<rparr>) \<and>
    pinv s' \<and> queued s' = (queued s)(j := add_mset (stamp_queued w) (queued s j))"
  using assms
proof (induction xs arbitrary: s n e)
  case Nil
  obtain s1 x where s1: "enq j w s = (s1, x)" by (cases "enq j w s")
  with enq_room[OF Nil.prems(1,3) s1] show ?case by (auto simp: fun_eq_iff)
next
  case (Cons i xs)
  obtain s1 x where s1: "enq i w s = (s1, x)" by (cases "enq i w s")
  with enq_full[OF Cons.prems(1) _ s1] Cons.prems(2) obtain a d c where
    "x = Some (QueueFullError a d c)" "pinv s1" "queued s1 = queued s" "full s1 = full s" by auto
  with Cons.IH[of s1 "n + 1" "QueueFullError a d c"] Cons.prems(2,3) s1 show ?case by (simp add: algebra_simps)
qed

lemma first_room:
  assumes "\<exists>i \<in> set is. \<not> P i"
  obtains xs j ys where "is = xs @ j # ys" "\<forall>i \<in> set xs. P i" "\<not> P j"
  using split_list_first_prop[of "is" "\<lambda>i. \<not> P i"] assms by (metis (no_types, lifting))

lemma dispatch_spec:
  assumes "placement_policy sel ok" and "ok p" and "pinv s"
    and "ready = ready_instances view insts s" and "ready \<noteq> []"
  shows "\<exists>p' s' sp r. dispatch view enq sel insts w p s = (p', s', sp, r) \<and> ok p' \<and> pinv s' \<and>
    (if \<forall>i \<in> set ready. full s i
     then (\<exists>e. r = Inl e \<and> is_QueueFullError e) \<and> sp = [] \<and> queued s' = queued s
     else \<exists>d. r = Inr d \<and> dr_instance d \<in> set ready \<and> \<not> full s (dr_instance d) \<and>
       queued s' = (queued s)(dr_instance d := add_mset (stamp_queued w) (queued s (dr_instance d))) \<and>
       (spilled d \<longleftrightarrow> attempts d \<noteq> 1) \<and> attempts d \<le> int (length ready) \<and>
       (spilled d \<longrightarrow> (\<forall>i \<in> set ready. \<not> full s i \<longrightarrow> pdepth (view s (dr_instance d)) \<le> pdepth (view s i))))"
proof -
  from placement_policy.select_in[OF assms(1,2), of "map (view s) ready" "req w"] assms(5) obtain c p' where
    sel: "sel p (map (view s) ready) (req w) = Inr (c, p')" "c \<in> set (map (view s) ready)" "ok p'" by auto
  then have f: "iid c \<in> set ready" by (auto simp: view_id)
  obtain s1 x where s1: "enq (iid c) w s = (s1, x)" by (cases "enq (iid c) w s")
  show ?thesis
  proof (cases "full s (iid c)")
    case False
    with enq_room[OF assms(3) False s1] sel f s1 assms(4,5) show ?thesis
      by (auto simp: dispatch_def Let_def Suc_le_eq)
  next
    case True
    from enq_full[OF assms(3) True s1] obtain a d k where
      x: "x = Some (QueueFullError a d k)" "pinv s1" "queued s1 = queued s" "full s1 = full s" "view s1 = view s" by auto
    let ?rem = "sort_key (\<lambda>i. pdepth (view s1 i)) (filter (\<lambda>i. i \<noteq> iid c) ready)"
    let ?e = "QueueFullError a d k"
    have D: "dispatch view enq sel insts w p s =
      (case spill_loop enq w ?rem 2 ?e s1 of
                       (s2, Inl e') \<Rightarrow> (p', s2, [], Inl e')
                     | (s2, Inr r) \<Rightarrow> (p', s2, [(iid c, dr_instance r)], Inr r))"
      using sel(1) s1 x(1) assms(4,5) by (simp add: dispatch_def Let_def)
    show ?thesis
    proof (cases "\<forall>i \<in> set ready. full s i")
      case allfull: True
      with spill_loop_full[OF x(2), of ?rem ?e w 2] x(3,4) D sel(3) show ?thesis by auto
    next
      case False
      with True f have "\<exists>i \<in> set ?rem. \<not> full s i" by auto
      then obtain xs j ys where r: "?rem = xs @ j # ys" "\<forall>i \<in> set xs. full s i" "\<not> full s j"
        by (rule first_room)
      from spill_loop_room[OF x(2), of xs j w ys 2 ?e] r(2,3) x(3,4) obtain s2 where
        s2: "spill_loop enq w ?rem 2 ?e s1 = (s2, Inr \<lparr>dr_instance = j, attempts = 2 + int (length xs), spilled = True\<rparr>)"
          "pinv s2" "queued s2 = (queued s)(j := add_mset (stamp_queued w) (queued s j))" by (auto simp: r(1))
      have "j \<in> set ?rem" using r(1) by (metis in_set_conv_decomp)
      then have j: "j \<in> set ready" by simp
      have "Suc (length xs) \<le> length (filter (\<lambda>i. i \<noteq> iid c) ready)"
        using arg_cong[OF r(1), of length] by simp
      moreover have "length (filter (\<lambda>i. i \<noteq> iid c) ready) < length ready"
        by (rule length_filter_less[OF f]) simp
      ultimately have len: "2 + int (length xs) \<le> int (length ready)" by linarith
      have min: "pdepth (view s j) \<le> pdepth (view s i)" if "i \<in> set ready" "\<not> full s i" for i
      proof -
        have "sorted (map (\<lambda>i. pdepth (view s1 i)) (xs @ j # ys))" unfolding r(1)[symmetric] by (rule sorted_sort_key)
        moreover have "i \<in> set (xs @ j # ys)" using that True unfolding r(1)[symmetric] by auto
        ultimately show ?thesis using that(2) r(2) x(5) by (auto simp: sorted_append)
      qed
      have "dispatch view enq sel insts w p s = (p', s2, [(iid c, j)],
          Inr \<lparr>dr_instance = j, attempts = 2 + int (length xs), spilled = True\<rparr>)"
        unfolding D s2(1) by simp
      moreover have "\<not> (\<forall>i \<in> set ready. full s i)" using False .
      ultimately show ?thesis using s2(2,3) j r(3) len min sel(3) by (simp del: fun_upd_apply)
    qed
  qed
qed

end

section \<open>A pool of fair queues\<close>

text \<open>
  The instances of one model as the dispatcher sees them: \<^verbatim>\<open>ModelInstance.enqueue\<close> is
  \<^verbatim>\<open>put\<close> on the instance's own queue (the queue-depth gauge it sets is not state of the
  scheduler), \<^verbatim>\<open>depth\<close> is that queue's size and \<^verbatim>\<open>is_ready\<close> the instance's ready flag.
\<close>

record pool =
  queues :: "nat \<Rightarrow> fair_queue"
  ready_flag :: "nat \<Rightarrow> bool"
  idevice :: "nat \<Rightarrow> device"

definition pool_view :: "pool \<Rightarrow> nat \<Rightarrow> placeable" where
  "pool_view P i =
     \<lparr>iid = i, pdevice = idevice P i, pdepth = qsize (queues P i), pready = ready_flag P i\<rparr>"

definition instance_enqueue :: "rat \<Rightarrow> rat \<Rightarrow> pool enqueue" where
  "instance_enqueue t0 t1 i w P =
     (case fq_put (queues P i) w t0 t1 of
        (q, f, out) \<Rightarrow>
          (P\<lparr>queues := (queues P)(i := q)\<rparr>, case out of Raised e \<Rightarrow> Some e | _ \<Rightarrow> None))"

definition pool_full :: "pool \<Rightarrow> nat \<Rightarrow> bool" where
  "pool_full P i \<longleftrightarrow> capacity (queues P i) \<le> qsize (queues P i)"

definition pool_ok :: "pool \<Rightarrow> bool" where
  "pool_ok P \<longleftrightarrow> (\<forall>i. fq_wf (queues P i) \<and> overflow (queues P i) = REJECT \<and> \<not> closed (queues P i))"

definition pool_queued :: "pool \<Rightarrow> nat \<Rightarrow> work_item multiset" where
  "pool_queued P i = mset (fq_items (queues P i))"

interpretation fairpool: instance_pool pool_view "instance_enqueue t0 t1" pool_queued pool_full pool_ok
  for t0 t1
proof
  fix P P' i w x
  show "iid (pool_view P i) = i" by (simp add: pool_view_def)
  assume ok: "pool_ok P" and e: "instance_enqueue t0 t1 i w P = (P', x)"
  let ?q = "queues P i"
  have wf: "fq_wf ?q" "overflow ?q = REJECT" "\<not> closed ?q" using ok by (auto simp: pool_ok_def)
  {
    assume "\<not> pool_full P i"
    then have room: "qsize ?q < capacity ?q" by (simp add: pool_full_def)
    then have p: "fq_put ?q w t0 t1 = (fq_accept w ?q, [], Accepted)" using wf(3) by (simp add: fq_put_def)
    have "overflow (fq_accept w ?q) = REJECT" "\<not> closed (fq_accept w ?q)"
      using wf by (simp_all add: fq_accept_def Let_def)
    with fq_accept_wf[OF wf(1) room wf(3), of w] e ok p
    show "x = None \<and> pool_ok P' \<and>
        pool_queued P' = (pool_queued P)(i := add_mset (stamp_queued w) (pool_queued P i))"
      by (auto simp: instance_enqueue_def pool_ok_def pool_queued_def fun_eq_iff split: if_splits)
  next
    assume "pool_full P i"
    then have "capacity ?q \<le> qsize ?q" by (simp add: pool_full_def)
    then have p: "fq_put ?q w t0 t1 = (fq_reject w ?q, [], Raised (QueueFullError (qname ?q) (qsize ?q) (capacity ?q)))"
      using wf by (simp add: fq_put_def fq_make_room_def fq_put_after_def)
    have r: "overflow (fq_reject w ?q) = overflow ?q" "closed (fq_reject w ?q) = closed ?q"
      "qsize (fq_reject w ?q) = qsize ?q" "capacity (fq_reject w ?q) = capacity ?q"
      by (simp_all add: fq_reject_def)
    have P': "P' = P\<lparr>queues := (queues P)(i := fq_reject w ?q)\<rparr>"
      "x = Some (QueueFullError (qname ?q) (qsize ?q) (capacity ?q))"
      using e p by (auto simp: instance_enqueue_def)
    show "(\<exists>n d c. x = Some (QueueFullError n d c)) \<and> pool_ok P' \<and> pool_queued P' = pool_queued P \<and>
        pool_full P' = pool_full P \<and> pool_view P' = pool_view P"
      using ok r unfolding P'
      by (auto simp: pool_ok_def pool_queued_def pool_full_def pool_view_def fun_eq_iff)
  }
qed

text \<open>
  C6: the delivery guarantee.  For a pool of open fair queues in reject mode and any policy that meets the contract,
  \<^verbatim>\<open>dispatch\<close> raises \<^verbatim>\<open>QueueFullError\<close> exactly when every ready instance is full, and then no queue
  has changed its contents.  Otherwise the request is added to exactly one queue, that of a ready instance
  that had room; it is reported as spilled exactly when the first choice refused, within at most one
  attempt per ready instance, and a spilled request lands on the shortest queue among those with room.
\<close>

theorem dispatch_delivers:
  assumes "placement_policy sel ok" and "ok p" and "pool_ok P"
    and "ready = ready_instances pool_view insts P" and "ready \<noteq> []"
  shows "\<exists>p' P' sp r. dispatch pool_view (instance_enqueue t0 t1) sel insts w p P = (p', P', sp, r) \<and> pool_ok P' \<and>
    (if \<forall>i \<in> set ready. pool_full P i
     then (\<exists>e. r = Inl e \<and> is_QueueFullError e) \<and> sp = [] \<and> pool_queued P' = pool_queued P
     else \<exists>d. r = Inr d \<and> dr_instance d \<in> set ready \<and> \<not> pool_full P (dr_instance d) \<and>
       pool_queued P' =
         (pool_queued P)(dr_instance d := add_mset (stamp_queued w) (pool_queued P (dr_instance d))) \<and>
       (spilled d \<longleftrightarrow> attempts d \<noteq> 1) \<and> attempts d \<le> int (length ready) \<and>
       (spilled d \<longrightarrow> (\<forall>i \<in> set ready. \<not> pool_full P i \<longrightarrow>
          pdepth (pool_view P (dr_instance d)) \<le> pdepth (pool_view P i))))"
  using fairpool.dispatch_spec[OF assms, where w = w and ?t0.0 = t0 and ?t1.0 = t1] by blast

definition sample_instances :: pool where
  "sample_instances =
     \<lparr>queues = (\<lambda>i. if i = 0 then fst (fq_put (sample_queue 1 REJECT) (sample_item ''a'' NORMAL 0 1) 0 0)
                    else sample_queue 1 REJECT),
      ready_flag = (\<lambda>i. True), idevice = (\<lambda>i. \<lparr>kind = KCuda, index = int i\<rparr>)\<rparr>"

lemma sample_instances_ok: "pool_ok sample_instances"
proof -
  have wf: "fq_wf (sample_queue 1 REJECT)" by (rule fq_init_wf(1)[OF sample_queue_init]) simp
  have put: "fq_put (sample_queue 1 REJECT) w 0 0 = (fq_accept w (sample_queue 1 REJECT), [], Accepted)" for w
    by (simp add: fq_put_def sample_queue_def)
  have st: "qsize (sample_queue 1 REJECT) < capacity (sample_queue 1 REJECT)" "\<not> closed (sample_queue 1 REJECT)"
    "overflow (sample_queue 1 REJECT) = REJECT" by (simp_all add: sample_queue_def)
  then have "overflow (fq_accept w (sample_queue 1 REJECT)) = REJECT \<and> \<not> closed (fq_accept w (sample_queue 1 REJECT))" for w
    by (simp add: fq_accept_def Let_def)
  with wf st fq_accept_wf(1)[OF wf st(1,2)] show ?thesis
    by (simp add: pool_ok_def sample_instances_def put)
qed

lemma dispatch_delivers_witness:
  "\<exists>p' P' sp d. dispatch pool_view (instance_enqueue 0 0) rr_select [0, 1] (sample_item ''b'' NORMAL 0 2) 0 sample_instances =
      (p', P', sp, Inr d) \<and> dr_instance d \<in> {0, 1} \<and> \<not> pool_full sample_instances (dr_instance d) \<and> attempts d \<le> 2"
proof -
  have "ready_instances pool_view [0, 1] sample_instances = [0, 1]" by code_simp
  then have r: "[0, 1] = ready_instances pool_view [0, 1] sample_instances" by simp
  have "\<not> (\<forall>i \<in> set [0, 1::nat]. pool_full sample_instances i)" by code_simp
  with dispatch_delivers[OF rr.placement_policy_axioms TrueI sample_instances_ok r,
      of 0 0 "sample_item ''b'' NORMAL 0 2" 0]
  show ?thesis by auto
qed

end
