(* ===== verification/Batching.thy ===== *)
theory Batching
  imports Requests
begin

text \<open>
  \<^verbatim>\<open>src/shipinfer/scheduling/batching\<close>: packing requests into one batch and handing every
  request its own rows of the response.  The lemmas on \<^verbatim>\<open>stack_tensors\<close> and
  \<^verbatim>\<open>slice_batch\<close> say that slice-assigning into a preallocated array is concatenation and that slicing
  at the recorded spans undoes it.
\<close>

record assembled_batch =
  ab_items :: "work_item list"
  ab_inputs :: "(string, tensor) dict"
  ab_spans :: "(int \<times> int) list"

definition batch_rows :: "assembled_batch \<Rightarrow> int" where
  "batch_rows b = (if ab_spans b = [] then 0 else snd (last (ab_spans b)))"

fun make_spans :: "int \<Rightarrow> work_item list \<Rightarrow> (int \<times> int) list" where
  "make_spans offset [] = []"
| "make_spans offset (w # ws) = (offset, offset + item_rows w) # make_spans (offset + item_rows w) ws"

text \<open>The loop over \<^verbatim>\<open>_input_names\<close> that stacks one input after another.\<close>

fun stack_inputs :: "work_item list \<Rightarrow> string list \<Rightarrow> (string, tensor) dict \<Rightarrow> (string, tensor) dict result" where
  "stack_inputs items [] acc = Inr acc"
| "stack_inputs items (name # names) acc =
     (let contributions = List.map_filter (\<lambda>w. map_of (inputs (req w)) name) items in
      if contributions = [] then stack_inputs items names acc
      else if length contributions \<noteq> length items then Inl ValidationError
      else rbind (stack_tensors contributions)
        (\<lambda>t. stack_inputs items names (AList.update name t acc)))"

definition assemble :: "tensor_spec list \<Rightarrow> int \<Rightarrow> work_item list \<Rightarrow> assembled_batch result" where
  "assemble input_specs max_bs items =
     (if items = [] then Inl ValueError
      else let spans = make_spans 0 items; offset = snd (last spans) in
      if offset > max_bs then Inl InferenceError
      else rbind (if length items = 1 then Inr (inputs (req (hd items)))
                  else stack_inputs items (map sname input_specs) [])
        (\<lambda>ins. rbind (validate_against ins input_specs)
          (\<lambda>_. Inr \<lparr>ab_items = items, ab_inputs = ins, ab_spans = spans\<rparr>)))"

definition scatter ::
  "tensor_spec list \<Rightarrow> assembled_batch \<Rightarrow> (string, tensor) dict \<Rightarrow> (string, tensor) dict list result" where
  "scatter output_specs b outputs =
     rbind (validate_against outputs output_specs)
       (\<lambda>_. if \<exists>(n, t) \<in> set outputs. shape t \<noteq> [] \<and> hd (shape t) \<noteq> batch_rows b then Inl InferenceError
            else if length (ab_items b) = 1 then Inr [outputs]
            else rmapM (\<lambda>(start, stop).
                   rmapM (\<lambda>(n, t). rbind (slice_batch t start stop) (\<lambda>v. Inr (n, v))) outputs) (ab_spans b))"

definition zeros_like_outputs :: "tensor_spec list \<Rightarrow> int \<Rightarrow> (string, tensor) dict result" where
  "zeros_like_outputs output_specs batch_size =
     rbind (rmapM (\<lambda>s.
         let sh = batch_size # map (\<lambda>dim. max dim 1) (sshape s) in
         if batch_size < 0 then Inl ValueError
         else rbind (from_numpy \<lparr>nd_dtype = numpy_dtype (sdtype s), nd_shape = sh,
                                 nd_data = replicate (nat (prod_dims sh)) 0\<rparr>)
           (\<lambda>t. Inr (sname s, t))) output_specs)
       (\<lambda>kvs. Inr (fold (\<lambda>(k, t) d. AList.update k t d) kvs []))"

text \<open>\<^verbatim>\<open>choose_batch_size\<close>.\<close>

definition choose_batch_size :: "int \<Rightarrow> int list \<Rightarrow> int \<Rightarrow> int" where
  "choose_batch_size sz preferred maximum =
     (let capped = min sz maximum in
      case filter (\<lambda>p. p \<le> capped) preferred of
        [] \<Rightarrow> capped
      | p # ps \<Rightarrow> fold max ps p)"

section \<open>Row data\<close>

lemma prod_dims_prod_list: "prod_dims sh = prod_list sh"
proof -
  have "fold (\<lambda>dim count. count * dim) sh c = c * prod_list sh" for c :: int
    by (induction sh arbitrary: c) (simp_all add: mult.assoc)
  then show ?thesis by (simp add: prod_dims_def)
qed

lemma prod_dims_simps [simp]: "prod_dims [] = 1" "prod_dims (d # sh) = d * prod_dims sh"
  by (simp_all add: prod_dims_prod_list)

lemma prod_dims_nonneg: "\<forall>d \<in> set sh. 0 \<le> d \<Longrightarrow> 0 \<le> prod_dims sh"
  by (induction sh) auto

lemma dtype_from_numpy_inverse [simp]: "dtype_from_numpy (numpy_dtype d) = Inr d"
  by (cases d) (simp_all add: dtype_from_numpy_def all_data_types_def)

text \<open>A host tensor as every seam of the server builds it.\<close>

definition tensor_ok :: "tensor \<Rightarrow> bool" where
  "tensor_ok t = (case host t of
     None \<Rightarrow> False
   | Some a \<Rightarrow> nd_wf a \<and> nd_shape a = shape t \<and> shape t \<noteq> [] \<and> nd_dtype a = numpy_dtype (dtype t))"

definition tdata :: "tensor \<Rightarrow> int list" where
  "tdata t = (case host t of None \<Rightarrow> [] | Some a \<Rightarrow> nd_data a)"

lemma tensor_okE:
  assumes "tensor_ok t"
  obtains n rs a where "shape t = n # rs" "host t = Some a" "tdata t = nd_data a" "nd_shape a = n # rs"
    "0 \<le> n" "0 \<le> prod_dims rs" "int (length (tdata t)) = n * prod_dims rs" "nd_dtype a = numpy_dtype (dtype t)"
proof -
  from assms obtain a where a: "host t = Some a" "nd_wf a" "nd_shape a = shape t" "shape t \<noteq> []"
    "nd_dtype a = numpy_dtype (dtype t)"
    by (auto simp: tensor_ok_def split: option.splits)
  then obtain n rs where "shape t = n # rs" by (cases "shape t") auto
  with a that[of n rs a] show ?thesis by (auto simp: nd_wf_def tdata_def intro: prod_dims_nonneg)
qed

lemma stack_check_sum:
  "\<forall>t \<in> set ts. dtype t = d \<and> tl (shape t) = rs \<and> shape t \<noteq> [] \<Longrightarrow>
    stack_check d rs tot ts = Inr (tot + (\<Sum>t\<leftarrow>ts. hd (shape t)))"
  by (induction ts arbitrary: tot) (auto split: list.splits simp: neq_Nil_conv)

lemma stack_check_Inr:
  "stack_check d rs tot ts = Inr n \<Longrightarrow> \<forall>t \<in> set ts. dtype t = d \<and> tl (shape t) = rs \<and> shape t \<noteq> []"
  by (induction ts arbitrary: tot) (auto split: list.splits if_splits)

lemma stack_fill_concat:
  assumes "\<forall>t \<in> set ts. tensor_ok t \<and> prod_dims (tl (shape t)) = w" and "int (length pre) = off * w"
    and "0 \<le> off" and "0 \<le> w" and "int (length junk) = (\<Sum>t\<leftarrow>ts. hd (shape t)) * w"
  shows "stack_fill w (pre @ junk) off ts = Inr (pre @ concat (map tdata ts))"
  using assms
proof (induction ts arbitrary: pre off junk)
  case (Cons t ts)
  from Cons.prems(1) obtain n rs a where t: "shape t = n # rs" "host t = Some a" "tdata t = nd_data a"
    "0 \<le> n" "int (length (tdata t)) = n * prod_dims rs"
    using tensor_okE[of t] by (metis list.set_intros(1))
  have w: "prod_dims rs = w" using Cons.prems(1) t(1) by simp
  have len: "nat (off * w) = length pre" using Cons.prems(2) by (metis nat_int)
  have "nat ((off + n) * w) = length pre + length (tdata t)"
    using Cons.prems(2) t(5) w by (simp add: distrib_right nat_eq_iff)
  then have step: "stack_fill w (pre @ junk) off (t # ts) =
      stack_fill w ((pre @ tdata t) @ drop (length (tdata t)) junk) (off + n) ts"
    using t len by (simp add: tensor_numpy_def)
  have "int (length junk) = (n + (\<Sum>t\<leftarrow>ts. hd (shape t))) * w" using Cons.prems(5) t(1) by simp
  moreover have "0 \<le> (\<Sum>t\<leftarrow>ts. hd (shape t)) * w"
  proof -
    have "0 \<le> hd (shape x)" if "x \<in> set ts" for x
      using Cons.prems(1) that tensor_okE[of x] by (metis list.sel(1) list.set_intros(2))
    then show ?thesis using sum_list_nonneg_int[of ts "\<lambda>t. hd (shape t)"] Cons.prems(4) by simp
  qed
  ultimately have junk: "int (length (drop (length (tdata t)) junk)) = (\<Sum>t\<leftarrow>ts. hd (shape t)) * w"
    using t(5) w by (simp add: distrib_right of_nat_diff)
  have "stack_fill w ((pre @ tdata t) @ drop (length (tdata t)) junk) (off + n) ts =
      Inr ((pre @ tdata t) @ concat (map tdata ts))"
    by (rule Cons.IH) (use Cons.prems t w junk in \<open>auto simp: distrib_right\<close>)
  with step show ?case by simp
qed simp

lemma stack_tensors_concat:
  assumes "\<forall>t \<in> set ts. tensor_ok t" and "1 < length ts" and "stack_tensors ts = Inr r"
  shows "tdata r = concat (map tdata ts) \<and> shape r = (\<Sum>t\<leftarrow>ts. hd (shape t)) # tl (shape (hd ts)) \<and>
    dtype r = dtype (hd ts) \<and> tensor_ok r \<and> (\<forall>t \<in> set ts. tl (shape t) = tl (shape (hd ts)) \<and> dtype t = dtype (hd ts))"
proof -
  obtain h t2 rest where ts: "ts = h # t2 # rest" using assms(2) by (cases ts; cases "tl ts") auto
  let ?rs = "tl (shape h)" and ?tot = "\<Sum>t\<leftarrow>ts. hd (shape t)"
  let ?w = "prod_dims ?rs"
  obtain tot where tot: "stack_check (dtype h) ?rs 0 ts = Inr tot"
    using assms(3) ts by (auto simp: rbind_Inr_iff stack_tensors_def Let_def)
  note ok = stack_check_Inr[OF tot]
  have tot_eq: "tot = ?tot" using stack_check_sum[OF ok, of 0] tot by simp
  have h: "tensor_ok h" using assms(1) ts by simp
  have pos: "0 \<le> hd (shape x)" if "x \<in> set ts" for x
    using assms(1) that tensor_okE[of x] by (metis list.sel(1))
  have tp: "0 \<le> ?tot" using sum_list_nonneg_int[of ts "\<lambda>t. hd (shape t)"] pos by blast
  from h obtain n rs a where hs: "shape h = n # rs" "0 \<le> prod_dims rs" "nd_shape a = n # rs" "host h = Some a"
    by (rule tensor_okE)
  have wp: "0 \<le> ?w" using hs by simp
  have fill: "stack_fill ?w ([] @ replicate (nat (tot * ?w)) 0) 0 ts = Inr ([] @ concat (map tdata ts))"
    by (rule stack_fill_concat) (use assms(1) ok wp tp tot_eq in auto)
  let ?a = "\<lparr>nd_dtype = numpy_dtype (dtype h), nd_shape = tot # ?rs, nd_data = concat (map tdata ts)\<rparr>"
  have st: "stack_tensors ts = from_numpy ?a"
    using tot fill unfolding ts by (simp add: stack_tensors_def Let_def)
  have len: "int (length (concat (map tdata xs))) = (\<Sum>t\<leftarrow>xs. hd (shape t)) * ?w" if "set xs \<subseteq> set ts" for xs
    using that
  proof (induction xs)
    case (Cons x xs)
    have x: "x \<in> set ts" "tl (shape x) = ?rs" using Cons.prems ok by auto
    have "tensor_ok x" using assms(1) x(1) by blast
    then obtain m rs' where "shape x = m # rs'" "int (length (tdata x)) = m * prod_dims rs'"
      by (rule tensor_okE) blast
    with x Cons show ?case by (simp add: distrib_right)
  qed simp
  have wf: "nd_wf ?a"
    using len[of ts] tot_eq tp h hs by (auto simp: nd_wf_def tensor_ok_def)
  have r: "r = \<lparr>dtype = dtype h, shape = tot # ?rs, tdevice = device_cpu, tmemory = HOST, host = Some ?a, handle = None\<rparr>"
    using assms(3) unfolding st by (simp add: from_numpy_def mk_tensor_def)
  have hd: "hd ts = h" by (simp add: ts)
  have "tdata r = concat (map tdata ts)" by (simp add: r tdata_def)
  moreover have "shape r = ?tot # tl (shape (hd ts))" by (simp only: r tensor.select_convs hd tot_eq)
  moreover have "dtype r = dtype (hd ts)" by (simp only: r tensor.select_convs hd)
  moreover have "tensor_ok r" using wf by (simp add: r tensor_ok_def)
  ultimately show ?thesis using ok unfolding hd by blast
qed

lemma slice_concat:
  assumes "tensor_ok t" and "shape t = tot # rs" and "tdata t = pre @ mid @ post"
    and "int (length pre) = off * prod_dims rs" and "int (length mid) = rows * prod_dims rs"
    and "0 \<le> off" and "0 \<le> rows" and "off + rows \<le> tot"
  obtains v where "slice_batch t off (off + rows) = Inr v" "tdata v = mid" "shape v = rows # rs"
    "dtype v = dtype t" "tensor_ok v"
proof -
  from assms(1) obtain n rs' a where a: "shape t = n # rs'" "host t = Some a" "tdata t = nd_data a"
    "nd_shape a = n # rs'" "0 \<le> prod_dims rs'" "nd_dtype a = numpy_dtype (dtype t)" by (rule tensor_okE)
  have nr: "n = tot" "rs' = rs" using a(1) assms(2) by auto
  let ?v = "\<lparr>nd_dtype = nd_dtype a, nd_shape = rows # rs, nd_data = mid\<rparr>"
  have sl: "slice_bound tot off = off" "slice_bound tot (off + rows) = off + rows"
    using assms(6-8) by (auto simp: slice_bound_def)
  have "nat (rows * prod_dims rs) = length mid" "nat (off * prod_dims rs) = length pre"
    using assms(4,5) by (metis nat_int)+
  moreover have "nd_data a = pre @ mid @ post" using a(3) assms(3) by simp
  ultimately have "nd_rows a off (off + rows) = Inr ?v"
    using a(4) nr sl assms(7) by (simp add: nd_rows_def Let_def)
  then have "slice_batch t off (off + rows) = Inr \<lparr>dtype = dtype t, shape = rows # rs, tdevice = tdevice t,
      tmemory = tmemory t, host = Some ?v, handle = None\<rparr>"
    using a(2) by (simp add: slice_batch_def mk_tensor_def)
  moreover have "nd_wf ?v"
    using assms(1,5,7) a nr by (auto simp: nd_wf_def tensor_ok_def)
  ultimately show ?thesis using a(6)
      that[of "\<lparr>dtype = dtype t, shape = rows # rs, tdevice = tdevice t, tmemory = tmemory t, host = Some ?v, handle = None\<rparr>"]
    by (simp add: tdata_def tensor_ok_def)
qed

section \<open>Spans\<close>

abbreviation total_rows :: "work_item list \<Rightarrow> int" where
  "total_rows ws \<equiv> (\<Sum>w\<leftarrow>ws. item_rows w)"

lemma make_spans_length [simp]: "length (make_spans off ws) = length ws"
  by (induction ws arbitrary: off) auto

lemma make_spans_nth:
  "i < length ws \<Longrightarrow> make_spans off ws ! i =
    (off + total_rows (take i ws), off + total_rows (take i ws) + item_rows (ws ! i))"
proof (induction ws arbitrary: off i)
  case (Cons w ws)
  then show ?case by (cases i) auto
qed simp

lemma make_spans_last: "ws \<noteq> [] \<Longrightarrow> snd (last (make_spans off ws)) = off + total_rows ws"
proof -
  assume "ws \<noteq> []"
  then obtain us u where ws: "ws = us @ [u]" by (cases ws rule: rev_cases) auto
  have "last (make_spans off ws) = make_spans off ws ! (length ws - 1)"
    by (metis \<open>ws \<noteq> []\<close> last_conv_nth length_0_conv make_spans_length)
  then show ?thesis using make_spans_nth[of "length us" ws off] ws by simp
qed

section \<open>The round trip\<close>

definition items_ok :: "work_item list \<Rightarrow> bool" where
  "items_ok items \<longleftrightarrow>
     (\<forall>w \<in> set items. dict_wf (inputs (req w)) \<and>
        (\<forall>p \<in> set (inputs (req w)). tensor_ok (snd p) \<and> hd (shape (snd p)) = item_rows w))"

lemma item_rows_pos: "items_ok items \<Longrightarrow> w \<in> set items \<Longrightarrow> 1 \<le> item_rows w"
proof (cases "inputs (req w)")
  case Nil
  then show ?thesis by (simp add: item_rows_def req_batch_size_def)
next
  case (Cons p rest)
  assume "items_ok items" "w \<in> set items"
  then have "tensor_ok (snd p)" "hd (shape (snd p)) = item_rows w" using Cons by (auto simp: items_ok_def)
  then show ?thesis using Cons
    by (auto simp: item_rows_def req_batch_size_def tensor_batch_size_def elim!: tensor_okE split: if_splits prod.splits)
qed

lemma map_filter_full:
  "length (List.map_filter f xs) = length xs \<Longrightarrow>
    (\<forall>x \<in> set xs. f x \<noteq> None) \<and> List.map_filter f xs = map (\<lambda>x. the (f x)) xs"
proof (induction xs)
  case (Cons x xs)
  have "length (List.map_filter f xs) \<le> length xs" by (induction xs) (auto simp: List.map_filter_simps split: option.splits)
  with Cons show ?case by (auto simp: List.map_filter_simps split: option.splits)
qed simp

definition contribution :: "string \<Rightarrow> work_item \<Rightarrow> tensor" where
  "contribution n w = the (map_of (inputs (req w)) n)"

definition present :: "string \<Rightarrow> work_item list \<Rightarrow> bool" where
  "present n items \<longleftrightarrow> (\<forall>w \<in> set items. map_of (inputs (req w)) n \<noteq> None)"

definition stacked_from :: "work_item list \<Rightarrow> string \<times> tensor \<Rightarrow> bool" where
  "stacked_from items p \<longleftrightarrow>
     present (fst p) items \<and> stack_tensors (map (contribution (fst p)) items) = Inr (snd p)"

definition given :: "string \<Rightarrow> work_item list \<Rightarrow> bool" where
  "given n items \<longleftrightarrow> (\<exists>w \<in> set items. map_of (inputs (req w)) n \<noteq> None)"

lemma stack_inputs_spec:
  assumes "stack_inputs items names acc = Inr ins" and "dict_wf acc" and "\<forall>p \<in> set acc. stacked_from items p"
  shows "dict_wf ins \<and> (\<forall>p \<in> set ins. stacked_from items p) \<and>
    fst ` set acc \<union> {n \<in> set names. given n items} \<subseteq> fst ` set ins"
  using assms
proof (induction names arbitrary: acc)
  case (Cons name names)
  let ?c = "List.map_filter (\<lambda>w. map_of (inputs (req w)) name) items"
  show ?case
  proof (cases "?c = []")
    case True
    then have "\<not> given name items" unfolding given_def
      by (induction items) (auto simp: List.map_filter_simps split: option.splits)
    with True Cons.IH[of acc] Cons.prems show ?thesis by auto
  next
    case False
    with Cons.prems(1) have len: "length ?c = length items"
      by (auto simp: Let_def split: if_splits)
    from map_filter_full[OF this] have c: "present name items" "?c = map (contribution name) items"
      by (auto simp: present_def contribution_def)
    obtain t where t: "stack_tensors ?c = Inr t" "stack_inputs items names (AList.update name t acc) = Inr ins"
      using Cons.prems(1) False len by (auto simp: Let_def rbind_Inr_iff)
    have "\<forall>p \<in> set (AList.update name t acc). stacked_from items p"
    proof
      fix p assume "p \<in> set (AList.update name t acc)"
      then have "p = (name, t) \<or> p \<in> set acc"
        using dict_mem_update[OF Cons.prems(2), of "fst p" "snd p" name t] by (cases p) (auto split: if_splits)
      then show "stacked_from items p" using Cons.prems(3) c t(1) by (auto simp: stacked_from_def)
    qed
    from Cons.IH[OF t(2) _ this] Cons.prems(2) show ?thesis by (auto simp: dict_keyset_update)
  qed
qed simp

lemma present_contribution:
  assumes "items_ok items" and "present n items" and "w \<in> set items"
  shows "map_of (inputs (req w)) n = Some (contribution n w)" "tensor_ok (contribution n w)"
    "hd (shape (contribution n w)) = item_rows w"
proof -
  show m: "map_of (inputs (req w)) n = Some (contribution n w)"
    using assms(2,3) by (auto simp: present_def contribution_def)
  from map_of_SomeD[OF this] assms(1,3) show "tensor_ok (contribution n w)"
    "hd (shape (contribution n w)) = item_rows w" by (force simp: items_ok_def)+
qed

text \<open>Slicing one stacked input at the spans gives every request its own tensor back.\<close>

lemma stacked_slice:
  assumes "items_ok items" and "1 < length items" and "stacked_from items (n, t)" and "i < length items"
  obtains v where "slice_batch t (fst (make_spans 0 items ! i)) (snd (make_spans 0 items ! i)) = Inr v"
    "tdata v = tdata (contribution n (items ! i))" "shape v = shape (contribution n (items ! i))"
    "dtype v = dtype (contribution n (items ! i))" "hd (shape t) = total_rows items"
proof -
  let ?ts = "map (contribution n) items" and ?u = "contribution n (items ! i)"
  have pr: "present n items" and st: "stack_tensors ?ts = Inr t" using assms(3) by (auto simp: stacked_from_def)
  note c = present_contribution[OF assms(1) pr]
  have rows: "(\<Sum>x\<leftarrow>map (contribution n) xs. hd (shape x)) = total_rows xs" if "set xs \<subseteq> set items" for xs
    using that c(3) by (induction xs) auto
  have ok: "\<forall>x \<in> set ?ts. tensor_ok x" using c(2) by simp
  have "1 < length ?ts" using assms(2) by simp
  note sc = stack_tensors_concat[OF ok this st]
  have s1: "tdata t = concat (map tdata ?ts)" and s2: "shape t = total_rows items # tl (shape (hd ?ts))"
    and s3: "dtype t = dtype (hd ?ts)" and s4: "tensor_ok t"
    using sc rows[of items] by simp_all
  have s5: "tl (shape x) = tl (shape (hd ?ts))" "dtype x = dtype (hd ?ts)" if "x \<in> set ?ts" for x
    using sc that by blast+
  let ?rs = "tl (shape (hd ?ts))"
  have len: "int (length (concat (map tdata (map (contribution n) xs)))) = total_rows xs * prod_dims ?rs"
    if "set xs \<subseteq> set items" for xs
    using that
  proof (induction xs)
    case (Cons x xs)
    have x: "x \<in> set items" "tl (shape (contribution n x)) = ?rs"
      using Cons.prems s5(1)[of "contribution n x"] by auto
    obtain m rs' where "shape (contribution n x) = m # rs'"
      "int (length (tdata (contribution n x))) = m * prod_dims rs'"
      using c(2)[OF x(1)] by (rule tensor_okE) blast
    with x c(3)[OF x(1)] Cons show ?case by (simp add: distrib_right)
  qed simp
  have i: "items ! i \<in> set items" using assms(4) by simp
  have split: "items = take i items @ items ! i # drop (Suc i) items" by (rule id_take_nth_drop[OF assms(4)])
  have "map tdata ?ts = map tdata (map (contribution n) (take i items)) @ tdata ?u #
      map tdata (map (contribution n) (drop (Suc i) items))"
    by (subst split) simp
  then have data: "tdata t = concat (map tdata (map (contribution n) (take i items))) @ tdata ?u @
      concat (map tdata (map (contribution n) (drop (Suc i) items)))" using s1 by simp
  have tk: "set (take i items) \<subseteq> set items" by (rule set_take_subset)
  have nonneg: "0 \<le> total_rows xs" if "set xs \<subseteq> set items" for xs
    using that item_rows_pos[OF assms(1)] by (intro sum_list_nonneg_int) force
  have tot: "total_rows items = total_rows (take i items) + item_rows (items ! i) + total_rows (drop (Suc i) items)"
    by (subst split) simp
  obtain v where v: "slice_batch t (total_rows (take i items)) (total_rows (take i items) + item_rows (items ! i)) = Inr v"
    "tdata v = tdata ?u" "shape v = item_rows (items ! i) # ?rs" "dtype v = dtype t"
  proof (rule slice_concat[OF s4 s2 data len[OF tk]])
    show "int (length (tdata ?u)) = item_rows (items ! i) * prod_dims ?rs" using len[of "[items ! i]"] i by simp
    show "0 \<le> total_rows (take i items)" by (rule nonneg[OF tk])
    show "0 \<le> item_rows (items ! i)" using item_rows_pos[OF assms(1) i] by simp
    show "total_rows (take i items) + item_rows (items ! i) \<le> total_rows items"
      using tot nonneg[of "drop (Suc i) items"] set_drop_subset by fastforce
  qed blast
  have "shape ?u = item_rows (items ! i) # ?rs"
    using c(2,3)[OF i] s5(1)[of ?u] i by (auto elim!: tensor_okE)
  moreover have "dtype ?u = dtype t" using s3 s5(2)[of ?u] i by simp
  ultimately show ?thesis using v s2 make_spans_nth[OF assms(4), of 0] by (intro that[of v]) auto
qed


lemma rmapM_exists: "(\<And>x. x \<in> set xs \<Longrightarrow> \<exists>y. f x = Inr y) \<Longrightarrow> \<exists>ys. rmapM f xs = Inr ys"
  by (induction xs) (auto simp: rbind_def split: sum.splits, metis Inr_not_Inl sum.inject(2))

lemma assemble_Inr:
  assumes "assemble specs mb items = Inr b" and "1 < length items"
  shows "ab_items b = items" "ab_spans b = make_spans 0 items" "batch_rows b = total_rows items"
    "total_rows items \<le> mb" "validate_against (ab_inputs b) specs = Inr ()"
    "stack_inputs items (map sname specs) [] = Inr (ab_inputs b)"
proof -
  have ne: "items \<noteq> []" using assms(2) by auto
  have last: "snd (last (make_spans 0 items)) = total_rows items" using make_spans_last[OF ne, of 0] by simp
  have "make_spans 0 items \<noteq> []" using ne by (metis length_0_conv make_spans_length)
  then show "ab_items b = items" "ab_spans b = make_spans 0 items" "batch_rows b = total_rows items"
    "total_rows items \<le> mb" "validate_against (ab_inputs b) specs = Inr ()"
    "stack_inputs items (map sname specs) [] = Inr (ab_inputs b)"
    using assms ne last by (auto simp: assemble_def Let_def rbind_Inr_iff batch_rows_def split: if_splits)
qed



definition sample_tensor :: "int \<Rightarrow> int list \<Rightarrow> tensor" where
  "sample_tensor rows xs =
     \<lparr>dtype = FP32, shape = [rows, 2], tdevice = device_cpu, tmemory = HOST,
      host = Some \<lparr>nd_dtype = NpFloat32, nd_shape = [rows, 2], nd_data = xs\<rparr>, handle = None\<rparr>"

definition sample_spec :: "tensor_spec list" where
  "sample_spec = [\<lparr>sname = ''x'', sdtype = FP32, sshape = [2], optional = False\<rparr>]"

definition with_input :: "tensor \<Rightarrow> work_item \<Rightarrow> work_item" where
  "with_input t w = w\<lparr>req := (req w)\<lparr>inputs := [(''x'', t)]\<rparr>\<rparr>"

definition sample_batch_items :: "work_item list" where
  "sample_batch_items =
     [with_input (sample_tensor 2 [1, 2, 3, 4]) (sample_item ''a'' NORMAL 0 1),
      with_input (sample_tensor 1 [5, 6]) (sample_item ''b'' NORMAL 0 2)]"


text \<open>
  A request with zero rows poisons its batch.  \<^verbatim>\<open>batch_size or 1\<close> charges a request whose first input
  has no rows with one row, but stacking contributes none: the batch of a well-formed request and an empty one assembles, and
  even the backend that returns its input is then refused by \<^verbatim>\<open>scatter\<close> as not batch-major, so the
  well-formed request fails with the empty one.
\<close>

theorem zero_row_request_poisons_batch:
  "\<exists>b. assemble sample_spec 4
       [with_input (sample_tensor 1 [5, 6]) (sample_item ''a'' NORMAL 0 1),
        with_input (sample_tensor 0 []) (sample_item ''b'' NORMAL 0 2)] = Inr b \<and>
     batch_rows b = 2 \<and> map (\<lambda>(n, t). shape t) (ab_inputs b) = [[1, 2]] \<and>
     scatter sample_spec b (ab_inputs b) = Inl InferenceError"
proof -
  let ?r = "assemble sample_spec 4
       [with_input (sample_tensor 1 [5, 6]) (sample_item ''a'' NORMAL 0 1),
        with_input (sample_tensor 0 []) (sample_item ''b'' NORMAL 0 2)]"
  show ?thesis
  proof (intro exI[of _ "projr ?r"] conjI)
    show "?r = Inr (projr ?r)" by code_simp
    show "batch_rows (projr ?r) = 2" by code_simp
    show "map (\<lambda>(n, t). shape t) (ab_inputs (projr ?r)) = [[1, 2]]" by code_simp
    show "scatter sample_spec (projr ?r) (ab_inputs (projr ?r)) = Inl InferenceError" by code_simp
  qed
qed

text \<open>
  \<^verbatim>\<open>choose_batch_size\<close> returns the largest preferred size that fits the rows at hand and the maximum, and
  the capped size itself when none fits; it never asks for more rows than there are or than the model takes.
\<close>

theorem choose_batch_size_spec:
  "(let n = choose_batch_size sz preferred maximum; capped = min sz maximum in
    n \<le> sz \<and> n \<le> maximum \<and>
    (if list_ex (\<lambda>p. p \<le> capped) preferred
     then n \<in> set preferred \<and> n = Max {p \<in> set preferred. p \<le> capped}
     else n = capped))"
proof (cases "filter (\<lambda>p. p \<le> min sz maximum) preferred")
  case Nil
  then show ?thesis by (auto simp: choose_batch_size_def Let_def list_ex_iff filter_empty_conv)
next
  case (Cons p ps)
  let ?S = "{p \<in> set preferred. p \<le> min sz maximum}"
  have S: "?S = set (p # ps)" unfolding Cons[symmetric] by auto
  then have n: "choose_batch_size sz preferred maximum = Max ?S"
    unfolding choose_batch_size_def Let_def Cons S by (simp add: Max.set_eq_fold del: set_simps)
  have "Max ?S \<in> ?S" by (rule Max_in) (use S in auto)
  moreover have "list_ex (\<lambda>p. p \<le> min sz maximum) preferred" using S by (auto simp: list_ex_iff)
  ultimately show ?thesis by (auto simp: n Let_def)
qed

end
