(* ===== verification/Rate_Limits.thy ===== *)
theory Rate_Limits
  imports Prelude
begin

text \<open>
  \<^verbatim>\<open>src/shipinfer/scheduling/limits\<close>: the bound on a model's simultaneous executions.

  \<^verbatim>\<open>ConcurrencyRateLimiter.acquire\<close> is two critical sections: taking a slot of the semaphore, and
  \<^verbatim>\<open>_on_acquired\<close> under the counter lock.  Threads that are between the two are the list
  \<^verbatim>\<open>pending\<close> of the nanoseconds they waited, so a run of the limiter is any interleaving of the four
  atomic steps below.  \<^verbatim>\<open>threading.BoundedSemaphore\<close> is its counter and its initial value:
  acquiring needs a positive counter, releasing past the initial value raises \<^verbatim>\<open>ValueError\<close>.
\<close>

record limiter =
  limit :: int
  granted :: int
  waited :: int
  timed_out :: int
  wait_ns :: int
  peak_in_flight :: int

definition limiter_init :: "int \<Rightarrow> limiter result" where
  "limiter_init n =
     (if n < 0 then Inl ConfigurationError
      else Inr \<lparr>limit = n, granted = 0, waited = 0, timed_out = 0, wait_ns = 0, peak_in_flight = 0\<rparr>)"

definition mean_wait_us :: "'a limiter_scheme \<Rightarrow> rat" where
  "mean_wait_us l = (if waited l = 0 then 0 else of_int (wait_ns l) / of_int (waited l) / 1000)"

text \<open>\<^verbatim>\<open>UnlimitedRateLimiter\<close>.\<close>

definition unlimited_acquire :: "limiter \<Rightarrow> limiter \<times> bool" where
  "unlimited_acquire l = (l\<lparr>granted := granted l + 1\<rparr>, True)"

definition unlimited_release :: "limiter \<Rightarrow> limiter" where
  "unlimited_release l = l"

definition unlimited_in_flight :: "limiter \<Rightarrow> int" where
  "unlimited_in_flight l = 0"

text \<open>\<^verbatim>\<open>ConcurrencyRateLimiter\<close>.\<close>

record conc_limiter = limiter +
  slots :: int
  held :: int

definition conc_init :: "int \<Rightarrow> conc_limiter result" where
  "conc_init n =
     rbind (limiter_init n)
       (\<lambda>l. if limit l < 1 then Inl ConfigurationError
            else Inr (limiter.extend l (conc_limiter.fields (limit l) 0)))"

text \<open>The semaphore half of \<^verbatim>\<open>acquire\<close>, blocking or not: \<^verbatim>\<open>None\<close> while there is no slot.\<close>

definition take_slot :: "conc_limiter \<Rightarrow> conc_limiter option" where
  "take_slot l = (if slots l > 0 then Some (l\<lparr>slots := slots l - 1\<rparr>) else None)"

definition on_acquired :: "int \<Rightarrow> conc_limiter \<Rightarrow> conc_limiter" where
  "on_acquired waited_ns l =
     (let l1 = l\<lparr>granted := granted l + 1, held := held l + 1,
                 peak_in_flight := max (peak_in_flight l) (held l + 1)\<rparr>
      in if waited_ns \<noteq> 0 then l1\<lparr>waited := waited l + 1, wait_ns := wait_ns l + waited_ns\<rparr> else l1)"

definition acquire_timed_out :: "int \<Rightarrow> conc_limiter \<Rightarrow> conc_limiter" where
  "acquire_timed_out waited_ns l =
     l\<lparr>timed_out := timed_out l + 1, waited := waited l + 1, wait_ns := wait_ns l + waited_ns\<rparr>"

definition conc_release :: "conc_limiter \<Rightarrow> conc_limiter result" where
  "conc_release l =
     (if slots l \<ge> limit l then Inl ValueError
      else Inr (l\<lparr>slots := slots l + 1, held := held l - 1\<rparr>))"

section \<open>Interleavings\<close>

record lim_state =
  lim :: conc_limiter
  pending :: "int list"

datatype lim_op = TakeSlot int | OnAcquired nat | TimedOut int | Release

text \<open>
  One atomic step; \<^verbatim>\<open>None\<close> is a step that cannot be taken.  A thread releases only what it holds,
  as the context manager \<^verbatim>\<open>execution\<close> does, so a release needs a holder.
\<close>

fun lim_step :: "lim_state \<Rightarrow> lim_op \<Rightarrow> lim_state option" where
  "lim_step s (TakeSlot w) =
     map_option (\<lambda>l. s\<lparr>lim := l, pending := pending s @ [w]\<rparr>) (take_slot (lim s))"
| "lim_step s (OnAcquired i) =
     (if i < length (pending s)
      then Some (s\<lparr>lim := on_acquired (pending s ! i) (lim s),
                   pending := take i (pending s) @ drop (Suc i) (pending s)\<rparr>)
      else None)"
| "lim_step s (TimedOut w) = Some (s\<lparr>lim := acquire_timed_out w (lim s)\<rparr>)"
| "lim_step s Release =
     (if held (lim s) > 0
      then case conc_release (lim s) of Inl e \<Rightarrow> None | Inr l \<Rightarrow> Some (s\<lparr>lim := l\<rparr>)
      else None)"

fun lim_run :: "lim_state \<Rightarrow> lim_op list \<Rightarrow> lim_state option" where
  "lim_run s [] = Some s"
| "lim_run s (x # xs) = Option.bind (lim_step s x) (\<lambda>s'. lim_run s' xs)"

definition lim_inv :: "lim_state \<Rightarrow> bool" where
  "lim_inv s \<longleftrightarrow>
     slots (lim s) + int (length (pending s)) + held (lim s) = limit (lim s) \<and>
     0 \<le> slots (lim s) \<and> 0 \<le> held (lim s) \<and> held (lim s) \<le> peak_in_flight (lim s) \<and>
     peak_in_flight (lim s) \<le> limit (lim s)"

lemma lim_step_inv:
  "lim_inv s \<Longrightarrow> lim_step s x = Some s' \<Longrightarrow> lim_inv s' \<and> limit (lim s') = limit (lim s)"
  by (cases x)
    (auto simp: lim_inv_def take_slot_def on_acquired_def acquire_timed_out_def conc_release_def Let_def
      split: if_splits)

lemma lim_run_inv:
  "lim_inv s \<Longrightarrow> lim_run s xs = Some s' \<Longrightarrow> lim_inv s' \<and> limit (lim s') = limit (lim s)"
proof (induction xs arbitrary: s)
  case (Cons x xs)
  then obtain s1 where s1: "lim_step s x = Some s1" "lim_run s1 xs = Some s'"
    by (auto split: bind_splits)
  with lim_step_inv[OF Cons.prems(1) s1(1)] Cons.IH show ?case by auto
qed simp

lemma conc_init_inv:
  "conc_init n = Inr l \<Longrightarrow> lim_inv \<lparr>lim = l, pending = []\<rparr> \<and> limit l = n \<and> 1 \<le> n \<and> granted l = 0 \<and> held l = 0"
  by (auto simp: conc_init_def limiter_init_def limiter.defs conc_limiter.defs lim_inv_def split: if_splits)

text \<open>
  The bound holds and is reported truthfully.  For a limiter of bound \<^verbatim>\<open>n\<close>, under every interleaving of
  acquiring, waiting, timing out and releasing threads: the threads holding a slot and those that
  have just been given one are together at most \<^verbatim>\<open>n\<close>, \<^verbatim>\<open>in_flight\<close> is between 0 and \<^verbatim>\<open>n\<close>, and the peak it
  reports is never above \<^verbatim>\<open>n\<close> nor below the number now in flight; a holder's release never raises.
\<close>

theorem concurrency_bounded:
  assumes "conc_init n = Inr l" and "lim_run \<lparr>lim = l, pending = []\<rparr> xs = Some s"
  shows "held (lim s) + int (length (pending s)) \<le> n \<and> 0 \<le> held (lim s) \<and>
    held (lim s) \<le> peak_in_flight (lim s) \<and> peak_in_flight (lim s) \<le> n \<and>
    (held (lim s) > 0 \<longrightarrow> (\<exists>l'. conc_release (lim s) = Inr l'))"
proof -
  note i = conc_init_inv[OF assms(1)]
  have "lim_inv s \<and> limit (lim s) = n" using lim_run_inv[OF _ assms(2)] i by auto
  then show ?thesis by (auto simp: lim_inv_def conc_release_def)
qed

lemma concurrency_bounded_witness:
  "\<exists>l s. conc_init 2 = Inr l \<and>
     lim_run \<lparr>lim = l, pending = []\<rparr> [TakeSlot 0, TakeSlot 0, OnAcquired 1, Release, TakeSlot 7, OnAcquired 0] = Some s \<and>
     peak_in_flight (lim s) \<le> 2"
proof -
  have a: "conc_init 2 = Inr (projr (conc_init 2))" by code_simp
  let ?xs = "[TakeSlot 0, TakeSlot 0, OnAcquired 1, Release, TakeSlot 7, OnAcquired 0]"
  let ?s = "the (lim_run \<lparr>lim = projr (conc_init 2), pending = []\<rparr> ?xs)"
  have b: "lim_run \<lparr>lim = projr (conc_init 2), pending = []\<rparr> ?xs = Some ?s" by code_simp
  from concurrency_bounded[OF a b] a b show ?thesis by blast
qed

text \<open>
  An unpaired release is caught when no thread is between its slot and its bookkeeping: with nothing held,
  \<^verbatim>\<open>release\<close> raises \<^verbatim>\<open>ValueError\<close>, and, as the semaphore is released first, nothing has been counted.
\<close>

theorem unpaired_release_raises:
  assumes "conc_init n = Inr l" and "lim_run \<lparr>lim = l, pending = []\<rparr> xs = Some s"
    and "pending s = []" and "held (lim s) = 0"
  shows "conc_release (lim s) = Inl ValueError"
proof -
  have "lim_inv s" using lim_run_inv[OF _ assms(2)] conc_init_inv[OF assms(1)] by auto
  with assms(3,4) show ?thesis by (simp add: lim_inv_def conc_release_def)
qed

lemma unpaired_release_raises_witness:
  "conc_release (lim (the (lim_run \<lparr>lim = projr (conc_init 2), pending = []\<rparr> [TakeSlot 0, OnAcquired 0, Release]))) =
     Inl ValueError"
proof -
  have a: "conc_init 2 = Inr (projr (conc_init 2))" by code_simp
  let ?xs = "[TakeSlot 0, OnAcquired 0, Release]"
  let ?s = "the (lim_run \<lparr>lim = projr (conc_init 2), pending = []\<rparr> ?xs)"
  have b: "lim_run \<lparr>lim = projr (conc_init 2), pending = []\<rparr> ?xs = Some ?s" by code_simp
  show ?thesis by (rule unpaired_release_raises[OF a b]) code_simp+
qed

end
