(* ===== verification/Sharding.thy ===== *)
theory Sharding
  imports Prelude "HOL-Library.Product_Lexorder"
begin

text \<open>
  \<^verbatim>\<open>src/shipinfer/scheduling/sharding.py\<close>: which process owns which camera and which GPU.
  Offered frame rates are rationals.  Python orders the camera ids by code point, here the
  lexicographic order on \<^verbatim>\<open>string\<close>; \<^verbatim>\<open>sorted(load, key=...)\<close> is \<^verbatim>\<open>sort_key\<close>, which is
  stable, and \<^verbatim>\<open>min(range(n), key=...)\<close> is the first minimum.
\<close>

record shard =
  sh_index :: nat
  sh_cameras :: "string list"
  sh_gpus :: "int list"
  offered_fps :: rat

record shard_plan =
  shards :: "shard list"
  shards_per_gpu :: "(int, int) dict"

definition spread :: "rat list \<Rightarrow> rat" where
  "spread values =
     (case values of
        x # y # rest \<Rightarrow>
          (let high = fold max (y # rest) x; low = fold min (y # rest) x in
           if high \<le> 0 then 0 else (high - low) / high)
      | _ \<Rightarrow> 0)"

definition plan_cameras :: "shard_plan \<Rightarrow> string list" where
  "plan_cameras p = sort (concat (map sh_cameras (shards p)))"

definition imbalance :: "shard_plan \<Rightarrow> rat" where
  "imbalance p = spread (map offered_fps (shards p))"

definition device_load :: "shard_plan \<Rightarrow> (int, rat) dict" where
  "device_load p =
     fold (\<lambda>s d. fold (\<lambda>g d. AList.update g
              ((case map_of d g of None \<Rightarrow> 0 | Some x \<Rightarrow> x) + offered_fps s / of_nat (length (sh_gpus s))) d)
            (sh_gpus s) d)
       (shards p) (map (\<lambda>(g, n). (g, 0)) (shards_per_gpu p))"

definition device_imbalance :: "shard_plan \<Rightarrow> rat" where
  "device_imbalance p = spread (map snd (device_load p))"

definition sharing_for :: "shard_plan \<Rightarrow> shard \<Rightarrow> int list" where
  "sharing_for p s = map (\<lambda>g. case map_of (shards_per_gpu p) g of None \<Rightarrow> 1 | Some n \<Rightarrow> n) (sh_gpus s)"

fun index_of :: "'a \<Rightarrow> 'a list \<Rightarrow> nat" where
  "index_of x [] = 0"
| "index_of x (y # ys) = (if x = y then 0 else Suc (index_of x ys))"

definition owners :: "shard_plan \<Rightarrow> int \<Rightarrow> nat list" where
  "owners p g = map sh_index (filter (\<lambda>s. g \<in> set (sh_gpus s)) (shards p))"

definition rank_for :: "shard_plan \<Rightarrow> shard \<Rightarrow> nat list" where
  "rank_for p s =
     map (\<lambda>g. if sh_index s \<in> set (owners p g) then index_of (sh_index s) (owners p g) else 0) (sh_gpus s)"

section \<open>Planning\<close>

text \<open>The GPUs of one shard: round-robin when there are enough shards, else contiguous groups.\<close>

definition gpus_for :: "nat \<Rightarrow> int list \<Rightarrow> nat \<Rightarrow> int list" where
  "gpus_for n ordinals i =
     (if n \<ge> length ordinals then [ordinals ! (i mod length ordinals)]
      else let per = length ordinals div n; extra = length ordinals mod n;
               start = i * per + min i extra
           in take (per + (if i < extra then 1 else 0)) (drop start ordinals))"

definition gpu_sharing :: "int list list \<Rightarrow> (int, int) dict" where
  "gpu_sharing asg = counter_inc_all (concat asg) []"

definition shard_capacity :: "(int, int) dict \<Rightarrow> int list \<Rightarrow> rat" where
  "shard_capacity sharing gs = (\<Sum>g\<leftarrow>gs. 1 / of_int (counter_get sharing g))"

definition load_of :: "(string, rat) dict \<Rightarrow> string \<Rightarrow> rat" where
  "load_of load name = (case map_of load name of None \<Rightarrow> 0 | Some x \<Rightarrow> x)"

definition lightest :: "rat list \<Rightarrow> rat list \<Rightarrow> nat" where
  "lightest caps weights = py_min (\<lambda>i. (weights ! i / caps ! i, i)) 0 [1..<length caps]"

fun place_cameras ::
  "(string, rat) dict \<Rightarrow> rat list \<Rightarrow> string list \<Rightarrow> string list list \<times> rat list \<Rightarrow> string list list \<times> rat list" where
  "place_cameras load caps [] st = st"
| "place_cameras load caps (name # names) (buckets, weights) =
     (let t = lightest caps weights in
      place_cameras load caps names
        (buckets[t := buckets ! t @ [name]], weights[t := weights ! t + load_of load name]))"

definition placement_order :: "(string, rat) dict \<Rightarrow> string list" where
  "placement_order load = sort_key (\<lambda>n. (- load_of load n, n)) (map fst load)"

definition plan_shards :: "(string, rat) dict \<Rightarrow> int \<Rightarrow> int list \<Rightarrow> shard_plan result" where
  "plan_shards load n gpus =
     (if n < 1 then Inl ConfigurationError
      else if gpus = [] then Inl ConfigurationError
      else if load \<noteq> [] \<and> n > int (length load) then Inl ConfigurationError
      else
        (let k = nat n;
             asg = map (gpus_for k gpus) [0..<k];
             sharing = gpu_sharing asg;
             caps = map (shard_capacity sharing) asg
         in case place_cameras load caps (placement_order load) (replicate k [], replicate k 0) of
              (buckets, weights) \<Rightarrow>
                Inr \<lparr>shards = map (\<lambda>i. \<lparr>sh_index = i, sh_cameras = sort (buckets ! i), sh_gpus = asg ! i,
                                        offered_fps = weights ! i\<rparr>) [0..<k],
                     shards_per_gpu = sharing\<rparr>))"

text \<open>The other form of the argument: \<^verbatim>\<open>dict.fromkeys(cameras, 1.0)\<close>.\<close>

definition uniform_loads :: "string list \<Rightarrow> (string, rat) dict" where
  "uniform_loads names = fold (\<lambda>c d. AList.update c 1 d) names []"

section \<open>GPUs\<close>

lemma gpus_for_nonempty:
  assumes "i < n" and "ordinals \<noteq> []"
  shows "gpus_for n ordinals i \<noteq> []"
proof (cases "n \<ge> length ordinals")
  case False
  let ?L = "length ordinals" let ?per = "?L div n" let ?x = "?L mod n"
  have per: "1 \<le> ?per" using False assms(1) by (simp add: div_greater_zero_iff Suc_le_eq)
  have "i * ?per + min i ?x < ?L"
  proof -
    have "i * ?per + min i ?x \<le> (n - 1) * ?per + ?x"
      using assms(1) by (intro add_mono mult_right_mono) auto
    also have "\<dots> < n * ?per + ?x" using per assms(1) by (cases n) auto
    finally show ?thesis by simp
  qed
  then show ?thesis using False per by (auto simp: gpus_for_def Let_def)
qed (simp add: gpus_for_def)

lemma gpus_for_subset: "i < n \<Longrightarrow> ordinals \<noteq> [] \<Longrightarrow> set (gpus_for n ordinals i) \<subseteq> set ordinals"
  by (auto simp: gpus_for_def Let_def dest: in_set_takeD in_set_dropD)

text \<open>Contiguous groups: the shards' devices, in order, are the list of ordinals.\<close>

lemma gpus_for_groups:
  assumes "0 < n" and "n < length ordinals" and "m \<le> n"
  shows "concat (map (gpus_for n ordinals) [0..<m]) =
    take (m * (length ordinals div n) + min m (length ordinals mod n)) ordinals"
  using assms(3)
proof (induction m)
  case (Suc m)
  let ?per = "length ordinals div n" and ?x = "length ordinals mod n"
  have "take (m * ?per + min m ?x) ordinals @ take (?per + (if m < ?x then 1 else 0)) (drop (m * ?per + min m ?x) ordinals)
      = take (m * ?per + min m ?x + (?per + (if m < ?x then 1 else 0))) ordinals"
    by (rule take_add[symmetric])
  also have "m * ?per + min m ?x + (?per + (if m < ?x then 1 else 0)) = Suc m * ?per + min (Suc m) ?x" by auto
  finally show ?case using Suc assms(2) by (simp add: gpus_for_def Let_def)
qed simp

lemma gpus_for_cover:
  assumes "0 < n" and "g \<in> set ordinals"
  shows "\<exists>i < n. g \<in> set (gpus_for n ordinals i)"
proof (cases "n \<ge> length ordinals")
  case True
  from assms(2) obtain j where j: "j < length ordinals" "ordinals ! j = g" by (auto simp: in_set_conv_nth)
  then show ?thesis using True by (auto simp: gpus_for_def intro!: exI[of _ j])
next
  case False
  have "n * (length ordinals div n) + min n (length ordinals mod n) = length ordinals"
    using mod_less_divisor[OF assms(1), of "length ordinals"] by (simp add: min_absorb2 less_imp_le)
  then have "concat (map (gpus_for n ordinals) [0..<n]) = ordinals"
    using False gpus_for_groups[OF assms(1), of ordinals n] by simp
  then have "g \<in> set (concat (map (gpus_for n ordinals) [0..<n]))" using assms(2) by simp
  then show ?thesis by auto
qed

lemma sharing_count: "counter_get (gpu_sharing asg) g = int (count_list (concat asg) g)"
  by (simp add: gpu_sharing_def counter_get_inc_all)

lemma capacity_pos:
  assumes "gs \<in> set asg" and "gs \<noteq> []"
  shows "0 < shard_capacity (gpu_sharing asg) gs"
proof -
  have "0 < count_list (concat asg) g" if "g \<in> set gs" for g
    using that assms(1) by (auto simp: count_list_0_iff neq0_conv[symmetric] simp del: neq0_conv)
  then have "0 < (1 :: rat) / of_int (counter_get (gpu_sharing asg) g)" if "g \<in> set gs" for g
    using that by (simp add: sharing_count)
  then have "\<forall>x \<in> set (map (\<lambda>g. (1 :: rat) / of_int (counter_get (gpu_sharing asg) g)) gs). 0 < x" by auto
  moreover have "xs \<noteq> [] \<Longrightarrow> \<forall>x \<in> set xs. 0 < x \<Longrightarrow> 0 < sum_list xs" for xs :: "rat list"
    by (induction xs rule: list_nonempty_induct) (auto intro: add_pos_pos)
  ultimately show ?thesis using assms(2) by (simp add: shard_capacity_def)
qed

section \<open>Cameras\<close>

lemma lightest_less: "caps \<noteq> [] \<Longrightarrow> lightest caps w < length caps"
  using py_min_in[of "\<lambda>i. (w ! i / caps ! i, i)" 0 "[1..<length caps]"] by (auto simp: lightest_def)

lemma lightest_min:
  assumes "i < length caps"
  shows "w ! lightest caps w / caps ! lightest caps w \<le> w ! i / caps ! i"
proof -
  have "i \<in> insert 0 (set [1..<length caps])" using assms by auto
  from py_min_le[OF this, of "\<lambda>i. (w ! i / caps ! i, i)"] show ?thesis
    unfolding lightest_def by (auto simp: less_eq_prod_def split: if_splits)
qed

definition placed_ok :: "(string, rat) dict \<Rightarrow> nat \<Rightarrow> string list \<Rightarrow> string list list \<times> rat list \<Rightarrow> bool" where
  "placed_ok load k names st \<longleftrightarrow>
     length (fst st) = k \<and> length (snd st) = k \<and> mset (concat (fst st)) = mset names \<and>
     (\<forall>i < k. snd st ! i = (\<Sum>n\<leftarrow>fst st ! i. load_of load n))"

lemma mset_concat_update_append:
  "t < length bs \<Longrightarrow> mset (concat (bs[t := bs ! t @ [x]])) = add_mset x (mset (concat bs))"
  using mset_concat_list_update[of t bs id "bs ! t @ [x]"] by simp

lemma placed_step:
  assumes "placed_ok load k names (b, w)" and "t < k"
  shows "placed_ok load k (names @ [x]) (b[t := b ! t @ [x]], w[t := w ! t + load_of load x])"
  using assms by (auto simp: placed_ok_def mset_concat_update_append nth_list_update)

lemma place_cameras_ok:
  "placed_ok load (length caps) done st \<Longrightarrow> caps \<noteq> [] \<Longrightarrow>
    placed_ok load (length caps) (done @ names) (place_cameras load caps names st)"
proof (induction names arbitrary: st "done")
  case (Cons n names)
  obtain b w where st: "st = (b, w)" by (cases st)
  let ?t = "lightest caps w"
  have "placed_ok load (length caps) (done @ [n]) (b[?t := b ! ?t @ [n]], w[?t := w ! ?t + load_of load n])"
    by (rule placed_step) (use Cons.prems st lightest_less in auto)
  from Cons.IH[OF this Cons.prems(2)] show ?case by (simp add: st Let_def)
qed simp

lemma plan_shards_Inr:
  assumes "plan_shards load n gpus = Inr p" and "k = nat n"
    and "asg = map (gpus_for k gpus) [0..<k]" and "caps = map (shard_capacity (gpu_sharing asg)) asg"
    and "st = place_cameras load caps (placement_order load) (replicate k [], replicate k 0)"
  shows "1 \<le> n" "gpus \<noteq> []" "load = [] \<or> n \<le> int (length load)" "length (shards p) = k" "shards_per_gpu p = gpu_sharing asg"
    "i < k \<Longrightarrow> shards p ! i = \<lparr>sh_index = i, sh_cameras = sort (fst st ! i), sh_gpus = gpus_for k gpus i, offered_fps = snd st ! i\<rparr>"
    "placed_ok load k (placement_order load) st" "length caps = k" "i < k \<Longrightarrow> 0 < caps ! i"
proof -
  have n: "1 \<le> n" "gpus \<noteq> []" "load = [] \<or> n \<le> int (length load)"
    using assms(1) by (auto simp: plan_shards_def split: if_splits)
  then show "1 \<le> n" "gpus \<noteq> []" "load = [] \<or> n \<le> int (length load)" by auto
  show lc: "length caps = k" by (simp add: assms(3,4))
  have ne: "caps \<noteq> []" using n(1) lc assms(2) by auto
  have "placed_ok load (length caps) [] (replicate k [], replicate k 0)"
    by (auto simp: placed_ok_def lc)
  from place_cameras_ok[OF this, of "placement_order load"] show "placed_ok load k (placement_order load) st"
    using ne lc by (simp add: assms(5))
  have P: "p = \<lparr>shards = map (\<lambda>i. \<lparr>sh_index = i, sh_cameras = sort (fst st ! i), sh_gpus = asg ! i,
                                        offered_fps = snd st ! i\<rparr>) [0..<k], shards_per_gpu = gpu_sharing asg\<rparr>"
    using assms n by (auto simp: plan_shards_def Let_def split: prod.splits)
  then show "length (shards p) = k" "shards_per_gpu p = gpu_sharing asg" by simp_all
  show "shards p ! i = \<lparr>sh_index = i, sh_cameras = sort (fst st ! i), sh_gpus = gpus_for k gpus i, offered_fps = snd st ! i\<rparr>"
    if "i < k" using that by (simp add: P assms(3))
  show "0 < caps ! i" if "i < k"
    using that capacity_pos[of "gpus_for k gpus i" asg] gpus_for_nonempty[OF that n(2)] by (simp add: assms(3,4))
qed

lemma sum_list_nth: "(\<Sum>x\<leftarrow>xs. f x) = (\<Sum>i < length xs. f (xs ! i))"
  by (simp add: sum_list_sum_nth atLeast0LessThan)

lemma concat_upt_nth: "concat (map (\<lambda>i. xs ! i) [0..<length xs]) = concat xs"
  by (simp add: map_nth)

lemma plan_shard_gpus:
  assumes "plan_shards load n gpus = Inr p"
  shows "map sh_gpus (shards p) = map (gpus_for (nat n) gpus) [0..<nat n]" "gpus \<noteq> []" "0 < nat n"
proof -
  note P = plan_shards_Inr[OF assms refl refl refl refl]
  show "map sh_gpus (shards p) = map (gpus_for (nat n) gpus) [0..<nat n]"
    by (rule nth_equalityI) (use P(4,6) in auto)
  show "gpus \<noteq> []" "0 < nat n" using P(1,2) by auto
qed

lemma plan_gpus_subset: "plan_shards load n gpus = Inr p \<Longrightarrow> s \<in> set (shards p) \<Longrightarrow> set (sh_gpus s) \<subseteq> set gpus"
proof -
  assume p: "plan_shards load n gpus = Inr p" and s: "s \<in> set (shards p)"
  have "sh_gpus s \<in> set (map sh_gpus (shards p))" using s by simp
  then obtain i where "i < nat n" "sh_gpus s = gpus_for (nat n) gpus i" unfolding plan_shard_gpus(1)[OF p] by auto
  then show ?thesis using gpus_for_subset plan_shard_gpus(2)[OF p] by simp
qed

lemma plan_gpu_owned:
  assumes "plan_shards load n gpus = Inr p" and "g \<in> set gpus"
  shows "\<exists>s \<in> set (shards p). g \<in> set (sh_gpus s)"
proof -
  obtain i where "i < nat n" "g \<in> set (gpus_for (nat n) gpus i)"
    using gpus_for_cover[OF plan_shard_gpus(3)[OF assms(1)] assms(2)] by blast
  then have "gpus_for (nat n) gpus i \<in> set (map sh_gpus (shards p))" unfolding plan_shard_gpus(1)[OF assms(1)] by auto
  then show ?thesis using \<open>g \<in> set (gpus_for (nat n) gpus i)\<close> by auto
qed


lemma placed_empty_iff:
  assumes "placed_ok load k names (b, w)" and "\<forall>n \<in> set names. 0 < load_of load n" and "i < k"
  shows "0 \<le> w ! i" and "b ! i = [] \<longleftrightarrow> w ! i = 0"
proof -
  have w: "w ! i = (\<Sum>n\<leftarrow>b ! i. load_of load n)" and len: "length b = k" using assms(1,3) by (auto simp: placed_ok_def)
  have "set (b ! i) \<subseteq> set names"
  proof
    fix x assume "x \<in> set (b ! i)"
    then have "x \<in> set (concat b)" using assms(3) len by (auto intro!: bexI[of _ "b ! i"])
    then show "x \<in> set names" using assms(1) by (metis fst_conv mset_eq_setD placed_ok_def)
  qed
  then have pos: "\<forall>n \<in> set (b ! i). 0 < load_of load n" using assms(2) by blast
  have nn: "0 \<le> (\<Sum>n\<leftarrow>xs. load_of load n)" if "\<forall>n \<in> set xs. 0 < load_of load n" for xs
    using that by (induction xs) auto
  show "0 \<le> w ! i" using nn[OF pos] w by simp
  show "b ! i = [] \<longleftrightarrow> w ! i = 0"
  proof (cases "b ! i")
    case (Cons x xs)
    with pos nn[of xs] w show ?thesis by auto
  qed (use w in simp)
qed

definition empties :: "string list list \<Rightarrow> nat" where
  "empties b = length (filter (\<lambda>x. x = []) b)"

lemma empties_simps [simp]:
  "empties [] = 0" "empties (y # b) = (if y = [] then Suc (empties b) else empties b)"
  by (simp_all add: empties_def)

lemma empties_zero: "empties b = 0 \<longleftrightarrow> (\<forall>x \<in> set b. x \<noteq> [])"
  by (induction b) auto

lemma empties_update:
  "t < length b \<Longrightarrow> empties (b[t := b ! t @ [x]]) = (if b ! t = [] then empties b - 1 else empties b)"
proof (induction b arbitrary: t)
  case (Cons y b)
  have pos: "0 < empties b" if "i < length b" "b ! i = []" for i
    using that nth_mem[OF that(1)] empties_zero[of b] by (metis gr0I)
  show ?case
  proof (cases t)
    case (Suc i)
    then show ?thesis using Cons.IH[of i] Cons.prems pos[of i] by (cases "b ! i = []") auto
  qed simp
qed simp

lemma place_fills:
  assumes "placed_ok load (length caps) done st" and "caps \<noteq> []" and "\<And>i. i < length caps \<Longrightarrow> 0 < caps ! i"
    and "\<forall>n \<in> set (done @ names). 0 < load_of load n"
  shows "empties (fst (place_cameras load caps names st)) \<le> empties (fst st) - length names"
  using assms
proof (induction names arbitrary: st "done")
  case (Cons n names)
  obtain b w where st: "st = (b, w)" by (cases st)
  let ?t = "lightest caps w" and ?k = "length caps"
  let ?b = "b[?t := b ! ?t @ [n]]"
  have ok: "placed_ok load ?k done (b, w)" using Cons.prems(1) st by simp
  have len: "length b = ?k" using ok by (simp add: placed_ok_def)
  have t: "?t < ?k" by (rule lightest_less[OF Cons.prems(2)])
  have pos: "\<forall>n \<in> set done. 0 < load_of load n" using Cons.prems(4) by simp
  have fill: "b ! ?t = []" if "empties b \<noteq> 0"
  proof -
    from that len obtain i where i: "i < ?k" "b ! i = []" by (auto simp: empties_zero in_set_conv_nth)
    then have "w ! ?t / caps ! ?t \<le> 0"
      using lightest_min[OF i(1), of w] placed_empty_iff(2)[OF ok pos i(1)] by simp
    moreover have "0 \<le> w ! ?t" by (rule placed_empty_iff(1)[OF ok pos t])
    ultimately have "w ! ?t = 0" using Cons.prems(3)[OF t] by (simp add: divide_le_0_iff)
    then show ?thesis using placed_empty_iff(2)[OF ok pos t] by simp
  qed
  have "empties ?b \<le> empties b - 1" using empties_update[of ?t b n] t len fill by (cases "empties b = 0") auto
  moreover have "empties (fst (place_cameras load caps names (?b, w[?t := w ! ?t + load_of load n]))) \<le> empties ?b - length names"
    using Cons.IH[of "done @ [n]" "(?b, w[?t := w ! ?t + load_of load n])"] placed_step[OF ok t, of n] Cons.prems(2-4) by simp
  ultimately show ?case by (simp add: st Let_def)
qed simp

text \<open>
  No process without cameras.  When every camera has a positive offered rate, a plan that names cameras
  gives each shard at least one: the lightest shard is an empty one as long as there is an empty one.
\<close>

theorem plan_leaves_no_shard_empty:
  assumes "plan_shards load n gpus = Inr p" and "dict_wf load" and "load \<noteq> []"
    and "\<forall>c \<in> set (map fst load). 0 < load_of load c" and "s \<in> set (shards p)"
  shows "sh_cameras s \<noteq> []"
proof -
  define k where "k = nat n"
  define asg where "asg = map (gpus_for k gpus) [0..<k]"
  define caps where "caps = map (shard_capacity (gpu_sharing asg)) asg"
  define st where "st = place_cameras load caps (placement_order load) (replicate k [], replicate k 0)"
  note P = plan_shards_Inr[OF assms(1) k_def asg_def caps_def st_def]
  have ne: "caps \<noteq> []" using P(1,8) by (auto simp: k_def)
  have init: "placed_ok load (length caps) [] (replicate k [], replicate k 0)" by (simp add: placed_ok_def P(8))
  have "empties (fst st) \<le> empties (replicate k []) - length (placement_order load)"
    unfolding st_def using place_fills[OF init ne, of "placement_order load"] P(8,9) assms(4)
    by (simp add: placement_order_def)
  moreover have "empties (replicate k []) = k" by (simp add: empties_def)
  moreover have "k \<le> length (placement_order load)" using P(1,3) assms(3) by (auto simp: placement_order_def k_def)
  ultimately have "empties (fst st) = 0" by simp
  then have full: "\<forall>x \<in> set (fst st). x \<noteq> []" by (simp add: empties_zero)
  obtain i where i: "i < k" "shards p ! i = s" using assms(5) P(4) by (auto simp: in_set_conv_nth)
  have "fst st ! i \<in> set (fst st)" using i(1) P(7) by (simp add: placed_ok_def)
  with full have "fst st ! i \<noteq> []" by blast
  then have "sort (fst st ! i) \<noteq> []" by (metis mset_sort mset_zero_iff)
  then show ?thesis using P(6)[OF i(1)] i(2) by auto
qed

section \<open>Balance\<close>

text \<open>
  The invariant of the greedy placement: no shard is above its share of the load placed so far by more than
  one camera.
\<close>

definition balanced :: "rat list \<Rightarrow> rat \<Rightarrow> rat list \<Rightarrow> bool" where
  "balanced caps m w \<longleftrightarrow> (\<forall>i < length caps. w ! i \<le> caps ! i * sum_list w / sum_list caps + m)"

lemma sum_list_add_nth: "t < length w \<Longrightarrow> sum_list (w[t := w ! t + (l::rat)]) = sum_list w + l"
proof (induction w arbitrary: t)
  case (Cons x w)
  then show ?case by (cases t) auto
qed simp

lemma sum_list_map_concat: "(\<Sum>x\<leftarrow>concat xss. f x :: rat) = (\<Sum>xs\<leftarrow>xss. \<Sum>x\<leftarrow>xs. f x)"
  by (induction xss) auto

lemma lightest_share:
  assumes "length w = length caps" and "caps \<noteq> []" and "\<And>i. i < length caps \<Longrightarrow> 0 < caps ! i"
  shows "w ! lightest caps w / caps ! lightest caps w * sum_list caps \<le> sum_list w" and "0 < sum_list caps"
proof -
  let ?r = "w ! lightest caps w / caps ! lightest caps w"
  have "?r * caps ! i \<le> w ! i" if "i < length caps" for i
    using lightest_min[OF that, of w] assms(3)[OF that] by (simp add: pos_le_divide_eq)
  then have "(\<Sum>i < length caps. ?r * caps ! i) \<le> (\<Sum>i < length caps. w ! i)" by (intro sum_mono) auto
  then show "?r * sum_list caps \<le> sum_list w"
    using assms(1) sum_list_nth[of id caps] sum_list_nth[of id w] by (simp add: sum_distrib_left)
  have "(0::rat) < (\<Sum>i < length caps. caps ! i)"
    using assms(2,3) by (intro sum_pos) (auto simp: lessThan_empty_iff)
  then show "0 < sum_list caps" using sum_list_nth[of id caps] by simp
qed

lemma balanced_step:
  assumes "balanced caps m w" and "length w = length caps" and "caps \<noteq> []"
    and "\<And>i. i < length caps \<Longrightarrow> 0 < caps ! i" and "0 \<le> l" and "l \<le> m" and "t = lightest caps w"
  shows "balanced caps m (w[t := w ! t + l])"
  unfolding balanced_def
proof (intro allI impI)
  fix i assume i: "i < length caps"
  let ?C = "sum_list caps" and ?W = "sum_list w"
  note ls = lightest_share[OF assms(2-4), folded assms(7)]
  have t: "t < length caps" unfolding assms(7) by (rule lightest_less[OF assms(3)])
  have W: "sum_list (w[t := w ! t + l]) = ?W + l"
    using t assms(2) by (simp add: sum_list_add_nth)
  have ci: "0 < caps ! i" by (rule assms(4)[OF i])
  have le: "caps ! i * ?W / ?C \<le> caps ! i * (?W + l) / ?C"
    using ls(2) ci assms(5) by (intro divide_right_mono mult_left_mono) auto
  show "w[t := w ! t + l] ! i \<le> caps ! i * sum_list (w[t := w ! t + l]) / ?C + m"
  proof (cases "i = t")
    case False
    then show ?thesis using assms(1) i le W by (fastforce simp: balanced_def)
  next
    case True
    have "w ! t \<le> caps ! t * ?W / ?C"
      using ls ci True by (simp add: pos_divide_le_eq pos_le_divide_eq mult.commute)
    then show ?thesis using True le W assms(2,6) t by simp
  qed
qed

lemma place_balanced:
  assumes "balanced caps m (snd st)" and "length (snd st) = length caps" and "caps \<noteq> []"
    and "\<And>i. i < length caps \<Longrightarrow> 0 < caps ! i" and "\<forall>n \<in> set names. 0 \<le> load_of load n \<and> load_of load n \<le> m"
  shows "balanced caps m (snd (place_cameras load caps names st))"
  using assms
proof (induction names arbitrary: st)
  case (Cons n names)
  obtain b w where st: "st = (b, w)" by (cases st)
  have "balanced caps m (w[lightest caps w := w ! lightest caps w + load_of load n])"
    by (rule balanced_step) (use Cons.prems st in auto)
  then show ?case using Cons.IH Cons.prems st by (simp add: Let_def)
qed simp

text \<open>
  Load follows device capacity.  With non-negative rates of at most \<^verbatim>\<open>m\<close>, a shard that holds the fraction
  \<^verbatim>\<open>c\<close> of the devices (a GPU shared by two shards counts half for each) is offered at most that
  fraction of the whole fleet's rate plus \<^verbatim>\<open>m\<close>: at most one camera above its fair share.
\<close>

theorem plan_is_balanced:
  assumes "plan_shards load n gpus = Inr p" and "dict_wf load"
    and "\<forall>c \<in> set (map fst load). 0 \<le> load_of load c \<and> load_of load c \<le> m" and "0 \<le> m"
    and "s \<in> set (shards p)" and "cap = (\<lambda>s. shard_capacity (shards_per_gpu p) (sh_gpus s))"
  shows "offered_fps s \<le> cap s / (\<Sum>x\<leftarrow>shards p. cap x) * (\<Sum>c\<leftarrow>map fst load. load_of load c) + m"
proof -
  define k where "k = nat n"
  define asg where "asg = map (gpus_for k gpus) [0..<k]"
  define caps where "caps = map (shard_capacity (gpu_sharing asg)) asg"
  define st where "st = place_cameras load caps (placement_order load) (replicate k [], replicate k 0)"
  note P = plan_shards_Inr[OF assms(1) k_def asg_def caps_def st_def]
  have ne: "caps \<noteq> []" using P(1,8) by (auto simp: k_def)
  have "balanced caps m (snd st)" unfolding st_def
    by (rule place_balanced)
      (use P(8,9) ne assms(3,4) in \<open>auto simp: balanced_def placement_order_def sum_list_replicate\<close>)
  moreover obtain i where i: "i < k" "shards p ! i = s" using assms(5) P(4) by (auto simp: in_set_conv_nth)
  ultimately have le: "snd st ! i \<le> caps ! i * sum_list (snd st) / sum_list caps + m"
    using P(8) by (simp add: balanced_def)
  have capi: "cap (shards p ! j) = caps ! j" if "j < k" for j
    using that P(5,6) by (simp add: assms(6) caps_def asg_def)
  have C: "(\<Sum>x\<leftarrow>shards p. cap x) = sum_list caps"
    using capi P(4,8) by (intro arg_cong[of _ _ sum_list] nth_equalityI) auto
  have ok: "length (fst st) = k" "length (snd st) = k" "mset (concat (fst st)) = mset (map fst load)"
    "\<And>j. j < k \<Longrightarrow> snd st ! j = (\<Sum>c\<leftarrow>fst st ! j. load_of load c)"
    using P(7) by (auto simp: placed_ok_def placement_order_def)
  have "snd st = map (\<lambda>b. \<Sum>c\<leftarrow>b. load_of load c) (fst st)"
    by (rule nth_equalityI) (use ok in auto)
  then have "sum_list (snd st) = (\<Sum>c\<leftarrow>concat (fst st). load_of load c)"
    by (simp add: sum_list_map_concat)
  also have "\<dots> = (\<Sum>c\<leftarrow>map fst load. load_of load c)"
    using ok(3) by (metis mset_map sum_mset_sum_list)
  finally have W: "sum_list (snd st) = (\<Sum>c\<leftarrow>map fst load. load_of load c)" .
  have "offered_fps s = snd st ! i" using P(6)[OF i(1)] i(2) by auto
  then show ?thesis using le capi[OF i(1)] i C by (simp add: W ac_simps)
qed

section \<open>Determinism\<close>

lemma place_cameras_load_cong:
  "(\<And>c. load_of l c = load_of l' c) \<Longrightarrow> place_cameras l caps names st = place_cameras l' caps names st"
  by (induction names arbitrary: st) (auto simp: Let_def split_paired_all)

text \<open>
  The plan is a function of the fleet.  Two mappings with the same cameras and rates give the same plan,
  whatever order they list the cameras in, so a restart keeps every camera on its shard.
\<close>

theorem plan_is_deterministic:
  assumes "dict_wf load" and "dict_wf load'" and "set load = set load'"
  shows "plan_shards load n gpus = plan_shards load' n gpus"
proof -
  have lo: "load_of load c = load_of load' c" for c
    using assms by (metis load_of_def map_of_inject_set)
  have keys: "mset (map fst load) = mset (map fst load')"
    using assms set_eq_iff_mset_eq_distinct[of "map fst load" "map fst load'"] by simp
  have "inj_on (\<lambda>n. (- load_of load n, n)) (set (map fst load))" by (auto simp: inj_on_def)
  then have order: "placement_order load = placement_order load'"
    unfolding placement_order_def lo[symmetric]
    by (intro sort_key_inj_key_eq) (use keys in auto)
  have len: "length load = length load'" using keys by (metis length_map size_mset)
  have "load = [] \<longleftrightarrow> load' = []" using len by (metis length_0_conv)
  then show ?thesis unfolding plan_shards_def order len
    using place_cameras_load_cong[of load load', OF lo] by (simp add: Let_def)
qed

section \<open>Concrete plans\<close>

definition sample_fleet :: "(string, rat) dict" where
  "sample_fleet = [(''b'', 5), (''a'', 30), (''c'', 5), (''d'', 20)]"

definition sample_plan :: shard_plan where
  "sample_plan = projr (plan_shards sample_fleet 3 [2, 3])"

lemma sample_plan_eq: "plan_shards sample_fleet 3 [2, 3] = Inr sample_plan"
  by code_simp

lemma sample_fleet_wf: "dict_wf sample_fleet"
  by code_simp


lemma plan_leaves_no_shard_empty_witness: "sh_cameras (shards sample_plan ! 2) \<noteq> []"
  by (rule plan_leaves_no_shard_empty[OF sample_plan_eq sample_fleet_wf]) code_simp+

lemma plan_is_balanced_witness:
  "offered_fps (shards sample_plan ! 1) \<le>
     shard_capacity (shards_per_gpu sample_plan) (sh_gpus (shards sample_plan ! 1)) /
     (\<Sum>x\<leftarrow>shards sample_plan. shard_capacity (shards_per_gpu sample_plan) (sh_gpus x)) *
     (\<Sum>c\<leftarrow>map fst sample_fleet. load_of sample_fleet c) + 30"
  by (rule plan_is_balanced[OF sample_plan_eq sample_fleet_wf _ _ _ refl]) code_simp+

lemma plan_is_deterministic_witness: "plan_shards sample_fleet 3 [2, 3] = plan_shards (rev sample_fleet) 3 [2, 3]"
  by (rule plan_is_deterministic) code_simp+

text \<open>
  Idle cameras defeat the refusal of empty shards.  The plan of two cameras with rate 0 over two
  shards is accepted, and both cameras go to shard 0: the second process starts with none, which the error
  for more shards than cameras exists to prevent.
\<close>

theorem idle_cameras_leave_a_shard_empty:
  "\<exists>p. plan_shards [(''a'', 0), (''b'', 0)] 2 [2, 3] = Inr p \<and>
     map sh_cameras (shards p) = [[''a'', ''b''], []]"
proof (intro exI[of _ "projr (plan_shards [(''a'', 0), (''b'', 0)] 2 [2, 3])"] conjI)
  show "plan_shards [(''a'', 0), (''b'', 0)] 2 [2, 3] = Inr (projr (plan_shards [(''a'', 0), (''b'', 0)] 2 [2, 3]))"
    by code_simp
  show "map sh_cameras (shards (projr (plan_shards [(''a'', 0), (''b'', 0)] 2 [2, 3]))) = [[''a'', ''b''], []]"
    by code_simp
qed

end
