(* ===== verification/Model_Config.thy ===== *)
theory Model_Config
  imports Queue_Base
begin

text \<open>
  \<^verbatim>\<open>src/shipinfer/repository/model_config.py\<close> and \<^verbatim>\<open>resolved.py\<close>: a model's configuration, its
  validation, and how it expands into instances.  The pydantic validators are functions from the
  raw record to \<^verbatim>\<open>unit result\<close> that raise \<^verbatim>\<open>ValueError\<close>; field constraints
  (\<^verbatim>\<open>ge\<close>, \<^verbatim>\<open>min_length\<close>) are their first lines.  \<^verbatim>\<open>DeviceManager.shared_by\<close> and
  \<^verbatim>\<open>share_rank\<close> (\<^verbatim>\<open>runtime/device.py\<close>) turn the launcher's lists into the dicts \<^verbatim>\<open>expand\<close> reads.
\<close>

datatype instance_kind = KIND_GPU | KIND_CPU | KIND_AUTO

record io_config =
  io_name :: string
  io_dtype :: data_type
  dims :: "int list"
  io_optional :: bool

definition valid_dims :: "io_config \<Rightarrow> unit result" where
  "valid_dims io =
     (if dims io = [] then Inl ValueError
      else if \<exists>d \<in> set (dims io). d = 0 \<or> d < DYNAMIC then Inl ValueError
      else Inr ())"

definition to_spec :: "io_config \<Rightarrow> tensor_spec result" where
  "to_spec io = mk_tensor_spec (io_name io) (io_dtype io) (dims io) (io_optional io)"

record instance_placement =
  pl_device :: device
  pl_streams :: int

record instance_group =
  ig_kind :: instance_kind
  ig_count :: int
  ig_gpus :: "int list"
  ig_streams :: int

definition valid_group :: "instance_group \<Rightarrow> unit result" where
  "valid_group g =
     (if ig_count g < 1 \<or> ig_streams g < 1 then Inl ValueError
      else if ig_kind g = KIND_CPU \<and> ig_gpus g \<noteq> [] then Inl ValueError
      else Inr ())"

text \<open>This process's share of \<^verbatim>\<open>count\<close> on a device shared by \<^verbatim>\<open>sharing\<close> processes.\<close>

definition instance_share :: "int \<Rightarrow> int \<Rightarrow> int \<Rightarrow> int" where
  "instance_share cnt sharing rank =
     cnt div sharing + (if rank < cnt mod sharing then 1 else 0)"

definition get_default :: "(int, int) dict \<Rightarrow> int \<Rightarrow> int \<Rightarrow> int" where
  "get_default d k x = (case map_of d k of None \<Rightarrow> x | Some v \<Rightarrow> v)"

fun expand_targets ::
  "instance_group \<Rightarrow> (int, int) dict \<Rightarrow> (int, int) dict \<Rightarrow> int list \<Rightarrow> instance_placement list result" where
  "expand_targets g shared_by share_rank [] = Inr []"
| "expand_targets g shared_by share_rank (gpu # gpus) =
     (let sharing = get_default shared_by gpu 1; rank = get_default share_rank gpu 0 in
      if sharing = 0 then Inl ZeroDivisionError
      else let share = instance_share (ig_count g) sharing rank in
      if share < 1 then Inl ConfigurationError
      else rbind (device_cuda gpu) (\<lambda>dev.
        rbind (expand_targets g shared_by share_rank gpus) (\<lambda>rest.
          Inr (replicate (nat share) \<lparr>pl_device = dev, pl_streams = ig_streams g\<rparr> @ rest))))"

definition expand ::
  "instance_group \<Rightarrow> int list \<Rightarrow> (int, int) dict \<Rightarrow> (int, int) dict \<Rightarrow> instance_placement list result" where
  "expand g visible shared_by share_rank =
     (let kind = (if ig_kind g = KIND_AUTO then if visible \<noteq> [] then KIND_GPU else KIND_CPU else ig_kind g) in
      if kind = KIND_CPU
      then Inr (replicate (nat (ig_count g)) \<lparr>pl_device = device_cpu, pl_streams = 1\<rparr>)
      else let targets = (if ig_gpus g \<noteq> [] then ig_gpus g else visible) in
      if targets = [] then Inl ConfigurationError
      else if \<not> set targets \<subseteq> set visible then Inl ConfigurationError
      else expand_targets g shared_by share_rank targets)"

text \<open>\<^verbatim>\<open>DeviceManager.shared_by\<close> and \<^verbatim>\<open>share_rank\<close>: the same alignment of a list with the devices.\<close>

definition aligned :: "int list \<Rightarrow> int list \<Rightarrow> (int, int) dict result" where
  "aligned visible values =
     (if values = [] then Inr []
      else if length values \<noteq> length visible then Inl ConfigurationError
      else Inr (fold (\<lambda>(k, v) d. AList.update k v d) (zip visible values) []))"

record dynamic_batching =
  dyn_enabled :: bool
  max_queue_delay_us :: int
  preferred_batch_sizes :: "int list"

definition sorted_positive :: "int list \<Rightarrow> int list result" where
  "sorted_positive v = (if \<exists>x \<in> set v. x \<le> 0 then Inl ValueError else Inr (sort (remdups v)))"

record rate_limiter_config =
  rl_kind :: string
  max_concurrent_executions :: int

definition bound_matches_kind :: "rate_limiter_config \<Rightarrow> unit result" where
  "bound_matches_kind r =
     (let off = rl_kind r \<in> set [''off'', ''none'', ''unlimited''] in
      if max_concurrent_executions r < 0 then Inl ValueError
      else if off \<and> max_concurrent_executions r \<noteq> 0 then Inl ValueError
      else if \<not> off \<and> max_concurrent_executions r < 1 then Inl ValueError
      else Inr ())"

definition rl_enabled :: "rate_limiter_config \<Rightarrow> bool" where
  "rl_enabled r \<longleftrightarrow> max_concurrent_executions r > 0"

record warmup_input =
  zero_data :: bool
  random_data :: bool
  input_data_file :: "string option"
  wdims :: "int list option"

definition exactly_one_source :: "warmup_input \<Rightarrow> unit result" where
  "exactly_one_source w =
     (if length (filter id [zero_data w, random_data w, input_data_file w \<noteq> None]) \<noteq> 1 then Inl ValueError
      else case wdims w of
        None \<Rightarrow> Inr ()
      | Some d \<Rightarrow> if \<exists>x \<in> set d. x < 1 then Inl ValueError else Inr ())"

record warmup_sample =
  ws_name :: string
  ws_batch_size :: int
  ws_count :: int
  ws_inputs :: "(string, warmup_input) dict"

record version_policy =
  latest :: "int option"
  all_versions :: bool
  specific :: "int list"

definition exactly_one_policy :: "version_policy \<Rightarrow> unit result" where
  "exactly_one_policy v =
     (if length (filter id [latest v \<noteq> None, all_versions v, specific v \<noteq> []]) \<noteq> 1 then Inl ValueError
      else Inr ())"

text \<open>\<^verbatim>\<open>xs[-n:]\<close>: the last \<^verbatim>\<open>n\<close> elements, all of them for \<^verbatim>\<open>n = 0\<close>, and for a negative \<^verbatim>\<open>n\<close> a slice from the front.\<close>

definition slice_from :: "int \<Rightarrow> 'a list \<Rightarrow> 'a list" where
  "slice_from i xs = drop (nat (slice_bound (int (length xs)) i)) xs"

definition select_versions :: "version_policy \<Rightarrow> int list \<Rightarrow> int list result" where
  "select_versions v available =
     (let ordered = sort available in
      if all_versions v then Inr ordered
      else if specific v \<noteq> [] then
        if \<not> set (specific v) \<subseteq> set ordered then Inl ConfigurationError else Inr (sort (specific v))
      else let n = (case latest v of None \<Rightarrow> 1 | Some n \<Rightarrow> if n = 0 then 1 else n)
           in Inr (slice_from (- n) ordered))"

record ensemble_step =
  es_model :: string
  es_version :: "int option"
  input_map :: "(string, string) dict"
  output_map :: "(string, string) dict"
  condition :: "string option"

record model_config =
  mc_name :: string
  platform :: string
  mc_max_batch_size :: int
  mc_inputs :: "io_config list"
  mc_outputs :: "io_config list"
  instance_groups :: "instance_group list"
  batching :: dynamic_batching
  mc_version_policy :: version_policy
  ensemble :: "ensemble_step list option"
  model_warmup :: "warmup_sample list"
  rate_limiter_cfg :: rate_limiter_config

definition is_ensemble :: "model_config \<Rightarrow> bool" where
  "is_ensemble c \<longleftrightarrow> platform c = ''ensemble''"

definition effective_max_batch_size :: "model_config \<Rightarrow> int" where
  "effective_max_batch_size c = (if mc_max_batch_size c = 0 then 1 else mc_max_batch_size c)"

text \<open>The checks of \<^verbatim>\<open>_validate_warmup\<close> on one sample.\<close>

definition warmup_dims :: "model_config \<Rightarrow> string \<times> warmup_input \<Rightarrow> int list" where
  "warmup_dims c p =
     (case wdims (snd p) of
        Some (d # ds) \<Rightarrow> d # ds
      | _ \<Rightarrow> (case map_of (map (\<lambda>io. (io_name io, dims io)) (rev (mc_inputs c))) (fst p) of None \<Rightarrow> [] | Some d \<Rightarrow> d))"

definition validate_sample :: "model_config \<Rightarrow> string list \<Rightarrow> warmup_sample \<Rightarrow> unit result" where
  "validate_sample c seen s =
     (if ws_name s \<in> set seen then Inl ValueError
      else if ws_batch_size s > effective_max_batch_size c then Inl ValueError
      else if \<not> set (map fst (ws_inputs s)) \<subseteq> set (map io_name (mc_inputs c)) then Inl ValueError
      else if \<exists>io \<in> set (mc_inputs c). \<not> io_optional io \<and> io_name io \<notin> set (map fst (ws_inputs s)) then Inl ValueError
      else if \<exists>p \<in> set (ws_inputs s). DYNAMIC \<in> set (warmup_dims c p) then Inl ValueError
      else Inr ())"

fun validate_samples :: "model_config \<Rightarrow> string list \<Rightarrow> warmup_sample list \<Rightarrow> unit result" where
  "validate_samples c seen [] = Inr ()"
| "validate_samples c seen (s # ss) =
     rbind (validate_sample c seen s) (\<lambda>_. validate_samples c (seen @ [ws_name s]) ss)"

definition validate_warmup :: "model_config \<Rightarrow> unit result" where
  "validate_warmup c =
     (if model_warmup c = [] then Inr ()
      else if is_ensemble c then Inl ValueError
      else validate_samples c [] (model_warmup c))"

definition coherent :: "model_config \<Rightarrow> unit result" where
  "coherent c =
     (if mc_max_batch_size c < 0 then Inl ValueError
      else if is_ensemble c \<and> ensemble c = None then Inl ValueError
      else if \<not> is_ensemble c \<and> (mc_inputs c = [] \<or> mc_outputs c = []) then Inl ValueError
      else if mc_max_batch_size c = 0 \<and> dyn_enabled (batching c) then Inl ValueError
      else if \<exists>s \<in> set (preferred_batch_sizes (batching c)). s > mc_max_batch_size c then Inl ValueError
      else rbind (validate_warmup c) (\<lambda>_.
        let names = map io_name (mc_inputs c @ mc_outputs c) in
        if \<not> distinct names then Inl ValueError else Inr ()))"

definition placements ::
  "model_config \<Rightarrow> int list \<Rightarrow> (int, int) dict \<Rightarrow> (int, int) dict \<Rightarrow> instance_placement list result" where
  "placements c visible shared_by share_rank =
     rbind (rmapM (\<lambda>g. expand g visible shared_by share_rank) (instance_groups c))
       (\<lambda>xss. if concat xss = [] then Inl ConfigurationError else Inr (concat xss))"

text \<open>\<^verbatim>\<open>Model._build_window\<close> (\<^verbatim>\<open>engine/model.py\<close>).\<close>

definition build_window :: "model_config \<Rightarrow> batch_window result" where
  "build_window c =
     mk_batch_window (effective_max_batch_size c)
       (if dyn_enabled (batching c) then max_queue_delay_us (batching c) else 0)
       (preferred_batch_sizes (batching c))"

text \<open>\<^verbatim>\<open>_device_instances\<close> and \<^verbatim>\<open>_extent_of\<close> (\<^verbatim>\<open>repository/resolved.py\<close>).\<close>

definition device_instances :: "model_config \<Rightarrow> int option result" where
  "device_instances c =
     (if instance_groups c = [] then Inr (Some 1)
      else let device_groups = filter (\<lambda>g. ig_kind g \<noteq> KIND_CPU) (instance_groups c);
               targeted = remdups (map (\<lambda>g. sort (ig_gpus g)) (filter (\<lambda>g. ig_gpus g \<noteq> []) device_groups))
           in if targeted \<noteq> [] \<and> (length targeted > 1 \<or> (\<exists>g \<in> set device_groups. ig_gpus g = []))
              then Inl ConfigurationError
              else let n = (\<Sum>g\<leftarrow>device_groups. ig_count g) in Inr (if n = 0 then None else Some n))"

fun extent_of :: "io_config list \<Rightarrow> (int \<times> int) option" where
  "extent_of [] = None"
| "extent_of (io # ios) =
     (case dims io of
        [a, h, w] \<Rightarrow> if h > 0 \<and> w > 0 then Some (h, w) else extent_of ios
      | _ \<Rightarrow> extent_of ios)"

section \<open>Shares\<close>

lemma instance_share_sum:
  assumes "0 < k" and "0 \<le> c"
  shows "(\<Sum>r\<leftarrow>[0..<k]. instance_share c (int k) (int r)) = c"
proof -
  let ?m = "c mod int k"
  have "(\<Sum>r\<leftarrow>[0..<j]. instance_share c (int k) (int r)) = int j * (c div int k) + min (int j) ?m" for j
    using assms by (induction j) (auto simp: instance_share_def algebra_simps min_def)
  moreover have "min (int k) ?m = ?m" using assms by (simp add: min_absorb2 less_imp_le)
  ultimately show ?thesis by simp
qed

lemma instance_share_even: "\<bar>instance_share c k r - instance_share c k r'\<bar> \<le> 1"
  by (simp add: instance_share_def)

abbreviation on_device :: "device \<Rightarrow> instance_placement list \<Rightarrow> int" where
  "on_device d ps \<equiv> int (length (filter (\<lambda>p. pl_device p = d) ps))"

lemma expand_targets_count:
  assumes "expand_targets g sb sr targets = Inr ps" and "distinct targets"
  shows "on_device \<lparr>kind = KCuda, index = gpu\<rparr> ps =
    (if gpu \<in> set targets then instance_share (ig_count g) (get_default sb gpu 1) (get_default sr gpu 0) else 0)"
  using assms
proof (induction targets arbitrary: ps)
  case (Cons t ts)
  let ?share = "instance_share (ig_count g) (get_default sb t 1) (get_default sr t 0)"
  obtain dev rest where r: "device_cuda t = Inr dev" "expand_targets g sb sr ts = Inr rest" "1 \<le> ?share"
    "ps = replicate (nat ?share) \<lparr>pl_device = dev, pl_streams = ig_streams g\<rparr> @ rest"
    using Cons.prems(1) by (auto simp: Let_def rbind_Inr_iff split: if_splits)
  have dev: "dev = \<lparr>kind = KCuda, index = t\<rparr>" using r(1) by (auto simp: device_cuda_def split: if_splits)
  show ?case using Cons.IH[OF r(2)] Cons.prems(2) r(3,4) dev by (auto simp: filter_replicate)
qed simp

lemma expand_targets_Inr_iff:
  assumes "\<forall>g \<in> set targets. 0 \<le> g" and "\<forall>g \<in> set targets. get_default sb g 1 \<noteq> 0"
  shows "(\<exists>ps. expand_targets grp sb sr targets = Inr ps) \<longleftrightarrow>
    (\<forall>t \<in> set targets. 1 \<le> instance_share (ig_count grp) (get_default sb t 1) (get_default sr t 0))"
  using assms by (induction targets) (auto simp: Let_def rbind_Inr_iff device_cuda_def)

text \<open>
  Processes that share a GPU share its instances.  Let \<^verbatim>\<open>k\<close> processes, ranked 0 to \<^verbatim>\<open>k - 1\<close>, each
  expand the same GPU group of \<^verbatim>\<open>count \<ge> k\<close> instances on a device all of them see.  None is refused, the
  numbers of instances they place on it add up to \<^verbatim>\<open>count\<close> exactly, and no two differ by more than one.
\<close>

theorem shared_instances_add_up:
  assumes "ig_kind g = KIND_GPU" and "ig_gpus g = []" and "0 \<le> gpu" and "0 < k" and "int k \<le> ig_count g"
  shows "\<exists>ps. (\<forall>r < k. expand g [gpu] [(gpu, int k)] [(gpu, int r)] = Inr (ps r)) \<and>
    (\<Sum>r\<leftarrow>[0..<k]. on_device \<lparr>kind = KCuda, index = gpu\<rparr> (ps r)) = ig_count g \<and>
    (\<forall>r < k. \<forall>r' < k. \<bar>on_device \<lparr>kind = KCuda, index = gpu\<rparr> (ps r) - on_device \<lparr>kind = KCuda, index = gpu\<rparr> (ps r')\<bar> \<le> 1)"
proof -
  let ?sb = "[(gpu, int k)]" and ?d = "\<lparr>kind = KCuda, index = gpu\<rparr>"
  have share: "1 \<le> instance_share (ig_count g) (int k) (int r)" for r
    using assms(4,5) zdiv_mono1[of "int k" "ig_count g" "int k"] by (simp add: instance_share_def)
  have "\<exists>x. expand_targets g ?sb [(gpu, int r)] [gpu] = Inr x" for r
    using expand_targets_Inr_iff[of "[gpu]" ?sb g "[(gpu, int r)]"] share[of r] assms(3,4) by (simp add: get_default_def)
  then obtain ps where ps: "\<And>r. expand_targets g ?sb [(gpu, int r)] [gpu] = Inr (ps r)" by metis
  have cnt: "on_device ?d (ps r) = instance_share (ig_count g) (int k) (int r)" for r
    using expand_targets_count[OF ps[of r], of gpu] by (simp add: get_default_def)
  have e: "expand g [gpu] ?sb [(gpu, int r)] = Inr (ps r)" for r
    using ps[of r] assms(1,2) by (simp add: expand_def Let_def)
  show ?thesis
    by (intro exI[of _ ps]) (use e cnt instance_share_sum[OF assms(4), of "ig_count g"] assms(4,5) instance_share_even in auto)
qed

definition sample_group :: "int \<Rightarrow> instance_group" where
  "sample_group c = \<lparr>ig_kind = KIND_GPU, ig_count = c, ig_gpus = [], ig_streams = 1\<rparr>"

lemma shared_instances_add_up_witness:
  "\<exists>ps. (\<forall>r < 2. expand (sample_group 3) [0] [(0, int 2)] [(0, int r)] = Inr (ps r)) \<and>
     (\<Sum>r\<leftarrow>[0..<2]. on_device \<lparr>kind = KCuda, index = 0\<rparr> (ps r)) = 3"
  using shared_instances_add_up[of "sample_group 3" 0 2] by (auto simp: sample_group_def)

text \<open>
  A process whose share is zero is refused.  When fewer instances are configured than processes share
  the device, \<^verbatim>\<open>expand\<close> raises \<^verbatim>\<open>ConfigurationError\<close> in every process ranked at or above the
  count, instead of starting one that could never execute a request.
\<close>

theorem zero_share_refused:
  assumes "ig_kind g = KIND_GPU" and "ig_gpus g = []" and "0 \<le> ig_count g" and "ig_count g \<le> int r" and "r < k"
  shows "expand g [gpu] [(gpu, int k)] [(gpu, int r)] = Inl ConfigurationError"
proof -
  have "ig_count g < int k" using assms(4,5) by simp
  then have "instance_share (ig_count g) (int k) (int r) = 0"
    using assms(3,4) by (simp add: instance_share_def div_pos_pos_trivial)
  then show ?thesis using assms(1,2,5) by (simp add: expand_def Let_def get_default_def)
qed

lemma zero_share_refused_witness:
  "expand (sample_group 1) [0] [(0, int 2)] [(0, int 1)] = Inl ConfigurationError"
  by (rule zero_share_refused) (simp_all add: sample_group_def)

section \<open>Validated configurations\<close>

lemma coherent_Inr:
  assumes "coherent c = Inr ()"
  shows "0 \<le> mc_max_batch_size c" "\<forall>s \<in> set (preferred_batch_sizes (batching c)). s \<le> mc_max_batch_size c"
    "distinct (map io_name (mc_inputs c @ mc_outputs c))" "validate_warmup c = Inr ()"
  using assms by (auto simp: coherent_def Let_def rbind_Inr_iff split: if_splits)

text \<open>
  A configuration that validated gives a batching window.  If the preferred sizes passed their own
  validator and the model passed \<^verbatim>\<open>_coherent\<close>, building the \<^verbatim>\<open>BatchWindow\<close> the instances batch against never
  raises, and the window takes the model's maximum.
\<close>

theorem coherent_builds_window:
  assumes "coherent c = Inr ()" and "sorted_positive raw = Inr (preferred_batch_sizes (batching c))"
  shows "\<exists>w. build_window c = Inr w \<and> max_batch_size w = effective_max_batch_size c \<and> 1 \<le> max_batch_size w \<and>
    (\<forall>s \<in> set (preferred_sizes w). 1 \<le> s \<and> s \<le> max_batch_size w) \<and>
    (dyn_enabled (batching c) \<or> max_delay_us w = 0)"
proof -
  note c = coherent_Inr[OF assms(1)]
  have "preferred_batch_sizes (batching c) = sort (remdups raw)" "\<not> (\<exists>x \<in> set raw. x \<le> 0)"
    using assms(2) by (auto simp: sorted_positive_def split: if_splits)
  then have pos: "\<forall>s \<in> set (preferred_batch_sizes (batching c)). 1 \<le> s" by force
  have fits: "s \<le> effective_max_batch_size c" if "s \<in> set (preferred_batch_sizes (batching c))" for s
    using bspec[OF c(2) that] bspec[OF pos that] by (simp add: effective_max_batch_size_def)
  have eff: "1 \<le> effective_max_batch_size c" using c(1) by (simp add: effective_max_batch_size_def)
  have "\<not> (\<exists>s \<in> set (preferred_batch_sizes (batching c)). s < 1 \<or> s > effective_max_batch_size c)"
    using pos fits by (auto simp: not_less)
  then show ?thesis using eff pos fits by (simp add: build_window_def mk_batch_window_def)
qed

definition sample_config :: model_config where
  "sample_config =
     \<lparr>mc_name = ''yolo'', platform = ''tensorrt'', mc_max_batch_size = 8,
      mc_inputs = [\<lparr>io_name = ''x'', io_dtype = FP32, dims = [3, 640, 640], io_optional = False\<rparr>],
      mc_outputs = [\<lparr>io_name = ''y'', io_dtype = FP32, dims = [6], io_optional = False\<rparr>],
      instance_groups = [], batching = \<lparr>dyn_enabled = True, max_queue_delay_us = 5000, preferred_batch_sizes = [4, 8]\<rparr>,
      mc_version_policy = \<lparr>latest = Some 1, all_versions = False, specific = []\<rparr>, ensemble = None,
      model_warmup = [], rate_limiter_cfg = \<lparr>rl_kind = ''off'', max_concurrent_executions = 0\<rparr>\<rparr>"

lemma coherent_builds_window_witness:
  "\<exists>w. build_window sample_config = Inr w \<and> max_batch_size w = 8"
  using coherent_builds_window[of sample_config "[8, 4, 8]"]
  by (auto simp: sample_config_def coherent_def validate_warmup_def is_ensemble_def sorted_positive_def
      effective_max_batch_size_def)

text \<open>
  What a version policy loads.  Under a policy that validated, the selected versions are in order and all of them are
  available; \<^verbatim>\<open>latest: n\<close> with \<^verbatim>\<open>n \<ge> 1\<close> selects the \<^verbatim>\<open>n\<close> highest there are; a missing specific version raises.
\<close>

theorem select_versions_spec:
  assumes "exactly_one_policy v = Inr ()" and "select_versions v available = Inr vs"
  shows "sorted vs \<and> set vs \<subseteq> set available \<and> (all_versions v \<longrightarrow> mset vs = mset available) \<and>
    (\<forall>n. latest v = Some n \<and> 1 \<le> n \<longrightarrow> int (length vs) = min n (int (length available)) \<and>
       (\<forall>x \<in> set vs. \<forall>y \<in># mset available - mset vs. y \<le> x))"
proof -
  let ?o = "sort available"
  have ex: "latest v = Some n \<Longrightarrow> \<not> all_versions v \<and> specific v = []" for n
    using assms(1) by (auto simp: exactly_one_policy_def split: if_splits)
  have sub: "sorted (drop i ?o) \<and> set (drop i ?o) \<subseteq> set available" for i
    by (metis set_drop_subset set_sort sorted_wrt_drop sorted_sort)
  have "sorted vs \<and> set vs \<subseteq> set available \<and> (all_versions v \<longrightarrow> mset vs = mset available)"
    using assms(2) sub by (auto simp: select_versions_def Let_def slice_from_def split: if_splits option.splits)
  moreover have "int (length vs) = min n (int (length available)) \<and> (\<forall>x \<in> set vs. \<forall>y \<in># mset available - mset vs. y \<le> x)"
    if n: "latest v = Some n" "1 \<le> n" for n
  proof -
    let ?i = "nat (max 0 (int (length available) - n))"
    have vs: "vs = drop ?i ?o"
      using assms(2) n ex[OF n(1)] by (auto simp: select_versions_def Let_def slice_from_def slice_bound_def algebra_simps)
    have "mset available = mset (take ?i ?o) + mset (drop ?i ?o)"
      by (metis append_take_drop_id mset_append mset_sort)
    then have rest: "mset available - mset vs = mset (take ?i ?o)" by (simp add: vs)
    have "sorted (take ?i ?o @ drop ?i ?o)" by simp
    then have "\<forall>x \<in> set vs. \<forall>y \<in> set (take ?i ?o). y \<le> x" unfolding sorted_append vs by blast
    moreover have "int (length vs) = min n (int (length available))" using n(2) by (simp add: vs)
    ultimately show ?thesis by (simp add: rest)
  qed
  ultimately show ?thesis by blast
qed

lemma select_versions_spec_witness:
  "select_versions \<lparr>latest = Some 2, all_versions = False, specific = []\<rparr> [3, 1, 2] = Inr [2, 3] \<and>
   sorted [2, 3 :: int] \<and> set [2, 3] \<subseteq> set [3, 1, 2 :: int] \<and> int (length [2, 3 :: int]) = min 2 (int (length [3, 1, 2 :: int]))"
  using select_versions_spec[of "\<lparr>latest = Some 2, all_versions = False, specific = []\<rparr>" "[3, 1, 2]" "[2, 3]"]
  by (simp add: exactly_one_policy_def select_versions_def slice_from_def slice_bound_def)

text \<open>
  \<^verbatim>\<open>latest\<close> is not validated.  Zero loads one version, and a negative number, which validates, drops versions from
  the low end instead of selecting from the high end: \<^verbatim>\<open>latest: -1\<close> of three versions loads two.
\<close>

theorem latest_unvalidated:
  "exactly_one_policy \<lparr>latest = Some (- 1), all_versions = False, specific = []\<rparr> = Inr () \<and>
   select_versions \<lparr>latest = Some (- 1), all_versions = False, specific = []\<rparr> [1, 2, 3] = Inr [2, 3] \<and>
   select_versions \<lparr>latest = Some 0, all_versions = False, specific = []\<rparr> [1, 2, 3] = Inr [3]"
  by code_simp

text \<open>
  Two readings of an empty \<^verbatim>\<open>instance_groups\<close>.  \<^verbatim>\<open>_device_instances\<close> reports one instance per device
  \<^verbatim>\<open>as expand treats it\<close>; \<^verbatim>\<open>placements\<close> refuses the same validated configuration.
\<close>

theorem empty_groups_disagree:
  "coherent sample_config = Inr () \<and> device_instances sample_config = Inr (Some 1) \<and>
   placements sample_config [0] [] [] = Inl ConfigurationError"
  by code_simp

end
