(* ===== verification/Fleet_Instances.thy ===== *)
theory Fleet_Instances
  imports Sharding Model_Config
begin

text \<open>
  A property that spans \<^verbatim>\<open>scheduling/sharding.py\<close>, \<^verbatim>\<open>runtime/device.py\<close> and
  \<^verbatim>\<open>repository/model_config.py\<close>: a fleet of shards loads what one process would.
\<close>

text \<open>
  The launcher exports each child its physical GPUs, how many shards share each and the child's rank there
  (\<^verbatim>\<open>ShardPlan.sharing_for\<close>, \<^verbatim>\<open>rank_for\<close>); the child sees its devices renumbered from 0, aligns the two lists
  with them and expands its instance groups.
\<close>

definition child_expand :: "instance_group \<Rightarrow> shard_plan \<Rightarrow> shard \<Rightarrow> instance_placement list result" where
  "child_expand grp p s =
     (let visible = map int [0..<length (sh_gpus s)] in
      rbind (aligned visible (sharing_for p s)) (\<lambda>shared_by.
        rbind (aligned visible (map int (rank_for p s))) (\<lambda>share_rank.
          expand grp visible shared_by share_rank)))"

lemma update_all_get:
  "distinct (map fst kvs) \<Longrightarrow>
    map_of (fold (\<lambda>(k, v) d. AList.update k v d) kvs d) k = (case map_of kvs k of None \<Rightarrow> map_of d k | Some v \<Rightarrow> Some v)"
proof (induction kvs arbitrary: d)
  case (Cons p kvs)
  obtain a b where p: "p = (a, b)" by (cases p)
  with Cons.prems have "map_of kvs a = None" by (auto simp: map_of_eq_None_iff)
  with Cons p show ?case by (auto simp: dict_simps split: option.splits)
qed simp

lemma aligned_get:
  assumes "length values = n" and "0 < n"
  obtains d where "aligned (map int [0..<n]) values = Inr d"
    "\<And>j x. j < n \<Longrightarrow> get_default d (int j) x = values ! j"
proof -
  let ?kvs = "zip (map int [0..<n]) values"
  let ?d = "fold (\<lambda>(k, v) d. AList.update k v d) ?kvs []"
  have dist: "distinct (map fst ?kvs)" using assms(1) by (simp add: distinct_map)
  have "map_of ?kvs (int j) = Some (values ! j)" if "j < n" for j
    using dist that assms(1) by (simp add: in_set_zip) (intro exI[of _ j], simp)
  then have "get_default ?d (int j) x = values ! j" if "j < n" for j x
    using that by (simp add: get_default_def update_all_get[OF dist])
  moreover have "aligned (map int [0..<n]) values = Inr ?d"
    using assms by (auto simp: aligned_def)
  ultimately show ?thesis using that by blast
qed

lemma index_of_nth: "distinct xs \<Longrightarrow> i < length xs \<Longrightarrow> index_of (xs ! i) xs = i"
proof (induction xs arbitrary: i)
  case (Cons x xs)
  then show ?case by (cases i) auto
qed simp

lemma index_of_less: "x \<in> set xs \<Longrightarrow> index_of x xs < length xs \<and> xs ! index_of x xs = x"
  by (induction xs) auto

lemma count_list_distinct: "distinct xs \<Longrightarrow> count_list xs x = (if x \<in> set xs then 1 else 0)"
  by (induction xs) auto

lemma gpus_for_distinct: "distinct gpus \<Longrightarrow> distinct (gpus_for n gpus i)"
  by (simp add: gpus_for_def Let_def)

text \<open>What a plan over different GPUs says about one of them.\<close>

lemma plan_device:
  assumes "plan_shards load n gpus = Inr p" and "distinct gpus"
  shows "\<And>s. s \<in> set (shards p) \<Longrightarrow> distinct (sh_gpus s) \<and> sh_gpus s \<noteq> []"
    and "distinct (map sh_index (shards p))"
    and "counter_get (shards_per_gpu p) g = int (length (owners p g))"
proof -
  define k where "k = nat n"
  define asg where "asg = map (gpus_for k gpus) [0..<k]"
  define caps where "caps = map (shard_capacity (gpu_sharing asg)) asg"
  define st where "st = place_cameras load caps (placement_order load) (replicate k [], replicate k 0)"
  note P = plan_shards_Inr[OF assms(1) k_def asg_def caps_def st_def]
  have sh: "shards p = map (\<lambda>i. \<lparr>sh_index = i, sh_cameras = sort (fst st ! i), sh_gpus = gpus_for k gpus i, offered_fps = snd st ! i\<rparr>) [0..<k]"
    by (rule nth_equalityI) (use P(4,6) in auto)
  show d: "distinct (sh_gpus s) \<and> sh_gpus s \<noteq> []" if "s \<in> set (shards p)" for s
    using that gpus_for_distinct[OF assms(2)] gpus_for_nonempty[OF _ P(2)] by (auto simp: sh)
  show "distinct (map sh_index (shards p))" by (simp add: sh comp_def)
  have cl: "count_list (concat (map sh_gpus ss)) g = length (filter (\<lambda>s. g \<in> set (sh_gpus s)) ss)"
    if "\<forall>s \<in> set ss. distinct (sh_gpus s)" for ss
    using that by (induction ss) (auto simp: count_list_distinct)
  have "counter_get (shards_per_gpu p) g = int (count_list (concat (map sh_gpus (shards p))) g)"
    by (simp add: P(5) sharing_count sh asg_def comp_def)
  then show "counter_get (shards_per_gpu p) g = int (length (owners p g))"
    using cl[of "shards p"] d by (simp add: owners_def)
qed

lemma child_expand_count:
  assumes "plan_shards load n gpus = Inr p" and "distinct gpus" and "s \<in> set (shards p)"
    and "ig_kind grp = KIND_GPU" and "ig_gpus grp = []"
    and "\<forall>g \<in> set (sh_gpus s). counter_get (shards_per_gpu p) g \<le> ig_count grp"
  shows "\<exists>ps. child_expand grp p s = Inr ps \<and>
    (\<forall>g \<in> set (sh_gpus s). on_device \<lparr>kind = KCuda, index = int (index_of g (sh_gpus s))\<rparr> ps =
       instance_share (ig_count grp) (int (length (owners p g))) (int (index_of (sh_index s) (owners p g))))"
proof -
  let ?L = "length (sh_gpus s)"
  note pd = plan_device[OF assms(1,2)]
  have ne: "0 < ?L" using pd(1)[OF assms(3)] by simp
  have mem: "sh_index s \<in> set (owners p g)" if "g \<in> set (sh_gpus s)" for g
    using assms(3) that by (auto simp: owners_def)
  have "map_of (shards_per_gpu p) g = Some (int (length (owners p g)))" if "g \<in> set (sh_gpus s)" for g
    using pd(3)[of g] mem[OF that] by (auto simp: counter_get_def split: option.splits)
  then have sh: "sharing_for p s ! j = int (length (owners p (sh_gpus s ! j)))"
    "map int (rank_for p s) ! j = int (index_of (sh_index s) (owners p (sh_gpus s ! j)))" if "j < ?L" for j
    using that mem by (simp_all add: sharing_for_def rank_for_def)
  obtain sb where sb: "aligned (map int [0..<?L]) (sharing_for p s) = Inr sb"
    "\<And>j x. j < ?L \<Longrightarrow> get_default sb (int j) x = sharing_for p s ! j"
    by (rule aligned_get[OF _ ne, of "sharing_for p s"]) (auto simp: sharing_for_def)
  obtain sr where sr: "aligned (map int [0..<?L]) (map int (rank_for p s)) = Inr sr"
    "\<And>j x. j < ?L \<Longrightarrow> get_default sr (int j) x = map int (rank_for p s) ! j"
    by (rule aligned_get[OF _ ne, of "map int (rank_for p s)"]) (auto simp: rank_for_def)
  let ?share = "\<lambda>g. instance_share (ig_count grp) (int (length (owners p g))) (int (index_of (sh_index s) (owners p g)))"
  have pos: "1 \<le> ?share g" "length (owners p g) \<noteq> 0" if "g \<in> set (sh_gpus s)" for g
  proof -
    show nz: "length (owners p g) \<noteq> 0" using mem[OF that] by auto
    have "int (length (owners p g)) \<le> ig_count grp" using assms(6) that pd(3) by simp
    then show "1 \<le> ?share g" using nz zdiv_mono1[of "int (length (owners p g))" "ig_count grp" "int (length (owners p g))"]
      by (simp add: instance_share_def)
  qed
  have E: "child_expand grp p s = expand_targets grp sb sr (map int [0..<?L])"
    using sb(1) sr(1) assms(4,5) ne by (simp add: child_expand_def Let_def expand_def)
  have "\<exists>ps. expand_targets grp sb sr (map int [0..<?L]) = Inr ps"
    by (subst expand_targets_Inr_iff) (use sb(2) sr(2) sh pos in \<open>auto simp: image_iff\<close>)
  then obtain ps where ps: "expand_targets grp sb sr (map int [0..<?L]) = Inr ps" by blast
  have "on_device \<lparr>kind = KCuda, index = int (index_of g (sh_gpus s))\<rparr> ps = ?share g" if g: "g \<in> set (sh_gpus s)" for g
  proof -
    have j: "index_of g (sh_gpus s) < ?L" "sh_gpus s ! index_of g (sh_gpus s) = g" using index_of_less[OF g] by auto
    have "distinct (map int [0..<?L])" by (simp add: distinct_map)
    from expand_targets_count[OF ps this, of "int (index_of g (sh_gpus s))"] j sb(2)[OF j(1)] sr(2)[OF j(1)] sh[OF j(1)]
    show ?thesis by simp
  qed
  with E ps show ?thesis by auto
qed

text \<open>
  A sharded fleet loads exactly the configured instances.  Plan any fleet over different GPUs, let every
  shard expand a GPU group with the sharing and rank the plan hands it, and let no GPU be shared by more
  processes than the group has instances.  Then no shard is refused, and on every physical GPU the instances loaded by
  all its owners together are exactly the \<^verbatim>\<open>count\<close> the configuration asks for.
\<close>

theorem fleet_loads_configured_instances:
  assumes "plan_shards load n gpus = Inr p" and "distinct gpus" and "ig_kind grp = KIND_GPU" and "ig_gpus grp = []"
    and "\<forall>g \<in> set gpus. counter_get (shards_per_gpu p) g \<le> ig_count grp"
  shows "\<exists>ps. (\<forall>s \<in> set (shards p). child_expand grp p s = Inr (ps s)) \<and>
    (\<forall>g \<in> set gpus. (\<Sum>s\<leftarrow>filter (\<lambda>s. g \<in> set (sh_gpus s)) (shards p).
       on_device \<lparr>kind = KCuda, index = int (index_of g (sh_gpus s))\<rparr> (ps s)) = ig_count grp)"
proof -
  have sub: "set (sh_gpus s) \<subseteq> set gpus" if "s \<in> set (shards p)" for s
    by (rule plan_gpus_subset[OF assms(1) that])
  let ?ok = "\<lambda>s ps. child_expand grp p s = Inr ps \<and>
    (\<forall>g \<in> set (sh_gpus s). on_device \<lparr>kind = KCuda, index = int (index_of g (sh_gpus s))\<rparr> ps =
       instance_share (ig_count grp) (int (length (owners p g))) (int (index_of (sh_index s) (owners p g))))"
  have "\<forall>s \<in> set (shards p). \<exists>x. ?ok s x"
  proof
    fix s assume s: "s \<in> set (shards p)"
    then have "\<forall>g \<in> set (sh_gpus s). counter_get (shards_per_gpu p) g \<le> ig_count grp" using sub assms(5) by blast
    from child_expand_count[OF assms(1,2) s assms(3,4) this] show "\<exists>x. ?ok s x" .
  qed
  then obtain ps where ps: "\<And>s. s \<in> set (shards p) \<Longrightarrow> ?ok s (ps s)" by metis
  have "(\<Sum>s\<leftarrow>filter (\<lambda>s. g \<in> set (sh_gpus s)) (shards p).
       on_device \<lparr>kind = KCuda, index = int (index_of g (sh_gpus s))\<rparr> (ps s)) = ig_count grp" if g: "g \<in> set gpus" for g
  proof -
    let ?os = "filter (\<lambda>s. g \<in> set (sh_gpus s)) (shards p)"
    have ow: "owners p g = map sh_index ?os" by (simp add: owners_def)
    have "distinct (map sh_index ?os)"
      using plan_device(2)[OF assms(1,2)] by (rule distinct_map_filter)
    then have rank: "index_of (sh_index (?os ! r)) (owners p g) = r" if "r < length ?os" for r
      using index_of_nth[of "map sh_index ?os" r] that by (simp add: ow)
    have k: "0 < length ?os" using plan_gpu_owned[OF assms(1) g] by (auto simp: filter_empty_conv)
    have "map (\<lambda>s. on_device \<lparr>kind = KCuda, index = int (index_of g (sh_gpus s))\<rparr> (ps s)) ?os =
        map (\<lambda>r. instance_share (ig_count grp) (int (length ?os)) (int r)) [0..<length ?os]"
    proof (rule nth_equalityI)
      fix r assume "r < length (map (\<lambda>s. on_device \<lparr>kind = KCuda, index = int (index_of g (sh_gpus s))\<rparr> (ps s)) ?os)"
      then have r: "r < length ?os" by simp
      then have "?os ! r \<in> set ?os" by (rule nth_mem)
      then have "?os ! r \<in> set (shards p)" "g \<in> set (sh_gpus (?os ! r))" by auto
      then show "map (\<lambda>s. on_device \<lparr>kind = KCuda, index = int (index_of g (sh_gpus s))\<rparr> (ps s)) ?os ! r =
        map (\<lambda>r. instance_share (ig_count grp) (int (length ?os)) (int r)) [0..<length ?os] ! r"
        using ps[of "?os ! r"] rank[OF r] r by (simp add: ow)
    qed simp
    moreover have "0 \<le> ig_count grp"
      using assms(5) g plan_device(3)[OF assms(1,2), of g] by force
    ultimately show ?thesis using instance_share_sum[OF k, of "ig_count grp"] by simp
  qed
  with ps show ?thesis by blast
qed

lemma fleet_loads_configured_instances_witness:
  "\<exists>ps. (\<forall>s \<in> set (shards sample_plan). child_expand (sample_group 3) sample_plan s = Inr (ps s)) \<and>
    (\<Sum>s\<leftarrow>filter (\<lambda>s. 2 \<in> set (sh_gpus s)) (shards sample_plan).
       on_device \<lparr>kind = KCuda, index = int (index_of 2 (sh_gpus s))\<rparr> (ps s)) = 3"
proof -
  have "\<forall>g \<in> set [2, 3]. counter_get (shards_per_gpu sample_plan) g \<le> ig_count (sample_group 3)" by code_simp
  with fleet_loads_configured_instances[OF sample_plan_eq, of "sample_group 3"] show ?thesis
    by (auto simp: sample_group_def)
qed

end
