(* ===== verification/Frame_State.thy ===== *)
theory Frame_State
  imports Requests
begin

text \<open>
  \<^verbatim>\<open>topology/elements/detections.py\<close> (the value types), \<^verbatim>\<open>pipeline/graph/objects.py\<close> (the per-object
  batch) and \<^verbatim>\<open>pipeline/graph/state.py\<close>: what is known about one frame while it travels the graph, and how it
  becomes the records of an event.

  A batch-major array is the list of its rows; a row is opaque (\<^verbatim>\<open>'r\<close>), because this code moves rows
  and never looks into them.  The element conversions of \<^verbatim>\<open>RECORD_CONVERTERS\<close> (numpy's \<^verbatim>\<open>reshape\<close>
  and \<^verbatim>\<open>tolist\<close>, Python's \<^verbatim>\<open>int\<close>, \<^verbatim>\<open>float\<close> and \<^verbatim>\<open>str\<close>) are the argument \<^verbatim>\<open>cv\<close> of what uses them.
\<close>

section \<open>Detections\<close>

type_synonym box = "rat \<times> rat \<times> rat \<times> rat"

record detection =
  det_index :: int
  det_class_id :: int
  det_class_name :: string
  det_score :: rat
  det_box :: box

record detections =
  dt_boxes :: "box list"
  dt_scores :: "rat list"
  dt_class_ids :: "int list"
  dt_labels :: "string list"
  discarded :: int

text \<open>\<^verbatim>\<open>Detections.__post_init__\<close>; the boxes are \<^verbatim>\<open>(N, 4)\<close> by their type.\<close>

definition mk_detections :: "box list \<Rightarrow> rat list \<Rightarrow> int list \<Rightarrow> string list \<Rightarrow> int \<Rightarrow> detections result" where
  "mk_detections bs ss cs ls d =
     (if length ss \<noteq> length bs \<or> length cs \<noteq> length bs then Inl ValidationError
      else if length ls \<noteq> length bs then Inl ValidationError
      else Inr \<lparr>dt_boxes = bs, dt_scores = ss, dt_class_ids = cs, dt_labels = ls, discarded = d\<rparr>)"

definition detections_empty :: detections where
  "detections_empty = \<lparr>dt_boxes = [], dt_scores = [], dt_class_ids = [], dt_labels = [], discarded = 0\<rparr>"

definition det_len :: "detections \<Rightarrow> nat" where
  "det_len d = length (dt_boxes d)"

definition indices_of_any :: "string list \<Rightarrow> detections \<Rightarrow> int list" where
  "indices_of_any names d = map fst (filter (\<lambda>(i, l). l \<in> set names) (zip (map int [0..<length (dt_labels d)]) (dt_labels d)))"

definition indices_of :: "string \<Rightarrow> detections \<Rightarrow> int list" where
  "indices_of cname d = map fst (filter (\<lambda>(i, l). l = cname) (zip (map int [0..<length (dt_labels d)]) (dt_labels d)))"

text \<open>
  \<^verbatim>\<open>boxes_at\<close>: the whole-frame copy for \<^verbatim>\<open>range(len(self))\<close>, numpy's gather otherwise (negative indices
  count from the end, one outside the frame raises, retyped to \<^verbatim>\<open>ValidationError\<close>).
\<close>

definition gather :: "'a list \<Rightarrow> int \<Rightarrow> 'a result" where
  "gather xs i =
     (if - int (length xs) \<le> i \<and> i < int (length xs)
      then Inr (xs ! nat (if i < 0 then i + int (length xs) else i)) else Inl ValidationError)"

definition boxes_at :: "bool \<Rightarrow> int list \<Rightarrow> detections \<Rightarrow> box list result" where
  "boxes_at is_range ixs d =
     (if is_range \<and> ixs = map int [0..<det_len d] then Inr (dt_boxes d)
      else if ixs = [] then Inr []
      else rmapM (gather (dt_boxes d)) ixs)"

definition boxes_of :: "string \<Rightarrow> detections \<Rightarrow> (box list \<times> int list) result" where
  "boxes_of cname d = rbind (boxes_at False (indices_of cname d) d) (\<lambda>bs. Inr (bs, indices_of cname d))"

definition det_counts :: "detections \<Rightarrow> string counter" where
  "det_counts d = counter_inc_all (dt_labels d) []"

definition det_iter :: "detections \<Rightarrow> detection list" where
  "det_iter d =
     map (\<lambda>i. \<lparr>det_index = int i, det_class_id = dt_class_ids d ! i, det_class_name = dt_labels d ! i,
               det_score = dt_scores d ! i, det_box = dt_boxes d ! i\<rparr>) [0..<det_len d]"

section \<open>Per-object batches\<close>

record 'r object_batch =
  ob_name :: string
  ob_class :: string
  object_indices :: "int list"
  ob_data :: "'r list"

definition mk_object_batch :: "string \<Rightarrow> string \<Rightarrow> int list \<Rightarrow> 'r list \<Rightarrow> 'r object_batch result" where
  "mk_object_batch n c ixs rows =
     (if length rows \<noteq> length ixs then Inl ValidationError
      else Inr \<lparr>ob_name = n, ob_class = c, object_indices = ixs, ob_data = rows\<rparr>)"

definition ob_is_empty :: "'r object_batch \<Rightarrow> bool" where
  "ob_is_empty b \<longleftrightarrow> object_indices b = []"

definition ob_scatter :: "'r object_batch \<Rightarrow> (int \<times> 'r) list result" where
  "ob_scatter b =
     (if length (ob_data b) \<noteq> length (object_indices b) then Inl InferenceError
      else Inr (zip (object_indices b) (ob_data b)))"

text \<open>\<^verbatim>\<open>_chunks\<close>: row ranges no larger than the model's maximum batch (\<^verbatim>\<open>None\<close> or 0: no maximum).\<close>

function chunk_from :: "int \<Rightarrow> int \<Rightarrow> int \<Rightarrow> (int \<times> int) list" where
  "chunk_from start cnt limit =
     (if start < cnt \<and> 0 < limit then (start, min (start + limit) cnt) # chunk_from (start + limit) cnt limit else [])"
  by pat_completeness auto
termination by (relation "measure (\<lambda>(start, cnt, limit). nat (cnt - start))") auto

definition chunks :: "int \<Rightarrow> int option \<Rightarrow> (int \<times> int) list" where
  "chunks cnt limit =
     (if cnt \<le> 0 then [(0, 0)]
      else case limit of
             None \<Rightarrow> [(0, cnt)]
           | Some l \<Rightarrow> if l = 0 \<or> cnt \<le> l then [(0, cnt)] else chunk_from 0 cnt l)"


declare chunk_from.simps [simp del]

section \<open>Records\<close>

datatype converter = As_embedding | As_int | As_float | As_str

definition RECORD_CONVERTERS :: "(string, converter) dict" where
  "RECORD_CONVERTERS =
     [(''embedding'', As_embedding), (''ship_id'', As_int), (''similarity'', As_float), (''mask_area_px'', As_float),
      (''track_id'', As_int), (''track_state'', As_str), (''global_id'', As_int)]"

text \<open>
  An \<^verbatim>\<open>ObjectRecord\<close>: its four fixed flds and the optional ones that were filled, by name (an absent name
  is the field's default).
\<close>

record 'v object_record =
  rec_det_id :: string
  rec_class_name :: string
  rec_score :: rat
  rec_bbox :: box
  rec_fields :: "(string, 'v) dict"

text \<open>Python's \<^verbatim>\<open>str(i)\<close> of an integer.\<close>

fun nat_digits :: "nat \<Rightarrow> string" where
  "nat_digits n = (if n < 10 then [char_of (48 + n)] else nat_digits (n div 10) @ [char_of (48 + n mod 10)])"

definition int_str :: "int \<Rightarrow> string" where
  "int_str i = (if i < 0 then CHR ''-'' # nat_digits (nat (- i)) else nat_digits (nat i))"

definition det_id :: "string \<Rightarrow> int \<Rightarrow> int \<Rightarrow> string" where
  "det_id cam frame i = cam @ ''_'' @ int_str frame @ ''_'' @ int_str i"

text \<open>The innermost loop of \<^verbatim>\<open>build_records\<close>: one batch scattered onto one field.\<close>

fun fill_rows ::
  "('r \<Rightarrow> 'v result) \<Rightarrow> string \<Rightarrow> (int \<times> 'r) list \<Rightarrow> (string, 'v) dict list \<Rightarrow> (string, 'v) dict list result" where
  "fill_rows convert name [] flds = Inr flds"
| "fill_rows convert name ((i, row) # rest) flds =
     (if \<not> (0 \<le> i \<and> i < int (length flds)) then fill_rows convert name rest flds
      else if name \<in> fst ` set (flds ! nat i) then Inl InferenceError
      else rbind (convert row) (\<lambda>v.
        fill_rows convert name rest (flds[nat i := AList.update name v (flds ! nat i)])))"

fun fill_candidates ::
  "('r \<Rightarrow> 'v result) \<Rightarrow> (string, 'r object_batch) dict \<Rightarrow> string \<Rightarrow> string list \<Rightarrow>
     (string, 'v) dict list \<Rightarrow> (string, 'v) dict list result" where
  "fill_candidates convert bts name [] flds = Inr flds"
| "fill_candidates convert bts name (c # cs) flds =
     (case map_of bts c of
        None \<Rightarrow> fill_candidates convert bts name cs flds
      | Some b \<Rightarrow>
          if ob_is_empty b then fill_candidates convert bts name cs flds
          else rbind (ob_scatter b) (\<lambda>rows. rbind (fill_rows convert name rows flds) (\<lambda>flds'.
                 fill_candidates convert bts name cs flds')))"

fun fill_fields ::
  "(converter \<Rightarrow> 'r \<Rightarrow> 'v result) \<Rightarrow> (string, 'r object_batch) dict \<Rightarrow> (string, string list) dict \<Rightarrow>
     (string, 'v) dict list \<Rightarrow> (string, 'v) dict list result" where
  "fill_fields cv bts [] flds = Inr flds"
| "fill_fields cv bts ((name, cands) # fm) flds =
     (case map_of RECORD_CONVERTERS name of
        None \<Rightarrow> Inl ValidationError
      | Some k \<Rightarrow> rbind (fill_candidates (cv k) bts name cands flds) (\<lambda>flds'. fill_fields cv bts fm flds'))"

definition build_records ::
  "(converter \<Rightarrow> 'r \<Rightarrow> 'v result) \<Rightarrow> string \<Rightarrow> int \<Rightarrow> detections \<Rightarrow> (string, 'r object_batch) dict \<Rightarrow>
     (string, string list) dict \<Rightarrow> 'v object_record list result" where
  "build_records cv cam frame dets bts field_map =
     rbind (fill_fields cv bts field_map (replicate (det_len dets) [])) (\<lambda>flds.
       Inr (map (\<lambda>d. \<lparr>rec_det_id = det_id cam frame (det_index d), rec_class_name = det_class_name d,
                      rec_score = det_score d, rec_bbox = det_box d,
                      rec_fields = (if 0 \<le> det_index d \<and> det_index d < int (length flds)
                                    then flds ! nat (det_index d) else [])\<rparr>) (det_iter dets)))"

record 'r captured_inputs =
  ei_camera_id :: string
  ei_frame_id :: int
  ei_detections :: detections
  ei_batches :: "(string, 'r object_batch) dict"

definition ei_records ::
  "(converter \<Rightarrow> 'r \<Rightarrow> 'v result) \<Rightarrow> (string, string list) dict \<Rightarrow> 'r captured_inputs \<Rightarrow> 'v object_record list result" where
  "ei_records cv field_map e = build_records cv (ei_camera_id e) (ei_frame_id e) (ei_detections e) (ei_batches e) field_map"

section \<open>Frame state\<close>

definition FRAME_INPUT :: string where "FRAME_INPUT = ''image''"

definition DETECTIONS :: string where "DETECTIONS = ''detections''"

record 'r frame_state =
  fs_ctx :: request_context
  fs_image :: ndarray
  fs_height :: int
  fs_width :: int
  fs_fps :: rat
  fs_priority :: priority
  fs_deadline_ns :: int
  fs_detections :: detections
  detections_ready :: bool
  fs_scale :: rat
  fs_pad :: "rat \<times> rat"
  fs_extents :: "int \<times> int"
  fs_batches :: "(string, 'r object_batch) dict"

definition RELEASED :: ndarray where
  "RELEASED = \<lparr>nd_dtype = NpUint8, nd_shape = [0, 0, 3], nd_data = []\<rparr>"

text \<open>\<^verbatim>\<open>FrameState(context, image, fps=..., priority=..., deadline_ns=...)\<close> with \<^verbatim>\<open>__post_init__\<close>.\<close>

definition mk_frame_state ::
  "request_context \<Rightarrow> ndarray \<Rightarrow> rat \<Rightarrow> priority \<Rightarrow> int \<Rightarrow> 'r frame_state result" where
  "mk_frame_state c img fps p dl =
     (case nd_shape img of
        [h, w, ch] \<Rightarrow>
          Inr \<lparr>fs_ctx = c, fs_image = img, fs_height = h, fs_width = w, fs_fps = fps, fs_priority = p,
               fs_deadline_ns = dl, fs_detections = detections_empty, detections_ready = False, fs_scale = 1,
               fs_pad = (0, 0), fs_extents = (0, 0), fs_batches = []\<rparr>
      | _ \<Rightarrow> Inl ValidationError)"

definition fs_from_request :: "string \<Rightarrow> rat \<Rightarrow> inference_request \<Rightarrow> 'r frame_state result" where
  "fs_from_request input_name fps r =
     (case map_of (inputs r) input_name of
        None \<Rightarrow> Inl ValidationError
      | Some t \<Rightarrow>
          rbind (tensor_numpy t) (\<lambda>a.
            case nd_shape a of
              [n, h, w, c] \<Rightarrow>
                if n \<noteq> 1 \<or> c \<noteq> 3 then Inl ValidationError
                else if nd_dtype a \<noteq> NpUint8 then Inl ValidationError
                else mk_frame_state (ctx r) \<lparr>nd_dtype = NpUint8, nd_shape = [h, w, c], nd_data = nd_data a\<rparr>
                       fps (priority r) (deadline_ns r)
            | _ \<Rightarrow> Inl ValidationError))"

definition fs_key :: "'r frame_state \<Rightarrow> string \<times> int" where
  "fs_key s = context_key (fs_ctx s)"

definition fs_batch :: "string \<Rightarrow> 'r frame_state \<Rightarrow> 'r object_batch result" where
  "fs_batch name s = (case map_of (fs_batches s) name of None \<Rightarrow> Inl ValidationError | Some b \<Rightarrow> Inr b)"

definition set_detections :: "detections \<Rightarrow> 'r frame_state \<Rightarrow> 'r frame_state" where
  "set_detections d s = s\<lparr>fs_detections := d, detections_ready := True\<rparr>"

definition attach :: "'r object_batch \<Rightarrow> 'r frame_state \<Rightarrow> 'r frame_state" where
  "attach b s = s\<lparr>fs_batches := AList.update (ob_name b) b (fs_batches s)\<rparr>"

definition fs_drop :: "string \<Rightarrow> 'r frame_state \<Rightarrow> 'r frame_state" where
  "fs_drop name s = s\<lparr>fs_batches := AList.delete name (fs_batches s)\<rparr>"

definition release_image :: "'r frame_state \<Rightarrow> 'r frame_state" where
  "release_image s = s\<lparr>fs_image := RELEASED\<rparr>"

definition image_released :: "'r frame_state \<Rightarrow> bool" where
  "image_released s \<longleftrightarrow> nd_data (fs_image s) = []"

text \<open>\<^verbatim>\<open>available()\<close> and \<^verbatim>\<open>non_empty()\<close>, as membership tests of the sets they return.\<close>

definition available :: "'r frame_state \<Rightarrow> string \<Rightarrow> bool" where
  "available s name \<longleftrightarrow>
     map_of (fs_batches s) name \<noteq> None \<or> (name = FRAME_INPUT \<and> \<not> image_released s) \<or>
     (name = DETECTIONS \<and> detections_ready s)"

definition non_empty :: "'r frame_state \<Rightarrow> string \<Rightarrow> bool" where
  "non_empty s name \<longleftrightarrow>
     (case map_of (fs_batches s) name of None \<Rightarrow> False | Some b \<Rightarrow> \<not> ob_is_empty b) \<or>
     (name = FRAME_INPUT \<and> \<not> image_released s) \<or>
     (name = DETECTIONS \<and> detections_ready s \<and> det_len (fs_detections s) \<noteq> 0)"

definition emission_inputs :: "'r frame_state \<Rightarrow> 'r captured_inputs" where
  "emission_inputs s =
     \<lparr>ei_camera_id = camera_id (fs_ctx s), ei_frame_id = frame_id (fs_ctx s),
      ei_detections = fs_detections s, ei_batches = fs_batches s\<rparr>"

definition fs_objects ::
  "(converter \<Rightarrow> 'r \<Rightarrow> 'v result) \<Rightarrow> (string, string list) dict \<Rightarrow> 'r frame_state \<Rightarrow> 'v object_record list result" where
  "fs_objects cv field_map s = ei_records cv field_map (emission_inputs s)"

definition field_map_names :: "(string, string list) dict \<Rightarrow> string set" where
  "field_map_names field_map = (\<Union>(name, cands) \<in> set field_map. set cands)"

section \<open>Chunks\<close>

lemma chunk_from_spec:
  assumes "0 < limit" and "start \<le> cnt"
  shows "concat (map (\<lambda>(a, b). [a..b - 1]) (chunk_from start cnt limit)) = [start..cnt - 1] \<and>
    list_all (\<lambda>(a, b). a < b \<and> b - a \<le> limit) (chunk_from start cnt limit)"
  using assms
proof (induction start cnt limit rule: chunk_from.induct)
  case (1 start cnt limit)
  show ?case
  proof (cases "start < cnt")
    case True
    let ?m = "min (start + limit) cnt"
    have "[start..?m - 1] @ [?m..cnt - 1] = [start..cnt - 1]"
      using True 1(2) upto_split1[of start "?m" "cnt - 1"] by (cases "?m \<le> cnt - 1") auto
    moreover have "chunk_from (start + limit) cnt limit = chunk_from ?m cnt limit"
      using 1(2) by (cases "start + limit \<le> cnt") (simp_all add: chunk_from.simps[of _ cnt])
    moreover have "concat (map (\<lambda>(a, b). [a..b - 1]) (chunk_from ?m cnt limit)) = [?m..cnt - 1] \<and>
        list_all (\<lambda>(a, b). a < b \<and> b - a \<le> limit) (chunk_from ?m cnt limit)"
    proof (cases "start + limit \<le> cnt")
      case t: True
      then show ?thesis using 1(1)[of] True 1(2) by (simp add: min_def)
    next
      case False
      then show ?thesis by (simp add: chunk_from.simps[of cnt])
    qed
    ultimately show ?thesis using True 1(2) by (simp add: chunk_from.simps[of start])
  next
    case False
    then have "chunk_from start cnt limit = []" by (simp add: chunk_from.simps[of start])
    then show ?thesis using False by simp
  qed
qed

text \<open>
  A crowded frame is cut into requests the model accepts.  For a model with a maximum batch, the ranges
  \<^verbatim>\<open>_chunks\<close> returns for one or more rows list every row once and in order, and each of them is
  non-empty and within the maximum.
\<close>

theorem chunks_cover:
  assumes "0 < cnt" and "0 < limit"
  shows "concat (map (\<lambda>(a, b). [a..b - 1]) (chunks cnt (Some limit))) = [0..cnt - 1] \<and>
    list_all (\<lambda>(a, b). a < b \<and> b - a \<le> limit) (chunks cnt (Some limit))"
  using assms chunk_from_spec[of limit 0 cnt] by (auto simp: chunks_def)

lemma chunks_cover_witness:
  "chunks 25 (Some 16) = [(0, 16), (16, 25)] \<and>
   concat (map (\<lambda>(a, b). [a..b - 1]) (chunks 25 (Some 16))) = [0..24]"
  using chunks_cover[of 25 16] by (auto simp: chunks_def chunk_from.simps)

section \<open>Records\<close>

text \<open>The rows that candidate batches hold for one detection.\<close>

definition rows_for :: "int \<Rightarrow> (int \<times> 'r) list \<Rightarrow> 'r list" where
  "rows_for i rows = map snd (filter (\<lambda>(j, r). j = i) rows)"

definition covering :: "(string, 'r object_batch) dict \<Rightarrow> string list \<Rightarrow> int \<Rightarrow> 'r list" where
  "covering bts cands i =
     concat (map (\<lambda>c. case map_of bts c of None \<Rightarrow> [] | Some b \<Rightarrow> rows_for i (zip (object_indices b) (ob_data b))) cands)"

text \<open>What a run of the loops may do to one detection's fields.\<close>

definition filled :: "('r \<Rightarrow> 'v result) \<Rightarrow> string \<Rightarrow> 'r list \<Rightarrow> (string, 'v) dict \<Rightarrow> (string, 'v) dict \<Rightarrow> bool" where
  "filled convert name rs d d' \<longleftrightarrow>
     (rs = [] \<and> d' = d) \<or>
     (\<exists>r v. rs = [r] \<and> name \<notin> fst ` set d \<and> convert r = Inr v \<and> d' = AList.update name v d)"

lemma filled_simps:
  "filled convert name [] d d' \<longleftrightarrow> d' = d"
  "filled convert name [r] d d' \<longleftrightarrow> name \<notin> fst ` set d \<and> (\<exists>v. convert r = Inr v \<and> d' = AList.update name v d)"
  "\<not> filled convert name (r # r' # rs) d d'"
  by (auto simp: filled_def)

lemma filled_trans:
  "filled convert name rs d d1 \<Longrightarrow> filled convert name rs' d1 d' \<Longrightarrow> filled convert name (rs @ rs') d d'"
  by (auto simp: filled_def dict_keyset_update)

lemma fill_rows_spec:
  "fill_rows convert name rows flds = Inr flds' \<Longrightarrow>
    length flds' = length flds \<and> (\<forall>k < length flds. filled convert name (rows_for (int k) rows) (flds ! k) (flds' ! k))"
proof (induction rows arbitrary: flds)
  case Nil
  then show ?case by (simp add: rows_for_def filled_simps)
next
  case (Cons p rows)
  obtain i r where p: "p = (i, r)" by (cases p)
  show ?case
  proof (cases "0 \<le> i \<and> i < int (length flds)")
    case False
    then have "rows_for (int k) (p # rows) = rows_for (int k) rows" if "k < length flds" for k
      using that p by (auto simp: rows_for_def)
    then show ?thesis using Cons False p by auto
  next
    case True
    then obtain v where v: "name \<notin> fst ` set (flds ! nat i)" "convert r = Inr v"
      "fill_rows convert name rows (flds[nat i := AList.update name v (flds ! nat i)]) = Inr flds'"
      using Cons.prems p by (auto simp: rbind_Inr_iff split: if_splits)
    note IH = Cons.IH[OF v(3)]
    have "filled convert name (rows_for (int k) (p # rows)) (flds ! k) (flds' ! k)" if k: "k < length flds" for k
    proof (cases "int k = i")
      case eq: True
      have "filled convert name [r] (flds ! k) (AList.update name v (flds ! k))" using v(1,2) eq by (auto simp: filled_simps)
      moreover have "filled convert name (rows_for (int k) rows) (AList.update name v (flds ! k)) (flds' ! k)"
        using IH k eq by auto
      ultimately show ?thesis using filled_trans[of convert name "[r]"] p eq by (fastforce simp: rows_for_def)
    next
      case ne: False
      then show ?thesis using IH k p True by (auto simp: rows_for_def)
    qed
    then show ?thesis using IH by simp
  qed
qed

lemma fill_candidates_spec:
  "fill_candidates convert bts name cands flds = Inr flds' \<Longrightarrow>
    length flds' = length flds \<and> (\<forall>k < length flds. filled convert name (covering bts cands (int k)) (flds ! k) (flds' ! k))"
proof (induction cands arbitrary: flds)
  case Nil
  then show ?case by (simp add: covering_def filled_simps)
next
  case (Cons c cands)
  show ?case
  proof (cases "map_of bts c")
    case None
    then show ?thesis using Cons by (simp add: covering_def)
  next
    case (Some b)
    show ?thesis
    proof (cases "ob_is_empty b")
      case True
      then show ?thesis using Cons Some by (simp add: covering_def ob_is_empty_def rows_for_def)
    next
      case False
      then obtain f1 where f1: "fill_rows convert name (zip (object_indices b) (ob_data b)) flds = Inr f1"
        "fill_candidates convert bts name cands f1 = Inr flds'"
        using Cons.prems Some by (auto simp: rbind_Inr_iff ob_scatter_def split: if_splits)
      show ?thesis using fill_rows_spec[OF f1(1)] Cons.IH[OF f1(2)] Some
        by (auto simp: covering_def intro!: filled_trans)
    qed
  qed
qed


lemma fill_fields_spec:
  assumes "fill_fields cv bts fm flds = Inr flds'" and "dict_wf fm"
    and "\<forall>k < length flds. \<forall>f \<in> fst ` set fm. map_of (flds ! k) f = None"
  shows "length flds' = length flds \<and>
    (\<forall>k < length flds. \<forall>f.
       (case map_of fm f of
          None \<Rightarrow> map_of (flds' ! k) f = map_of (flds ! k) f
        | Some cands \<Rightarrow> \<exists>c. map_of RECORD_CONVERTERS f = Some c \<and>
            (case covering bts cands (int k) of
               [] \<Rightarrow> map_of (flds' ! k) f = None
             | [r] \<Rightarrow> (\<exists>v. cv c r = Inr v \<and> map_of (flds' ! k) f = Some v)
             | _ \<Rightarrow> False)))"
  using assms
proof (induction fm arbitrary: flds)
  case Nil
  then show ?case by simp
next
  case (Cons p fm)
  obtain name cands where p: "p = (name, cands)" by (cases p)
  obtain c f1 where c: "map_of RECORD_CONVERTERS name = Some c"
    and f1: "fill_candidates (cv c) bts name cands flds = Inr f1" and rest: "fill_fields cv bts fm f1 = Inr flds'"
    using Cons.prems(1) p by (auto simp: rbind_Inr_iff split: option.splits)
  note F = fill_candidates_spec[OF f1]
  have g: "map_of (f1 ! k) f = map_of (flds ! k) f" if "k < length flds" "f \<noteq> name" for k f
    using F that by (auto simp: filled_def dict_simps)
  have nm: "map_of fm name = None" using Cons.prems(2) p by (auto simp: map_of_eq_None_iff)
  have pre: "\<forall>k < length f1. \<forall>f \<in> fst ` set fm. map_of (f1 ! k) f = None"
  proof (intro allI impI ballI)
    fix k f assume k: "k < length f1" and f: "f \<in> fst ` set fm"
    have "f \<noteq> name" using f nm by (auto simp: map_of_eq_None_iff)
    then show "map_of (f1 ! k) f = None" using g[of k f] k F f Cons.prems(3) by simp
  qed
  have wf: "dict_wf fm" using Cons.prems(2) by simp
  note IH = Cons.IH[OF rest wf pre]
  have here: "case covering bts cands (int k) of [] \<Rightarrow> map_of (f1 ! k) name = None
      | [r] \<Rightarrow> (\<exists>v. cv c r = Inr v \<and> map_of (f1 ! k) name = Some v) | _ \<Rightarrow> False" if k: "k < length flds" for k
  proof -
    have "map_of (flds ! k) name = None" using Cons.prems(3) p k by simp
    moreover have "filled (cv c) name (covering bts cands (int k)) (flds ! k) (f1 ! k)" using F k by simp
    ultimately show ?thesis by (auto simp: filled_def dict_simps)
  qed
  show ?case
  proof (intro conjI allI impI)
    show "length flds' = length flds" using IH F by simp
    fix k f assume k: "k < length flds"
    note K = IH[THEN conjunct2, rule_format, of k f]
    show "case map_of (p # fm) f of None \<Rightarrow> map_of (flds' ! k) f = map_of (flds ! k) f
        | Some cands \<Rightarrow> \<exists>c. map_of RECORD_CONVERTERS f = Some c \<and>
            (case covering bts cands (int k) of [] \<Rightarrow> map_of (flds' ! k) f = None
             | [r] \<Rightarrow> (\<exists>v. cv c r = Inr v \<and> map_of (flds' ! k) f = Some v) | _ \<Rightarrow> False)"
    proof (cases "f = name")
      case True
      have e: "map_of (flds' ! k) name = map_of (f1 ! k) name" using K k F nm True by simp
      show ?thesis using here[OF k] c p unfolding True e by simp
    next
      case False
      then show ?thesis using K k F p unfolding g[OF k False] by simp
    qed
  qed
qed

lemma fill_rows_total:
  assumes "\<forall>k < length flds. length (rows_for (int k) rows) \<le> 1"
    and "\<forall>k < length flds. rows_for (int k) rows \<noteq> [] \<longrightarrow> name \<notin> fst ` set (flds ! k)"
    and "\<forall>r. \<exists>v. convert r = Inr v"
  shows "\<exists>flds'. fill_rows convert name rows flds = Inr flds'"
  using assms(1,2)
proof (induction rows arbitrary: flds)
  case (Cons p rows)
  obtain i r where p: "p = (i, r)" by (cases p)
  obtain v where v: "convert r = Inr v" using assms(3) by blast
  have sub: "length (rows_for (int k) rows) \<le> length (rows_for (int k) (p # rows))" for k
    by (simp add: rows_for_def)
  show ?case
  proof (cases "0 \<le> i \<and> i < int (length flds)")
    case False
    have "\<exists>flds'. fill_rows convert name rows flds = Inr flds'"
    proof (rule Cons.IH; intro allI impI)
      fix j assume j: "j < length flds"
      show "length (rows_for (int j) rows) \<le> 1" using Cons.prems(1) j sub[of j] by (auto intro: order_trans)
      assume "rows_for (int j) rows \<noteq> []"
      then have "rows_for (int j) (p # rows) \<noteq> []" by (auto simp: rows_for_def)
      then show "name \<notin> fst ` set (flds ! j)" using Cons.prems(2) j by simp
    qed
    then show ?thesis using False p by simp
  next
    case True
    let ?f = "flds[nat i := AList.update name v (flds ! nat i)]"
    have n: "nat i < length flds" using True by linarith
    have k: "rows_for i rows = []" "name \<notin> fst ` set (flds ! nat i)"
      using Cons.prems(1)[rule_format, of "nat i"] Cons.prems(2)[rule_format, of "nat i"] True p n by (auto simp: rows_for_def)
    have "\<exists>flds'. fill_rows convert name rows ?f = Inr flds'"
    proof (rule Cons.IH; intro allI impI)
      fix j assume j: "j < length ?f"
      show "length (rows_for (int j) rows) \<le> 1" using Cons.prems(1) j sub[of j] by (auto intro: order_trans)
      assume ne: "rows_for (int j) rows \<noteq> []"
      then have "int j \<noteq> i" using k(1) by auto
      then have "?f ! j = flds ! j" using True by (subst nth_list_update_neq) auto
      moreover have "rows_for (int j) (p # rows) \<noteq> []" using ne by (auto simp: rows_for_def)
      ultimately show "name \<notin> fst ` set (?f ! j)" using Cons.prems(2) j by simp
    qed
    then show ?thesis using True k(2) v p by simp
  qed
qed simp

definition batches_ok :: "(string, 'r object_batch) dict \<Rightarrow> bool" where
  "batches_ok bts \<longleftrightarrow> list_all (\<lambda>(n, b). length (ob_data b) = length (object_indices b)) bts"

lemma fill_candidates_total:
  assumes "batches_ok bts" and "\<forall>r. \<exists>v. convert r = Inr v"
    and "\<forall>k < length flds. length (covering bts cands (int k)) \<le> 1"
    and "\<forall>k < length flds. covering bts cands (int k) \<noteq> [] \<longrightarrow> name \<notin> fst ` set (flds ! k)"
  shows "\<exists>flds'. fill_candidates convert bts name cands flds = Inr flds'"
  using assms(3,4)
proof (induction cands arbitrary: flds)
  case (Cons c cands)
  have sub: "length (covering bts cands i) \<le> length (covering bts (c # cands) i)" for i
    by (simp add: covering_def)
  have skip: "\<exists>flds'. fill_candidates convert bts name cands flds = Inr flds'"
  proof (rule Cons.IH; intro allI impI)
    fix k assume k: "k < length flds"
    show "length (covering bts cands (int k)) \<le> 1" using Cons.prems(1) k sub[of "int k"] by (auto intro: order_trans)
    assume "covering bts cands (int k) \<noteq> []"
    then have "covering bts (c # cands) (int k) \<noteq> []" using sub[of "int k"] by auto
    then show "name \<notin> fst ` set (flds ! k)" using Cons.prems(2) k by simp
  qed
  show ?case
  proof (cases "map_of bts c")
    case None
    then show ?thesis using skip by simp
  next
    case (Some b)
    let ?rows = "zip (object_indices b) (ob_data b)"
    have cov: "covering bts (c # cands) i = rows_for i ?rows @ covering bts cands i" for i
      using Some by (simp add: covering_def)
    have sc: "ob_scatter b = Inr ?rows" using assms(1) map_of_SomeD[OF Some] by (auto simp: batches_ok_def list_all_iff ob_scatter_def)
    have one: "\<forall>k < length flds. length (rows_for (int k) ?rows) \<le> 1"
      using Cons.prems(1) by (metis add_leD1 cov length_append)
    obtain f1 where f1: "fill_rows convert name ?rows flds = Inr f1"
      using fill_rows_total[OF one, of name convert] assms(2) Cons.prems(2) by (auto simp: cov)
    note F = fill_rows_spec[OF f1]
    have "\<exists>flds'. fill_candidates convert bts name cands f1 = Inr flds'"
    proof (rule Cons.IH; intro allI impI)
      fix k assume k: "k < length f1"
      then have "length (rows_for (int k) ?rows) + length (covering bts cands (int k)) \<le> 1"
        using Cons.prems(1) F by (simp add: cov)
      then show "length (covering bts cands (int k)) \<le> 1" by simp
      assume ne: "covering bts cands (int k) \<noteq> []"
      then have "rows_for (int k) ?rows = []" using \<open>_ + _ \<le> 1\<close> by (cases "covering bts cands (int k)") auto
      then have "f1 ! k = flds ! k" using F k by (auto simp: filled_simps)
      then show "name \<notin> fst ` set (f1 ! k)" using Cons.prems(2) ne k F by (simp add: cov)
    qed
    then show ?thesis using Some sc f1 skip by (cases "ob_is_empty b") auto
  qed
qed simp


lemma fill_fields_total:
  assumes "batches_ok bts" and "\<forall>c r. \<exists>v. cv c r = Inr v" and "dict_wf fm"
    and "\<forall>f \<in> fst ` set fm. map_of RECORD_CONVERTERS f \<noteq> None"
    and "\<forall>k < length flds. \<forall>f \<in> fst ` set fm. map_of (flds ! k) f = None"
    and "\<forall>(f, cands) \<in> set fm. \<forall>k < length flds. length (covering bts cands (int k)) \<le> 1"
  shows "\<exists>flds'. fill_fields cv bts fm flds = Inr flds'"
  using assms(3-)
proof (induction fm arbitrary: flds)
  case (Cons p fm)
  obtain name cands where p: "p = (name, cands)" by (cases p)
  obtain c where c: "map_of RECORD_CONVERTERS name = Some c" using Cons.prems(2) p by auto
  have tot: "\<forall>r. \<exists>v. cv c r = Inr v" using assms(2) by blast
  have none: "name \<notin> fst ` set (flds ! k)" if "k < length flds" for k
    using Cons.prems(3) that p by (simp add: map_of_eq_None_iff)
  obtain f1 where f1: "fill_candidates (cv c) bts name cands flds = Inr f1"
    using fill_candidates_total[OF assms(1) tot, of flds cands name] Cons.prems(4) none p by auto
  note F = fill_candidates_spec[OF f1]
  have nm: "name \<notin> fst ` set fm" using Cons.prems(1) p by simp
  have "\<exists>flds'. fill_fields cv bts fm f1 = Inr flds'"
  proof (rule Cons.IH)
    show "\<forall>k < length f1. \<forall>f \<in> fst ` set fm. map_of (f1 ! k) f = None"
    proof (intro allI impI ballI)
      fix k f assume k: "k < length f1" and f: "f \<in> fst ` set fm"
      have "filled (cv c) name (covering bts cands (int k)) (flds ! k) (f1 ! k)" "map_of (flds ! k) f = None"
        using F k Cons.prems(3) f by auto
      moreover have "f \<noteq> name" using f nm by auto
      ultimately show "map_of (f1 ! k) f = None" by (auto simp: filled_def dict_simps)
    qed
  qed (use Cons.prems F in auto)
  then show ?case using p c f1 by auto
qed simp

lemma list3_cases:
  obtains "xs = []" | r where "xs = [r]" | r r' rs where "xs = r # r' # rs"
  by (metis list.exhaust)

lemma build_records_spec:
  assumes "batches_ok bts" and "\<forall>c r. \<exists>v. cv c r = Inr v" and "dict_wf fm"
    and "\<forall>f \<in> fst ` set fm. map_of RECORD_CONVERTERS f \<noteq> None"
  shows "(\<exists>recs. build_records cv cam frame dets bts fm = Inr recs) \<longleftrightarrow>
      (\<forall>(f, cands) \<in> set fm. \<forall>k < det_len dets. length (covering bts cands (int k)) \<le> 1)"
    and "build_records cv cam frame dets bts fm = Inr recs \<Longrightarrow>
      length recs = det_len dets \<and>
      (\<forall>k < det_len dets.
         rec_det_id (recs ! k) = det_id cam frame (int k) \<and> rec_class_name (recs ! k) = dt_labels dets ! k \<and>
         rec_score (recs ! k) = dt_scores dets ! k \<and> rec_bbox (recs ! k) = dt_boxes dets ! k \<and>
         (\<forall>f cands. map_of fm f = Some cands \<longrightarrow>
            (case covering bts cands (int k) of
               [] \<Rightarrow> map_of (rec_fields (recs ! k)) f = None
             | r # _ \<Rightarrow> \<exists>c v. map_of RECORD_CONVERTERS f = Some c \<and> cv c r = Inr v \<and>
                 map_of (rec_fields (recs ! k)) f = Some v)))"
proof -
  let ?z = "replicate (det_len dets) [] :: (string, 'b) dict list"
  have z: "\<forall>k < length ?z. \<forall>f \<in> fst ` set fm. map_of (?z ! k) f = None" by simp
  have spec: "length fl = det_len dets \<and>
      (\<forall>k < det_len dets. \<forall>f cands. map_of fm f = Some cands \<longrightarrow>
         (\<exists>c. map_of RECORD_CONVERTERS f = Some c \<and>
           (case covering bts cands (int k) of
              [] \<Rightarrow> map_of (fl ! k) f = None
            | [r] \<Rightarrow> (\<exists>v. cv c r = Inr v \<and> map_of (fl ! k) f = Some v) | _ \<Rightarrow> False)))"
    if "fill_fields cv bts fm ?z = Inr fl" for fl
  proof (intro conjI allI impI)
    note S = fill_fields_spec[OF that assms(3) z]
    show "length fl = det_len dets" using S by simp
    fix k f cands assume k: "k < det_len dets" and m: "map_of fm f = Some cands"
    show "\<exists>c. map_of RECORD_CONVERTERS f = Some c \<and>
           (case covering bts cands (int k) of
              [] \<Rightarrow> map_of (fl ! k) f = None
            | [r] \<Rightarrow> (\<exists>v. cv c r = Inr v \<and> map_of (fl ! k) f = Some v) | _ \<Rightarrow> False)"
      using S[THEN conjunct2, rule_format, of k f] k m by simp
  qed
  have one: "length (covering bts cands (int k)) \<le> 1" if "fill_fields cv bts fm ?z = Inr fl" "(f, cands) \<in> set fm" "k < det_len dets" for fl f cands k
  proof -
    have "map_of fm f = Some cands" using assms(3) that(2) by simp
    note sp = spec[OF that(1), THEN conjunct2, rule_format, OF that(3) this]
    show ?thesis using sp by (cases "covering bts cands (int k)" rule: list3_cases) auto
  qed
  show "(\<exists>recs. build_records cv cam frame dets bts fm = Inr recs) \<longleftrightarrow>
      (\<forall>(f, cands) \<in> set fm. \<forall>k < det_len dets. length (covering bts cands (int k)) \<le> 1)"
    using fill_fields_total[OF assms(1,2,3,4) z] one by (fastforce simp: build_records_def rbind_Inr_iff)
  assume "build_records cv cam frame dets bts fm = Inr recs"
  then obtain fl where fl: "fill_fields cv bts fm ?z = Inr fl"
    and recs: "recs = map (\<lambda>d. \<lparr>rec_det_id = det_id cam frame (det_index d), rec_class_name = det_class_name d,
                      rec_score = det_score d, rec_bbox = det_box d,
                      rec_fields = (if 0 \<le> det_index d \<and> det_index d < int (length fl)
                                    then fl ! nat (det_index d) else [])\<rparr>) (det_iter dets)"
    by (auto simp: build_records_def rbind_Inr_iff)
  note S = spec[OF fl]
  have rf: "rec_fields (recs ! k) = fl ! k" if "k < det_len dets" for k using S that by (simp add: recs det_iter_def)
  show "length recs = det_len dets \<and>
      (\<forall>k < det_len dets.
         rec_det_id (recs ! k) = det_id cam frame (int k) \<and> rec_class_name (recs ! k) = dt_labels dets ! k \<and>
         rec_score (recs ! k) = dt_scores dets ! k \<and> rec_bbox (recs ! k) = dt_boxes dets ! k \<and>
         (\<forall>f cands. map_of fm f = Some cands \<longrightarrow>
            (case covering bts cands (int k) of
               [] \<Rightarrow> map_of (rec_fields (recs ! k)) f = None
             | r # _ \<Rightarrow> \<exists>c v. map_of RECORD_CONVERTERS f = Some c \<and> cv c r = Inr v \<and>
                 map_of (rec_fields (recs ! k)) f = Some v)))"
  proof (intro conjI allI impI)
    show "length recs = det_len dets" by (simp add: recs det_iter_def)
    fix k assume k: "k < det_len dets"
    show "rec_det_id (recs ! k) = det_id cam frame (int k)" "rec_class_name (recs ! k) = dt_labels dets ! k"
      "rec_score (recs ! k) = dt_scores dets ! k" "rec_bbox (recs ! k) = dt_boxes dets ! k"
      using k by (simp_all add: recs det_iter_def)
    fix f cands assume "map_of fm f = Some cands"
    from S[THEN conjunct2, rule_format, OF k this]
    show "case covering bts cands (int k) of
               [] \<Rightarrow> map_of (rec_fields (recs ! k)) f = None
             | r # _ \<Rightarrow> \<exists>c v. map_of RECORD_CONVERTERS f = Some c \<and> cv c r = Inr v \<and>
                 map_of (rec_fields (recs ! k)) f = Some v"
      unfolding rf[OF k] by (cases "covering bts cands (int k)" rule: list3_cases) auto
  qed
qed


definition sample_detections :: detections where
  "sample_detections = \<lparr>dt_boxes = [(0, 0, 2, 2), (4, 4, 6, 8)], dt_scores = [3/4, 1/2], dt_class_ids = [8, 0],
     dt_labels = [''ship'', ''person''], discarded = 0\<rparr>"

definition sample_batches :: "(string, int object_batch) dict" where
  "sample_batches =
     [(''ship_embedding'', \<lparr>ob_name = ''ship_embedding'', ob_class = ''ship'', object_indices = [0], ob_data = [7]\<rparr>),
      (''person_embedding'', \<lparr>ob_name = ''person_embedding'', ob_class = ''person'', object_indices = [1], ob_data = [9]\<rparr>)]"



section \<open>Detection ids\<close>

declare nat_digits.simps [simp del]

definition digits_value :: "string \<Rightarrow> nat" where
  "digits_value s = foldl (\<lambda>n c. 10 * n + (of_char c - 48)) 0 s"

lemma nat_digits_value: "digits_value (nat_digits n) = n"
proof (induction n rule: nat_digits.induct)
  case (1 n)
  show ?case
  proof (cases "n < 10")
    case True
    then show ?thesis by (simp add: nat_digits.simps[of n] digits_value_def of_char_of)
  next
    case False
    have "(48 + n mod 10) mod 256 = 48 + n mod 10" by (rule mod_less) simp
    then show ?thesis using 1[OF False] False by (simp add: nat_digits.simps[of n] digits_value_def of_char_of)
  qed
qed

lemma nat_digits_chars: "c \<in> set (nat_digits n) \<Longrightarrow> 48 \<le> (of_char c :: nat) \<and> (of_char c :: nat) \<le> 57"
proof (induction n rule: nat_digits.induct)
  case (1 n)
  have "(48 + n mod 10) mod 256 = 48 + n mod 10" by (rule mod_less) simp
  then show ?case using 1 by (cases "n < 10") (auto simp: nat_digits.simps[of n] of_char_of)
qed

lemma int_str_inj: "int_str i = int_str j \<Longrightarrow> i = j"
proof -
  have nd: "nat_digits a = nat_digits b \<Longrightarrow> a = b" for a b using nat_digits_value by metis
  have ne: "CHR ''-'' # nat_digits a \<noteq> nat_digits b" for a b
  proof
    assume "CHR ''-'' # nat_digits a = nat_digits b"
    then have "CHR ''-'' \<in> set (nat_digits b)" by (metis list.set_intros(1))
    then show False using nat_digits_chars by fastforce
  qed
  assume "int_str i = int_str j"
  then show ?thesis using nd ne ne[symmetric] by (auto simp: int_str_def split: if_splits dest!: nd)
qed

lemma int_str_no_underscore: "CHR ''_'' \<notin> set (int_str i)"
proof -
  have "CHR ''_'' \<notin> set (nat_digits n)" for n using nat_digits_chars[of "CHR ''_''" n] by auto
  then show ?thesis by (simp add: int_str_def)
qed

lemma last_segment:
  assumes "xs @ c # a = ys @ c # b" and "c \<notin> set a" and "c \<notin> set b"
  shows "xs = ys \<and> a = b"
proof -
  have tw: "takeWhile (\<lambda>x. x \<noteq> c) (rev s @ c # r) = rev s" if "c \<notin> set s" for s r
    using that by (subst takeWhile_append2) auto
  have "rev a @ c # rev xs = rev b @ c # rev ys" using arg_cong[OF assms(1), of rev] by simp
  then have "rev a = rev b" using tw[OF assms(2), of "rev xs"] tw[OF assms(3), of "rev ys"] by simp
  then show ?thesis using assms(1) by simp
qed

text \<open>
  Detection ids are unique across the fleet.  Two detections with the same \<^verbatim>\<open>det_id\<close> are the same row of the
  same frame of the same camera, whatever characters (underscores and digits included) a camera id has.
\<close>

theorem det_id_unique:
  "det_id cam frame i = det_id cam' frame' i' \<longleftrightarrow> cam = cam' \<and> frame = frame' \<and> i = i'"
proof
  assume "det_id cam frame i = det_id cam' frame' i'"
  then have "(cam @ ''_'' @ int_str frame) @ CHR ''_'' # int_str i = (cam' @ ''_'' @ int_str frame') @ CHR ''_'' # int_str i'"
    by (simp add: det_id_def)
  from last_segment[OF this int_str_no_underscore int_str_no_underscore]
  have "cam @ CHR ''_'' # int_str frame = cam' @ CHR ''_'' # int_str frame'" "int_str i = int_str i'" by simp_all
  with last_segment[OF this(1) int_str_no_underscore int_str_no_underscore]
  show "cam = cam' \<and> frame = frame' \<and> i = i'" using int_str_inj by blast
qed simp

end
