(* ===== verification/Reassembly.thy ===== *)
theory Reassembly
  imports Frame_State "HOL-Library.Product_Lexorder"
begin

text \<open>
  \<^verbatim>\<open>src/shipinfer/pipeline/reassembly\<close>: joining a frame's stage results back together.

  A method of the collector is one step under its lock; what it publishes afterwards, outside the lock, are separate
  steps: \<^verbatim>\<open>co_sys\<close> keeps the results that left the buffer and are still to be published by the thread that
  took them out, and the results handed to \<^verbatim>\<open>emit\<close>.  Each clock read is an argument.  The set of
  expected stages is a list without duplicates (the code only tests membership and sorts it).  The owner of a frame
  changes its state while the frame waits: that is the step \<^verbatim>\<open>Touch\<close>.  Logging is not modelled.
\<close>

type_synonym pending_key = "string \<times> int"

datatype reason = COMPLETE | INCOMPLETE | TIMEOUT | SHUTDOWN | EVICTED

record 'r frame_result =
  fr_state :: "'r frame_state"
  fr_delivered :: "string list"
  fr_missing :: "string list"
  fr_reason :: reason
  fr_waited_us :: int
  fr_inputs :: "'r captured_inputs option"

definition fr_key :: "'r frame_result \<Rightarrow> pending_key" where
  "fr_key r = fs_key (fr_state r)"

definition is_partial :: "'r frame_result \<Rightarrow> bool" where
  "is_partial r \<longleftrightarrow> fr_missing r \<noteq> []"

section \<open>A pending frame\<close>

record 'r pending_frame =
  pf_state :: "'r frame_state"
  opened_ns :: int
  pf_deadline_ns :: int
  pf_expected :: "string list"
  pf_delivered :: "string list"

definition mk_pending :: "'r frame_state \<Rightarrow> int \<Rightarrow> int \<Rightarrow> 'r pending_frame" where
  "mk_pending st opened deadline =
     \<lparr>pf_state = st, opened_ns = opened, pf_deadline_ns = deadline, pf_expected = [], pf_delivered = []\<rparr>"

definition pf_key :: "'r pending_frame \<Rightarrow> pending_key" where
  "pf_key f = fs_key (pf_state f)"

definition add_new :: "'a \<Rightarrow> 'a list \<Rightarrow> 'a list" where
  "add_new x xs = (if x \<in> set xs then xs else xs @ [x])"

definition pf_expect :: "string list \<Rightarrow> 'r pending_frame \<Rightarrow> 'r pending_frame" where
  "pf_expect stages f = f\<lparr>pf_expected := fold add_new stages (pf_expected f)\<rparr>"

definition pf_is_complete :: "'r pending_frame \<Rightarrow> bool" where
  "pf_is_complete f \<longleftrightarrow> list_all (\<lambda>s. s \<in> set (pf_delivered f)) (pf_expected f)"

definition pf_deliver :: "string \<Rightarrow> 'r pending_frame \<Rightarrow> 'r pending_frame \<times> bool" where
  "pf_deliver stage f =
     (let f' = f\<lparr>pf_expected := add_new stage (pf_expected f), pf_delivered := add_new stage (pf_delivered f)\<rparr>
      in (f', pf_is_complete f'))"

definition pf_missing :: "'r pending_frame \<Rightarrow> string list" where
  "pf_missing f = sort (filter (\<lambda>s. s \<notin> set (pf_delivered f)) (pf_expected f))"

definition pf_is_expired :: "int \<Rightarrow> 'r pending_frame \<Rightarrow> bool" where
  "pf_is_expired now f \<longleftrightarrow> now \<ge> pf_deadline_ns f"

definition pf_result :: "reason \<Rightarrow> int \<Rightarrow> 'r pending_frame \<Rightarrow> 'r frame_result" where
  "pf_result why now f =
     \<lparr>fr_state = pf_state f, fr_delivered = pf_delivered f, fr_missing = pf_missing f, fr_reason = why,
      fr_waited_us = max 0 ((now - opened_ns f) div 1000), fr_inputs = Some (emission_inputs (pf_state f))\<rparr>"

section \<open>The collector\<close>

text \<open>The metric handles the collector writes; \<^verbatim>\<open>co_metrics\<close> is \<^verbatim>\<open>None\<close> when it was given none.\<close>

record pipeline_metrics =
  frames_evicted :: "string counter"
  late_arrivals :: "(string \<times> string) counter"
  frames_emitted :: "(string \<times> reason) counter"
  frames_partial :: "(string \<times> reason) counter"
  pending_frames :: "(string, int) dict"

definition no_metrics :: pipeline_metrics where
  "no_metrics = \<lparr>frames_evicted = [], late_arrivals = [], frames_emitted = [], frames_partial = [], pending_frames = []\<rparr>"

record 'r collector =
  co_capacity :: int
  co_timeout_ns :: int
  co_pending :: "(pending_key, 'r pending_frame) dict"
  by_camera :: "(string, pending_key list) dict"
  gauged :: "string list"
  co_metrics :: "pipeline_metrics option"
  co_opened :: int
  co_reported :: int
  co_complete :: int
  co_partial :: int
  co_evicted :: int
  co_late :: int
  co_rejected :: int
  co_duplicates :: int

text \<open>\<^verbatim>\<open>FrameCollector.__init__\<close>; the settings validate \<^verbatim>\<open>capacity\<close> and \<^verbatim>\<open>timeout_ms\<close> to be at least 1.\<close>

definition co_init :: "int \<Rightarrow> int \<Rightarrow> bool \<Rightarrow> 'r collector" where
  "co_init cap timeout_ms metrics =
     \<lparr>co_capacity = cap, co_timeout_ns = timeout_ms * 1000000, co_pending = [], by_camera = [], gauged = [],
      co_metrics = (if metrics then Some no_metrics else None), co_opened = 0, co_reported = 0, co_complete = 0,
      co_partial = 0, co_evicted = 0, co_late = 0, co_rejected = 0, co_duplicates = 0\<rparr>"

definition on_metrics :: "(pipeline_metrics \<Rightarrow> pipeline_metrics) \<Rightarrow> 'r collector \<Rightarrow> 'r collector" where
  "on_metrics f c = c\<lparr>co_metrics := map_option f (co_metrics c)\<rparr>"

definition camera_counts :: "'r collector \<Rightarrow> (string, int) dict" where
  "camera_counts c = map (\<lambda>(cam, keys). (cam, int (length keys))) (by_camera c)"

definition oldest :: "string \<Rightarrow> 'r collector \<Rightarrow> pending_key option" where
  "oldest cam c = (case map_of (by_camera c) cam of None \<Rightarrow> None | Some [] \<Rightarrow> None | Some (k # _) \<Rightarrow> Some k)"

definition oldest_overall :: "'r collector \<Rightarrow> pending_key option" where
  "oldest_overall c = (case co_pending c of [] \<Rightarrow> None | p # _ \<Rightarrow> Some (fst p))"

text \<open>The two eviction policies.\<close>

definition greediest_choose :: "'r collector \<Rightarrow> pending_key option" where
  "greediest_choose c =
     (case camera_counts c of
        [] \<Rightarrow> None
      | p # ps \<Rightarrow> oldest (fst (py_max (\<lambda>(cam, n). (n, cam)) p ps)) c)"

definition oldest_choose :: "'r collector \<Rightarrow> pending_key option" where
  "oldest_choose c = oldest_overall c"

definition forget_camera :: "pending_key \<Rightarrow> 'r collector \<Rightarrow> 'r collector" where
  "forget_camera key c =
     (case map_of (by_camera c) (fst key) of
        None \<Rightarrow> c
      | Some keys \<Rightarrow>
          (let keys' = filter (\<lambda>k. k \<noteq> key) keys in
           c\<lparr>by_camera := (if keys' = [] then AList.delete (fst key) (by_camera c)
                           else AList.update (fst key) keys' (by_camera c))\<rparr>))"

definition co_remove :: "pending_key \<Rightarrow> 'r collector \<Rightarrow> 'r collector \<times> 'r pending_frame option" where
  "co_remove key c =
     (case map_of (co_pending c) key of
        None \<Rightarrow> (c, None)
      | Some f \<Rightarrow> (forget_camera key (c\<lparr>co_pending := AList.delete key (co_pending c)\<rparr>), Some f))"

type_synonym 'r eviction = "'r collector \<Rightarrow> pending_key option"

definition evict_locked :: "'r eviction \<Rightarrow> int \<Rightarrow> 'r collector \<Rightarrow> 'r collector \<times> 'r frame_result option" where
  "evict_locked pick now c =
     (case pick c of
        None \<Rightarrow> (c, None)
      | Some key \<Rightarrow>
          (case co_remove key c of
             (c', None) \<Rightarrow> (c', None)
           | (c', Some f) \<Rightarrow> (c'\<lparr>co_evicted := co_evicted c' + 1\<rparr>, Some (pf_result EVICTED now f))))"

lemma forget_camera_pending [simp]: "co_pending (forget_camera key c) = co_pending c"
  by (simp add: forget_camera_def Let_def split: option.splits)

lemma evict_locked_shrinks:
  "evict_locked pick now c = (c', Some r) \<Longrightarrow> length (co_pending c') < length (co_pending c)"
  by (auto simp: evict_locked_def co_remove_def AList.delete_eq split: option.splits prod.splits
      intro!: length_filter_less dest!: map_of_SomeD)

text \<open>
  The loop of \<^verbatim>\<open>open\<close>, whose result is the last victim or, when a slot cannot be made, the refusal; \<^verbatim>\<open>clk i\<close> is
  the clock at its i-th eviction.
\<close>

function evict_loop ::
  "'r eviction \<Rightarrow> (nat \<Rightarrow> int) \<Rightarrow> nat \<Rightarrow> 'r frame_result option \<Rightarrow> 'r collector \<Rightarrow>
     'r collector \<times> 'r frame_result option option" where
  "evict_loop pick clk i victim c =
     (if int (length (co_pending c)) \<ge> co_capacity c then
        (case evict_locked pick (clk i) c of
           (c', None) \<Rightarrow> (c'\<lparr>co_rejected := co_rejected c' + 1\<rparr>, None)
         | (c', Some r) \<Rightarrow> evict_loop pick clk (Suc i) (Some r) c')
      else (c, Some victim))"
  by pat_completeness auto
termination
  by (relation "measure (\<lambda>(pick, clk, i, victim, c). length (co_pending c))")
    (auto dest: evict_locked_shrinks[OF sym])

declare evict_loop.simps [simp del]

definition co_open ::
  "'r eviction \<Rightarrow> int \<Rightarrow> (nat \<Rightarrow> int) \<Rightarrow> 'r frame_state \<Rightarrow> string list \<Rightarrow> 'r collector \<Rightarrow>
     'r collector \<times> bool \<times> 'r frame_result option" where
  "co_open pick now clk st expected c =
     (let deadline = now + co_timeout_ns c;
          deadline = (if fs_deadline_ns st \<noteq> 0 then min deadline (fs_deadline_ns st) else deadline);
          f = pf_expect expected (mk_pending st now deadline)
      in if map_of (co_pending c) (pf_key f) \<noteq> None
         then (c\<lparr>co_duplicates := co_duplicates c + 1\<rparr>, False, None)
         else case evict_loop pick clk 0 None c of
                (c', None) \<Rightarrow> (c', False, None)
              | (c', Some victim) \<Rightarrow>
                  (let cam = camera_id (fs_ctx st);
                       keys = (case map_of (by_camera c') cam of None \<Rightarrow> [] | Some ks \<Rightarrow> ks)
                   in (c'\<lparr>co_pending := AList.update (pf_key f) f (co_pending c'),
                          by_camera := AList.update cam (add_new (pf_key f) keys) (by_camera c'),
                          co_opened := co_opened c' + 1\<rparr>, True, victim)))"

definition co_expect :: "pending_key \<Rightarrow> string list \<Rightarrow> 'r collector \<Rightarrow> 'r collector" where
  "co_expect key stages c =
     (if stages = [] then c
      else case map_of (co_pending c) key of
             None \<Rightarrow> c
           | Some f \<Rightarrow> c\<lparr>co_pending := AList.update key (pf_expect stages f) (co_pending c)\<rparr>)"

definition co_deliver :: "pending_key \<Rightarrow> string \<Rightarrow> 'r collector \<Rightarrow> 'r collector" where
  "co_deliver key stage c =
     (case map_of (co_pending c) key of
        None \<Rightarrow> on_metrics (\<lambda>m. m\<lparr>late_arrivals := counter_inc (fst key, stage) (late_arrivals m)\<rparr>)
                  (c\<lparr>co_late := co_late c + 1\<rparr>)
      | Some f \<Rightarrow> c\<lparr>co_pending := AList.update key (fst (pf_deliver stage f)) (co_pending c)\<rparr>)"

definition co_seal :: "pending_key \<Rightarrow> int \<Rightarrow> 'r collector \<Rightarrow> 'r collector \<times> 'r frame_result option" where
  "co_seal key now c =
     (case map_of (co_pending c) key of
        None \<Rightarrow> (c, None)
      | Some f \<Rightarrow>
          (forget_camera key (c\<lparr>co_pending := AList.delete key (co_pending c)\<rparr>),
           Some (pf_result (if pf_is_complete f then COMPLETE else INCOMPLETE) now f)))"

definition refresh_gauge :: "'r collector \<Rightarrow> 'r collector" where
  "refresh_gauge c =
     (if co_metrics c = None then c
      else let counts = camera_counts c;
               idle = filter (\<lambda>cam. cam \<notin> fst ` set counts) (gauged c)
           in on_metrics (\<lambda>m. m\<lparr>pending_frames :=
                fold (\<lambda>cam g. AList.update cam 0 g) idle
                  (fold (\<lambda>(cam, n) g. AList.update cam n g) counts (pending_frames m))\<rparr>)
                (c\<lparr>gauged := map fst counts\<rparr>))"

fun remove_all :: "pending_key list \<Rightarrow> 'r collector \<Rightarrow> 'r collector \<times> 'r pending_frame list" where
  "remove_all [] c = (c, [])"
| "remove_all (k # ks) c =
     (case co_remove k c of (c1, f) \<Rightarrow> case remove_all ks c1 of (c2, fs) \<Rightarrow>
        (c2, (case f of None \<Rightarrow> fs | Some f \<Rightarrow> f # fs)))"

definition co_sweep :: "int \<Rightarrow> 'r collector \<Rightarrow> 'r collector \<times> 'r frame_result list" where
  "co_sweep now c =
     (let expired = map fst (filter (\<lambda>(k, f). pf_is_expired now f) (co_pending c)) in
      case remove_all expired c of (c', fs) \<Rightarrow> (refresh_gauge c', map (pf_result TIMEOUT now) fs))"

definition co_drain :: "int \<Rightarrow> 'r collector \<Rightarrow> 'r collector \<times> 'r frame_result list" where
  "co_drain now c =
     (refresh_gauge (c\<lparr>co_pending := [], by_camera := []\<rparr>), map (\<lambda>(k, f). pf_result SHUTDOWN now f) (co_pending c))"

definition co_publish :: "'r frame_result \<Rightarrow> 'r collector \<Rightarrow> 'r collector" where
  "co_publish r c =
     (let cam = camera_id (fs_ctx (fr_state r));
          c1 = c\<lparr>co_reported := co_reported c + 1\<rparr>;
          c2 = (if is_partial r then c1\<lparr>co_partial := co_partial c1 + 1\<rparr> else c1\<lparr>co_complete := co_complete c1 + 1\<rparr>)
      in if fr_reason r = EVICTED then c2
         else on_metrics (\<lambda>m.
                let m1 = m\<lparr>frames_emitted := counter_inc (cam, fr_reason r) (frames_emitted m)\<rparr> in
                if is_partial r then m1\<lparr>frames_partial := counter_inc (cam, fr_reason r) (frames_partial m1)\<rparr> else m1) c2)"

definition report_eviction :: "'r frame_result \<Rightarrow> 'r collector \<Rightarrow> 'r collector" where
  "report_eviction r c =
     co_publish r (on_metrics (\<lambda>m. m\<lparr>frames_evicted := counter_inc (camera_id (fs_ctx (fr_state r))) (frames_evicted m)\<rparr>) c)"

section \<open>The collector as a transition system\<close>

record 'r co_sys =
  sys_c :: "'r collector"
  inflight :: "'r frame_result list"
  emitted :: "'r frame_result list"
  admitted :: "pending_key list"

datatype 'r co_op =
    Open int "nat \<Rightarrow> int" "'r frame_state" "string list"
  | Expect pending_key "string list"
  | Deliver pending_key string
  | Seal pending_key int
  | Sweep int
  | Drain int
  | Touch pending_key "'r frame_state \<Rightarrow> 'r frame_state"
  | Publish nat

definition co_touch :: "pending_key \<Rightarrow> ('r frame_state \<Rightarrow> 'r frame_state) \<Rightarrow> 'r collector \<Rightarrow> 'r collector option" where
  "co_touch key g c =
     (case map_of (co_pending c) key of
        None \<Rightarrow> Some c
      | Some f \<Rightarrow>
          if fs_ctx (g (pf_state f)) \<noteq> fs_ctx (pf_state f) then None
          else Some (c\<lparr>co_pending := AList.update key (f\<lparr>pf_state := g (pf_state f)\<rparr>) (co_pending c)\<rparr>))"

definition keep :: "'r co_sys \<Rightarrow> 'r collector \<times> 'r frame_result list \<Rightarrow> 'r co_sys" where
  "keep s p = s\<lparr>sys_c := fst p, inflight := inflight s @ snd p\<rparr>"

fun co_step :: "'r eviction \<Rightarrow> 'r co_sys \<Rightarrow> 'r co_op \<Rightarrow> 'r co_sys option" where
  "co_step pick s (Open now clk st expected) =
     (case co_open pick now clk st expected (sys_c s) of
        (c, ok, victim) \<Rightarrow>
          Some ((keep s (c, case victim of None \<Rightarrow> [] | Some r \<Rightarrow> [r]))
                  \<lparr>admitted := (if ok then admitted s @ [fs_key st] else admitted s)\<rparr>))"
| "co_step pick s (Expect key stages) = Some (keep s (co_expect key stages (sys_c s), []))"
| "co_step pick s (Deliver key stage) = Some (keep s (co_deliver key stage (sys_c s), []))"
| "co_step pick s (Seal key now) =
     (case co_seal key now (sys_c s) of (c, r) \<Rightarrow> Some (keep s (c, case r of None \<Rightarrow> [] | Some r \<Rightarrow> [r])))"
| "co_step pick s (Sweep now) = Some (keep s (co_sweep now (sys_c s)))"
| "co_step pick s (Drain now) = Some (keep s (co_drain now (sys_c s)))"
| "co_step pick s (Touch key g) = map_option (\<lambda>c. keep s (c, [])) (co_touch key g (sys_c s))"
| "co_step pick s (Publish i) =
     (if i < length (inflight s) then
        (let r = inflight s ! i in
         Some (s\<lparr>sys_c := (if fr_reason r = EVICTED then report_eviction r (sys_c s) else co_publish r (sys_c s)),
                 inflight := take i (inflight s) @ drop (Suc i) (inflight s),
                 emitted := emitted s @ [r]\<rparr>))
      else None)"

fun co_run :: "'r eviction \<Rightarrow> 'r co_sys \<Rightarrow> 'r co_op list \<Rightarrow> 'r co_sys option" where
  "co_run pick s [] = Some s"
| "co_run pick s (op # ops) = (case co_step pick s op of None \<Rightarrow> None | Some s' \<Rightarrow> co_run pick s' ops)"

definition sys_init :: "int \<Rightarrow> int \<Rightarrow> bool \<Rightarrow> 'r co_sys" where
  "sys_init cap timeout_ms metrics =
     \<lparr>sys_c = co_init cap timeout_ms metrics, inflight = [], emitted = [], admitted = []\<rparr>"

section \<open>The camera index mirrors the buffer\<close>

definition cam_keys :: "string \<Rightarrow> pending_key list \<Rightarrow> pending_key list" where
  "cam_keys cam ks = filter (\<lambda>k. fst k = cam) ks"

definition index_ok :: "pending_key list \<Rightarrow> (string, pending_key list) dict \<Rightarrow> bool" where
  "index_ok ks by \<longleftrightarrow> distinct ks \<and> dict_wf by \<and>
     (\<forall>cam. map_of by cam = (if cam_keys cam ks = [] then None else Some (cam_keys cam ks)))"

definition col_ok :: "'r collector \<Rightarrow> bool" where
  "col_ok c \<longleftrightarrow> index_ok (map fst (co_pending c)) (by_camera c) \<and> (\<forall>(k, f) \<in> set (co_pending c). pf_key f = k) \<and>
     int (length (co_pending c)) \<le> co_capacity c \<and> 1 \<le> co_capacity c"

lemma index_remove:
  assumes "index_ok (map fst (co_pending c)) (by_camera c)"
  shows "index_ok (map fst (AList.delete key (co_pending c)))
    (by_camera (forget_camera key (c\<lparr>co_pending := AList.delete key (co_pending c)\<rparr>)))"
proof -
  let ?ks = "map fst (co_pending c)" and ?by = "by_camera c"
  let ?ks' = "filter (\<lambda>k. k \<noteq> key) ?ks"
  have m: "map_of ?by cam = (if cam_keys cam ?ks = [] then None else Some (cam_keys cam ?ks))" for cam
    using assms by (simp add: index_ok_def)
  have other: "cam_keys cam ?ks' = cam_keys cam ?ks" if "cam \<noteq> fst key" for cam
    using that unfolding cam_keys_def filter_filter by (intro filter_cong) auto
  have same: "cam_keys (fst key) ?ks' = filter (\<lambda>k. k \<noteq> key) (cam_keys (fst key) ?ks)"
    by (simp add: cam_keys_def conj_commute)
  have e: "?ks' = ?ks" if "cam_keys (fst key) ?ks = []"
    using that by (auto simp: cam_keys_def filter_empty_conv filter_id_conv)
  show ?thesis
    using assms m other same e
    by (auto simp: index_ok_def forget_camera_def Let_def dict_keys_delete dict_simps split: option.splits)
qed

lemma index_insert:
  assumes "index_ok ks by" and "k \<notin> set ks"
  shows "index_ok (ks @ [k])
    (AList.update (fst k) (add_new k (case map_of by (fst k) of None \<Rightarrow> [] | Some ks \<Rightarrow> ks)) by)"
proof -
  have "k \<notin> set (cam_keys (fst k) ks)" using assms(2) by (simp add: cam_keys_def)
  moreover have "(case map_of by (fst k) of None \<Rightarrow> [] | Some ks \<Rightarrow> ks) = cam_keys (fst k) ks"
    using assms(1) by (simp add: index_ok_def)
  ultimately show ?thesis using assms
    by (auto simp: index_ok_def dict_simps add_new_def) (auto simp: cam_keys_def)
qed

lemma col_ok_remove:
  assumes "col_ok c" and "map_of (co_pending c) key = Some f"
  shows "col_ok (forget_camera key (c\<lparr>co_pending := AList.delete key (co_pending c)\<rparr>))"
    and "pf_key f = key"
    and "mset (map fst (co_pending c)) = add_mset key (mset (map fst (AList.delete key (co_pending c))))"
proof -
  have cap: "co_capacity (forget_camera key (c\<lparr>co_pending := p\<rparr>)) = co_capacity c" for p
    by (simp add: forget_camera_def Let_def split: option.splits)
  have "length (AList.delete key (co_pending c)) \<le> length (co_pending c)" by (rule length_delete_le)
  then show "col_ok (forget_camera key (c\<lparr>co_pending := AList.delete key (co_pending c)\<rparr>))"
    using assms(1) index_remove[of c key] by (auto simp: col_ok_def cap dict_mem_delete)
  show "pf_key f = key" using assms map_of_SomeD[OF assms(2)] by (auto simp: col_ok_def)
  have d: "distinct (map fst (co_pending c))" using assms(1) by (simp add: col_ok_def index_ok_def)
  have k: "key \<in> set (map fst (co_pending c))" using map_of_SomeD[OF assms(2)] by force
  have "mset (filter (\<lambda>k. k \<noteq> key) ks) + {#key#} = mset ks" if "distinct ks" "key \<in> set ks" for ks :: "pending_key list"
    using that
  proof (induction ks)
    case (Cons a ks)
    have "filter (\<lambda>k. k \<noteq> key) ks = ks" if "key \<notin> set ks" using that by (auto intro!: filter_True)
    then show ?case using Cons by (cases "a = key") (auto simp flip: mset_filter)
  qed simp
  from this[OF d k] show "mset (map fst (co_pending c)) = add_mset key (mset (map fst (AList.delete key (co_pending c))))"
    by (simp add: dict_keys_delete)
qed

text \<open>Changing what is stored under a key that is there.\<close>

lemma col_ok_replace:
  assumes "col_ok c" and "map_of (co_pending c) key = Some f" and "pf_key f' = pf_key f"
  shows "col_ok (c\<lparr>co_pending := AList.update key f' (co_pending c)\<rparr>)"
    and "map fst (AList.update key f' (co_pending c)) = map fst (co_pending c)"
proof -
  have wf: "dict_wf (co_pending c)" using assms(1) by (simp add: col_ok_def index_ok_def)
  show k: "map fst (AList.update key f' (co_pending c)) = map fst (co_pending c)"
    using map_of_SomeD[OF assms(2)] by (force simp: dict_keys_update)
  then have "length (AList.update key f' (co_pending c)) = length (co_pending c)" by (metis length_map)
  moreover have "pf_key f = key" using assms(1) map_of_SomeD[OF assms(2)] by (auto simp: col_ok_def)
  ultimately show "col_ok (c\<lparr>co_pending := AList.update key f' (co_pending c)\<rparr>)"
    using assms k by (auto simp: col_ok_def dict_mem_update[OF wf] split: if_splits)
qed


section \<open>What the collector relies on in its eviction policy\<close>

locale eviction_policy =
  fixes pick :: "'r eviction"
  assumes pick_pending: "col_ok c \<Longrightarrow> co_pending c \<noteq> [] \<Longrightarrow> \<exists>k f. pick c = Some k \<and> map_of (co_pending c) k = Some f"
begin

lemma evict_loop_room:
  "int (length (co_pending c)) < co_capacity c \<Longrightarrow> evict_loop pick clk i v c = (c, Some v)"
  by (simp add: evict_loop.simps)

lemma evict_loop_full:
  assumes "col_ok c" and "int (length (co_pending c)) = co_capacity c"
  obtains k f where "pick c = Some k" "map_of (co_pending c) k = Some f"
    "evict_loop pick clk i v c =
       ((forget_camera k (c\<lparr>co_pending := AList.delete k (co_pending c)\<rparr>))\<lparr>co_evicted := co_evicted c + 1\<rparr>,
        Some (Some (pf_result EVICTED (clk i) f)))"
proof -
  have "co_pending c \<noteq> []" using assms by (auto simp: col_ok_def)
  then obtain k f where k: "pick c = Some k" "map_of (co_pending c) k = Some f"
    using pick_pending[OF assms(1)] by blast
  let ?c = "forget_camera k (c\<lparr>co_pending := AList.delete k (co_pending c)\<rparr>)"
  have ev: "co_evicted ?c = co_evicted c" "co_capacity ?c = co_capacity c"
    by (simp_all add: forget_camera_def Let_def split: option.splits)
  have e: "evict_locked pick (clk i) c = (?c\<lparr>co_evicted := co_evicted c + 1\<rparr>, Some (pf_result EVICTED (clk i) f))"
    using k ev by (simp add: evict_locked_def co_remove_def)
  have "length (AList.delete k (co_pending c)) < length (co_pending c)"
    using evict_locked_shrinks[OF e] by simp
  then have room: "int (length (co_pending (?c\<lparr>co_evicted := co_evicted c + 1\<rparr>))) < co_capacity (?c\<lparr>co_evicted := co_evicted c + 1\<rparr>)"
    using assms(2) ev by simp
  show ?thesis
    by (rule that[OF k]) (simp add: evict_loop.simps[of _ _ i] e assms(2) evict_loop_room[OF room])
qed

end

lemma greediest_camera:
  assumes "col_ok c" and "co_pending c \<noteq> []"
  obtains cam where "cam_keys cam (map fst (co_pending c)) \<noteq> []"
    "greediest_choose c = Some (hd (cam_keys cam (map fst (co_pending c))))"
    "\<forall>cam'. length (cam_keys cam' (map fst (co_pending c))) \<le> length (cam_keys cam (map fst (co_pending c)))"
proof -
  let ?ks = "map fst (co_pending c)"
  have m: "map_of (by_camera c) cam = (if cam_keys cam ?ks = [] then None else Some (cam_keys cam ?ks))" for cam
    using assms(1) by (simp add: col_ok_def index_ok_def)
  have wf: "dict_wf (by_camera c)" using assms(1) by (simp add: col_ok_def index_ok_def)
  have "hd ?ks \<in> set (cam_keys (fst (hd ?ks)) ?ks)" using assms(2) hd_in_set[of ?ks] by (simp add: cam_keys_def)
  then have "map_of (by_camera c) (fst (hd ?ks)) \<noteq> None" using m[of "fst (hd ?ks)"] by auto
  then have "by_camera c \<noteq> []" by auto
  then obtain p ps where pp: "camera_counts c = p # ps" by (cases "by_camera c") (auto simp: camera_counts_def)
  let ?f = "\<lambda>(cam, n). (n :: int, cam :: string)"
  let ?p = "py_max ?f p ps"
  have "?p \<in> set (camera_counts c)" using py_max_in[of ?f p ps] pp by simp
  then obtain cam keys where cam: "(cam, keys) \<in> set (by_camera c)" "?p = (cam, int (length keys))"
    by (auto simp: camera_counts_def)
  have "map_of (by_camera c) cam = Some keys" using cam(1) wf by simp
  then have keys: "keys = cam_keys cam ?ks" "keys \<noteq> []" using m[of cam] by (auto split: if_splits)
  have "length (cam_keys cam' ?ks) \<le> length keys" for cam'
  proof (cases "cam_keys cam' ?ks = []")
    case False
    then have "map_of (by_camera c) cam' = Some (cam_keys cam' ?ks)" using m[of cam'] by simp
    then have "(cam', int (length (cam_keys cam' ?ks))) \<in> set (camera_counts c)"
      by (force simp: camera_counts_def dest: map_of_SomeD)
    then have "?f (cam', int (length (cam_keys cam' ?ks))) \<le> ?f ?p" using py_max_ge[of "(cam', int (length (cam_keys cam' ?ks)))" p ps ?f] pp by simp
    then show ?thesis using cam(2) by auto
  qed simp
  moreover have "greediest_choose c = Some (hd keys)"
  proof -
    obtain a rest where ar: "keys = a # rest" using keys(2) by (cases keys) auto
    then have "map_of (by_camera c) cam = Some (a # rest)" using \<open>map_of (by_camera c) cam = Some keys\<close> by simp
    then show ?thesis by (simp add: greediest_choose_def oldest_def pp cam(2) ar)
  qed
  ultimately show ?thesis using that keys by simp
qed

interpretation greediest: eviction_policy greediest_choose
proof
  fix c :: "'r collector" assume c: "col_ok c" "co_pending c \<noteq> []"
  obtain cam where cam: "cam_keys cam (map fst (co_pending c)) \<noteq> []"
    "greediest_choose c = Some (hd (cam_keys cam (map fst (co_pending c))))"
    by (rule greediest_camera[OF c])
  have "hd (cam_keys cam (map fst (co_pending c))) \<in> set (map fst (co_pending c))"
    using hd_in_set[OF cam(1)] by (auto simp: cam_keys_def)
  then show "\<exists>k f. greediest_choose c = Some k \<and> map_of (co_pending c) k = Some f"
    using cam(2) by (metis (no_types, lifting) list.set_map map_of_eq_None_iff option.exhaust)
qed

interpretation inherited: eviction_policy oldest_choose
  by unfold_locales (auto simp: oldest_choose_def oldest_overall_def split: list.splits)


section \<open>Every step keeps the books\<close>

definition result_ok :: "'r frame_result \<Rightarrow> bool" where
  "result_ok r \<longleftrightarrow> (fr_reason r = COMPLETE \<longrightarrow> \<not> is_partial r) \<and> (fr_reason r = INCOMPLETE \<longrightarrow> is_partial r)"

definition sys_inv :: "'r co_sys \<Rightarrow> bool" where
  "sys_inv s \<longleftrightarrow> col_ok (sys_c s) \<and>
     mset (admitted s) = mset (map fst (co_pending (sys_c s))) + mset (map fr_key (inflight s)) + mset (map fr_key (emitted s)) \<and>
     co_opened (sys_c s) = int (length (admitted s)) \<and>
     co_reported (sys_c s) = int (length (emitted s)) \<and>
     co_complete (sys_c s) + co_partial (sys_c s) = int (length (emitted s)) \<and>
     co_evicted (sys_c s) = int (length (filter (\<lambda>r. fr_reason r = EVICTED) (inflight s @ emitted s))) \<and>
     list_all result_ok (inflight s @ emitted s)"

lemma missing_iff: "pf_missing f = [] \<longleftrightarrow> pf_is_complete f"
proof -
  have "sort xs = [] \<longleftrightarrow> xs = []" for xs :: "string list" by (metis length_0_conv length_sort)
  then show ?thesis by (auto simp: pf_missing_def pf_is_complete_def list_all_iff filter_empty_conv)
qed

lemma fr_key_result [simp]: "fr_key (pf_result why now f) = pf_key f"
  by (simp add: fr_key_def pf_result_def pf_key_def)

lemma result_simps [simp]:
  "fr_reason (pf_result why now f) = why" "is_partial (pf_result why now f) \<longleftrightarrow> \<not> pf_is_complete f"
  by (simp_all add: pf_result_def is_partial_def missing_iff)

lemma pf_key_simps [simp]:
  "pf_key (pf_expect stages f) = pf_key f" "pf_key (fst (pf_deliver stage f)) = pf_key f"
  "pf_key (mk_pending st t d) = fs_key st"
  by (simp_all add: pf_key_def pf_expect_def pf_deliver_def mk_pending_def Let_def)

lemma on_metrics_simps [simp]:
  "co_pending (on_metrics g c) = co_pending c" "by_camera (on_metrics g c) = by_camera c"
  "co_capacity (on_metrics g c) = co_capacity c" "co_opened (on_metrics g c) = co_opened c"
  "co_reported (on_metrics g c) = co_reported c" "co_complete (on_metrics g c) = co_complete c"
  "co_partial (on_metrics g c) = co_partial c" "co_evicted (on_metrics g c) = co_evicted c"
  "col_ok (on_metrics g c) = col_ok c" "gauged (on_metrics g c) = gauged c"
  "co_metrics (on_metrics g c) = map_option g (co_metrics c)" "camera_counts (on_metrics g c) = camera_counts c"
  by (simp_all add: on_metrics_def col_ok_def camera_counts_def)

lemma forget_camera_simps [simp]:
  "co_capacity (forget_camera k c) = co_capacity c" "co_opened (forget_camera k c) = co_opened c"
  "co_reported (forget_camera k c) = co_reported c" "co_complete (forget_camera k c) = co_complete c"
  "co_partial (forget_camera k c) = co_partial c" "co_evicted (forget_camera k c) = co_evicted c"
  "co_metrics (forget_camera k c) = co_metrics c" "gauged (forget_camera k c) = gauged c"
  by (simp_all add: forget_camera_def Let_def split: option.splits)

lemma refresh_gauge_simps [simp]:
  "co_pending (refresh_gauge c) = co_pending c" "by_camera (refresh_gauge c) = by_camera c"
  "co_opened (refresh_gauge c) = co_opened c" "co_reported (refresh_gauge c) = co_reported c"
  "co_complete (refresh_gauge c) = co_complete c" "co_partial (refresh_gauge c) = co_partial c"
  "co_evicted (refresh_gauge c) = co_evicted c" "co_capacity (refresh_gauge c) = co_capacity c"
  "col_ok (refresh_gauge c) = col_ok c"
  by (simp_all add: refresh_gauge_def Let_def col_ok_def)

lemma col_ok_counters [simp]:
  "col_ok (c\<lparr>co_evicted := n\<rparr>) = col_ok c" "col_ok (c\<lparr>co_rejected := n\<rparr>) = col_ok c"
  "col_ok (c\<lparr>co_duplicates := n\<rparr>) = col_ok c" "col_ok (c\<lparr>co_late := n\<rparr>) = col_ok c"
  "col_ok (c\<lparr>co_reported := n\<rparr>) = col_ok c" "col_ok (c\<lparr>co_complete := n\<rparr>) = col_ok c"
  "col_ok (c\<lparr>co_partial := n\<rparr>) = col_ok c" "col_ok (c\<lparr>co_opened := n\<rparr>) = col_ok c"
  by (simp_all add: col_ok_def)

text \<open>Taking a frame out, for whatever reason, with its result in flight.\<close>

lemma remove_all_spec:
  assumes "col_ok c" and "remove_all ks c = (c', fs)" and "distinct ks" and "set ks \<subseteq> set (map fst (co_pending c))"
  shows "col_ok c' \<and> map Some fs = map (map_of (co_pending c)) ks \<and> map pf_key fs = ks \<and>
    co_pending c' = filter (\<lambda>(k, f). k \<notin> set ks) (co_pending c) \<and>
    mset (map fst (co_pending c)) = mset (map fst (co_pending c')) + mset ks \<and>
    co_opened c' = co_opened c \<and> co_reported c' = co_reported c \<and> co_complete c' = co_complete c \<and>
    co_partial c' = co_partial c \<and> co_evicted c' = co_evicted c \<and> co_metrics c' = co_metrics c \<and> gauged c' = gauged c"
  using assms
proof (induction ks arbitrary: c fs)
  case Nil
  then show ?case by (auto simp: case_prod_unfold)
next
  case (Cons k ks)
  have "k \<in> set (map fst (co_pending c))" using Cons.prems(4) by simp
  then obtain f where f: "map_of (co_pending c) k = Some f" by (metis list.set_map map_of_eq_None_iff option.exhaust)
  let ?c1 = "forget_camera k (c\<lparr>co_pending := AList.delete k (co_pending c)\<rparr>)"
  have r: "co_remove k c = (?c1, Some f)" using f by (simp add: co_remove_def)
  obtain fs' where fs': "remove_all ks ?c1 = (c', fs')" "fs = f # fs'" using Cons.prems(2) r by (auto split: prod.splits)
  note R = col_ok_remove[OF Cons.prems(1) f]
  have sub: "set ks \<subseteq> set (map fst (co_pending ?c1))" using Cons.prems(3,4) by (auto simp: dict_keys_delete)
  note IH = Cons.IH[OF R(1) fs'(1) _ sub]
  have m: "map (map_of (AList.delete k (co_pending c))) ks = map (map_of (co_pending c)) ks"
    using Cons.prems(3) by (auto simp: dict_simps)
  have p: "filter (\<lambda>(k, f). k \<notin> set ks) (AList.delete k (co_pending c)) = filter (\<lambda>(j, f). j \<notin> set (k # ks)) (co_pending c)"
    by (auto simp: AList.delete_eq intro!: filter_cong)
  show ?case using IH Cons.prems(3) R(2,3) fs'(2) f m p by simp
qed


lemma keep_simps [simp]:
  "sys_c (keep s p) = fst p" "inflight (keep s p) = inflight s @ snd p" "emitted (keep s p) = emitted s"
  "admitted (keep s p) = admitted s"
  by (simp_all add: keep_def)

text \<open>A step that takes frames out and puts exactly their results in flight, with no eviction, keeps the invariant.\<close>

lemma sys_inv_keep:
  assumes "sys_inv s" and "col_ok c"
    and "mset (map fst (co_pending (sys_c s))) = mset (map fst (co_pending c)) + mset (map fr_key rs)"
    and "co_opened c = co_opened (sys_c s)" and "co_reported c = co_reported (sys_c s)"
    and "co_complete c = co_complete (sys_c s)" and "co_partial c = co_partial (sys_c s)"
    and "co_evicted c = co_evicted (sys_c s)" and "list_all (\<lambda>r. result_ok r \<and> fr_reason r \<noteq> EVICTED) rs"
  shows "sys_inv (keep s (c, rs))"
proof -
  have "filter (\<lambda>r. fr_reason r = EVICTED) rs = []" using assms(9) by (auto simp: list_all_iff filter_empty_conv)
  moreover have "list_all result_ok rs" using assms(9) by (auto simp: list_all_iff)
  ultimately show ?thesis using assms(1-8) by (auto simp: sys_inv_def ac_simps)
qed

lemma seal_inv: "sys_inv s \<Longrightarrow> co_seal key now (sys_c s) = (c, r) \<Longrightarrow> sys_inv (keep s (c, case r of None \<Rightarrow> [] | Some r \<Rightarrow> [r]))"
proof (cases "map_of (co_pending (sys_c s)) key")
  case None
  assume "sys_inv s" "co_seal key now (sys_c s) = (c, r)"
  then show ?thesis using None by (intro sys_inv_keep) (auto simp: co_seal_def sys_inv_def)
next
  case (Some f)
  assume a: "sys_inv s" "co_seal key now (sys_c s) = (c, r)"
  have ok: "col_ok (sys_c s)" using a(1) by (simp add: sys_inv_def)
  note R = col_ok_remove[OF ok Some]
  show ?thesis using a Some R by (intro sys_inv_keep) (auto simp: co_seal_def result_ok_def)
qed

lemma sweep_spec:
  assumes "col_ok c" and "co_sweep now c = (c', rs)"
  shows "co_pending c' = filter (\<lambda>(k, f). \<not> pf_is_expired now f) (co_pending c)"
    and "rs = map (\<lambda>(k, f). pf_result TIMEOUT now f) (filter (\<lambda>(k, f). pf_is_expired now f) (co_pending c))"
    and "col_ok c'"
    and "mset (map fst (co_pending c)) = mset (map fst (co_pending c')) + mset (map fr_key rs)"
    and "co_opened c' = co_opened c" "co_reported c' = co_reported c" "co_complete c' = co_complete c"
      "co_partial c' = co_partial c" "co_evicted c' = co_evicted c"
proof -
  let ?ex = "filter (\<lambda>(k, f). pf_is_expired now f) (co_pending c)"
  have wf: "dict_wf (co_pending c)" using assms(1) by (simp add: col_ok_def index_ok_def)
  obtain c1 fs where r: "remove_all (map fst ?ex) c = (c1, fs)" by (cases "remove_all (map fst ?ex) c")
  have d: "distinct (map fst ?ex)" using wf by (rule distinct_map_filter)
  have sub: "set (map fst ?ex) \<subseteq> set (map fst (co_pending c))" by auto
  note R = remove_all_spec[OF assms(1) r d sub]
  have eq: "c' = refresh_gauge c1" "rs = map (pf_result TIMEOUT now) fs" using assms(2) r by (auto simp: co_sweep_def Let_def)
  have "map (map_of (co_pending c)) (map fst ?ex) = map (\<lambda>p. Some (snd p)) ?ex"
    using wf by (auto intro!: map_of_is_SomeI)
  then have "map Some fs = map Some (map snd ?ex)" using R by simp
  then have fs: "fs = map snd ?ex" by (metis inj_Some map_injective)
  then show "rs = map (\<lambda>(k, f). pf_result TIMEOUT now f) ?ex" using eq by (simp add: case_prod_unfold)
  have "k \<notin> fst ` set ?ex \<longleftrightarrow> \<not> pf_is_expired now f" if "(k, f) \<in> set (co_pending c)" for k f
  proof -
    have "pf_is_expired now f" if "k \<in> fst ` set ?ex"
    proof -
      from that obtain f' where "(k, f') \<in> set (co_pending c)" "pf_is_expired now f'" by auto
      then show ?thesis using eq_key_imp_eq_value[OF wf \<open>(k, f) \<in> set (co_pending c)\<close>] by blast
    qed
    moreover have "k \<in> fst ` set ?ex" if "pf_is_expired now f"
      using that \<open>(k, f) \<in> set (co_pending c)\<close> by (intro image_eqI[of _ _ "(k, f)"]) auto
    ultimately show ?thesis by blast
  qed
  then have "filter (\<lambda>(k, f). k \<notin> set (map fst ?ex)) (co_pending c) = filter (\<lambda>(k, f). \<not> pf_is_expired now f) (co_pending c)"
    by (intro filter_cong) auto
  then show "co_pending c' = filter (\<lambda>(k, f). \<not> pf_is_expired now f) (co_pending c)" using R eq by simp
  show "col_ok c'" "co_opened c' = co_opened c" "co_reported c' = co_reported c" "co_complete c' = co_complete c"
    "co_partial c' = co_partial c" "co_evicted c' = co_evicted c" using R eq by simp_all
  have "map fr_key rs = map fst ?ex" using R eq by (simp add: comp_def)
  then show "mset (map fst (co_pending c)) = mset (map fst (co_pending c')) + mset (map fr_key rs)" using R eq by simp
qed

lemma sweep_inv: "sys_inv s \<Longrightarrow> sys_inv (keep s (co_sweep now (sys_c s)))"
proof -
  assume a: "sys_inv s"
  obtain c rs where r: "co_sweep now (sys_c s) = (c, rs)" by (cases "co_sweep now (sys_c s)")
  have ok: "col_ok (sys_c s)" using a by (simp add: sys_inv_def)
  note R = sweep_spec[OF ok r]
  have "list_all (\<lambda>r. result_ok r \<and> fr_reason r \<noteq> EVICTED) rs" unfolding R(2) by (auto simp: list_all_iff result_ok_def)
  then show ?thesis unfolding r by (rule sys_inv_keep[OF a R(3,4) R(5-9)])
qed

lemma drain_inv: "sys_inv s \<Longrightarrow> sys_inv (keep s (co_drain now (sys_c s)))"
proof -
  assume a: "sys_inv s"
  have ok: "col_ok (sys_c s)" using a by (simp add: sys_inv_def)
  let ?rs = "map (\<lambda>(k, f). pf_result SHUTDOWN now f) (co_pending (sys_c s))"
  have "map fr_key ?rs = map fst (co_pending (sys_c s))"
    using ok by (auto simp: col_ok_def)
  then have m: "mset (map fst (co_pending (sys_c s))) = mset (map fr_key ?rs)" by (simp only:)
  have "col_ok (refresh_gauge ((sys_c s)\<lparr>co_pending := [], by_camera := []\<rparr>))"
    using ok by (auto simp: col_ok_def index_ok_def cam_keys_def)
  then show ?thesis unfolding co_drain_def
  proof (rule sys_inv_keep[OF a])
    show "mset (map fst (co_pending (sys_c s))) =
        mset (map fst (co_pending (refresh_gauge ((sys_c s)\<lparr>co_pending := [], by_camera := []\<rparr>)))) + mset (map fr_key ?rs)"
      unfolding m by simp
  qed (auto simp: list_all_iff result_ok_def)
qed


lemma expect_inv: "sys_inv s \<Longrightarrow> sys_inv (keep s (co_expect key stages (sys_c s), []))"
proof -
  assume a: "sys_inv s"
  then have ok: "col_ok (sys_c s)" by (simp add: sys_inv_def)
  show ?thesis
  proof (cases "stages = [] \<or> map_of (co_pending (sys_c s)) key = None")
    case True
    then show ?thesis using ok by (intro sys_inv_keep[OF a]) (auto simp: co_expect_def split: option.splits)
  next
    case False
    then obtain f where f: "map_of (co_pending (sys_c s)) key = Some f" by auto
    note R = col_ok_replace[OF ok f, of "pf_expect stages f"]
    show ?thesis using False f R by (intro sys_inv_keep[OF a]) (auto simp: co_expect_def simp flip: mset_map)
  qed
qed

lemma deliver_inv: "sys_inv s \<Longrightarrow> sys_inv (keep s (co_deliver key stage (sys_c s), []))"
proof -
  assume a: "sys_inv s"
  then have ok: "col_ok (sys_c s)" by (simp add: sys_inv_def)
  show ?thesis
  proof (cases "map_of (co_pending (sys_c s)) key")
    case None
    then show ?thesis using ok by (intro sys_inv_keep[OF a]) (auto simp: co_deliver_def)
  next
    case (Some f)
    note R = col_ok_replace[OF ok Some, of "fst (pf_deliver stage f)"]
    show ?thesis using Some R by (intro sys_inv_keep[OF a]) (auto simp: co_deliver_def simp flip: mset_map)
  qed
qed

lemma touch_inv: "sys_inv s \<Longrightarrow> co_touch key g (sys_c s) = Some c \<Longrightarrow> sys_inv (keep s (c, []))"
proof -
  assume a: "sys_inv s" and t: "co_touch key g (sys_c s) = Some c"
  then have ok: "col_ok (sys_c s)" by (simp add: sys_inv_def)
  show ?thesis
  proof (cases "map_of (co_pending (sys_c s)) key")
    case None
    then show ?thesis using ok t by (intro sys_inv_keep[OF a]) (auto simp: co_touch_def)
  next
    case (Some f)
    then have c: "c = (sys_c s)\<lparr>co_pending := AList.update key (f\<lparr>pf_state := g (pf_state f)\<rparr>) (co_pending (sys_c s))\<rparr>"
      and k: "pf_key (f\<lparr>pf_state := g (pf_state f)\<rparr>) = pf_key f"
      using t by (auto simp: co_touch_def pf_key_def fs_key_def split: if_splits)
    note R = col_ok_replace[OF ok Some k]
    show ?thesis using R by (intro sys_inv_keep[OF a]) (auto simp: c simp flip: mset_map)
  qed
qed

lemma mset_remove_nth: "i < length xs \<Longrightarrow> mset xs = add_mset (xs ! i) (mset (take i xs @ drop (Suc i) xs))"
  by (metis add_mset_add_single id_take_nth_drop mset.simps(2) mset_append union_mset_add_mset_right)

lemma publish_simps:
  "co_pending (co_publish r c) = co_pending c" "co_opened (co_publish r c) = co_opened c"
  "co_evicted (co_publish r c) = co_evicted c" "co_reported (co_publish r c) = co_reported c + 1"
  "co_complete (co_publish r c) + co_partial (co_publish r c) = co_complete c + co_partial c + 1"
  "col_ok (co_publish r c) = col_ok c"
  by (auto simp: co_publish_def Let_def)

lemma publish_inv:
  assumes "sys_inv s" and "co_step pick s (Publish i) = Some s'"
  shows "sys_inv s'"
proof -
  have i: "i < length (inflight s)" using assms(2) by (auto split: if_splits)
  let ?r = "inflight s ! i" and ?l = "take i (inflight s) @ drop (Suc i) (inflight s)"
  let ?c = "if fr_reason ?r = EVICTED then report_eviction ?r (sys_c s) else co_publish ?r (sys_c s)"
  have s': "s' = s\<lparr>sys_c := ?c, inflight := ?l, emitted := emitted s @ [?r]\<rparr>"
    using assms(2) i by (auto simp: Let_def)
  have c: "co_pending ?c = co_pending (sys_c s)" "co_opened ?c = co_opened (sys_c s)" "co_evicted ?c = co_evicted (sys_c s)"
    "co_reported ?c = co_reported (sys_c s) + 1" "co_complete ?c + co_partial ?c = co_complete (sys_c s) + co_partial (sys_c s) + 1"
    "col_ok ?c = col_ok (sys_c s)"
    by (auto simp: report_eviction_def publish_simps)
  have m: "mset (inflight s) = add_mset ?r (mset ?l)" by (rule mset_remove_nth[OF i])
  have "mset (map fr_key (inflight s)) = add_mset (fr_key ?r) (mset (map fr_key ?l))"
    using arg_cong[OF m, of "image_mset fr_key"] by simp
  moreover have "length (filter P (inflight s)) = length (filter P ?l) + (if P ?r then 1 else 0)" for P
    using arg_cong[OF m, of "\<lambda>x. size (filter_mset P x)"] by (simp flip: mset_filter size_mset)
  moreover have "set (inflight s) = insert ?r (set ?l)" using arg_cong[OF m, of set_mset] by simp
  ultimately show ?thesis using assms(1) unfolding s' sys_inv_def by (auto simp: c list_all_iff)
qed

context eviction_policy
begin

lemma open_inv:
  assumes "sys_inv s" and "co_step pick s (Open now clk st expected) = Some s'"
  shows "sys_inv s'"
proof -
  let ?c = "sys_c s"
  have ok: "col_ok ?c" using assms(1) by (simp add: sys_inv_def)
  define d where "d = (if fs_deadline_ns st \<noteq> 0 then min (now + co_timeout_ns ?c) (fs_deadline_ns st) else now + co_timeout_ns ?c)"
  define f where "f = pf_expect expected (mk_pending st now d)"
  have k: "pf_key f = fs_key st" by (simp add: f_def)
  define add where "add c' = c'\<lparr>co_pending := AList.update (fs_key st) f (co_pending c'),
      by_camera := AList.update (camera_id (fs_ctx st)) (add_new (fs_key st)
        (case map_of (by_camera c') (camera_id (fs_ctx st)) of None \<Rightarrow> [] | Some ks \<Rightarrow> ks)) (by_camera c'),
      co_opened := co_opened c' + 1\<rparr>" for c' :: "'r collector"
  have cam: "fst (fs_key st) = camera_id (fs_ctx st)" by (simp add: fs_key_def context_key_def)
  have op: "co_open pick now clk st expected ?c =
      (if map_of (co_pending ?c) (fs_key st) \<noteq> None then (?c\<lparr>co_duplicates := co_duplicates ?c + 1\<rparr>, False, None)
       else case evict_loop pick clk 0 None ?c of (c', None) \<Rightarrow> (c', False, None) | (c', Some v) \<Rightarrow> (add c', True, v))"
    unfolding co_open_def Let_def d_def[symmetric] f_def[symmetric] k add_def by (rule refl)
  have added: "col_ok (add c')" "map fst (co_pending (add c')) = map fst (co_pending c') @ [fs_key st]"
    if "col_ok c'" "int (length (co_pending c')) < co_capacity c'" "fs_key st \<notin> fst ` set (co_pending c')" for c'
  proof -
    show m: "map fst (co_pending (add c')) = map fst (co_pending c') @ [fs_key st]"
      using that(3) by (simp add: add_def dict_keys_update)
    have "index_ok (map fst (co_pending c') @ [fs_key st]) (by_camera (add c'))"
      using index_insert[of "map fst (co_pending c')" "by_camera c'" "fs_key st"] that(1,3) by (simp add: col_ok_def add_def cam)
    moreover have "length (co_pending (add c')) = Suc (length (co_pending c'))" using arg_cong[OF m, of length] by simp
    moreover have "dict_wf (co_pending c')" using that(1) by (simp add: col_ok_def index_ok_def)
    ultimately show "col_ok (add c')" using that(1,2) m k
      by (auto simp: col_ok_def) (auto simp: add_def dict_mem_update split: if_splits)
  qed
  have adds: "co_reported (add c') = co_reported c'" "co_complete (add c') = co_complete c'" "co_partial (add c') = co_partial c'"
    "co_evicted (add c') = co_evicted c'" "co_opened (add c') = co_opened c' + 1" for c' by (simp_all add: add_def)
  have le: "int (length (co_pending ?c)) \<le> co_capacity ?c" using ok by (simp add: col_ok_def)
  consider "map_of (co_pending ?c) (fs_key st) \<noteq> None"
    | "fs_key st \<notin> fst ` set (co_pending ?c)" "int (length (co_pending ?c)) < co_capacity ?c"
    | "fs_key st \<notin> fst ` set (co_pending ?c)" "int (length (co_pending ?c)) = co_capacity ?c"
    using le map_of_eq_None_iff[of "co_pending ?c" "fs_key st"] by (metis order_le_less)
  then show ?thesis
  proof cases
    case 1
    then have "s' = s\<lparr>sys_c := ?c\<lparr>co_duplicates := co_duplicates ?c + 1\<rparr>\<rparr>" using assms(2) op by (auto simp: keep_def)
    then show ?thesis using assms(1) by (auto simp: sys_inv_def)
  next
    case 2
    then have "s' = s\<lparr>sys_c := add ?c, admitted := admitted s @ [fs_key st]\<rparr>"
      using assms(2) op evict_loop_room[OF 2(2)] by (auto simp: keep_def map_of_eq_None_iff[THEN iffD2])
    then show ?thesis using assms(1) added[OF ok 2(2,1)] by (auto simp: sys_inv_def adds simp flip: mset_map)
  next
    case 3
    obtain j g where v: "pick ?c = Some j" "map_of (co_pending ?c) j = Some g"
      "evict_loop pick clk 0 None ?c =
         ((forget_camera j (?c\<lparr>co_pending := AList.delete j (co_pending ?c)\<rparr>))\<lparr>co_evicted := co_evicted ?c + 1\<rparr>,
          Some (Some (pf_result EVICTED (clk 0) g)))"
      by (rule evict_loop_full[OF ok 3(2)])
    let ?d = "(forget_camera j (?c\<lparr>co_pending := AList.delete j (co_pending ?c)\<rparr>))\<lparr>co_evicted := co_evicted ?c + 1\<rparr>"
    note R = col_ok_remove[OF ok v(2)]
    have "size (mset (map fst (co_pending ?c))) = Suc (size (mset (map fst (co_pending ?d))))" using R(3) by simp
    then have room: "int (length (co_pending ?d)) < co_capacity ?d" using 3(2) by simp
    have nin: "fs_key st \<notin> fst ` set (co_pending ?d)" using 3(1) by (simp add: dict_keyset_delete)
    have d: "col_ok ?d" using R(1) by simp
    have "s' = s\<lparr>sys_c := add ?d, inflight := inflight s @ [pf_result EVICTED (clk 0) g], admitted := admitted s @ [fs_key st]\<rparr>"
      using assms(2) op v(3) 3(1) by (auto simp: keep_def map_of_eq_None_iff[THEN iffD2])
    then show ?thesis using assms(1) added[OF d room nin] R(2,3)
      by (auto simp: sys_inv_def adds result_ok_def simp flip: mset_map)
  qed
qed

lemma step_inv: "sys_inv s \<Longrightarrow> co_step pick s op = Some s' \<Longrightarrow> sys_inv s'"
proof (cases op)
  case (Open now clk st expected)
  assume "sys_inv s" "co_step pick s op = Some s'"
  then show ?thesis using open_inv Open by blast
next
  case (Publish i)
  assume "sys_inv s" "co_step pick s op = Some s'"
  then show ?thesis using publish_inv Publish by blast
qed (auto intro: seal_inv sweep_inv drain_inv expect_inv deliver_inv touch_inv split: prod.splits)

lemma run_inv: "sys_inv s \<Longrightarrow> co_run pick s ops = Some s' \<Longrightarrow> sys_inv s'"
  by (induction ops arbitrary: s) (auto split: option.splits intro: step_inv)

end


lemma sys_init_inv: "1 \<le> cap \<Longrightarrow> sys_inv (sys_init cap timeout_ms metrics)"
  by (simp add: sys_inv_def sys_init_def co_init_def col_ok_def index_ok_def cam_keys_def)


definition sample_frame :: "string \<Rightarrow> int \<Rightarrow> int frame_state" where
  "sample_frame cam n =
     \<lparr>fs_ctx = \<lparr>camera_id = cam, frame_id = n, captured_ns = 0, captured_unix_ns = 0, trace_id = []\<rparr>,
      fs_image = RELEASED, fs_height = 0, fs_width = 0, fs_fps = 0, fs_priority = NORMAL, fs_deadline_ns = 0,
      fs_detections = detections_empty, detections_ready = False, fs_scale = 1, fs_pad = (0, 0),
      fs_extents = (0, 0), fs_batches = []\<rparr>"

definition sample_ops :: "int co_op list" where
  "sample_ops =
     [Open 0 (\<lambda>_. 1) (sample_frame ''quay'' 1) [''detect''], Open 0 (\<lambda>_. 1) (sample_frame ''quay'' 2) [''detect''],
      Open 0 (\<lambda>_. 1) (sample_frame ''hall'' 1) [''detect''], Deliver (''hall'', 1) ''detect'', Seal (''hall'', 1) 5,
      Publish 1, Publish 0]"

definition sample_final :: "int co_sys" where
  "sample_final = the (co_run greediest_choose (sys_init 2 1500 True) sample_ops)"

lemma sample_final_run: "co_run greediest_choose (sys_init 2 1500 True) sample_ops = Some sample_final"
proof -
  have "co_run greediest_choose (sys_init 2 1500 True) sample_ops \<noteq> None" by code_simp
  then show ?thesis by (auto simp: sample_final_def)
qed


text \<open>
  A flood pays for itself.  Opening a frame when the buffer is full admits it and takes out exactly one frame: the
  one that has waited longest of a camera that holds the most.  Every frame of every other camera stays.
\<close>

theorem greedy_eviction_victim:
  assumes "col_ok c" and "int (length (co_pending c)) = co_capacity c" and "fs_key st \<notin> fst ` set (co_pending c)"
    and "co_open greediest_choose now clk st expected c = (c', ok, victim)"
  shows "\<exists>cam r. ok \<and> victim = Some r \<and> fr_reason r = EVICTED \<and>
    fr_key r = hd (cam_keys cam (map fst (co_pending c))) \<and> cam_keys cam (map fst (co_pending c)) \<noteq> [] \<and>
    list_all (\<lambda>k. length (cam_keys (fst k) (map fst (co_pending c))) \<le> length (cam_keys cam (map fst (co_pending c))))
      (map fst (co_pending c)) \<and>
    map fst (co_pending c') = filter (\<lambda>k. k \<noteq> fr_key r) (map fst (co_pending c)) @ [fs_key st] \<and>
    co_evicted c' = co_evicted c + 1"
proof -
  have ne: "co_pending c \<noteq> []" using assms(1,2) by (auto simp: col_ok_def)
  obtain cam where cam: "cam_keys cam (map fst (co_pending c)) \<noteq> []"
    "greediest_choose c = Some (hd (cam_keys cam (map fst (co_pending c))))"
    "\<forall>cam'. length (cam_keys cam' (map fst (co_pending c))) \<le> length (cam_keys cam (map fst (co_pending c)))"
    by (rule greediest_camera[OF assms(1) ne])
  obtain k f where v: "greediest_choose c = Some k" "map_of (co_pending c) k = Some f"
    "evict_loop greediest_choose clk 0 None c =
       ((forget_camera k (c\<lparr>co_pending := AList.delete k (co_pending c)\<rparr>))\<lparr>co_evicted := co_evicted c + 1\<rparr>,
        Some (Some (pf_result EVICTED (clk 0) f)))"
    by (rule greediest.evict_loop_full[OF assms(1,2)])
  have k: "k = hd (cam_keys cam (map fst (co_pending c)))" "pf_key f = k"
    using v(1) cam(2) col_ok_remove(2)[OF assms(1) v(2)] by auto
  have "map_of (co_pending c) (fs_key st) = None" using assms(3) by (simp add: map_of_eq_None_iff)
  moreover have "fs_key st \<notin> set (filter (\<lambda>j. j \<noteq> k) (map fst (co_pending c)))" using assms(3) by auto
  ultimately have "ok \<and> victim = Some (pf_result EVICTED (clk 0) f) \<and> co_evicted c' = co_evicted c + 1 \<and>
      map fst (co_pending c') = filter (\<lambda>j. j \<noteq> k) (map fst (co_pending c)) @ [fs_key st]"
    using assms(4) v(3) by (auto simp: co_open_def Let_def dict_keys_update dict_keys_delete)
  then show ?thesis using cam(1,3) k by (intro exI[of _ cam] exI[of _ "pf_result EVICTED (clk 0) f"]) (simp add: list_all_iff)
qed


definition sample_full :: "int collector" where
  "sample_full = sys_c (the (co_run greediest_choose (sys_init 2 1500 True) (take 2 sample_ops)))"

lemma sample_full_ok: "col_ok sample_full"
proof -
  have "co_run greediest_choose (sys_init 2 1500 True) (take 2 sample_ops) \<noteq> None" by code_simp
  then have "sys_inv (the (co_run greediest_choose (sys_init 2 1500 True) (take 2 sample_ops)))"
    by (intro greediest.run_inv[OF sys_init_inv[of 2 1500 True]]) auto
  then show ?thesis by (simp add: sample_full_def sys_inv_def)
qed

lemma greedy_eviction_victim_witness:
  "\<exists>c' r. co_open greediest_choose 0 (\<lambda>_. 1) (sample_frame ''hall'' 1) [] sample_full = (c', True, Some r) \<and>
     fr_reason r = EVICTED \<and> map fst (co_pending c') = [(''quay'', 2), (''hall'', 1)]"
proof -
  obtain c' ok victim where o: "co_open greediest_choose 0 (\<lambda>_. 1) (sample_frame ''hall'' 1) [] sample_full = (c', ok, victim)"
    by (cases "co_open greediest_choose 0 (\<lambda>_. 1) (sample_frame ''hall'' 1) [] sample_full")
  have f: "int (length (co_pending sample_full)) = co_capacity sample_full" by code_simp
  have n: "fs_key (sample_frame ''hall'' 1) \<notin> fst ` set (co_pending sample_full)" by code_simp
  have "map fst (co_pending (fst (co_open greediest_choose 0 (\<lambda>_. 1) (sample_frame ''hall'' 1) [] sample_full))) =
      [(''quay'', 2), (''hall'', 1)]" by code_simp
  then show ?thesis using greedy_eviction_victim[OF sample_full_ok f n o] o by auto
qed

text \<open>
  A timeout emits.  A sweep takes out exactly the frames whose deadline has passed and publishes each as
  \<^verbatim>\<open>timeout\<close>, in order of arrival, naming in sorted order the stages that were expected and did not answer; every other frame stays.
\<close>

theorem sweep_emits_expired:
  assumes "col_ok c" and "co_sweep now c = (c', rs)"
  shows "co_pending c' = filter (\<lambda>(k, f). now < pf_deadline_ns f) (co_pending c) \<and>
    map fr_key rs = map fst (filter (\<lambda>(k, f). pf_deadline_ns f \<le> now) (co_pending c)) \<and>
    list_all2 (\<lambda>r (k, f). fr_reason r = TIMEOUT \<and> sorted (fr_missing r) \<and>
        set (fr_missing r) = set (pf_expected f) - set (pf_delivered f))
      rs (filter (\<lambda>(k, f). pf_deadline_ns f \<le> now) (co_pending c))"
proof -
  note S = sweep_spec[OF assms]
  let ?ex = "filter (\<lambda>(k, f). pf_deadline_ns f \<le> now) (co_pending c)"
  have ex: "filter (\<lambda>(k, f). pf_is_expired now f) (co_pending c) = ?ex" by (simp add: pf_is_expired_def)
  have keys: "\<forall>(k, f) \<in> set (co_pending c). pf_key f = k" using assms(1) by (simp add: col_ok_def)
  have "list_all2 (\<lambda>r (k, f). fr_reason r = TIMEOUT \<and> sorted (fr_missing r) \<and>
      set (fr_missing r) = set (pf_expected f) - set (pf_delivered f)) rs ?ex"
    unfolding S(2) ex list_all2_map1 by (auto simp: list_all2_same pf_result_def pf_missing_def)
  moreover have "map fr_key rs = map fst ?ex" unfolding S(2) ex using keys by auto
  moreover have "co_pending c' = filter (\<lambda>(k, f). now < pf_deadline_ns f) (co_pending c)"
    unfolding S(1) by (simp add: pf_is_expired_def not_le)
  ultimately show ?thesis by blast
qed

lemma sweep_emits_expired_witness:
  "\<exists>c' rs. co_sweep 1500000000 sample_full = (c', rs) \<and> map fr_key rs = [(''quay'', 1), (''quay'', 2)]"
proof -
  obtain c' rs where s: "co_sweep 1500000000 sample_full = (c', rs)" by (cases "co_sweep 1500000000 sample_full")
  have "map fst (filter (\<lambda>(k, f). pf_deadline_ns f \<le> 1500000000) (co_pending sample_full)) = [(''quay'', 1), (''quay'', 2)]"
    by code_simp
  then show ?thesis using sweep_emits_expired[OF sample_full_ok s] s by simp
qed

section \<open>The pending gauge\<close>

definition gauge_inv :: "'r collector \<Rightarrow> bool" where
  "gauge_inv c \<longleftrightarrow> (\<forall>m cam. co_metrics c = Some m \<longrightarrow> cam \<notin> set (gauged c) \<longrightarrow> counter_get (pending_frames m) cam = 0)"

definition same_gauge :: "'r collector \<Rightarrow> 'r collector \<Rightarrow> bool" where
  "same_gauge c c' \<longleftrightarrow> gauged c' = gauged c \<and> map_option pending_frames (co_metrics c') = map_option pending_frames (co_metrics c)"

lemma same_gauge_inv: "same_gauge c c' \<Longrightarrow> gauge_inv c \<Longrightarrow> gauge_inv c'"
  by (auto simp: same_gauge_def gauge_inv_def map_option_case split: option.splits)

lemma same_gauge_metrics: "(\<And>m. pending_frames (g m) = pending_frames m) \<Longrightarrow> same_gauge c (on_metrics g c)"
  by (simp add: same_gauge_def option.map_comp comp_def)

lemma same_gauge_trans: "same_gauge a b \<Longrightarrow> same_gauge b c \<Longrightarrow> same_gauge a c"
  by (simp add: same_gauge_def)

lemma evict_loop_gauge: "evict_loop pick clk i v c = (c', r) \<Longrightarrow> same_gauge c c'"
proof (induction pick clk i v c arbitrary: c' r rule: evict_loop.induct)
  case (1 pick clk i v c)
  have e: "same_gauge c d" if "evict_locked pick (clk i) c = (d, q)" for d q
    using that by (auto simp: evict_locked_def co_remove_def same_gauge_def split: option.splits prod.splits)
  show ?case
  proof (cases "int (length (co_pending c)) \<ge> co_capacity c")
    case True
    obtain d q where d: "evict_locked pick (clk i) c = (d, q)" by (cases "evict_locked pick (clk i) c")
    show ?thesis
    proof (cases q)
      case None
      then show ?thesis using "1.prems" True d e[OF d] by (auto simp: evict_loop.simps[of pick] same_gauge_def)
    next
      case (Some w)
      then have "evict_loop pick clk (Suc i) (Some w) d = (c', r)" using "1.prems" True d by (simp add: evict_loop.simps[of pick clk i])
      then show ?thesis using "1.IH"[OF True d[symmetric] Some] e[OF d] same_gauge_trans by blast
    qed
  next
    case False
    then show ?thesis using "1.prems" by (simp add: evict_loop.simps[of pick] same_gauge_def)
  qed
qed

lemma open_gauge: "co_open pick now clk st expected c = (c', ok, v) \<Longrightarrow> same_gauge c c'"
  using evict_loop_gauge[of pick clk 0 None c]
  by (auto simp: co_open_def Let_def same_gauge_def split: if_splits prod.splits option.splits)

lemma update_all_zero:
  "counter_get (fold (\<lambda>cam g. AList.update cam 0 g) cams g) cam = (if cam \<in> set cams then 0 else counter_get g cam)"
  by (induction cams arbitrary: g) (auto simp: counter_get_def dict_simps)

lemma update_all_counts:
  "dict_wf counts \<Longrightarrow> counter_get (fold (\<lambda>(cam, n) g. AList.update cam n g) counts g) cam =
     (case map_of counts cam of None \<Rightarrow> counter_get g cam | Some n \<Rightarrow> n)"
proof (induction counts arbitrary: g)
  case (Cons p counts)
  obtain a b where p: "p = (a, b)" by (cases p)
  with Cons.prems have "map_of counts a = None" by (auto simp: map_of_eq_None_iff)
  with Cons p show ?case by (auto simp: counter_get_def dict_simps split: option.splits)
qed simp

lemma camera_counts_map: "map_of (camera_counts c) cam = map_option (\<lambda>ks. int (length ks)) (map_of (by_camera c) cam)"
  by (simp add: camera_counts_def map_of_map[of "\<lambda>ks. int (length ks)", unfolded case_prod_unfold] case_prod_unfold)

lemma refresh_gauge_truth:
  assumes "col_ok c" and "gauge_inv c" and "co_metrics (refresh_gauge c) = Some m"
  shows "counter_get (pending_frames m) cam = int (length (cam_keys cam (map fst (co_pending c))))"
    and "set (gauged (refresh_gauge c)) = fst ` set (map fst (co_pending c))"
    and "length (gauged (refresh_gauge c)) \<le> length (co_pending c)"
proof -
  let ?ks = "map fst (co_pending c)"
  have ix: "map_of (by_camera c) cam = (if cam_keys cam ?ks = [] then None else Some (cam_keys cam ?ks))" for cam
    using assms(1) by (simp add: col_ok_def index_ok_def)
  have wf: "dict_wf (by_camera c)" using assms(1) by (simp add: col_ok_def index_ok_def)
  then have wf': "dict_wf (camera_counts c)" by (simp add: camera_counts_def comp_def case_prod_unfold)
  obtain m0 where m0: "co_metrics c = Some m0" using assms(3) by (cases "co_metrics c") (auto simp: refresh_gauge_def)
  have keys: "cam \<in> fst ` set (camera_counts c) \<longleftrightarrow> cam_keys cam ?ks \<noteq> []" for cam
    using camera_counts_map[of c cam] ix[of cam] map_of_eq_None_iff[of "camera_counts c" cam] by auto
  have z: "counter_get (pending_frames m0) cam = 0" if "cam \<notin> set (gauged c)" for cam
    using assms(2) m0 that by (simp add: gauge_inv_def)
  have "pending_frames m = fold (\<lambda>cam g. AList.update cam 0 g) (filter (\<lambda>cam. cam \<notin> fst ` set (camera_counts c)) (gauged c))
      (fold (\<lambda>(cam, n) g. AList.update cam n g) (camera_counts c) (pending_frames m0))"
    using assms(3) m0 by (auto simp: refresh_gauge_def Let_def camera_counts_def)
  then show "counter_get (pending_frames m) cam = int (length (cam_keys cam ?ks))"
    using z[of cam] keys[of cam] camera_counts_map[of c cam] ix[of cam]
    by (auto simp: update_all_zero update_all_counts[OF wf'])
  have g: "gauged (refresh_gauge c) = map fst (camera_counts c)" using m0 by (simp add: refresh_gauge_def Let_def)
  have "cam_keys cam ?ks \<noteq> [] \<longleftrightarrow> cam \<in> fst ` set ?ks" for cam by (force simp: cam_keys_def filter_empty_conv)
  then have "fst ` set (camera_counts c) = fst ` set ?ks" using keys by (intro set_eqI) simp
  then show s: "set (gauged (refresh_gauge c)) = fst ` set ?ks" using g by simp
  have "distinct (gauged (refresh_gauge c))" using g wf' by simp
  then have "length (gauged (refresh_gauge c)) = card (fst ` set ?ks)" using s distinct_card by metis
  also have "\<dots> \<le> length ?ks" by (meson List.finite_set card_image_le card_length order_trans)
  finally show "length (gauged (refresh_gauge c)) \<le> length (co_pending c)" by simp
qed


lemma gauge_inv_refresh: "col_ok c \<Longrightarrow> gauge_inv c \<Longrightarrow> gauge_inv (refresh_gauge c)"
proof (cases "co_metrics (refresh_gauge c)")
  case (Some m)
  assume a: "col_ok c" "gauge_inv c"
  note R = refresh_gauge_truth[OF a Some]
  have "cam_keys cam (map fst (co_pending c)) = []" if "cam \<notin> set (gauged (refresh_gauge c))" for cam
    using that R(2) by (force simp: cam_keys_def filter_empty_conv)
  then show ?thesis using Some R(1) by (auto simp: gauge_inv_def)
qed (simp add: gauge_inv_def)

lemma remove_all_gauge: "remove_all ks c = (c', fs) \<Longrightarrow> same_gauge c c'"
proof (induction ks arbitrary: c fs)
  case (Cons k ks)
  then show ?case
    by (auto simp: co_remove_def same_gauge_def split: prod.splits option.splits)
qed (simp add: same_gauge_def)


lemma step_gauge:
  assumes "sys_inv s" and "co_step pick s op = Some s'" and "gauge_inv (sys_c s)"
  shows "gauge_inv (sys_c s')"
proof -
  have ok: "col_ok (sys_c s)" using assms(1) by (simp add: sys_inv_def)
  have pub: "same_gauge c (co_publish r c)" for r c
    by (auto simp: co_publish_def Let_def same_gauge_def option.map_comp comp_def intro!: option.map_cong)
  show ?thesis
  proof (cases op)
    case (Open now clk st expected)
    obtain c ok v where c: "co_open pick now clk st expected (sys_c s) = (c, ok, v)"
      by (cases "co_open pick now clk st expected (sys_c s)")
    then have "sys_c s' = c" using assms(2) Open by auto
    then show ?thesis using same_gauge_inv[OF open_gauge[OF c] assms(3)] by simp
  next
    case (Expect key stages)
    then have "same_gauge (sys_c s) (sys_c s')" using assms(2) by (auto simp: co_expect_def same_gauge_def split: option.splits)
    then show ?thesis using assms(3) by (rule same_gauge_inv)
  next
    case (Deliver key stage)
    then have "same_gauge (sys_c s) (sys_c s')" using assms(2)
      by (auto simp: co_deliver_def same_gauge_def option.map_comp comp_def split: option.splits)
    then show ?thesis using assms(3) by (rule same_gauge_inv)
  next
    case (Seal key now)
    then have "same_gauge (sys_c s) (sys_c s')" using assms(2) by (auto simp: co_seal_def same_gauge_def split: option.splits)
    then show ?thesis using assms(3) by (rule same_gauge_inv)
  next
    case (Sweep now)
    obtain c fs where c: "remove_all (map fst (filter (\<lambda>(k, f). pf_is_expired now f) (co_pending (sys_c s)))) (sys_c s) = (c, fs)"
      by (cases "remove_all (map fst (filter (\<lambda>(k, f). pf_is_expired now f) (co_pending (sys_c s)))) (sys_c s)")
    then have s': "co_sweep now (sys_c s) = (refresh_gauge c, map (pf_result TIMEOUT now) fs)" by (simp add: co_sweep_def)
    have "col_ok c" using sweep_spec(3)[OF ok s'] by simp
    then show ?thesis using assms(2,3) Sweep s' gauge_inv_refresh same_gauge_inv[OF remove_all_gauge[OF c]] by auto
  next
    case (Drain now)
    have "col_ok ((sys_c s)\<lparr>co_pending := [], by_camera := []\<rparr>)" using ok by (auto simp: col_ok_def index_ok_def cam_keys_def)
    moreover have "gauge_inv ((sys_c s)\<lparr>co_pending := [], by_camera := []\<rparr>)" using assms(3) by (simp add: gauge_inv_def)
    ultimately show ?thesis using assms(2) Drain gauge_inv_refresh by (auto simp: co_drain_def)
  next
    case (Touch key g)
    then have "same_gauge (sys_c s) (sys_c s')" using assms(2) by (auto simp: co_touch_def same_gauge_def split: option.splits if_splits)
    then show ?thesis using assms(3) by (rule same_gauge_inv)
  next
    case (Publish i)
    have rep: "same_gauge c (report_eviction r c)" for r c
      unfolding report_eviction_def by (rule same_gauge_trans[OF same_gauge_metrics pub]) simp
    have "same_gauge (sys_c s) (sys_c s')" using assms(2) Publish pub rep by (auto simp: Let_def split: if_splits)
    then show ?thesis using assms(3) by (rule same_gauge_inv)
  qed
qed

context eviction_policy
begin

lemma run_gauge: "sys_inv s \<Longrightarrow> gauge_inv (sys_c s) \<Longrightarrow> co_run pick s ops = Some s' \<Longrightarrow> gauge_inv (sys_c s')"
  by (induction ops arbitrary: s) (auto split: option.splits intro: step_gauge step_inv)

end

text \<open>
  The pending gauge tells the truth, zeroes included.  After any run of a collector with metrics, a sweep leaves
  the gauge of every camera at the number of frames that camera has waiting, also for a camera whose frames are all
  gone, and the set of cameras it remembers is no larger than the buffer.
\<close>

theorem gauge_truthful:
  assumes "pick = greediest_choose \<or> pick = oldest_choose" and "1 \<le> cap"
    and "co_run pick (sys_init cap timeout_ms True) (ops @ [Sweep now]) = Some s" and "co_metrics (sys_c s) = Some m"
  shows "counter_get (pending_frames m) cam = int (length (cam_keys cam (map fst (co_pending (sys_c s))))) \<and>
    length (gauged (sys_c s)) \<le> length (co_pending (sys_c s))"
proof -
  have app: "co_run pick s0 (xs @ ys) = (case co_run pick s0 xs of None \<Rightarrow> None | Some s1 \<Rightarrow> co_run pick s1 ys)" for s0 xs ys
    by (induction xs arbitrary: s0) (auto split: option.splits)
  obtain s1 where s1: "co_run pick (sys_init cap timeout_ms True) ops = Some s1" "co_step pick s1 (Sweep now) = Some s"
    using assms(3) by (auto simp: app split: option.splits)
  have g0: "gauge_inv (sys_c (sys_init cap timeout_ms True))"
    by (simp add: gauge_inv_def sys_init_def co_init_def no_metrics_def)
  have i1: "sys_inv s1" using assms(1,2) s1(1) greediest.run_inv[OF sys_init_inv] inherited.run_inv[OF sys_init_inv] by blast
  have g1: "gauge_inv (sys_c s1)"
    using assms(1) s1(1) greediest.run_gauge[OF sys_init_inv[OF assms(2)] g0] inherited.run_gauge[OF sys_init_inv[OF assms(2)] g0] by blast
  have ok: "col_ok (sys_c s1)" using i1 by (simp add: sys_inv_def)
  let ?ex = "map fst (filter (\<lambda>(k, f). pf_is_expired now f) (co_pending (sys_c s1)))"
  obtain c fs where c: "remove_all ?ex (sys_c s1) = (c, fs)" by (cases "remove_all ?ex (sys_c s1)")
  then have sw: "co_sweep now (sys_c s1) = (refresh_gauge c, map (pf_result TIMEOUT now) fs)" by (simp add: co_sweep_def)
  have okc: "col_ok c" using sweep_spec(3)[OF ok sw] by simp
  have gc: "gauge_inv c" by (rule same_gauge_inv[OF remove_all_gauge[OF c] g1])
  have s: "sys_c s = refresh_gauge c" using s1(2) sw by auto
  show ?thesis using refresh_gauge_truth[OF okc gc] assms(4) s by simp
qed

lemma gauge_truthful_witness:
  "\<exists>s m. co_run greediest_choose (sys_init 2 1500 True) (sample_ops @ [Sweep 7]) = Some s \<and> co_metrics (sys_c s) = Some m \<and>
     counter_get (pending_frames m) ''quay'' = 1 \<and> counter_get (pending_frames m) ''hall'' = 0"
proof -
  let ?r = "co_run greediest_choose (sys_init 2 1500 True) (sample_ops @ [Sweep 7])"
  have "?r \<noteq> None" by code_simp
  then obtain s where s: "?r = Some s" by blast
  have "co_metrics (sys_c (the ?r)) \<noteq> None" by code_simp
  then obtain m where m: "co_metrics (sys_c s) = Some m" using s by auto
  have "map fst (co_pending (sys_c (the ?r))) = [(''quay'', 2)]" by code_simp
  then have "map fst (co_pending (sys_c s)) = [(''quay'', 2)]" using s by simp
  then show ?thesis
    using gauge_truthful[OF disjI1[OF refl] _ s m, of "''quay''"] gauge_truthful[OF disjI1[OF refl] _ s m, of "''hall''"] s m
    by (auto simp: cam_keys_def)
qed

end
