(* ===== verification/Detect.thy ===== *)
theory Detect
  imports Frame_State
begin

text \<open>
  \<^verbatim>\<open>decode_detections\<close> (\<^verbatim>\<open>topology/elements/detections.py\<close>) and \<^verbatim>\<open>DetectStage\<close> (\<^verbatim>\<open>pipeline/graph/detect.py\<close>): from a
  detector's raw rows to the detections of one frame.

  A two-dimensional array is its width and the list of its rows.  float32 rounding and int32 wrap-around of the class
  column are not modelled.  \<^verbatim>\<open>np.argsort(kind="stable")\<close> is \<^verbatim>\<open>sort_key\<close> on positions.
\<close>

record decode_params =
  class_labels :: "(int, string) dict"
  score_threshold :: rat
  max_detections :: int

definition UNKNOWN_LABEL :: string where "UNKNOWN_LABEL = ''unknown''"

definition ROW_WIDTH :: int where "ROW_WIDTH = 6"

text \<open>\<^verbatim>\<open>np.argsort(xs, kind="stable")[::-1]\<close>: positions in descending order, the later first among equals.\<close>

definition argsort_desc :: "rat list \<Rightarrow> nat list" where
  "argsort_desc xs = rev (sort_key (\<lambda>i. xs ! i) [0..<length xs])"

text \<open>The two steps that choose the rows: threshold with cap, and order.\<close>

definition keep_rows :: "decode_params \<Rightarrow> rat list \<Rightarrow> nat list" where
  "keep_rows p scores =
     (let keep = filter (\<lambda>i. scores ! i \<ge> score_threshold p) [0..<length scores] in
      if int (length keep) > max_detections p then
        (let strongest = take (nat (slice_bound (int (length keep)) (max_detections p)))
                           (argsort_desc (map ((!) scores) keep))
         in map ((!) keep) (sort strongest))
      else keep)"

definition order_rows :: "rat list \<Rightarrow> nat list \<Rightarrow> nat list" where
  "order_rows scores keep = map ((!) keep) (argsort_desc (map ((!) scores) keep))"

definition clip :: "rat \<Rightarrow> rat \<Rightarrow> rat" where
  "clip hi x = min hi (max 0 x)"

definition unletterbox :: "rat \<Rightarrow> rat \<times> rat \<Rightarrow> (int \<times> int) option \<Rightarrow> rat list \<Rightarrow> box" where
  "unletterbox scale pad frame_hw row =
     (let sc = (if scale \<noteq> 0 then 1 / scale else 1);
          x = (\<lambda>v. (v - fst pad) * sc); y = (\<lambda>v. (v - snd pad) * sc);
          cx = (case frame_hw of None \<Rightarrow> (\<lambda>v. v) | Some (h, w) \<Rightarrow> clip (of_int w));
          cy = (case frame_hw of None \<Rightarrow> (\<lambda>v. v) | Some (h, w) \<Rightarrow> clip (of_int h))
      in (cx (x (row ! 0)), cy (y (row ! 1)), cx (x (row ! 2)), cy (y (row ! 3))))"

definition int_trunc :: "rat \<Rightarrow> int" where
  "int_trunc r = (if r < 0 then - \<lfloor>- r\<rfloor> else \<lfloor>r\<rfloor>)"

text \<open>The rows the model filled, when it says how many.\<close>

definition filled_rows :: "int option \<Rightarrow> 'a list \<Rightarrow> 'a list" where
  "filled_rows cnt rows = (case cnt of None \<Rightarrow> rows | Some n \<Rightarrow> take (nat (max 0 (min n (int (length rows))))) rows)"

definition decode_detections ::
  "decode_params \<Rightarrow> rat \<Rightarrow> rat \<times> rat \<Rightarrow> (int \<times> int) option \<Rightarrow> int option \<Rightarrow> int \<Rightarrow> rat list list \<Rightarrow> detections result" where
  "decode_detections p scale pad frame_hw cnt width rows =
     (if width \<noteq> ROW_WIDTH then Inl ValidationError
      else
        let array = filled_rows cnt rows;
            tot = int (length array);
            scores = map (\<lambda>row. row ! 4) array;
            keep = keep_rows p scores;
            order = order_rows scores keep
        in if array = [] then Inr detections_empty
           else if keep = [] then mk_detections [] [] [] [] tot
           else
             (let cids = map (\<lambda>i. int_trunc (array ! i ! 5)) order in
              mk_detections (map (\<lambda>i. unletterbox scale pad frame_hw (array ! i)) order) (map ((!) scores) order) cids
                (map (\<lambda>c. case map_of (class_labels p) c of None \<Rightarrow> UNKNOWN_LABEL | Some l \<Rightarrow> l) cids)
                (tot - int (length order))))"

section \<open>The detect stage\<close>

record letterboxed =
  lb_tensor :: ndarray
  lb_scale :: rat
  lb_pad :: "rat \<times> rat"
  lb_extents :: "int \<times> int"

text \<open>An output tensor of the detector: width of a row, and rows per frame of the batch.\<close>

record det_output =
  do_width :: int
  do_batch :: "rat list list list"

definition boxes_output :: "string option \<Rightarrow> string list \<Rightarrow> string" where
  "boxes_output given declared =
     (case given of
        Some n \<Rightarrow> n
      | None \<Rightarrow>
          (case declared of
             [] \<Rightarrow> ''boxes''
           | [n] \<Rightarrow> n
           | n # _ \<Rightarrow> if ''boxes'' \<in> set declared then ''boxes'' else n))"

definition count_output :: "string option \<Rightarrow> string list \<Rightarrow> string option" where
  "count_output given declared =
     (case given of
        Some n \<Rightarrow> Some n
      | None \<Rightarrow> if ''num_detections'' \<in> set declared then Some ''num_detections'' else None)"

definition reported_count :: "string option \<Rightarrow> (string, det_output) dict \<Rightarrow> int option result" where
  "reported_count cout outputs =
     (case cout of
        None \<Rightarrow> Inr None
      | Some n \<Rightarrow>
          (case map_of outputs n of
             None \<Rightarrow> Inr None
           | Some t \<Rightarrow> (case concat (concat (do_batch t)) of [] \<Rightarrow> Inl IndexError | x # _ \<Rightarrow> Inr (Some (int_trunc x)))))"

text \<open>What \<^verbatim>\<open>ModelStage._infer\<close> puts on a request besides the tensors: the frame's tag, priority and deadline.\<close>

type_synonym req_tag = "request_context \<times> priority \<times> int"

definition req_tag_of :: "'r frame_state \<Rightarrow> req_tag" where
  "req_tag_of s = (fs_ctx s, fs_priority s, fs_deadline_ns s)"

text \<open>
  \<^verbatim>\<open>DetectStage._do_run\<close>; \<^verbatim>\<open>letterbox\<close> is \<^verbatim>\<open>ImageOps.letterbox_batch\<close> on the one image, \<^verbatim>\<open>infer\<close> the model's answer.
  The decode uses the scale and pad the letterbox reported, which are also stored on the state.
\<close>

definition detect_answer ::
  "(req_tag \<Rightarrow> ndarray \<Rightarrow> (string, det_output) dict result) \<Rightarrow> decode_params \<Rightarrow> string \<Rightarrow> string option \<Rightarrow>
     letterboxed \<Rightarrow> 'r frame_state \<Rightarrow> detections result" where
  "detect_answer infer p bout cout lb s =
     rbind (infer (req_tag_of s) (lb_tensor lb)) (\<lambda>outputs.
       case map_of outputs bout of
         None \<Rightarrow> Inl InferenceError
       | Some t \<Rightarrow>
           rbind (reported_count cout outputs) (\<lambda>n.
             case do_batch t of
               [] \<Rightarrow> Inl IndexError
             | rows # _ \<Rightarrow>
                 decode_detections p (lb_scale lb) (lb_pad lb) (Some (fs_height s, fs_width s)) n (do_width t) rows))"

definition detect_run ::
  "(ndarray \<Rightarrow> letterboxed result) \<Rightarrow> (req_tag \<Rightarrow> ndarray \<Rightarrow> (string, det_output) dict result) \<Rightarrow> decode_params \<Rightarrow> string \<Rightarrow> string option \<Rightarrow>
     'r frame_state \<Rightarrow> 'r frame_state \<times> int result" where
  "detect_run letterbox infer p bout cout s =
     (case letterbox (fs_image s) of
        Inl e \<Rightarrow> (s, Inl e)
      | Inr lb \<Rightarrow>
          (let s1 = s\<lparr>fs_scale := lb_scale lb, fs_pad := lb_pad lb, fs_extents := lb_extents lb\<rparr> in
           case detect_answer infer p bout cout lb s of
             Inl e \<Rightarrow> (s1, Inl e)
           | Inr d \<Rightarrow> (set_detections d s1, Inr (int (det_len d)))))"

section \<open>What decoding gives\<close>

lemma argsort_desc_perm: "mset (argsort_desc xs) = mset [0..<length xs]"
  by (simp add: argsort_desc_def)

lemma argsort_desc_sorted: "sorted_wrt (\<ge>) (map ((!) xs) (argsort_desc xs))"
proof -
  have "sorted (map (\<lambda>i. xs ! i) (sort_key (\<lambda>i. xs ! i) [0..<length xs]))" by (rule sorted_sort_key)
  then have "sorted_wrt (\<lambda>x y. y \<le> x) (rev (map (\<lambda>i. xs ! i) (sort_key (\<lambda>i. xs ! i) [0..<length xs])))"
    by (subst sorted_wrt_rev) simp
  then show ?thesis by (simp add: argsort_desc_def rev_map)
qed

lemma map_nth_perm: "mset is = mset [0..<length ks] \<Longrightarrow> mset (map ((!) ks) is) = mset ks"
  by (metis map_nth mset_map)

lemma order_rows_spec:
  "mset (order_rows scores keep) = mset keep" "sorted_wrt (\<ge>) (map ((!) scores) (order_rows scores keep))"
proof -
  have p: "mset (argsort_desc (map ((!) scores) keep)) = mset [0..<length keep]" using argsort_desc_perm[of "map ((!) scores) keep"] by simp
  then show "mset (order_rows scores keep) = mset keep" unfolding order_rows_def by (rule map_nth_perm)
  have "set (argsort_desc (map ((!) scores) keep)) = {0..<length keep}" using arg_cong[OF p, of set_mset] by simp
  then have "map ((!) scores) (order_rows scores keep) = map ((!) (map ((!) scores) keep)) (argsort_desc (map ((!) scores) keep))"
    by (auto simp: order_rows_def)
  then show "sorted_wrt (\<ge>) (map ((!) scores) (order_rows scores keep))" using argsort_desc_sorted by metis
qed


lemma keep_rows_spec:
  fixes scores :: "rat list"
  assumes "0 \<le> max_detections p"
  defines "abv \<equiv> filter (\<lambda>i. scores ! i \<ge> score_threshold p) [0..<length scores]"
  shows "\<exists>rest. mset abv = mset (keep_rows p scores) + mset rest \<and>
      (\<forall>i \<in> set (keep_rows p scores). \<forall>j \<in> set rest. scores ! j \<le> scores ! i)"
    and "length (keep_rows p scores) = min (length abv) (nat (max_detections p))"
proof -
  let ?n = "length abv" and ?k = "nat (max_detections p)"
  let ?sc = "map ((!) scores) abv"
  let ?args = "argsort_desc ?sc"
  have perm: "mset ?args = mset [0..<?n]" using argsort_desc_perm[of ?sc] by simp
  then have len: "length ?args = ?n" by (metis diff_zero length_upt size_mset)
  have sets: "set ?args = {0..<?n}" using arg_cong[OF perm, of set_mset] by simp
  have eq: "keep_rows p scores = (if int ?n > max_detections p then map ((!) abv) (sort (take ?k ?args)) else abv)"
    using assms(1) by (auto simp: keep_rows_def abv_def Let_def slice_bound_def min_def)
  show "length (keep_rows p scores) = min ?n ?k" using len by (auto simp: eq)
  show "\<exists>rest. mset abv = mset (keep_rows p scores) + mset rest \<and>
      (\<forall>i \<in> set (keep_rows p scores). \<forall>j \<in> set rest. scores ! j \<le> scores ! i)"
  proof (cases "int ?n > max_detections p")
    case False
    then show ?thesis by (intro exI[of _ "[]"]) (simp add: eq)
  next
    case True
    let ?rest = "map ((!) abv) (drop ?k ?args)"
    have "mset (map ((!) abv) (take ?k ?args)) + mset ?rest = mset (map ((!) abv) (take ?k ?args @ drop ?k ?args))"
      by (simp only: map_append mset_append)
    also have "\<dots> = mset abv" unfolding append_take_drop_id by (rule map_nth_perm[OF perm])
    finally have m: "mset abv = mset (keep_rows p scores) + mset ?rest" using True by (simp add: eq)
    have "sorted_wrt (\<ge>) (map ((!) ?sc) (take ?k ?args) @ map ((!) ?sc) (drop ?k ?args))"
      using argsort_desc_sorted[of ?sc] by (simp flip: map_append)
    then have le: "?sc ! b \<le> ?sc ! a" if "a \<in> set (take ?k ?args)" "b \<in> set (drop ?k ?args)" for a b
      using that by (simp add: sorted_wrt_append)
    have nth: "?sc ! a = scores ! (abv ! a)" if "a \<in> set ?args" for a using that sets by simp
    have "scores ! j \<le> scores ! i" if "i \<in> set (keep_rows p scores)" "j \<in> set ?rest" for i j
    proof -
      from that(1) True obtain a where a: "a \<in> set (take ?k ?args)" "i = abv ! a" by (auto simp: eq)
      from that(2) obtain b where b: "b \<in> set (drop ?k ?args)" "j = abv ! b" by auto
      show ?thesis using le[OF a(1) b(1)] nth a b in_set_takeD[OF a(1)] in_set_dropD[OF b(1)] by metis
    qed
    then show ?thesis using m by blast
  qed
qed

lemma unletterbox_in_frame:
  assumes "0 \<le> h" and "0 \<le> w"
  shows "case unletterbox scale pad (Some (h, w)) row of (x1, y1, x2, y2) \<Rightarrow>
    0 \<le> x1 \<and> x1 \<le> of_int w \<and> 0 \<le> x2 \<and> x2 \<le> of_int w \<and> 0 \<le> y1 \<and> y1 \<le> of_int h \<and> 0 \<le> y2 \<and> y2 \<le> of_int h"
  using assms by (simp add: unletterbox_def clip_def Let_def)

lemma decode_total: "(\<exists>d. decode_detections p scale pad frame_hw cnt width rows = Inr d) \<longleftrightarrow> width = ROW_WIDTH"
  by (auto simp: decode_detections_def Let_def mk_detections_def)

text \<open>
  Decoding keeps the strongest detections.  When \<^verbatim>\<open>decode_detections\<close> returns, it has the rows at or above the
  threshold, at most \<^verbatim>\<open>max_detections\<close> of them, in descending score order; a row above the threshold that was
  left out scores no higher than any that was kept; \<^verbatim>\<open>discarded\<close> counts every row the model filled that is not there; and every box lies in the frame.
\<close>

theorem decode_keeps_strongest:
  assumes "decode_detections p scale pad (Some (h, w)) cnt width rows = Inr d"
    and "0 \<le> max_detections p" and "0 \<le> h" and "0 \<le> w"
  shows "length (dt_scores d) =
      min (length (filter (\<lambda>r. score_threshold p \<le> r ! 4) (filled_rows cnt rows))) (nat (max_detections p)) \<and>
    sorted_wrt (\<ge>) (dt_scores d) \<and>
    discarded d + int (length (dt_scores d)) = int (length (filled_rows cnt rows)) \<and>
    (\<exists>rest. mset (map (\<lambda>r. r ! 4) (filter (\<lambda>r. score_threshold p \<le> r ! 4) (filled_rows cnt rows))) = mset (dt_scores d) + rest \<and>
      (\<forall>x \<in># rest. \<forall>y \<in> set (dt_scores d). x \<le> y)) \<and>
    list_all (\<lambda>(x1, y1, x2, y2). 0 \<le> x1 \<and> x1 \<le> of_int w \<and> 0 \<le> x2 \<and> x2 \<le> of_int w \<and>
      0 \<le> y1 \<and> y1 \<le> of_int h \<and> 0 \<le> y2 \<and> y2 \<le> of_int h) (dt_boxes d)"
proof -
  let ?a = "filled_rows cnt rows"
  let ?sc = "map (\<lambda>row. row ! 4) ?a"
  let ?abv = "filter (\<lambda>i. ?sc ! i \<ge> score_threshold p) [0..<length ?sc]"
  let ?keep = "keep_rows p ?sc"
  let ?ord = "order_rows ?sc ?keep"
  have sc: "dt_scores d = map ((!) ?sc) ?ord"
    and bx: "dt_boxes d = map (\<lambda>i. unletterbox scale pad (Some (h, w)) (?a ! i)) ?ord"
    and di: "discarded d + int (length ?ord) = int (length ?a)"
  proof -
    have e: "?ord = []" if "?keep = []" using that order_rows_spec(1)[of ?sc ?keep] by simp
    have e0: "?keep = []" if "?a = []" using that by (simp add: keep_rows_def Let_def argsort_desc_def)
    show "dt_scores d = map ((!) ?sc) ?ord" "dt_boxes d = map (\<lambda>i. unletterbox scale pad (Some (h, w)) (?a ! i)) ?ord"
      "discarded d + int (length ?ord) = int (length ?a)"
      using assms(1) e e0 by (auto simp: decode_detections_def Let_def mk_detections_def detections_empty_def split: if_splits)
  qed
  have ab: "map ((!) ?sc) ?abv = map (\<lambda>r. r ! 4) (filter (\<lambda>r. score_threshold p \<le> r ! 4) ?a)"
  proof -
    have "map ((!) ?sc) ?abv = filter (\<lambda>x. score_threshold p \<le> x) (map ((!) ?sc) [0..<length ?sc])" by (simp add: filter_map comp_def)
    also have "\<dots> = filter (\<lambda>x. score_threshold p \<le> x) ?sc" by (simp only: map_nth)
    finally show ?thesis by (simp add: filter_map comp_def)
  qed
  have mo: "mset ?ord = mset ?keep" by (rule order_rows_spec(1))
  then have lo: "length ?ord = length ?keep" by (rule mset_eq_length)
  have so: "set ?ord = set ?keep" using mo by (rule mset_eq_setD)
  have "length ?keep = min (length ?abv) (nat (max_detections p))" by (rule keep_rows_spec(2)[OF assms(2)])
  moreover have "length ?abv = length (filter (\<lambda>r. score_threshold p \<le> r ! 4) ?a)" using arg_cong[OF ab, of length] by simp
  ultimately have 1: "length (dt_scores d) = min (length (filter (\<lambda>r. score_threshold p \<le> r ! 4) ?a)) (nat (max_detections p))"
    using sc lo by simp
  have 2: "sorted_wrt (\<ge>) (dt_scores d)" unfolding sc by (rule order_rows_spec(2))
  obtain rest where r: "mset ?abv = mset ?keep + mset rest" "\<forall>i \<in> set ?keep. \<forall>j \<in> set rest. ?sc ! j \<le> ?sc ! i"
    using keep_rows_spec(1)[OF assms(2), of ?sc] by blast
  have "mset (map ((!) ?sc) ?abv) = mset (map ((!) ?sc) ?ord) + mset (map ((!) ?sc) rest)"
    unfolding mset_map r(1) mo by simp
  then have 3: "mset (map (\<lambda>r. r ! 4) (filter (\<lambda>r. score_threshold p \<le> r ! 4) ?a)) = mset (dt_scores d) + mset (map ((!) ?sc) rest)"
    unfolding ab sc .
  have 4: "\<forall>x \<in># mset (map ((!) ?sc) rest). \<forall>y \<in> set (dt_scores d). x \<le> y" using r(2) so by (auto simp: sc simp del: nth_map)
  have 5: "list_all (\<lambda>(x1, y1, x2, y2). 0 \<le> x1 \<and> x1 \<le> of_int w \<and> 0 \<le> x2 \<and> x2 \<le> of_int w \<and>
      0 \<le> y1 \<and> y1 \<le> of_int h \<and> 0 \<le> y2 \<and> y2 \<le> of_int h) (dt_boxes d)"
    unfolding bx list_all_iff using unletterbox_in_frame[OF assms(3,4)] by auto
  show ?thesis using 1 2 3 4 5 di sc by auto
qed

definition sample_params :: decode_params where
  "sample_params = \<lparr>class_labels = [(0, ''person''), (8, ''ship'')], score_threshold = 1/4, max_detections = 2\<rparr>"

definition sample_rows :: "rat list list" where
  "sample_rows = [[1, 1, 5, 5, 1/2, 0], [2, 2, 9, 9, 3/4, 8], [0, 0, 3, 3, 1/8, 0], [1, 2, 3, 4, 1/2, 2]]"

lemma decode_keeps_strongest_witness:
  "\<exists>d. decode_detections sample_params 1 (0, 0) (Some (8, 8)) None 6 sample_rows = Inr d \<and>
     length (dt_scores d) = 2 \<and> sorted_wrt (\<ge>) (dt_scores d) \<and> discarded d = 2"
proof -
  obtain d where d: "decode_detections sample_params 1 (0, 0) (Some (8, 8)) None 6 sample_rows = Inr d"
    using decode_total[of sample_params 1 "(0, 0)" "Some (8, 8)" None 6 sample_rows] by (auto simp: ROW_WIDTH_def)
  have "length (filter (\<lambda>r. score_threshold sample_params \<le> r ! 4) (filled_rows None sample_rows)) = 3"
    "length (filled_rows None sample_rows) = 4" "max_detections sample_params = 2"
    by (simp_all add: sample_params_def sample_rows_def filled_rows_def)
  then show ?thesis using decode_keeps_strongest[OF d] d by auto
qed

end
