(* ===== verification/Pipeline_Graph.thy ===== *)
theory Pipeline_Graph
  imports Reassembly Detect
begin

text \<open>
  \<^verbatim>\<open>src/shipinfer/pipeline/graph\<close>: the stages of the perception DAG (\<^verbatim>\<open>stage.py\<close>, \<^verbatim>\<open>crop.py\<close>, \<^verbatim>\<open>objects.py\<close>) and the
  graph that plans, runs and validates them (\<^verbatim>\<open>graph.py\<close>).

  A stage is the record of its declarations and its \<^verbatim>\<open>_do_run\<close>, a function from the frame state to the state it
  leaves and either the rows it produced or what it raised.  What the models and the image operations answer is an argument.
  Elapsed times are not modelled.
\<close>

section \<open>Stages\<close>

datatype cardinality = PER_FRAME | PER_OBJECT

datatype stage_status = RAN | SKIPPED | FAILED

record stage_outcome =
  oc_stage :: string
  oc_status :: stage_status
  oc_rows :: int
  oc_error :: "err option"

text \<open>What a \<^verbatim>\<open>ModelStage\<close> adds: its model, the input name if it was given one, and the row shape it feeds if it knows.\<close>

record model_part =
  mp_model :: string
  mp_input_name :: "string option"
  mp_row_shape :: "int list option"

record 'r stage =
  sg_name :: string
  sg_consumes :: "string list"
  sg_requires :: "string list"
  sg_optional :: "string list"
  sg_produces :: "string list"
  sg_card :: cardinality
  sg_expands :: bool
  sg_model :: "model_part option"
  sg_outputs :: "(string, string) dict"
  do_run :: "'r frame_state \<Rightarrow> 'r frame_state \<times> int result"

definition reads :: "'r stage \<Rightarrow> string list" where
  "reads st = sg_consumes st @ sg_optional st"

definition stage_run :: "'r stage \<Rightarrow> 'r frame_state \<Rightarrow> 'r frame_state \<times> stage_outcome" where
  "stage_run st s =
     (case do_run st s of
        (s', Inl e) \<Rightarrow> (s', \<lparr>oc_stage = sg_name st, oc_status = FAILED, oc_rows = 0, oc_error = Some e\<rparr>)
      | (s', Inr rows) \<Rightarrow> (s', \<lparr>oc_stage = sg_name st, oc_status = RAN, oc_rows = rows, oc_error = None\<rparr>))"

text \<open>\<^verbatim>\<open>produced_output_name\<close>: the first output stored under a name.\<close>

definition produced_output_name :: "'r stage \<Rightarrow> string \<Rightarrow> string option" where
  "produced_output_name st batch_name = map_option fst (List.find (\<lambda>(out, name). name = batch_name) (sg_outputs st))"

text \<open>
  What \<^verbatim>\<open>resolve\<close> gives: a model, with its declared input and output specs when it has an artifact.
\<close>

type_synonym servable = "(tensor_spec list \<times> tensor_spec list) option"

definition input_name :: "(string \<Rightarrow> servable result) \<Rightarrow> model_part \<Rightarrow> string" where
  "input_name resolve mp =
     (case mp_input_name mp of
        Some n \<Rightarrow> n
      | None \<Rightarrow>
          (case resolve (mp_model mp) of
             Inr (Some (spec # _, _)) \<Rightarrow> sname spec
           | _ \<Rightarrow> ''images''))"

text \<open>A dict of specs by name: the last one declared under a name.\<close>

definition spec_named :: "string \<Rightarrow> tensor_spec list \<Rightarrow> tensor_spec option" where
  "spec_named n specs = List.find (\<lambda>s. sname s = n) (rev specs)"

definition model_stage_validate :: "(string \<Rightarrow> servable result) \<Rightarrow> model_part \<Rightarrow> unit result" where
  "model_stage_validate resolve mp =
     rbind (resolve (mp_model mp)) (\<lambda>sv.
       case sv of
         None \<Rightarrow> Inr ()
       | Some (ins, outs) \<Rightarrow>
           (case spec_named (input_name resolve mp) ins of
              None \<Rightarrow> Inl ConfigurationError
            | Some spec \<Rightarrow>
                (case mp_row_shape mp of
                   Some sh \<Rightarrow> if spec_matches spec sh then Inr () else Inl ConfigurationError
                 | None \<Rightarrow> Inr ())))"

section \<open>Cropping and per-object models\<close>

record crop_spec =
  cs_name :: string
  cs_class :: string
  cs_size :: "int \<times> int"

definition mk_crop_spec :: "string \<Rightarrow> string \<Rightarrow> int \<times> int \<Rightarrow> crop_spec result" where
  "mk_crop_spec n c sz =
     (if fst sz < 1 \<or> snd sz < 1 then Inl ConfigurationError
      else Inr \<lparr>cs_name = n, cs_class = c, cs_size = sz\<rparr>)"

text \<open>\<^verbatim>\<open>CropStage._do_run\<close>; \<^verbatim>\<open>crop\<close> is \<^verbatim>\<open>ImageOps.crop_batch\<close>.\<close>

fun crop_run ::
  "(ndarray \<Rightarrow> box list \<Rightarrow> int \<times> int \<Rightarrow> 'r list result) \<Rightarrow> crop_spec list \<Rightarrow> int \<Rightarrow>
     'r frame_state \<Rightarrow> 'r frame_state \<times> int result" where
  "crop_run crop [] tot s = (s, Inr tot)"
| "crop_run crop (c # cs) tot s =
     (case boxes_of (cs_class c) (fs_detections s) of
        Inl e \<Rightarrow> (s, Inl e)
      | Inr (bs, ixs) \<Rightarrow>
          if ixs = [] then
            crop_run crop cs tot (attach \<lparr>ob_name = cs_name c, ob_class = cs_class c, object_indices = [], ob_data = []\<rparr> s)
          else case rbind (crop (fs_image s) bs (cs_size c)) (mk_object_batch (cs_name c) (cs_class c) ixs) of
                 Inl e \<Rightarrow> (s, Inl e)
               | Inr b \<Rightarrow> crop_run crop cs (tot + int (length ixs)) (attach b s))"

text \<open>
  \<^verbatim>\<open>ObjectStage._do_run\<close>; \<^verbatim>\<open>infer tag rows\<close> is what \<^verbatim>\<open>_infer\<close> and \<^verbatim>\<open>_quantities\<close> give for one request: an array per
  forwarded quantity, or what was raised.
\<close>

definition take_output :: "(string, 'r list) dict \<Rightarrow> string \<Rightarrow> 'r list result" where
  "take_output arrays out = (case map_of arrays out of None \<Rightarrow> Inl InferenceError | Some a \<Rightarrow> Inr a)"

fun collect_chunks ::
  "('r list \<Rightarrow> (string, 'r list) dict result) \<Rightarrow> string list \<Rightarrow> 'r list \<Rightarrow> (int \<times> int) list \<Rightarrow> 'r list list list result" where
  "collect_chunks infer outs rows [] = Inr []"
| "collect_chunks infer outs rows ((start, stop) # rest) =
     rbind (infer (take (nat (stop - start)) (drop (nat start) rows))) (\<lambda>arrays.
       rbind (rmapM (take_output arrays) outs) (\<lambda>pieces.
         rbind (collect_chunks infer outs rows rest) (\<lambda>more. Inr (pieces # more))))"

fun attach_outputs ::
  "string \<Rightarrow> int list \<Rightarrow> (string \<times> 'r list) list \<Rightarrow> 'r frame_state \<Rightarrow> 'r frame_state \<times> unit result" where
  "attach_outputs cls ixs [] s = (s, Inr ())"
| "attach_outputs cls ixs ((name, rows) # rest) s =
     (case mk_object_batch name cls ixs rows of
        Inl e \<Rightarrow> (s, Inl e)
      | Inr b \<Rightarrow> attach_outputs cls ixs rest (attach b s))"

definition object_run ::
  "(req_tag \<Rightarrow> 'r list \<Rightarrow> (string, 'r list) dict result) \<Rightarrow> int option \<Rightarrow> string \<Rightarrow> (string, string) dict \<Rightarrow>
     'r frame_state \<Rightarrow> 'r frame_state \<times> int result" where
  "object_run infer limit source outs s =
     (case fs_batch source s of
        Inl e \<Rightarrow> (s, Inl e)
      | Inr b \<Rightarrow>
          (case collect_chunks (infer (req_tag_of s)) (map fst outs) (ob_data b) (chunks (int (length (object_indices b))) limit) of
             Inl e \<Rightarrow> (s, Inl e)
           | Inr [] \<Rightarrow> (s, Inl IndexError)
           | Inr (p # ps) \<Rightarrow>
               (case attach_outputs (ob_class b) (object_indices b)
                       (zip (map snd outs) (map (\<lambda>i. concat (map (\<lambda>c. c ! i) (p # ps))) [0..<length outs])) s of
                  (s', Inl e) \<Rightarrow> (s', Inl e)
                | (s', Inr _) \<Rightarrow> (s', Inr (int (length (object_indices b)))))))"

section \<open>The three kinds of stage\<close>

definition detect_stage ::
  "string \<Rightarrow> string \<Rightarrow> (ndarray \<Rightarrow> letterboxed result) \<Rightarrow> (req_tag \<Rightarrow> ndarray \<Rightarrow> (string, det_output) dict result) \<Rightarrow>
     decode_params \<Rightarrow> string \<Rightarrow> string option \<Rightarrow> int \<times> int \<Rightarrow> 'r stage" where
  "detect_stage name model letterbox infer p bout cout dst =
     \<lparr>sg_name = name, sg_consumes = [FRAME_INPUT], sg_requires = [FRAME_INPUT], sg_optional = [], sg_produces = [DETECTIONS],
      sg_card = PER_FRAME, sg_expands = False,
      sg_model = Some \<lparr>mp_model = model, mp_input_name = Some ''images'', mp_row_shape = Some [3, fst dst, snd dst]\<rparr>,
      sg_outputs = [], do_run = detect_run letterbox infer p bout cout\<rparr>"

definition crop_stage ::
  "string \<Rightarrow> (ndarray \<Rightarrow> box list \<Rightarrow> int \<times> int \<Rightarrow> 'r list result) \<Rightarrow> crop_spec list \<Rightarrow> 'r stage result" where
  "crop_stage name crop crops =
     (if crops = [] then Inl ConfigurationError
      else if \<not> distinct (map cs_name crops) then Inl ConfigurationError
      else Inr \<lparr>sg_name = name, sg_consumes = [DETECTIONS, FRAME_INPUT], sg_requires = [DETECTIONS], sg_optional = [],
                sg_produces = map cs_name crops, sg_card = PER_OBJECT, sg_expands = True, sg_model = None,
                sg_outputs = [], do_run = crop_run crop crops 0\<rparr>)"

definition object_stage ::
  "string \<Rightarrow> string \<Rightarrow> (req_tag \<Rightarrow> 'r list \<Rightarrow> (string, 'r list) dict result) \<Rightarrow> int option \<Rightarrow> string \<Rightarrow> (string, string) dict \<Rightarrow>
     int list option \<Rightarrow> 'r stage result" where
  "object_stage name model infer limit source outs row_shape =
     (if outs = [] then Inl ValidationError
      else Inr \<lparr>sg_name = name, sg_consumes = [source], sg_requires = [source], sg_optional = [],
                sg_produces = map snd outs, sg_card = PER_OBJECT, sg_expands = False,
                sg_model = Some \<lparr>mp_model = model, mp_input_name = None, mp_row_shape = row_shape\<rparr>,
                sg_outputs = outs, do_run = object_run infer limit source outs\<rparr>)"

section \<open>The graph\<close>

record 'r graph =
  g_stages :: "'r stage list"
  g_field_map :: "(string, string list) dict"

definition mk_graph :: "'r stage list \<Rightarrow> (string, string list) dict \<Rightarrow> 'r graph result" where
  "mk_graph stages fm =
     (if stages = [] then Inl ConfigurationError
      else if \<exists>f \<in> fst ` set fm. map_of RECORD_CONVERTERS f = None then Inl ConfigurationError
      else if \<not> distinct (map sg_name stages) then Inl ConfigurationError
      else Inr \<lparr>g_stages = stages, g_field_map = fm\<rparr>)"

definition retain :: "'r graph \<Rightarrow> string set" where
  "retain g = insert DETECTIONS (field_map_names (g_field_map g))"

text \<open>\<^verbatim>\<open>_compute_liveness\<close>: the index of each name's last reader, then the names that die at an index.\<close>

fun last_readers :: "nat \<Rightarrow> 'r stage list \<Rightarrow> (string, nat) dict \<Rightarrow> (string, nat) dict" where
  "last_readers i [] d = d"
| "last_readers i (st # sts) d = last_readers (Suc i) sts (fold (\<lambda>n d. AList.update n i d) (reads st) d)"

definition dead_after :: "'r graph \<Rightarrow> nat \<Rightarrow> string list" where
  "dead_after g i =
     map fst (filter (\<lambda>(name, final). final = i \<and> name \<notin> retain g) (last_readers 0 (g_stages g) []))"

definition runnable :: "'r stage list \<Rightarrow> 'r frame_state \<Rightarrow> string list \<Rightarrow> string list" where
  "runnable stages s done =
     map sg_name (filter (\<lambda>st. sg_name st \<notin> set done \<and> list_all (available s) (sg_consumes st) \<and>
                                list_all (non_empty s) (sg_requires st)) stages)"

definition release_name :: "string \<Rightarrow> 'r frame_state \<Rightarrow> 'r frame_state" where
  "release_name name s = (if name = FRAME_INPUT then release_image s else fs_drop name s)"

datatype observed = Planned "string list" | Finished stage_outcome

text \<open>\<^verbatim>\<open>execute\<close>, with what it tells its observer, in order; \<^verbatim>\<open>release\<close> is \<^verbatim>\<open>_release\<close> at the index.\<close>

fun exec_loop ::
  "'r stage list \<Rightarrow> (nat \<Rightarrow> string list) \<Rightarrow> nat \<Rightarrow> 'r stage list \<Rightarrow> string list \<Rightarrow> 'r frame_state \<Rightarrow> 'r frame_state \<times> observed list" where
  "exec_loop stages dead i [] done s = (s, [])"
| "exec_loop stages dead i (st # sts) done s =
     (let ready = runnable stages s done;
          told = (if ready = [] then [] else [Planned ready]);
          (s1, oc) = (if sg_name st \<in> set ready then stage_run st s
                      else (s, \<lparr>oc_stage = sg_name st, oc_status = SKIPPED, oc_rows = 0, oc_error = None\<rparr>));
          s2 = fold release_name (dead i) s1;
          (s3, rest) = exec_loop stages dead (Suc i) sts (done @ [sg_name st]) s2
      in (s3, told @ [Finished oc] @ rest))"

definition execute :: "'r graph \<Rightarrow> 'r frame_state \<Rightarrow> 'r frame_state \<times> observed list" where
  "execute g s = exec_loop (g_stages g) (dead_after g) 0 (g_stages g) [] s"

definition unconditional_stage :: "'r graph \<Rightarrow> string" where
  "unconditional_stage g = sg_name (hd (g_stages g))"

text \<open>\<^verbatim>\<open>validate\<close> and \<^verbatim>\<open>_validate_edge\<close>.\<close>

definition validate_edge ::
  "(string \<Rightarrow> servable result) \<Rightarrow> 'r stage \<Rightarrow> model_part \<Rightarrow> (string, 'r stage) dict \<Rightarrow> unit result" where
  "validate_edge resolve st mp produced =
     (case (mp_row_shape mp, sg_consumes st) of
        (None, [n]) \<Rightarrow>
          (case map_of produced n of
             None \<Rightarrow> Inr ()
           | Some producer \<Rightarrow>
               (case (sg_model producer, produced_output_name producer n) of
                  (Some pm, Some out) \<Rightarrow>
                    rbind (resolve (mp_model pm)) (\<lambda>src. rbind (resolve (mp_model mp)) (\<lambda>tgt.
                      case (src, tgt) of
                        (Some (_, outs), Some (ins, _)) \<Rightarrow>
                          (case (List.find (\<lambda>sp. sname sp = out) outs,
                                 List.find (\<lambda>sp. sname sp = input_name resolve mp) ins) of
                             (Some a, Some b) \<Rightarrow>
                               if sdtype a \<noteq> sdtype b \<or> \<not> spec_matches b (sshape a) then Inl ConfigurationError else Inr ()
                           | _ \<Rightarrow> Inr ())
                      | _ \<Rightarrow> Inr ()))
                | _ \<Rightarrow> Inr ()))
      | _ \<Rightarrow> Inr ())"

fun check_reads :: "'r stage \<Rightarrow> (string, 'r stage) dict \<Rightarrow> string list \<Rightarrow> unit result" where
  "check_reads st produced [] = Inr ()"
| "check_reads st produced (n # ns) =
     (if n = FRAME_INPUT then check_reads st produced ns
      else case map_of produced n of
             None \<Rightarrow> Inl ConfigurationError
           | Some src \<Rightarrow>
               if \<not> sg_expands st \<and> sg_card src \<noteq> sg_card st then Inl ConfigurationError
               else check_reads st produced ns)"

fun validate_stages ::
  "(string \<Rightarrow> servable result) \<Rightarrow> 'r stage list \<Rightarrow> (string, 'r stage) dict \<Rightarrow> (string, 'r stage) dict result" where
  "validate_stages resolve [] produced = Inr produced"
| "validate_stages resolve (st # sts) produced =
     (if \<not> set (sg_requires st) \<subseteq> set (sg_consumes st) then Inl ConfigurationError
      else if set (sg_optional st) \<inter> set (sg_consumes st) \<noteq> {} then Inl ConfigurationError
      else rbind (check_reads st produced (reads st)) (\<lambda>_.
             rbind (case sg_model st of
                      None \<Rightarrow> Inr ()
                    | Some mp \<Rightarrow> rbind (model_stage_validate resolve mp) (\<lambda>_. validate_edge resolve st mp produced)) (\<lambda>_.
               validate_stages resolve sts (fold (\<lambda>n d. AList.update n st d) (sg_produces st) produced))))"

definition validate_graph :: "(string \<Rightarrow> servable result) \<Rightarrow> 'r graph \<Rightarrow> unit result" where
  "validate_graph resolve g =
     rbind (validate_stages resolve (g_stages g) []) (\<lambda>produced.
       if retain g \<subseteq> fst ` set produced then Inr () else Inl ConfigurationError)"

section \<open>Liveness\<close>

lemma fold_update_const: "map_of (fold (\<lambda>n d. AList.update n v d) ns d) n = (if n \<in> set ns then Some v else map_of d n)"
  by (induction ns arbitrary: d) (auto simp: dict_simps)

lemma dict_wf_fold_update: "dict_wf d \<Longrightarrow> dict_wf (fold (\<lambda>n d. AList.update n v d) ns d)"
  by (induction ns arbitrary: d) auto

lemma last_readers_wf: "dict_wf d \<Longrightarrow> dict_wf (last_readers i sts d)"
  by (induction sts arbitrary: i d) (auto intro: dict_wf_fold_update)

definition read_in :: "string \<Rightarrow> 'r stage list \<Rightarrow> bool" where
  "read_in n sts \<longleftrightarrow> list_ex (\<lambda>st. n \<in> set (reads st)) sts"

lemma last_readers_unread: "\<not> read_in n sts \<Longrightarrow> map_of (last_readers i sts d) n = map_of d n"
  by (induction sts arbitrary: i d) (auto simp: read_in_def fold_update_const)

text \<open>The recorded index is the last reader's: it is a reader's, and nothing after it reads the name.\<close>

lemma last_readers_Some:
  "read_in n sts \<Longrightarrow> \<exists>j. map_of (last_readers i sts d) n = Some (i + j) \<and> j < length sts \<and> \<not> read_in n (drop (Suc j) sts)"
proof (induction sts arbitrary: i d)
  case (Cons st sts)
  show ?case
  proof (cases "read_in n sts")
    case True
    then obtain j where "map_of (last_readers (Suc i) sts (fold (\<lambda>n d. AList.update n i d) (reads st) d)) n = Some (Suc i + j)"
      "j < length sts" "\<not> read_in n (drop (Suc j) sts)" using Cons.IH by blast
    then show ?thesis by (intro exI[of _ "Suc j"]) auto
  next
    case False
    then have "n \<in> set (reads st)" using Cons.prems by (simp add: read_in_def)
    then show ?thesis using last_readers_unread[OF False] False by (intro exI[of _ 0]) (simp add: fold_update_const)
  qed
qed (simp add: read_in_def)

lemma dead_after_iff:
  "n \<in> set (dead_after g j) \<longleftrightarrow> map_of (last_readers 0 (g_stages g) []) n = Some j \<and> n \<notin> retain g"
proof -
  have wf: "dict_wf (last_readers 0 (g_stages g) [])" by (rule last_readers_wf) simp
  show ?thesis unfolding dead_after_def using wf by (auto simp: image_iff map_of_eq_Some_iff[OF wf])
qed

lemma dead_unread: "n \<in> set (dead_after g j) \<Longrightarrow> \<not> read_in n (drop (Suc j) (g_stages g)) \<and> n \<notin> retain g"
proof -
  assume d: "n \<in> set (dead_after g j)"
  then have m: "map_of (last_readers 0 (g_stages g) []) n = Some j" "n \<notin> retain g" by (auto simp: dead_after_iff)
  have "read_in n (g_stages g)" using m(1) last_readers_unread[of n "g_stages g" 0 "[]"] by fastforce
  from last_readers_Some[OF this, of 0 "[]"] show ?thesis using m by auto
qed

text \<open>Two states that agree on a set of names.\<close>

definition agree :: "string set \<Rightarrow> 'r frame_state \<Rightarrow> 'r frame_state \<Rightarrow> bool" where
  "agree M s s' \<longleftrightarrow>
     s\<lparr>fs_image := RELEASED, fs_batches := []\<rparr> = s'\<lparr>fs_image := RELEASED, fs_batches := []\<rparr> \<and>
     (FRAME_INPUT \<in> M \<longrightarrow> fs_image s = fs_image s') \<and>
     (\<forall>n \<in> M. map_of (fs_batches s) n = map_of (fs_batches s') n)"

text \<open>A stage that reads only what it declares: its answer and what it writes depend on the names in its \<^verbatim>\<open>reads\<close> alone.\<close>

definition reads_only :: "'r stage \<Rightarrow> bool" where
  "reads_only st \<longleftrightarrow>
     (\<forall>M s s'. set (reads st) \<subseteq> M \<longrightarrow> agree M s s' \<longrightarrow>
        snd (do_run st s) = snd (do_run st s') \<and> agree M (fst (do_run st s)) (fst (do_run st s')))"

lemma agree_fields:
  assumes "agree M s s'"
  shows "fs_ctx s = fs_ctx s'" "fs_detections s = fs_detections s'" "detections_ready s = detections_ready s'"
proof -
  have e: "s\<lparr>fs_image := RELEASED, fs_batches := []\<rparr> = s'\<lparr>fs_image := RELEASED, fs_batches := []\<rparr>"
    using assms by (simp add: agree_def)
  show "fs_ctx s = fs_ctx s'" using arg_cong[OF e, of fs_ctx] by simp
  show "fs_detections s = fs_detections s'" using arg_cong[OF e, of fs_detections] by simp
  show "detections_ready s = detections_ready s'" using arg_cong[OF e, of detections_ready] by simp
qed

lemma agree_names:
  assumes "agree M s s'" and "n \<in> M"
  shows "available s n = available s' n" "non_empty s n = non_empty s' n"
  using assms agree_fields[OF assms(1)] by (auto simp: agree_def available_def non_empty_def image_released_def)

lemma agree_release:
  assumes "agree M s s'"
  shows "agree (M - set ns) (fold release_name ns s) s'"
proof -
  have "agree (N - set ns) (fold release_name ns s) s'" if "agree N s s'" for N s
    using that
  proof (induction ns arbitrary: N s)
    case (Cons n ns)
    have "agree (N - {n}) (release_name n s) s'"
      using Cons.prems by (auto simp: agree_def release_name_def release_image_def fs_drop_def dict_simps)
    moreover have "N - {n} - set ns = N - set (n # ns)" by auto
    ultimately show ?case using Cons.IH[of "N - {n}" "release_name n s"] by simp
  qed simp
  from this[OF assms] show ?thesis .
qed

text \<open>The stages still to run, by index; only they can be announced.\<close>

lemma runnable_cong:
  assumes "agree M s s'"
    and "\<forall>st \<in> set stages. sg_name st \<notin> set done \<longrightarrow> set (reads st) \<subseteq> M \<and> set (sg_requires st) \<subseteq> set (sg_consumes st)"
  shows "runnable stages s done = runnable stages s' done"
  unfolding runnable_def
proof (rule arg_cong[where f = "map sg_name"], rule filter_cong[OF refl])
  fix st assume st: "st \<in> set stages"
  show "(sg_name st \<notin> set done \<and> list_all (available s) (sg_consumes st) \<and> list_all (non_empty s) (sg_requires st)) =
      (sg_name st \<notin> set done \<and> list_all (available s') (sg_consumes st) \<and> list_all (non_empty s') (sg_requires st))"
  proof (cases "sg_name st \<in> set done")
    case False
    then have "set (sg_consumes st) \<subseteq> M" "set (sg_requires st) \<subseteq> M" using assms(2) st by (auto simp: reads_def)
    then show ?thesis using agree_names[OF assms(1)] by (auto simp: list_all_iff subset_iff)
  qed simp
qed

lemma exec_loop_transparent:
  assumes "g_stages g = pre @ sts" and "distinct (map sg_name (g_stages g))"
    and "\<forall>st \<in> set (g_stages g). reads_only st \<and> set (sg_requires st) \<subseteq> set (sg_consumes st)"
    and "agree M s s'" and "\<forall>n. n \<notin> M \<longrightarrow> \<not> read_in n sts \<and> n \<notin> retain g"
    and "exec_loop (g_stages g) (dead_after g) (length pre) sts (map sg_name pre) s = (t, ev)"
    and "exec_loop (g_stages g) (\<lambda>_. []) (length pre) sts (map sg_name pre) s' = (t', ev')"
  shows "ev = ev' \<and> agree (retain g) t t'"
  using assms(1,4-)
proof (induction sts arbitrary: pre s s' ev ev' M t t')
  case Nil
  then show ?case by (auto simp: agree_def)
next
  case (Cons st sts)
  have live: "\<forall>st' \<in> set (g_stages g). sg_name st' \<notin> set (map sg_name pre) \<longrightarrow>
      set (reads st') \<subseteq> M \<and> set (sg_requires st') \<subseteq> set (sg_consumes st')"
  proof (intro ballI impI conjI)
    fix st' assume st': "st' \<in> set (g_stages g)" "sg_name st' \<notin> set (map sg_name pre)"
    then have "st' \<in> set (st # sts)" using Cons.prems(1) by auto
    then have "read_in n (st # sts)" if "n \<in> set (reads st')" for n using that by (auto simp: read_in_def list_ex_iff)
    then show "set (reads st') \<subseteq> M" using Cons.prems(3) by blast
    show "set (sg_requires st') \<subseteq> set (sg_consumes st')" using assms(3) st'(1) by blast
  qed
  have ready: "runnable (g_stages g) s (map sg_name pre) = runnable (g_stages g) s' (map sg_name pre)"
    by (rule runnable_cong[OF Cons.prems(2) live])
  define r where "r = runnable (g_stages g) s' (map sg_name pre)"
  define run where "run x = (if sg_name st \<in> set r then stage_run st x
      else (x, \<lparr>oc_stage = sg_name st, oc_status = SKIPPED, oc_rows = 0, oc_error = None\<rparr>))" for x
  have ro: "reads_only st" using assms(3) Cons.prems(1) by simp
  have rM: "set (reads st) \<subseteq> M" using Cons.prems(3) by (force simp: read_in_def)
  have res: "snd (do_run st s) = snd (do_run st s')" "agree M (fst (do_run st s)) (fst (do_run st s'))"
    using ro rM Cons.prems(2) unfolding reads_only_def by blast+
  have one: "snd (run s) = snd (run s')" "agree M (fst (run s)) (fst (run s'))"
    using res Cons.prems(2) by (auto simp: run_def stage_run_def split: prod.splits sum.splits)
  have A: "agree (M - set (dead_after g (length pre))) (fold release_name (dead_after g (length pre)) (fst (run s))) (fst (run s'))"
    by (rule agree_release[OF one(2)])
  have st_sts: "drop (Suc (length pre)) (g_stages g) = sts" using Cons.prems(1) by simp
  have L: "\<forall>n. n \<notin> M - set (dead_after g (length pre)) \<longrightarrow> \<not> read_in n sts \<and> n \<notin> retain g"
    using Cons.prems(3) dead_unread[of _ g "length pre"] st_sts by (auto simp: read_in_def)
  obtain u e1 where u: "exec_loop (g_stages g) (dead_after g) (Suc (length pre)) sts (map sg_name pre @ [sg_name st])
      (fold release_name (dead_after g (length pre)) (fst (run s))) = (u, e1)" by (metis surj_pair)
  obtain u' e1' where u': "exec_loop (g_stages g) (\<lambda>_. []) (Suc (length pre)) sts (map sg_name pre @ [sg_name st])
      (fst (run s')) = (u', e1')" by (metis surj_pair)
  have E: "(t, ev) = (u, (if r = [] then [] else [Planned r]) @ [Finished (snd (run s))] @ e1)"
    using Cons.prems(4) u ready by (simp add: Let_def case_prod_unfold r_def[symmetric] run_def)
  have E': "(t', ev') = (u', (if r = [] then [] else [Planned r]) @ [Finished (snd (run s'))] @ e1')"
    using Cons.prems(5) u' by (simp add: Let_def case_prod_unfold r_def[symmetric] run_def)
  have "e1 = e1' \<and> agree (retain g) u u'"
    by (rule Cons.IH[of "pre @ [st]", OF _ A L]) (use Cons.prems(1) u u' in auto)
  then show ?case using E E' one(1) by simp
qed

section \<open>The shipped stages keep to their declarations\<close>

lemma agree_attach: "agree M s s' \<Longrightarrow> agree M (attach b s) (attach b s')"
  by (auto simp: agree_def attach_def dict_simps)

lemma agree_all_fields:
  assumes "agree M s s'"
  shows "s' = s\<lparr>fs_image := fs_image s', fs_batches := fs_batches s'\<rparr>"
proof -
  have e: "s\<lparr>fs_image := RELEASED, fs_batches := []\<rparr> = s'\<lparr>fs_image := RELEASED, fs_batches := []\<rparr>"
    using assms by (simp add: agree_def)
  have "s\<lparr>fs_image := fs_image s', fs_batches := fs_batches s'\<rparr> =
      (s\<lparr>fs_image := RELEASED, fs_batches := []\<rparr>)\<lparr>fs_image := fs_image s', fs_batches := fs_batches s'\<rparr>" by simp
  also have "\<dots> = s'" unfolding e by simp
  finally show ?thesis by simp
qed

lemma agreeI:
  assumes "s' = s\<lparr>fs_image := i, fs_batches := b\<rparr>" and "FRAME_INPUT \<in> M \<Longrightarrow> fs_image s = i"
    and "\<And>n. n \<in> M \<Longrightarrow> map_of (fs_batches s) n = map_of b n"
  shows "agree M s s'"
  using assms by (simp add: agree_def)

lemma crop_run_agree:
  "FRAME_INPUT \<in> M \<Longrightarrow> agree M s s' \<Longrightarrow>
    snd (crop_run crop cs tot s) = snd (crop_run crop cs tot s') \<and> agree M (fst (crop_run crop cs tot s)) (fst (crop_run crop cs tot s'))"
proof (induction cs arbitrary: tot s s')
  case (Cons c cs)
  have d: "fs_detections s = fs_detections s'" "fs_image s = fs_image s'"
    using agree_fields[OF Cons.prems(2)] Cons.prems by (auto simp: agree_def)
  have A: "agree M (attach b s) (attach b s')" for b by (rule agree_attach[OF Cons.prems(2)])
  show ?case using Cons.IH[OF Cons.prems(1) A] Cons.prems(2) d
    by (auto split: sum.splits prod.splits)
qed simp

lemma attach_outputs_agree:
  "agree M s s' \<Longrightarrow> snd (attach_outputs cls ixs ps s) = snd (attach_outputs cls ixs ps s') \<and>
    agree M (fst (attach_outputs cls ixs ps s)) (fst (attach_outputs cls ixs ps s'))"
proof (induction cls ixs ps s arbitrary: s' rule: attach_outputs.induct)
  case (2 cls ixs name rows rest s)
  then show ?case using agree_attach[OF "2.prems"] by (auto split: sum.splits)
qed simp

lemma object_run_agree:
  assumes "source \<in> M" and "agree M s s'"
  shows "snd (object_run infer limit source outs s) = snd (object_run infer limit source outs s') \<and>
    agree M (fst (object_run infer limit source outs s)) (fst (object_run infer limit source outs s'))"
proof -
  have b: "fs_batch source s = fs_batch source s'" using assms by (simp add: fs_batch_def agree_def)
  have t: "req_tag_of s = req_tag_of s'" by (subst agree_all_fields[OF assms(2)]) (simp add: req_tag_of_def)
  show ?thesis
  proof (cases "fs_batch source s")
    case (Inl e)
    then show ?thesis using b assms(2) by (simp add: object_run_def)
  next
    case (Inr bt)
    let ?c = "collect_chunks (infer (req_tag_of s)) (map fst outs) (ob_data bt) (chunks (int (length (object_indices bt))) limit)"
    show ?thesis
    proof (cases "\<exists>p ps. ?c = Inr (p # ps)")
      case True
      then obtain p ps where c: "?c = Inr (p # ps)" by blast
      note A = attach_outputs_agree[OF assms(2), of "ob_class bt" "object_indices bt"
          "zip (map snd outs) (map (\<lambda>i. concat (map (\<lambda>c. c ! i) (p # ps))) [0..<length outs])"]
      show ?thesis unfolding object_run_def using Inr b t c A by (auto split: prod.splits sum.splits)
    next
      case False
      then have "(\<exists>e. ?c = Inl e) \<or> ?c = Inr []" by (metis list.exhaust sum.exhaust)
      then show ?thesis using Inr b t assms(2) by (auto simp: object_run_def)
    qed
  qed
qed

lemma detect_run_agree:
  assumes "FRAME_INPUT \<in> M" and "agree M s s'"
  shows "snd (detect_run lb infer p bout cout s) = snd (detect_run lb infer p bout cout s') \<and>
    agree M (fst (detect_run lb infer p bout cout s)) (fst (detect_run lb infer p bout cout s'))"
proof -
  have i: "fs_image s = fs_image s'" using assms by (simp add: agree_def)
  note e = agree_all_fields[OF assms(2)]
  have t: "req_tag_of s = req_tag_of s'" "fs_height s = fs_height s'" "fs_width s = fs_width s'"
    by (subst e, simp add: req_tag_of_def)+
  have u: "agree M (s\<lparr>fs_scale := a, fs_pad := b, fs_extents := c\<rparr>) (s'\<lparr>fs_scale := a, fs_pad := b, fs_extents := c\<rparr>)" for a b c
    by (subst e, rule agreeI) (use assms(2) in \<open>auto simp: agree_def\<close>)
  have v: "agree M (set_detections d x) (set_detections d y)" if "agree M x y" for d x y
    by (subst agree_all_fields[OF that], rule agreeI) (use that in \<open>auto simp: agree_def set_detections_def\<close>)
  have "detect_answer infer p bout cout x s = detect_answer infer p bout cout x s'" for x unfolding detect_answer_def t by (rule refl)
  then show ?thesis using assms(2) i by (auto simp: detect_run_def Let_def split: sum.splits intro!: u v)
qed

lemma detect_stage_reads_only: "reads_only (detect_stage name model lb infer p bout cout dst)"
  by (auto simp: reads_only_def detect_stage_def reads_def intro!: detect_run_agree[THEN conjunct1] detect_run_agree[THEN conjunct2])

lemma crop_stage_reads_only: "crop_stage name crop crops = Inr st \<Longrightarrow> reads_only st"
  by (auto simp: reads_only_def crop_stage_def reads_def intro!: crop_run_agree[THEN conjunct1] crop_run_agree[THEN conjunct2] split: if_splits)

lemma object_stage_reads_only: "object_stage name model infer limit source outs sh = Inr st \<Longrightarrow> reads_only st"
  by (auto simp: reads_only_def object_stage_def reads_def intro!: object_run_agree[THEN conjunct1] object_run_agree[THEN conjunct2] split: if_splits)

lemmas shipped_reads_only = detect_stage_reads_only crop_stage_reads_only object_stage_reads_only


section \<open>Records do not see what was released\<close>

lemma fill_candidates_cong:
  "(\<And>c. c \<in> set cands \<Longrightarrow> map_of bts c = map_of bts' c) \<Longrightarrow>
    fill_candidates convert bts name cands flds = fill_candidates convert bts' name cands flds"
  by (induction cands arbitrary: flds) (auto simp: rbind_def split: option.splits sum.splits)

lemma fill_fields_cong:
  "(\<And>c. c \<in> field_map_names fm \<Longrightarrow> map_of bts c = map_of bts' c) \<Longrightarrow>
    fill_fields cv bts fm flds = fill_fields cv bts' fm flds"
proof (induction fm arbitrary: flds)
  case (Cons p fm)
  obtain name cands where p: "p = (name, cands)" by (cases p)
  have "fill_candidates (cv k) bts name cands f = fill_candidates (cv k) bts' name cands f" for k f
    by (rule fill_candidates_cong) (use Cons.prems p in \<open>auto simp: field_map_names_def\<close>)
  moreover have "fill_fields cv bts fm = fill_fields cv bts' fm"
    by (rule ext, rule Cons.IH) (use Cons.prems in \<open>auto simp: field_map_names_def\<close>)
  ultimately show ?case using p by (simp split: option.splits)
qed simp

lemma agree_objects:
  assumes "agree (retain g) t t'"
  shows "fs_objects cv (g_field_map g) t = fs_objects cv (g_field_map g) t'"
proof -
  have "fill_fields cv (fs_batches t) (g_field_map g) f = fill_fields cv (fs_batches t') (g_field_map g) f" for f
    by (rule fill_fields_cong) (use assms in \<open>auto simp: agree_def retain_def\<close>)
  then show ?thesis using agree_fields[OF assms]
    by (simp add: fs_objects_def ei_records_def emission_inputs_def build_records_def)
qed

lemma validate_stages_requires:
  "validate_stages resolve sts produced = Inr p' \<Longrightarrow> st \<in> set sts \<Longrightarrow> set (sg_requires st) \<subseteq> set (sg_consumes st)"
  by (induction sts arbitrary: produced) (auto simp: rbind_Inr_iff split: if_splits)

lemma validated_graph:
  assumes "mk_graph stages fm = Inr g" and "validate_graph resolve g = Inr ()"
  shows "g_stages g = stages" "g_field_map g = fm" "distinct (map sg_name stages)"
    "\<forall>st \<in> set stages. set (sg_requires st) \<subseteq> set (sg_consumes st)"
proof -
  show g: "g_stages g = stages" "g_field_map g = fm" "distinct (map sg_name stages)"
    using assms(1) by (auto simp: mk_graph_def split: if_splits)
  obtain p where p: "validate_stages resolve stages [] = Inr p" using assms(2) g(1) by (auto simp: validate_graph_def rbind_Inr_iff)
  show "\<forall>st \<in> set stages. set (sg_requires st) \<subseteq> set (sg_consumes st)" using validate_stages_requires[OF p] by blast
qed

text \<open>
  C14: freeing early is invisible.  Take a graph that was built and validated and whose stages read only what they
  declare.  Running a frame with every name released after its last reader tells the observer the same, stage by stage
  and announcement by announcement, and gives the same event records, as running it with nothing ever released.
\<close>

theorem liveness_transparent:
  assumes "mk_graph stages fm = Inr g" and "validate_graph resolve g = Inr ()" and "list_all reads_only stages"
    and "execute g s = (t, ev)" and "exec_loop stages (\<lambda>_. []) 0 stages [] s = (t', ev')"
  shows "ev = ev' \<and> fs_objects cv fm t = fs_objects cv fm t'"
proof -
  note g = validated_graph[OF assms(1,2)]
  have "ev = ev' \<and> agree (retain g) t t'"
    by (rule exec_loop_transparent[of g "[]" stages UNIV s s]) (use assms g in \<open>auto simp: list_all_iff execute_def agree_def\<close>)
  then show ?thesis using agree_objects[of g t t'] g(2) by auto
qed


section \<open>What is released stays released\<close>

text \<open>A stage that writes only what it declares.\<close>

definition writes_only :: "'r stage \<Rightarrow> bool" where
  "writes_only st \<longleftrightarrow>
     (\<forall>s n. n \<notin> set (sg_produces st) \<longrightarrow> map_of (fs_batches (fst (do_run st s))) n = map_of (fs_batches s) n) \<and>
     (\<forall>s. fs_image (fst (do_run st s)) = fs_image s) \<and>
     (\<forall>s. DETECTIONS \<notin> set (sg_produces st) \<longrightarrow>
        fs_detections (fst (do_run st s)) = fs_detections s \<and> detections_ready (fst (do_run st s)) = detections_ready s)"

lemma crop_run_writes:
  "n \<notin> cs_name ` set cs \<Longrightarrow> map_of (fs_batches (fst (crop_run crop cs tot s))) n = map_of (fs_batches s) n"
  "fs_image (fst (crop_run crop cs tot s)) = fs_image s" "fs_detections (fst (crop_run crop cs tot s)) = fs_detections s"
  "detections_ready (fst (crop_run crop cs tot s)) = detections_ready s"
proof (induction cs arbitrary: tot s)
  case (Cons c cs)
  { case 1
    then show ?case using Cons.IH(1) by (auto simp: attach_def dict_simps mk_object_batch_def rbind_def split: sum.splits prod.splits if_splits)
  next
    case 2
    then show ?case using Cons.IH(2) by (auto simp: attach_def split: sum.splits prod.splits)
  next
    case 3
    then show ?case using Cons.IH(3) by (auto simp: attach_def split: sum.splits prod.splits)
  next
    case 4
    then show ?case using Cons.IH(4) by (auto simp: attach_def split: sum.splits prod.splits) }
qed auto

lemma attach_outputs_writes:
  "n \<notin> fst ` set ps \<Longrightarrow> map_of (fs_batches (fst (attach_outputs cls ixs ps s))) n = map_of (fs_batches s) n"
  "fs_image (fst (attach_outputs cls ixs ps s)) = fs_image s"
  "fs_detections (fst (attach_outputs cls ixs ps s)) = fs_detections s"
  "detections_ready (fst (attach_outputs cls ixs ps s)) = detections_ready s"
  by (induction cls ixs ps s rule: attach_outputs.induct)
    (auto simp: attach_def dict_simps mk_object_batch_def split: sum.splits if_splits)

lemma object_run_state:
  "fst (object_run infer limit source outs s) = s \<or>
    (\<exists>cls ixs xs. fst (object_run infer limit source outs s) = fst (attach_outputs cls ixs (zip (map snd outs) xs) s))"
proof (cases "fs_batch source s")
  case (Inr b)
  let ?c = "collect_chunks (infer (req_tag_of s)) (map fst outs) (ob_data b) (chunks (int (length (object_indices b))) limit)"
  show ?thesis
  proof (cases "\<exists>p ps. ?c = Inr (p # ps)")
    case True
    then obtain p ps where c: "?c = Inr (p # ps)" by blast
    let ?a = "attach_outputs (ob_class b) (object_indices b)
      (zip (map snd outs) (map (\<lambda>i. concat (map (\<lambda>c. c ! i) (p # ps))) [0..<length outs])) s"
    have "fst (object_run infer limit source outs s) = fst ?a"
      using Inr c by (simp add: object_run_def split: prod.splits sum.splits)
    then show ?thesis by blast
  next
    case False
    then have "(\<exists>e. ?c = Inl e) \<or> ?c = Inr []" by (metis list.exhaust sum.exhaust)
    then show ?thesis using Inr by (auto simp: object_run_def)
  qed
qed (simp add: object_run_def)

lemma object_run_writes:
  "n \<notin> snd ` set outs \<Longrightarrow> map_of (fs_batches (fst (object_run infer limit source outs s))) n = map_of (fs_batches s) n"
  "fs_image (fst (object_run infer limit source outs s)) = fs_image s"
  "fs_detections (fst (object_run infer limit source outs s)) = fs_detections s"
  "detections_ready (fst (object_run infer limit source outs s)) = detections_ready s"
proof -
  note st = object_run_state[of infer limit source outs s]
  show "fs_image (fst (object_run infer limit source outs s)) = fs_image s"
    "fs_detections (fst (object_run infer limit source outs s)) = fs_detections s"
    "detections_ready (fst (object_run infer limit source outs s)) = detections_ready s"
    using st attach_outputs_writes(2,3,4) by metis+
  assume n: "n \<notin> snd ` set outs"
  have "n \<notin> fst ` set (zip (map snd outs) xs)" for xs :: "'a list list" using n by (auto dest: set_zip_leftD)
  then show "map_of (fs_batches (fst (object_run infer limit source outs s))) n = map_of (fs_batches s) n"
    using st attach_outputs_writes(1) by metis
qed

lemma stage_run_fst [simp]: "fst (stage_run st s) = fst (do_run st s)"
  by (simp add: stage_run_def split: prod.splits sum.splits)

lemma detect_stage_writes_only: "writes_only (detect_stage name model lb infer p bout cout dst)"
  by (auto simp: writes_only_def detect_stage_def detect_run_def set_detections_def Let_def split: sum.splits)

lemma crop_stage_writes_only: "crop_stage name crop crops = Inr st \<Longrightarrow> writes_only st"
  by (auto simp: writes_only_def crop_stage_def crop_run_writes split: if_splits)

lemma object_stage_writes_only: "object_stage name model infer limit source outs sh = Inr st \<Longrightarrow> writes_only st"
  by (auto simp: writes_only_def object_stage_def object_run_writes split: if_splits)

lemmas shipped_writes_only = detect_stage_writes_only crop_stage_writes_only object_stage_writes_only

lemma release_all:
  "map_of (fs_batches (fold release_name ns s)) n =
     (if n \<in> set ns \<and> n \<noteq> FRAME_INPUT then None else map_of (fs_batches s) n)"
  "fs_image (fold release_name ns s) = (if FRAME_INPUT \<in> set ns then RELEASED else fs_image s)"
  by (induction ns arbitrary: s) (auto simp: release_name_def release_image_def fs_drop_def dict_simps)

text \<open>A name absent from the batches stays absent while no later stage produces it.\<close>

lemma exec_loop_absent:
  "list_all writes_only sts \<Longrightarrow> \<not> list_ex (\<lambda>st. n \<in> set (sg_produces st)) sts \<Longrightarrow>
    exec_loop stages dead i sts done s = (t, ev) \<Longrightarrow>
    (map_of (fs_batches s) n = None \<longrightarrow> map_of (fs_batches t) n = None) \<and> (fs_image s = RELEASED \<longrightarrow> fs_image t = RELEASED)"
proof (induction sts arbitrary: i "done" s ev)
  case (Cons st sts)
  define s1 where "s1 = fst (if sg_name st \<in> set (runnable stages s done) then stage_run st s
      else (s, \<lparr>oc_stage = sg_name st, oc_status = SKIPPED, oc_rows = 0, oc_error = None\<rparr>))"
  obtain ev' where e: "exec_loop stages dead (Suc i) sts (done @ [sg_name st]) (fold release_name (dead i) s1) = (t, ev')"
    using Cons.prems(3) by (auto simp: Let_def s1_def case_prod_unfold prod_eq_iff)
  have w: "map_of (fs_batches s1) n = map_of (fs_batches s) n" "fs_image s1 = fs_image s"
    using Cons.prems(1,2) by (auto simp: s1_def writes_only_def)
  show ?case using Cons.IH[OF _ _ e] Cons.prems(1,2) w by (auto simp: release_all)
qed simp


lemma exec_loop_frees:
  assumes "list_all writes_only sts" and "j < length sts" and "\<not> list_ex (\<lambda>st. n \<in> set (sg_produces st)) (drop (Suc j) sts)"
    and "n \<in> set (dead (i + j))" and "exec_loop stages dead i sts done s = (t, ev)"
  shows "if n = FRAME_INPUT then fs_image t = RELEASED else map_of (fs_batches t) n = None"
  using assms
proof (induction j arbitrary: i sts "done" s ev)
  case 0
  then obtain st rest where sts: "sts = st # rest" by (cases sts) auto
  define s1 where "s1 = fst (if sg_name st \<in> set (runnable stages s done) then stage_run st s
      else (s, \<lparr>oc_stage = sg_name st, oc_status = SKIPPED, oc_rows = 0, oc_error = None\<rparr>))"
  obtain ev' where e: "exec_loop stages dead (Suc i) rest (done @ [sg_name st]) (fold release_name (dead i) s1) = (t, ev')"
    using 0(5) sts by (auto simp: Let_def s1_def case_prod_unfold prod_eq_iff)
  show ?case using exec_loop_absent[OF _ _ e, of n] 0(1,3,4) sts by (auto simp: release_all)
next
  case (Suc j)
  then obtain st rest where sts: "sts = st # rest" by (cases sts) auto
  define s1 where "s1 = fst (if sg_name st \<in> set (runnable stages s done) then stage_run st s
      else (s, \<lparr>oc_stage = sg_name st, oc_status = SKIPPED, oc_rows = 0, oc_error = None\<rparr>))"
  obtain ev' where e: "exec_loop stages dead (Suc i) rest (done @ [sg_name st]) (fold release_name (dead i) s1) = (t, ev')"
    using Suc.prems(5) sts by (auto simp: Let_def s1_def case_prod_unfold prod_eq_iff)
  show ?case by (rule Suc.IH[OF _ _ _ _ e]) (use Suc.prems sts in auto)
qed

text \<open>
  A frame gives its memory back.  In a graph whose stages write only what they declare, take a name that some stage
  reads, that the event does not use, and that no stage produces after its last reader.  When \<^verbatim>\<open>execute\<close> returns, whatever ran,
  was skipped or failed, the batch of that name is gone; for the frame itself, the pixels are.
\<close>

theorem dead_names_freed:
  assumes "g_stages g = pre @ st # post" and "list_all writes_only (g_stages g)" and "n \<in> set (reads st)" and "n \<notin> retain g"
    and "\<not> list_ex (\<lambda>st'. n \<in> set (reads st') \<or> n \<in> set (sg_produces st')) post" and "execute g s = (t, ev)"
  shows "if n = FRAME_INPUT then image_released t else map_of (fs_batches t) n = None"
proof -
  have r: "read_in n (g_stages g)" using assms(1,3) by (simp add: read_in_def)
  obtain j where j: "map_of (last_readers 0 (g_stages g) []) n = Some j" "j < length (g_stages g)"
    "\<not> read_in n (drop (Suc j) (g_stages g))" using last_readers_Some[OF r, of 0 "[]"] by auto
  have "length pre \<le> j"
  proof (rule ccontr)
    assume "\<not> length pre \<le> j"
    then have "st \<in> set (drop (Suc j) (g_stages g))" using assms(1) by (auto simp: drop_Cons' Suc_le_eq not_le)
    then show False using j(3) assms(3) by (auto simp: read_in_def list_ex_iff)
  qed
  have "\<not> list_ex (\<lambda>st. n \<in> set (sg_produces st)) (drop (Suc j) (g_stages g))"
    using assms(1,5) \<open>length pre \<le> j\<close> by (auto simp: list_ex_iff drop_Cons' Suc_diff_le dest!: in_set_dropD split: if_splits)
  moreover have "n \<in> set (dead_after g j)" using j(1) assms(4) by (simp add: dead_after_iff)
  ultimately show ?thesis
    using exec_loop_frees[OF assms(2) j(2), of n "dead_after g" 0 "g_stages g" "[]" s t ev] assms(6)
    by (auto simp: execute_def image_released_def RELEASED_def)
qed

section \<open>The shipped graph\<close>

definition DEFAULT_RECORD_FIELDS :: "(string, string list) dict" where
  "DEFAULT_RECORD_FIELDS =
     [(''embedding'', [''ship_embedding'', ''person_embedding'']), (''mask_area_px'', [''ship_mask_area''])]"

definition TRACKING_RECORD_FIELDS :: "(string, string list) dict" where
  "TRACKING_RECORD_FIELDS = [(''track_id'', [''track_id'']), (''track_state'', [''track_state''])]"

record perception_settings =
  detector_input :: "int \<times> int"
  decode_settings :: decode_params
  ship_mask_crop :: "int \<times> int"
  ship_reid_crop :: "int \<times> int"
  person_reid_crop :: "int \<times> int"
  model_overrides :: "(string, string) dict"

text \<open>
  What the graph is built over: the image operations, the models (a detector's answer and an object model's quantities), and
  what a model declares.  \<^verbatim>\<open>pv_answer stage model\<close> includes the stage's \<^verbatim>\<open>combine\<close>.
\<close>

record 'r providers =
  pv_letterbox :: "int \<times> int \<Rightarrow> ndarray \<Rightarrow> letterboxed result"
  pv_crop :: "ndarray \<Rightarrow> box list \<Rightarrow> int \<times> int \<Rightarrow> 'r list result"
  pv_detect :: "string \<Rightarrow> req_tag \<Rightarrow> ndarray \<Rightarrow> (string, det_output) dict result"
  pv_answer :: "string \<Rightarrow> string \<Rightarrow> req_tag \<Rightarrow> 'r list \<Rightarrow> (string, 'r list) dict result"
  pv_max_batch :: "string \<Rightarrow> int option"
  pv_resolve :: "string \<Rightarrow> servable result"

definition declared_outputs :: "'r providers \<Rightarrow> string \<Rightarrow> string list" where
  "declared_outputs pv model = (case pv_resolve pv model of Inr (Some (_, outs)) \<Rightarrow> remdups (map sname outs) | _ \<Rightarrow> [])"

definition model_for :: "perception_settings \<Rightarrow> string \<Rightarrow> string" where
  "model_for cfg n = (case map_of (model_overrides cfg) n of Some x \<Rightarrow> x | None \<Rightarrow> n)"

definition perception_detect :: "perception_settings \<Rightarrow> 'r providers \<Rightarrow> 'r stage" where
  "perception_detect cfg pv =
     (let model = model_for cfg ''ship_detector'' in
      detect_stage ''detect'' model (pv_letterbox pv (detector_input cfg)) (pv_detect pv model) (decode_settings cfg)
        (boxes_output None (declared_outputs pv model)) (count_output None (declared_outputs pv model)) (detector_input cfg))"

definition perception_crop :: "perception_settings \<Rightarrow> 'r providers \<Rightarrow> 'r stage result" where
  "perception_crop cfg pv =
     rbind (mk_crop_spec ''ship_mask_crops'' ''ship'' (ship_mask_crop cfg)) (\<lambda>a.
     rbind (mk_crop_spec ''ship_reid_crops'' ''ship'' (ship_reid_crop cfg)) (\<lambda>b.
     rbind (mk_crop_spec ''person_crops'' ''person'' (person_reid_crop cfg)) (\<lambda>c.
       crop_stage ''crop'' (pv_crop pv) [a, b, c])))"

definition perception_object ::
  "perception_settings \<Rightarrow> 'r providers \<Rightarrow> string \<Rightarrow> string \<Rightarrow> (string, string) dict \<Rightarrow> int \<times> int \<Rightarrow> 'r stage result" where
  "perception_object cfg pv name source outs hw =
     (let model = model_for cfg name in
      object_stage name model (pv_answer pv name model) (pv_max_batch pv model) source outs (Some [3, fst hw, snd hw]))"

text \<open>\<^verbatim>\<open>tracking\<close> is the stage \<^verbatim>\<open>build_tracking_stage\<close> makes, when tracking is enabled.\<close>

definition build_perception_graph ::
  "perception_settings \<Rightarrow> 'r providers \<Rightarrow> 'r stage option \<Rightarrow> 'r graph result" where
  "build_perception_graph cfg pv tracking =
     rbind (perception_crop cfg pv) (\<lambda>crop.
     rbind (perception_object cfg pv ''ship_segmenter'' ''ship_mask_crops'' [(''mask_area_px'', ''ship_mask_area'')] (ship_mask_crop cfg)) (\<lambda>seg.
     rbind (perception_object cfg pv ''ship_embedder'' ''ship_reid_crops'' [(''embedding'', ''ship_embedding'')] (ship_reid_crop cfg)) (\<lambda>ship.
     rbind (perception_object cfg pv ''person_embedder'' ''person_crops'' [(''embedding'', ''person_embedding'')] (person_reid_crop cfg)) (\<lambda>person.
       mk_graph ([perception_detect cfg pv, crop, seg, ship, person] @ (case tracking of None \<Rightarrow> [] | Some t \<Rightarrow> [t]))
         (DEFAULT_RECORD_FIELDS @ (case tracking of None \<Rightarrow> [] | Some t \<Rightarrow> TRACKING_RECORD_FIELDS))))))"

text \<open>The five stages of the graph keep to what they declare, whatever the models and the image operations do.\<close>

lemma perception_stages:
  assumes "build_perception_graph cfg pv None = Inr g"
  shows "list_all reads_only (g_stages g)" "list_all writes_only (g_stages g)"
    "map sg_name (g_stages g) = [''detect'', ''crop'', ''ship_segmenter'', ''ship_embedder'', ''person_embedder'']"
    "g_field_map g = DEFAULT_RECORD_FIELDS" "mk_graph (g_stages g) DEFAULT_RECORD_FIELDS = Inr g"
    "map reads (g_stages g) =
       [[FRAME_INPUT], [DETECTIONS, FRAME_INPUT], [''ship_mask_crops''], [''ship_reid_crops''], [''person_crops'']]"
    "map sg_produces (g_stages g) =
       [[DETECTIONS], [''ship_mask_crops'', ''ship_reid_crops'', ''person_crops''], [''ship_mask_area''], [''ship_embedding''],
        [''person_embedding'']]"
proof -
  obtain c x y z where c: "perception_crop cfg pv = Inr c"
    and x: "perception_object cfg pv ''ship_segmenter'' ''ship_mask_crops'' [(''mask_area_px'', ''ship_mask_area'')] (ship_mask_crop cfg) = Inr x"
    and y: "perception_object cfg pv ''ship_embedder'' ''ship_reid_crops'' [(''embedding'', ''ship_embedding'')] (ship_reid_crop cfg) = Inr y"
    and z: "perception_object cfg pv ''person_embedder'' ''person_crops'' [(''embedding'', ''person_embedding'')] (person_reid_crop cfg) = Inr z"
    and mk: "mk_graph [perception_detect cfg pv, c, x, y, z] DEFAULT_RECORD_FIELDS = Inr g"
    using assms by (auto simp: build_perception_graph_def rbind_Inr_iff)
  have g: "g_stages g = [perception_detect cfg pv, c, x, y, z]" "g_field_map g = DEFAULT_RECORD_FIELDS"
    using mk by (auto simp: mk_graph_def split: if_splits)
  then show "g_field_map g = DEFAULT_RECORD_FIELDS" "mk_graph (g_stages g) DEFAULT_RECORD_FIELDS = Inr g" using mk by auto
  obtain crops where cs: "crop_stage ''crop'' (pv_crop pv) crops = Inr c"
    "map cs_name crops = [''ship_mask_crops'', ''ship_reid_crops'', ''person_crops'']"
    using c by (auto simp: perception_crop_def mk_crop_spec_def rbind_Inr_iff split: if_splits)
  note os = x[unfolded perception_object_def Let_def] y[unfolded perception_object_def Let_def] z[unfolded perception_object_def Let_def]
  show "list_all reads_only (g_stages g)" "list_all writes_only (g_stages g)"
    using os cs(1) by (auto simp: g perception_detect_def Let_def intro: shipped_reads_only shipped_writes_only)
  show "map sg_name (g_stages g) = [''detect'', ''crop'', ''ship_segmenter'', ''ship_embedder'', ''person_embedder'']"
    using os cs by (auto simp: g perception_detect_def detect_stage_def crop_stage_def object_stage_def Let_def split: if_splits)
  show "map reads (g_stages g) =
       [[FRAME_INPUT], [DETECTIONS, FRAME_INPUT], [''ship_mask_crops''], [''ship_reid_crops''], [''person_crops'']]"
    using os cs by (auto simp: g reads_def perception_detect_def detect_stage_def crop_stage_def object_stage_def Let_def split: if_splits)
  show "map sg_produces (g_stages g) =
       [[DETECTIONS], [''ship_mask_crops'', ''ship_reid_crops'', ''person_crops''], [''ship_mask_area''], [''ship_embedding''],
        [''person_embedding'']]"
    using os cs by (auto simp: g perception_detect_def detect_stage_def crop_stage_def object_stage_def Let_def split: if_splits)
qed


definition sample_settings :: perception_settings where
  "sample_settings =
     \<lparr>detector_input = (640, 640), decode_settings = sample_params, ship_mask_crop = (256, 256), ship_reid_crop = (224, 224),
      person_reid_crop = (256, 128), model_overrides = [(''ship_detector'', ''ship_detector_v2'')]\<rparr>"

definition sample_providers :: "int providers" where
  "sample_providers =
     \<lparr>pv_letterbox = (\<lambda>_ img. Inr \<lparr>lb_tensor = img, lb_scale = 1, lb_pad = (0, 0), lb_extents = (8, 8)\<rparr>),
      pv_crop = (\<lambda>_ bs _. Inr (map (\<lambda>(x1, y1, x2, y2). \<lfloor>x2 - x1\<rfloor>) bs)),
      pv_detect = (\<lambda>_ _ _. Inr [(''boxes'', \<lparr>do_width = 6, do_batch = [sample_rows]\<rparr>)]),
      pv_answer = (\<lambda>_ _ _ rows. Inr [(''embedding'', map (\<lambda>r. r * r) rows), (''mask_area_px'', rows)]),
      pv_max_batch = (\<lambda>_. Some 16), pv_resolve = (\<lambda>_. Inr None)\<rparr>"

definition sample_graph :: "int graph" where
  "sample_graph = projr (build_perception_graph sample_settings sample_providers None)"

definition sample_camera_frame :: "int frame_state" where
  "sample_camera_frame = (sample_frame ''quay'' 1)
     \<lparr>fs_image := \<lparr>nd_dtype = NpUint8, nd_shape = [8, 8, 3], nd_data = replicate 192 7\<rparr>, fs_height := 8, fs_width := 8\<rparr>"

lemma sample_graph_built: "build_perception_graph sample_settings sample_providers None = Inr sample_graph"
proof -
  have "\<not> isl (build_perception_graph sample_settings sample_providers None)" by code_simp
  then show ?thesis by (simp add: sample_graph_def)
qed

lemma sample_graph_validates: "validate_graph (\<lambda>_. Inr None) sample_graph = Inr ()"
  by code_simp


lemma liveness_transparent_witness:
  "snd (execute sample_graph sample_camera_frame) =
     snd (exec_loop (g_stages sample_graph) (\<lambda>_. []) 0 (g_stages sample_graph) [] sample_camera_frame) \<and>
   [oc_stage oc. Finished oc \<leftarrow> snd (execute sample_graph sample_camera_frame), oc_status oc = RAN] =
     [''detect'', ''crop'', ''ship_segmenter'', ''ship_embedder'']"
proof
  note p = perception_stages[OF sample_graph_built]
  show "snd (execute sample_graph sample_camera_frame) =
      snd (exec_loop (g_stages sample_graph) (\<lambda>_. []) 0 (g_stages sample_graph) [] sample_camera_frame)"
    by (rule liveness_transparent[OF p(5) sample_graph_validates p(1) prod.collapse[symmetric] prod.collapse[symmetric],
          THEN conjunct1, of sample_camera_frame])
  show "[oc_stage oc. Finished oc \<leftarrow> snd (execute sample_graph sample_camera_frame), oc_status oc = RAN] =
     [''detect'', ''crop'', ''ship_segmenter'', ''ship_embedder'']" by code_simp
qed

lemma dead_names_freed_witness: "image_released (fst (execute sample_graph sample_camera_frame))"
proof -
  let ?sts = "g_stages sample_graph"
  have "length ?sts = 5" by code_simp
  then have s: "?sts = take 1 ?sts @ ?sts ! 1 # drop (Suc 1) ?sts" using id_take_nth_drop[of 1 ?sts] by simp
  have r: "FRAME_INPUT \<in> set (reads (?sts ! 1))" by code_simp
  have k: "FRAME_INPUT \<notin> retain sample_graph" by code_simp
  have l: "\<not> list_ex (\<lambda>st'. FRAME_INPUT \<in> set (reads st') \<or> FRAME_INPUT \<in> set (sg_produces st')) (drop (Suc 1) ?sts)" by code_simp
  show ?thesis
    using dead_names_freed[OF s perception_stages(2)[OF sample_graph_built] r k l prod.collapse[symmetric]] by simp
qed

section \<open>Chunked and unchunked inference agree\<close>

definition rows_at :: "'a list \<Rightarrow> int \<times> int \<Rightarrow> 'a list" where
  "rows_at rows c = take (nat (snd c - fst c)) (drop (nat (fst c)) rows)"

lemma chunk_from_rows:
  "0 \<le> start \<Longrightarrow> 0 < limit \<Longrightarrow> cnt = int (length rows) \<Longrightarrow> concat (map (rows_at rows) (chunk_from start cnt limit)) = drop (nat start) rows"
proof (induction start cnt limit rule: chunk_from.induct)
  case (1 start cnt limit)
  show ?case
  proof (cases "start < cnt")
    case True
    have n: "nat (start + limit) = nat limit + nat start" using 1(2,3) by simp
    have "rows_at rows (start, min (start + limit) cnt) = take (nat limit) (drop (nat start) rows)"
      using True 1(2-4) by (auto simp: rows_at_def min_def)
    moreover have "concat (map (rows_at rows) (chunk_from (start + limit) cnt limit)) = drop (nat limit) (drop (nat start) rows)"
      using 1(1) True 1(2-4) n by simp
    ultimately show ?thesis using True 1(3) by (simp add: chunk_from.simps[of start] del: drop_drop)
  qed (use 1 in \<open>simp add: chunk_from.simps[of start]\<close>)
qed

lemma chunks_rows: "\<forall>l. limit = Some l \<longrightarrow> 0 \<le> l \<Longrightarrow> concat (map (rows_at rows) (chunks (int (length rows)) limit)) = rows"
  using chunk_from_rows[of 0 "the limit" "int (length rows)" rows] by (cases limit) (auto simp: chunks_def rows_at_def)

lemma chunks_nonempty: "\<forall>l. limit = Some l \<longrightarrow> 0 \<le> l \<Longrightarrow> chunks cnt limit \<noteq> []"
  by (cases limit) (auto simp: chunks_def chunk_from.simps[of 0])

text \<open>A model that answers row by row: \<^verbatim>\<open>fs\<close> gives what each output makes of a row.\<close>

definition rowwise :: "(string, 'r \<Rightarrow> 'r) dict \<Rightarrow> ('r list \<Rightarrow> (string, 'r list) dict result) \<Rightarrow> bool" where
  "rowwise fs infer \<longleftrightarrow> (\<forall>rows. infer rows = Inr (map (\<lambda>(out, f). (out, map f rows)) fs))"

lemma rmapM_take_output:
  "rmapM (take_output (map (\<lambda>(out, f). (out, map f rows)) fs)) outs =
     (if list_all (\<lambda>out. map_of fs out \<noteq> None) outs then Inr (map (\<lambda>out. map (the (map_of fs out)) rows) outs) else Inl InferenceError)"
proof (induction outs)
  case (Cons out outs)
  have "map_of (map (\<lambda>(out, f). (out, map f rows)) fs) out = map_option (\<lambda>f. map f rows) (map_of fs out)" by (induction fs) auto
  then show ?case using Cons by (auto simp: take_output_def split: option.splits)
qed simp

lemma collect_chunks_rowwise:
  "rowwise fs infer \<Longrightarrow> cs \<noteq> [] \<Longrightarrow> collect_chunks infer outs rows cs =
     (if list_all (\<lambda>out. map_of fs out \<noteq> None) outs
      then Inr (map (\<lambda>c. map (\<lambda>out. map (the (map_of fs out)) (rows_at rows c)) outs) cs) else Inl InferenceError)"
proof (induction infer outs rows cs rule: collect_chunks.induct)
  case (2 infer outs rows start stop rest)
  have "infer (take (nat (stop - start)) (drop (nat start) rows)) = Inr (map (\<lambda>(out, f). (out, map f (rows_at rows (start, stop)))) fs)"
    using 2(2) by (simp add: rowwise_def rows_at_def)
  then show ?case using 2(1) 2(2)
    by (cases rest) (auto simp: rmapM_take_output split del: if_split split: if_splits)
qed simp

lemma object_run_pieces:
  "fs_batch source s = Inr b \<Longrightarrow>
    collect_chunks (infer (req_tag_of s)) (map fst outs) (ob_data b) (chunks (int (length (object_indices b))) limit) = Inr ps \<Longrightarrow> ps \<noteq> [] \<Longrightarrow>
    object_run infer limit source outs s =
      (case attach_outputs (ob_class b) (object_indices b)
              (zip (map snd outs) (map (\<lambda>i. concat (map (\<lambda>c. c ! i) ps)) [0..<length outs])) s of
         (s', Inl e) \<Rightarrow> (s', Inl e) | (s', Inr _) \<Rightarrow> (s', Inr (int (length (object_indices b)))))"
  by (cases ps) (simp_all add: object_run_def)

text \<open>
  C15: chunking is invisible.  A crowded frame's rows go to the model in pieces no larger than its maximum batch.  For a model
  that answers row by row, the stage leaves the same frame state and the same outcome as with one request for all rows,
  missing outputs and empty batches included.
\<close>

theorem chunking_invisible:
  assumes "\<forall>rows. infer (req_tag_of s) rows = Inr (map (\<lambda>(out, f). (out, map f rows)) fs)"
    and "0 \<le> l" and "\<forall>b. fs_batch source s = Inr b \<longrightarrow> length (ob_data b) = length (object_indices b)"
  shows "object_run infer (Some l) source outs s = object_run infer None source outs s"
proof (cases "fs_batch source s")
  case (Inr b)
  let ?n = "int (length (object_indices b))" and ?rows = "ob_data b"
  have rw: "rowwise fs (infer (req_tag_of s))" using assms(1) by (simp add: rowwise_def)
  have n: "?n = int (length ?rows)" using assms(3) Inr by simp
  have cols: "map (\<lambda>i. concat (map (\<lambda>c. c ! i) (map (\<lambda>c. map (\<lambda>out. map (the (map_of fs out)) (rows_at ?rows c)) (map fst outs)) (chunks ?n lim))))
      [0..<length outs] = map (\<lambda>i. map (the (map_of fs (map fst outs ! i))) ?rows) [0..<length outs]" if "lim = None \<or> lim = Some l" for lim
  proof (rule map_cong[OF refl])
    fix i assume i: "i \<in> set [0..<length outs]"
    let ?f = "the (map_of fs (map fst outs ! i))"
    have "concat (map (\<lambda>c. c ! i) (map (\<lambda>c. map (\<lambda>out. map (the (map_of fs out)) (rows_at ?rows c)) (map fst outs)) (chunks ?n lim))) =
        concat (map (\<lambda>c. map ?f (rows_at ?rows c)) (chunks ?n lim))" using i by (simp add: comp_def)
    also have "\<dots> = map ?f (concat (map (rows_at ?rows) (chunks ?n lim)))" by (simp add: map_concat comp_def)
    also have "\<dots> = map ?f ?rows" unfolding n using chunks_rows[of lim ?rows] assms(2) that by auto
    finally show "concat (map (\<lambda>c. c ! i) (map (\<lambda>c. map (\<lambda>out. map (the (map_of fs out)) (rows_at ?rows c)) (map fst outs)) (chunks ?n lim))) =
        map ?f ?rows" .
  qed
  have run: "object_run infer lim source outs s =
      (if list_all (\<lambda>out. map_of fs out \<noteq> None) (map fst outs)
       then case attach_outputs (ob_class b) (object_indices b)
                  (zip (map snd outs) (map (\<lambda>i. map (the (map_of fs (map fst outs ! i))) ?rows) [0..<length outs])) s of
              (s', Inl e) \<Rightarrow> (s', Inl e) | (s', Inr _) \<Rightarrow> (s', Inr ?n)
       else (s, Inl InferenceError))" if lim: "lim = None \<or> lim = Some l" for lim
  proof -
    have ne: "chunks ?n lim \<noteq> []" using chunks_nonempty[of lim ?n] assms(2) lim by auto
    let ?ok = "list_all (\<lambda>out. map_of fs out \<noteq> None) (map fst outs)"
    note cc = collect_chunks_rowwise[OF rw ne, of "map fst outs" ?rows]
    show ?thesis
    proof (cases ?ok)
      case True
      then show ?thesis
        using object_run_pieces[of source s b infer outs lim, OF Inr cc[unfolded if_P[OF True]]] ne unfolding cols[OF lim] by simp
    next
      case False
      then show ?thesis using Inr cc[unfolded if_not_P[OF False]] unfolding object_run_def by simp
    qed
  qed
  show ?thesis using run[of None] run[of "Some l"] by simp
qed (simp add: object_run_def)


definition sample_crowd :: "int frame_state" where
  "sample_crowd = attach \<lparr>ob_name = ''person_crops'', ob_class = ''person'', object_indices = [0, 2, 3, 5, 8], ob_data = [1, 4, 9, 16, 25]\<rparr>
     (sample_frame ''quay'' 1)"

lemma chunking_invisible_witness:
  "let model = (\<lambda>_ rows. Inr (map (\<lambda>(out, f). (out, map f rows)) [(''embedding'', \<lambda>r. r + 1)])) in
     object_run model (Some 2) ''person_crops'' [(''embedding'', ''person_embedding'')] sample_crowd =
     object_run model None ''person_crops'' [(''embedding'', ''person_embedding'')] sample_crowd"
  unfolding Let_def
  by (rule chunking_invisible[of _ _ "[(''embedding'', \<lambda>r. r + 1)]"])
    (auto simp: sample_crowd_def attach_def fs_batch_def sample_frame_def dict_simps)

section \<open>What is announced is run\<close>

definition outcomes :: "observed list \<Rightarrow> stage_outcome list" where
  "outcomes ev = concat (map (\<lambda>e. case e of Finished oc \<Rightarrow> [oc] | Planned _ \<Rightarrow> []) ev)"

definition announced :: "observed list \<Rightarrow> string list" where
  "announced ev = concat (map (\<lambda>e. case e of Finished oc \<Rightarrow> [] | Planned ns \<Rightarrow> ns) ev)"

lemma event_simps [simp]:
  "outcomes [] = []" "outcomes (Planned ns # ev) = outcomes ev" "outcomes (Finished oc # ev) = oc # outcomes ev"
  "announced [] = []" "announced (Planned ns # ev) = ns @ announced ev" "announced (Finished oc # ev) = announced ev"
  by (simp_all add: outcomes_def announced_def)

definition ready_in :: "'r frame_state \<Rightarrow> 'r stage \<Rightarrow> bool" where
  "ready_in s st \<longleftrightarrow> list_all (available s) (sg_consumes st) \<and> list_all (non_empty s) (sg_requires st)"

text \<open>No stage still to run will write a name the frame already has.\<close>

definition written :: "'r frame_state \<Rightarrow> string \<Rightarrow> bool" where
  "written s n \<longleftrightarrow> map_of (fs_batches s) n \<noteq> None \<or> (n = DETECTIONS \<and> detections_ready s)"

definition unwritten :: "'r frame_state \<Rightarrow> 'r stage list \<Rightarrow> bool" where
  "unwritten s sts \<longleftrightarrow> (\<forall>n. written s n \<longrightarrow> n \<notin> set (concat (map sg_produces sts)))"

lemma release_detections [simp]:
  "fs_detections (fold release_name ns s) = fs_detections s" "detections_ready (fold release_name ns s) = detections_ready s"
  by (induction ns arbitrary: s) (auto simp: release_name_def release_image_def fs_drop_def)

lemma step_keeps:
  assumes "writes_only h" and "n \<notin> set ns" and "written s n \<longrightarrow> n \<notin> set (sg_produces h)"
  shows "available s n \<Longrightarrow> available (fold release_name ns (fst (do_run h s))) n"
    and "non_empty s n \<Longrightarrow> non_empty (fold release_name ns (fst (do_run h s))) n"
proof -
  let ?s = "fst (do_run h s)"
  have w: "map_of (fs_batches ?s) m = map_of (fs_batches s) m" if "m \<notin> set (sg_produces h)" for m
    using assms(1) that by (simp add: writes_only_def)
  have i: "fs_image ?s = fs_image s" using assms(1) by (simp add: writes_only_def)
  have d: "fs_detections ?s = fs_detections s" "detections_ready ?s = detections_ready s" if "DETECTIONS \<notin> set (sg_produces h)"
    using assms(1) that by (simp_all add: writes_only_def)
  show "available s n \<Longrightarrow> available (fold release_name ns ?s) n" "non_empty s n \<Longrightarrow> non_empty (fold release_name ns ?s) n"
    using w[of n] i d assms(2,3)
    by (auto simp: available_def non_empty_def written_def release_all image_released_def split: option.splits)
qed

lemma step_unwritten:
  assumes "writes_only h" and "unwritten s (h # sts)" and "distinct (concat (map sg_produces (h # sts)))"
  shows "unwritten (fold release_name ns (fst (do_run h s))) sts"
proof -
  have "written s n \<or> n \<in> set (sg_produces h)" if "written (fold release_name ns (fst (do_run h s))) n" for n
    using assms(1) that by (auto simp: written_def release_all writes_only_def split: if_splits)
  then show ?thesis using assms(2,3) by (auto simp: unwritten_def)
qed

lemma release_unwritten: "unwritten s (h # sts) \<Longrightarrow> unwritten (fold release_name ns s) sts"
  by (auto simp: unwritten_def written_def release_all split: if_splits)

lemma release_keeps:
  assumes "n \<notin> set ns"
  shows "available s n \<Longrightarrow> available (fold release_name ns s) n" "non_empty s n \<Longrightarrow> non_empty (fold release_name ns s) n"
  using assms by (auto simp: available_def non_empty_def release_all image_released_def)

text \<open>One turn of the loop: what it does to the state, and what it reports.\<close>

lemma exec_loop_turn:
  assumes "exec_loop stages dead i (st # sts) done s = (t, ev)"
  obtains oc rest where "exec_loop stages dead (Suc i) sts (done @ [sg_name st])
      (fold release_name (dead i) (if sg_name st \<in> set (runnable stages s done) then fst (do_run st s) else s)) = (t, rest)"
    and "outcomes ev = oc # outcomes rest" and "set (announced ev) = set (runnable stages s done) \<union> set (announced rest)"
    and "oc_stage oc = sg_name st" and "(oc_status oc = SKIPPED) = (sg_name st \<notin> set (runnable stages s done))"
proof -
  let ?r = "runnable stages s done"
  define p where "p = (if sg_name st \<in> set ?r then stage_run st s
      else (s, \<lparr>oc_stage = sg_name st, oc_status = SKIPPED, oc_rows = 0, oc_error = None\<rparr>))"
  obtain rest where e: "exec_loop stages dead (Suc i) sts (done @ [sg_name st]) (fold release_name (dead i) (fst p)) = (t, rest)"
    "ev = (if ?r = [] then [] else [Planned ?r]) @ Finished (snd p) # rest"
    using assms by (auto simp: Let_def p_def[symmetric] case_prod_unfold prod_eq_iff)
  have "fst p = (if sg_name st \<in> set ?r then fst (do_run st s) else s)" by (simp add: p_def)
  moreover have "oc_stage (snd p) = sg_name st" "(oc_status (snd p) = SKIPPED) = (sg_name st \<notin> set ?r)"
    by (auto simp: p_def stage_run_def split: prod.splits sum.splits)
  ultimately show thesis using that[of rest "snd p"] e by (auto split: if_splits)
qed


lemma runnable_iff:
  assumes "distinct (map sg_name stages)" and "st \<in> set stages"
  shows "sg_name st \<in> set (runnable stages s done) \<longleftrightarrow> sg_name st \<notin> set done \<and> ready_in s st"
proof -
  have "st' = st" if "st' \<in> set stages" "sg_name st' = sg_name st" for st'
    using assms that by (auto simp: distinct_map inj_on_def)
  then show ?thesis using assms(2) by (auto simp: runnable_def ready_in_def)
qed

lemma turn_keeps_ready:
  assumes "writes_only h" and "unwritten s (h # sts)" and "ready_in s st" and "set (sg_requires st) \<subseteq> set (sg_consumes st)"
    and "\<forall>n \<in> set (sg_consumes st). n \<notin> set ns"
  shows "ready_in (fold release_name ns (if b then fst (do_run h s) else s)) st"
proof -
  let ?s = "fold release_name ns (if b then fst (do_run h s) else s)"
  have w: "written s n \<longrightarrow> n \<notin> set (sg_produces h)" for n using assms(2) by (auto simp: unwritten_def)
  have "available ?s n" if "available s n" "n \<notin> set ns" for n
    using step_keeps(1)[OF assms(1) that(2) w that(1)] release_keeps(1)[OF that(2,1)] by simp
  moreover have "non_empty ?s n" if "non_empty s n" "n \<notin> set ns" for n
    using step_keeps(2)[OF assms(1) that(2) w that(1)] release_keeps(2)[OF that(2,1)] by simp
  ultimately show ?thesis using assms(3-5) by (auto simp: ready_in_def list_all_iff)
qed

lemma exec_loop_runs_ready:
  assumes "g_stages g = pre @ sts" and "distinct (map sg_name (g_stages g))" and "list_all writes_only (g_stages g)"
    and "\<forall>st \<in> set (g_stages g). set (sg_requires st) \<subseteq> set (sg_consumes st)"
    and "distinct (concat (map sg_produces sts))" and "unwritten s sts" and "st \<in> set sts" and "ready_in s st"
    and "exec_loop (g_stages g) (dead_after g) (length pre) sts (map sg_name pre) s = (t, ev)"
  shows "\<exists>oc \<in> set (outcomes ev). oc_stage oc = sg_name st \<and> oc_status oc \<noteq> SKIPPED"
  using assms(1,5-)
proof (induction sts arbitrary: pre s ev)
  case (Cons h sts)
  let ?r = "runnable (g_stages g) s (map sg_name pre)"
  let ?s = "fold release_name (dead_after g (length pre)) (if sg_name h \<in> set ?r then fst (do_run h s) else s)"
  obtain oc rest where turn: "exec_loop (g_stages g) (dead_after g) (Suc (length pre)) sts (map sg_name pre @ [sg_name h]) ?s = (t, rest)"
    "outcomes ev = oc # outcomes rest" "oc_stage oc = sg_name h" "(oc_status oc = SKIPPED) = (sg_name h \<notin> set ?r)"
    by (rule exec_loop_turn[OF Cons.prems(6)])
  show ?case
  proof (cases "st = h")
    case True
    have "sg_name h \<notin> set (map sg_name pre)" "h \<in> set (g_stages g)" using assms(2) Cons.prems(1) by auto
    then have "sg_name h \<in> set ?r" using runnable_iff[OF assms(2)] Cons.prems(5) True by blast
    then show ?thesis using turn True by auto
  next
    case False
    then have st: "st \<in> set sts" using Cons.prems(4) by simp
    have wo: "writes_only h" using assms(3) Cons.prems(1) by (simp add: list_all_iff)
    have live: "\<forall>n \<in> set (sg_consumes st). n \<notin> set (dead_after g (length pre))"
    proof (intro ballI notI)
      fix n assume n: "n \<in> set (sg_consumes st)" "n \<in> set (dead_after g (length pre))"
      have "read_in n sts" using st n(1) by (auto simp: read_in_def list_ex_iff reads_def)
      then show False using dead_unread[OF n(2)] Cons.prems(1) by simp
    qed
    have r: "ready_in ?s st"
      by (rule turn_keeps_ready[OF wo Cons.prems(3,5) _ live]) (use assms(4) Cons.prems(1) st in auto)
    have u: "unwritten ?s sts" using step_unwritten[OF wo Cons.prems(3,2)] release_unwritten[OF Cons.prems(3)] by auto
    have "\<exists>oc \<in> set (outcomes rest). oc_stage oc = sg_name st \<and> oc_status oc \<noteq> SKIPPED"
      by (rule Cons.IH[of "pre @ [h]", OF _ _ u st r]) (use Cons.prems(1,2) turn(1) in auto)
    then show ?thesis using turn(2) by auto
  qed
qed simp

lemma exec_loop_plan:
  assumes "g_stages g = pre @ sts" and "distinct (map sg_name (g_stages g))" and "list_all writes_only (g_stages g)"
    and "\<forall>st \<in> set (g_stages g). set (sg_requires st) \<subseteq> set (sg_consumes st)"
    and "distinct (concat (map sg_produces sts))" and "unwritten s sts"
    and "exec_loop (g_stages g) (dead_after g) (length pre) sts (map sg_name pre) s = (t, ev)"
  shows "map oc_stage (outcomes ev) = map sg_name sts \<and>
    set (announced ev) = oc_stage ` {oc \<in> set (outcomes ev). oc_status oc \<noteq> SKIPPED}"
  using assms(1,5-)
proof (induction sts arbitrary: pre s ev)
  case (Cons h sts)
  let ?r = "runnable (g_stages g) s (map sg_name pre)"
  let ?s = "fold release_name (dead_after g (length pre)) (if sg_name h \<in> set ?r then fst (do_run h s) else s)"
  obtain oc rest where turn: "exec_loop (g_stages g) (dead_after g) (Suc (length pre)) sts (map sg_name pre @ [sg_name h]) ?s = (t, rest)"
    "outcomes ev = oc # outcomes rest" "set (announced ev) = set ?r \<union> set (announced rest)" "oc_stage oc = sg_name h"
    "(oc_status oc = SKIPPED) = (sg_name h \<notin> set ?r)"
    by (rule exec_loop_turn[OF Cons.prems(4)])
  have wo: "writes_only h" using assms(3) Cons.prems(1) by (simp add: list_all_iff)
  have u: "unwritten ?s sts" using step_unwritten[OF wo Cons.prems(3,2)] release_unwritten[OF Cons.prems(3)] by auto
  have ih: "map oc_stage (outcomes rest) = map sg_name sts \<and>
      set (announced rest) = oc_stage ` {oc \<in> set (outcomes rest). oc_status oc \<noteq> SKIPPED}"
    by (rule Cons.IH[of "pre @ [h]", OF _ _ u]) (use Cons.prems(1,2) turn(1) in auto)
  have "x \<in> oc_stage ` {oc \<in> set (outcomes ev). oc_status oc \<noteq> SKIPPED}" if x: "x \<in> set ?r" for x
  proof -
    obtain st where st: "st \<in> set (g_stages g)" "x = sg_name st" "sg_name st \<notin> set (map sg_name pre)" "ready_in s st"
      using x by (auto simp: runnable_def simp flip: ready_in_def)
    then have "st \<in> set (h # sts)" using Cons.prems(1) by auto
    from exec_loop_runs_ready[OF Cons.prems(1) assms(2-4) Cons.prems(2,3) this st(4) Cons.prems(4)] show ?thesis using st(2) by force
  qed
  moreover have "oc_status oc \<noteq> SKIPPED \<longrightarrow> sg_name h \<in> set ?r" using turn(5) by blast
  ultimately show ?case using ih turn(2-4) by (auto simp: image_iff)
qed simp

text \<open>
  C13: the plan and the run agree.  Take a built and validated graph whose stages write only what they declare and no two of
  which produce the same name, and a frame nothing has been computed for.  \<^verbatim>\<open>execute\<close> reports every stage once, in order,
  and the stages it announced are exactly those it then ran: a stage whose inputs were there when the plan was made is
  never skipped, whatever failed or was released in between.
\<close>

theorem plan_agrees_with_run:
  assumes "mk_graph stages fm = Inr g" and "validate_graph resolve g = Inr ()" and "list_all writes_only stages"
    and "distinct (concat (map sg_produces stages))" and "fs_batches s = []" and "\<not> detections_ready s"
    and "execute g s = (t, ev)"
  shows "map oc_stage (outcomes ev) = map sg_name stages \<and>
    set (announced ev) = oc_stage ` {oc \<in> set (outcomes ev). oc_status oc \<noteq> SKIPPED}"
  using exec_loop_plan[of g "[]" stages s t ev] assms(3-) validated_graph[OF assms(1,2)]
  by (auto simp: execute_def unwritten_def written_def)

lemma plan_agrees_with_run_witness:
  "set (announced (snd (execute sample_graph sample_camera_frame))) = {''detect'', ''crop'', ''ship_segmenter'', ''ship_embedder''} \<and>
   map oc_stage (outcomes (snd (execute sample_graph sample_camera_frame))) =
     [''detect'', ''crop'', ''ship_segmenter'', ''ship_embedder'', ''person_embedder'']"
proof -
  note p = perception_stages[OF sample_graph_built]
  have d: "distinct (concat (map sg_produces (g_stages sample_graph)))" unfolding p(7) by code_simp
  have r: "[oc_stage oc. oc \<leftarrow> outcomes (snd (execute sample_graph sample_camera_frame)), oc_status oc \<noteq> SKIPPED] =
      [''detect'', ''crop'', ''ship_segmenter'', ''ship_embedder'']" by code_simp
  have "oc_stage ` {oc \<in> set (outcomes (snd (execute sample_graph sample_camera_frame))). oc_status oc \<noteq> SKIPPED} =
      set [oc_stage oc. oc \<leftarrow> outcomes (snd (execute sample_graph sample_camera_frame)), oc_status oc \<noteq> SKIPPED]" by auto
  then show ?thesis
    using plan_agrees_with_run[OF p(5) sample_graph_validates p(2) d, of sample_camera_frame] p(3) unfolding r
    by (simp add: sample_camera_frame_def sample_frame_def prod_eq_iff)
qed

end
