(* ===== verification/Pipeline_Runner.thy ===== *)
theory Pipeline_Runner
  imports Pipeline_Graph
begin

text \<open>
  \<^verbatim>\<open>src/shipinfer/pipeline/sink.py\<close> and \<^verbatim>\<open>runner.py\<close>: how a camera frame becomes a queued request, how a worker runs
  one frame through the graph while the collector watches, and how each finished frame becomes an event and
  resolves the future its caller holds.

  Threads are modelled by the order of the steps they take: a step ends where the code releases a lock or calls another
  component.  Clocks, the event sink's answers and cancellation by callers are arguments of the steps.
\<close>

section \<open>The frame sink\<close>

record camera_policy =
  pol_model :: string
  pol_priority :: priority

record camera_config =
  cc_camera :: string
  cc_model :: "string option"
  cc_priority :: priority

record frame_sink =
  fsk_input :: string
  fsk_deadline_ns :: int
  fsk_default :: camera_policy
  fsk_policies :: "(string, camera_policy) dict"
  fsk_accepted :: int

record tagged_frame =
  tf_camera :: string
  tf_context :: request_context
  tf_captured_ns :: int
  tf_batch :: ndarray

definition mk_frame_sink :: "string \<Rightarrow> int \<Rightarrow> string \<Rightarrow> camera_config list \<Rightarrow> frame_sink" where
  "mk_frame_sink inp deadline_ms target cameras =
     \<lparr>fsk_input = inp, fsk_deadline_ns = deadline_ms * 1000000,
      fsk_default = \<lparr>pol_model = target, pol_priority = NORMAL\<rparr>,
      fsk_policies = fold (\<lambda>c d. AList.update (cc_camera c)
          \<lparr>pol_model = (case cc_model c of Some m \<Rightarrow> if m = [] then target else m | None \<Rightarrow> target), pol_priority = cc_priority c\<rparr> d) cameras [],
      fsk_accepted = 0\<rparr>"

definition policy_for :: "string \<Rightarrow> frame_sink \<Rightarrow> frame_sink \<times> camera_policy" where
  "policy_for cam k =
     (case map_of (fsk_policies k) cam of
        Some p \<Rightarrow> (k, p)
      | None \<Rightarrow> (k\<lparr>fsk_policies := AList.update cam (fsk_default k) (fsk_policies k)\<rparr>, fsk_default k))"

definition frame_request :: "frame_sink \<Rightarrow> camera_policy \<Rightarrow> tagged_frame \<Rightarrow> tensor \<Rightarrow> int \<Rightarrow> int \<Rightarrow> inference_request" where
  "frame_request k p f t rid now =
     \<lparr>model_name = pol_model p, inputs = [(fsk_input k, t)], request_id = rid, ctx = tf_context f, priority = pol_priority p,
      deadline_ns = (if fsk_deadline_ns k \<noteq> 0 then tf_captured_ns f + fsk_deadline_ns k else 0), resident_device = None,
      tms = \<lparr>received_ns = now, queued_ns = 0, batched_ns = 0, compute_start_ns = 0, compute_end_ns = 0, completed_ns = 0\<rparr>\<rparr>"

text \<open>
  \<^verbatim>\<open>QueueFrameSink.put\<close>; \<^verbatim>\<open>qput\<close> is the queue's \<^verbatim>\<open>put\<close>, whose errors propagate untouched; \<^verbatim>\<open>fid\<close> names the new future.
\<close>

definition fsk_put ::
  "(work_item \<Rightarrow> 'q \<Rightarrow> 'q \<times> unit result) \<Rightarrow> tagged_frame \<Rightarrow> int \<Rightarrow> nat \<Rightarrow> int \<Rightarrow> frame_sink \<times> 'q \<Rightarrow> (frame_sink \<times> 'q) \<times> unit result" where
  "fsk_put qput f rid fid now kq =
     (case policy_for (tf_camera f) (fst kq) of
        (k, p) \<Rightarrow>
          (case from_numpy (tf_batch f) of
             Inl e \<Rightarrow> ((k, snd kq), Inl e)
           | Inr t \<Rightarrow>
               (case qput \<lparr>req = frame_request k p f t rid now, fut = fid, enqueued_ns = now\<rparr> (snd kq) of
                  (q, Inl e) \<Rightarrow> ((k, q), Inl e)
                | (q, Inr _) \<Rightarrow> ((k\<lparr>fsk_accepted := fsk_accepted k + 1\<rparr>, q), Inr ()))))"

section \<open>Events\<close>

text \<open>Python's \<^verbatim>\<open>round\<close>: half to even.\<close>

definition py_round :: "rat \<Rightarrow> int" where
  "py_round r =
     (let f = \<lfloor>r\<rfloor>; d = r - of_int f in
      if d < 1/2 then f else if 1/2 < d then f + 1 else if even f then f else f + 1)"

record 'v perception_event =
  ev_camera :: string
  ev_frame :: int
  ev_source :: string
  ev_objects :: "'v object_record list"
  ev_width :: int
  ev_height :: int
  ev_fps :: int
  ev_captured_unix_ns :: int
  ev_emitted_unix_ns :: int
  ev_latency_us :: int
  ev_missing :: "string list"
  ev_reason :: reason

definition ev_key :: "'v perception_event \<Rightarrow> string \<times> int" where
  "ev_key e = (ev_camera e, ev_frame e)"

definition ev_is_partial :: "'v perception_event \<Rightarrow> bool" where
  "ev_is_partial e \<longleftrightarrow> ev_missing e \<noteq> []"

text \<open>\<^verbatim>\<open>PerceptionEvent.build\<close> as \<^verbatim>\<open>PipelineRunner._build_event\<close> calls it.\<close>

definition build_event ::
  "(converter \<Rightarrow> 'r \<Rightarrow> 'v result) \<Rightarrow> (string, string list) dict \<Rightarrow> string \<Rightarrow> int \<Rightarrow> int \<Rightarrow> 'r frame_result \<Rightarrow> 'v perception_event result" where
  "build_event cv fm source now unix r =
     rbind (case fr_inputs r of Some i \<Rightarrow> ei_records cv fm i | None \<Rightarrow> fs_objects cv fm (fr_state r)) (\<lambda>objs.
       let s = fr_state r; c = fs_ctx s in
       Inr \<lparr>ev_camera = camera_id c, ev_frame = frame_id c, ev_source = source, ev_objects = objs,
            ev_width = fs_width s, ev_height = fs_height s, ev_fps = py_round (fs_fps s),
            ev_captured_unix_ns = captured_unix_ns c, ev_emitted_unix_ns = unix,
            ev_latency_us = (if captured_ns c \<noteq> 0 then max 0 ((now - captured_ns c) div 1000) else 0),
            ev_missing = fr_missing r, ev_reason = fr_reason r\<rparr>)"

section \<open>The runner\<close>

record runner_metrics =
  rm_accepted :: "string counter"
  rm_expired :: "string counter"
  rm_failed :: "string counter"
  rm_stages_run :: "string counter"
  rm_stages_skipped :: "string counter"
  rm_stages_failed :: "string counter"
  rm_build_failures :: "string counter"
  rm_sink_failures :: int
  rm_emitted :: "string counter"
  rm_objects :: "(string \<times> string) counter"

text \<open>
  \<^verbatim>\<open>rn_opening\<close> holds the frames a worker has registered in \<^verbatim>\<open>_awaiting\<close> and not yet opened; \<^verbatim>\<open>rn_begun\<close> lists every item
  a worker took, with its tag; \<^verbatim>\<open>rn_published\<close> the events the sink accepted.
\<close>

record ('r, 'v) runner =
  rn_graph :: "'r graph"
  rn_input :: string
  rn_source :: string
  rn_fps :: "(string, rat) dict"
  rn_budget_ns :: int
  rn_co :: "'r co_sys"
  rn_awaiting :: "(pending_key, nat) dict"
  rn_futs :: futures
  rn_metrics :: runner_metrics
  frames_accepted :: int
  rn_opening :: "(work_item \<times> 'r frame_state) list"
  rn_begun :: "(nat \<times> pending_key) list"
  rn_published :: "'v perception_event list"

definition fut_done :: "fut_state \<Rightarrow> bool" where
  "fut_done f \<longleftrightarrow> f \<noteq> PENDING \<and> f \<noteq> RUNNING"

text \<open>\<^verbatim>\<open>if future.set_running_or_notify_cancel(): future.set_...(v)\<close>: the new state, and whether the call raised.\<close>

definition settle :: "fut_state \<Rightarrow> fut_state \<Rightarrow> fut_state \<times> bool" where
  "settle v f =
     (case set_running_or_notify_cancel f of
        Inl e \<Rightarrow> (f, True)
      | Inr (f', running) \<Rightarrow> ((if running then v else f'), False))"

definition on_rm :: "(runner_metrics \<Rightarrow> runner_metrics) \<Rightarrow> ('r, 'v) runner \<Rightarrow> ('r, 'v) runner" where
  "on_rm g s = s\<lparr>rn_metrics := g (rn_metrics s)\<rparr>"

text \<open>\<^verbatim>\<open>WorkItem.fail\<close> on the runner's futures; a future already taken raises, and the worker loop only logs that.\<close>

definition fail_item :: "work_item \<Rightarrow> err \<Rightarrow> ('r, 'v) runner \<Rightarrow> ('r, 'v) runner \<times> bool" where
  "fail_item w e s =
     (case future_fail w e (rn_futs s) of Inl _ \<Rightarrow> (s, True) | Inr fs \<Rightarrow> (s\<lparr>rn_futs := fs\<rparr>, False))"

text \<open>The handler of \<^verbatim>\<open>_work\<close>: one bad frame is counted, and its future failed unless it is done.\<close>

definition worker_failed :: "work_item \<Rightarrow> ('r, 'v) runner \<Rightarrow> ('r, 'v) runner" where
  "worker_failed w s =
     (let s1 = on_rm (\<lambda>m. m\<lparr>rm_failed := counter_inc (camera_id (ctx (req w))) (rm_failed m)\<rparr>) s in
      if fut_done (rn_futs s1 (fut w)) then s1 else fst (fail_item w InferenceError s1))"

definition budget_deadline :: "int \<Rightarrow> int \<Rightarrow> 'r frame_state \<Rightarrow> 'r frame_state" where
  "budget_deadline budget now st =
     (if budget = 0 then st
      else st\<lparr>fs_deadline_ns := (if fs_deadline_ns st \<noteq> 0 then min (fs_deadline_ns st) (now + budget) else now + budget)\<rparr>)"

text \<open>\<^verbatim>\<open>_run_frame\<close> up to \<^verbatim>\<open>self._awaiting.setdefault\<close>, in the loop of \<^verbatim>\<open>_work\<close>.\<close>

definition begin_frame :: "work_item \<Rightarrow> int \<Rightarrow> ('r, 'v) runner \<Rightarrow> ('r, 'v) runner" where
  "begin_frame w now s =
     (let cam = camera_id (ctx (req w));
          s0 = on_rm (\<lambda>m. m\<lparr>rm_accepted := counter_inc cam (rm_accepted m)\<rparr>)
                 (s\<lparr>frames_accepted := frames_accepted s + 1, rn_begun := rn_begun s @ [(fut w, context_key (ctx (req w)))]\<rparr>)
      in if is_expired (req w) now then
           (case fail_item w RequestCancelledError (on_rm (\<lambda>m. m\<lparr>rm_expired := counter_inc cam (rm_expired m)\<rparr>) s0) of
              (s1, raised) \<Rightarrow> if raised then worker_failed w s1 else s1)
         else case fs_from_request (rn_input s) (case map_of (rn_fps s) cam of None \<Rightarrow> 0 | Some x \<Rightarrow> x) (req w) of
                Inl e \<Rightarrow> worker_failed w s0
              | Inr st \<Rightarrow>
                  (let st = budget_deadline (rn_budget_ns s) now st; key = fs_key st in
                   s0\<lparr>rn_awaiting := (if map_of (rn_awaiting s0) key = None then AList.update key (fut w) (rn_awaiting s0) else rn_awaiting s0),
                      rn_opening := rn_opening s0 @ [(w, st)]\<rparr>))"

text \<open>\<^verbatim>\<open>self._collector.open(state, expected=(unconditional_stage,))\<close> and the refusal.\<close>

definition open_frame :: "'r eviction \<Rightarrow> nat \<Rightarrow> int \<Rightarrow> (nat \<Rightarrow> int) \<Rightarrow> ('r, 'v) runner \<Rightarrow> ('r, 'v) runner option" where
  "open_frame pick i now clk s =
     (if i < length (rn_opening s) then
        (case rn_opening s ! i of
           (w, st) \<Rightarrow>
             map_option (\<lambda>co'.
               let s1 = s\<lparr>rn_co := co', rn_opening := take i (rn_opening s) @ drop (Suc i) (rn_opening s)\<rparr>;
                   key = fs_key st
               in if admitted co' \<noteq> admitted (rn_co s) then s1
                  else let s2 = (if map_of (rn_awaiting s1) key = Some (fut w) then s1\<lparr>rn_awaiting := AList.delete key (rn_awaiting s1)\<rparr> else s1);
                           s3 = on_rm (\<lambda>m. m\<lparr>rm_failed := counter_inc (camera_id (ctx (req w))) (rm_failed m)\<rparr>) s2
                       in (case fail_item w RequestCancelledError s3 of
                             (s4, raised) \<Rightarrow> if raised then worker_failed w s4 else s4))
               (co_step pick (rn_co s) (Open now clk st [unconditional_stage (rn_graph s)])))
      else None)"

text \<open>\<^verbatim>\<open>_CollectorObserver\<close>.\<close>

definition co_observe :: "pending_key \<Rightarrow> observed \<Rightarrow> 'r collector \<Rightarrow> 'r collector" where
  "co_observe key e c =
     (case e of
        Planned ns \<Rightarrow> co_expect key ns c
      | Finished oc \<Rightarrow> if oc_status oc = RAN then co_deliver key (oc_stage oc) c else c)"

definition rm_observe :: "observed \<Rightarrow> runner_metrics \<Rightarrow> runner_metrics" where
  "rm_observe e m =
     (case e of
        Planned _ \<Rightarrow> m
      | Finished oc \<Rightarrow>
          (case oc_status oc of
             SKIPPED \<Rightarrow> m\<lparr>rm_stages_skipped := counter_inc (oc_stage oc) (rm_stages_skipped m)\<rparr>
           | stage_status.FAILED \<Rightarrow> m\<lparr>rm_stages_failed := counter_inc (oc_stage oc) (rm_stages_failed m)\<rparr>
           | RAN \<Rightarrow> m\<lparr>rm_stages_run := counter_inc (oc_stage oc) (rm_stages_run m)\<rparr>))"

definition observe :: "pending_key \<Rightarrow> observed \<Rightarrow> ('r, 'v) runner \<Rightarrow> ('r, 'v) runner" where
  "observe key e s =
     on_rm (rm_observe e) (s\<lparr>rn_co := keep (rn_co s) (co_observe key e (sys_c (rn_co s)), [])\<rparr>)"

text \<open>\<^verbatim>\<open>_record\<close>.\<close>

definition counter_add :: "'k \<Rightarrow> int \<Rightarrow> 'k counter \<Rightarrow> 'k counter" where
  "counter_add k n c = AList.update k (counter_get c k + n) c"

definition record_emitted :: "'r frame_result \<Rightarrow> string \<Rightarrow> runner_metrics \<Rightarrow> runner_metrics" where
  "record_emitted r cam m =
     m\<lparr>rm_emitted := counter_inc cam (rm_emitted m),
       rm_objects := fold (\<lambda>(cls, n) d. counter_add (cam, cls) n d)
         (det_counts (case fr_inputs r of Some i \<Rightarrow> ei_detections i | None \<Rightarrow> fs_detections (fr_state r))) (rm_objects m)\<rparr>"


text \<open>
  \<^verbatim>\<open>_emit_resolved\<close> and \<^verbatim>\<open>_emit\<close>: whether the sink published the event and how many earlier refusals it reports are
  arguments.  An exception of \<^verbatim>\<open>set_running_or_notify_cancel\<close> is caught where the code catches it, and after the
  sink's refusal leaves by the \<^verbatim>\<open>finally\<close>.
\<close>

definition settle_opt :: "nat option \<Rightarrow> fut_state \<Rightarrow> ('r, 'v) runner \<Rightarrow> ('r, 'v) runner \<times> bool" where
  "settle_opt fid v s =
     (case fid of
        None \<Rightarrow> (s, False)
      | Some f \<Rightarrow> (case settle v (rn_futs s f) of (x, raised) \<Rightarrow> (s\<lparr>rn_futs := (rn_futs s)(f := x)\<rparr>, raised)))"

definition build_failed :: "'r frame_result \<Rightarrow> ('r, 'v) runner \<Rightarrow> ('r, 'v) runner" where
  "build_failed r = on_rm (\<lambda>m. m\<lparr>rm_build_failures := counter_inc (camera_id (fs_ctx (fr_state r))) (rm_build_failures m)\<rparr>)"

definition emit_resolved ::
  "(converter \<Rightarrow> 'r \<Rightarrow> 'v result) \<Rightarrow> int \<Rightarrow> int \<Rightarrow> bool \<Rightarrow> int \<Rightarrow> nat option \<Rightarrow> 'r frame_result \<Rightarrow> ('r, 'v) runner \<Rightarrow> ('r, 'v) runner" where
  "emit_resolved cv now unix accepted refused fid r s =
     (if fr_reason r = EVICTED then
        (case settle_opt fid (fut_state.FAILED RequestCancelledError) s of
           (s', raised) \<Rightarrow> if raised then build_failed r s' else s')
      else case build_event cv (g_field_map (rn_graph s)) (rn_source s) now unix r of
             Inl e \<Rightarrow> build_failed r s
           | Inr ev \<Rightarrow>
               if \<not> accepted then
                 fst (settle_opt fid (fut_state.FAILED InferenceError) (on_rm (\<lambda>m. m\<lparr>rm_sink_failures := rm_sink_failures m + 1\<rparr>) s))
               else
                 (let s1 = on_rm (\<lambda>m. m\<lparr>rm_sink_failures := rm_sink_failures m + refused\<rparr>) (s\<lparr>rn_published := rn_published s @ [ev]\<rparr>);
                      s2 = on_rm (record_emitted r (ev_camera ev)) s1
                  in (case settle_opt fid RESULT s2 of
                        (s', raised) \<Rightarrow> if raised then build_failed r s' else s')))"

definition emit_frame ::
  "(converter \<Rightarrow> 'r \<Rightarrow> 'v result) \<Rightarrow> int \<Rightarrow> int \<Rightarrow> bool \<Rightarrow> int \<Rightarrow> 'r frame_result \<Rightarrow> ('r, 'v) runner \<Rightarrow> ('r, 'v) runner" where
  "emit_frame cv now unix accepted refused r s =
     (let fid = map_of (rn_awaiting s) (fr_key r);
          s1 = emit_resolved cv now unix accepted refused fid r (s\<lparr>rn_awaiting := AList.delete (fr_key r) (rn_awaiting s)\<rparr>)
      in case fid of
           None \<Rightarrow> s1
         | Some f \<Rightarrow>
             if fut_done (rn_futs s1 f) then s1
             else s1\<lparr>rn_futs := (rn_futs s1)(f := fut_state.FAILED InferenceError)\<rparr>)"

text \<open>The loop of \<^verbatim>\<open>stop\<close> over what is still awaited.\<close>

definition cancel_awaiting :: "('r, 'v) runner \<Rightarrow> ('r, 'v) runner" where
  "cancel_awaiting s =
     s\<lparr>rn_futs := fold (\<lambda>(key, f) fs. fs(f := fst (settle (fut_state.FAILED RequestCancelledError) (fs f)))) (rn_awaiting s) (rn_futs s),
       rn_awaiting := []\<rparr>"

definition caller_cancel :: "fut_state \<Rightarrow> fut_state" where
  "caller_cancel f = (if f = PENDING then CANCELLED else f)"

datatype 'r rn_op =
    Begin work_item int
  | OpenFrame nat int "nat \<Rightarrow> int"
  | Observe pending_key observed
  | Write pending_key "'r frame_state \<Rightarrow> 'r frame_state"
  | SealFrame pending_key int
  | SweepFrames int
  | Emit nat bool int int int
  | CallerCancel nat
  | DrainFrames int
  | CancelAwaiting

definition via_co :: "'r eviction \<Rightarrow> 'r co_op \<Rightarrow> ('r, 'v) runner \<Rightarrow> ('r, 'v) runner option" where
  "via_co pick op s = map_option (\<lambda>c. s\<lparr>rn_co := c\<rparr>) (co_step pick (rn_co s) op)"

fun rn_step ::
  "(converter \<Rightarrow> 'r \<Rightarrow> 'v result) \<Rightarrow> 'r eviction \<Rightarrow> ('r, 'v) runner \<Rightarrow> 'r rn_op \<Rightarrow> ('r, 'v) runner option" where
  "rn_step cv pick s (Begin w now) = Some (begin_frame w now s)"
| "rn_step cv pick s (OpenFrame i now clk) = open_frame pick i now clk s"
| "rn_step cv pick s (Observe key e) = Some (observe key e s)"
| "rn_step cv pick s (Write key g) = via_co pick (Touch key g) s"
| "rn_step cv pick s (SealFrame key now) = via_co pick (Seal key now) s"
| "rn_step cv pick s (SweepFrames now) = via_co pick (Sweep now) s"
| "rn_step cv pick s (Emit i accepted now unix refused) =
     map_option (emit_frame cv now unix accepted refused (inflight (rn_co s) ! i)) (via_co pick (Publish i) s)"
| "rn_step cv pick s (CallerCancel f) = Some (s\<lparr>rn_futs := (rn_futs s)(f := caller_cancel (rn_futs s f))\<rparr>)"
| "rn_step cv pick s (DrainFrames now) = via_co pick (Drain now) s"
| "rn_step cv pick s CancelAwaiting = Some (cancel_awaiting s)"

fun rn_run ::
  "(converter \<Rightarrow> 'r \<Rightarrow> 'v result) \<Rightarrow> 'r eviction \<Rightarrow> ('r, 'v) runner \<Rightarrow> 'r rn_op list \<Rightarrow> ('r, 'v) runner option" where
  "rn_run cv pick s [] = Some s"
| "rn_run cv pick s (op # ops) = (case rn_step cv pick s op of None \<Rightarrow> None | Some s' \<Rightarrow> rn_run cv pick s' ops)"

definition rn_init ::
  "'r graph \<Rightarrow> string \<Rightarrow> string \<Rightarrow> (string, rat) dict \<Rightarrow> int \<Rightarrow> int \<Rightarrow> int \<Rightarrow> ('r, 'v) runner" where
  "rn_init g inp source fps budget_ms cap timeout_ms =
     \<lparr>rn_graph = g, rn_input = inp, rn_source = source, rn_fps = fps, rn_budget_ns = budget_ms * 1000000,
      rn_co = sys_init cap timeout_ms True, rn_awaiting = [], rn_futs = (\<lambda>_. PENDING),
      rn_metrics = \<lparr>rm_accepted = [], rm_expired = [], rm_failed = [], rm_stages_run = [], rm_stages_skipped = [], rm_stages_failed = [],
        rm_build_failures = [], rm_sink_failures = 0, rm_emitted = [], rm_objects = []\<rparr>,
      frames_accepted = 0, rn_opening = [], rn_begun = [], rn_published = []\<rparr>"

section \<open>No caller is left waiting\<close>

definition live :: "'r co_sys \<Rightarrow> pending_key set" where
  "live co = fst ` set (co_pending (sys_c co)) \<union> fr_key ` set (inflight co)"

lemma live_grows:
  assumes "sys_inv co" and "sys_inv co'" and "mset (admitted co) \<subseteq># mset (admitted co')" and "emitted co' = emitted co"
  shows "live co \<subseteq> live co'"
proof
  fix k assume "k \<in> live co"
  let ?P = "\<lambda>c. mset (map fst (co_pending (sys_c c))) + mset (map fr_key (inflight c))"
  have e: "mset (admitted c) = ?P c + mset (map fr_key (emitted c))" if "sys_inv c" for c :: "'a co_sys"
    using that by (simp add: sys_inv_def)
  have "?P co \<subseteq># ?P co'" using e[OF assms(1)] e[OF assms(2)] assms(3,4) by simp
  moreover have "k \<in># ?P co" using \<open>k \<in> live co\<close> by (auto simp: live_def)
  ultimately have "k \<in># ?P co'" by (rule mset_subset_eqD)
  then show "k \<in> live co'" by (auto simp: live_def)
qed

lemma emitted_keep [simp]: "emitted (keep s p) = emitted s" "admitted (keep s p) = admitted s"
  by (simp_all add: keep_def)

lemma co_step_grows:
  "co_step pick co op = Some co' \<Longrightarrow> (\<forall>i. op \<noteq> Publish i) \<Longrightarrow>
    mset (admitted co) \<subseteq># mset (admitted co') \<and> emitted co' = emitted co"
  by (cases op) (auto split: prod.splits)

lemma publish_live:
  assumes "co_step pick co (Publish i) = Some co'"
  shows "live co - {fr_key (inflight co ! i)} \<subseteq> live co'"
proof -
  have i: "i < length (inflight co)" using assms by (simp split: if_splits)
  have p: "co_pending (sys_c co') = co_pending (sys_c co)" and j: "inflight co' = take i (inflight co) @ drop (Suc i) (inflight co)"
    using assms i by (auto simp: Let_def publish_simps report_eviction_def)
  have "set (inflight co) = insert (inflight co ! i) (set (inflight co'))"
    unfolding j by (subst id_take_nth_drop[OF i]) auto
  then show ?thesis by (auto simp: live_def p)
qed

definition rn_inv :: "('r, 'v) runner \<Rightarrow> bool" where
  "rn_inv s \<longleftrightarrow> sys_inv (rn_co s) \<and> (\<forall>f. rn_futs s f \<noteq> RUNNING) \<and>
     (\<forall>k f. map_of (rn_awaiting s) k = Some f \<longrightarrow> (f, k) \<in> set (rn_begun s)) \<and>
     (\<forall>(w, st) \<in> set (rn_opening s). (fut w, fs_key st) \<in> set (rn_begun s))"

text \<open>Where an accepted item is: answered, or awaited while a worker is opening it or the collector has it.\<close>

definition accounted :: "('r, 'v) runner \<Rightarrow> nat \<Rightarrow> pending_key \<Rightarrow> bool" where
  "accounted s f k \<longleftrightarrow> fut_done (rn_futs s f) \<or>
     (map_of (rn_awaiting s) k = Some f \<and> ((\<exists>(w, st) \<in> set (rn_opening s). fut w = f \<and> fs_key st = k) \<or> k \<in> live (rn_co s)))"

definition all_accounted :: "('r, 'v) runner \<Rightarrow> bool" where
  "all_accounted s \<longleftrightarrow> (\<forall>(f, k) \<in> set (rn_begun s). accounted s f k)"

lemma settle_cases:
  "v \<noteq> RUNNING \<Longrightarrow> v \<noteq> PENDING \<Longrightarrow> f \<noteq> RUNNING \<Longrightarrow> fut_done (fst (settle v f)) \<and> fst (settle v f) \<noteq> RUNNING"
  by (cases f) (auto simp: settle_def set_running_or_notify_cancel_def fut_done_def)

lemma on_rm_simps [simp]:
  "rn_futs (on_rm g s) = rn_futs s" "rn_co (on_rm g s) = rn_co s" "rn_awaiting (on_rm g s) = rn_awaiting s"
  "rn_opening (on_rm g s) = rn_opening s" "rn_begun (on_rm g s) = rn_begun s" "rn_graph (on_rm g s) = rn_graph s"
  by (simp_all add: on_rm_def)

text \<open>The part of the state the accounting looks at.\<close>

definition core :: "('r, 'v) runner \<Rightarrow> 'r co_sys \<times> (pending_key, nat) dict \<times> (work_item \<times> 'r frame_state) list \<times> (nat \<times> pending_key) list" where
  "core s = (rn_co s, rn_awaiting s, rn_opening s, rn_begun s)"

definition answers_more :: "('r, 'v) runner \<Rightarrow> ('r, 'v) runner \<Rightarrow> bool" where
  "answers_more s s' \<longleftrightarrow> (\<forall>f. rn_futs s' f \<noteq> RUNNING) \<and> (\<forall>f. fut_done (rn_futs s f) \<longrightarrow> fut_done (rn_futs s' f))"

lemma core_simps [simp]: "core (on_rm g s) = core s" "core (s\<lparr>rn_published := ps\<rparr>) = core s"
  by (simp_all add: core_def)

lemma fail_item_core:
  assumes "\<forall>f. rn_futs s f \<noteq> RUNNING" and "fail_item w e s = (s', raised)"
  shows "core s' = core s \<and> answers_more s s' \<and> fut_done (rn_futs s' (fut w))"
proof (cases "rn_futs s (fut w)")
  case RUNNING
  then show ?thesis using assms(1) by blast
qed (use assms in \<open>auto simp: fail_item_def future_fail_def set_running_or_notify_cancel_def fut_done_def core_def answers_more_def split: if_splits\<close>)

lemma worker_failed_core:
  assumes "\<forall>f. rn_futs s f \<noteq> RUNNING"
  shows "core (worker_failed w s) = core s \<and> answers_more s (worker_failed w s) \<and> fut_done (rn_futs (worker_failed w s) (fut w))"
proof -
  let ?g = "\<lambda>m. m\<lparr>rm_failed := counter_inc (camera_id (ctx (req w))) (rm_failed m)\<rparr>"
  obtain s' b where "fail_item w InferenceError (on_rm ?g s) = (s', b)" by (rule prod.exhaust)
  with fail_item_core[OF _ this] assms show ?thesis by (auto simp: worker_failed_def Let_def answers_more_def core_def)
qed

lemma fail_or_log_core:
  assumes "\<forall>f. rn_futs s f \<noteq> RUNNING" and s'_def: "s' = (case fail_item w e s of (s1, raised) \<Rightarrow> if raised then worker_failed w s1 else s1)"
  shows "core s' = core s \<and> answers_more s s' \<and> fut_done (rn_futs s' (fut w))"
proof -
  obtain s1 b where f: "fail_item w e s = (s1, b)" by (rule prod.exhaust)
  from fail_item_core[OF assms(1) f] worker_failed_core[of s1 w] show ?thesis
    by (auto simp: s'_def f answers_more_def)
qed

lemma settle_opt_core:
  assumes "v \<noteq> RUNNING" and "v \<noteq> PENDING" and "\<forall>f. rn_futs s f \<noteq> RUNNING" and "settle_opt fid v s = (s', raised)"
  shows "core s' = core s \<and> answers_more s s'"
proof (cases fid)
  case None
  then show ?thesis using assms by (auto simp: settle_opt_def answers_more_def)
next
  case (Some f)
  show ?thesis using settle_cases[OF assms(1,2), of "rn_futs s f"] assms(3,4) Some
    by (auto simp: settle_opt_def core_def answers_more_def case_prod_unfold split: if_splits)
qed

lemma emit_resolved_core:
  assumes "\<forall>f. rn_futs s f \<noteq> RUNNING"
  shows "core (emit_resolved cv now unix accepted refused fid r s) = core s \<and> answers_more s (emit_resolved cv now unix accepted refused fid r s)"
proof -
  have ok: "core (if b then build_failed r s' else s') = core x \<and> answers_more x (if b then build_failed r s' else s')"
    if "core s' = core x \<and> answers_more x s'" for b s' and x :: "('a, 'b) runner"
    using that by (simp add: build_failed_def answers_more_def)
  show ?thesis
  proof (cases "fr_reason r = EVICTED")
    case True
    obtain s1 b where e: "settle_opt fid (fut_state.FAILED RequestCancelledError) s = (s1, b)" by (rule prod.exhaust)
    show ?thesis using ok[OF settle_opt_core[OF _ _ assms e], of b] True e by (simp add: emit_resolved_def)
  next
    case ne: False
    show ?thesis
    proof (cases "build_event cv (g_field_map (rn_graph s)) (rn_source s) now unix r")
      case (Inl e)
      then show ?thesis using ne assms by (simp add: emit_resolved_def build_failed_def answers_more_def)
    next
      case (Inr ev)
      let ?d = "on_rm (\<lambda>m. m\<lparr>rm_sink_failures := rm_sink_failures m + 1\<rparr>) s"
      let ?p = "on_rm (record_emitted r (ev_camera ev)) (on_rm (\<lambda>m. m\<lparr>rm_sink_failures := rm_sink_failures m + refused\<rparr>)
        (s\<lparr>rn_published := rn_published s @ [ev]\<rparr>))"
      obtain s1 b where e1: "settle_opt fid (fut_state.FAILED InferenceError) ?d = (s1, b)" by (rule prod.exhaust)
      obtain s2 b2 where e2: "settle_opt fid RESULT ?p = (s2, b2)" by (rule prod.exhaust)
      have c1: "core s1 = core ?d \<and> answers_more ?d s1" by (rule settle_opt_core[OF _ _ _ e1]) (use assms in auto)
      have c2: "core s2 = core ?p \<and> answers_more ?p s2" by (rule settle_opt_core[OF _ _ _ e2]) (use assms in auto)
      have f: "answers_more ?p x = answers_more s x" "answers_more ?d x = answers_more s x" for x
        by (simp_all add: core_def answers_more_def)
      show ?thesis using ne Inr e1 e2 c1 ok[OF c2, of b2] by (simp add: emit_resolved_def Let_def f)
    qed
  qed
qed

lemma emit_frame_core:
  assumes "\<forall>f. rn_futs s f \<noteq> RUNNING" and s'_def: "s' = emit_frame cv now unix accepted refused r s"
  shows "core s' = (rn_co s, AList.delete (fr_key r) (rn_awaiting s), rn_opening s, rn_begun s) \<and> answers_more s s' \<and>
    (\<forall>f. map_of (rn_awaiting s) (fr_key r) = Some f \<longrightarrow> fut_done (rn_futs s' f))"
proof -
  let ?s = "s\<lparr>rn_awaiting := AList.delete (fr_key r) (rn_awaiting s)\<rparr>"
  have "core (emit_resolved cv now unix accepted refused (map_of (rn_awaiting s) (fr_key r)) r ?s) = core ?s \<and>
      answers_more ?s (emit_resolved cv now unix accepted refused (map_of (rn_awaiting s) (fr_key r)) r ?s)"
    by (rule emit_resolved_core) (use assms(1) in simp)
  then show ?thesis
    by (auto simp: s'_def emit_frame_def Let_def core_def answers_more_def fut_done_def split: option.splits)
qed


text \<open>Answering more futures while the rest stays keeps the accounts.\<close>

lemma accounted_core:
  assumes "core s' = core s" and "answers_more s s'" and "accounted s f k"
  shows "accounted s' f k"
  using assms by (auto simp: accounted_def core_def answers_more_def)

lemma rn_inv_core: "core s' = core s \<Longrightarrow> answers_more s s' \<Longrightarrow> rn_inv s \<Longrightarrow> rn_inv s'"
  by (auto simp: rn_inv_def core_def answers_more_def)

lemma all_accounted_core: "core s' = core s \<Longrightarrow> answers_more s s' \<Longrightarrow> all_accounted s \<Longrightarrow> all_accounted s'"
  using accounted_core[of s' s] by (auto simp: all_accounted_def core_def)

definition fresh_key :: "('r, 'v) runner \<Rightarrow> pending_key \<Rightarrow> bool" where
  "fresh_key s k \<longleftrightarrow> k \<notin> snd ` set (rn_begun s)"

lemma case_list4_Inr:
  "(case xs of [a, b, c, d] \<Rightarrow> f a b c d | _ \<Rightarrow> Inl e) = Inr y \<longleftrightarrow> (\<exists>a b c d. xs = [a, b, c, d] \<and> f a b c d = Inr y)"
  by (auto split: list.splits)

lemma fs_from_request_key: "fs_from_request inp fps r = Inr st \<Longrightarrow> fs_key (budget_deadline b now st) = context_key (ctx r)"
proof -
  assume "fs_from_request inp fps r = Inr st"
  then obtain img where "mk_frame_state (ctx r) img fps (priority r) (deadline_ns r) = Inr st"
    by (auto simp: fs_from_request_def rbind_Inr_iff case_list4_Inr split: option.split_asm if_split_asm)
  then have "fs_ctx st = ctx r" by (auto simp: mk_frame_state_def split: list.split_asm)
  then show ?thesis by (simp add: fs_key_def budget_deadline_def)
qed

lemma begin_frame_inv:
  fixes s :: "('a, 'b) runner"
  assumes "rn_inv s" and "all_accounted s" and "fresh_key s (context_key (ctx (req w)))"
  shows "rn_inv (begin_frame w now s) \<and> all_accounted (begin_frame w now s) \<and>
    rn_begun (begin_frame w now s) = rn_begun s @ [(fut w, context_key (ctx (req w)))]"
proof -
  let ?k = "context_key (ctx (req w))" and ?cam = "camera_id (ctx (req w))"
  define s0 where "s0 = on_rm (\<lambda>m. m\<lparr>rm_accepted := counter_inc ?cam (rm_accepted m)\<rparr>)
      (s\<lparr>frames_accepted := frames_accepted s + 1, rn_begun := rn_begun s @ [(fut w, ?k)]\<rparr>)"
  have i0: "rn_inv s0" and r0: "\<forall>f. rn_futs s0 f \<noteq> RUNNING" and b0: "rn_begun s0 = rn_begun s @ [(fut w, ?k)]"
    using assms(1) by (auto simp: rn_inv_def s0_def)
  have a0: "accounted s0 f k" if "(f, k) \<in> set (rn_begun s)" for f k
    using assms(2) that by (auto simp: all_accounted_def accounted_def s0_def)
  have answered: "rn_inv s' \<and> all_accounted s' \<and> rn_begun s' = rn_begun s @ [(fut w, ?k)]"
    if c: "core s' = core s0 \<and> answers_more s0 s' \<and> fut_done (rn_futs s' (fut w))" for s'
  proof (intro conjI)
    show "rn_inv s'" using rn_inv_core[OF _ _ i0] c by blast
    show b: "rn_begun s' = rn_begun s @ [(fut w, ?k)]" using c b0 by (simp add: core_def)
    have "accounted s' f k" if "(f, k) \<in> set (rn_begun s)" for f k using accounted_core[OF _ _ a0[OF that]] c by blast
    moreover have "accounted s' (fut w) ?k" using c by (simp add: accounted_def)
    ultimately show "all_accounted s'" using b by (auto simp: all_accounted_def)
  qed
  show ?thesis
  proof (cases "is_expired (req w) now")
    case True
    let ?s1 = "on_rm (\<lambda>m. m\<lparr>rm_expired := counter_inc ?cam (rm_expired m)\<rparr>) s0"
    have r1: "\<forall>f. rn_futs ?s1 f \<noteq> RUNNING" using r0 by simp
    have "begin_frame w now s = (case fail_item w RequestCancelledError ?s1 of (s1, raised) \<Rightarrow> if raised then worker_failed w s1 else s1)"
      using True by (simp add: begin_frame_def Let_def s0_def)
    from fail_or_log_core[OF r1 this] show ?thesis by (intro answered) (simp add: answers_more_def)
  next
    case live: False
    show ?thesis
    proof (cases "fs_from_request (rn_input s) (case map_of (rn_fps s) ?cam of None \<Rightarrow> 0 | Some x \<Rightarrow> x) (req w) :: 'a frame_state result")
      case (Inl e)
      then have "begin_frame w now s = worker_failed w s0" using live by (simp add: begin_frame_def Let_def s0_def)
      then show ?thesis using worker_failed_core[OF r0, of w] by (intro answered) simp
    next
      case (Inr st)
      define st' where "st' = budget_deadline (rn_budget_ns s) now st"
      have k: "fs_key st' = ?k" using fs_from_request_key[OF Inr] by (simp add: st'_def)
      have "map_of (rn_awaiting s) ?k = None"
      proof (cases "map_of (rn_awaiting s) ?k")
        case (Some f)
        then have "(f, ?k) \<in> set (rn_begun s)" using assms(1) unfolding rn_inv_def by blast
        then show ?thesis using assms(3) by (force simp: fresh_key_def)
      qed
      then have e: "begin_frame w now s = s0\<lparr>rn_awaiting := AList.update ?k (fut w) (rn_awaiting s), rn_opening := rn_opening s @ [(w, st')]\<rparr>"
        using live Inr k by (simp add: begin_frame_def Let_def s0_def st'_def on_rm_def)
      have "accounted (begin_frame w now s) f k" if "(f, k) \<in> set (rn_begun s)" for f k
      proof -
        have "k \<noteq> ?k" using assms(3) that by (force simp: fresh_key_def)
        then show ?thesis using a0[OF that] by (auto simp: accounted_def e dict_simps s0_def)
      qed
      moreover have "accounted (begin_frame w now s) (fut w) ?k" using k by (auto simp: accounted_def e dict_simps)
      moreover have "rn_inv (begin_frame w now s)"
        using i0 k b0 by (auto simp: rn_inv_def e dict_simps s0_def split: if_splits)
      ultimately show ?thesis using b0 by (auto simp: all_accounted_def e)
    qed
  qed
qed


text \<open>The collector moving on without publishing keeps the accounts.\<close>

lemma co_move_inv:
  assumes "rn_inv s" and "all_accounted s" and "sys_inv co'" and "mset (admitted (rn_co s)) \<subseteq># mset (admitted co') \<and> emitted co' = emitted (rn_co s)"
  shows "rn_inv (s\<lparr>rn_co := co'\<rparr>) \<and> all_accounted (s\<lparr>rn_co := co'\<rparr>)"
proof -
  have "live (rn_co s) \<subseteq> live co'" using live_grows[of "rn_co s" co'] assms(1,3,4) by (simp add: rn_inv_def)
  then have "accounted (s\<lparr>rn_co := co'\<rparr>) f k" if "accounted s f k" for f k using that by (auto simp: accounted_def)
  then show ?thesis using assms(1-3) by (auto simp: all_accounted_def rn_inv_def)
qed

lemma cancel_awaiting_inv:
  assumes "rn_inv s" and "all_accounted s"
  shows "rn_inv (cancel_awaiting s) \<and> all_accounted (cancel_awaiting s)"
proof -
  let ?v = "fut_state.FAILED RequestCancelledError"
  let ?fold = "\<lambda>aw fs. fold (\<lambda>(key, f) fs. fs(f := fst (settle ?v (fs f)))) aw fs"
  have "(\<forall>f. ?fold aw fs f \<noteq> RUNNING) \<and> (\<forall>f. fut_done (fs f) \<longrightarrow> fut_done (?fold aw fs f)) \<and>
      (\<forall>f \<in> snd ` set aw. fut_done (?fold aw fs f))" if "\<forall>f. fs f \<noteq> RUNNING" for aw :: "(pending_key \<times> nat) list" and fs
    using that
  proof (induction aw arbitrary: fs)
    case (Cons p aw)
    let ?fs = "fs(snd p := fst (settle ?v (fs (snd p))))"
    have c: "fut_done (?fs (snd p)) \<and> ?fs (snd p) \<noteq> RUNNING" using settle_cases[of ?v "fs (snd p)"] Cons.prems by simp
    then have "\<forall>f. ?fs f \<noteq> RUNNING" using Cons.prems by simp
    from Cons.IH[OF this] show ?case using c by (auto simp: case_prod_unfold)
  qed simp
  from this[of "rn_futs s" "rn_awaiting s"] have r: "\<forall>f. rn_futs (cancel_awaiting s) f \<noteq> RUNNING"
    "fut_done (rn_futs s f) \<Longrightarrow> fut_done (rn_futs (cancel_awaiting s) f)"
    "f \<in> snd ` set (rn_awaiting s) \<Longrightarrow> fut_done (rn_futs (cancel_awaiting s) f)" for f
    using assms(1) by (auto simp: rn_inv_def cancel_awaiting_def)
  have "accounted (cancel_awaiting s) f k" if "accounted s f k" for f k
    using that r(2,3)[of f] by (force simp: accounted_def dest: map_of_SomeD)
  then show ?thesis using assms r(1) by (auto simp: rn_inv_def all_accounted_def cancel_awaiting_def)
qed

lemma emit_inv:
  assumes "rn_inv s" and "all_accounted s" and "co_step pick (rn_co s) (Publish i) = Some co'"
    and "sys_inv co'" and s': "s' = emit_frame cv now unix acc refused (inflight (rn_co s) ! i) (s\<lparr>rn_co := co'\<rparr>)"
  shows "rn_inv s' \<and> all_accounted s' \<and> rn_begun s' = rn_begun s"
proof -
  let ?k = "fr_key (inflight (rn_co s) ! i)"
  have r: "\<forall>f. rn_futs (s\<lparr>rn_co := co'\<rparr>) f \<noteq> RUNNING" using assms(1) by (simp add: rn_inv_def)
  note c = emit_frame_core[OF r s']
  have e: "rn_co s' = co'" "rn_awaiting s' = AList.delete ?k (rn_awaiting s)" "rn_opening s' = rn_opening s" "rn_begun s' = rn_begun s"
    using c by (auto simp: core_def)
  have d: "fut_done (rn_futs s' f)" if "fut_done (rn_futs s f) \<or> map_of (rn_awaiting s) ?k = Some f" for f
    using c that by (auto simp: answers_more_def)
  have "accounted s' f k" if "accounted s f k" for f k
  proof (cases "k = ?k")
    case True
    then show ?thesis using that d[of f] by (auto simp: accounted_def)
  next
    case False
    then show ?thesis using that d[of f] publish_live[OF assms(3)] by (auto simp: accounted_def e dict_simps)
  qed
  then show ?thesis using assms(1,2,4) c by (auto simp: all_accounted_def rn_inv_def e dict_simps answers_more_def split: if_splits)
qed

lemma open_frame_inv:
  assumes "rn_inv s" and "all_accounted s" and "open_frame pick i now clk s = Some s'"
    and "\<And>op co'. co_step pick (rn_co s) op = Some co' \<Longrightarrow> sys_inv co'"
  shows "rn_inv s' \<and> all_accounted s' \<and> rn_begun s' = rn_begun s"
proof -
  obtain w st where o: "i < length (rn_opening s)" "rn_opening s ! i = (w, st)"
    using assms(3) by (auto simp: open_frame_def split: if_splits prod.splits)
  let ?op = "Open now clk st [unconditional_stage (rn_graph s)]"
  let ?k = "fs_key st" and ?rest = "take i (rn_opening s) @ drop (Suc i) (rn_opening s)"
  obtain co' where co: "co_step pick (rn_co s) ?op = Some co'" using assms(3) o by (auto simp: open_frame_def)
  have inv': "sys_inv co'" by (rule assms(4)[OF co])
  have grows: "mset (admitted (rn_co s)) \<subseteq># mset (admitted co') \<and> emitted co' = emitted (rn_co s)" by (rule co_step_grows[OF co]) simp
  have mv: "rn_inv (s\<lparr>rn_co := co'\<rparr>)" "all_accounted (s\<lparr>rn_co := co'\<rparr>)" using co_move_inv[OF assms(1,2) inv' grows] by auto
  define s1 where "s1 = s\<lparr>rn_co := co', rn_opening := ?rest\<rparr>"
  have sets: "set (rn_opening s) = insert (w, st) (set ?rest)" using id_take_nth_drop[OF o(1)] o(2) by (metis Un_insert_right set_append list.simps(15))
  have i1: "rn_inv s1" using mv(1) sets by (auto simp: rn_inv_def s1_def)
  have a1: "accounted s1 f k" if "(f, k) \<in> set (rn_begun s)" "(f, k) \<noteq> (fut w, ?k) \<or> ?k \<in> live co'" for f k
    using mv(2) that sets by (fastforce simp: all_accounted_def accounted_def s1_def)
  show ?thesis
  proof (cases "admitted co' = admitted (rn_co s)")
    case False
    then have ok: "s' = s1" using assms(3) o co by (simp add: open_frame_def s1_def Let_def)
    have "admitted co' = admitted (rn_co s) @ [?k]" using co False by (auto split: prod.splits if_splits)
    moreover have "mset (admitted co') = mset (map fst (co_pending (sys_c co'))) + mset (map fr_key (inflight co')) + mset (map fr_key (emitted co'))"
      "mset (admitted (rn_co s)) = mset (map fst (co_pending (sys_c (rn_co s)))) + mset (map fr_key (inflight (rn_co s))) + mset (map fr_key (emitted (rn_co s)))"
      using inv' assms(1) by (auto simp: rn_inv_def sys_inv_def)
    ultimately have "add_mset ?k (mset (map fst (co_pending (sys_c (rn_co s)))) + mset (map fr_key (inflight (rn_co s)))) =
        mset (map fst (co_pending (sys_c co'))) + mset (map fr_key (inflight co'))" using grows by simp
    then have "?k \<in># mset (map fst (co_pending (sys_c co'))) + mset (map fr_key (inflight co'))" by (metis union_single_eq_member)
    then have "?k \<in> live co'" by (auto simp: live_def)
    then show ?thesis using a1 i1 ok by (auto simp: all_accounted_def s1_def)
  next
    case True
    define s2 where "s2 = (if map_of (rn_awaiting s1) ?k = Some (fut w) then s1\<lparr>rn_awaiting := AList.delete ?k (rn_awaiting s1)\<rparr> else s1)"
    let ?s3 = "on_rm (\<lambda>m. m\<lparr>rm_failed := counter_inc (camera_id (ctx (req w))) (rm_failed m)\<rparr>) s2"
    have e: "s' = (case fail_item w RequestCancelledError ?s3 of (s4, raised) \<Rightarrow> if raised then worker_failed w s4 else s4)"
      using assms(3)[unfolded open_frame_def if_P[OF o(1)] o(2) prod.case co option.map(2) Let_def] True
      unfolding s1_def s2_def by simp
    have i2: "rn_inv s2" using i1 by (auto simp: rn_inv_def s2_def dict_simps split: if_splits)
    then have c: "core s' = core s2 \<and> answers_more s2 s' \<and> fut_done (rn_futs s' (fut w))"
      using fail_or_log_core[OF _ e] by (simp add: rn_inv_def answers_more_def)
    have b: "rn_begun s' = rn_begun s" using c by (auto simp: core_def s2_def s1_def)
    have "accounted s' f k" if fk: "(f, k) \<in> set (rn_begun s)" for f k
    proof (cases "f = fut w")
      case False
      then have "accounted s2 f k" using a1[OF fk] by (auto simp: accounted_def s2_def dict_simps)
      then show ?thesis using accounted_core c by blast
    qed (use c in \<open>simp add: accounted_def\<close>)
    then show ?thesis using rn_inv_core[OF _ _ i2] c b by (auto simp: all_accounted_def)
  qed
qed


lemma observe_grows:
  "sys_inv co \<Longrightarrow> sys_inv (keep co (co_observe key e (sys_c co), []))"
  by (cases e) (auto simp: co_observe_def expect_inv deliver_inv, simp add: keep_def)

lemma fail_begun [simp]: "rn_begun (fst (fail_item w e s)) = rn_begun s" "rn_begun (worker_failed w s) = rn_begun s"
  by (auto simp: fail_item_def worker_failed_def Let_def split: sum.splits)

lemma begin_frame_begun: "rn_begun (begin_frame w now s) = rn_begun s @ [(fut w, context_key (ctx (req w)))]"
  by (auto simp: begin_frame_def Let_def case_prod_unfold split: sum.splits)

lemma emit_begun [simp]:
  "rn_begun (fst (settle_opt fid v s)) = rn_begun s" "rn_begun (build_failed r s) = rn_begun s"
  "rn_begun (emit_resolved cv now unix acc refused fid r s) = rn_begun s" "rn_begun (emit_frame cv now unix acc refused r s) = rn_begun s"
proof -
  show s: "rn_begun (fst (settle_opt fid v s)) = rn_begun s" for fid v and s :: "('a, 'b) runner"
    by (simp add: settle_opt_def case_prod_unfold split: option.splits)
  show b: "rn_begun (build_failed r s) = rn_begun s" for s :: "('a, 'b) runner" by (simp add: build_failed_def)
  show e: "rn_begun (emit_resolved cv now unix acc refused fid r s) = rn_begun s" for fid and s :: "('a, 'b) runner"
    by (simp add: emit_resolved_def Let_def case_prod_unfold s b split: sum.splits)
  show "rn_begun (emit_frame cv now unix acc refused r s) = rn_begun s" by (simp add: emit_frame_def Let_def e split: option.splits)
qed

lemma rn_step_begun: "rn_step cv pick s op = Some s' \<Longrightarrow> \<exists>more. rn_begun s' = rn_begun s @ more"
proof (cases op)
  case (OpenFrame i now clk)
  assume "rn_step cv pick s op = Some s'"
  then show ?thesis using OpenFrame by (auto simp: open_frame_def Let_def case_prod_unfold split: if_splits)
qed (auto simp: begin_frame_begun via_co_def observe_def cancel_awaiting_def)

lemma rn_run_begun: "rn_run cv pick s ops = Some s' \<Longrightarrow> \<exists>more. rn_begun s' = rn_begun s @ more"
proof (induction ops arbitrary: s)
  case (Cons op ops)
  then obtain s1 where s1: "rn_step cv pick s op = Some s1" "rn_run cv pick s1 ops = Some s'" by (auto split: option.splits)
  then show ?case using rn_step_begun[OF s1(1)] Cons.IH[OF s1(2)] by auto
qed simp

context eviction_policy
begin

lemma runner_step:
  assumes "rn_inv s" and "all_accounted s" and "rn_step cv pick s op = Some s'" and "distinct (map snd (rn_begun s'))"
  shows "rn_inv s' \<and> all_accounted s'"
proof -
  have inv: "sys_inv (rn_co s)" using assms(1) by (simp add: rn_inv_def)
  have via: "rn_inv s' \<and> all_accounted s' \<and> rn_begun s' = rn_begun s" if v: "via_co pick cop s = Some s'" "\<forall>i. cop \<noteq> Publish i" for cop
  proof -
    obtain co' where co: "co_step pick (rn_co s) cop = Some co'" "s' = s\<lparr>rn_co := co'\<rparr>" using v(1) by (auto simp: via_co_def)
    show ?thesis using co_move_inv[OF assms(1,2) step_inv[OF inv co(1)] co_step_grows[OF co(1) v(2)]] co(2) by simp
  qed
  show ?thesis
  proof (cases op)
    case (Begin w now)
    then have s': "s' = begin_frame w now s" using assms(3) by simp
    have "fresh_key s (context_key (ctx (req w)))" using assms(4) begin_frame_begun[of w now s] by (auto simp: fresh_key_def s')
    then show ?thesis using begin_frame_inv[OF assms(1,2)] s' by auto
  next
    case (OpenFrame i now clk)
    then show ?thesis using open_frame_inv[OF assms(1,2) _ step_inv[OF inv]] assms(3) by auto
  next
    case (Observe key e)
    let ?t = "s\<lparr>rn_co := keep (rn_co s) (co_observe key e (sys_c (rn_co s)), [])\<rparr>"
    have s': "core s' = core ?t" "rn_futs s' = rn_futs s"
      using assms(3) Observe by (auto simp: observe_def)
    have mv: "rn_inv ?t \<and> all_accounted ?t" by (rule co_move_inv[OF assms(1,2) observe_grows[OF inv]]) simp
    have a: "answers_more ?t s'" using s'(2) assms(1) by (simp add: answers_more_def rn_inv_def)
    show ?thesis using rn_inv_core[OF s'(1) a] all_accounted_core[OF s'(1) a] mv by blast
  next
    case (Emit i acc now unix refused)
    then obtain co' where co: "co_step pick (rn_co s) (Publish i) = Some co'"
      "s' = emit_frame cv now unix acc refused (inflight (rn_co s) ! i) (s\<lparr>rn_co := co'\<rparr>)"
      using assms(3) by (auto simp: via_co_def)
    then show ?thesis using emit_inv[OF assms(1,2) co(1) step_inv[OF inv co(1)] co(2)] by auto
  next
    case (CallerCancel f)
    then have "core s' = core s \<and> answers_more s s'" using assms(1,3) by (auto simp: core_def answers_more_def caller_cancel_def fut_done_def rn_inv_def split: if_splits)
    then show ?thesis using rn_inv_core[OF _ _ assms(1)] all_accounted_core[OF _ _ assms(2)] by blast
  next
    case CancelAwaiting
    then show ?thesis using cancel_awaiting_inv[OF assms(1,2)] assms(3) by (auto simp: cancel_awaiting_def)
  qed (use via assms(3) in force)+
qed

lemma runner_run:
  "rn_inv s \<Longrightarrow> all_accounted s \<Longrightarrow> rn_run cv pick s ops = Some s' \<Longrightarrow> distinct (map snd (rn_begun s')) \<Longrightarrow> all_accounted s'"
proof (induction ops arbitrary: s)
  case (Cons op ops)
  from Cons.prems(3) obtain s1 where s1: "rn_step cv pick s op = Some s1" "rn_run cv pick s1 ops = Some s'" by (auto split: option.splits)
  have "distinct (map snd (rn_begun s1))" using rn_run_begun[OF s1(2)] Cons.prems(4) by auto
  from runner_step[OF Cons.prems(1,2) s1(1) this] show ?case using Cons.IH s1(2) Cons.prems(4) by blast
qed simp

end



definition sample_work :: "string \<Rightarrow> int \<Rightarrow> nat \<Rightarrow> work_item" where
  "sample_work cam n f =
     (let w = sample_item cam NORMAL 0 f in
      w\<lparr>req := (req w)\<lparr>ctx := (ctx (req w))\<lparr>frame_id := n\<rparr>,
        inputs := [(''image'', projr (from_numpy \<lparr>nd_dtype = NpUint8, nd_shape = [1, 2, 2, 3], nd_data = replicate 12 7\<rparr>))]\<rparr>\<rparr>)"

definition sample_runner :: "(int, int) runner" where
  "sample_runner = rn_init sample_graph ''image'' ''edge-1'' [] 0 4 1500"

definition sample_trace :: "int rn_op list" where
  "sample_trace =
     [Begin (sample_work ''quay'' 1 0) 0, OpenFrame 0 0 (\<lambda>_. 0), Begin (sample_work ''quay'' 2 1) 0, SealFrame (''quay'', 1) 5,
      OpenFrame 0 6 (\<lambda>_. 0), Emit 0 True 9 9 0]"

definition sample_after :: "(int, int) runner" where
  "sample_after = the (rn_run (\<lambda>_ r. Inr r) greediest_choose sample_runner sample_trace)"

lemma sample_after_run: "rn_run (\<lambda>_ r. Inr r) greediest_choose sample_runner sample_trace = Some sample_after"
proof -
  have "rn_run (\<lambda>_ r. Inr r) greediest_choose sample_runner sample_trace \<noteq> None" by code_simp
  then show ?thesis by (auto simp: sample_after_def)
qed



section \<open>The verdict on a frame\<close>

definition ran :: "observed list \<Rightarrow> string set" where
  "ran ev = oc_stage ` {oc \<in> set (outcomes ev). oc_status oc = RAN}"

lemma ran_simps [simp]:
  "ran [] = {}" "ran (Planned ns # ev) = ran ev"
  "ran (Finished oc # ev) = (if oc_status oc = RAN then insert (oc_stage oc) (ran ev) else ran ev)"
  by (auto simp: ran_def)

lemma set_add_new [simp]: "set (add_new x xs) = insert x (set xs)"
  by (auto simp: add_new_def)

lemma set_fold_add_new [simp]: "set (fold add_new xs ys) = set xs \<union> set ys"
  by (induction xs arbitrary: ys) auto

lemma observe_all:
  "map_of (co_pending c) key = Some f \<Longrightarrow> \<exists>f'. map_of (co_pending (fold (co_observe key) ev c)) key = Some f' \<and>
     set (pf_expected f') = set (pf_expected f) \<union> set (announced ev) \<union> ran ev \<and> set (pf_delivered f') = set (pf_delivered f) \<union> ran ev"
proof (induction ev arbitrary: c f)
  case (Cons e ev)
  show ?case
  proof (cases e)
    case (Planned ns)
    have "map_of (co_pending (co_observe key e c)) key = Some (if ns = [] then f else pf_expect ns f)"
      using Cons.prems Planned by (simp add: co_observe_def co_expect_def dict_simps)
    from Cons.IH[OF this] show ?thesis using Planned by (auto simp: pf_expect_def)
  next
    case (Finished oc)
    have "map_of (co_pending (co_observe key e c)) key = Some (if oc_status oc = RAN then fst (pf_deliver (oc_stage oc) f) else f)"
      using Cons.prems Finished by (simp add: co_observe_def co_deliver_def dict_simps)
    from Cons.IH[OF this] show ?thesis using Finished by (auto simp: pf_deliver_def Let_def)
  qed
qed auto

lemma seal_result:
  "map_of (co_pending c) key = Some f \<Longrightarrow> co_seal key now c = (c', Some r) \<Longrightarrow>
    set (fr_missing r) = set (pf_expected f) - set (pf_delivered f) \<and> fr_reason r = (if fr_missing r = [] then COMPLETE else INCOMPLETE)"
proof -
  assume "map_of (co_pending c) key = Some f" and "co_seal key now c = (c', Some r)"
  then have "fr_missing r = pf_missing f" "fr_reason r = (if pf_is_complete f then COMPLETE else INCOMPLETE)"
    by (auto simp: co_seal_def pf_result_def)
  then show ?thesis using missing_iff[of f] by (auto simp: pf_missing_def)
qed




text \<open>
  Why no two stages may produce one name, which \<^verbatim>\<open>validate\<close> does not check: the second producer empties a batch after the
  plan announced its consumer, which is then skipped although announced.
\<close>

definition plain_stage :: "string \<Rightarrow> string list \<Rightarrow> string \<Rightarrow> int list \<Rightarrow> int stage" where
  "plain_stage name requires out rows =
     \<lparr>sg_name = name, sg_consumes = requires, sg_requires = requires, sg_optional = [], sg_produces = [out], sg_card = PER_OBJECT,
      sg_expands = True, sg_model = None, sg_outputs = [],
      do_run = (\<lambda>s. (attach \<lparr>ob_name = out, ob_class = ''ship'', object_indices = rows, ob_data = rows\<rparr> s, Inr (int (length rows))))\<rparr>"

lemma duplicate_producers_disagree:
  "let stages = [plain_stage ''first'' [FRAME_INPUT] ''crops'' [0], plain_stage ''second'' [FRAME_INPUT] ''crops'' [],
       plain_stage ''embed'' [''crops''] ''detections'' []] in
   \<exists>g. mk_graph stages [] = Inr g \<and> validate_graph (\<lambda>_. Inr None) g = Inr () \<and>
     (let ev = snd (execute g sample_camera_frame) in
      ''embed'' \<in> set (announced ev) \<and> list_ex (\<lambda>oc. oc_stage oc = ''embed'' \<and> oc_status oc = SKIPPED) (outcomes ev))"
  (is "let stages = ?sts in ?p stages")
proof -
  have "(case mk_graph ?sts [] of Inl e \<Rightarrow> False | Inr g \<Rightarrow> validate_graph (\<lambda>_. Inr None) g = Inr () \<and>
     (let ev = snd (execute g sample_camera_frame) in
      ''embed'' \<in> set (announced ev) \<and> list_ex (\<lambda>oc. oc_stage oc = ''embed'' \<and> oc_status oc = SKIPPED) (outcomes ev)))" by code_simp
  then show ?thesis unfolding Let_def by (auto split: sum.splits)
qed

end
