(* ===== verification/Response_Cache.thy ===== *)
theory Response_Cache
  imports Requests
begin

text \<open>
  \<^verbatim>\<open>src/shipinfer/engine/cache\<close>: the response cache contract, its bounded LRU implementation and the null object.

  An \<^verbatim>\<open>OrderedDict\<close> is an association list in its order, oldest use first.  Keys are what the hash gives: opaque strings.  Sealing an array against writes has no counterpart: values of the model are not shared memory.
\<close>

type_synonym payload = "(string, tensor) dict"

section \<open>Entries\<close>

definition freeze_outputs :: "payload \<Rightarrow> payload result" where
  "freeze_outputs outputs =
     rmapM (\<lambda>(name, t). rbind (tensor_numpy t) (\<lambda>a. rbind (from_numpy a) (\<lambda>t'. Inr (name, t')))) outputs"

definition payload_bytes :: "payload \<Rightarrow> int" where
  "payload_bytes p = sum_list (map (\<lambda>(name, t). tensor_nbytes t) p)"

section \<open>The LRU cache\<close>

record lru =
  max_entries :: int
  max_bytes :: int
  entries :: "(string, payload) dict"
  sizes :: "(string, int) dict"
  lru_bytes :: int
  hits :: int
  misses :: int
  evictions :: int

definition lru_init :: "int \<Rightarrow> int \<Rightarrow> lru" where
  "lru_init me mb = \<lparr>max_entries = me, max_bytes = mb, entries = [], sizes = [], lru_bytes = 0, hits = 0, misses = 0, evictions = 0\<rparr>"

definition to_end :: "'k \<Rightarrow> 'v \<Rightarrow> ('k, 'v) dict \<Rightarrow> ('k, 'v) dict" where
  "to_end k v d = AList.delete k d @ [(k, v)]"

definition lru_get :: "string \<Rightarrow> lru \<Rightarrow> lru \<times> payload option" where
  "lru_get key c =
     (case map_of (entries c) key of
        None \<Rightarrow> (c\<lparr>misses := misses c + 1\<rparr>, None)
      | Some p \<Rightarrow> (c\<lparr>entries := to_end key p (entries c), hits := hits c + 1\<rparr>, Some p))"

text \<open>The loop of \<^verbatim>\<open>put\<close>: \<^verbatim>\<open>popitem(last=False)\<close> until both bounds hold or nothing is left.\<close>

function evict_lru :: "lru \<Rightarrow> lru" where
  "evict_lru c =
     (if entries c \<noteq> [] \<and> (int (length (entries c)) > max_entries c \<or> lru_bytes c > max_bytes c) then
        (let victim = fst (hd (entries c));
             freed = (case map_of (sizes c) victim of None \<Rightarrow> 0 | Some n \<Rightarrow> n)
         in evict_lru (c\<lparr>entries := tl (entries c), sizes := AList.delete victim (sizes c), lru_bytes := lru_bytes c - freed,
                         evictions := evictions c + 1\<rparr>))
      else c)"
  by pat_completeness auto
termination by (relation "measure (\<lambda>c. length (entries c))") (auto simp: Let_def neq_Nil_conv)

declare evict_lru.simps [simp del]

definition lru_put :: "string \<Rightarrow> payload \<Rightarrow> lru \<Rightarrow> lru \<times> unit result" where
  "lru_put key outputs c =
     (case freeze_outputs outputs of
        Inl e \<Rightarrow> (c, Inl e)
      | Inr p \<Rightarrow>
          (let nbytes = payload_bytes p in
           if nbytes > max_bytes c then (c, Inr ())
           else case (if map_of (entries c) key \<noteq> None
                      then (case map_of (sizes c) key of None \<Rightarrow> Inl KeyError | Some n \<Rightarrow> Inr (lru_bytes c - n))
                      else Inr (lru_bytes c)) of
                  Inl e \<Rightarrow> (c, Inl e)
                | Inr left \<Rightarrow>
                    (evict_lru (c\<lparr>entries := to_end key p (entries c), sizes := AList.update key nbytes (sizes c),
                                  lru_bytes := left + nbytes\<rparr>), Inr ())))"

definition lru_clear :: "lru \<Rightarrow> lru" where
  "lru_clear c = c\<lparr>entries := [], sizes := [], lru_bytes := 0\<rparr>"

definition lru_stats :: "lru \<Rightarrow> (string, int) dict" where
  "lru_stats c =
     [(''hits'', hits c), (''misses'', misses c), (''entries'', int (length (entries c))), (''bytes'', lru_bytes c), (''evictions'', evictions c)]"

definition hit_rate :: "(string, int) dict \<Rightarrow> rat" where
  "hit_rate st =
     (let h = (case map_of st ''hits'' of None \<Rightarrow> 0 | Some n \<Rightarrow> n); tot = h + (case map_of st ''misses'' of None \<Rightarrow> 0 | Some n \<Rightarrow> n)
      in if tot \<noteq> 0 then of_int h / of_int tot else 0)"

section \<open>The invariant\<close>

definition lru_ok :: "lru \<Rightarrow> bool" where
  "lru_ok c \<longleftrightarrow> dict_wf (entries c) \<and>
     (\<forall>k. map_of (sizes c) k = map_option payload_bytes (map_of (entries c) k)) \<and>
     lru_bytes c = sum_list (map (payload_bytes \<circ> snd) (entries c))"

definition fits :: "int \<Rightarrow> int \<Rightarrow> (string, payload) dict \<Rightarrow> bool" where
  "fits me mb d \<longleftrightarrow> d = [] \<or> (int (length d) \<le> me \<and> sum_list (map (payload_bytes \<circ> snd) d) \<le> mb)"

text \<open>The longest suffix that fits: what the specification keeps.\<close>

fun shed :: "int \<Rightarrow> int \<Rightarrow> (string, payload) dict \<Rightarrow> (string, payload) dict" where
  "shed me mb [] = []"
| "shed me mb (x # xs) = (if fits me mb (x # xs) then x # xs else shed me mb xs)"

lemma shed_fits: "fits me mb (shed me mb d)"
  by (induction d) (auto simp: fits_def)

lemma shed_suffix: "\<exists>pre. d = pre @ shed me mb d"
  by (induction d) (auto intro: exI[of _ "[]"] exI[of _ "_ # _"])

lemma shed_longest: "d = pre @ suf \<Longrightarrow> fits me mb suf \<Longrightarrow> length suf \<le> length (shed me mb d)"
proof (induction d arbitrary: pre)
  case (Cons x xs)
  show ?case
  proof (cases "fits me mb (x # xs)")
    case True
    then show ?thesis using arg_cong[OF Cons.prems(1), of length] by simp
  next
    case False
    then obtain pre' where "xs = pre' @ suf" using Cons.prems by (cases pre) auto
    then show ?thesis using Cons.IH Cons.prems(2) False by simp
  qed
qed simp

lemma evict_lru_spec:
  assumes "lru_ok c"
  shows "lru_ok (evict_lru c) \<and> entries (evict_lru c) = shed (max_entries c) (max_bytes c) (entries c) \<and>
    max_entries (evict_lru c) = max_entries c \<and> max_bytes (evict_lru c) = max_bytes c \<and> hits (evict_lru c) = hits c \<and>
    misses (evict_lru c) = misses c"
  using assms
proof (induction c rule: evict_lru.induct)
  case (1 c)
  show ?case
  proof (cases "entries c \<noteq> [] \<and> (int (length (entries c)) > max_entries c \<or> lru_bytes c > max_bytes c)")
    case False
    then have "shed (max_entries c) (max_bytes c) (entries c) = entries c"
      using "1.prems" by (cases "entries c") (auto simp: fits_def lru_ok_def)
    then show ?thesis using False "1.prems" by (subst (1 2 3 4 5 6) evict_lru.simps) auto
  next
    case True
    then obtain k p es where es: "entries c = (k, p) # es" by (cases "entries c") auto
    have sz: "map_of (sizes c) k = Some (payload_bytes p)" using "1.prems" es by (simp add: lru_ok_def)
    let ?c = "c\<lparr>entries := es, sizes := AList.delete k (sizes c), lru_bytes := lru_bytes c - payload_bytes p, evictions := evictions c + 1\<rparr>"
    have step: "evict_lru c = evict_lru ?c" by (subst evict_lru.simps) (use True es sz in simp)
    have ok: "lru_ok ?c" using "1.prems" es by (auto simp: lru_ok_def dict_simps map_of_eq_None_iff)
    have "\<not> fits (max_entries c) (max_bytes c) (entries c)" using True "1.prems" by (auto simp: fits_def lru_ok_def)
    then have "shed (max_entries c) (max_bytes c) (entries c) = shed (max_entries c) (max_bytes c) es" using es by simp
    then show ?thesis using "1.IH"[OF True] ok es sz unfolding step by simp
  qed
qed


lemma dict_delete_absent: "k \<notin> fst ` set d \<Longrightarrow> AList.delete k d = d"
  by (induction d) auto

lemma dict_sum_delete:
  fixes f :: "'v \<Rightarrow> int"
  shows "dict_wf d \<Longrightarrow> map_of d k = Some v \<Longrightarrow> sum_list (map (f \<circ> snd) (AList.delete k d)) + f v = sum_list (map (f \<circ> snd) d)"
proof (induction d)
  case (Cons x d)
  show ?case
  proof (cases "fst x = k")
    case True
    then have "AList.delete k d = d" using Cons.prems(1) by (intro dict_delete_absent) auto
    then show ?thesis using True Cons.prems(2) by (cases x) auto
  next
    case False
    then show ?thesis using Cons by (cases x) auto
  qed
qed simp

lemma map_of_to_end [dict_simps]: "map_of (to_end k v d) x = (if x = k then Some v else map_of d x)"
  by (auto simp: to_end_def dict_simps map_add_def split: option.splits)

lemma to_end_wf [simp]: "dict_wf d \<Longrightarrow> dict_wf (to_end k v d)"
  by (simp add: to_end_def dict_keys_delete)

lemma to_end_sum:
  fixes f :: "'v \<Rightarrow> int"
  shows "dict_wf d \<Longrightarrow> map_of d k = Some v \<Longrightarrow> sum_list (map (f \<circ> snd) (to_end k v d)) = sum_list (map (f \<circ> snd) d)"
  using dict_sum_delete[of d k v f] by (simp add: to_end_def)

lemma to_end_length: "dict_wf d \<Longrightarrow> map_of d k = Some v \<Longrightarrow> length (to_end k v d) = length d"
  using to_end_sum[of d k v "\<lambda>_. 1"] by (simp add: comp_def sum_list_triv)

lemma lru_get_ok: "lru_ok c \<Longrightarrow> lru_ok (fst (lru_get key c))"
proof (cases "map_of (entries c) key")
  case (Some p)
  assume "lru_ok c"
  then show ?thesis using Some to_end_sum[of "entries c" key p payload_bytes] by (simp add: lru_get_def lru_ok_def dict_simps)
qed (simp add: lru_get_def lru_ok_def)

section \<open>The specification\<close>

text \<open>
  What the cache promises, with no counters: the stored answers in order of last use, of which a new answer keeps
  the most recent that fit both bounds.
\<close>

definition spec_get :: "string \<Rightarrow> (string, payload) dict \<Rightarrow> (string, payload) dict \<times> payload option" where
  "spec_get k d = (case map_of d k of None \<Rightarrow> (d, None) | Some p \<Rightarrow> (to_end k p d, Some p))"

definition spec_put :: "int \<Rightarrow> int \<Rightarrow> string \<Rightarrow> payload \<Rightarrow> (string, payload) dict \<Rightarrow> (string, payload) dict" where
  "spec_put me mb k outputs d =
     (case freeze_outputs outputs of
        Inl e \<Rightarrow> d
      | Inr p \<Rightarrow> if payload_bytes p > mb then d else shed me mb (to_end k p d))"

lemma lru_get_refines: "entries (fst (lru_get k c)) = fst (spec_get k (entries c))" "snd (lru_get k c) = snd (spec_get k (entries c))"
  by (auto simp: lru_get_def spec_get_def split: option.splits)

lemma lru_put_refines:
  assumes "lru_ok c"
  shows "lru_ok (fst (lru_put k outputs c)) \<and>
    entries (fst (lru_put k outputs c)) = spec_put (max_entries c) (max_bytes c) k outputs (entries c) \<and>
    max_entries (fst (lru_put k outputs c)) = max_entries c \<and> max_bytes (fst (lru_put k outputs c)) = max_bytes c \<and>
    hits (fst (lru_put k outputs c)) = hits c \<and> misses (fst (lru_put k outputs c)) = misses c \<and>
    snd (lru_put k outputs c) = (case freeze_outputs outputs of Inl e \<Rightarrow> Inl e | Inr _ \<Rightarrow> Inr ())"
proof (cases "freeze_outputs outputs")
  case (Inl e)
  then show ?thesis using assms by (simp add: lru_put_def spec_put_def)
next
  case (Inr p)
  show ?thesis
  proof (cases "payload_bytes p > max_bytes c")
    case True
    then show ?thesis using Inr assms by (simp add: lru_put_def spec_put_def Let_def)
  next
    case False
    define left where "left = (case map_of (entries c) k of None \<Rightarrow> lru_bytes c | Some q \<Rightarrow> lru_bytes c - payload_bytes q)"
    let ?c = "c\<lparr>entries := to_end k p (entries c), sizes := AList.update k (payload_bytes p) (sizes c), lru_bytes := left + payload_bytes p\<rparr>"
    have e: "lru_put k outputs c = (evict_lru ?c, Inr ())"
      using False Inr assms by (auto simp: lru_put_def Let_def left_def lru_ok_def split: option.splits)
    have "left = sum_list (map (payload_bytes \<circ> snd) (AList.delete k (entries c)))"
    proof (cases "map_of (entries c) k")
      case None
      then have "AList.delete k (entries c) = entries c" by (intro dict_delete_absent) (simp add: map_of_eq_None_iff)
      then show ?thesis using None assms by (simp add: left_def lru_ok_def)
    next
      case (Some q)
      then show ?thesis using dict_sum_delete[of "entries c" k q payload_bytes] assms by (simp add: left_def lru_ok_def)
    qed
    then have "lru_ok ?c" using assms by (auto simp: lru_ok_def dict_simps) (simp add: to_end_def)
    from evict_lru_spec[OF this] show ?thesis using False Inr e by (simp add: spec_put_def)
  qed
qed

datatype cache_op = Get string | Put string payload | Clear

fun lru_run :: "cache_op list \<Rightarrow> lru \<Rightarrow> lru \<times> payload option list" where
  "lru_run [] c = (c, [])"
| "lru_run (Get k # ops) c = (case lru_get k c of (c1, a) \<Rightarrow> case lru_run ops c1 of (c2, as) \<Rightarrow> (c2, a # as))"
| "lru_run (Put k p # ops) c = lru_run ops (fst (lru_put k p c))"
| "lru_run (Clear # ops) c = lru_run ops (lru_clear c)"

fun spec_run :: "int \<Rightarrow> int \<Rightarrow> cache_op list \<Rightarrow> (string, payload) dict \<Rightarrow> (string, payload) dict \<times> payload option list" where
  "spec_run me mb [] d = (d, [])"
| "spec_run me mb (Get k # ops) d = (case spec_get k d of (d1, a) \<Rightarrow> case spec_run me mb ops d1 of (d2, as) \<Rightarrow> (d2, a # as))"
| "spec_run me mb (Put k p # ops) d = spec_run me mb ops (spec_put me mb k p d)"
| "spec_run me mb (Clear # ops) d = spec_run me mb ops []"

lemma spec_fits:
  "fits me mb d \<Longrightarrow> dict_wf d \<Longrightarrow> fits me mb (fst (spec_get k d))" "fits me mb d \<Longrightarrow> fits me mb (spec_put me mb k p d)"
proof -
  assume f: "fits me mb d" and wf: "dict_wf d"
  show "fits me mb (fst (spec_get k d))"
  proof (cases "map_of d k")
    case (Some p)
    have "to_end k p d \<noteq> []" "d \<noteq> []" using Some by (auto simp: to_end_def)
    then show ?thesis using f Some to_end_length[OF wf Some] to_end_sum[OF wf Some, of payload_bytes] by (simp add: spec_get_def fits_def)
  qed (use f in \<open>simp add: spec_get_def\<close>)
qed (auto simp: spec_put_def shed_fits split: sum.splits)


lemma lru_clear_ok: "lru_ok (lru_clear c)" "entries (lru_clear c) = []"
  by (simp_all add: lru_clear_def lru_ok_def)

lemma lru_get_keeps [simp]: "max_entries (fst (lru_get k c)) = max_entries c" "max_bytes (fst (lru_get k c)) = max_bytes c"
  "hits (fst (lru_get k c)) + misses (fst (lru_get k c)) = hits c + misses c + 1"
  by (auto simp: lru_get_def split: option.splits)

lemma lru_run_refines:
  "lru_ok c \<Longrightarrow> fits (max_entries c) (max_bytes c) (entries c) \<Longrightarrow> lru_run ops c = (c', as) \<Longrightarrow>
    lru_ok c' \<and> fits (max_entries c) (max_bytes c) (entries c') \<and>
    spec_run (max_entries c) (max_bytes c) ops (entries c) = (entries c', as) \<and>
    hits c' + misses c' = hits c + misses c + int (length as)"
proof (induction ops c arbitrary: c' as rule: lru_run.induct)
  case (2 k ops c)
  obtain c1 a where g: "lru_get k c = (c1, a)" by (rule prod.exhaust)
  obtain c2 as2 where r: "lru_run ops c1 = (c2, as2)" by (rule prod.exhaust)
  have e: "c' = c2" "as = a # as2" using 2(4) g r by auto
  have c1: "lru_ok c1" "entries c1 = fst (spec_get k (entries c))" "a = snd (spec_get k (entries c))"
    "max_entries c1 = max_entries c" "max_bytes c1 = max_bytes c" "hits c1 + misses c1 = hits c + misses c + 1"
    using lru_get_ok[OF 2(2), of k] lru_get_refines[of k c] lru_get_keeps[of k c] g by auto
  have f1: "fits (max_entries c1) (max_bytes c1) (entries c1)"
    using spec_fits(1)[OF 2(3)] 2(2) c1 by (simp add: lru_ok_def)
  show ?case using 2(1)[OF g[symmetric] c1(1) f1 r] c1 e by (simp add: case_prod_unfold)
next
  case (3 k p ops c)
  note ref = lru_put_refines[OF 3(2), of k p]
  let ?c1 = "fst (lru_put k p c)"
  have f1: "fits (max_entries ?c1) (max_bytes ?c1) (entries ?c1)" using ref spec_fits(2)[OF 3(3)] by simp
  show ?case using 3(1)[OF _ f1, of c' as] ref 3(4) by simp
next
  case (4 ops c)
  have f1: "fits (max_entries (lru_clear c)) (max_bytes (lru_clear c)) (entries (lru_clear c))" by (simp add: lru_clear_def fits_def)
  show ?case using 4(1)[OF lru_clear_ok(1) f1, of c' as] 4(4) by (simp add: lru_clear_def)
qed auto

text \<open>
  C17: the cache is an LRU map.  Over any sequence of lookups, stores and clears from a fresh cache, the answers are those of the
  specification, which keeps only the stored answers in order of last use and, after a store, the longest recent part of
  them that fits both bounds.  The contents always respect both bounds, the byte counter is the size of what is stored, and every lookup is
  counted once as a hit or a miss.
\<close>

theorem lru_refines_spec:
  "(case lru_run ops (lru_init me mb) of (c, as) \<Rightarrow>
      spec_run me mb ops [] = (entries c, as) \<and>
      (entries c = [] \<or> (int (length (entries c)) \<le> me \<and> lru_bytes c \<le> mb)) \<and>
      lru_bytes c = sum_list (map (payload_bytes \<circ> snd) (entries c)) \<and> dict_wf (entries c) \<and>
      hits c + misses c = int (length as))"
proof -
  obtain c as where r: "lru_run ops (lru_init me mb) = (c, as)" by (rule prod.exhaust)
  have "lru_ok (lru_init me mb)" "fits me mb (entries (lru_init me mb))" by (simp_all add: lru_ok_def lru_init_def fits_def)
  from lru_run_refines[OF this(1) _ r] this(2) show ?thesis using r by (auto simp: lru_init_def lru_ok_def fits_def)
qed

section \<open>What a client of the cache may rely on\<close>

text \<open>
  The contract the model's serving path relies on: a hit is something that was stored under that key.  \<^verbatim>\<open>holds\<close> is what a
  cache has; it may forget at any time.
\<close>

locale response_cache =
  fixes get :: "string \<Rightarrow> 's \<Rightarrow> 's \<times> payload option"
    and put :: "string \<Rightarrow> payload \<Rightarrow> 's \<Rightarrow> 's \<times> unit result"
    and clear :: "'s \<Rightarrow> 's"
    and ok :: "'s \<Rightarrow> bool"
    and holds :: "'s \<Rightarrow> string \<Rightarrow> payload option"
  assumes get_ok: "ok c \<Longrightarrow> ok (fst (get k c))"
    and put_ok: "ok c \<Longrightarrow> ok (fst (put k p c))"
    and clear_ok: "ok (clear c)"
    and hit_held: "ok c \<Longrightarrow> snd (get k c) = Some p \<Longrightarrow> holds c k = Some p"
    and get_holds: "ok c \<Longrightarrow> holds (fst (get k c)) j = Some p \<Longrightarrow> holds c j = Some p"
    and put_holds: "ok c \<Longrightarrow> holds (fst (put k outs c)) j = Some p \<Longrightarrow> holds c j = Some p \<or> (j = k \<and> freeze_outputs outs = Inr p)"
    and clear_holds: "holds (clear c) j = None"
begin

text \<open>Only answers of \<^verbatim>\<open>f\<close> are held.\<close>

definition sound_for :: "(string \<Rightarrow> payload option) \<Rightarrow> 's \<Rightarrow> bool" where
  "sound_for f c \<longleftrightarrow> ok c \<and> (\<forall>k p. holds c k = Some p \<longrightarrow> f k = Some p)"

lemma sound_get: "sound_for f c \<Longrightarrow> sound_for f (fst (get k c)) \<and> (\<forall>p. snd (get k c) = Some p \<longrightarrow> f k = Some p)"
  unfolding sound_for_def using get_ok hit_held get_holds by blast

lemma sound_put: "sound_for f c \<Longrightarrow> (\<forall>p. freeze_outputs outs = Inr p \<longrightarrow> f k = Some p) \<Longrightarrow> sound_for f (fst (put k outs c))"
  unfolding sound_for_def using put_ok put_holds by blast

lemma sound_clear: "sound_for f (clear c)"
  unfolding sound_for_def using clear_ok clear_holds by auto

end

lemma shed_subset: "map_of (shed me mb d) k = Some v \<Longrightarrow> dict_wf d \<Longrightarrow> map_of d k = Some v"
proof -
  assume k: "map_of (shed me mb d) k = Some v" and wf: "dict_wf d"
  obtain pre where "d = pre @ shed me mb d" using shed_suffix by blast
  then have "(k, v) \<in> set d" using map_of_SomeD[OF k] by (metis Un_iff set_append)
  then show ?thesis using wf by simp
qed

interpretation lru: response_cache lru_get lru_put lru_clear lru_ok "\<lambda>c. map_of (entries c)"
proof
  fix c k j p outs
  show "lru_ok c \<Longrightarrow> lru_ok (fst (lru_get k c))" by (rule lru_get_ok)
  show "lru_ok c \<Longrightarrow> lru_ok (fst (lru_put k p c))" using lru_put_refines by blast
  show "lru_ok c \<Longrightarrow> snd (lru_get k c) = Some p \<Longrightarrow> map_of (entries c) k = Some p" by (auto simp: lru_get_def split: option.splits)
  show "lru_ok c \<Longrightarrow> map_of (entries (fst (lru_get k c))) j = Some p \<Longrightarrow> map_of (entries c) j = Some p"
    by (auto simp: lru_get_def dict_simps split: option.splits if_splits)
  assume ok: "lru_ok c" and h: "map_of (entries (fst (lru_put k outs c))) j = Some p"
  have "map_of (spec_put (max_entries c) (max_bytes c) k outs (entries c)) j = Some p" using lru_put_refines[OF ok, of k outs] h by simp
  then show "map_of (entries c) j = Some p \<or> (j = k \<and> freeze_outputs outs = Inr p)"
    using ok by (auto simp: spec_put_def lru_ok_def dict_simps dest!: shed_subset split: sum.splits if_splits)
qed (simp_all add: lru_clear_ok)

text \<open>\<^verbatim>\<open>NullResponseCache\<close>: nothing is ever stored.\<close>

definition null_get :: "string \<Rightarrow> unit \<Rightarrow> unit \<times> payload option" where
  "null_get key c = (c, None)"

definition null_put :: "string \<Rightarrow> payload \<Rightarrow> unit \<Rightarrow> unit \<times> unit result" where
  "null_put key outputs c = (c, Inr ())"

interpretation null: response_cache null_get null_put "\<lambda>c. c" "\<lambda>_. True" "\<lambda>_ _. None"
  by unfold_locales (auto simp: null_get_def)

end
