(* ===== verification/Model_Instance.thy ===== *)
theory Model_Instance
  imports Batching Response_Cache
begin

text \<open>
  \<^verbatim>\<open>src/shipinfer/engine/statistics.py\<close> and \<^verbatim>\<open>instance.py\<close>: the cumulative counters of a model, and the worker that executes its
  batches and answers every request of them.

  The backend and the clocks are arguments; microseconds are rationals.  Metrics other than the failure count, traces and the
  phase timer are not modelled.
\<close>

section \<open>Statistics\<close>

record duration_stat =
  ds_count :: int
  ds_ns :: int

definition ds_zero :: duration_stat where "ds_zero = \<lparr>ds_count = 0, ds_ns = 0\<rparr>"

definition observe_total :: "int \<Rightarrow> int \<Rightarrow> duration_stat \<Rightarrow> duration_stat" where
  "observe_total ns_total n d = \<lparr>ds_count = ds_count d + n, ds_ns = ds_ns d + max 0 ns_total\<rparr>"

definition ds_observe :: "int \<Rightarrow> int \<Rightarrow> duration_stat \<Rightarrow> duration_stat" where
  "ds_observe ns n d = \<lparr>ds_count = ds_count d + n, ds_ns = ds_ns d + max 0 ns * n\<rparr>"

definition INFERENCE_STATS :: "string list" where
  "INFERENCE_STATS =
     [''success'', ''fail'', ''queue'', ''compute_input'', ''compute_infer'', ''compute_output'', ''cache_hit'', ''cache_miss'']"

definition BATCH_PHASES :: "string list" where
  "BATCH_PHASES = [''compute_input'', ''compute_infer'', ''compute_output'']"

record model_statistics =
  ms_stats :: "(string, duration_stat) dict"
  ms_batches :: "(int, (string, duration_stat) dict) dict"
  inference_count :: int
  execution_count :: int
  last_inference_ns :: int

definition ms_init :: model_statistics where
  "ms_init = \<lparr>ms_stats = map (\<lambda>n. (n, ds_zero)) INFERENCE_STATS, ms_batches = [], inference_count = 0, execution_count = 0,
     last_inference_ns = 0\<rparr>"

record batch_times =
  bt_queue_ns :: int
  bt_input_ns :: int
  bt_infer_ns :: int
  bt_output_ns :: int
  bt_total_ns :: int

definition record_execution :: "int \<Rightarrow> int \<Rightarrow> batch_times \<Rightarrow> int \<Rightarrow> model_statistics \<Rightarrow> model_statistics" where
  "record_execution requests batch_size t unix m =
     (let st1 = AList.map_entry ''success'' (observe_total (bt_total_ns t) requests) (ms_stats m);
          st2 = AList.map_entry ''queue'' (observe_total (bt_queue_ns t) requests) st1;
          st3 = AList.map_entry ''compute_input'' (ds_observe (bt_input_ns t) requests) st2;
          st4 = AList.map_entry ''compute_infer'' (ds_observe (bt_infer_ns t) requests) st3;
          st5 = AList.map_entry ''compute_output'' (ds_observe (bt_output_ns t) requests) st4;
          per = (case map_of (ms_batches m) batch_size of None \<Rightarrow> map (\<lambda>n. (n, ds_zero)) BATCH_PHASES | Some p \<Rightarrow> p);
          per1 = AList.map_entry ''compute_input'' (ds_observe (bt_input_ns t) 1) per;
          per2 = AList.map_entry ''compute_infer'' (ds_observe (bt_infer_ns t) 1) per1;
          per3 = AList.map_entry ''compute_output'' (ds_observe (bt_output_ns t) 1) per2
      in m\<lparr>ms_stats := st5, ms_batches := AList.update batch_size per3 (ms_batches m),
           inference_count := inference_count m + requests, execution_count := execution_count m + 1, last_inference_ns := unix\<rparr>)"

definition record_failure :: "int \<Rightarrow> int \<Rightarrow> model_statistics \<Rightarrow> model_statistics" where
  "record_failure n total_ns m = m\<lparr>ms_stats := AList.map_entry ''fail'' (ds_observe total_ns n) (ms_stats m)\<rparr>"

definition record_cache_hit :: "int \<Rightarrow> model_statistics \<Rightarrow> model_statistics" where
  "record_cache_hit n m = m\<lparr>ms_stats := AList.map_entry ''cache_hit'' (ds_observe 0 n) (ms_stats m)\<rparr>"

definition record_cache_miss :: "int \<Rightarrow> model_statistics \<Rightarrow> model_statistics" where
  "record_cache_miss n m = m\<lparr>ms_stats := AList.map_entry ''cache_miss'' (ds_observe 0 n) (ms_stats m)\<rparr>"

section \<open>The worker\<close>

record response =
  rs_request_id :: int
  rs_context :: request_context
  rs_outputs :: payload
  rs_timings :: timings

record instance_state =
  alpha :: rat
  ewma_latency_us :: rat
  executed_compute_us :: rat
  executed_batches :: int
  executed_requests :: int
  executed_rows :: int
  failed_batches :: int
  rate_limit_waits :: int
  requests_failed :: int
  in_stats :: model_statistics
  in_futs :: futures
  in_answers :: "(nat \<times> response) list"

text \<open>\<^verbatim>\<open>_complete\<close>: a request whose caller gave up gets no response; a future already taken raises.\<close>

definition complete_item :: "work_item \<Rightarrow> payload \<Rightarrow> timings \<Rightarrow> instance_state \<Rightarrow> instance_state \<times> unit result" where
  "complete_item w outs tm s =
     (case set_running_or_notify_cancel (in_futs s (fut w)) of
        Inl e \<Rightarrow> (s, Inl e)
      | Inr (f, running) \<Rightarrow>
          if \<not> running then (s\<lparr>in_futs := (in_futs s)(fut w := f)\<rparr>, Inr ())
          else (s\<lparr>in_futs := (in_futs s)(fut w := RESULT),
                  in_answers := in_answers s @ [(fut w, \<lparr>rs_request_id = request_id (req w), rs_context = ctx (req w),
                    rs_outputs = outs, rs_timings = tm\<rparr>)]\<rparr>, Inr ()))"

fun complete_all :: "(work_item \<times> payload \<times> timings) list \<Rightarrow> instance_state \<Rightarrow> instance_state \<times> unit result" where
  "complete_all [] s = (s, Inr ())"
| "complete_all ((w, outs, tm) # rest) s =
     (case complete_item w outs tm s of (s1, Inl e) \<Rightarrow> (s1, Inl e) | (s1, Inr _) \<Rightarrow> complete_all rest s1)"

fun fail_all :: "work_item list \<Rightarrow> err \<Rightarrow> instance_state \<Rightarrow> instance_state \<times> unit result" where
  "fail_all [] e s = (s, Inr ())"
| "fail_all (w # ws) e s =
     (case future_fail w e (in_futs s) of
        Inl x \<Rightarrow> (s, Inl x)
      | Inr fs \<Rightarrow> fail_all ws e (s\<lparr>in_futs := fs\<rparr>))"

definition fail_batch :: "work_item list \<Rightarrow> err \<Rightarrow> instance_state \<Rightarrow> instance_state \<times> unit result" where
  "fail_batch items e s =
     (case fail_all items e s of
        (s1, Inl x) \<Rightarrow> (s1, Inl x)
      | (s1, Inr _) \<Rightarrow> (s1\<lparr>requests_failed := requests_failed s1 + int (length items),
                            in_stats := record_failure (int (length items)) 0 (in_stats s1)\<rparr>, Inr ()))"

definition observe_batch :: "rat \<Rightarrow> assembled_batch \<Rightarrow> instance_state \<Rightarrow> instance_state" where
  "observe_batch us b s =
     s\<lparr>executed_batches := executed_batches s + 1, executed_requests := executed_requests s + int (length (ab_items b)),
       executed_rows := executed_rows s + batch_rows b, executed_compute_us := executed_compute_us s + us,
       ewma_latency_us := (if ewma_latency_us s = 0 then us
                           else (1 - alpha s) * ewma_latency_us s + alpha s * us)\<rparr>"

text \<open>The four times \<^verbatim>\<open>_execute\<close> reads, and the wall clock of \<^verbatim>\<open>record_execution\<close>.\<close>

record exec_clock =
  ck_batched :: int
  ck_start :: int
  ck_end :: int
  ck_completed :: int
  ck_unix :: int

definition stamp_times :: "exec_clock \<Rightarrow> work_item \<Rightarrow> timings" where
  "stamp_times k w = (tms (req w))\<lparr>batched_ns := ck_batched k, compute_start_ns := ck_start k, compute_end_ns := ck_end k,
     completed_ns := ck_completed k\<rparr>"

definition times_of :: "exec_clock \<Rightarrow> work_item list \<Rightarrow> batch_times" where
  "times_of k items =
     \<lparr>bt_queue_ns = sum_list (map (\<lambda>w. max 0 (ck_batched k - queued_ns (tms (req w)))) items),
      bt_input_ns = ck_start k - ck_batched k, bt_infer_ns = ck_end k - ck_start k, bt_output_ns = ck_completed k - ck_end k,
      bt_total_ns = sum_list (map (\<lambda>w. max 0 (ck_completed k - received_ns (tms (req w)))) items)\<rparr>"

definition execute_batch ::
  "tensor_spec list \<Rightarrow> tensor_spec list \<Rightarrow> int \<Rightarrow> (payload \<Rightarrow> int \<Rightarrow> payload result) \<Rightarrow> exec_clock \<Rightarrow> work_item list \<Rightarrow>
     instance_state \<Rightarrow> instance_state \<times> unit result" where
  "execute_batch ins outs max_bs backend k items s =
     (case assemble ins max_bs items of
        Inl e \<Rightarrow> fail_batch items e s
      | Inr b \<Rightarrow>
          (case backend (ab_inputs b) (batch_rows b) of
             Inl e \<Rightarrow> fail_batch items e (s\<lparr>failed_batches := failed_batches s + 1\<rparr>)
           | Inr outputs \<Rightarrow>
               (let s1 = observe_batch (of_int (ck_end k - ck_start k) / 1000) b s in
                case scatter outs b outputs of
                  Inl e \<Rightarrow> fail_batch items e s1
                | Inr parts \<Rightarrow>
                    (case complete_all (zip (ab_items b) (zip parts (map (stamp_times k) (ab_items b)))) s1 of
                       (s2, Inl e) \<Rightarrow> (s2, Inl e)
                     | (s2, Inr _) \<Rightarrow>
                         if length parts \<noteq> length (ab_items b) then (s2, Inl ValueError)
                         else (s2\<lparr>in_stats := record_execution (int (length (ab_items b))) (batch_rows b) (times_of k (ab_items b)) (ck_unix k)
                                  (in_stats s2)\<rparr>, Inr ())))))"

text \<open>
  \<^verbatim>\<open>_execute_when_permitted\<close>: \<^verbatim>\<open>waits\<close> lists, for each attempt that timed out, whether the instance was still running after it.
\<close>

fun execute_when_permitted ::
  "(instance_state \<Rightarrow> instance_state \<times> unit result) \<Rightarrow> work_item list \<Rightarrow> bool list \<Rightarrow> instance_state \<Rightarrow> instance_state \<times> unit result" where
  "execute_when_permitted exec items [] s = exec s"
| "execute_when_permitted exec items (running # waits) s =
     (let s1 = s\<lparr>rate_limit_waits := rate_limit_waits s + 1\<rparr> in
      if running then execute_when_permitted exec items waits s1 else fail_batch items RequestCancelledError s1)"

text \<open>The handler and the \<^verbatim>\<open>finally\<close> of \<^verbatim>\<open>_run\<close> for the batch that was in flight.\<close>

fun fail_unanswered :: "work_item list \<Rightarrow> err \<Rightarrow> instance_state \<Rightarrow> instance_state \<times> unit result" where
  "fail_unanswered [] e s = (s, Inr ())"
| "fail_unanswered (w # ws) e s =
     (case in_futs s (fut w) of
        PENDING \<Rightarrow> fail_unanswered ws e (s\<lparr>in_futs := (in_futs s)(fut w := fut_state.FAILED e)\<rparr>)
      | RUNNING \<Rightarrow> (s, Inl RuntimeError)
      | _ \<Rightarrow> fail_unanswered ws e s)"

definition run_batch ::
  "(instance_state \<Rightarrow> instance_state \<times> unit result) \<Rightarrow> work_item list \<Rightarrow> bool list \<Rightarrow> instance_state \<Rightarrow> instance_state \<times> unit result" where
  "run_batch exec items waits s =
     (case execute_when_permitted exec items waits s of
        (s1, Inr _) \<Rightarrow> (s1, Inr ())
      | (s1, Inl e) \<Rightarrow> (fst (fail_unanswered items RequestCancelledError s1), Inl e))"


section \<open>Every request of a batch is answered\<close>

text \<open>Futures a worker takes out of the queue are untaken: pending, or cancelled by their caller.\<close>

definition untaken :: "fut_state \<Rightarrow> bool" where
  "untaken f \<longleftrightarrow> f = PENDING \<or> f = CANCELLED"

definition resolved_as :: "fut_state \<Rightarrow> fut_state \<Rightarrow> fut_state" where
  "resolved_as v f = (if f = CANCELLED then CANCELLED_AND_NOTIFIED else v)"

lemma take_untaken:
  "untaken f \<Longrightarrow> set_running_or_notify_cancel f = Inr (if f = CANCELLED then (CANCELLED_AND_NOTIFIED, False) else (RUNNING, True))"
  by (auto simp: untaken_def set_running_or_notify_cancel_def)

lemma fail_all_untaken:
  "distinct (map fut items) \<Longrightarrow> \<forall>w \<in> set items. untaken (in_futs s (fut w)) \<Longrightarrow>
    fail_all items e s = (s\<lparr>in_futs := (\<lambda>f. if f \<in> fut ` set items then resolved_as (fut_state.FAILED e) (in_futs s f) else in_futs s f)\<rparr>, Inr ())"
proof (induction items arbitrary: s)
  case (Cons w ws)
  define fs where "fs = (in_futs s)(fut w := resolved_as (fut_state.FAILED e) (in_futs s (fut w)))"
  define s1 where "s1 = s\<lparr>in_futs := fs\<rparr>"
  have ff: "future_fail w e (in_futs s) = Inr fs"
    using Cons.prems(2) by (auto simp: future_fail_def take_untaken resolved_as_def fs_def)
  have ne: "fut v \<noteq> fut w" if "v \<in> set ws" for v using Cons.prems(1) that by (metis distinct.simps(2) image_eqI list.simps(9) set_map)
  have "\<forall>v \<in> set ws. untaken (in_futs s1 (fut v))" using Cons.prems(2) ne by (simp add: s1_def fs_def)
  with Cons.IH Cons.prems(1) have
    "fail_all ws e s1 = (s1\<lparr>in_futs := (\<lambda>f. if f \<in> fut ` set ws then resolved_as (fut_state.FAILED e) (in_futs s1 f) else in_futs s1 f)\<rparr>, Inr ())"
    by simp
  moreover have "(\<lambda>f. if f \<in> fut ` set ws then resolved_as (fut_state.FAILED e) (in_futs s1 f) else in_futs s1 f) =
      (\<lambda>f. if f \<in> fut ` set (w # ws) then resolved_as (fut_state.FAILED e) (in_futs s f) else in_futs s f)"
    by (auto simp: s1_def fs_def fun_eq_iff dest: ne)
  ultimately show ?case using ff by (simp add: s1_def)
qed simp

text \<open>What completing a batch leaves: the futures, and the responses of those whose caller had not given up.\<close>

definition response_of :: "work_item \<Rightarrow> payload \<Rightarrow> timings \<Rightarrow> response" where
  "response_of w outs tm = \<lparr>rs_request_id = request_id (req w), rs_context = ctx (req w), rs_outputs = outs, rs_timings = tm\<rparr>"

lemma complete_all_untaken:
  "distinct (map (\<lambda>(w, _). fut w) ts) \<Longrightarrow> \<forall>(w, _) \<in> set ts. untaken (in_futs s (fut w)) \<Longrightarrow>
    complete_all ts s =
      (s\<lparr>in_futs := (\<lambda>f. if f \<in> (\<lambda>(w, _). fut w) ` set ts then resolved_as RESULT (in_futs s f) else in_futs s f),
         in_answers := in_answers s @ map (\<lambda>(w, outs, tm). (fut w, response_of w outs tm)) (filter (\<lambda>(w, _). in_futs s (fut w) \<noteq> CANCELLED) ts)\<rparr>,
       Inr ())"
proof (induction ts arbitrary: s)
  case (Cons t ts)
  obtain w outs tm where t: "t = (w, outs, tm)" by (cases t)
  define fs where "fs = (in_futs s)(fut w := resolved_as RESULT (in_futs s (fut w)))"
  define as where "as = in_answers s @ (if in_futs s (fut w) = CANCELLED then [] else [(fut w, response_of w outs tm)])"
  define s1 where "s1 = s\<lparr>in_futs := fs, in_answers := as\<rparr>"
  have u: "untaken (in_futs s (fut w))" using Cons.prems(2) t by simp
  have ci: "complete_item w outs tm s = (s1, Inr ())"
    using u by (simp add: complete_item_def take_untaken resolved_as_def response_of_def s1_def fs_def as_def)
  have ne: "fut v \<noteq> fut w" if "(v, x) \<in> set ts" for v x using Cons.prems(1) t that by (force simp: image_iff)
  have "\<forall>(v, _) \<in> set ts. untaken (in_futs s1 (fut v))" using Cons.prems(2) ne by (fastforce simp: s1_def fs_def)
  with Cons.IH Cons.prems(1) have ih: "complete_all ts s1 =
      (s1\<lparr>in_futs := (\<lambda>f. if f \<in> (\<lambda>(w, _). fut w) ` set ts then resolved_as RESULT (in_futs s1 f) else in_futs s1 f),
         in_answers := in_answers s1 @ map (\<lambda>(w, outs, tm). (fut w, response_of w outs tm)) (filter (\<lambda>(w, _). in_futs s1 (fut w) \<noteq> CANCELLED) ts)\<rparr>, Inr ())"
    by simp
  have f: "(\<lambda>f. if f \<in> (\<lambda>(w, _). fut w) ` set ts then resolved_as RESULT (in_futs s1 f) else in_futs s1 f) =
      (\<lambda>f. if f \<in> (\<lambda>(w, _). fut w) ` set (t # ts) then resolved_as RESULT (in_futs s f) else in_futs s f)"
    using t by (auto simp: s1_def fs_def fun_eq_iff dest: ne)
  have g: "filter (\<lambda>(w, _). in_futs s1 (fut w) \<noteq> CANCELLED) ts = filter (\<lambda>(w, _). in_futs s (fut w) \<noteq> CANCELLED) ts"
    by (rule filter_cong[OF refl]) (use ne in \<open>auto simp: s1_def fs_def\<close>)
  have a: "in_answers s1 @ map (\<lambda>(w, outs, tm). (fut w, response_of w outs tm)) (filter (\<lambda>(w, _). in_futs s (fut w) \<noteq> CANCELLED) ts) =
      in_answers s @ map (\<lambda>(w, outs, tm). (fut w, response_of w outs tm)) (filter (\<lambda>(w, _). in_futs s (fut w) \<noteq> CANCELLED) (t # ts))"
    using t by (simp add: s1_def as_def)
  have "complete_all (t # ts) s = complete_all ts s1" using ci t by simp
  then show ?case unfolding ih f g a by (simp add: s1_def)
qed simp


lemma fail_batch_untaken:
  assumes "distinct (map fut items)" and "\<forall>w \<in> set items. untaken (in_futs s (fut w))"
  obtains s' where "fail_batch items e s = (s', Inr ())"
    "in_futs s' = (\<lambda>f. if f \<in> fut ` set items then resolved_as (fut_state.FAILED e) (in_futs s f) else in_futs s f)"
    "in_answers s' = in_answers s" "requests_failed s' = requests_failed s + int (length items)"
  using fail_all_untaken[OF assms, of e] that by (auto simp: fail_batch_def)

lemma assemble_items: "assemble ins mb items = Inr b \<Longrightarrow> ab_items b = items \<and> items \<noteq> [] \<and> length (ab_spans b) = length items"
  by (auto simp: assemble_def Let_def rbind_Inr_iff split: if_splits)

lemma scatter_length:
  assumes "scatter outs b outputs = Inr parts" and "length (ab_spans b) = length (ab_items b)"
  shows "length parts = length (ab_items b)"
  using assms by (auto simp: scatter_def rbind_Inr_iff rmapM_Inr_iff split: if_splits dest: list_all2_lengthD)

lemma zip_ties: "length xs = length ys \<Longrightarrow> length zs = length xs \<Longrightarrow>
    (\<lambda>(w, _). fut w) ` set (zip xs (zip ys zs)) = fut ` set xs \<and> map (\<lambda>(w, _). fut w) (zip xs (zip ys zs)) = map fut xs"
proof -
  assume l: "length xs = length ys" "length zs = length xs"
  have "map (\<lambda>(w, _). fut w) (zip xs (zip ys zs)) = map fut (map fst (zip xs (zip ys zs)))" by (simp add: comp_def case_prod_unfold)
  also have "\<dots> = map fut xs" using l by simp
  finally have m: "map (\<lambda>(w, _). fut w) (zip xs (zip ys zs)) = map fut xs" .
  have "(\<lambda>(w, _). fut w) ` set (zip xs (zip ys zs)) = set (map (\<lambda>(w, _). fut w) (zip xs (zip ys zs)))" by (simp only: set_map)
  then show ?thesis unfolding m by simp
qed

lemma map_filter_concat: "map f (filter P xs) = concat (map (\<lambda>x. if P x then [f x] else []) xs)"
  by (induction xs) auto

text \<open>The batch's own verdict: what assembling, executing and scattering it give.\<close>

definition batch_verdict ::
  "tensor_spec list \<Rightarrow> tensor_spec list \<Rightarrow> int \<Rightarrow> (payload \<Rightarrow> int \<Rightarrow> payload result) \<Rightarrow> work_item list \<Rightarrow> payload list result" where
  "batch_verdict ins outs max_bs backend items =
     rbind (assemble ins max_bs items) (\<lambda>b. rbind (backend (ab_inputs b) (batch_rows b)) (scatter outs b))"

text \<open>
  C19: every request of a batch is answered once, with its own part.  Let the requests of a batch have different futures, none taken
  yet.  \<^verbatim>\<open>_execute\<close> does not raise; it resolves the future of every request in the batch and no other.  If the batch assembles, executes and
  scatters, each request whose caller has not given up gets one response, in order, with its own request id, its own tag and the part
  that scattering assigned to it; otherwise every such request fails with the one error that stopped the batch, and nobody is sent a response.
\<close>

theorem batch_answered:
  assumes "distinct (map fut items)" and "\<forall>w \<in> set items. in_futs s (fut w) = PENDING \<or> in_futs s (fut w) = CANCELLED"
    and "execute_batch ins outs max_bs backend k items s = (s', r)"
  shows "r = Inr () \<and>
    (case batch_verdict ins outs max_bs backend items of
       Inl e \<Rightarrow> in_answers s' = in_answers s \<and> requests_failed s' = requests_failed s + int (length items) \<and>
         in_futs s' = (\<lambda>f. if f \<in> fut ` set items then (if in_futs s f = CANCELLED then CANCELLED_AND_NOTIFIED else fut_state.FAILED e) else in_futs s f)
     | Inr parts \<Rightarrow> length parts = length items \<and>
         in_answers s' = in_answers s @ [(fut (items ! i), response_of (items ! i) (parts ! i) (stamp_times k (items ! i))).
           i \<leftarrow> [0..<length items], in_futs s (fut (items ! i)) \<noteq> CANCELLED] \<and>
         in_futs s' = (\<lambda>f. if f \<in> fut ` set items then (if in_futs s f = CANCELLED then CANCELLED_AND_NOTIFIED else RESULT) else in_futs s f))"
proof -
  have fails: "snd (fail_batch items e t) = Inr () \<and> in_answers (fst (fail_batch items e t)) = in_answers s \<and>
      requests_failed (fst (fail_batch items e t)) = requests_failed s + int (length items) \<and>
      in_futs (fst (fail_batch items e t)) =
        (\<lambda>f. if f \<in> fut ` set items then (if in_futs s f = CANCELLED then CANCELLED_AND_NOTIFIED else fut_state.FAILED e) else in_futs s f)"
    if t: "in_futs t = in_futs s" "in_answers t = in_answers s" "requests_failed t = requests_failed s" for t e
  proof -
    have u: "\<forall>w \<in> set items. untaken (in_futs t (fut w))" using assms(2) t(1) by (simp add: untaken_def)
    show ?thesis by (rule fail_batch_untaken[OF assms(1) u, of e]) (use t in \<open>auto simp: resolved_as_def\<close>)
  qed
  show ?thesis
  proof (cases "assemble ins max_bs items")
    case (Inl e)
    then show ?thesis using fails[of s e] assms(3) by (simp add: execute_batch_def batch_verdict_def)
  next
    case b: (Inr b)
    show ?thesis
    proof (cases "backend (ab_inputs b) (batch_rows b)")
      case (Inl e)
      then show ?thesis using fails[of "s\<lparr>failed_batches := failed_batches s + 1\<rparr>" e] assms(3) b by (simp add: execute_batch_def batch_verdict_def)
    next
      case o: (Inr outputs)
      define s1 where "s1 = observe_batch (of_int (ck_end k - ck_start k) / 1000) b s"
      have s1: "in_futs s1 = in_futs s" "in_answers s1 = in_answers s" "requests_failed s1 = requests_failed s" by (simp_all add: s1_def observe_batch_def)
      show ?thesis
      proof (cases "scatter outs b outputs")
        case (Inl e)
        then show ?thesis using fails[OF s1, of e] assms(3) b o by (simp add: execute_batch_def batch_verdict_def s1_def)
      next
        case p: (Inr parts)
        have it: "ab_items b = items" "length parts = length items" using assemble_items[OF b] scatter_length[OF p] by auto
        let ?ts = "zip items (zip parts (map (stamp_times k) items))"
        have z: "(\<lambda>(w, _). fut w) ` set ?ts = fut ` set items" "map (\<lambda>(w, _). fut w) ?ts = map fut items"
          using zip_ties[of items parts "map (stamp_times k) items"] it(2) by auto
        have u: "\<forall>(w, _) \<in> set ?ts. untaken (in_futs s1 (fut w))" using assms(2) s1(1) by (auto simp: untaken_def dest: set_zip_leftD)
        have d: "distinct (map (\<lambda>(w, _). fut w) ?ts)" using z(2) assms(1) by simp
        have ans: "map (\<lambda>(w, outs, tm). (fut w, response_of w outs tm)) (filter (\<lambda>(w, _). in_futs s (fut w) \<noteq> CANCELLED) ?ts) =
            [(fut (items ! i), response_of (items ! i) (parts ! i) (stamp_times k (items ! i))). i \<leftarrow> [0..<length items], in_futs s (fut (items ! i)) \<noteq> CANCELLED]"
        proof -
          have "?ts = map (\<lambda>i. (items ! i, parts ! i, stamp_times k (items ! i))) [0..<length items]"
            using it(2) by (intro nth_equalityI) auto
          then show ?thesis by (simp add: filter_map comp_def) (rule map_filter_concat)
        qed
        note c = complete_all_untaken[OF d u, unfolded s1 z(1) ans]
        have "(s', r) = (fst (complete_all ?ts s1)\<lparr>in_stats := record_execution (int (length items)) (batch_rows b) (times_of k items) (ck_unix k)
            (in_stats (fst (complete_all ?ts s1)))\<rparr>, Inr ())"
          using assms(3)[unfolded execute_batch_def b sum.case o Let_def p s1_def[symmetric] it(1)] c it(2) by simp
        then show ?thesis using b o p it c by (auto simp: batch_verdict_def resolved_as_def)
      qed
    qed
  qed
qed

definition sample_instance :: instance_state where
  "sample_instance =
     \<lparr>alpha = 1/5, ewma_latency_us = 0, executed_compute_us = 0, executed_batches = 0, executed_requests = 0, executed_rows = 0,
      failed_batches = 0, rate_limit_waits = 0, requests_failed = 0, in_stats = ms_init, in_futs = (\<lambda>_. PENDING), in_answers = []\<rparr>"

definition sample_clock :: exec_clock where
  "sample_clock = \<lparr>ck_batched = 10, ck_start = 20, ck_end = 50, ck_completed = 60, ck_unix = 1000\<rparr>"

lemma batch_answered_witness:
  "\<exists>s'. execute_batch sample_spec sample_spec 4 (\<lambda>p _. Inr p) sample_clock sample_batch_items sample_instance = (s', Inr ()) \<and>
     in_futs s' 1 = RESULT \<and> in_futs s' 2 = RESULT \<and> map fst (in_answers s') = [1, 2]"
proof -
  obtain s' r where e: "execute_batch sample_spec sample_spec 4 (\<lambda>p _. Inr p) sample_clock sample_batch_items sample_instance = (s', r)"
    by (rule prod.exhaust)
  have d: "distinct (map fut sample_batch_items)" by code_simp
  have p: "\<forall>w \<in> set sample_batch_items. in_futs sample_instance (fut w) = PENDING \<or> in_futs sample_instance (fut w) = CANCELLED" by code_simp
  have "\<not> isl (batch_verdict sample_spec sample_spec 4 (\<lambda>p _. Inr p) sample_batch_items)" by code_simp
  then obtain parts where v: "batch_verdict sample_spec sample_spec 4 (\<lambda>p _. Inr p) sample_batch_items = Inr parts"
    by (cases "batch_verdict sample_spec sample_spec 4 (\<lambda>p _. Inr p) sample_batch_items") auto
  have f: "fut ` set sample_batch_items = {1, 2}" "length sample_batch_items = 2" by code_simp+
  have g: "fut (sample_batch_items ! 0) = 1" "fut (sample_batch_items ! 1) = 2" by code_simp+
  show ?thesis using batch_answered[OF d p e] v f g e by (auto simp: sample_instance_def upt_rec)
qed

section \<open>Statistics add up\<close>

datatype stat_op = Executed int int batch_times int | FailedReqs int int | CacheHit int | CacheMiss int

fun stat_step :: "stat_op \<Rightarrow> model_statistics \<Rightarrow> model_statistics" where
  "stat_step (Executed n rows t unix) m = record_execution n rows t unix m"
| "stat_step (FailedReqs n ns) m = record_failure n ns m"
| "stat_step (CacheHit n) m = record_cache_hit n m"
| "stat_step (CacheMiss n) m = record_cache_miss n m"

definition executions :: "stat_op list \<Rightarrow> (int \<times> int \<times> batch_times) list" where
  "executions ops = concat (map (\<lambda>op. case op of Executed n rows t unix \<Rightarrow> [(n, rows, t)] | _ \<Rightarrow> []) ops)"

definition failures :: "stat_op list \<Rightarrow> int" where
  "failures ops = sum_list (map (\<lambda>op. case op of FailedReqs n ns \<Rightarrow> n | _ \<Rightarrow> 0) ops)"

definition ds_get :: "string \<Rightarrow> (string, duration_stat) dict \<Rightarrow> duration_stat" where
  "ds_get name d = (case map_of d name of None \<Rightarrow> ds_zero | Some x \<Rightarrow> x)"

definition phases_of :: "int \<Rightarrow> model_statistics \<Rightarrow> (string, duration_stat) dict" where
  "phases_of rows m = (case map_of (ms_batches m) rows of None \<Rightarrow> map (\<lambda>n. (n, ds_zero)) BATCH_PHASES | Some p \<Rightarrow> p)"

definition stats_wf :: "model_statistics \<Rightarrow> bool" where
  "stats_wf m \<longleftrightarrow> map fst (ms_stats m) = INFERENCE_STATS \<and> (\<forall>rows. map fst (phases_of rows m) = BATCH_PHASES)"

lemma map_entry_keys [simp]: "map fst (AList.map_entry k f d) = map fst d"
  by (induction d) auto

lemma ds_get_map_entry: "k \<in> fst ` set d \<Longrightarrow> ds_get n (AList.map_entry k f d) = (if n = k then f (ds_get n d) else ds_get n d)"
proof -
  assume "k \<in> fst ` set d"
  then obtain v where "map_of d k = Some v" by (metis map_of_eq_None_iff not_Some_eq)
  then show ?thesis by (auto simp: ds_get_def map_of_map_entry)
qed

lemma keys_set: "map fst d = ks \<Longrightarrow> fst ` set d = set ks"
  by (metis set_map)

lemma stats_wf_step: "stats_wf m \<Longrightarrow> stats_wf (stat_step op m)"
  by (cases op) (auto simp: stats_wf_def record_execution_def record_failure_def record_cache_hit_def record_cache_miss_def phases_of_def
      Let_def dict_simps split: option.splits)

lemma stats_wf_init: "stats_wf ms_init"
  by (simp add: stats_wf_def ms_init_def phases_of_def comp_def)

lemma map_entry_keyset [simp]: "fst ` set (AList.map_entry k f d) = fst ` set d"
  by (metis map_entry_keys set_map)

lemma record_execution_gets:
  assumes "stats_wf m" and m': "m' = record_execution n rows t unix m"
  shows "ds_get ''success'' (ms_stats m') = observe_total (bt_total_ns t) n (ds_get ''success'' (ms_stats m))"
    "ds_get ''queue'' (ms_stats m') = observe_total (bt_queue_ns t) n (ds_get ''queue'' (ms_stats m))"
    "ds_get ''compute_infer'' (ms_stats m') = ds_observe (bt_infer_ns t) n (ds_get ''compute_infer'' (ms_stats m))"
    "ds_get ''fail'' (ms_stats m') = ds_get ''fail'' (ms_stats m)"
    "ds_get ''compute_infer'' (phases_of sz m') =
      (if sz = rows then ds_observe (bt_infer_ns t) 1 (ds_get ''compute_infer'' (phases_of sz m)) else ds_get ''compute_infer'' (phases_of sz m))"
proof -
  have k: "fst ` set (ms_stats m) = set INFERENCE_STATS" "fst ` set (phases_of r m) = set BATCH_PHASES" for r
    using assms(1) by (simp_all add: stats_wf_def keys_set)
  have ms: "ms_stats m' = AList.map_entry ''compute_output'' (ds_observe (bt_output_ns t) n)
      (AList.map_entry ''compute_infer'' (ds_observe (bt_infer_ns t) n) (AList.map_entry ''compute_input'' (ds_observe (bt_input_ns t) n)
        (AList.map_entry ''queue'' (observe_total (bt_queue_ns t) n) (AList.map_entry ''success'' (observe_total (bt_total_ns t) n) (ms_stats m)))))"
    by (simp add: m' record_execution_def Let_def)
  show "ds_get ''success'' (ms_stats m') = observe_total (bt_total_ns t) n (ds_get ''success'' (ms_stats m))"
    "ds_get ''queue'' (ms_stats m') = observe_total (bt_queue_ns t) n (ds_get ''queue'' (ms_stats m))"
    "ds_get ''compute_infer'' (ms_stats m') = ds_observe (bt_infer_ns t) n (ds_get ''compute_infer'' (ms_stats m))"
    "ds_get ''fail'' (ms_stats m') = ds_get ''fail'' (ms_stats m)"
    unfolding ms by (simp_all add: ds_get_map_entry k INFERENCE_STATS_def)
  have "phases_of sz m' = (if sz = rows then AList.map_entry ''compute_output'' (ds_observe (bt_output_ns t) 1)
      (AList.map_entry ''compute_infer'' (ds_observe (bt_infer_ns t) 1) (AList.map_entry ''compute_input'' (ds_observe (bt_input_ns t) 1) (phases_of sz m)))
    else phases_of sz m)" by (simp add: m' record_execution_def Let_def phases_of_def dict_simps)
  then show "ds_get ''compute_infer'' (phases_of sz m') =
      (if sz = rows then ds_observe (bt_infer_ns t) 1 (ds_get ''compute_infer'' (phases_of sz m)) else ds_get ''compute_infer'' (phases_of sz m))"
    by (simp add: ds_get_map_entry k BATCH_PHASES_def)
qed

lemma other_gets:
  assumes "stats_wf m" and "name \<in> {''fail'', ''cache_hit'', ''cache_miss''}" and m': "m' = m\<lparr>ms_stats := AList.map_entry name (ds_observe ns n) (ms_stats m)\<rparr>"
  shows "ds_get ''success'' (ms_stats m') = ds_get ''success'' (ms_stats m)" "ds_get ''queue'' (ms_stats m') = ds_get ''queue'' (ms_stats m)"
    "ds_get ''compute_infer'' (ms_stats m') = ds_get ''compute_infer'' (ms_stats m)" "phases_of sz m' = phases_of sz m"
    "inference_count m' = inference_count m" "execution_count m' = execution_count m"
    "ds_count (ds_get ''fail'' (ms_stats m')) = ds_count (ds_get ''fail'' (ms_stats m)) + (if name = ''fail'' then n else 0)"
proof -
  have k: "fst ` set (ms_stats m) = set INFERENCE_STATS" using assms(1) by (simp add: stats_wf_def keys_set)
  show "ds_get ''success'' (ms_stats m') = ds_get ''success'' (ms_stats m)" "ds_get ''queue'' (ms_stats m') = ds_get ''queue'' (ms_stats m)"
    "ds_get ''compute_infer'' (ms_stats m') = ds_get ''compute_infer'' (ms_stats m)" "phases_of sz m' = phases_of sz m"
    "inference_count m' = inference_count m" "execution_count m' = execution_count m"
    "ds_count (ds_get ''fail'' (ms_stats m')) = ds_count (ds_get ''fail'' (ms_stats m)) + (if name = ''fail'' then n else 0)"
    using assms(2) by (auto simp: m' ds_get_map_entry k INFERENCE_STATS_def phases_of_def ds_observe_def)
qed

lemmas record_defs = record_failure_def record_cache_hit_def record_cache_miss_def

definition tallied :: "stat_op list \<Rightarrow> model_statistics \<Rightarrow> bool" where
  "tallied ops m \<longleftrightarrow>
     inference_count m = (\<Sum>(n, rows, t)\<leftarrow>executions ops. n) \<and> execution_count m = int (length (executions ops)) \<and>
     ds_get ''success'' (ms_stats m) = \<lparr>ds_count = (\<Sum>(n, rows, t)\<leftarrow>executions ops. n), ds_ns = (\<Sum>(n, rows, t)\<leftarrow>executions ops. max 0 (bt_total_ns t))\<rparr> \<and>
     ds_get ''queue'' (ms_stats m) = \<lparr>ds_count = (\<Sum>(n, rows, t)\<leftarrow>executions ops. n), ds_ns = (\<Sum>(n, rows, t)\<leftarrow>executions ops. max 0 (bt_queue_ns t))\<rparr> \<and>
     ds_get ''compute_infer'' (ms_stats m) =
       \<lparr>ds_count = (\<Sum>(n, rows, t)\<leftarrow>executions ops. n), ds_ns = (\<Sum>(n, rows, t)\<leftarrow>executions ops. max 0 (bt_infer_ns t) * n)\<rparr> \<and>
     (\<forall>sz. ds_get ''compute_infer'' (phases_of sz m) =
       \<lparr>ds_count = int (length (filter (\<lambda>(n, rows, t). rows = sz) (executions ops))),
        ds_ns = (\<Sum>(n, rows, t)\<leftarrow>filter (\<lambda>(n, rows, t). rows = sz) (executions ops). max 0 (bt_infer_ns t))\<rparr>) \<and>
     ds_count (ds_get ''fail'' (ms_stats m)) = failures ops"

lemma executions_snoc:
  "executions (ops @ [Executed n rows t u]) = executions ops @ [(n, rows, t)]" "executions (ops @ [FailedReqs n ns]) = executions ops"
  "executions (ops @ [CacheHit n]) = executions ops" "executions (ops @ [CacheMiss n]) = executions ops"
  by (simp_all add: executions_def)

lemma tallied_step:
  assumes "stats_wf m" and "tallied ops m"
  shows "tallied (ops @ [op]) (stat_step op m)"
proof (cases op)
  case (Executed n rows t u)
  let ?m = "record_execution n rows t u m"
  have c: "inference_count ?m = inference_count m + n" "execution_count ?m = execution_count m + 1" by (simp_all add: record_execution_def Let_def)
  have f: "failures (ops @ [Executed n rows t u]) = failures ops" by (simp add: failures_def)
  show ?thesis
    using assms(2) Executed record_execution_gets[OF assms(1) refl, where n = n and rows = rows and t = t and unix = u]
    by (simp add: tallied_def executions_snoc c f observe_total_def ds_observe_def)
next
  case (FailedReqs n ns)
  then show ?thesis using assms(2) other_gets[OF assms(1) _ refl, where name = "''fail''" and ns = ns and n = n]
    by (simp add: tallied_def executions_snoc record_defs failures_def)
next
  case (CacheHit n)
  then show ?thesis using assms(2) other_gets[OF assms(1) _ refl, where name = "''cache_hit''" and ns = 0 and n = n]
    by (simp add: tallied_def executions_snoc record_defs failures_def)
next
  case (CacheMiss n)
  then show ?thesis using assms(2) other_gets[OF assms(1) _ refl, where name = "''cache_miss''" and ns = 0 and n = n]
    by (simp add: tallied_def executions_snoc record_defs failures_def)
qed

text \<open>
  The counters mean what the protocol says.  After any sequence of recorded batches, failures and cache outcomes: the inference count is the
  number of requests executed, and so is the count of \<^verbatim>\<open>success\<close>, \<^verbatim>\<open>queue\<close> and \<^verbatim>\<open>compute_infer\<close>; the queue and end-to-end times are the sums the caller
  measured, charged once; \<^verbatim>\<open>compute_infer\<close> charges every request its batch's span, while the entry of a batch size counts each batch of that size once
  with its span, so those are device time; failures are counted apart.
\<close>

theorem statistics_add_up:
  "let m = fold stat_step ops ms_init; ex = executions ops; requests = (\<Sum>(n, rows, t)\<leftarrow>ex. n) in
     inference_count m = requests \<and> execution_count m = int (length ex) \<and>
     ds_get ''success'' (ms_stats m) = \<lparr>ds_count = requests, ds_ns = (\<Sum>(n, rows, t)\<leftarrow>ex. max 0 (bt_total_ns t))\<rparr> \<and>
     ds_get ''queue'' (ms_stats m) = \<lparr>ds_count = requests, ds_ns = (\<Sum>(n, rows, t)\<leftarrow>ex. max 0 (bt_queue_ns t))\<rparr> \<and>
     ds_get ''compute_infer'' (ms_stats m) = \<lparr>ds_count = requests, ds_ns = (\<Sum>(n, rows, t)\<leftarrow>ex. max 0 (bt_infer_ns t) * n)\<rparr> \<and>
     (\<forall>sz. ds_get ''compute_infer'' (phases_of sz m) =
       \<lparr>ds_count = int (length (filter (\<lambda>(n, rows, t). rows = sz) ex)),
        ds_ns = (\<Sum>(n, rows, t)\<leftarrow>filter (\<lambda>(n, rows, t). rows = sz) ex. max 0 (bt_infer_ns t))\<rparr>) \<and>
     ds_count (ds_get ''fail'' (ms_stats m)) = failures ops"
proof -
  have "stats_wf (fold stat_step ops ms_init) \<and> tallied ops (fold stat_step ops ms_init)"
  proof (induction ops rule: rev_induct)
    case Nil
    show ?case using stats_wf_init
      by (simp add: tallied_def executions_def failures_def ms_init_def ds_get_def phases_of_def ds_zero_def INFERENCE_STATS_def BATCH_PHASES_def)
  next
    case (snoc op ops)
    then show ?case using stats_wf_step tallied_step by simp
  qed
  then show ?thesis by (simp add: tallied_def Let_def)
qed

end
