(* ===== verification/Serving.thy ===== *)
theory Serving
  imports Model_Instance
begin

text \<open>
  \<^verbatim>\<open>src/shipinfer/engine/model.py\<close> and \<^verbatim>\<open>health.py\<close>: admitting a request to a model, answering it from the response cache or by execution,
  and what the server reports about its models.

  The cache is any that meets the contract \<^verbatim>\<open>response_cache\<close>; the hash, the model's computation and the dispatcher's verdict are
  arguments.  Completions arrive in any order, interleaved with new requests.
\<close>

section \<open>Admission\<close>

record 's model_state =
  md_started :: bool
  md_specs :: "tensor_spec list"
  md_cache :: 's
  md_stats :: model_statistics
  md_requests :: int
  md_hits :: int
  md_misses :: int
  md_rejected :: int

datatype admission = Answered response | Admitted "string option"

text \<open>\<^verbatim>\<open>_response_from\<close>: cached outputs under the identity of the request at hand.\<close>

definition response_from :: "inference_request \<Rightarrow> payload \<Rightarrow> int \<Rightarrow> response" where
  "response_from r outs now =
     \<lparr>rs_request_id = request_id r, rs_context = ctx r, rs_outputs = outs, rs_timings = (tms r)\<lparr>completed_ns := now\<rparr>\<rparr>"

definition stamp_received :: "int \<Rightarrow> inference_request \<Rightarrow> inference_request" where
  "stamp_received now r = (if received_ns (tms r) \<noteq> 0 then r else r\<lparr>tms := (tms r)\<lparr>received_ns := now\<rparr>\<rparr>)"

definition admit ::
  "(string \<Rightarrow> 's \<Rightarrow> 's \<times> payload option) \<Rightarrow> (payload \<Rightarrow> string option) \<Rightarrow> inference_request \<Rightarrow> int \<Rightarrow> 's model_state \<Rightarrow>
     's model_state \<times> (inference_request \<times> admission) result" where
  "admit get key_for r now s =
     (if \<not> md_started s then (s, Inl ServerStateError)
      else let r1 = stamp_received now r in
      case validate_against (inputs r1) (md_specs s) of
        Inl e \<Rightarrow> (s, Inl ValidationError)
      | Inr _ \<Rightarrow>
          (let s1 = s\<lparr>md_requests := md_requests s + 1\<rparr> in
           case key_for (inputs r1) of
             None \<Rightarrow> (s1, Inr (r1, Admitted None))
           | Some k \<Rightarrow>
               (case get k (md_cache s1) of
                  (c, Some p) \<Rightarrow>
                    (s1\<lparr>md_cache := c, md_hits := md_hits s1 + 1, md_stats := record_cache_hit 1 (md_stats s1)\<rparr>,
                     Inr (r1, Answered (response_from r1 p now)))
                | (c, None) \<Rightarrow>
                    (s1\<lparr>md_cache := c, md_misses := md_misses s1 + 1, md_stats := record_cache_miss 1 (md_stats s1)\<rparr>,
                     Inr (r1, Admitted (Some k))))))"

definition count_local_rejection :: "'s model_state \<Rightarrow> 's model_state" where
  "count_local_rejection s = s\<lparr>md_rejected := md_rejected s + 1, md_stats := record_failure 1 0 (md_stats s)\<rparr>"

text \<open>The done-callback of \<^verbatim>\<open>_store_when_done\<close>: only a success is stored, and a failing write is swallowed.\<close>

definition store_when_done ::
  "(string \<Rightarrow> payload \<Rightarrow> 's \<Rightarrow> 's \<times> unit result) \<Rightarrow> string option \<Rightarrow> payload result \<Rightarrow> 's model_state \<Rightarrow> 's model_state" where
  "store_when_done put key answer s =
     (case (key, answer) of
        (Some k, Inr outs) \<Rightarrow> s\<lparr>md_cache := fst (put k outs (md_cache s))\<rparr>
      | _ \<Rightarrow> s)"

definition model_stop :: "('s \<Rightarrow> 's) \<Rightarrow> 's model_state \<Rightarrow> 's model_state" where
  "model_stop clear s = s\<lparr>md_cache := clear (md_cache s), md_started := False\<rparr>"

section \<open>Serving\<close>

text \<open>
  \<^verbatim>\<open>sv_out\<close> holds the admitted requests whose futures are not resolved, with the key their callback will store under; \<^verbatim>\<open>sv_log\<close>
  the answers given, and whether they came from the cache.
\<close>

record 's serving =
  sv_model :: "'s model_state"
  sv_out :: "(inference_request \<times> string option) list"
  sv_log :: "(inference_request \<times> response \<times> bool) list"

datatype serve_op = Infer inference_request int bool | Finish nat "payload result" timings | Stop | Start

fun serve_step ::
  "(string \<Rightarrow> 's \<Rightarrow> 's \<times> payload option) \<Rightarrow> (string \<Rightarrow> payload \<Rightarrow> 's \<Rightarrow> 's \<times> unit result) \<Rightarrow> ('s \<Rightarrow> 's) \<Rightarrow> (payload \<Rightarrow> string option) \<Rightarrow>
     's serving \<Rightarrow> serve_op \<Rightarrow> 's serving" where
  "serve_step get put clear key_for s (Infer r now room) =
     (case admit get key_for r now (sv_model s) of
        (m, Inl e) \<Rightarrow> s\<lparr>sv_model := m\<rparr>
      | (m, Inr (r1, Answered a)) \<Rightarrow> s\<lparr>sv_model := m, sv_log := sv_log s @ [(r1, a, True)]\<rparr>
      | (m, Inr (r1, Admitted k)) \<Rightarrow>
          if room then s\<lparr>sv_model := m, sv_out := sv_out s @ [(r1, k)]\<rparr> else s\<lparr>sv_model := count_local_rejection m\<rparr>)"
| "serve_step get put clear key_for s (Finish i answer tm) =
     (if i < length (sv_out s) then
        (case sv_out s ! i of
           (r, k) \<Rightarrow>
             s\<lparr>sv_model := store_when_done put k answer (sv_model s), sv_out := take i (sv_out s) @ drop (Suc i) (sv_out s),
               sv_log := (case answer of
                            Inl e \<Rightarrow> sv_log s
                          | Inr outs \<Rightarrow> sv_log s @ [(r, \<lparr>rs_request_id = request_id r, rs_context = ctx r, rs_outputs = outs, rs_timings = tm\<rparr>, False)])\<rparr>)
      else s)"
| "serve_step get put clear key_for s Stop = s\<lparr>sv_model := model_stop clear (sv_model s)\<rparr>"
| "serve_step get put clear key_for s Start = s\<lparr>sv_model := (sv_model s)\<lparr>md_started := True\<rparr>\<rparr>"

fun serve_run where
  "serve_run get put clear key_for s [] = s"
| "serve_run get put clear key_for s (op # ops) = serve_run get put clear key_for (serve_step get put clear key_for s op) ops"

definition serving_init :: "tensor_spec list \<Rightarrow> 's \<Rightarrow> 's serving" where
  "serving_init specs c =
     \<lparr>sv_model = \<lparr>md_started = True, md_specs = specs, md_cache = c, md_stats = ms_init, md_requests = 0, md_hits = 0, md_misses = 0, md_rejected = 0\<rparr>,
      sv_out = [], sv_log = []\<rparr>"

section \<open>Caching a pure model is invisible\<close>

text \<open>Two payloads a caller cannot tell apart: same names, elements, shapes and types.\<close>

definition same_payload :: "payload \<Rightarrow> payload \<Rightarrow> bool" where
  "same_payload p q \<longleftrightarrow>
     list_all2 (\<lambda>(n, t) (n', t'). n = n' \<and> tdata t = tdata t' \<and> shape t = shape t' \<and> dtype t = dtype t') p q"

lemma freeze_same: "freeze_outputs p = Inr q \<Longrightarrow> list_all (\<lambda>(n, t). tensor_ok t) p \<Longrightarrow> same_payload q p"
proof (induction p arbitrary: q)
  case (Cons x p)
  obtain n t where x: "x = (n, t)" by (cases x)
  from Cons.prems(2) x obtain a where a: "host t = Some a" "nd_shape a = shape t" "nd_dtype a = numpy_dtype (dtype t)"
    by (auto simp: tensor_ok_def split: option.splits)
  from Cons.prems(1) x obtain t' q' where q: "q = (n, t') # q'" "from_numpy a = Inr t'" "freeze_outputs p = Inr q'"
    using a by (auto simp: freeze_outputs_def rbind_Inr_iff tensor_numpy_def)
  have "t' = \<lparr>dtype = dtype t, shape = shape t, tdevice = device_cpu, tmemory = HOST, host = Some a, handle = None\<rparr>"
    using q(2) a by (simp add: from_numpy_def mk_tensor_def)
  then show ?case using Cons.IH[OF q(3)] Cons.prems(2) x q(1) a(1) by (simp add: same_payload_def tdata_def)
qed (simp add: freeze_outputs_def same_payload_def)

text \<open>A completion tells the truth: it carries what the model computes, or an error.\<close>

definition honest :: "(payload \<Rightarrow> payload result) \<Rightarrow> 's serving \<Rightarrow> serve_op \<Rightarrow> bool" where
  "honest f s op = (case op of
     Finish i answer tm \<Rightarrow> i < length (sv_out s) \<longrightarrow> (case answer of Inl e \<Rightarrow> True | Inr outs \<Rightarrow> f (inputs (fst (sv_out s ! i))) = Inr outs)
   | _ \<Rightarrow> True)"

fun all_honest ::
  "(string \<Rightarrow> 's \<Rightarrow> 's \<times> payload option) \<Rightarrow> (string \<Rightarrow> payload \<Rightarrow> 's \<Rightarrow> 's \<times> unit result) \<Rightarrow> ('s \<Rightarrow> 's) \<Rightarrow> (payload \<Rightarrow> string option) \<Rightarrow>
     (payload \<Rightarrow> payload result) \<Rightarrow> 's serving \<Rightarrow> serve_op list \<Rightarrow> bool" where
  "all_honest get put clear key_for f s [] = True"
| "all_honest get put clear key_for f s (op # ops) \<longleftrightarrow>
     honest f s op \<and> all_honest get put clear key_for f (serve_step get put clear key_for s op) ops"

context response_cache
begin

text \<open>\<^verbatim>\<open>f\<close> is the model: what it makes of a request's inputs.  A key identifies the inputs as far as \<^verbatim>\<open>f\<close> can tell.\<close>

definition keyed :: "(payload \<Rightarrow> string option) \<Rightarrow> (payload \<Rightarrow> payload result) \<Rightarrow> (string \<Rightarrow> payload option) \<Rightarrow> bool" where
  "keyed key_for f h \<longleftrightarrow>
     (\<forall>ins k outs p. key_for ins = Some k \<longrightarrow> f ins = Inr outs \<longrightarrow> freeze_outputs outs = Inr p \<longrightarrow> h k = Some p)"

definition entry_ok ::
  "(payload \<Rightarrow> string option) \<Rightarrow> (payload \<Rightarrow> payload result) \<Rightarrow> (string \<Rightarrow> payload option) \<Rightarrow> inference_request \<times> response \<times> bool \<Rightarrow> bool" where
  "entry_ok key_for f h e = (case e of (r, a, hit) \<Rightarrow>
     rs_request_id a = request_id r \<and> rs_context a = ctx r \<and>
     (if hit then \<exists>k. key_for (inputs r) = Some k \<and> h k = Some (rs_outputs a) else f (inputs r) = Inr (rs_outputs a)))"

definition serve_inv :: "(payload \<Rightarrow> string option) \<Rightarrow> (payload \<Rightarrow> payload result) \<Rightarrow> (string \<Rightarrow> payload option) \<Rightarrow> 's serving \<Rightarrow> bool" where
  "serve_inv key_for f h s \<longleftrightarrow> sound_for h (md_cache (sv_model s)) \<and>
     list_all (\<lambda>(r, k). k = None \<or> k = key_for (inputs r)) (sv_out s) \<and>
     list_all (entry_ok key_for f h) (sv_log s)"

lemma serve_step_inv:
  assumes "keyed key_for f h" and "serve_inv key_for f h s" and "honest f s op"
  shows "serve_inv key_for f h (serve_step get put clear key_for s op)"
proof (cases op)
  case (Infer r now room)
  obtain m a where ad: "admit get key_for r now (sv_model s) = (m, a)" by (rule prod.exhaust)
  have snd: "sound_for h (md_cache (sv_model s))" using assms(2) by (simp add: serve_inv_def)
  have g: "sound_for h c \<and> (\<forall>p. x = Some p \<longrightarrow> h k = Some p)" if "get k (md_cache (sv_model s)) = (c, x)" for k c x
    using sound_get[OF snd, of k] that by simp
  have m: "sound_for h (md_cache m)" "\<forall>r1 x. a = Inr (r1, Answered x) \<longrightarrow> entry_ok key_for f h (r1, x, True)"
    "\<forall>r1 k. a = Inr (r1, Admitted k) \<longrightarrow> k = None \<or> k = key_for (inputs r1)"
    using ad snd by (auto simp: admit_def Let_def response_from_def entry_ok_def dest!: g split: if_splits sum.splits option.splits prod.splits)
  show ?thesis
    using assms(2) Infer ad m
    by (auto simp: serve_inv_def count_local_rejection_def split: sum.splits prod.splits admission.splits)
next
  case (Finish i answer tm)
  show ?thesis
  proof (cases "i < length (sv_out s)")
    case True
    obtain r k where rk: "sv_out s ! i = (r, k)" by (rule prod.exhaust)
    have k: "k = None \<or> k = key_for (inputs r)" using assms(2) True rk nth_mem[OF True] by (auto simp: serve_inv_def list_all_iff)
    have out: "list_all (\<lambda>(r, k). k = None \<or> k = key_for (inputs r)) (take i (sv_out s) @ drop (Suc i) (sv_out s))"
      using assms(2) by (auto simp: serve_inv_def list_all_iff dest: in_set_takeD in_set_dropD)
    have f: "f (inputs r) = Inr outs" if "answer = Inr outs" for outs using assms(3) Finish True rk that by (simp add: honest_def)
    have "sound_for h (md_cache (store_when_done put k answer (sv_model s)))"
    proof (cases "\<exists>j outs. k = Some j \<and> answer = Inr outs")
      case t: True
      then obtain j outs where j: "k = Some j" "answer = Inr outs" by blast
      have "sound_for h (fst (put j outs (md_cache (sv_model s))))"
        by (rule sound_put) (use assms(1,2) j k f in \<open>auto simp: keyed_def serve_inv_def\<close>)
      then show ?thesis using j by (simp add: store_when_done_def)
    next
      case f: False
      then show ?thesis using assms(2) by (auto simp: store_when_done_def serve_inv_def split: option.splits sum.splits)
    qed
    moreover have "entry_ok key_for f h (r, \<lparr>rs_request_id = request_id r, rs_context = ctx r, rs_outputs = outs, rs_timings = tm\<rparr>, False)"
      if "answer = Inr outs" for outs using f[OF that] by (simp add: entry_ok_def)
    ultimately show ?thesis using Finish True rk out assms(2) by (auto simp: serve_inv_def split: sum.splits)
  qed (use assms(2) Finish in simp)
qed (use assms(2) sound_clear in \<open>auto simp: serve_inv_def model_stop_def\<close>)

lemma serve_run_inv:
  "keyed key_for f h \<Longrightarrow> serve_inv key_for f h s \<Longrightarrow> all_honest get put clear key_for f s ops \<Longrightarrow>
    serve_inv key_for f h (serve_run get put clear key_for s ops)"
  by (induction ops arbitrary: s) (auto intro: serve_step_inv)

text \<open>Every answer is the model's, for a model whose outputs are host tensors and whose keys collide only on inputs it treats alike.\<close>

lemma answers_are_the_models:
  assumes "\<forall>ins ins' k. key_for ins = Some k \<longrightarrow> key_for ins' = Some k \<longrightarrow> f ins = f ins'"
    and "\<forall>ins outs. f ins = Inr outs \<longrightarrow> list_all (\<lambda>(n, t). tensor_ok t) outs"
    and "ok c" and "\<forall>k. holds c k = None" and "all_honest get put clear key_for f (serving_init specs c) ops"
    and "(r, a, hit) \<in> set (sv_log (serve_run get put clear key_for (serving_init specs c) ops))"
  shows "rs_request_id a = request_id r \<and> rs_context a = ctx r \<and> (\<exists>outs. f (inputs r) = Inr outs \<and> same_payload (rs_outputs a) outs)"
proof -
  define h where "h k = (if \<exists>ins outs p. key_for ins = Some k \<and> f ins = Inr outs \<and> freeze_outputs outs = Inr p
      then Some (SOME p. \<exists>ins outs. key_for ins = Some k \<and> f ins = Inr outs \<and> freeze_outputs outs = Inr p) else None)" for k
  have h: "\<exists>ins outs. key_for ins = Some k \<and> f ins = Inr outs \<and> freeze_outputs outs = Inr p" if "h k = Some p" for k p
  proof -
    have ex: "\<exists>p. \<exists>ins outs. key_for ins = Some k \<and> f ins = Inr outs \<and> freeze_outputs outs = Inr p"
      and p: "p = (SOME p. \<exists>ins outs. key_for ins = Some k \<and> f ins = Inr outs \<and> freeze_outputs outs = Inr p)"
      using that by (auto simp: h_def split: if_splits)
    from someI_ex[OF ex] show ?thesis unfolding p .
  qed
  have kd: "keyed key_for f h"
    unfolding keyed_def
  proof (intro allI impI)
    fix ins k outs p assume a: "key_for ins = Some k" "f ins = Inr outs" "freeze_outputs outs = Inr p"
    then have ex: "\<exists>ins outs p. key_for ins = Some k \<and> f ins = Inr outs \<and> freeze_outputs outs = Inr p" by blast
    obtain q where q: "h k = Some q" unfolding h_def if_P[OF ex] by blast
    from h[OF q] obtain ins' outs' where b: "key_for ins' = Some k" "f ins' = Inr outs'" "freeze_outputs outs' = Inr q" by blast
    have "f ins = f ins'" using assms(1) a(1) b(1) by blast
    then show "h k = Some p" using a b q by simp
  qed
  have i0: "serve_inv key_for f h (serving_init specs c)"
    using assms(3,4) by (simp add: serve_inv_def serving_init_def sound_for_def)
  note inv = serve_run_inv[OF kd i0 assms(5)]
  have same: "same_payload outs outs" for outs by (auto simp: same_payload_def list_all2_same)
  have e: "rs_request_id a = request_id r \<and> rs_context a = ctx r \<and>
      (if hit then \<exists>k. key_for (inputs r) = Some k \<and> h k = Some (rs_outputs a) else f (inputs r) = Inr (rs_outputs a))"
    using inv assms(6) unfolding serve_inv_def list_all_iff entry_ok_def by fastforce
  show ?thesis
  proof (cases hit)
    case True
    then obtain k where k: "key_for (inputs r) = Some k" "h k = Some (rs_outputs a)" using e by auto
    from h[OF k(2)] obtain ins outs where b: "key_for ins = Some k" "f ins = Inr outs" "freeze_outputs outs = Inr (rs_outputs a)" by blast
    have "f (inputs r) = Inr outs" using assms(1) k(1) b(1,2) by metis
    then show ?thesis using e freeze_same[OF b(3)] assms(2) b(2) by blast
  next
    case False
    then show ?thesis using e same by auto
  qed
qed

end



text \<open>Two requests for the same crop: the second is answered from the cache under its own tag.\<close>

definition sample_key :: "payload \<Rightarrow> string option" where
  "sample_key p =
     (case p of
        [(n, t)] \<Rightarrow> (case tdata t of [a, b] \<Rightarrow> Some [char_of a, char_of b] | _ \<Rightarrow> None)
      | _ \<Rightarrow> None)"

definition sample_model :: "payload \<Rightarrow> payload result" where
  "sample_model p =
     (case sample_key p of
        Some [a, b] \<Rightarrow> Inr [(''y'', sample_tensor 1 [of_char b, of_char a])]
      | _ \<Rightarrow> Inl ValueError)"

definition sample_asks :: "serve_op list" where
  "sample_asks =
     [Infer (req (with_input (sample_tensor 1 [65, 66]) (sample_item ''a'' NORMAL 0 1))) 5 True,
      Finish 0 (sample_model [(''x'', sample_tensor 1 [65, 66])]) (tms (req (sample_item ''a'' NORMAL 0 1))),
      Infer (req (with_input (sample_tensor 1 [65, 66]) (sample_item ''b'' NORMAL 0 2))) 9 True]"

definition sample_serving :: "lru serving" where
  "sample_serving = serve_run lru_get lru_put lru_clear sample_key (serving_init sample_spec (lru_init 4 1000)) sample_asks"

lemma sample_model_keyed: "sample_key p = Some k \<Longrightarrow> sample_key q = Some k \<Longrightarrow> sample_model p = sample_model q"
  by (simp add: sample_model_def)

lemma sample_model_host: "sample_model p = Inr outs \<Longrightarrow> list_all (\<lambda>(n, t). tensor_ok t) outs"
  by (auto simp: sample_model_def sample_tensor_def tensor_ok_def nd_wf_def prod_dims_def split: option.splits list.splits)


section \<open>Health\<close>

text \<open>
  What \<^verbatim>\<open>check_health\<close> reads of a server: whether it is started, and of each model its readiness and that of its instances.  A model is ready
  when it is started and an instance of it is (\<^verbatim>\<open>Model.is_ready\<close>).
\<close>

datatype health_status = OK | DEGRADED | UNAVAILABLE

record health_report =
  hr_live :: bool
  hr_ready :: bool
  hr_status :: health_status
  hr_models_ready :: int
  hr_models_total :: int
  hr_instances_ready :: int
  hr_instances_total :: int

record model_view =
  mv_started :: bool
  mv_instances :: "bool list"

definition model_is_ready :: "model_view \<Rightarrow> bool" where
  "model_is_ready m \<longleftrightarrow> mv_started m \<and> True \<in> set (mv_instances m)"

definition check_health :: "bool \<Rightarrow> model_view list \<Rightarrow> health_report" where
  "check_health is_started models =
     (let instances = concat (map mv_instances models);
          ready_models = filter model_is_ready models;
          ready_instances = filter id instances;
          report = (\<lambda>ready st. \<lparr>hr_live = True, hr_ready = ready, hr_status = st,
            hr_models_ready = int (length ready_models), hr_models_total = int (length models),
            hr_instances_ready = int (length ready_instances), hr_instances_total = int (length instances)\<rparr>) in
      if \<not> is_started then
        \<lparr>hr_live = True, hr_ready = False, hr_status = UNAVAILABLE, hr_models_ready = 0, hr_models_total = 0,
         hr_instances_ready = 0, hr_instances_total = 0\<rparr>
      else if ready_models = [] then report False UNAVAILABLE
      else if length ready_models < length models \<or> length ready_instances < length instances then report True DEGRADED
      else report True OK)"

text \<open>\<^verbatim>\<open>OK\<close> is never a rounding of \<^verbatim>\<open>DEGRADED\<close>: it is reported exactly when every model and every instance can serve.\<close>

lemma ok_is_full_capacity:
  "hr_status (check_health is_started models) = OK \<longleftrightarrow>
     is_started \<and> models \<noteq> [] \<and> (\<forall>m \<in> set models. model_is_ready m \<and> False \<notin> set (mv_instances m))"
proof -
  have len: "(\<not> length (filter P xs) < length xs) = (\<forall>x \<in> set xs. P x)" for P and xs :: "'b list"
    by (metis filter_True length_filter_le length_filter_less nat_neq_iff not_less)
  have e: "(filter model_is_ready models = []) = (\<forall>m \<in> set models. \<not> model_is_ready m)" by (auto simp: filter_empty_conv)
  have i: "(\<forall>b \<in> set (concat (map mv_instances models)). id b) = (\<forall>m \<in> set models. False \<notin> set (mv_instances m))" by auto (metis (full_types))
  show ?thesis
    using len[of model_is_ready models] len[of id "concat (map mv_instances models)"] e i
    by (cases models) (auto simp: check_health_def Let_def)
qed

lemma ready_serves_something: "hr_ready (check_health is_started models) \<longleftrightarrow> is_started \<and> (\<exists>m \<in> set models. model_is_ready m)"
  by (auto simp: check_health_def Let_def filter_empty_conv)

end
