(* ===== verification/Cache_Key.thy ===== *)
theory Cache_Key
  imports Serving Frame_State
begin

text \<open>
  \<^verbatim>\<open>cache_key\<close> of \<^verbatim>\<open>src/shipinfer/engine/cache/base.py\<close>: what the response cache hashes, and why two different requests of a model do not share it.

  The digest is fed one byte string after another, so it is a function of their concatenation; that function (BLAKE2b) is the argument
  \<^verbatim>\<open>hash\<close>.  A byte is a \<^verbatim>\<open>char\<close>; names are ASCII, so \<^verbatim>\<open>encode\<close> is the identity on them.
\<close>

section \<open>The bytes of a request\<close>

fun dtype_value :: "data_type \<Rightarrow> string" where
  "dtype_value BOOL = ''BOOL''"
| "dtype_value UINT8 = ''UINT8''"
| "dtype_value INT8 = ''INT8''"
| "dtype_value INT32 = ''INT32''"
| "dtype_value INT64 = ''INT64''"
| "dtype_value FP16 = ''FP16''"
| "dtype_value FP32 = ''FP32''"
| "dtype_value FP64 = ''FP64''"

text \<open>Little-endian bytes, least significant first; \<^verbatim>\<open>int.to_bytes\<close> raises out of range.\<close>

fun le_bytes :: "nat \<Rightarrow> int \<Rightarrow> string" where
  "le_bytes 0 i = []"
| "le_bytes (Suc n) i = char_of (i mod 256) # le_bytes n (i div 256)"

definition to_bytes :: "nat \<Rightarrow> int \<Rightarrow> string result" where
  "to_bytes n i = (if 0 \<le> i \<and> i < 256 ^ n then Inr (le_bytes n i) else Inl OverflowError)"

text \<open>\<^verbatim>\<open>repr\<close> of a tuple of integers.\<close>

fun joined :: "int list \<Rightarrow> string" where
  "joined [] = []"
| "joined [d] = int_str d"
| "joined (d # ds) = int_str d @ '', '' @ joined ds"

definition shape_repr :: "int list \<Rightarrow> string" where
  "shape_repr sh = ''('' @ (case sh of [d] \<Rightarrow> int_str d @ '','' | _ \<Rightarrow> joined sh) @ '')''"

definition array_bytes :: "data_type \<Rightarrow> ndarray \<Rightarrow> string" where
  "array_bytes d a = concat (map (le_bytes (nat (itemsize d))) (nd_data a))"

definition input_bytes :: "payload \<Rightarrow> string \<Rightarrow> string result" where
  "input_bytes ins name =
     (case map_of ins name of
        None \<Rightarrow> Inl KeyError
      | Some t \<Rightarrow>
          rbind (tensor_numpy t) (\<lambda>a. Inr (name @ dtype_value (dtype t) @ shape_repr (shape t) @ array_bytes (dtype t) a)))"

definition key_bytes :: "string \<Rightarrow> int \<Rightarrow> payload \<Rightarrow> string result" where
  "key_bytes model version ins =
     rbind (to_bytes 4 version) (\<lambda>v.
     rbind (rmapM (input_bytes ins) (sort (map fst ins))) (\<lambda>parts. Inr (model @ v @ concat parts)))"

definition cache_key :: "(string \<Rightarrow> string) \<Rightarrow> string \<Rightarrow> int \<Rightarrow> payload \<Rightarrow> string result" where
  "cache_key hash model version ins = rbind (key_bytes model version ins) (\<lambda>bytes. Inr (hash bytes))"

text \<open>\<^verbatim>\<open>ResponseCache.key_for\<close> catches the \<^verbatim>\<open>RuntimeError\<close> of a device-resident tensor, and nothing else; the null cache never hashes.\<close>

definition key_for :: "(string \<Rightarrow> string) \<Rightarrow> string \<Rightarrow> int \<Rightarrow> payload \<Rightarrow> string option result" where
  "key_for hash model version ins =
     (case cache_key hash model version ins of
        Inr k \<Rightarrow> Inr (Some k)
      | Inl RuntimeError \<Rightarrow> Inr None
      | Inl e \<Rightarrow> Inl e)"

definition null_key_for :: "string \<Rightarrow> int \<Rightarrow> payload \<Rightarrow> string option result" where
  "null_key_for model version ins = Inr None"

section \<open>The bytes determine the request\<close>

lemma le_bytes_length [simp]: "length (le_bytes n i) = n"
  by (induction n arbitrary: i) auto

lemma le_bytes_inj:
  "le_bytes n i = le_bytes n j \<Longrightarrow> 0 \<le> i \<Longrightarrow> i < 256 ^ n \<Longrightarrow> 0 \<le> j \<Longrightarrow> j < 256 ^ n \<Longrightarrow> i = j"
proof (induction n arbitrary: i j)
  case (Suc n)
  have m: "i mod 256 = j mod 256"
  proof -
    have "of_char (char_of (i mod 256)) = (of_char (char_of (j mod 256)) :: int)" using Suc.prems(1) by simp
    then show ?thesis by (simp add: of_char_of)
  qed
  have "i div 256 = j div 256"
  proof (rule Suc.IH)
    show "le_bytes n (i div 256) = le_bytes n (j div 256)" using Suc.prems(1) by simp
    have b: "k div 256 < 256 ^ n" if "k < 256 ^ Suc n" for k :: int using that by (simp add: div_less_iff_less_mult mult.commute)
    show "i div 256 < 256 ^ n" "j div 256 < 256 ^ n" using b Suc.prems(3,5) by blast+
  qed (use Suc.prems in \<open>simp_all add: pos_imp_zdiv_nonneg_iff\<close>)
  with m show ?case by (metis mult_div_mod_eq)
qed simp

text \<open>Words of one length concatenate uniquely.\<close>

lemma concat_fixed_inj:
  assumes "\<And>x. length (g x) = w" and "0 < w" and "\<And>x y. x \<in> A \<Longrightarrow> y \<in> A \<Longrightarrow> g x = g y \<Longrightarrow> x = y"
  shows "set xs \<subseteq> A \<Longrightarrow> set ys \<subseteq> A \<Longrightarrow> length xs = length ys \<Longrightarrow> concat (map g xs) @ u = concat (map g ys) @ v \<Longrightarrow> xs = ys \<and> u = v"
proof (induction xs arbitrary: ys)
  case (Cons x xs)
  then obtain y ys' where y: "ys = y # ys'" by (cases ys) auto
  have "g x = g y \<and> concat (map g xs) @ u = concat (map g ys') @ v"
    using Cons.prems(4) assms(1) unfolding y by simp
  then show ?case using Cons.IH[of ys'] Cons.prems assms(3) unfolding y by auto
qed simp

lemma itemsize_pos: "0 < itemsize d"
  by (cases d) auto

text \<open>The text of a shape has no closing parenthesis before its last character, and determines the shape.\<close>

lemma int_str_chars: "CHR '')'' \<notin> set (int_str i)" "CHR '','' \<notin> set (int_str i)" "int_str i \<noteq> []"
proof -
  have c: "CHR '')'' \<notin> set (nat_digits n)" "CHR '','' \<notin> set (nat_digits n)" for n
    using nat_digits_chars[of "CHR '')''" n] nat_digits_chars[of "CHR '',''" n] by auto
  have "nat_digits n \<noteq> []" for n by (subst nat_digits.simps) simp
  then show "CHR '')'' \<notin> set (int_str i)" "CHR '','' \<notin> set (int_str i)" "int_str i \<noteq> []"
    using c by (auto simp: int_str_def)
qed

lemma split_at_unique:
  assumes "a @ c # u = b @ c # v" and "c \<notin> set a" and "c \<notin> set b"
  shows "a = b \<and> u = v"
  using assms
proof (induction a arbitrary: b)
  case Nil
  then show ?case by (cases b) auto
next
  case (Cons x a)
  then show ?case by (cases b) auto
qed

lemma joined_chars: "CHR '')'' \<notin> set (joined ds)"
  using int_str_chars(1) by (induction ds rule: joined.induct) auto

lemma joined_inj: "joined ds = joined es \<Longrightarrow> ds = es"
proof (induction ds arbitrary: es rule: joined.induct)
  case 1
  then show ?case using int_str_chars(3)[symmetric] by (cases es rule: joined.cases) auto
next
  case (2 d)
  then show ?case
  proof (cases es rule: joined.cases)
    case (3 e e' es')
    have "CHR '','' \<in> set (int_str d)" using 2 3 by simp
    then show ?thesis using int_str_chars(2) by blast
  qed (use 2 int_str_chars(3) int_str_inj in auto)
next
  case (3 d d' ds)
  show ?case
  proof (cases es rule: joined.cases)
    case (2 e)
    have "CHR '','' \<in> set (int_str e)" using 3(2) 2 by (metis in_set_conv_decomp joined.simps(2,3) append_Cons)
    then show ?thesis using int_str_chars(2) by blast
  next
    case e: (3 e e' es')
    have "int_str d = int_str e \<and> joined (d' # ds) = joined (e' # es')"
      using split_at_unique[of "int_str d" "CHR '',''" "'' '' @ joined (d' # ds)" "int_str e" "'' '' @ joined (e' # es')"]
        3(2) e int_str_chars(2) by simp
    then show ?thesis using 3(1)[of "e' # es'"] int_str_inj e by blast
  qed (use 3(2) int_str_chars(3) in auto)
qed

lemma shape_repr_unique:
  assumes "shape_repr sh @ u = shape_repr sh' @ v"
  shows "sh = sh' \<and> u = v"
proof -
  let ?b = "\<lambda>sh. case sh of [d] \<Rightarrow> int_str d @ '','' | _ \<Rightarrow> joined sh"
  have np: "CHR '')'' \<notin> set (?b s)" for s
    using joined_chars int_str_chars(1) by (auto split: list.splits)
  have b: "?b sh = ?b sh' \<and> u = v"
    by (rule split_at_unique) (use assms np in \<open>auto simp: shape_repr_def\<close>)
  have one: "?b [d] \<noteq> ?b s" if "length s \<noteq> 1" for d s
  proof (cases s rule: joined.cases)
    case (3 e e' es)
    have "int_str d @ '','' \<noteq> int_str e @ '', '' @ joined (e' # es)"
      using split_at_unique[of "int_str d" "CHR '',''" "[]" "int_str e" "'' '' @ joined (e' # es)"] int_str_chars(2) by auto
    then show ?thesis using 3 by simp
  qed (use that int_str_chars(3) in auto)
  have other: "?b s = joined s" if "length s \<noteq> 1" for s using that by (auto split: list.splits)
  have "sh = sh'"
  proof (cases "length sh = 1"; cases "length sh' = 1")
    assume a: "length sh = 1" "length sh' = 1"
    then obtain d e where "sh = [d]" "sh' = [e]" by (auto simp: length_Suc_conv)
    then show ?thesis using b int_str_inj by simp
  next
    assume a: "length sh = 1" "length sh' \<noteq> 1"
    then obtain d where "sh = [d]" by (auto simp: length_Suc_conv)
    then show ?thesis using one[OF a(2), of d] b by simp
  next
    assume a: "length sh \<noteq> 1" "length sh' = 1"
    then obtain d where "sh' = [d]" by (auto simp: length_Suc_conv)
    then show ?thesis using one[OF a(1), of d] b by simp
  next
    assume a: "length sh \<noteq> 1" "length sh' \<noteq> 1"
    then show ?thesis using other b joined_inj by simp
  qed
  with b show ?thesis by simp
qed

definition elements_ok :: "tensor \<Rightarrow> bool" where
  "elements_ok t \<longleftrightarrow> list_all (\<lambda>x. 0 \<le> x \<and> x < 256 ^ nat (itemsize (dtype t))) (tdata t)"

definition same_content :: "tensor \<Rightarrow> tensor \<Rightarrow> bool" where
  "same_content t t' \<longleftrightarrow> dtype t = dtype t' \<and> shape t = shape t' \<and> tdata t = tdata t'"

text \<open>What a request that passed validation is made of: host tensors, each name once, each element within its type.\<close>

definition payload_ok :: "payload \<Rightarrow> bool" where
  "payload_ok ins \<longleftrightarrow> distinct (map fst ins) \<and> list_all (\<lambda>(n, t). tensor_ok t \<and> elements_ok t) ins"

definition tensor_bytes :: "string \<Rightarrow> tensor \<Rightarrow> string" where
  "tensor_bytes n t = n @ dtype_value (dtype t) @ shape_repr (shape t) @ concat (map (le_bytes (nat (itemsize (dtype t)))) (tdata t))"

lemma input_bytes_ok:
  assumes "map_of ins n = Some t" and "tensor_ok t"
  shows "input_bytes ins n = Inr (tensor_bytes n t)"
  using assms by (auto simp: input_bytes_def tensor_bytes_def tensor_ok_def tensor_numpy_def array_bytes_def tdata_def split: option.splits)

lemma tensor_bytes_unique:
  assumes "tensor_ok t" "elements_ok t" "tensor_ok t'" "elements_ok t'" and "dtype t = dtype t'"
    and "tensor_bytes n t @ u = tensor_bytes n t' @ v"
  shows "same_content t t' \<and> u = v"
proof -
  let ?w = "nat (itemsize (dtype t))" and ?A = "{x. 0 \<le> x \<and> x < 256 ^ nat (itemsize (dtype t))}"
  have eq: "shape t = shape t'" "concat (map (le_bytes ?w) (tdata t)) @ u = concat (map (le_bytes ?w) (tdata t')) @ v"
    using shape_repr_unique[of "shape t" _ "shape t'"] assms(5,6) by (auto simp: tensor_bytes_def)
  have len: "int (length (tdata s)) = prod_dims (shape s)" if "tensor_ok s" for s
    using that by (auto simp: tensor_ok_def tdata_def nd_wf_def split: option.splits)
  have "tdata t = tdata t' \<and> u = v"
  proof (rule concat_fixed_inj[where w = ?w and A = ?A and g = "le_bytes ?w"])
    show "length (tdata t) = length (tdata t')" using len[OF assms(1)] len[OF assms(3)] eq(1) by simp
    show "set (tdata t) \<subseteq> ?A" "set (tdata t') \<subseteq> ?A" using assms(2,4,5) by (auto simp: elements_ok_def list_all_iff)
  qed (use eq(2) le_bytes_inj itemsize_pos in auto)
  then show ?thesis using eq(1) assms(5) by (simp add: same_content_def)
qed

lemma concat_parts_unique:
  assumes "\<forall>n \<in> set ns. \<exists>t t'. map_of ins n = Some t \<and> map_of ins' n = Some t' \<and> dtype t = dtype t' \<and>
      tensor_ok t \<and> elements_ok t \<and> tensor_ok t' \<and> elements_ok t'"
    and "rmapM (input_bytes ins) ns = Inr ps" and "rmapM (input_bytes ins') ns = Inr qs" and "concat ps = concat qs"
  shows "\<forall>n \<in> set ns. same_content (the (map_of ins n)) (the (map_of ins' n))"
  using assms
proof (induction ns arbitrary: ps qs)
  case (Cons n ns)
  obtain t t' where t: "map_of ins n = Some t" "map_of ins' n = Some t'" "dtype t = dtype t'" "tensor_ok t" "elements_ok t" "tensor_ok t'" "elements_ok t'"
    using Cons.prems(1) by auto
  obtain ps' where p: "ps = tensor_bytes n t # ps'" "rmapM (input_bytes ins) ns = Inr ps'"
    using Cons.prems(2) input_bytes_ok[OF t(1,4)] by (auto simp: rbind_Inr_iff)
  obtain qs' where q: "qs = tensor_bytes n t' # qs'" "rmapM (input_bytes ins') ns = Inr qs'"
    using Cons.prems(3) input_bytes_ok[OF t(2,6)] by (auto simp: rbind_Inr_iff)
  have "same_content t t' \<and> concat ps' = concat qs'"
    by (rule tensor_bytes_unique[OF t(4,5,6,7,3)]) (use Cons.prems(4) p q in simp)
  then show ?case using Cons.IH[OF _ p(2) q(2)] Cons.prems(1) t by simp
qed simp

text \<open>Without optional inputs, a request that passes validation has exactly the declared names, each with its declared type.\<close>

lemma specs_by_name_dom: "set (map fst (specs_by_name specs)) = sname ` set specs"
proof -
  have "set (map fst (fold (\<lambda>s d. AList.update (sname s) s d) specs d)) = fst ` set d \<union> sname ` set specs" for d :: "(string, tensor_spec) dict"
    by (induction specs arbitrary: d) (auto simp: dom_update)
  then show ?thesis by (simp add: specs_by_name_def)
qed

lemma specs_by_name_names: "(n, s) \<in> set (specs_by_name specs) \<Longrightarrow> sname s = n \<and> s \<in> set specs"
proof -
  have "(n, s) \<in> set (fold (\<lambda>s d. AList.update (sname s) s d) specs d) \<Longrightarrow> (n, s) \<in> set d \<or> (sname s = n \<and> s \<in> set specs)"
    for d :: "(string, tensor_spec) dict"
  proof (induction specs arbitrary: d)
    case (Cons x specs)
    have u: "(n, s) \<in> set (AList.update k v d) \<Longrightarrow> (n, s) \<in> set d \<or> (n = k \<and> s = v)" for k v
      by (induction d) (auto split: if_splits)
    from Cons.IH[of "AList.update (sname x) x d"] Cons.prems u show ?case by auto
  qed simp
  from this[of "[]"] show "(n, s) \<in> set (specs_by_name specs) \<Longrightarrow> sname s = n \<and> s \<in> set specs" by (simp add: specs_by_name_def)
qed

lemma validated_names:
  assumes "validate_against ins specs = Inr ()" and "\<forall>s \<in> set specs. \<not> optional s"
  shows "set (map fst ins) = sname ` set specs"
    and "(n, t) \<in> set ins \<Longrightarrow> \<exists>s. map_of (specs_by_name specs) n = Some s \<and> dtype t = sdtype s"
proof -
  obtain us where us: "rmapM (validate_one (specs_by_name specs)) ins = Inr us"
    and req: "\<forall>s \<in> set (map snd (specs_by_name specs)). sname s \<in> set (map fst ins) \<or> optional s"
    using assms(1) by (auto simp: validate_against_def Let_def rbind_Inr_iff split: if_splits)
  have one: "\<exists>s. map_of (specs_by_name specs) n = Some s \<and> dtype t = sdtype s" if "(n, t) \<in> set ins" for n t
  proof -
    have "\<exists>u. validate_one (specs_by_name specs) (n, t) = Inr u"
      using us that unfolding rmapM_Inr_iff by (auto simp: list_all2_conv_all_nth in_set_conv_nth)
    then show ?thesis by (auto simp: validate_one_def split: option.splits if_splits)
  qed
  then show "(n, t) \<in> set ins \<Longrightarrow> \<exists>s. map_of (specs_by_name specs) n = Some s \<and> dtype t = sdtype s" by blast
  show "set (map fst ins) = sname ` set specs"
  proof
    show "set (map fst ins) \<subseteq> sname ` set specs"
      using one specs_by_name_dom[of specs] by (force dest: map_of_SomeD)
    show "sname ` set specs \<subseteq> set (map fst ins)"
    proof
      fix n assume "n \<in> sname ` set specs"
      then obtain s where s: "(n, s) \<in> set (specs_by_name specs)" using specs_by_name_dom[of specs] by force
      then have "sname s = n" "s \<in> set specs" using specs_by_name_names by blast+
      then show "n \<in> set (map fst ins)" using req s assms(2) by force
    qed
  qed
qed

text \<open>
  C18: equal key bytes mean equal requests.  For a model without optional inputs, take two requests that pass its validation and whose tensors are
  in host memory.  If \<^verbatim>\<open>cache_key\<close> feeds its digest the same bytes for both, then they have the same inputs: under every name the same element type,
  shape and elements (or none in both).  The bytes carry no separators and no lengths; the declared types, the closing parenthesis of a shape and
  the element count it fixes are what keeps them apart.
\<close>

theorem key_bytes_identify_request:
  assumes "\<forall>s \<in> set specs. \<not> optional s"
    and "validate_against ins specs = Inr ()" and "payload_ok ins"
    and "validate_against ins' specs = Inr ()" and "payload_ok ins'"
    and "key_bytes model version ins = Inr bytes" and "key_bytes model version ins' = Inr bytes"
  shows "rel_option same_content (map_of ins n) (map_of ins' n)"
proof -
  let ?ns = "sort (map fst ins)"
  have names: "set (map fst ins) = set (map fst ins')" using validated_names(1)[OF assms(2,1)] validated_names(1)[OF assms(4,1)] by simp
  then have srt: "sort (map fst ins') = ?ns"
    using assms(3,5) by (intro sorted_distinct_set_unique) (auto simp: payload_ok_def)
  obtain v ps where ps: "to_bytes 4 version = Inr v" "rmapM (input_bytes ins) ?ns = Inr ps" "bytes = model @ v @ concat ps"
    using assms(6) by (auto simp: key_bytes_def rbind_Inr_iff)
  obtain qs where qs: "rmapM (input_bytes ins') ?ns = Inr qs" "bytes = model @ v @ concat qs"
    using assms(7) ps(1) srt by (auto simp: key_bytes_def rbind_Inr_iff)
  have entry: "\<exists>t. map_of i m = Some t \<and> tensor_ok t \<and> elements_ok t \<and> (\<exists>s. map_of (specs_by_name specs) m = Some s \<and> dtype t = sdtype s)"
    if ok: "payload_ok i" and va: "validate_against i specs = Inr ()" and m: "m \<in> set (map fst i)" for i m
  proof -
    obtain t where t: "(m, t) \<in> set i" using m by auto
    then have "map_of i m = Some t" using ok by (simp add: payload_ok_def)
    then show ?thesis using t ok validated_names(2)[OF va assms(1) t] by (auto simp: payload_ok_def list_all_iff)
  qed
  have e: "\<forall>m \<in> set ?ns. \<exists>t t'. map_of ins m = Some t \<and> map_of ins' m = Some t' \<and> dtype t = dtype t' \<and>
      tensor_ok t \<and> elements_ok t \<and> tensor_ok t' \<and> elements_ok t'"
    using entry[OF assms(3,2)] entry[OF assms(5,4)] names by fastforce
  have "\<forall>m \<in> set ?ns. same_content (the (map_of ins m)) (the (map_of ins' m))"
    by (rule concat_parts_unique[OF e ps(2) qs(1)]) (use ps(3) qs(2) in simp)
  moreover have "map_of ins n = None \<and> map_of ins' n = None" if "n \<notin> set ?ns"
    using that names by (simp add: map_of_eq_None_iff)
  ultimately show ?thesis using e by (cases "n \<in> set ?ns") fastforce+
qed

lemma key_bytes_identify_request_witness:
  "\<exists>b. key_bytes ''yolo'' 1 [(''x'', sample_tensor 1 [7, 8])] = Inr b \<and>
     key_bytes ''yolo'' 1 [(''x'', (sample_tensor 1 [7, 8])\<lparr>tmemory := PINNED\<rparr>)] = Inr b \<and>
     rel_option same_content (map_of [(''x'', sample_tensor 1 [7, 8])] ''x'') (map_of [(''x'', (sample_tensor 1 [7, 8])\<lparr>tmemory := PINNED\<rparr>)] ''x'')"
proof -
  let ?i = "[(''x'', sample_tensor 1 [7, 8])]" and ?j = "[(''x'', (sample_tensor 1 [7, 8])\<lparr>tmemory := PINNED\<rparr>)]"
  have s: "\<forall>s \<in> set sample_spec. \<not> optional s" by code_simp
  have v: "validate_against ?i sample_spec = Inr ()" "validate_against ?j sample_spec = Inr ()" by code_simp+
  have p: "payload_ok ?i" "payload_ok ?j" by code_simp+
  have "\<not> isl (key_bytes ''yolo'' 1 ?i)" by code_simp
  then obtain b where b: "key_bytes ''yolo'' 1 ?i = Inr b" by (cases "key_bytes ''yolo'' 1 ?i") auto
  have "key_bytes ''yolo'' 1 ?j = key_bytes ''yolo'' 1 ?i" by code_simp
  then have c: "key_bytes ''yolo'' 1 ?j = Inr b" using b by simp
  show ?thesis using key_bytes_identify_request[OF s v(1) p(1) v(2) p(2) b c, of "''x''"] b c by blast
qed

text \<open>
  With optional inputs it is different: the name runs into the type.  An optional \<^verbatim>\<open>UINT8\<close> input \<^verbatim>\<open>x\<close> and an optional \<^verbatim>\<open>INT8\<close> input \<^verbatim>\<open>xU\<close> give
  requests that pass validation, differ, and share their key under every hash.
\<close>

definition byte_tensor :: "data_type \<Rightarrow> tensor" where
  "byte_tensor d =
     \<lparr>dtype = d, shape = [1, 2], tdevice = device_cpu, tmemory = HOST,
      host = Some \<lparr>nd_dtype = numpy_dtype d, nd_shape = [1, 2], nd_data = [7, 9]\<rparr>, handle = None\<rparr>"

definition optional_specs :: "tensor_spec list" where
  "optional_specs = [\<lparr>sname = ''x'', sdtype = UINT8, sshape = [2], optional = True\<rparr>, \<lparr>sname = ''xU'', sdtype = INT8, sshape = [2], optional = True\<rparr>]"

lemma optional_inputs_can_collide:
  "validate_against [(''x'', byte_tensor UINT8)] optional_specs = Inr ()" "validate_against [(''xU'', byte_tensor INT8)] optional_specs = Inr ()"
  "cache_key hash model version [(''x'', byte_tensor UINT8)] = cache_key hash model version [(''xU'', byte_tensor INT8)]"
proof -
  have "input_bytes [(''x'', byte_tensor UINT8)] ''x'' = input_bytes [(''xU'', byte_tensor INT8)] ''xU''" by code_simp
  then show "cache_key hash model version [(''x'', byte_tensor UINT8)] = cache_key hash model version [(''xU'', byte_tensor INT8)]"
    by (simp add: cache_key_def key_bytes_def)
qed code_simp+

end
