(* ===== verification/Barrier.thy ===== *)
theory Barrier
  imports Prelude
begin

text \<open>
  \<^verbatim>\<open>src/shipinfer/topology/barrier.py\<close>: the barrier that turns a stream of per-camera frames back into synchronised instants, and the
  budget of waiters the barriers of a process share.

  Every method runs under the barrier's condition lock, so each is one step; \<^verbatim>\<open>submit\<close> is split where it waits.  \<^verbatim>\<open>barrier_submit\<close> runs up to the
  first \<^verbatim>\<open>wait\<close> and answers or parks the thread; \<^verbatim>\<open>barrier_wake\<close> is what a parked thread does when it holds the lock again, after a notification or a
  timeout, and may park it once more.  A clock reading is an argument.  A bucket is an object that threads still reference after it left the
  map, so buckets live in a store from instant ids, and \<^verbatim>\<open>ba_open\<close> is the map's key order.  Payloads and results are opaque, and the observer
  of events, a counter outside, is not modelled.
\<close>

section \<open>The waiter budget\<close>

text \<open>\<^verbatim>\<open>wb_value\<close> is the counter of the \<^verbatim>\<open>BoundedSemaphore\<close>, \<^verbatim>\<open>wb_held\<close> the code's own beside it.\<close>

record waiter_budget =
  wb_permits :: int
  wb_value :: int
  wb_held :: int

definition mk_budget :: "int \<Rightarrow> waiter_budget result" where
  "mk_budget permits =
     (if permits < 0 then Inl ConfigurationError else Inr \<lparr>wb_permits = permits, wb_value = permits, wb_held = 0\<rparr>)"

definition wb_acquire :: "waiter_budget \<Rightarrow> waiter_budget \<times> bool" where
  "wb_acquire w = (if wb_value w \<le> 0 then (w, False) else (w\<lparr>wb_value := wb_value w - 1, wb_held := wb_held w + 1\<rparr>, True))"

definition wb_release :: "waiter_budget \<Rightarrow> waiter_budget result" where
  "wb_release w =
     (if wb_value w \<ge> wb_permits w then Inl ServerStateError
      else Inr (w\<lparr>wb_value := wb_value w + 1, wb_held := wb_held w - 1\<rparr>))"

section \<open>Instants\<close>

datatype instant_reason =
    CLOSED_COMPLETE | CLOSED_WINDOW | CLOSED_ADVANCED
  | DROPPED_EVICTED | DROPPED_EXPIRED | DROPPED_SHUTDOWN | DROPPED_FAILED
  | MISSED_LATE | MISSED_DUPLICATE | MISSED_WOULD_STARVE | MISSED_BACKWARD | MISSED_NOT_MINE
  | NO_REASON

definition BACKWARD_REFUSALS_BEFORE_ADOPTING :: int where "BACKWARD_REFUSALS_BEFORE_ADOPTING = 1"

definition DEFAULT_MAX_INSTANTS :: int where "DEFAULT_MAX_INSTANTS = 8"

definition MAX_LAG_SAMPLES :: int where "MAX_LAG_SAMPLES = 200000"

record ('p, 'res) bucket =
  bk_deadline :: rat
  bk_first :: rat
  bk_last :: rat
  bk_entries :: "(string \<times> 'p) list"
  bk_reported :: "(string, rat) dict"
  bk_waiters :: int
  bk_done :: bool
  bk_ready :: bool
  bk_ready_reason :: instant_reason
  bk_reason :: instant_reason
  bk_results :: "'res option"

definition new_bucket :: "rat \<Rightarrow> rat \<Rightarrow> ('p, 'res) bucket" where
  "new_bucket deadline capture =
     \<lparr>bk_deadline = deadline, bk_first = capture, bk_last = capture, bk_entries = [], bk_reported = [], bk_waiters = 0, bk_done = False,
      bk_ready = False, bk_ready_reason = CLOSED_COMPLETE, bk_reason = NO_REASON, bk_results = None\<rparr>"

definition spread_with :: "rat \<Rightarrow> ('p, 'res) bucket \<Rightarrow> rat" where
  "spread_with capture k = max (bk_last k) capture - min (bk_first k) capture"

record ('p, 'res) barrier =
  ba_window :: rat
  ba_workers :: int
  ba_configured_max :: "int option"
  ba_max :: int
  ba_open :: "int list"
  ba_objs :: "int \<Rightarrow> ('p, 'res) bucket"
  ba_next :: int
  ba_recent :: "(int, rat \<times> rat) dict"
  ba_recent_limit :: int
  ba_lag :: "int list"
  ba_lag_next :: int
  ba_lag_overwritten :: int
  ba_lag_negative :: int
  ba_cameras_held :: int
  ba_ended :: int
  ba_held_max :: int
  ba_announced :: "string list"
  ba_seen :: "string list"
  ba_not_mine :: "string list"
  ba_newest :: "(string, rat) dict"
  ba_backward :: "(string, int) dict"
  ba_hooked :: bool
  ba_live :: "string list"
  ba_waiters :: int
  ba_closed :: bool
  ba_instants :: "instant_reason counter"
  ba_frames :: "instant_reason counter"

text \<open>\<^verbatim>\<open>__init__\<close>, with the private budget it sizes when none is supplied.\<close>

definition mk_barrier ::
  "rat \<Rightarrow> int option \<Rightarrow> waiter_budget option \<Rightarrow> int option \<Rightarrow> (('p, 'res) barrier \<times> waiter_budget) result" where
  "mk_barrier window workers budget max_inst =
     (if window \<le> 0 then Inl ConfigurationError
      else if (case max_inst of None \<Rightarrow> False | Some n \<Rightarrow> n < 1) then Inl ConfigurationError
      else if (case workers of None \<Rightarrow> False | Some n \<Rightarrow> n < 1) then Inl ConfigurationError
      else
        (let ws = (case workers of None \<Rightarrow> 1 | Some n \<Rightarrow> n);
             mx = (case max_inst of None \<Rightarrow> DEFAULT_MAX_INSTANTS | Some n \<Rightarrow> n)
         in rbind (case budget of None \<Rightarrow> mk_budget (ws - 1) | Some w \<Rightarrow> Inr w) (\<lambda>w.
           Inr (\<lparr>ba_window = window, ba_workers = ws, ba_configured_max = max_inst, ba_max = mx, ba_open = [], ba_objs = (\<lambda>_. new_bucket 0 0), ba_next = 0,
                 ba_recent = [], ba_recent_limit = max 8 (mx * 4), ba_lag = [], ba_lag_next = 0, ba_lag_overwritten = 0, ba_lag_negative = 0,
                 ba_cameras_held = 0, ba_ended = 0, ba_held_max = 0, ba_announced = [], ba_seen = [], ba_not_mine = [], ba_newest = [],
                 ba_backward = [], ba_hooked = False, ba_live = [], ba_waiters = 0, ba_closed = False, ba_instants = [], ba_frames = []\<rparr>, w))))"

section \<open>Ending an instant\<close>

definition on_bucket :: "int \<Rightarrow> (('p, 'res) bucket \<Rightarrow> ('p, 'res) bucket) \<Rightarrow> ('p, 'res) barrier \<Rightarrow> ('p, 'res) barrier" where
  "on_bucket i f b = b\<lparr>ba_objs := (ba_objs b)(i := f (ba_objs b i))\<rparr>"

definition count_event :: "instant_reason \<Rightarrow> ('p, 'res) barrier \<Rightarrow> ('p, 'res) barrier" where
  "count_event r b = b\<lparr>ba_instants := counter_inc r (ba_instants b)\<rparr>"

definition missed :: "instant_reason \<Rightarrow> ('p, 'res) barrier \<Rightarrow> ('p, 'res) barrier" where
  "missed r b = b\<lparr>ba_frames := counter_inc r (ba_frames b)\<rparr>"

definition pop_bucket :: "int \<Rightarrow> ('p, 'res) barrier \<Rightarrow> ('p, 'res) barrier" where
  "pop_bucket i b = b\<lparr>ba_open := filter (\<lambda>j. j \<noteq> i) (ba_open b)\<rparr>"

definition remember :: "int \<Rightarrow> ('p, 'res) barrier \<Rightarrow> ('p, 'res) barrier" where
  "remember i b =
     (let k = ba_objs b i; held = int (length (bk_reported k)); recent = AList.delete i (ba_recent b) @ [(i, (bk_first k, bk_last k))] in
      b\<lparr>ba_cameras_held := ba_cameras_held b + held, ba_ended := ba_ended b + 1, ba_held_max := max (ba_held_max b) held,
        ba_recent := drop (length recent - nat (ba_recent_limit b)) recent\<rparr>)"

definition resolve_bucket :: "int \<Rightarrow> instant_reason \<Rightarrow> 'res option \<Rightarrow> ('p, 'res) barrier \<Rightarrow> ('p, 'res) barrier" where
  "resolve_bucket i reason results = on_bucket i (\<lambda>k. k\<lparr>bk_results := results, bk_reason := reason, bk_done := True\<rparr>)"

text \<open>What \<^verbatim>\<open>close_all\<close>, \<^verbatim>\<open>_retire\<close> and \<^verbatim>\<open>_evict\<close> do to a bucket: it ends without an association.\<close>

definition discard :: "int \<Rightarrow> instant_reason \<Rightarrow> ('p, 'res) barrier \<Rightarrow> ('p, 'res) barrier" where
  "discard i reason b = count_event reason (resolve_bucket i reason None (remember i (pop_bucket i b)))"

datatype 'res submit_result = Outcome instant_reason "'res option" int | Raises err | Parked int

definition close_bucket ::
  "int \<Rightarrow> instant_reason \<Rightarrow> ((string \<times> 'p) list \<Rightarrow> 'res result) \<Rightarrow> ('p, 'res) barrier \<Rightarrow> ('p, 'res) barrier \<times> 'res submit_result" where
  "close_bucket i reason associate b =
     (let b1 = remember i (pop_bucket i b) in
      case associate (bk_entries (ba_objs b1 i)) of
        Inl e \<Rightarrow> (count_event DROPPED_FAILED (resolve_bucket i DROPPED_FAILED None b1), Raises e)
      | Inr results \<Rightarrow> (count_event reason (resolve_bucket i reason (Some results) b1), Outcome reason (Some results) i))"

section \<open>The camera set\<close>

definition refresh_live :: "('p, 'res) barrier \<Rightarrow> ('p, 'res) barrier" where
  "refresh_live b =
     (let b1 = b\<lparr>ba_live := (if ba_hooked b then ba_announced b else ba_seen b)\<rparr> in
      if ba_configured_max b \<noteq> None then b1
      else let mx = max (max DEFAULT_MAX_INSTANTS (int (card (set (ba_announced b) \<union> set (ba_seen b))))) (int (length (ba_open b)) + 1)
           in b1\<lparr>ba_max := mx, ba_recent_limit := max 8 (mx * 4)\<rparr>)"

definition complete_for :: "('p, 'res) barrier \<Rightarrow> int \<Rightarrow> bool" where
  "complete_for b i = list_all (\<lambda>cam. map_of (bk_reported (ba_objs b i)) cam \<noteq> None) (ba_live b)"

definition seal :: "int \<Rightarrow> instant_reason \<Rightarrow> ('p, 'res) barrier \<Rightarrow> ('p, 'res) barrier" where
  "seal i reason = on_bucket i (\<lambda>k. k\<lparr>bk_ready := True, bk_ready_reason := reason\<rparr>)"

definition add_camera :: "string \<Rightarrow> ('p, 'res) barrier \<Rightarrow> ('p, 'res) barrier" where
  "add_camera cam b = refresh_live (b\<lparr>ba_hooked := True, ba_announced := List.insert cam (ba_announced b)\<rparr>)"

definition drop_camera :: "string \<Rightarrow> ('p, 'res) barrier \<Rightarrow> ('p, 'res) barrier" where
  "drop_camera cam b =
     (let b1 = refresh_live (b\<lparr>ba_announced := removeAll cam (ba_announced b), ba_seen := removeAll cam (ba_seen b),
                               ba_newest := AList.delete cam (ba_newest b), ba_backward := AList.delete cam (ba_backward b)\<rparr>)
      in fold (\<lambda>i b. if bk_waiters (ba_objs b i) \<noteq> 0 \<and> \<not> bk_ready (ba_objs b i) \<and> complete_for b i
                     then seal i CLOSED_COMPLETE b else b) (ba_open b1) b1)"

definition silent_cameras :: "('p, 'res) barrier \<Rightarrow> string set" where
  "silent_cameras b = set (ba_announced b) - set (ba_seen b)"

definition note_not_mine :: "string \<Rightarrow> ('p, 'res) barrier \<Rightarrow> ('p, 'res) barrier" where
  "note_not_mine cam b = (missed MISSED_NOT_MINE b)\<lparr>ba_not_mine := List.insert cam (ba_not_mine b)\<rparr>"

definition note_arrival_lag :: "int \<Rightarrow> bool \<Rightarrow> ('p, 'res) barrier \<Rightarrow> ('p, 'res) barrier" where
  "note_arrival_lag lag negative b =
     (let b1 = (if negative then b\<lparr>ba_lag_negative := ba_lag_negative b + 1\<rparr> else b) in
      if int (length (ba_lag b1)) < MAX_LAG_SAMPLES then b1\<lparr>ba_lag := ba_lag b1 @ [lag]\<rparr>
      else b1\<lparr>ba_lag := (ba_lag b1)[nat (ba_lag_next b1) := lag], ba_lag_next := (ba_lag_next b1 + 1) mod MAX_LAG_SAMPLES,
              ba_lag_overwritten := ba_lag_overwritten b1 + 1\<rparr>)"

section \<open>The frame path\<close>

text \<open>\<^verbatim>\<open>_retire\<close>: the oldest bucket has the earliest deadline, so if it has not expired none has.\<close>

definition retire :: "rat \<Rightarrow> ('p, 'res) barrier \<Rightarrow> ('p, 'res) barrier" where
  "retire now b =
     (case ba_open b of
        [] \<Rightarrow> b
      | i # _ \<Rightarrow>
          if bk_deadline (ba_objs b i) > now then b
          else fold (\<lambda>i b. discard i (if bk_ready (ba_objs b i) then bk_ready_reason (ba_objs b i) else DROPPED_EXPIRED) b)
                 (filter (\<lambda>i. bk_waiters (ba_objs b i) = 0 \<and> bk_deadline (ba_objs b i) \<le> now) (ba_open b)) b)"

lemma ending_open [simp]:
  "ba_open (pop_bucket i b) = filter (\<lambda>j. j \<noteq> i) (ba_open b)" "ba_open (remember i b) = ba_open b"
  "ba_open (resolve_bucket i r x b) = ba_open b" "ba_open (count_event r b) = ba_open b" "ba_open (on_bucket i f b) = ba_open b"
  "ba_open (discard i r b) = filter (\<lambda>j. j \<noteq> i) (ba_open b)"
  by (simp_all add: discard_def count_event_def resolve_bucket_def on_bucket_def remember_def pop_bucket_def Let_def)

function evict_instants :: "('p, 'res) barrier \<Rightarrow> ('p, 'res) barrier" where
  "evict_instants b =
     (case ba_open b of
        [] \<Rightarrow> b
      | i # rest \<Rightarrow> if int (length (i # rest)) \<ge> ba_max b then evict_instants (discard i DROPPED_EVICTED b) else b)"
  by pat_completeness auto
termination
  by (relation "measure (\<lambda>b. length (ba_open b))") (auto simp: le_imp_less_Suc)

declare evict_instants.simps [simp del]

definition match_instant :: "rat \<Rightarrow> ('p, 'res) barrier \<Rightarrow> int option" where
  "match_instant capture b =
     List.find (\<lambda>i. \<not> bk_ready (ba_objs b i) \<and> \<not> bk_done (ba_objs b i) \<and> spread_with capture (ba_objs b i) < ba_window b) (rev (ba_open b))"

definition late_instant :: "rat \<Rightarrow> ('p, 'res) barrier \<Rightarrow> int option" where
  "late_instant capture b = map_option fst (List.find (\<lambda>(i, fst', lst). fst' \<le> capture \<and> capture \<le> lst) (rev (ba_recent b)))"

definition open_instant :: "rat \<Rightarrow> rat \<Rightarrow> ('p, 'res) barrier \<Rightarrow> ('p, 'res) barrier \<times> int" where
  "open_instant capture now b =
     (let b1 = evict_instants b; i = ba_next b1 + 1 in
      (b1\<lparr>ba_next := i, ba_objs := (ba_objs b1)(i := new_bucket (now + ba_window b1) capture), ba_open := ba_open b1 @ [i]\<rparr>, i))"

text \<open>Steps of \<^verbatim>\<open>submit\<close>.  A refusal carries the reason and the instant of \<^verbatim>\<open>_missed\<close>.\<close>

definition check_backward ::
  "string \<Rightarrow> rat \<Rightarrow> ('p, 'res) barrier \<Rightarrow> ('p, 'res) barrier \<times> (instant_reason \<times> int + rat option)" where
  "check_backward cam capture b =
     (case map_of (ba_newest b) cam of
        None \<Rightarrow> (b, Inr None)
      | Some newest \<Rightarrow>
          if capture < newest - ba_window b then
            (let refused = (case map_of (ba_backward b) cam of None \<Rightarrow> 0 | Some n \<Rightarrow> n) in
             if refused < BACKWARD_REFUSALS_BEFORE_ADOPTING
             then (b\<lparr>ba_backward := AList.update cam (refused + 1) (ba_backward b)\<rparr>, Inl (MISSED_BACKWARD, 0))
             else (b\<lparr>ba_newest := AList.update cam capture (ba_newest b), ba_backward := AList.delete cam (ba_backward b)\<rparr>, Inr None))
          else (b, Inr (Some newest)))"

definition find_instant ::
  "string \<Rightarrow> rat \<Rightarrow> rat \<Rightarrow> ('p, 'res) barrier \<Rightarrow> ('p, 'res) barrier \<times> (instant_reason \<times> int + int)" where
  "find_instant cam capture now b =
     (case match_instant capture b of
        None \<Rightarrow>
          (case late_instant capture b of
             Some i \<Rightarrow> (b, Inl (MISSED_LATE, i))
           | None \<Rightarrow> (case open_instant capture now b of (b1, i) \<Rightarrow> (b1, Inr i)))
      | Some i \<Rightarrow>
          (case map_of (bk_reported (ba_objs b i)) cam of
             None \<Rightarrow> (b, Inr i)
           | Some own \<Rightarrow>
               if capture \<le> own then (b, Inl (MISSED_DUPLICATE, i))
               else (case open_instant capture now (seal i CLOSED_ADVANCED b) of (b1, j) \<Rightarrow> (b1, Inr j))))"

definition join_instant :: "int \<Rightarrow> string \<Rightarrow> rat \<Rightarrow> 'p \<Rightarrow> rat option \<Rightarrow> ('p, 'res) barrier \<Rightarrow> ('p, 'res) barrier" where
  "join_instant i cam capture payload newest b =
     on_bucket i (\<lambda>k. k\<lparr>bk_reported := AList.update cam capture (bk_reported k), bk_entries := bk_entries k @ [(cam, payload)],
                        bk_first := min (bk_first k) capture, bk_last := max (bk_last k) capture\<rparr>)
       (b\<lparr>ba_backward := AList.delete cam (ba_backward b),
          ba_newest := AList.update cam (case newest of None \<Rightarrow> capture | Some n \<Rightarrow> max n capture) (ba_newest b)\<rparr>)"

text \<open>
  What a thread does when it is past the \<^verbatim>\<open>wait\<close> loop: give the permit back, then take the answer or close the instant.  The last
  branch is the refusal the code keeps for a bucket that left the map unresolved.
\<close>

definition leave_wait ::
  "int \<Rightarrow> ((string \<times> 'p) list \<Rightarrow> 'res result) \<Rightarrow> ('p, 'res) barrier \<Rightarrow> waiter_budget \<Rightarrow> ('p, 'res) barrier \<times> waiter_budget \<times> 'res submit_result" where
  "leave_wait i associate b w =
     (let b1 = on_bucket i (\<lambda>k. k\<lparr>bk_waiters := bk_waiters k - 1\<rparr>) (b\<lparr>ba_waiters := ba_waiters b - 1\<rparr>) in
      case wb_release w of
        Inl e \<Rightarrow> (b1, w, Raises e)
      | Inr w1 \<Rightarrow>
          (let k = ba_objs b1 i in
           if bk_done k then (b1, w1, Outcome (bk_reason k) (bk_results k) i)
           else if i \<in> set (ba_open b1) then
             (case close_bucket i (if bk_ready k then bk_ready_reason k else CLOSED_WINDOW) associate b1 of (b2, r) \<Rightarrow> (b2, w1, r))
           else (missed DROPPED_EXPIRED b1, w1, Outcome DROPPED_EXPIRED None i)))"

definition barrier_wake ::
  "int \<Rightarrow> rat \<Rightarrow> ((string \<times> 'p) list \<Rightarrow> 'res result) \<Rightarrow> ('p, 'res) barrier \<Rightarrow> waiter_budget \<Rightarrow> ('p, 'res) barrier \<times> waiter_budget \<times> 'res submit_result" where
  "barrier_wake i now associate b w =
     (let k = ba_objs b i in
      if \<not> (bk_done k \<or> bk_ready k) \<and> bk_deadline k - now > 0 then (b, w, Parked i) else leave_wait i associate b w)"

definition park ::
  "int \<Rightarrow> rat \<Rightarrow> ((string \<times> 'p) list \<Rightarrow> 'res result) \<Rightarrow> ('p, 'res) barrier \<Rightarrow> waiter_budget \<Rightarrow> ('p, 'res) barrier \<times> waiter_budget \<times> 'res submit_result" where
  "park i later associate b w =
     (if complete_for b i then (case close_bucket i CLOSED_COMPLETE associate b of (b1, r) \<Rightarrow> (b1, w, r))
      else case wb_acquire w of
        (w1, got) \<Rightarrow>
          if \<not> got then (missed MISSED_WOULD_STARVE b, w1, Outcome MISSED_WOULD_STARVE None i)
          else barrier_wake i later associate (on_bucket i (\<lambda>k. k\<lparr>bk_waiters := bk_waiters k + 1\<rparr>) (b\<lparr>ba_waiters := ba_waiters b + 1\<rparr>)) w1)"

text \<open>\<^verbatim>\<open>now\<close> is the reading on entry, \<^verbatim>\<open>later\<close> the first reading of the wait loop.\<close>

definition note_seen :: "string \<Rightarrow> ('p, 'res) barrier \<Rightarrow> ('p, 'res) barrier" where
  "note_seen cam b = (if cam \<in> set (ba_seen b) then b else refresh_live (b\<lparr>ba_seen := ba_seen b @ [cam]\<rparr>))"

definition barrier_submit ::
  "string \<Rightarrow> rat \<Rightarrow> 'p \<Rightarrow> rat \<Rightarrow> rat \<Rightarrow> ((string \<times> 'p) list \<Rightarrow> 'res result) \<Rightarrow> ('p, 'res) barrier \<Rightarrow> waiter_budget \<Rightarrow>
     ('p, 'res) barrier \<times> waiter_budget \<times> 'res submit_result" where
  "barrier_submit cam capture payload now later associate b w =
     (if ba_closed b then (missed DROPPED_SHUTDOWN b, w, Outcome DROPPED_SHUTDOWN None 0)
      else case check_backward cam capture (note_seen cam (retire now b)) of
        (b1, Inl (reason, i)) \<Rightarrow> (missed reason b1, w, Outcome reason None i)
      | (b1, Inr newest) \<Rightarrow>
          (case find_instant cam capture now b1 of
             (b2, Inl (reason, i)) \<Rightarrow> (missed reason b2, w, Outcome reason None i)
           | (b2, Inr i) \<Rightarrow> park i later associate (join_instant i cam capture payload newest b2) w))"

definition close_all :: "instant_reason \<Rightarrow> ('p, 'res) barrier \<Rightarrow> ('p, 'res) barrier \<times> int" where
  "close_all reason b =
     (let b1 = b\<lparr>ba_closed := True\<rparr> in (fold (\<lambda>i. discard i reason) (ba_open b1) b1, int (length (ba_open b1))))"

definition instant_sizes :: "('p, 'res) barrier \<Rightarrow> int \<times> int \<times> int" where
  "instant_sizes b = (ba_cameras_held b, ba_ended b, ba_held_max b)"

definition open_spans :: "('p, 'res) barrier \<Rightarrow> (int \<times> rat \<times> rat) list" where
  "open_spans b = map (\<lambda>i. (i, bk_first (ba_objs b i), bk_last (ba_objs b i))) (ba_open b)"

section \<open>The barrier invariant\<close>

text \<open>Ending a bucket, whatever the reason: the common part of \<^verbatim>\<open>discard\<close> and \<^verbatim>\<open>close_bucket\<close>.\<close>

definition end_bucket :: "int \<Rightarrow> instant_reason \<Rightarrow> 'res option \<Rightarrow> ('p, 'res) barrier \<Rightarrow> ('p, 'res) barrier" where
  "end_bucket i reason results b = count_event reason (resolve_bucket i reason results (remember i (pop_bucket i b)))"

lemma discard_eq: "discard i reason b = end_bucket i reason None b"
  by (simp add: discard_def end_bucket_def)

lemma close_bucket_eq:
  "close_bucket i reason associate b =
     (case associate (bk_entries (ba_objs b i)) of
        Inl e \<Rightarrow> (end_bucket i DROPPED_FAILED None b, Raises e)
      | Inr results \<Rightarrow> (end_bucket i reason (Some results) b, Outcome reason (Some results) i))"
  by (auto simp: close_bucket_def end_bucket_def remember_def pop_bucket_def Let_def split: sum.split)

lemma end_bucket_simps [simp]:
  "ba_open (end_bucket i r x b) = filter (\<lambda>j. j \<noteq> i) (ba_open b)" "ba_window (end_bucket i r x b) = ba_window b"
  "ba_max (end_bucket i r x b) = ba_max b" "ba_next (end_bucket i r x b) = ba_next b" "ba_ended (end_bucket i r x b) = ba_ended b + 1"
  "ba_waiters (end_bucket i r x b) = ba_waiters b" "ba_instants (end_bucket i r x b) = counter_inc r (ba_instants b)"
  "ba_objs (end_bucket i r x b) = (ba_objs b)(i := (ba_objs b i)\<lparr>bk_results := x, bk_reason := r, bk_done := True\<rparr>)"
  "ba_live (end_bucket i r x b) = ba_live b" "ba_closed (end_bucket i r x b) = ba_closed b"
  by (simp_all add: end_bucket_def count_event_def resolve_bucket_def on_bucket_def remember_def pop_bucket_def Let_def)

text \<open>An instant: every camera once, every capture in its span, the span narrower than the window.\<close>

definition bucket_ok :: "rat \<Rightarrow> ('p, 'res) bucket \<Rightarrow> bool" where
  "bucket_ok window k \<longleftrightarrow>
     map fst (bk_entries k) = map fst (bk_reported k) \<and> dict_wf (bk_reported k) \<and>
     (\<forall>(cam, t) \<in> set (bk_reported k). bk_first k \<le> t \<and> t \<le> bk_last k) \<and> bk_first k \<le> bk_last k \<and> bk_last k - bk_first k < window \<and>
     bk_ready_reason k \<noteq> DROPPED_EXPIRED"

text \<open>\<^verbatim>\<open>P\<close> holds, for every thread parked in the barrier, the instant it waits for.\<close>

definition ba_inv :: "int multiset \<Rightarrow> ('p, 'res) barrier \<Rightarrow> bool" where
  "ba_inv P b \<longleftrightarrow>
     0 < ba_window b \<and> 1 \<le> ba_max b \<and> distinct (ba_open b) \<and> int (length (ba_open b)) \<le> ba_max b \<and> 0 \<le> ba_next b \<and>
     (\<forall>i. i \<in> set (ba_open b) \<longleftrightarrow> 1 \<le> i \<and> i \<le> ba_next b \<and> \<not> bk_done (ba_objs b i)) \<and>
     (\<forall>i. bucket_ok (ba_window b) (ba_objs b i)) \<and>
     (\<forall>i. bk_waiters (ba_objs b i) = int (count P i)) \<and> ba_waiters b = int (size P) \<and>
     (\<forall>i \<in># P. 1 \<le> i \<and> i \<le> ba_next b) \<and>
     (\<forall>i. bk_done (ba_objs b i) \<and> bk_reason (ba_objs b i) = DROPPED_EXPIRED \<longrightarrow> i \<notin># P) \<and>
     ba_ended b + int (length (ba_open b)) = ba_next b \<and> counter_total (ba_instants b) = ba_ended b"

lemma ba_invD:
  assumes "ba_inv P b"
  shows "0 < ba_window b" "1 \<le> ba_max b" "distinct (ba_open b)" "int (length (ba_open b)) \<le> ba_max b" "0 \<le> ba_next b"
    "i \<in> set (ba_open b) \<longleftrightarrow> 1 \<le> i \<and> i \<le> ba_next b \<and> \<not> bk_done (ba_objs b i)" "bucket_ok (ba_window b) (ba_objs b i)"
    "bk_waiters (ba_objs b i) = int (count P i)" "i \<in># P \<Longrightarrow> 1 \<le> i \<and> i \<le> ba_next b"
    "bk_done (ba_objs b i) \<Longrightarrow> bk_reason (ba_objs b i) = DROPPED_EXPIRED \<Longrightarrow> i \<notin># P"
    "ba_ended b + int (length (ba_open b)) = ba_next b" "counter_total (ba_instants b) = ba_ended b"
  using assms unfolding ba_inv_def by blast+

text \<open>What other threads may rely on: a bucket keeps its entries and its deadline, and an answered bucket its answer.\<close>

definition keeps :: "('p, 'res) bucket \<Rightarrow> ('p, 'res) bucket \<Rightarrow> bool" where
  "keeps k k' \<longleftrightarrow>
     set (bk_entries k) \<subseteq> set (bk_entries k') \<and> bk_deadline k' = bk_deadline k \<and>
     (bk_done k \<longrightarrow> bk_done k' \<and> bk_results k' = bk_results k \<and> bk_entries k' = bk_entries k)"

definition evolves :: "('p, 'res) barrier \<Rightarrow> ('p, 'res) barrier \<Rightarrow> bool" where
  "evolves b b' \<longleftrightarrow> ba_next b \<le> ba_next b' \<and> ba_window b' = ba_window b \<and> (\<forall>i. i \<le> ba_next b \<longrightarrow> keeps (ba_objs b i) (ba_objs b' i))"

lemma keeps_refl [simp]: "keeps k k"
  by (simp add: keeps_def)

lemma keeps_trans: "keeps k k' \<Longrightarrow> keeps k' k'' \<Longrightarrow> keeps k k''"
  by (auto simp: keeps_def)

lemma evolves_refl [simp]: "evolves b b"
  by (simp add: evolves_def)

lemma evolves_trans: "evolves b b' \<Longrightarrow> evolves b' b'' \<Longrightarrow> evolves b b''"
  by (auto simp: evolves_def intro: keeps_trans)

lemma length_filter_out: "distinct xs \<Longrightarrow> i \<in> set xs \<Longrightarrow> int (length (filter (\<lambda>j. j \<noteq> i) xs)) = int (length xs) - 1"
proof (induction xs)
  case (Cons x xs)
  then show ?case by (cases "x = i") (auto simp: filter_id_conv intro!: arg_cong[where f = length])
qed simp

text \<open>The parts of the state the invariant reads.\<close>

lemma ba_inv_cong:
  assumes "ba_inv P b" and "ba_window b' = ba_window b" "ba_max b' = ba_max b" "ba_open b' = ba_open b" "ba_next b' = ba_next b" "ba_objs b' = ba_objs b"
    and "ba_waiters b' = ba_waiters b" "ba_ended b' = ba_ended b" "ba_instants b' = ba_instants b"
  shows "ba_inv P b'"
  using assms unfolding ba_inv_def by simp

lemma evolves_cong: "ba_window b' = ba_window b \<Longrightarrow> ba_next b' = ba_next b \<Longrightarrow> ba_objs b' = ba_objs b \<Longrightarrow> evolves b b'"
  by (simp add: evolves_def)

lemma end_bucket_inv:
  assumes inv: "ba_inv P b" and i: "i \<in> set (ba_open b)" and e: "r = DROPPED_EXPIRED \<Longrightarrow> i \<notin># P"
  shows "ba_inv P (end_bucket i r x b) \<and> evolves b (end_bucket i r x b)"
proof -
  have f: "int (length (filter (\<lambda>j. j \<noteq> i) (ba_open b))) = int (length (ba_open b)) - 1"
    by (rule length_filter_out[OF ba_invD(3)[OF inv] i])
  have nd: "\<not> bk_done (ba_objs b i)" using ba_invD(6)[OF inv] i by blast
  have ev: "evolves b (end_bucket i r x b)" using nd by (auto simp: evolves_def keeps_def)
  have "ba_inv P (end_bucket i r x b)"
    unfolding ba_inv_def end_bucket_simps f counter_total_simps
  proof (intro conjI allI ballI impI)
    fix j
    show "j \<in> set (filter (\<lambda>j. j \<noteq> i) (ba_open b)) \<longleftrightarrow>
        1 \<le> j \<and> j \<le> ba_next b \<and> \<not> bk_done (((ba_objs b)(i := (ba_objs b i)\<lparr>bk_results := x, bk_reason := r, bk_done := True\<rparr>)) j)"
      using ba_invD(6)[OF inv, of j] by auto
    show "bucket_ok (ba_window b) (((ba_objs b)(i := (ba_objs b i)\<lparr>bk_results := x, bk_reason := r, bk_done := True\<rparr>)) j)"
      using ba_invD(7)[OF inv, of j] by (auto simp: bucket_ok_def)
    show "bk_waiters (((ba_objs b)(i := (ba_objs b i)\<lparr>bk_results := x, bk_reason := r, bk_done := True\<rparr>)) j) = int (count P j)"
      using ba_invD(8)[OF inv, of j] by auto
    assume "bk_done (((ba_objs b)(i := (ba_objs b i)\<lparr>bk_results := x, bk_reason := r, bk_done := True\<rparr>)) j) \<and>
      bk_reason (((ba_objs b)(i := (ba_objs b i)\<lparr>bk_results := x, bk_reason := r, bk_done := True\<rparr>)) j) = DROPPED_EXPIRED"
    then show "j \<notin># P" using ba_invD(10)[OF inv, of j] e by (auto split: if_splits)
  qed (use inv in \<open>auto simp: ba_inv_def\<close>)
  with ev show ?thesis by blast
qed

lemma discard_all:
  assumes "ba_inv P b" and "distinct is" and "set is \<subseteq> set (ba_open b)"
    and "\<And>i b'. i \<in> set is \<Longrightarrow> ba_objs b' i = ba_objs b i \<Longrightarrow> R i b' = DROPPED_EXPIRED \<Longrightarrow> i \<notin># P"
  shows "ba_inv P (fold (\<lambda>i b. discard i (R i b) b) is b) \<and> evolves b (fold (\<lambda>i b. discard i (R i b) b) is b) \<and>
    ba_open (fold (\<lambda>i b. discard i (R i b) b) is b) = filter (\<lambda>i. i \<notin> set is) (ba_open b) \<and>
    ba_next (fold (\<lambda>i b. discard i (R i b) b) is b) = ba_next b"
  using assms
proof (induction "is" arbitrary: b)
  case (Cons i js)
  let ?b = "discard i (R i b) b"
  have 1: "ba_inv P ?b \<and> evolves b ?b"
    unfolding discard_eq by (rule end_bucket_inv) (use Cons.prems in auto)
  have o: "ba_open ?b = filter (\<lambda>j. j \<noteq> i) (ba_open b)" by simp
  have obj: "ba_objs ?b j = ba_objs b j" if "j \<noteq> i" for j using that by (simp add: discard_eq)
  have 2: "ba_inv P (fold (\<lambda>i b. discard i (R i b) b) js ?b) \<and> evolves ?b (fold (\<lambda>i b. discard i (R i b) b) js ?b) \<and>
      ba_open (fold (\<lambda>i b. discard i (R i b) b) js ?b) = filter (\<lambda>i. i \<notin> set js) (ba_open ?b) \<and>
      ba_next (fold (\<lambda>i b. discard i (R i b) b) js ?b) = ba_next ?b"
  proof (rule Cons.IH)
    show "set js \<subseteq> set (ba_open ?b)" using Cons.prems(2,3) by auto
    fix j b' assume "j \<in> set js" "ba_objs b' j = ba_objs ?b j" "R j b' = DROPPED_EXPIRED"
    moreover have "j \<noteq> i" using \<open>j \<in> set js\<close> Cons.prems(2) by auto
    ultimately show "j \<notin># P" using Cons.prems(4)[of j b'] obj by simp
  qed (use 1 Cons.prems in auto)
  have "filter (\<lambda>k. k \<notin> set js) (ba_open ?b) = filter (\<lambda>k. k \<notin> set (i # js)) (ba_open b)"
    unfolding o by (simp add: conj_commute)
  then show ?case using 2 evolves_trans[OF conjunct2[OF 1]] by (simp add: discard_eq)
qed simp

lemma retire_inv:
  assumes "ba_inv P b"
  shows "ba_inv P (retire now b) \<and> evolves b (retire now b)"
proof (cases "ba_open b")
  case (Cons i rest)
  let ?is = "filter (\<lambda>i. bk_waiters (ba_objs b i) = 0 \<and> bk_deadline (ba_objs b i) \<le> now) (ba_open b)"
    and ?R = "\<lambda>i b. if bk_ready (ba_objs b i) then bk_ready_reason (ba_objs b i) else DROPPED_EXPIRED"
  have nobody: "j \<notin># P" if "j \<in> set ?is" for j
    using ba_invD(8)[OF assms, of j] that by (simp add: count_eq_zero_iff)
  have "distinct ?is" "set ?is \<subseteq> set (ba_open b)" using ba_invD(3)[OF assms] by auto
  from discard_all[OF assms this, of ?R] nobody
  have "ba_inv P (fold (\<lambda>i b. discard i (?R i b) b) ?is b) \<and> evolves b (fold (\<lambda>i b. discard i (?R i b) b) ?is b)" by blast
  moreover have "retire now b = (if bk_deadline (ba_objs b i) > now then b else fold (\<lambda>i b. discard i (?R i b) b) ?is b)"
    by (subst retire_def, subst Cons, simp only: list.case)
  ultimately show ?thesis using assms by (cases "now < bk_deadline (ba_objs b i)") simp_all
qed (simp add: retire_def assms)

lemma evict_inv:
  "ba_inv P b \<Longrightarrow>
     ba_inv P (evict_instants b) \<and> evolves b (evict_instants b) \<and> int (length (ba_open (evict_instants b))) < ba_max (evict_instants b) \<and>
     ba_next (evict_instants b) = ba_next b"
proof (induction b rule: evict_instants.induct)
  case (1 b)
  show ?case
  proof (cases "ba_open b")
    case Nil
    then show ?thesis using 1(2) ba_invD(2)[OF 1(2)] by (simp add: evict_instants.simps)
  next
    case (Cons i rest)
    show ?thesis
    proof (cases "int (length (i # rest)) \<ge> ba_max b")
      case True
      let ?b = "discard i DROPPED_EVICTED b"
      have d: "ba_inv P ?b \<and> evolves b ?b" "ba_next ?b = ba_next b"
        unfolding discard_eq by (rule end_bucket_inv[OF 1(2)]) (use Cons in auto)
      have e: "evict_instants b = evict_instants ?b" using Cons True by (subst evict_instants.simps) simp
      show ?thesis using 1(1)[OF Cons True conjunct1[OF d(1)]] d(2) evolves_trans[OF conjunct2[OF d(1)]] unfolding e by auto
    qed (use 1(2) Cons in \<open>simp add: evict_instants.simps\<close>)
  qed
qed

lemma open_instant_inv:
  assumes inv: "ba_inv P b" and o: "open_instant capture now b = (b', i)"
  shows "ba_inv P b' \<and> evolves b b' \<and> i \<in> set (ba_open b') \<and> ba_next b < i \<and> i \<le> ba_next b' \<and>
    bk_reported (ba_objs b' i) = [] \<and> \<not> bk_done (ba_objs b' i) \<and> \<not> bk_ready (ba_objs b' i) \<and> spread_with capture (ba_objs b' i) < ba_window b' \<and>
    bk_deadline (ba_objs b' i) = now + ba_window b \<and> (\<forall>j. j \<le> ba_next b \<longrightarrow> j \<noteq> i)"
proof -
  let ?e = "evict_instants b"
  have e: "ba_inv P ?e" "evolves b ?e" "int (length (ba_open ?e)) < ba_max ?e" "ba_next ?e = ba_next b" using evict_inv[OF inv] by auto
  have b': "i = ba_next ?e + 1"
    "b' = ?e\<lparr>ba_next := i, ba_objs := (ba_objs ?e)(i := new_bucket (now + ba_window ?e) capture), ba_open := ba_open ?e @ [i]\<rparr>"
    using o by (auto simp: open_instant_def Let_def)
  have ni: "i \<notin># P" using ba_invD(9)[OF e(1), of i] b'(1) by auto
  have w: "0 < ba_window ?e" "ba_window ?e = ba_window b" using ba_invD(1)[OF e(1)] e(2) by (auto simp: evolves_def)
  have no: "i \<notin> set (ba_open ?e)" using ba_invD(6)[OF e(1), of i] b'(1) by auto
  have obj: "ba_objs b' j = (if j = i then new_bucket (now + ba_window ?e) capture else ba_objs ?e j)" for j using b' by simp
  have f: "ba_window b' = ba_window ?e" "ba_max b' = ba_max ?e" "ba_open b' = ba_open ?e @ [i]" "ba_next b' = i" "ba_waiters b' = ba_waiters ?e"
    "ba_ended b' = ba_ended ?e" "ba_instants b' = ba_instants ?e" using b' by simp_all
  have nb: "bucket_ok (ba_window ?e) (ba_objs b' i)" using w by (simp add: obj bucket_ok_def new_bucket_def)
  have "ba_inv P b'"
    unfolding ba_inv_def f
  proof (intro conjI allI)
    fix j
    show "j \<in> set (ba_open ?e @ [i]) \<longleftrightarrow> 1 \<le> j \<and> j \<le> i \<and> \<not> bk_done (ba_objs b' j)"
      using ba_invD(6)[OF e(1), of j] ba_invD(5)[OF e(1)] b'(1) by (auto simp: obj new_bucket_def)
    show "bucket_ok (ba_window ?e) (ba_objs b' j)" 
      by (cases "j = i") (use nb in simp, use ba_invD(7)[OF e(1), of j] in \<open>simp add: obj\<close>)
    show "bk_waiters (ba_objs b' j) = int (count P j)"
      using ba_invD(8)[OF e(1), of j] ni by (simp add: obj new_bucket_def count_eq_zero_iff)
    show "bk_done (ba_objs b' j) \<and> bk_reason (ba_objs b' j) = DROPPED_EXPIRED \<longrightarrow> j \<notin># P"
      using ba_invD(10)[OF e(1), of j] by (simp add: obj new_bucket_def)
  qed (use e no b'(1) ba_invD(9)[OF e(1)] in \<open>auto simp: ba_inv_def\<close>)
  moreover have "evolves ?e b'" using b' by (auto simp: evolves_def)
  then have "evolves b b'" using e(2) evolves_trans by blast
  ultimately show ?thesis
    using w e(4) b'(1) f by (auto simp: obj new_bucket_def spread_with_def)
qed

lemma seal_instant_inv:
  assumes "ba_inv P b" and "r \<noteq> DROPPED_EXPIRED"
  shows "ba_inv P (seal i r b) \<and> evolves b (seal i r b)"
proof -
  have f: "ba_window (seal i r b) = ba_window b" "ba_max (seal i r b) = ba_max b" "ba_open (seal i r b) = ba_open b" "ba_next (seal i r b) = ba_next b"
    "ba_waiters (seal i r b) = ba_waiters b" "ba_ended (seal i r b) = ba_ended b" "ba_instants (seal i r b) = ba_instants b"
    by (simp_all add: seal_def on_bucket_def)
  have obj: "ba_objs (seal i r b) j = (if j = i then (ba_objs b i)\<lparr>bk_ready := True, bk_ready_reason := r\<rparr> else ba_objs b j)" for j
    by (simp add: seal_def on_bucket_def)
  have "ba_inv P (seal i r b)"
    using assms unfolding ba_inv_def f obj by (auto simp: bucket_ok_def)
  then show ?thesis by (auto simp: evolves_def keeps_def f obj)
qed

lemma refresh_live_inv:
  assumes "ba_inv P b"
  shows "ba_inv P (refresh_live b) \<and> evolves b (refresh_live b)"
  using assms by (auto simp: ba_inv_def refresh_live_def evolves_def Let_def DEFAULT_MAX_INSTANTS_def)

lemma note_seen_inv:
  assumes "ba_inv P b"
  shows "ba_inv P (note_seen cam b) \<and> evolves b (note_seen cam b)"
proof -
  let ?b = "b\<lparr>ba_seen := ba_seen b @ [cam]\<rparr>"
  have "ba_inv P ?b" "evolves b ?b" by (rule ba_inv_cong[OF assms], simp_all add: evolves_def)
  then show ?thesis using refresh_live_inv[of P ?b] assms evolves_trans by (auto simp: note_seen_def)
qed

lemma check_backward_inv:
  assumes "ba_inv P b" and "check_backward cam capture b = (b', r)"
  shows "ba_inv P b' \<and> evolves b b' \<and> (\<forall>reason i. r = Inl (reason, i) \<longrightarrow> reason = MISSED_BACKWARD)"
proof -
  have k: "ba_inv P (b\<lparr>ba_backward := x\<rparr>)" "ba_inv P (b\<lparr>ba_newest := y, ba_backward := x\<rparr>)" for x y by (rule ba_inv_cong[OF assms(1)]; simp)+
  have e: "evolves b (b\<lparr>ba_backward := x\<rparr>)" "evolves b (b\<lparr>ba_newest := y, ba_backward := x\<rparr>)" "evolves b b" for x y by (rule evolves_cong; simp)+
  show ?thesis using assms(2) k e assms(1)
    by (auto simp: check_backward_def Let_def simp del: evolves_refl split: option.splits if_splits)
qed

lemma missed_inv: "ba_inv P b \<Longrightarrow> ba_inv P (missed r b) \<and> evolves b (missed r b)"
  by (simp add: ba_inv_def missed_def evolves_def)

lemma find_instant_inv:
  assumes inv: "ba_inv P b" and f: "find_instant cam capture now b = (b', r)"
  shows "ba_inv P b' \<and> evolves b b' \<and>
    (case r of
       Inl (reason, i) \<Rightarrow> reason = MISSED_LATE \<or> reason = MISSED_DUPLICATE
     | Inr i \<Rightarrow> i \<in> set (ba_open b') \<and> map_of (bk_reported (ba_objs b' i)) cam = None \<and> spread_with capture (ba_objs b' i) < ba_window b' \<and>
         (i \<le> ba_next b \<or> bk_deadline (ba_objs b' i) = now + ba_window b))"
proof (cases "match_instant capture b")
  case None
  show ?thesis
  proof (cases "late_instant capture b")
    case n: None
    obtain b1 i where o: "open_instant capture now b = (b1, i)" by (rule prod.exhaust)
    show ?thesis using open_instant_inv[OF inv o] f None n o by (auto simp: find_instant_def)
  qed (use f None inv in \<open>auto simp: find_instant_def\<close>)
next
  case (Some i)
  then obtain n where n: "n < length (rev (ba_open b))" "i = rev (ba_open b) ! n" and sp: "spread_with capture (ba_objs b i) < ba_window b"
    by (auto simp: match_instant_def find_Some_iff)
  have "i \<in> set (rev (ba_open b))" unfolding n(2) using n(1) by (rule nth_mem)
  then have io: "i \<in> set (ba_open b)" by simp
  show ?thesis
  proof (cases "map_of (bk_reported (ba_objs b i)) cam")
    case None
    then show ?thesis using f Some inv io sp ba_invD(6)[OF inv, of i] by (auto simp: find_instant_def)
  next
    case own: (Some t)
    obtain b1 j where o: "open_instant capture now (seal i CLOSED_ADVANCED b) = (b1, j)" by (rule prod.exhaust)
    have s: "ba_inv P (seal i CLOSED_ADVANCED b)" "evolves b (seal i CLOSED_ADVANCED b)" using seal_instant_inv[OF inv] by auto
    have w: "ba_window (seal i CLOSED_ADVANCED b) = ba_window b" by (simp add: seal_def on_bucket_def)
    show ?thesis using open_instant_inv[OF s(1) o] evolves_trans[OF s(2)] inv f Some own o w by (auto simp: find_instant_def split: if_splits)
  qed
qed

lemma join_inv:
  assumes inv: "ba_inv P b" and i: "i \<in> set (ba_open b)" and new: "map_of (bk_reported (ba_objs b i)) cam = None"
    and sp: "spread_with capture (ba_objs b i) < ba_window b"
  shows "ba_inv P (join_instant i cam capture payload newest b) \<and> evolves b (join_instant i cam capture payload newest b) \<and>
    i \<in> set (ba_open (join_instant i cam capture payload newest b)) \<and>
    (cam, payload) \<in> set (bk_entries (ba_objs (join_instant i cam capture payload newest b) i)) \<and>
    ba_next (join_instant i cam capture payload newest b) = ba_next b"
proof -
  let ?b = "join_instant i cam capture payload newest b"
  have f: "ba_window ?b = ba_window b" "ba_max ?b = ba_max b" "ba_open ?b = ba_open b" "ba_next ?b = ba_next b"
    "ba_waiters ?b = ba_waiters b" "ba_ended ?b = ba_ended b" "ba_instants ?b = ba_instants b"
    by (simp_all add: join_instant_def on_bucket_def)
  have obj: "ba_objs ?b j = (if j = i then (ba_objs b i)\<lparr>bk_reported := AList.update cam capture (bk_reported (ba_objs b i)),
      bk_entries := bk_entries (ba_objs b i) @ [(cam, payload)], bk_first := min (bk_first (ba_objs b i)) capture,
      bk_last := max (bk_last (ba_objs b i)) capture\<rparr> else ba_objs b j)" for j
    by (simp add: join_instant_def on_bucket_def)
  have nd: "\<not> bk_done (ba_objs b i)" using ba_invD(6)[OF inv, of i] i by blast
  have ok: "bucket_ok (ba_window b) (ba_objs b i)" by (rule ba_invD(7)[OF inv])
  have nk: "cam \<notin> fst ` set (bk_reported (ba_objs b i))" using new by (simp add: map_of_eq_None_iff)
  have "bucket_ok (ba_window b) (ba_objs ?b i)"
    unfolding bucket_ok_def
  proof (intro conjI)
    show "map fst (bk_entries (ba_objs ?b i)) = map fst (bk_reported (ba_objs ?b i))"
      using ok nk by (simp add: obj bucket_ok_def dict_keys_update)
    show "\<forall>(c, t) \<in> set (bk_reported (ba_objs ?b i)). bk_first (ba_objs ?b i) \<le> t \<and> t \<le> bk_last (ba_objs ?b i)"
      using ok dict_mem_update[of "bk_reported (ba_objs b i)"] by (auto simp: obj bucket_ok_def min_le_iff_disj le_max_iff_disj split: if_splits)
  qed (use ok sp in \<open>auto simp: obj bucket_ok_def spread_with_def\<close>)
  then have "bucket_ok (ba_window b) (ba_objs ?b j)" for j
    using ba_invD(7)[OF inv, of j] by (cases "j = i") (simp_all add: obj)
  then have "ba_inv P ?b" using inv unfolding ba_inv_def f by (auto simp: obj)
  then show ?thesis using i nd by (auto simp: evolves_def keeps_def f obj)
qed

text \<open>A thread starts and stops waiting.\<close>

definition waiters_by :: "int \<Rightarrow> int \<Rightarrow> ('p, 'res) barrier \<Rightarrow> ('p, 'res) barrier" where
  "waiters_by i d b = on_bucket i (\<lambda>k. k\<lparr>bk_waiters := bk_waiters k + d\<rparr>) (b\<lparr>ba_waiters := ba_waiters b + d\<rparr>)"

lemma waiters_by_simps [simp]:
  "ba_window (waiters_by i d b) = ba_window b" "ba_max (waiters_by i d b) = ba_max b" "ba_open (waiters_by i d b) = ba_open b"
  "ba_next (waiters_by i d b) = ba_next b" "ba_waiters (waiters_by i d b) = ba_waiters b + d" "ba_ended (waiters_by i d b) = ba_ended b"
  "ba_instants (waiters_by i d b) = ba_instants b" 
  "ba_objs (waiters_by i d b) j = (if j = i then (ba_objs b i)\<lparr>bk_waiters := bk_waiters (ba_objs b i) + d\<rparr> else ba_objs b j)"
  by (simp_all add: waiters_by_def on_bucket_def)

lemma start_waiting_inv:
  assumes inv: "ba_inv P b" and i: "i \<in> set (ba_open b)"
  shows "ba_inv (add_mset i P) (waiters_by i 1 b) \<and> evolves b (waiters_by i 1 b)"
proof -
  have nd: "1 \<le> i \<and> i \<le> ba_next b \<and> \<not> bk_done (ba_objs b i)" using ba_invD(6)[OF inv, of i] i by blast
  show ?thesis using inv nd by (auto simp: ba_inv_def bucket_ok_def evolves_def keeps_def)
qed

lemma stop_waiting_inv:
  assumes inv: "ba_inv P b" and i: "i \<in># P"
  shows "ba_inv (P - {#i#}) (waiters_by i (- 1) b) \<and> evolves b (waiters_by i (- 1) b)"
proof -
  obtain Q where P: "P = add_mset i Q" using i by (metis insert_DiffM)
  show ?thesis using inv unfolding P by (auto simp: ba_inv_def bucket_ok_def evolves_def keeps_def)
qed

text \<open>The budget, when \<^verbatim>\<open>n\<close> threads are parked.\<close>

definition wb_ok :: "nat \<Rightarrow> waiter_budget \<Rightarrow> bool" where
  "wb_ok n w \<longleftrightarrow> wb_held w = int n \<and> wb_value w = wb_permits w - int n \<and> 0 \<le> wb_value w"

text \<open>What a thread whose frame is in instant \<^verbatim>\<open>i\<close> may be told.\<close>

definition told_ok :: "('p, 'res) barrier \<Rightarrow> int \<Rightarrow> ((string \<times> 'p) list \<Rightarrow> 'res result) \<Rightarrow> 'res submit_result \<Rightarrow> bool" where
  "told_ok b i associate r \<longleftrightarrow> (case r of
     Outcome reason x j \<Rightarrow> j = i \<and> reason \<noteq> DROPPED_EXPIRED \<and> (\<forall>res. x = Some res \<longrightarrow> bk_done (ba_objs b i) \<and> bk_results (ba_objs b i) = Some res)
   | Raises e \<Rightarrow> \<exists>entries. associate entries = Inl e
   | Parked j \<Rightarrow> False)"

lemma close_told:
  assumes inv: "ba_inv P b" and i: "i \<in> set (ba_open b)" and r: "reason \<noteq> DROPPED_EXPIRED" and c: "close_bucket i reason associate b = (b', res)"
  shows "ba_inv P b' \<and> evolves b b' \<and> told_ok b' i associate res"
proof (cases "associate (bk_entries (ba_objs b i))")
  case (Inl e)
  then show ?thesis using c end_bucket_inv[OF inv i, of DROPPED_FAILED None] by (auto simp: close_bucket_eq told_ok_def)
next
  case (Inr x)
  then show ?thesis using c end_bucket_inv[OF inv i, of reason "Some x"] r by (auto simp: close_bucket_eq told_ok_def)
qed

lemma wake_inv:
  assumes inv: "ba_inv P b" and i: "i \<in># P" and w: "wb_ok (Suc n) w" and s: "barrier_wake i now associate b w = (b', w', r)"
  shows "(r = Parked i \<and> b' = b \<and> w' = w \<and> now < bk_deadline (ba_objs b i)) \<or>
    (ba_inv (P - {#i#}) b' \<and> evolves b b' \<and> wb_ok n w' \<and> wb_permits w' = wb_permits w \<and> told_ok b' i associate r)"
proof (cases "\<not> (bk_done (ba_objs b i) \<or> bk_ready (ba_objs b i)) \<and> bk_deadline (ba_objs b i) - now > 0")
  case True
  then show ?thesis using s by (simp add: barrier_wake_def)
next
  case False
  let ?b = "waiters_by i (- 1) b" and ?w = "w\<lparr>wb_value := wb_value w + 1, wb_held := wb_held w - 1\<rparr>"
  have u: "ba_inv (P - {#i#}) ?b" "evolves b ?b" using stop_waiting_inv[OF inv i] by auto
  have rel: "wb_release w = Inr ?w" "wb_ok n ?w" "wb_permits ?w = wb_permits w" using w by (auto simp: wb_ok_def wb_release_def)
  have l: "leave_wait i associate b w = (b', w', r)" using s False by (auto simp: barrier_wake_def Let_def split: if_splits)
  have k: "1 \<le> i" "i \<le> ba_next b" using ba_invD(9)[OF inv i] by auto
  have lw: "on_bucket i (\<lambda>k. k\<lparr>bk_waiters := bk_waiters k - 1\<rparr>) (b\<lparr>ba_waiters := ba_waiters b - 1\<rparr>) = ?b" by (simp add: waiters_by_def)
  note l' = l[unfolded leave_wait_def lw rel Let_def sum.case]
  show ?thesis
  proof (cases "bk_done (ba_objs ?b i)")
    case True
    have "b' = ?b \<and> w' = ?w \<and> r = Outcome (bk_reason (ba_objs ?b i)) (bk_results (ba_objs ?b i)) i"
      using l' True by (auto simp del: waiters_by_simps(8))
    moreover have "bk_reason (ba_objs ?b i) \<noteq> DROPPED_EXPIRED" using ba_invD(10)[OF inv, of i] True i by auto
    ultimately show ?thesis using u rel True by (auto simp: told_ok_def)
  next
    case nd: False
    then have o: "i \<in> set (ba_open ?b)" using ba_invD(6)[OF u(1), of i] k by simp
    obtain b2 r2 where c: "close_bucket i (if bk_ready (ba_objs ?b i) then bk_ready_reason (ba_objs ?b i) else CLOSED_WINDOW) associate ?b = (b2, r2)"
      by (rule prod.exhaust)
    have "b' = b2 \<and> w' = ?w \<and> r = r2"
      using l' nd o c by (auto simp del: waiters_by_simps(8))
    moreover have "(if bk_ready (ba_objs ?b i) then bk_ready_reason (ba_objs ?b i) else CLOSED_WINDOW) \<noteq> DROPPED_EXPIRED"
      using ba_invD(7)[OF u(1), of i] by (simp add: bucket_ok_def)
    ultimately show ?thesis using close_told[OF u(1) o _ c] u(2) rel evolves_trans by blast
  qed
qed

text \<open>What the frame of a camera may be told: an answer is the answer of an instant the frame is an entry of.\<close>

definition frame_told :: "('p, 'res) barrier \<Rightarrow> string \<Rightarrow> 'p \<Rightarrow> ((string \<times> 'p) list \<Rightarrow> 'res result) \<Rightarrow> 'res submit_result \<Rightarrow> bool" where
  "frame_told b cam payload associate r \<longleftrightarrow> (case r of
     Outcome reason x j \<Rightarrow> reason \<noteq> DROPPED_EXPIRED \<and>
       (\<forall>res. x = Some res \<longrightarrow> j \<le> ba_next b \<and> bk_done (ba_objs b j) \<and> bk_results (ba_objs b j) = Some res \<and> (cam, payload) \<in> set (bk_entries (ba_objs b j)))
   | Raises e \<Rightarrow> \<exists>entries. associate entries = Inl e
   | Parked j \<Rightarrow> False)"

lemma frame_told_evolves: "frame_told b cam payload f r \<Longrightarrow> evolves b b' \<Longrightarrow> frame_told b' cam payload f r"
  by (auto simp: frame_told_def evolves_def keeps_def split: submit_result.splits)

lemma told_frame:
  "told_ok b i f r \<Longrightarrow> i \<le> ba_next b \<Longrightarrow> (cam, payload) \<in> set (bk_entries (ba_objs b i)) \<Longrightarrow> frame_told b cam payload f r"
  by (auto simp: frame_told_def told_ok_def split: submit_result.splits)

lemma evolves_entry: "evolves b b' \<Longrightarrow> i \<le> ba_next b \<Longrightarrow> x \<in> set (bk_entries (ba_objs b i)) \<Longrightarrow> i \<le> ba_next b' \<and> x \<in> set (bk_entries (ba_objs b' i))"
  by (auto simp: evolves_def keeps_def)

lemma park_inv:
  assumes inv: "ba_inv P b" and i: "i \<in> set (ba_open b)" and en: "(cam, payload) \<in> set (bk_entries (ba_objs b i))" and w: "wb_ok n w"
    and s: "park i later associate b w = (b', w', r)"
  shows "evolves b b' \<and> wb_permits w' = wb_permits w \<and>
    (r = Parked i \<and> ba_inv (add_mset i P) b' \<and> wb_ok (Suc n) w' \<or> ba_inv P b' \<and> wb_ok n w' \<and> frame_told b' cam payload associate r)"
proof -
  have k: "i \<le> ba_next b" using ba_invD(6)[OF inv, of i] i by blast
  show ?thesis
  proof (cases "complete_for b i")
    case True
    obtain b1 r1 where c: "close_bucket i CLOSED_COMPLETE associate b = (b1, r1)" by (rule prod.exhaust)
    have "b' = b1 \<and> w' = w \<and> r = r1" using s True c by (simp add: park_def)
    moreover have ct: "ba_inv P b1 \<and> evolves b b1 \<and> told_ok b1 i associate r1" by (rule close_told[OF inv i _ c]) simp
    moreover have "frame_told b1 cam payload associate r1"
      using told_frame[of b1 i associate r1] evolves_entry[of b b1, OF _ k en] ct by simp
    ultimately show ?thesis using w by simp
  next
    case False
    show ?thesis
    proof (cases "wb_value w \<le> 0")
      case True
      then have "b' = missed MISSED_WOULD_STARVE b \<and> w' = w \<and> r = Outcome MISSED_WOULD_STARVE None i" using s False by (simp add: park_def wb_acquire_def)
      then show ?thesis using missed_inv[OF inv] w by (auto simp: frame_told_def)
    next
      case v: False
      let ?w = "w\<lparr>wb_value := wb_value w - 1, wb_held := wb_held w + 1\<rparr>"
      have w1: "wb_ok (Suc n) ?w" "wb_permits ?w = wb_permits w" using w v by (auto simp: wb_ok_def)
      have b1: "ba_inv (add_mset i P) (waiters_by i 1 b)" "evolves b (waiters_by i 1 b)" using start_waiting_inv[OF inv i] by auto
      have bw: "barrier_wake i later associate (waiters_by i 1 b) ?w = (b', w', r)"
        using s False v by (simp add: park_def wb_acquire_def waiters_by_def)
      from wake_inv[OF b1(1) _ w1(1) bw] consider "r = Parked i" "b' = waiters_by i 1 b" "w' = ?w"
        | "ba_inv P b'" "evolves (waiters_by i 1 b) b'" "wb_ok n w'" "wb_permits w' = wb_permits ?w" "told_ok b' i associate r" by auto
      then show ?thesis
      proof cases
        case 1
        then show ?thesis using b1 w1 by auto
      next
        case 2
        then have e: "evolves b b'" using b1(2) evolves_trans by blast
        have "frame_told b' cam payload associate r"
          using told_frame[OF 2(5)] evolves_entry[OF e k en] by simp
        then show ?thesis using 2 e w1(2) by simp
      qed
    qed
  qed
qed

lemma fold_discard_next: "ba_next (fold (\<lambda>i b. discard i (R i b) b) is b) = ba_next b"
  by (induction "is" arbitrary: b) (auto simp: discard_eq)

lemma retire_next: "ba_next (retire now b) = ba_next b"
  by (simp add: retire_def fold_discard_next split: list.split)

lemma note_seen_next: "ba_next (note_seen cam b) = ba_next b"
  by (simp add: note_seen_def refresh_live_def Let_def)

lemma check_backward_next: "check_backward cam capture b = (b', r) \<Longrightarrow> ba_next b' = ba_next b"
  by (auto simp: check_backward_def Let_def split: option.splits if_splits)

lemma submit_inv:
  assumes inv: "ba_inv P b" and w: "wb_ok n w" and s: "barrier_submit cam capture payload now later associate b w = (b', w', r)"
  shows "evolves b b' \<and> wb_permits w' = wb_permits w \<and>
    ((\<exists>i. r = Parked i \<and> ba_inv (add_mset i P) b' \<and> wb_ok (Suc n) w' \<and> i \<le> ba_next b' \<and> (cam, payload) \<in> set (bk_entries (ba_objs b' i)) \<and>
        (i \<le> ba_next b \<or> bk_deadline (ba_objs b' i) = now + ba_window b)) \<or>
     ba_inv P b' \<and> wb_ok n w' \<and> frame_told b' cam payload associate r)"
proof (cases "ba_closed b")
  case True
  then show ?thesis using s missed_inv[OF inv] w by (auto simp: barrier_submit_def frame_told_def)
next
  case False
  let ?b = "note_seen cam (retire now b)"
  have b0: "ba_inv P ?b" "evolves b ?b" using retire_inv[OF inv] note_seen_inv evolves_trans by blast+
  obtain b1 r1 where c: "check_backward cam capture ?b = (b1, r1)" by (rule prod.exhaust)
  have b1: "ba_inv P b1" "evolves b b1" using check_backward_inv[OF b0(1) c] b0(2) evolves_trans by blast+
  show ?thesis
  proof (cases r1)
    case (Inl q)
    obtain reason j where q: "q = (reason, j)" by (rule prod.exhaust)
    have "b' = missed reason b1 \<and> w' = w \<and> r = Outcome reason None j" using s False c Inl q by (simp add: barrier_submit_def)
    moreover have "reason \<noteq> DROPPED_EXPIRED" using check_backward_inv[OF b0(1) c] Inl q by auto
    ultimately show ?thesis using missed_inv[OF b1(1)] b1(2) evolves_trans w by (auto simp: frame_told_def)
  next
    case (Inr newest)
    obtain b2 r2 where f: "find_instant cam capture now b1 = (b2, r2)" by (rule prod.exhaust)
    note fi = find_instant_inv[OF b1(1) f]
    have b2: "ba_inv P b2" "evolves b b2" using fi b1(2) evolves_trans by blast+
    show ?thesis
    proof (cases r2)
      case (Inl q)
      obtain reason j where q: "q = (reason, j)" by (rule prod.exhaust)
      have "b' = missed reason b2 \<and> w' = w \<and> r = Outcome reason None j" using s False c Inl q Inr f by (simp add: barrier_submit_def)
      moreover have "reason \<noteq> DROPPED_EXPIRED" using fi Inl q by auto
      ultimately show ?thesis using missed_inv[OF b2(1)] b2(2) evolves_trans w by (auto simp: frame_told_def)
    next
      case r2: (Inr i)
      let ?j = "join_instant i cam capture payload newest b2"
      have i: "i \<in> set (ba_open b2)" "map_of (bk_reported (ba_objs b2 i)) cam = None" "spread_with capture (ba_objs b2 i) < ba_window b2"
        "i \<le> ba_next b1 \<or> bk_deadline (ba_objs b2 i) = now + ba_window b1" using fi r2 by auto
      have j: "ba_inv P ?j" "evolves b2 ?j" "i \<in> set (ba_open ?j)" "(cam, payload) \<in> set (bk_entries (ba_objs ?j i))" "ba_next ?j = ba_next b2"
        using join_inv[OF b2(1) i(1-3), of payload newest] by auto
      have p: "park i later associate ?j w = (b', w', r)" using s False c Inr f r2 by (simp add: barrier_submit_def)
      note pk = park_inv[OF j(1,3,4) w p]
      have e: "evolves b b'" using pk b2(2) j(2) evolves_trans by blast
      have io: "i \<le> ba_next ?j" using ba_invD(6)[OF j(1), of i] j(3) by blast
      have en: "i \<le> ba_next b' \<and> (cam, payload) \<in> set (bk_entries (ba_objs b' i))" using pk evolves_entry[OF _ io j(4)] by blast
      have wn: "ba_window b1 = ba_window b" using b1(2) by (simp add: evolves_def)
      have n1: "ba_next b1 = ba_next b" 
        using retire_next[of now b] note_seen_next[of cam "retire now b"] check_backward_next[OF c] by simp
      have "evolves b2 b'" using pk j(2) evolves_trans by blast
      then have "bk_deadline (ba_objs b' i) = bk_deadline (ba_objs b2 i)" using io j(5) by (auto simp: evolves_def keeps_def)
      then have "i \<le> ba_next b \<or> bk_deadline (ba_objs b' i) = now + ba_window b" using i(4) wn n1 by auto
      then show ?thesis using pk e en by blast
    qed
  qed
qed

lemma seal_all:
  assumes "ba_inv P b"
  shows "ba_inv P (fold (\<lambda>i b. if Q i b then seal i CLOSED_COMPLETE b else b) is b) \<and>
    evolves b (fold (\<lambda>i b. if Q i b then seal i CLOSED_COMPLETE b else b) is b)"
  using assms
proof (induction "is" arbitrary: b)
  case (Cons i js)
  have "ba_inv P (if Q i b then seal i CLOSED_COMPLETE b else b) \<and> evolves b (if Q i b then seal i CLOSED_COMPLETE b else b)"
    using seal_instant_inv[OF Cons.prems, of CLOSED_COMPLETE i] Cons.prems by auto
  then show ?case using Cons.IH evolves_trans by fastforce
qed simp

lemma lifecycle_inv:
  assumes "ba_inv P b"
  shows "ba_inv P (add_camera cam b) \<and> evolves b (add_camera cam b)" "ba_inv P (drop_camera cam b) \<and> evolves b (drop_camera cam b)"
    "ba_inv P (note_not_mine cam b) \<and> evolves b (note_not_mine cam b)" "ba_inv P (note_arrival_lag lag neg b) \<and> evolves b (note_arrival_lag lag neg b)"
proof -
  let ?a = "b\<lparr>ba_hooked := True, ba_announced := List.insert cam (ba_announced b)\<rparr>"
  have "ba_inv P ?a" "evolves b ?a" by (rule ba_inv_cong[OF assms], simp_all add: evolves_def)
  then show "ba_inv P (add_camera cam b) \<and> evolves b (add_camera cam b)"
    using refresh_live_inv[of P ?a] evolves_trans by (auto simp: add_camera_def)
  let ?d = "b\<lparr>ba_announced := removeAll cam (ba_announced b), ba_seen := removeAll cam (ba_seen b),
             ba_newest := AList.delete cam (ba_newest b), ba_backward := AList.delete cam (ba_backward b)\<rparr>"
  have "ba_inv P ?d" "evolves b ?d" by (rule ba_inv_cong[OF assms], simp_all add: evolves_def)
  then have r: "ba_inv P (refresh_live ?d)" "evolves b (refresh_live ?d)" using refresh_live_inv[of P ?d] evolves_trans by auto
  note s = seal_all[OF r(1), of "\<lambda>i b. bk_waiters (ba_objs b i) \<noteq> 0 \<and> \<not> bk_ready (ba_objs b i) \<and> complete_for b i" "ba_open (refresh_live ?d)"]
  show "ba_inv P (drop_camera cam b) \<and> evolves b (drop_camera cam b)"
    unfolding drop_camera_def Let_def by (rule conjI[OF conjunct1[OF s] evolves_trans[OF r(2) conjunct2[OF s]]])
  show "ba_inv P (note_not_mine cam b) \<and> evolves b (note_not_mine cam b)"
    using assms by (simp add: ba_inv_def note_not_mine_def missed_def evolves_def)
  show "ba_inv P (note_arrival_lag lag neg b) \<and> evolves b (note_arrival_lag lag neg b)"
    using assms by (simp add: ba_inv_def note_arrival_lag_def evolves_def Let_def)
qed

lemma close_all_inv:
  assumes "ba_inv P b" and "reason \<noteq> DROPPED_EXPIRED"
  shows "ba_inv P (fst (close_all reason b)) \<and> evolves b (fst (close_all reason b)) \<and> ba_open (fst (close_all reason b)) = []"
proof -
  define c where "c = b\<lparr>ba_closed := True\<rparr>"
  define d where "d = fold (\<lambda>i. discard i reason) (ba_open c) c"
  have c: "ba_inv P c" "evolves b c" unfolding c_def by (rule ba_inv_cong[OF assms(1)], simp_all add: evolves_def)
  have o: "distinct (ba_open c)" using ba_invD(3)[OF c(1)] .
  from discard_all[OF c(1) o subset_refl, of "\<lambda>_ _. reason"] assms(2)
  have "ba_inv P d" "evolves c d" "ba_open d = []" by (simp_all add: d_def)
  moreover have "fst (close_all reason b) = d" by (simp add: close_all_def Let_def c_def d_def)
  ultimately show ?thesis using evolves_trans[OF c(2)] by simp
qed

section \<open>A process: several barriers, one budget\<close>

text \<open>
  A chain may hold two groups of cameras, hence two barriers that draw on one budget.  \<^verbatim>\<open>ha_parked\<close> are the pipeline workers inside a
  \<^verbatim>\<open>wait\<close>, \<^verbatim>\<open>ha_told\<close> what every \<^verbatim>\<open>submit\<close> returned or raised, \<^verbatim>\<open>ha_clock\<close> the latest reading of the clock.
\<close>

type_synonym ('p, 'res) association = "(string \<times> 'p) list \<Rightarrow> 'res result"

record ('p, 'res) waiting =
  th_barrier :: nat
  th_instant :: int
  th_cam :: string
  th_payload :: 'p
  th_since :: rat
  th_assoc :: "('p, 'res) association"

record ('p, 'res) hall =
  ha_barriers :: "('p, 'res) barrier list"
  ha_budget :: waiter_budget
  ha_parked :: "('p, 'res) waiting list"
  ha_told :: "(nat \<times> string \<times> 'p \<times> ('p, 'res) association \<times> 'res submit_result) list"
  ha_clock :: rat

datatype ('p, 'res) hall_op =
    Submit nat string rat 'p rat rat "('p, 'res) association"
  | Wake nat rat
  | Announce nat string
  | Forget nat string
  | Shutdown nat
  | Foreign nat string
  | Lag nat int bool

definition on_barrier :: "nat \<Rightarrow> (('p, 'res) barrier \<Rightarrow> ('p, 'res) barrier) \<Rightarrow> ('p, 'res) hall \<Rightarrow> ('p, 'res) hall" where
  "on_barrier k f s = (if k < length (ha_barriers s) then s\<lparr>ha_barriers := (ha_barriers s)[k := f (ha_barriers s ! k)]\<rparr> else s)"

fun hall_step :: "('p, 'res) hall \<Rightarrow> ('p, 'res) hall_op \<Rightarrow> ('p, 'res) hall" where
  "hall_step s (Submit k cam capture payload now later f) =
     (if k < length (ha_barriers s) then
        (case barrier_submit cam capture payload now later f (ha_barriers s ! k) (ha_budget s) of
           (b, w, r) \<Rightarrow>
             (let s1 = s\<lparr>ha_barriers := (ha_barriers s)[k := b], ha_budget := w, ha_clock := later\<rparr> in
              case r of
                Parked i \<Rightarrow> s1\<lparr>ha_parked := ha_parked s @ [\<lparr>th_barrier = k, th_instant = i, th_cam = cam, th_payload = payload, th_since = now, th_assoc = f\<rparr>]\<rparr>
              | _ \<Rightarrow> s1\<lparr>ha_told := ha_told s @ [(k, cam, payload, f, r)]\<rparr>))
      else s)"
| "hall_step s (Wake j now) =
     (if j < length (ha_parked s) then
        (let t = ha_parked s ! j; k = th_barrier t in
         case barrier_wake (th_instant t) now (th_assoc t) (ha_barriers s ! k) (ha_budget s) of
           (b, w, r) \<Rightarrow>
             (let s1 = s\<lparr>ha_barriers := (ha_barriers s)[k := b], ha_budget := w, ha_clock := now\<rparr> in
              case r of
                Parked i \<Rightarrow> s1
              | _ \<Rightarrow> s1\<lparr>ha_parked := take j (ha_parked s) @ drop (Suc j) (ha_parked s),
                        ha_told := ha_told s @ [(k, th_cam t, th_payload t, th_assoc t, r)]\<rparr>))
      else s)"
| "hall_step s (Announce k cam) = on_barrier k (add_camera cam) s"
| "hall_step s (Forget k cam) = on_barrier k (drop_camera cam) s"
| "hall_step s (Shutdown k) = on_barrier k (\<lambda>b. fst (close_all DROPPED_SHUTDOWN b)) s"
| "hall_step s (Foreign k cam) = on_barrier k (note_not_mine cam) s"
| "hall_step s (Lag k us negative) = on_barrier k (note_arrival_lag us negative) s"

definition hall_run :: "('p, 'res) hall_op list \<Rightarrow> ('p, 'res) hall \<Rightarrow> ('p, 'res) hall" where
  "hall_run ops s = fold (\<lambda>op s. hall_step s op) ops s"

lemma hall_run_simps [simp]: "hall_run [] s = s" "hall_run (op # ops) s = hall_run ops (hall_step s op)"
  by (simp_all add: hall_run_def)

text \<open>Barriers built by \<^verbatim>\<open>__init__\<close> on a supplied budget; the steps taken in the order of one clock.\<close>

definition fresh_barrier :: "('p, 'res) barrier \<Rightarrow> bool" where
  "fresh_barrier b \<longleftrightarrow> (\<exists>window workers w max_inst. mk_barrier window workers (Some w) max_inst = Inr (b, w))"

definition hall_init :: "waiter_budget \<Rightarrow> ('p, 'res) barrier list \<Rightarrow> ('p, 'res) hall" where
  "hall_init w bs = \<lparr>ha_barriers = bs, ha_budget = w, ha_parked = [], ha_told = [], ha_clock = 0\<rparr>"

fun in_time :: "('p, 'res) hall_op \<Rightarrow> rat \<Rightarrow> bool" where
  "in_time (Submit k cam capture payload now later f) t \<longleftrightarrow> t \<le> now \<and> now \<le> later"
| "in_time (Wake j now) t \<longleftrightarrow> t \<le> now"
| "in_time _ t \<longleftrightarrow> True"

fun clocked :: "('p, 'res) hall_op list \<Rightarrow> ('p, 'res) hall \<Rightarrow> bool" where
  "clocked [] s = True"
| "clocked (op # ops) s \<longleftrightarrow> in_time op (ha_clock s) \<and> clocked ops (hall_step s op)"

definition parked_at :: "nat \<Rightarrow> ('p, 'res) waiting list \<Rightarrow> int multiset" where
  "parked_at k ths = image_mset th_instant (filter_mset (\<lambda>t. th_barrier t = k) (mset ths))"

definition hall_inv :: "('p, 'res) hall \<Rightarrow> bool" where
  "hall_inv s \<longleftrightarrow>
     (\<forall>k < length (ha_barriers s). ba_inv (parked_at k (ha_parked s)) (ha_barriers s ! k)) \<and>
     wb_ok (length (ha_parked s)) (ha_budget s) \<and>
     (\<forall>t \<in> set (ha_parked s). th_barrier t < length (ha_barriers s) \<and> th_instant t \<le> ba_next (ha_barriers s ! th_barrier t) \<and>
        (th_cam t, th_payload t) \<in> set (bk_entries (ba_objs (ha_barriers s ! th_barrier t) (th_instant t)))) \<and>
     (\<forall>(k, cam, payload, f, r) \<in> set (ha_told s). k < length (ha_barriers s) \<and> frame_told (ha_barriers s ! k) cam payload f r)"

text \<open>One barrier moves on; everything known about frames and threads stays known.\<close>

lemma hall_move:
  assumes inv: "hall_inv s" and k: "k < length (ha_barriers s)" and ev: "evolves (ha_barriers s ! k) b"
    and bi: "ba_inv (parked_at k ths) b" and other: "\<And>j. j \<noteq> k \<Longrightarrow> parked_at j ths = parked_at j (ha_parked s)"
    and w: "wb_ok (length ths) w"
    and pk: "\<And>t. t \<in> set ths \<Longrightarrow> t \<in> set (ha_parked s) \<or> (th_barrier t = k \<and> th_instant t \<le> ba_next b \<and>
        (th_cam t, th_payload t) \<in> set (bk_entries (ba_objs b (th_instant t))))"
    and td: "\<And>e. e \<in> set told \<Longrightarrow> e \<in> set (ha_told s) \<or> (\<exists>cam payload f r. e = (k, cam, payload, f, r) \<and> frame_told b cam payload f r)"
  shows "hall_inv (s\<lparr>ha_barriers := (ha_barriers s)[k := b], ha_budget := w, ha_clock := c, ha_parked := ths, ha_told := told\<rparr>)"
proof -
  let ?bs = "(ha_barriers s)[k := b]"
  have e: "evolves (ha_barriers s ! j) (?bs ! j)" for j using ev k by (cases "j = k") auto
  have 1: "ba_inv (parked_at j ths) (?bs ! j)" if "j < length (ha_barriers s)" for j
    using inv bi other[of j] k that by (cases "j = k") (auto simp: hall_inv_def)
  have 2: "th_barrier t < length (ha_barriers s) \<and> th_instant t \<le> ba_next (?bs ! th_barrier t) \<and>
      (th_cam t, th_payload t) \<in> set (bk_entries (ba_objs (?bs ! th_barrier t) (th_instant t)))" if "t \<in> set ths" for t
  proof (cases "t \<in> set (ha_parked s)")
    case True
    then have "th_barrier t < length (ha_barriers s) \<and> th_instant t \<le> ba_next (ha_barriers s ! th_barrier t) \<and>
        (th_cam t, th_payload t) \<in> set (bk_entries (ba_objs (ha_barriers s ! th_barrier t) (th_instant t)))" using inv by (simp add: hall_inv_def)
    then show ?thesis using evolves_entry[OF e[of "th_barrier t"]] by blast
  next
    case False
    then show ?thesis using pk[OF that] k by auto
  qed
  have 3: "j < length (ha_barriers s) \<and> frame_told (?bs ! j) cam payload f r" if m: "(j, cam, payload, f, r) \<in> set told" for j cam payload f r
  proof (cases "(j, cam, payload, f, r) \<in> set (ha_told s)")
    case True
    then have "j < length (ha_barriers s) \<and> frame_told (ha_barriers s ! j) cam payload f r" using inv by (auto simp: hall_inv_def)
    then show ?thesis using frame_told_evolves[OF _ e] by blast
  next
    case False
    then show ?thesis using td[OF m] k by auto
  qed
  show ?thesis using 1 2 3 w by (auto simp: hall_inv_def)
qed

lemma hall_on_barrier:
  assumes inv: "hall_inv s" and f: "\<And>P b. ba_inv P b \<Longrightarrow> ba_inv P (f b) \<and> evolves b (f b)"
  shows "hall_inv (on_barrier k f s)"
proof (cases "k < length (ha_barriers s)")
  case True
  have "ba_inv (parked_at k (ha_parked s)) (ha_barriers s ! k)" using inv True by (simp add: hall_inv_def)
  from f[OF this] have "hall_inv (s\<lparr>ha_barriers := (ha_barriers s)[k := f (ha_barriers s ! k)], ha_budget := ha_budget s,
      ha_clock := ha_clock s, ha_parked := ha_parked s, ha_told := ha_told s\<rparr>)"
    by (intro hall_move[OF inv True]) (use inv in \<open>auto simp: hall_inv_def\<close>)
  then show ?thesis using True by (simp add: on_barrier_def)
qed (simp add: on_barrier_def inv)

lemma parked_at_simps [simp]:
  "parked_at k (ths @ [t]) = (if th_barrier t = k then add_mset (th_instant t) (parked_at k ths) else parked_at k ths)"
  by (simp add: parked_at_def)

lemma parked_at_remove:
  assumes "j < length ths"
  shows "parked_at k (take j ths @ drop (Suc j) ths) =
    (if th_barrier (ths ! j) = k then parked_at k ths - {#th_instant (ths ! j)#} else parked_at k ths)"
    and "th_barrier (ths ! j) = k \<Longrightarrow> th_instant (ths ! j) \<in># parked_at k ths"
proof -
  have m: "mset ths = add_mset (ths ! j) (mset (take j ths @ drop (Suc j) ths))"
    using arg_cong[OF id_take_nth_drop[OF assms], of mset] by simp
  then have "parked_at k ths = (if th_barrier (ths ! j) = k then add_mset (th_instant (ths ! j)) (parked_at k (take j ths @ drop (Suc j) ths))
      else parked_at k (take j ths @ drop (Suc j) ths))" by (simp add: parked_at_def)
  then show "parked_at k (take j ths @ drop (Suc j) ths) =
    (if th_barrier (ths ! j) = k then parked_at k ths - {#th_instant (ths ! j)#} else parked_at k ths)"
    "th_barrier (ths ! j) = k \<Longrightarrow> th_instant (ths ! j) \<in># parked_at k ths" by simp_all
qed

lemma submit_step_inv:
  assumes inv: "hall_inv s" 
  shows "hall_inv (hall_step s (Submit k cam capture payload now later f))"
proof (cases "k < length (ha_barriers s)")
  case True
  obtain b w r where s: "barrier_submit cam capture payload now later f (ha_barriers s ! k) (ha_budget s) = (b, w, r)"
    using prod_cases3 by blast
  have bi: "ba_inv (parked_at k (ha_parked s)) (ha_barriers s ! k)" and wo: "wb_ok (length (ha_parked s)) (ha_budget s)"
    using inv True by (simp_all add: hall_inv_def)
  from submit_inv[OF bi wo s] have ev: "evolves (ha_barriers s ! k) b"
    and c: "(\<exists>i. r = Parked i \<and> ba_inv (add_mset i (parked_at k (ha_parked s))) b \<and> wb_ok (Suc (length (ha_parked s))) w \<and> i \<le> ba_next b \<and>
        (cam, payload) \<in> set (bk_entries (ba_objs b i))) \<or>
      ba_inv (parked_at k (ha_parked s)) b \<and> wb_ok (length (ha_parked s)) w \<and> frame_told b cam payload f r" by blast+
  from c show ?thesis
  proof (elim disjE exE conjE)
    fix i assume p: "r = Parked i" "ba_inv (add_mset i (parked_at k (ha_parked s))) b" "wb_ok (Suc (length (ha_parked s))) w" "i \<le> ba_next b"
      "(cam, payload) \<in> set (bk_entries (ba_objs b i))"
    let ?t = "\<lparr>th_barrier = k, th_instant = i, th_cam = cam, th_payload = payload, th_since = now, th_assoc = f\<rparr>"
    have "hall_inv (s\<lparr>ha_barriers := (ha_barriers s)[k := b], ha_budget := w, ha_clock := later, ha_parked := ha_parked s @ [?t], ha_told := ha_told s\<rparr>)"
      by (rule hall_move[OF inv True ev]) (use p in auto)
    then show ?thesis using True s p(1) by simp
  next
    assume p: "ba_inv (parked_at k (ha_parked s)) b" "wb_ok (length (ha_parked s)) w" "frame_told b cam payload f r"
    have "hall_inv (s\<lparr>ha_barriers := (ha_barriers s)[k := b], ha_budget := w, ha_clock := later, ha_parked := ha_parked s,
        ha_told := ha_told s @ [(k, cam, payload, f, r)]\<rparr>)"
      by (rule hall_move[OF inv True ev p(1) _ p(2)]) (use p(3) in auto)
    then show ?thesis using True s p(3) by (cases r) (simp_all add: frame_told_def)
  qed
qed (use inv in simp)

lemma wake_step_inv:
  assumes inv: "hall_inv s" 
  shows "hall_inv (hall_step s (Wake j now))"
proof (cases "j < length (ha_parked s)")
  case True
  define t where "t = ha_parked s ! j"
  define k where "k = th_barrier t"
  define ths where "ths = take j (ha_parked s) @ drop (Suc j) (ha_parked s)"
  obtain b w r where s: "barrier_wake (th_instant t) now (th_assoc t) (ha_barriers s ! k) (ha_budget s) = (b, w, r)"
    using prod_cases3 by blast
  have tin: "t \<in> set (ha_parked s)" using True by (simp add: t_def)
  have k: "k < length (ha_barriers s)" and le: "th_instant t \<le> ba_next (ha_barriers s ! k)"
    and en: "(th_cam t, th_payload t) \<in> set (bk_entries (ba_objs (ha_barriers s ! k) (th_instant t)))"
    using inv tin by (auto simp: hall_inv_def k_def)
  have bi: "ba_inv (parked_at k (ha_parked s)) (ha_barriers s ! k)" using inv k by (simp add: hall_inv_def)
  have len: "length (ha_parked s) = Suc (length ths)" using True by (simp add: ths_def)
  have wo: "wb_ok (Suc (length ths)) (ha_budget s)" using inv len by (simp add: hall_inv_def)
  have pk: "th_instant t \<in># parked_at k (ha_parked s)" using parked_at_remove(2)[OF True] by (simp add: t_def k_def)
  have rest: "parked_at i ths = (if k = i then parked_at i (ha_parked s) - {#th_instant t#} else parked_at i (ha_parked s))" for i
    using parked_at_remove(1)[OF True, of i] by (simp add: ths_def k_def t_def)
  have hs: "hall_step s (Wake j now) = (case r of Parked i \<Rightarrow> s\<lparr>ha_barriers := (ha_barriers s)[k := b], ha_budget := w, ha_clock := now\<rparr>
      | _ \<Rightarrow> s\<lparr>ha_barriers := (ha_barriers s)[k := b], ha_budget := w, ha_clock := now, ha_parked := ths,
               ha_told := ha_told s @ [(k, th_cam t, th_payload t, th_assoc t, r)]\<rparr>)"
    using True s by (cases r) (simp_all add: Let_def t_def[symmetric] k_def[symmetric] ths_def)
  from wake_inv[OF bi pk wo s] show ?thesis
  proof (elim disjE conjE)
    assume "r = Parked (th_instant t)" "b = ha_barriers s ! k" "w = ha_budget s"
    then show ?thesis using inv unfolding hs by (simp add: hall_inv_def)
  next
    assume p: "ba_inv (parked_at k (ha_parked s) - {#th_instant t#}) b" "evolves (ha_barriers s ! k) b" "wb_ok (length ths) w"
      "told_ok b (th_instant t) (th_assoc t) r"
    have ft: "frame_told b (th_cam t) (th_payload t) (th_assoc t) r"
      using told_frame[OF p(4)] evolves_entry[OF p(2) le en] by simp
    have "hall_inv (s\<lparr>ha_barriers := (ha_barriers s)[k := b], ha_budget := w, ha_clock := now, ha_parked := ths,
        ha_told := ha_told s @ [(k, th_cam t, th_payload t, th_assoc t, r)]\<rparr>)"
    proof (rule hall_move[OF inv k p(2) _ _ p(3)])
      show "ba_inv (parked_at k ths) b" using p(1) rest[of k] by simp
      show "x \<in> set (ha_parked s) \<or> (th_barrier x = k \<and> th_instant x \<le> ba_next b \<and> (th_cam x, th_payload x) \<in> set (bk_entries (ba_objs b (th_instant x))))"
        if "x \<in> set ths" for x using that by (auto simp: ths_def dest: in_set_takeD in_set_dropD)
    qed (use rest ft in auto)
    then show ?thesis unfolding hs using ft by (cases r) (simp_all add: frame_told_def)
  qed
qed (use inv in simp)

lemma hall_step_inv: "hall_inv s \<Longrightarrow> hall_inv (hall_step s op)"
proof (cases op)
  case (Shutdown k)
  assume "hall_inv s"
  then have "hall_inv (on_barrier k (\<lambda>b. fst (close_all DROPPED_SHUTDOWN b)) s)"
    using close_all_inv[of _ _ DROPPED_SHUTDOWN] by (intro hall_on_barrier) auto
  then show ?thesis using Shutdown by simp
qed (use submit_step_inv wake_step_inv hall_on_barrier[OF _ lifecycle_inv(1)] hall_on_barrier[OF _ lifecycle_inv(2)]
      hall_on_barrier[OF _ lifecycle_inv(3)] hall_on_barrier[OF _ lifecycle_inv(4)] in \<open>simp_all del: hall_step.simps(1,2)\<close>)

lemma fresh_barrier_inv: "fresh_barrier b \<Longrightarrow> ba_inv {#} b"
  by (auto simp: fresh_barrier_def mk_barrier_def ba_inv_def bucket_ok_def new_bucket_def DEFAULT_MAX_INSTANTS_def Let_def split: if_splits option.splits)

lemma hall_run_inv:
  assumes "mk_budget p = Inr w" and "list_all fresh_barrier bs"
  shows "hall_inv (hall_run ops (hall_init w bs))"
proof -
  have "hall_inv (hall_init w bs)"
    using assms fresh_barrier_inv
    by (auto simp: hall_inv_def hall_init_def parked_at_def list_all_length wb_ok_def mk_budget_def split: if_splits)
  moreover have "hall_inv s \<Longrightarrow> hall_inv (hall_run ops s)" for s
    by (induction ops arbitrary: s) (auto intro: hall_step_inv)
  ultimately show ?thesis by blast
qed

lemma hall_step_permits: "hall_inv s \<Longrightarrow> wb_permits (ha_budget (hall_step s op)) = wb_permits (ha_budget s)"
proof (cases op)
  case (Submit k cam capture payload now later f)
  assume inv: "hall_inv s"
  show ?thesis
  proof (cases "k < length (ha_barriers s)")
    case True
    obtain b w r where s: "barrier_submit cam capture payload now later f (ha_barriers s ! k) (ha_budget s) = (b, w, r)"
      using prod_cases3 by blast
    have "wb_permits w = wb_permits (ha_budget s)" using submit_inv[OF _ _ s] inv True by (auto simp: hall_inv_def)
    then show ?thesis using True s Submit by (cases r) (simp_all add: Let_def)
  qed (use Submit in simp)
next
  case (Wake j now)
  assume inv: "hall_inv s"
  show ?thesis
  proof (cases "j < length (ha_parked s)")
    case True
    let ?t = "ha_parked s ! j"
    obtain b w r where s: "barrier_wake (th_instant ?t) now (th_assoc ?t) (ha_barriers s ! th_barrier ?t) (ha_budget s) = (b, w, r)"
      using prod_cases3 by blast
    have "?t \<in> set (ha_parked s)" using True by simp
    then have k: "th_barrier ?t < length (ha_barriers s)" using inv by (auto simp: hall_inv_def)
    obtain n where n: "length (ha_parked s) = Suc n" using True by (cases "length (ha_parked s)") auto
    have "ba_inv (parked_at (th_barrier ?t) (ha_parked s)) (ha_barriers s ! th_barrier ?t)" "wb_ok (Suc n) (ha_budget s)"
      using inv k n by (auto simp: hall_inv_def)
    from wake_inv[OF this(1) parked_at_remove(2)[OF True refl] this(2) s] have "wb_permits w = wb_permits (ha_budget s)" by auto
    then show ?thesis using True s Wake by (cases r) (simp_all add: Let_def)
  qed (use Wake in simp)
qed (simp_all add: on_barrier_def)

lemma hall_run_permits: "hall_inv s \<Longrightarrow> wb_permits (ha_budget (hall_run ops s)) = wb_permits (ha_budget s)"
  by (induction ops arbitrary: s) (auto simp: hall_step_permits hall_step_inv)

text \<open>
  C21: the pipeline never parks its last worker.  Any number of barriers share one budget of \<^verbatim>\<open>permits\<close>.  After any interleaving of submits, wakes,
  camera changes and shutdowns, at most \<^verbatim>\<open>permits\<close> threads are parked in all of them together, and the budget's own counters say exactly how many:
  with \<^verbatim>\<open>workers - 1\<close> permits one worker is always running, and giving a permit back never fails.
\<close>

theorem never_starves:
  assumes "mk_budget permits = Inr w" and "list_all fresh_barrier bs"
  shows "let s = hall_run ops (hall_init w bs) in
    int (length (ha_parked s)) \<le> permits \<and> wb_held (ha_budget s) = int (length (ha_parked s)) \<and>
    wb_value (ha_budget s) = permits - int (length (ha_parked s)) \<and> (ha_parked s \<noteq> [] \<longrightarrow> (\<exists>w'. wb_release (ha_budget s) = Inr w'))"
proof -
  let ?s = "hall_run ops (hall_init w bs)"
  have i: "hall_inv (hall_run [] (hall_init w bs))" by (rule hall_run_inv[OF assms])
  have p: "wb_permits (ha_budget ?s) = permits"
    using hall_run_permits[of "hall_init w bs" ops] i assms(1) by (auto simp: hall_init_def mk_budget_def split: if_splits)
  have "wb_ok (length (ha_parked ?s)) (ha_budget ?s)" using hall_run_inv[OF assms] by (simp add: hall_inv_def)
  then show ?thesis using p by (auto simp: wb_ok_def wb_release_def Let_def neq_Nil_conv)
qed


text \<open>
  The last refusal of \<^verbatim>\<open>submit\<close> is never reached.  No frame is ever refused because its instant left the map unresolved (\<^verbatim>\<open>expired\<close>): an instant
  is only discarded when nobody waits on it.  And a \<^verbatim>\<open>submit\<close> raises only what its own association raised.
\<close>

theorem no_waiter_forgotten:
  assumes "mk_budget permits = Inr w" and "list_all fresh_barrier bs"
    and "(k, cam, payload, f, r) \<in> set (ha_told (hall_run ops (hall_init w bs)))"
  shows "r \<noteq> Outcome DROPPED_EXPIRED x i \<and> (\<forall>e. r = Raises e \<longrightarrow> (\<exists>entries. f entries = Inl e))"
proof -
  have "frame_told (ha_barriers (hall_run ops (hall_init w bs)) ! k) cam payload f r"
    using hall_run_inv[OF assms(1,2), of ops] assms(3) by (auto simp: hall_inv_def)
  then show ?thesis by (cases r) (auto simp: frame_told_def)
qed

text \<open>
  Every instant ends once.  At any time each barrier has numbered its instants 1, 2, ... and every one of them is open or was ended exactly once under one
  reason; the open ones never exceed the bound in force.
\<close>

theorem instants_counted:
  assumes "mk_budget permits = Inr w" and "list_all fresh_barrier bs" and "s = hall_run ops (hall_init w bs)"
    and "k < length (ha_barriers s)" and "b = ha_barriers s ! k"
  shows "counter_total (ba_instants b) + int (length (ba_open b)) = ba_next b \<and> ba_ended b = counter_total (ba_instants b) \<and>
    int (length (ba_open b)) \<le> ba_max b \<and> ba_waiters b = int (length (filter (\<lambda>t. th_barrier t = k) (ha_parked s))) \<and>
    (\<forall>i. i \<in> set (ba_open b) \<longleftrightarrow> 1 \<le> i \<and> i \<le> ba_next b \<and> \<not> bk_done (ba_objs b i))"
proof -
  have inv: "hall_inv s" unfolding assms(3) by (rule hall_run_inv[OF assms(1,2)])
  then have "ba_inv (parked_at k (ha_parked s)) b" using assms(4,5) by (simp add: hall_inv_def)
  moreover have "size (parked_at k (ha_parked s)) = length (filter (\<lambda>t. th_barrier t = k) (ha_parked s))"
    by (simp add: parked_at_def flip: mset_filter)
  ultimately show ?thesis by (auto simp: ba_inv_def)
qed

section \<open>Nobody waits longer than a window\<close>

definition due :: "rat \<Rightarrow> ('p, 'res) barrier \<Rightarrow> bool" where
  "due T b \<longleftrightarrow> (\<forall>i. 1 \<le> i \<longrightarrow> i \<le> ba_next b \<longrightarrow> bk_deadline (ba_objs b i) \<le> T + ba_window b)"

lemma due_mono: "due T b \<Longrightarrow> T \<le> T' \<Longrightarrow> due T' b"
  by (force simp: due_def)

lemma due_evolves: "due T b \<Longrightarrow> evolves b b' \<Longrightarrow> ba_next b' = ba_next b \<Longrightarrow> due T b'"
  by (simp add: due_def evolves_def keeps_def)

lemma due_open:
  assumes inv: "ba_inv P b" and d: "due now b" and o: "open_instant capture now b = (b', i)"
  shows "due now b'"
proof -
  note oi = open_instant_inv[OF inv o]
  have n: "ba_next b' = ba_next b + 1" "i = ba_next b + 1"
    using o evict_inv[OF inv] by (auto simp: open_instant_def Let_def)
  have "bk_deadline (ba_objs b' j) \<le> now + ba_window b'" if "1 \<le> j" "j \<le> ba_next b'" for j
  proof (cases "j \<le> ba_next b")
    case True
    then show ?thesis using oi d that by (simp add: due_def evolves_def keeps_def)
  next
    case False
    then have "j = i" using that n by simp
    then show ?thesis using oi by (simp add: evolves_def)
  qed
  then show ?thesis by (simp add: due_def)
qed

lemma due_find:
  assumes inv: "ba_inv P b" and d: "due now b" and f: "find_instant cam capture now b = (b', r)"
  shows "due now b'"
proof -
  have s: "ba_inv P (seal i CLOSED_ADVANCED b)" "due now (seal i CLOSED_ADVANCED b)" for i
    using seal_instant_inv[OF inv, of CLOSED_ADVANCED i] due_evolves[OF d, of "seal i CLOSED_ADVANCED b"] by (auto simp: seal_def on_bucket_def)
  show ?thesis
    using f d due_open[OF inv d] due_open[OF s] by (auto simp: find_instant_def split: option.splits if_splits prod.splits)
qed

lemma close_next: "close_bucket i reason f b = (b', r) \<Longrightarrow> ba_next b' = ba_next b"
  by (auto simp: close_bucket_eq split: sum.splits)

lemma wake_next: "barrier_wake i now f b w = (b', w', r) \<Longrightarrow> ba_next b' = ba_next b"
  by (auto simp: barrier_wake_def leave_wait_def on_bucket_def missed_def Let_def dest: close_next split: if_splits sum.splits prod.splits)

lemma park_next: "park i later f b w = (b', w', r) \<Longrightarrow> ba_next b' = ba_next b"
  by (auto simp: park_def on_bucket_def missed_def dest!: close_next wake_next split: if_splits prod.splits)

lemma due_submit:
  assumes inv: "ba_inv P b" and w: "wb_ok n w" and d: "due now b" and s: "barrier_submit cam capture payload now later f b w = (b', w', r)"
  shows "due now b'"
proof (cases "ba_closed b")
  case True
  then show ?thesis using s due_evolves[OF d] missed_inv[OF inv] by (auto simp: barrier_submit_def missed_def)
next
  case False
  let ?b = "note_seen cam (retire now b)"
  have b0: "ba_inv P ?b" "evolves b ?b" using retire_inv[OF inv] note_seen_inv evolves_trans by blast+
  have d0: "due now ?b" by (rule due_evolves[OF d b0(2)]) (simp add: note_seen_next retire_next)
  obtain b1 r1 where c: "check_backward cam capture ?b = (b1, r1)" by (rule prod.exhaust)
  have b1: "ba_inv P b1" "evolves ?b b1" using check_backward_inv[OF b0(1) c] by blast+
  have d1: "due now b1" by (rule due_evolves[OF d0 b1(2) check_backward_next[OF c]])
  show ?thesis
  proof (cases r1)
    case (Inl q)
    then show ?thesis using s False c due_evolves[OF d1] missed_inv[OF b1(1)] by (cases q) (auto simp: barrier_submit_def missed_def)
  next
    case (Inr newest)
    obtain b2 r2 where fi: "find_instant cam capture now b1 = (b2, r2)" by (rule prod.exhaust)
    have b2: "ba_inv P b2" using find_instant_inv[OF b1(1) fi] by blast
    have d2: "due now b2" by (rule due_find[OF b1(1) d1 fi])
    show ?thesis
    proof (cases r2)
      case (Inl q)
      then show ?thesis using s False c Inr fi due_evolves[OF d2] missed_inv[OF b2] by (cases q) (auto simp: barrier_submit_def missed_def)
    next
      case r2: (Inr i)
      let ?j = "join_instant i cam capture payload newest b2"
      have i: "i \<in> set (ba_open b2)" "map_of (bk_reported (ba_objs b2 i)) cam = None" "spread_with capture (ba_objs b2 i) < ba_window b2"
        using find_instant_inv[OF b1(1) fi] r2 by auto
      have j: "ba_inv P ?j" "evolves b2 ?j" "i \<in> set (ba_open ?j)" "(cam, payload) \<in> set (bk_entries (ba_objs ?j i))" "ba_next ?j = ba_next b2"
        using join_inv[OF b2 i, of payload newest] by auto
      have p: "park i later f ?j w = (b', w', r)" using s False c Inr fi r2 by (simp add: barrier_submit_def)
      have "due now ?j" by (rule due_evolves[OF d2 j(2,5)])
      then show ?thesis using due_evolves park_inv[OF j(1,3,4) w p] park_next[OF p] by blast
    qed
  qed
qed

definition hall_timed :: "('p, 'res) hall \<Rightarrow> bool" where
  "hall_timed s \<longleftrightarrow>
     (\<forall>k < length (ha_barriers s). due (ha_clock s) (ha_barriers s ! k)) \<and>
     (\<forall>t \<in> set (ha_parked s). bk_deadline (ba_objs (ha_barriers s ! th_barrier t) (th_instant t)) \<le> th_since t + ba_window (ha_barriers s ! th_barrier t))"

lemma timed_move:
  assumes t: "hall_timed s" and k: "k < length (ha_barriers s)" and ev: "evolves (ha_barriers s ! k) b" and d: "due c b" and c: "ha_clock s \<le> c"
    and inv: "hall_inv s"
    and pk: "\<And>x. x \<in> set ths \<Longrightarrow> x \<in> set (ha_parked s) \<or> (th_barrier x = k \<and> bk_deadline (ba_objs b (th_instant x)) \<le> th_since x + ba_window b)"
  shows "hall_timed (s\<lparr>ha_barriers := (ha_barriers s)[k := b], ha_budget := w, ha_clock := c, ha_parked := ths, ha_told := told\<rparr>)"
proof -
  let ?bs = "(ha_barriers s)[k := b]"
  have 1: "due c (?bs ! j)" if "j < length (ha_barriers s)" for j
    using t d that due_mono[OF _ c] by (cases "j = k") (auto simp: hall_timed_def)
  have 2: "bk_deadline (ba_objs (?bs ! th_barrier x) (th_instant x)) \<le> th_since x + ba_window (?bs ! th_barrier x)" if "x \<in> set ths" for x
  proof (cases "x \<in> set (ha_parked s)")
    case True
    then have "bk_deadline (ba_objs (ha_barriers s ! th_barrier x) (th_instant x)) \<le> th_since x + ba_window (ha_barriers s ! th_barrier x)"
      "th_instant x \<le> ba_next (ha_barriers s ! th_barrier x)" using t inv by (auto simp: hall_timed_def hall_inv_def)
    then show ?thesis using ev k by (cases "th_barrier x = k") (auto simp: evolves_def keeps_def)
  next
    case False
    then show ?thesis using pk[OF that] k by auto
  qed
  show ?thesis using 1 2 by (auto simp: hall_timed_def)
qed

lemma timed_on_barrier:
  assumes t: "hall_timed s" and inv: "hall_inv s" and f: "\<And>P b. ba_inv P b \<Longrightarrow> ba_inv P (f b) \<and> evolves b (f b)" and n: "\<And>b. ba_next (f b) = ba_next b"
  shows "hall_timed (on_barrier k f s)"
proof (cases "k < length (ha_barriers s)")
  case True
  let ?b = "ha_barriers s ! k"
  have "ba_inv (parked_at k (ha_parked s)) ?b" using inv True by (simp add: hall_inv_def)
  then have e: "evolves ?b (f ?b)" using f by blast
  have "due (ha_clock s) (f ?b)" using due_evolves[OF _ e n] t True by (simp add: hall_timed_def)
  then have "hall_timed (s\<lparr>ha_barriers := (ha_barriers s)[k := f ?b], ha_budget := ha_budget s, ha_clock := ha_clock s, ha_parked := ha_parked s, ha_told := ha_told s\<rparr>)"
    by (intro timed_move[OF t True e _ _ inv]) auto
  then show ?thesis using True by (simp add: on_barrier_def)
qed (simp add: on_barrier_def t)

lemma lifecycle_next:
  fixes b :: "('a, 'b) barrier"
  shows "ba_next (add_camera cam b) = ba_next b" "ba_next (drop_camera cam b) = ba_next b" "ba_next (note_not_mine cam b) = ba_next b"
  "ba_next (note_arrival_lag lag neg b) = ba_next b" "ba_next (fst (close_all r b)) = ba_next b"
proof -
  have s: "ba_next (fold (\<lambda>i b. if Q i b then seal i CLOSED_COMPLETE b else b) is b) = ba_next b" for Q "is" and b :: "('a, 'b) barrier"
    by (induction "is" arbitrary: b) (auto simp: seal_def on_bucket_def)
  have "ba_next (drop_camera cam b) = ba_next (refresh_live (b\<lparr>ba_announced := removeAll cam (ba_announced b), ba_seen := removeAll cam (ba_seen b),
      ba_newest := AList.delete cam (ba_newest b), ba_backward := AList.delete cam (ba_backward b)\<rparr>))"
    unfolding drop_camera_def Let_def by (rule s)
  then show "ba_next (drop_camera cam b) = ba_next b" by (simp add: refresh_live_def Let_def)
  show "ba_next (fst (close_all r b)) = ba_next b" by (simp add: close_all_def Let_def fold_discard_next[where R = "\<lambda>_ _. r"])
qed (simp_all add: add_camera_def refresh_live_def note_not_mine_def note_arrival_lag_def missed_def Let_def)

lemma hall_step_timed:
  assumes inv: "hall_inv s" and t: "hall_timed s" and c: "in_time op (ha_clock s)"
  shows "hall_timed (hall_step s op)"
proof (cases op)
  case (Submit k cam capture payload now later f)
  show ?thesis
  proof (cases "k < length (ha_barriers s)")
    case True
    obtain b w r where s: "barrier_submit cam capture payload now later f (ha_barriers s ! k) (ha_budget s) = (b, w, r)"
      using prod_cases3 by blast
    have bi: "ba_inv (parked_at k (ha_parked s)) (ha_barriers s ! k)" and wo: "wb_ok (length (ha_parked s)) (ha_budget s)"
      using inv True by (simp_all add: hall_inv_def)
    have le: "ha_clock s \<le> now" "now \<le> later" using c Submit by auto
    have dn: "due now (ha_barriers s ! k)" using due_mono[OF _ le(1)] t True by (auto simp: hall_timed_def)
    have db: "due now b" by (rule due_submit[OF bi wo dn s])
    then have dl: "due later b" using due_mono le(2) by blast
    have cl: "ha_clock s \<le> later" using le by simp
    note si = submit_inv[OF bi wo s]
    have ev: "evolves (ha_barriers s ! k) b" using si by blast
    show ?thesis
    proof (cases r)
      case (Parked i)
      then have i: "i \<le> ba_next b" "ba_inv (add_mset i (parked_at k (ha_parked s))) b" using si by (auto simp: frame_told_def)
      have "1 \<le> i" using ba_invD(9)[OF i(2), of i] by simp
      then have "bk_deadline (ba_objs b i) \<le> now + ba_window b" using db i(1) by (simp add: due_def)
      then have "hall_timed (s\<lparr>ha_barriers := (ha_barriers s)[k := b], ha_budget := w, ha_clock := later,
          ha_parked := ha_parked s @ [\<lparr>th_barrier = k, th_instant = i, th_cam = cam, th_payload = payload, th_since = now, th_assoc = f\<rparr>], ha_told := ha_told s\<rparr>)"
        by (intro timed_move[OF t True ev dl cl inv]) auto
      then show ?thesis using True s Submit Parked by simp
    next
      case (Outcome reason x i)
      have "hall_timed (s\<lparr>ha_barriers := (ha_barriers s)[k := b], ha_budget := w, ha_clock := later, ha_parked := ha_parked s,
          ha_told := ha_told s @ [(k, cam, payload, f, r)]\<rparr>)" by (rule timed_move[OF t True ev dl cl inv]) simp
      then show ?thesis using True s Submit Outcome by simp
    next
      case (Raises e)
      have "hall_timed (s\<lparr>ha_barriers := (ha_barriers s)[k := b], ha_budget := w, ha_clock := later, ha_parked := ha_parked s,
          ha_told := ha_told s @ [(k, cam, payload, f, r)]\<rparr>)" by (rule timed_move[OF t True ev dl cl inv]) simp
      then show ?thesis using True s Submit Raises by simp
    qed
  qed (use Submit t in simp)
next
  case (Wake j now)
  show ?thesis
  proof (cases "j < length (ha_parked s)")
    case True
    define x where "x = ha_parked s ! j"
    define k where "k = th_barrier x"
    define ths where "ths = take j (ha_parked s) @ drop (Suc j) (ha_parked s)"
    obtain b w r where s: "barrier_wake (th_instant x) now (th_assoc x) (ha_barriers s ! k) (ha_budget s) = (b, w, r)"
      using prod_cases3 by blast
    have "x \<in> set (ha_parked s)" using True by (simp add: x_def)
    then have k: "k < length (ha_barriers s)" using inv by (auto simp: hall_inv_def k_def)
    have bi: "ba_inv (parked_at k (ha_parked s)) (ha_barriers s ! k)" using inv k by (simp add: hall_inv_def)
    have "length (ha_parked s) = Suc (length ths)" using True by (simp add: ths_def)
    then have wo: "wb_ok (Suc (length ths)) (ha_budget s)" using inv by (simp add: hall_inv_def)
    have pk: "th_instant x \<in># parked_at k (ha_parked s)" using parked_at_remove(2)[OF True] by (simp add: x_def k_def)
    have ev: "evolves (ha_barriers s ! k) b" using wake_inv[OF bi pk wo s] by auto
    have le: "ha_clock s \<le> now" using c Wake by simp
    have "due now (ha_barriers s ! k)" using due_mono[OF _ le] t k by (auto simp: hall_timed_def)
    then have d: "due now b" using due_evolves[OF _ ev wake_next[OF s]] by blast
    have hs: "hall_step s op = (case r of Parked i \<Rightarrow> s\<lparr>ha_barriers := (ha_barriers s)[k := b], ha_budget := w, ha_clock := now\<rparr>
      | _ \<Rightarrow> s\<lparr>ha_barriers := (ha_barriers s)[k := b], ha_budget := w, ha_clock := now, ha_parked := ths,
               ha_told := ha_told s @ [(k, th_cam x, th_payload x, th_assoc x, r)]\<rparr>)"
      using True s Wake by (cases r) (simp_all add: Let_def x_def[symmetric] k_def[symmetric] ths_def)
    have 1: "hall_timed (s\<lparr>ha_barriers := (ha_barriers s)[k := b], ha_budget := w, ha_clock := now, ha_parked := ha_parked s, ha_told := ha_told s\<rparr>)"
      by (rule timed_move[OF t k ev d le inv]) simp
    have 2: "hall_timed (s\<lparr>ha_barriers := (ha_barriers s)[k := b], ha_budget := w, ha_clock := now, ha_parked := ths, ha_told := told\<rparr>)" for told
      by (rule timed_move[OF t k ev d le inv]) (auto simp: ths_def dest: in_set_takeD in_set_dropD)
    show ?thesis unfolding hs using 1 2 by (cases r) simp_all
  qed (use Wake t in simp)
next
  case (Shutdown k)
  have "hall_timed (on_barrier k (\<lambda>b. fst (close_all DROPPED_SHUTDOWN b)) s)"
    by (rule timed_on_barrier[OF t inv]) (use close_all_inv[of _ _ DROPPED_SHUTDOWN] lifecycle_next(5) in auto)
  then show ?thesis using Shutdown by simp
qed (use timed_on_barrier[OF t inv lifecycle_inv(1) lifecycle_next(1)] timed_on_barrier[OF t inv lifecycle_inv(2) lifecycle_next(2)]
      timed_on_barrier[OF t inv lifecycle_inv(3) lifecycle_next(3)] timed_on_barrier[OF t inv lifecycle_inv(4) lifecycle_next(4)]
      in \<open>simp_all del: hall_step.simps(1,2)\<close>)

lemma hall_run_timed:
  assumes "mk_budget p = Inr w" and "list_all fresh_barrier (bs :: ('p, 'res) barrier list)" and "clocked ops (hall_init w bs)"
  shows "hall_timed (hall_run ops (hall_init w bs))"
proof -
  have fresh: "fresh_barrier b \<Longrightarrow> due 0 b" for b :: "('p, 'res) barrier"
    by (auto simp: fresh_barrier_def mk_barrier_def due_def Let_def split: if_splits option.splits)
  have "hall_inv s \<Longrightarrow> hall_timed s \<Longrightarrow> clocked ops s \<Longrightarrow> hall_timed (hall_run ops s)" for s :: "('p, 'res) hall" and ops
    by (induction ops arbitrary: s) (auto simp: hall_step_inv hall_step_timed)
  moreover have "hall_inv (hall_run [] (hall_init w bs))" by (rule hall_run_inv[OF assms(1,2)])
  moreover have "hall_timed (hall_init w bs)" using assms(2) fresh by (simp add: hall_timed_def hall_init_def list_all_length)
  ultimately show ?thesis using assms(3) by simp
qed

text \<open>
  C23: no worker waits longer than a window.  Take any run whose clock readings do not go back, and a thread parked in it.  When that thread next
  gets the lock at least one window after it called \<^verbatim>\<open>submit\<close>, it returns: it is parked no more and its caller is told an outcome, whatever the other cameras did and
  even if no association ever ran.
\<close>

theorem bounded_wait:
  assumes "mk_budget permits = Inr w" and "list_all fresh_barrier bs" and "clocked ops (hall_init w bs)"
    and "s = hall_run ops (hall_init w bs)" and "j < length (ha_parked s)" and "t = ha_parked s ! j"
    and "th_since t + ba_window (ha_barriers s ! th_barrier t) \<le> now"
  shows "ha_parked (hall_step s (Wake j now)) = take j (ha_parked s) @ drop (Suc j) (ha_parked s) \<and>
    (\<exists>r. ha_told (hall_step s (Wake j now)) = ha_told s @ [(th_barrier t, th_cam t, th_payload t, th_assoc t, r)] \<and> (\<forall>i. r \<noteq> Parked i))"
proof -
  have inv: "hall_inv s" unfolding assms(4) by (rule hall_run_inv[OF assms(1,2)])
  have tm: "hall_timed s" unfolding assms(4) by (rule hall_run_timed[OF assms(1-3)])
  let ?k = "th_barrier t"
  obtain b w' r where s: "barrier_wake (th_instant t) now (th_assoc t) (ha_barriers s ! ?k) (ha_budget s) = (b, w', r)"
    using prod_cases3 by blast
  have tin: "t \<in> set (ha_parked s)" using assms(5,6) by simp
  then have k: "?k < length (ha_barriers s)" using inv by (auto simp: hall_inv_def)
  obtain n where n: "length (ha_parked s) = Suc n" using assms(5) by (cases "length (ha_parked s)") auto
  have bi: "ba_inv (parked_at ?k (ha_parked s)) (ha_barriers s ! ?k)" and wo: "wb_ok (Suc n) (ha_budget s)" using inv k n by (auto simp: hall_inv_def)
  have pk: "th_instant t \<in># parked_at ?k (ha_parked s)" using parked_at_remove(2)[OF assms(5)] assms(6) by simp
  have "bk_deadline (ba_objs (ha_barriers s ! ?k) (th_instant t)) \<le> now" using tm tin assms(7) by (fastforce simp: hall_timed_def)
  then have "told_ok b (th_instant t) (th_assoc t) r" using wake_inv[OF bi pk wo s] by auto
  then have "\<forall>i. r \<noteq> Parked i" by (auto simp: told_ok_def)
  then show ?thesis using assms(5) s by (cases r) (auto simp: Let_def assms(6)[symmetric])
qed

section \<open>A concrete run\<close>

text \<open>
  Two cameras of one group, one permit: the first frame waits, the second completes the instant, the first takes the answer; then a frame nobody
  joins waits out its window.
\<close>

definition sample_budget :: waiter_budget where
  "sample_budget = \<lparr>wb_permits = 1, wb_value = 1, wb_held = 0\<rparr>"

definition sample_barrier :: "(nat, nat) barrier" where
  "sample_barrier = fst (projr (mk_barrier 1 None (Some sample_budget) None))"

definition group_size :: "(nat, nat) association" where
  "group_size entries = Inr (length entries)"

definition sample_ops :: "(nat, nat) hall_op list" where
  "sample_ops =
     [Announce 0 ''a'', Announce 0 ''b'', Submit 0 ''a'' 1 7 1 1 group_size, Submit 0 ''b'' (3 / 2) 8 1 1 group_size, Wake 0 1,
      Submit 0 ''a'' 3 9 3 3 group_size]"

definition sample_hall :: "(nat, nat) hall" where
  "sample_hall = hall_run sample_ops (hall_init sample_budget [sample_barrier])"

lemma sample_start: "mk_budget 1 = Inr sample_budget" "list_all fresh_barrier [sample_barrier]"
proof -
  show "mk_budget 1 = Inr sample_budget" by code_simp
  have "mk_barrier 1 None (Some sample_budget) None = Inr (sample_barrier, sample_budget)"
    by (simp add: sample_barrier_def mk_barrier_def Let_def)
  then show "list_all fresh_barrier [sample_barrier]" by (auto simp: fresh_barrier_def)
qed

lemma never_starves_witness:
  "length (ha_parked sample_hall) = 1 \<and> wb_held (ha_budget sample_hall) = 1 \<and> wb_value (ha_budget sample_hall) = 0"
proof -
  have l: "length (ha_parked sample_hall) = 1" by code_simp
  show ?thesis using never_starves[OF sample_start, of sample_ops] l by (simp add: sample_hall_def[symmetric] Let_def)
qed


lemma no_waiter_forgotten_witness:
  "\<exists>f r. (0, ''a'', 7, f, r) \<in> set (ha_told sample_hall) \<and> r \<noteq> Outcome DROPPED_EXPIRED (Some 2) 1"
proof -
  have c: "fst (ha_told sample_hall ! 1) = 0" "fst (snd (ha_told sample_hall ! 1)) = ''a''" "fst (snd (snd (ha_told sample_hall ! 1))) = 7"
    "1 < length (ha_told sample_hall)" by code_simp+
  then obtain f r where e: "ha_told sample_hall ! 1 = (0, ''a'', 7, f, r)" by (metis prod.collapse)
  have m: "(0, ''a'', 7, f, r) \<in> set (ha_told sample_hall)" using nth_mem[OF c(4)] unfolding e .
  show ?thesis using no_waiter_forgotten[OF sample_start m[unfolded sample_hall_def], of "Some 2" 1] m by blast
qed

lemma instants_counted_witness:
  "ba_next (ha_barriers sample_hall ! 0) = 2 \<and> counter_total (ba_instants (ha_barriers sample_hall ! 0)) = 1 \<and> length (ba_open (ha_barriers sample_hall ! 0)) = 1"
proof -
  have c: "0 < length (ha_barriers sample_hall)" "ba_next (ha_barriers sample_hall ! 0) = 2" "length (ba_open (ha_barriers sample_hall ! 0)) = 1" by code_simp+
  show ?thesis using instants_counted[OF sample_start sample_hall_def c(1) refl] c(2,3) by simp
qed

lemma bounded_wait_witness:
  "ha_parked (hall_step sample_hall (Wake 0 4)) = [] \<and> length (ha_told (hall_step sample_hall (Wake 0 4))) = 3"
proof -
  have c: "clocked sample_ops (hall_init sample_budget [sample_barrier])" by code_simp
  have l: "0 < length (ha_parked sample_hall)" "length (ha_parked sample_hall) = 1" "length (ha_told sample_hall) = 2" by code_simp+
  have d: "th_since (ha_parked sample_hall ! 0) + ba_window (ha_barriers sample_hall ! th_barrier (ha_parked sample_hall ! 0)) \<le> 4" by code_simp
  show ?thesis using bounded_wait[OF sample_start c sample_hall_def l(1) refl d] l(2,3) by (auto simp: length_Suc_conv)
qed

end
