(* ===== verification/Caps.thy ===== *)
theory Caps
  imports Prelude
begin

text \<open>
  \<^verbatim>\<open>src/shipinfer/topology/caps.py\<close> and the \<^verbatim>\<open>Condition\<close> of \<^verbatim>\<open>topology/chain.py\<close>: what an element hands over and takes, and when it runs; with the
  operations of Python's \<^verbatim>\<open>str\<close> they use.

  A character is a code point below 256.  \<^verbatim>\<open>lower\<close> is modelled on ASCII: no other letter can make a token legal.
\<close>

section \<open>Strings\<close>

definition is_space :: "char \<Rightarrow> bool" where
  "is_space c = (let n = of_char c :: nat in (9 \<le> n \<and> n \<le> 13) \<or> (28 \<le> n \<and> n \<le> 32) \<or> n = 133 \<or> n = 160)"

definition lstrip :: "string \<Rightarrow> string" where "lstrip s = dropWhile is_space s"

definition rstrip :: "string \<Rightarrow> string" where "rstrip s = rev (dropWhile is_space (rev s))"

definition strip :: "string \<Rightarrow> string" where "strip s = rstrip (lstrip s)"

definition ascii_lower :: "char \<Rightarrow> char" where
  "ascii_lower c = (let n = of_char c :: nat in if 65 \<le> n \<and> n \<le> 90 then char_of (n + 32) else c)"

definition lower :: "string \<Rightarrow> string" where "lower s = map ascii_lower s"

text \<open>\<^verbatim>\<open>str.partition\<close> at a character: what precedes it, whether it was there, what follows.\<close>

definition partition_at :: "char \<Rightarrow> string \<Rightarrow> string \<times> bool \<times> string" where
  "partition_at c s = (let a = takeWhile (\<lambda>x. x \<noteq> c) s in (a, c \<in> set s, drop (Suc (length a)) s))"

definition is_lower_char :: "char \<Rightarrow> bool" where
  "is_lower_char c = (let n = of_char c :: nat in 97 \<le> n \<and> n \<le> 122)"

definition is_upper_char :: "char \<Rightarrow> bool" where
  "is_upper_char c = (let n = of_char c :: nat in 65 \<le> n \<and> n \<le> 90)"

definition is_digit_char :: "char \<Rightarrow> bool" where
  "is_digit_char c = (let n = of_char c :: nat in 48 \<le> n \<and> n \<le> 57)"

section \<open>Caps\<close>

definition ANY :: string where "ANY = ''*''"

definition LOCATIONS :: "string list" where "LOCATIONS = [''gpu'', ''cpu'']"

text \<open>The regular expression of a format token.  Its \<^verbatim>\<open>$\<close> also matches before a final newline.\<close>

definition token_ok :: "string \<Rightarrow> bool" where
  "token_ok s = (case s of
     [] \<Rightarrow> False
   | c # cs \<Rightarrow> is_lower_char c \<and> list_all (\<lambda>x. is_lower_char x \<or> is_digit_char x \<or> x = CHR ''_'') cs)"

definition format_re :: "string \<Rightarrow> bool" where
  "format_re s \<longleftrightarrow> token_ok s \<or> (s \<noteq> [] \<and> last s = CHR 0x0A \<and> token_ok (butlast s))"

record caps =
  cp_format :: string
  cp_location :: string

definition mk_caps :: "string \<Rightarrow> string \<Rightarrow> caps result" where
  "mk_caps f l =
     (if f \<noteq> ANY \<and> \<not> format_re f then Inl CapsSyntaxError
      else if l \<noteq> ANY \<and> l \<notin> set LOCATIONS then Inl CapsSyntaxError
      else Inr \<lparr>cp_format = f, cp_location = l\<rparr>)"

definition caps_parse :: "string \<Rightarrow> caps result" where
  "caps_parse text =
     (case partition_at (CHR ''@'') (strip text) of
        (f, sep, l) \<Rightarrow> if \<not> sep \<or> f = [] \<or> l = [] then Inl CapsSyntaxError else mk_caps (lower (strip f)) (lower (strip l)))"

definition caps_str :: "caps \<Rightarrow> string" where
  "caps_str c = cp_format c @ ''@'' @ cp_location c"

definition is_wildcard :: "caps \<Rightarrow> bool" where
  "is_wildcard c \<longleftrightarrow> cp_format c = ANY \<or> cp_location c = ANY"

definition half_matches :: "string \<Rightarrow> string \<Rightarrow> bool" where
  "half_matches a b \<longleftrightarrow> a = b \<or> a = ANY \<or> b = ANY"

definition caps_match :: "caps \<Rightarrow> caps \<Rightarrow> bool" where
  "caps_match a b \<longleftrightarrow> half_matches (cp_format a) (cp_format b) \<and> half_matches (cp_location a) (cp_location b)"

definition caps_resolve :: "caps \<Rightarrow> caps \<Rightarrow> caps result" where
  "caps_resolve a b =
     (if \<not> caps_match a b then Inl CapsSyntaxError
      else mk_caps (if cp_format a = ANY then cp_format b else cp_format a) (if cp_location a = ANY then cp_location b else cp_location a))"

definition parse_caps :: "string list \<Rightarrow> caps list result" where
  "parse_caps items = rmapM caps_parse items"

fun negotiate :: "caps list \<Rightarrow> caps list \<Rightarrow> caps option result" where
  "negotiate [] accepted = Inr None"
| "negotiate (c # cs) accepted =
     (case List.find (caps_match c) accepted of
        Some t \<Rightarrow> rbind (caps_resolve c t) (\<lambda>r. Inr (Some r))
      | None \<Rightarrow> negotiate cs accepted)"

section \<open>Conditions\<close>

datatype cond_op = EQ | NE

record condition =
  cn_field :: string
  cn_op :: cond_op
  cn_value :: string

definition field_char :: "char \<Rightarrow> bool" where
  "field_char c \<longleftrightarrow> is_lower_char c \<or> is_upper_char c \<or> is_digit_char c \<or> c = CHR ''_'' \<or> c = CHR ''.''"

definition is_quote :: "char \<Rightarrow> bool" where
  "is_quote c \<longleftrightarrow> c = CHR 0x27 \<or> c = CHR 0x22"

definition strip_quotes :: "string \<Rightarrow> string" where
  "strip_quotes s = rev (dropWhile is_quote (rev (dropWhile is_quote s)))"

text \<open>
  The regular expression, left to right: each part is followed by a character the part cannot contain, so it never backtracks.  The dot of
  the value does not match a newline.
\<close>

definition condition_parse :: "string \<Rightarrow> condition option" where
  "condition_parse text =
     (let s = lstrip text; f = takeWhile field_char s; r = lstrip (dropWhile field_char s) in
      if f = [] \<or> is_digit_char (hd f) \<or> hd f = CHR ''.'' then None
      else case r of
        a # b # rest \<Rightarrow>
          if b \<noteq> CHR ''='' \<or> (a \<noteq> CHR ''='' \<and> a \<noteq> CHR ''!'') then None
          else (let v = rstrip (lstrip rest) in
                if v = [] \<or> CHR 0x0A \<in> set v then None
                else Some \<lparr>cn_field = f, cn_op = (if a = CHR ''='' then EQ else NE), cn_value = strip_quotes (strip v)\<rparr>)
      | _ \<Rightarrow> None)"

text \<open>\<^verbatim>\<open>meta\<close> maps a field to the text of its value.\<close>

definition condition_matches :: "condition \<Rightarrow> (string \<rightharpoonup> string) \<Rightarrow> bool" where
  "condition_matches c meta = (case meta (cn_field c) of
     None \<Rightarrow> False
   | Some actual \<Rightarrow> if cn_op c = EQ then actual = cn_value c else actual \<noteq> cn_value c)"

definition op_str :: "cond_op \<Rightarrow> string" where "op_str o' = (case o' of EQ \<Rightarrow> ''=='' | NE \<Rightarrow> ''!='')"

definition condition_str :: "condition \<Rightarrow> string" where
  "condition_str c = cn_field c @ '' '' @ op_str (cn_op c) @ '' '' @ cn_value c"

section \<open>Properties\<close>

definition caps_ok :: "caps \<Rightarrow> bool" where
  "caps_ok c \<longleftrightarrow> (cp_format c = ANY \<or> format_re (cp_format c)) \<and> (cp_location c = ANY \<or> cp_location c \<in> set LOCATIONS)"

lemma mk_caps_ok: "mk_caps f l = Inr c \<longleftrightarrow> c = \<lparr>cp_format = f, cp_location = l\<rparr> \<and> caps_ok c"
  by (auto simp: mk_caps_def caps_ok_def)

lemma resolve_ok:
  assumes "caps_ok a" "caps_ok b" "caps_match a b"
  obtains c where "caps_resolve a b = Inr c" "caps_ok c" "caps_match c a" "caps_match c b"
    "cp_format c = (if cp_format a = ANY then cp_format b else cp_format a)" "cp_location c = (if cp_location a = ANY then cp_location b else cp_location a)"
proof -
  let ?c = "\<lparr>cp_format = (if cp_format a = ANY then cp_format b else cp_format a), cp_location = (if cp_location a = ANY then cp_location b else cp_location a)\<rparr>"
  have "caps_ok ?c" using assms by (auto simp: caps_ok_def)
  moreover have "caps_resolve a b = Inr ?c" using assms by (auto simp: caps_resolve_def mk_caps_def caps_ok_def)
  moreover have "caps_match ?c a" "caps_match ?c b" using assms(3) by (auto simp: caps_match_def half_matches_def)
  ultimately show ?thesis using that by auto
qed

text \<open>An edge's cap: the first producer cap some consumer cap takes, made concrete by it.  \<^verbatim>\<open>negotiate\<close> never raises.\<close>

lemma negotiate_spec:
  assumes "list_all caps_ok produced" and "list_all caps_ok accepted"
  shows "(negotiate produced accepted = Inr None \<and> (\<forall>p \<in> set produced. \<forall>a \<in> set accepted. \<not> caps_match p a)) \<or>
    (\<exists>c p a. negotiate produced accepted = Inr (Some c) \<and> p \<in> set produced \<and> a \<in> set accepted \<and> caps_match p a \<and> caps_ok c \<and>
       caps_match c p \<and> caps_match c a \<and> (\<not> is_wildcard p \<longrightarrow> c = p) \<and> (cp_location p \<noteq> ANY \<longrightarrow> cp_location c = cp_location p))"
  using assms(1)
proof (induction produced)
  case (Cons p ps)
  show ?case
  proof (cases "List.find (caps_match p) accepted")
    case None
    then have no: "\<forall>a \<in> set accepted. \<not> caps_match p a" by (simp add: find_None_iff)
    have e: "negotiate (p # ps) accepted = negotiate ps accepted" using None by simp
    show ?thesis using Cons no unfolding e by (metis list.pred_inject(2) list.set_intros(2) set_ConsD)
  next
    case (Some a)
    then have a: "a \<in> set accepted" "caps_match p a" by (auto simp: find_Some_iff)
    have ok: "caps_ok p" "caps_ok a" using Cons.prems assms(2) a(1) by (auto simp: list_all_iff)
    obtain c where c: "caps_resolve p a = Inr c" "caps_ok c" "caps_match c p" "caps_match c a"
      "cp_format c = (if cp_format p = ANY then cp_format a else cp_format p)" "cp_location c = (if cp_location p = ANY then cp_location a else cp_location p)"
      using resolve_ok[OF ok a(2)] .
    have "negotiate (p # ps) accepted = Inr (Some c)" using Some c(1) by simp
    moreover have "c = p" if "\<not> is_wildcard p" using c(5,6) that by (simp add: is_wildcard_def)
    ultimately show ?thesis using a c by fastforce
  qed
qed simp

text \<open>Two concrete caps match only when they are equal: in particular nothing matches across \<^verbatim>\<open>gpu\<close> and \<^verbatim>\<open>cpu\<close>.\<close>

lemma concrete_match: "\<not> is_wildcard a \<Longrightarrow> \<not> is_wildcard b \<Longrightarrow> caps_match a b \<longleftrightarrow> a = b"
  by (auto simp: caps_match_def half_matches_def is_wildcard_def)

section \<open>Parsing what was printed\<close>

lemma strip_id: "s \<noteq> [] \<Longrightarrow> \<not> is_space (hd s) \<Longrightarrow> \<not> is_space (last s) \<Longrightarrow> strip s = s"
proof -
  assume a: "s \<noteq> []" "\<not> is_space (hd s)" "\<not> is_space (last s)"
  have "lstrip s = s" using a by (cases s) (auto simp: lstrip_def)
  moreover have "rstrip s = s" using a by (cases s rule: rev_cases) (auto simp: rstrip_def)
  ultimately show ?thesis by (simp add: strip_def)
qed

lemma plain_chars:
  "is_lower_char c \<or> is_digit_char c \<or> c = CHR ''_'' \<Longrightarrow> \<not> is_space c \<and> ascii_lower c = c \<and> c \<noteq> CHR ''@''"
  by (auto simp: is_lower_char_def is_digit_char_def is_space_def ascii_lower_def Let_def)

definition plain :: "string \<Rightarrow> bool" where
  "plain s \<longleftrightarrow> s \<noteq> [] \<and> (\<forall>c \<in> set s. \<not> is_space c \<and> ascii_lower c = c \<and> c \<noteq> CHR ''@'')"

lemma plain_strip: "plain s \<Longrightarrow> strip s = s" "plain s \<Longrightarrow> lower s = s"
proof -
  show "strip s = s" if "plain s" using that by (intro strip_id) (auto simp: plain_def)
  show "lower s = s" if "plain s" using that by (auto simp: plain_def lower_def intro: map_idI)
qed

lemma plain_halves: "token_ok f \<Longrightarrow> plain f" "plain ANY" "l \<in> set LOCATIONS \<Longrightarrow> plain l"
proof -
  show "plain f" if "token_ok f" using that plain_chars by (cases f) (auto simp: token_ok_def plain_def list_all_iff)
  show "plain ANY" by code_simp
  have "list_all plain LOCATIONS" by code_simp
  then show "plain l" if "l \<in> set LOCATIONS" using that by (simp add: list_all_iff)
qed

lemma partition_at_mid: "c \<notin> set a \<Longrightarrow> partition_at c (a @ c # b) = (a, True, b)"
proof -
  assume a: "c \<notin> set a"
  have "takeWhile (\<lambda>x. x \<noteq> c) (a @ c # b) = a" using a by (subst takeWhile_append2) auto
  then show ?thesis by (simp add: partition_at_def)
qed

text \<open>
  A cap is read back from what it prints.  For every legal cap whose format is a token or the wildcard, parsing its text gives the cap.
\<close>

theorem caps_roundtrip:
  assumes "caps_ok c" and "cp_format c = ANY \<or> token_ok (cp_format c)"
  shows "caps_parse (caps_str c) = Inr c"
proof -
  have f: "plain (cp_format c)" and l: "plain (cp_location c)" using assms plain_halves by (auto simp: caps_ok_def)
  have ne: "cp_format c \<noteq> []" "cp_location c \<noteq> []" using f l by (auto simp: plain_def)
  have hd: "hd (caps_str c) = hd (cp_format c)" using ne by (simp add: caps_str_def)
  have lst: "last (caps_str c) = last (cp_location c)" using ne by (simp add: caps_str_def)
  have "strip (caps_str c) = caps_str c"
    by (rule strip_id) (use f l ne hd lst in \<open>auto simp: plain_def caps_str_def\<close>)
  moreover have "partition_at (CHR ''@'') (caps_str c) = (cp_format c, True, cp_location c)"
    unfolding caps_str_def using partition_at_mid[of "CHR ''@''" "cp_format c" "cp_location c"] f by (auto simp: plain_def)
  moreover have "mk_caps (cp_format c) (cp_location c) = Inr c" using assms(1) by (simp add: mk_caps_ok)
  ultimately show ?thesis using plain_strip[OF f] plain_strip[OF l] ne by (simp add: caps_parse_def)
qed

lemma caps_roundtrip_witness: "caps_parse (caps_str \<lparr>cp_format = ''nv12'', cp_location = ''gpu''\<rparr>) = Inr \<lparr>cp_format = ''nv12'', cp_location = ''gpu''\<rparr>"
proof -
  have "caps_ok \<lparr>cp_format = ''nv12'', cp_location = ''gpu''\<rparr>"
    "cp_format \<lparr>cp_format = ''nv12'', cp_location = ''gpu''\<rparr> = ANY \<or> token_ok (cp_format \<lparr>cp_format = ''nv12'', cp_location = ''gpu''\<rparr>)" by code_simp+
  then show ?thesis by (rule caps_roundtrip)
qed

text \<open>The pattern's \<^verbatim>\<open>$\<close> lets a final newline through: such a cap is accepted in code, and its text reads back as another cap.\<close>

lemma newline_format_accepted:
  "mk_caps (''nv12'' @ [CHR 0x0A]) ''gpu'' = Inr \<lparr>cp_format = (''nv12'' @ [CHR 0x0A]), cp_location = ''gpu''\<rparr>"
  "caps_parse (caps_str \<lparr>cp_format = (''nv12'' @ [CHR 0x0A]), cp_location = ''gpu''\<rparr>) = Inr \<lparr>cp_format = ''nv12'', cp_location = ''gpu''\<rparr>"
  by code_simp+

end
