(* ===== verification/Chain.thy ===== *)
theory Chain
  imports Caps
begin

text \<open>
  \<^verbatim>\<open>src/shipinfer/topology/chain.py\<close>: from a parsed chain file to a validated chain.  What a file and an element declare is data; building an
  element from its registered implementation is an argument of \<^verbatim>\<open>load_chain\<close>.
\<close>

section \<open>What is declared\<close>

datatype element_kind = DECODE | DETECT | SEGMENT | EMBED | RECOGNIZE | TRACK | MTMC | OUTPUT

definition kind_value :: "element_kind \<Rightarrow> string" where
  "kind_value k = (case k of DECODE \<Rightarrow> ''decode'' | DETECT \<Rightarrow> ''detect'' | SEGMENT \<Rightarrow> ''segment'' | EMBED \<Rightarrow> ''embed''
     | RECOGNIZE \<Rightarrow> ''recognize'' | TRACK \<Rightarrow> ''track'' | MTMC \<Rightarrow> ''mtmc'' | OUTPUT \<Rightarrow> ''output'')"

definition all_kinds :: "element_kind list" where
  "all_kinds = [DECODE, DETECT, SEGMENT, EMBED, RECOGNIZE, TRACK, MTMC, OUTPUT]"

datatype chain_error =
    ChainSpecError
  | UnknownElementKindError string
  | UnknownElementImplError
  | UnknownElementError string string
  | ChainCycleError "string list"
  | ChainStructureError
  | CapsMismatchError string string
  | ConditionSyntaxError
  | ChainConfigurationError
  | PyError err

definition kind_of_value :: "string \<Rightarrow> element_kind option" where
  "kind_of_value s = List.find (\<lambda>k. kind_value k = s) all_kinds"

definition kind_parse :: "string \<Rightarrow> chain_error + element_kind" where
  "kind_parse text = (case kind_of_value (lower (strip text)) of Some k \<Rightarrow> Inr k | None \<Rightarrow> Inl (UnknownElementKindError text))"

text \<open>The whole slot name, else what precedes its first underscore.\<close>

definition kind_infer :: "string \<Rightarrow> chain_error + element_kind" where
  "kind_infer slot =
     (let head = lower (strip slot) in
      case kind_of_value head of
        Some k \<Rightarrow> Inr k
      | None \<Rightarrow> (case kind_of_value (takeWhile (\<lambda>c. c \<noteq> CHR ''_'') head) of
                   Some k \<Rightarrow> Inr k
                 | None \<Rightarrow> Inl (UnknownElementKindError slot)))"

record element =
  el_impl :: string
  el_in :: "caps list"
  el_out :: "caps list"
  el_requires_model_name :: bool
  el_selects_rows :: bool
  el_reads_per_row :: "string list"
  el_files_raw_response :: bool
  el_meta_key :: string
  el_group :: "(string \<times> string list) option"
  el_classes :: "string list option"
  el_labels :: "string list option"

record 'p element_spec =
  es_impl :: string
  es_kind :: "string option"
  es_model :: "string option"
  es_when :: "string option"
  es_after :: "string list option"
  es_params :: 'p

record 'p node =
  no_name :: string
  no_kind :: element_kind
  no_element :: element
  no_spec :: "'p element_spec"
  no_inputs :: "string list"
  no_outputs :: "string list"
  no_condition :: "condition option"
  no_donor :: "string option"

record edge =
  eg_producer :: string
  eg_consumer :: string
  eg_caps :: caps

definition is_root :: "'p node \<Rightarrow> bool" where "is_root n \<longleftrightarrow> no_inputs n = []"

definition is_sink :: "'p node \<Rightarrow> bool" where "is_sink n \<longleftrightarrow> no_outputs n = []"

definition admits :: "'p node \<Rightarrow> (string \<rightharpoonup> string) \<Rightarrow> bool" where
  "admits n meta \<longleftrightarrow> (case no_condition n of None \<Rightarrow> True | Some c \<Rightarrow> condition_matches c meta)"

section \<open>Wiring\<close>

text \<open>\<^verbatim>\<open>tuple(dict.fromkeys(xs))\<close>: the first occurrence of each.\<close>

definition dedupe :: "'a list \<Rightarrow> 'a list" where "dedupe xs = rev (remdups (rev xs))"

fun check_targets :: "string \<Rightarrow> string list \<Rightarrow> string list \<Rightarrow> chain_error + unit" where
  "check_targets slot known [] = Inr ()"
| "check_targets slot known (t # ts) =
     (if t = slot then Inl (ChainCycleError [slot])
      else if t \<notin> set known then Inl (UnknownElementError slot t)
      else check_targets slot known ts)"

fun resolve_from :: "string list \<Rightarrow> string option \<Rightarrow> (string, 'p element_spec) dict \<Rightarrow> chain_error + (string, string list) dict" where
  "resolve_from known previous [] = Inr []"
| "resolve_from known previous ((slot, declared) # rest) =
     (let resolved = (case es_after declared of Some ps \<Rightarrow> ps | None \<Rightarrow> (case previous of None \<Rightarrow> [] | Some p \<Rightarrow> [p])) in
      rbind (check_targets slot known resolved) (\<lambda>_.
      rbind (resolve_from known (Some slot) rest) (\<lambda>more. Inr ((slot, dedupe resolved) # more))))"

definition resolve_predecessors :: "(string, 'p element_spec) dict \<Rightarrow> chain_error + (string, string list) dict" where
  "resolve_predecessors elements = resolve_from (map fst elements) None elements"

definition consumers_of :: "(string, string list) dict \<Rightarrow> string \<Rightarrow> string list" where
  "consumers_of inputs p = concat (map (\<lambda>(c, ps). map (\<lambda>_. c) (filter (\<lambda>x. x = p) ps)) inputs)"

section \<open>Topological order\<close>

text \<open>The inner loop of Kahn's algorithm: one producer less for each consumer, those with none left are ready.\<close>

fun release_consumers :: "string list \<Rightarrow> (string, int) dict \<Rightarrow> string list \<Rightarrow> (string, int) dict \<times> string list" where
  "release_consumers [] pending ready = (pending, ready)"
| "release_consumers (c # cs) pending ready =
     (case map_of pending c of
        None \<Rightarrow> release_consumers cs pending ready
      | Some n \<Rightarrow> release_consumers cs (AList.update c (n - 1) pending) (if n - 1 = 0 then ready @ [c] else ready))"

definition waiting_count :: "(string, int) dict \<Rightarrow> nat" where
  "waiting_count pending = length (filter (\<lambda>(s, n). 0 < n) pending)"

lemma waiting_count_update:
  "map_of pending c = Some n \<Longrightarrow>
     waiting_count (AList.update c (n - 1) pending) + (if n - 1 = 0 then 1 else 0) \<le> waiting_count pending"
  by (induction pending) (auto simp: waiting_count_def split: if_splits)

lemma release_measure:
  "release_consumers cs pending ready = (pending', ready') \<Longrightarrow>
     length ready' + waiting_count pending' \<le> length ready + waiting_count pending"
proof (induction cs arbitrary: pending ready)
  case (Cons c cs)
  show ?case
  proof (cases "map_of pending c")
    case None
    then show ?thesis using Cons by simp
  next
    case (Some n)
    have "length ready' + waiting_count pending' \<le> length (if n - 1 = 0 then ready @ [c] else ready) + waiting_count (AList.update c (n - 1) pending)"
      by (rule Cons.IH) (use Cons.prems Some in simp)
    then show ?thesis using waiting_count_update[OF Some] by (auto split: if_splits)
  qed
qed simp

function kahn :: "(string, string list) dict \<Rightarrow> (string, int) dict \<Rightarrow> string list \<Rightarrow> string list \<Rightarrow> string list" where
  "kahn inputs pending [] order = order"
| "kahn inputs pending (slot # ready) order =
     (case release_consumers (consumers_of inputs slot) pending ready of
        (pending', ready') \<Rightarrow> kahn inputs pending' ready' (order @ [slot]))"
  by pat_completeness auto
termination
proof (relation "measure (\<lambda>(inputs, pending, ready, order). length ready + waiting_count pending)", goal_cases)
  case (2 inputs pending slot ready order pending' ready')
  then show ?case using release_measure[of "consumers_of inputs slot" pending ready pending' ready'] by simp
qed simp

text \<open>
  The depth-first search of \<^verbatim>\<open>_find_cycle\<close>.  The set \<^verbatim>\<open>grey\<close> of the code is the set of \<^verbatim>\<open>path\<close>; \<^verbatim>\<open>fin\<close> is its \<^verbatim>\<open>done\<close>, in finishing order.  The first argument bounds
  the depth: a path repeats no slot, so the number of slots is enough (\<^verbatim>\<open>topological_order_sound\<close>).
\<close>

fun walk :: "nat \<Rightarrow> (string, string list) dict \<Rightarrow> string \<Rightarrow> string list \<Rightarrow> string list \<Rightarrow> string list \<times> string list \<times> string list"
  and walk_all :: "nat \<Rightarrow> (string, string list) dict \<Rightarrow> string list \<Rightarrow> string list \<Rightarrow> string list \<Rightarrow> string list \<times> string list \<times> string list" where
  "walk 0 inputs slot path fin = ([], path, fin)"
| "walk (Suc n) inputs slot path fin =
     (case walk_all n inputs (consumers_of inputs slot) (path @ [slot]) fin of
        (found, path', fin') \<Rightarrow> if found \<noteq> [] then (found, path', fin') else ([], butlast path', fin' @ [slot]))"
| "walk_all n inputs [] path fin = ([], path, fin)"
| "walk_all n inputs (c # cs) path fin =
     (if c \<in> set path then (dropWhile (\<lambda>x. x \<noteq> c) path, path, fin)
      else if c \<in> set fin then walk_all n inputs cs path fin
      else case walk n inputs c path fin of
        (found, path', fin') \<Rightarrow> if found \<noteq> [] then (found, path', fin') else walk_all n inputs cs path' fin')"

fun search_from :: "(string, string list) dict \<Rightarrow> string list \<Rightarrow> string list \<Rightarrow> string list" where
  "search_from inputs [] fin = []"
| "search_from inputs (s # ss) fin =
     (if s \<in> set fin then search_from inputs ss fin
      else case walk (length inputs) inputs s [] fin of
        (found, path, fin') \<Rightarrow> if found \<noteq> [] then found else search_from inputs ss fin')"

definition find_cycle :: "(string, string list) dict \<Rightarrow> string list" where
  "find_cycle inputs = search_from inputs (map fst inputs) []"

definition topological_order :: "(string, string list) dict \<Rightarrow> chain_error + string list" where
  "topological_order inputs =
     (let pending = map (\<lambda>(s, ps). (s, int (length ps))) inputs;
          order = kahn inputs pending (map fst (filter (\<lambda>(s, n). n = 0) pending)) []
      in if length order \<noteq> length inputs then Inl (ChainCycleError (find_cycle inputs)) else Inr order)"

section \<open>The order is topological, the cycle is a cycle\<close>

definition graph_ok :: "(string, string list) dict \<Rightarrow> bool" where
  "graph_ok inputs \<longleftrightarrow> dict_wf inputs \<and> (\<forall>(c, ps) \<in> set inputs. distinct ps \<and> set ps \<subseteq> fst ` set inputs)"

lemma consumers_mem: "c \<in> set (consumers_of inputs p) \<longleftrightarrow> (\<exists>ps. (c, ps) \<in> set inputs \<and> p \<in> set ps)"
  by (force simp: consumers_of_def)

lemma consumers_distinct: "graph_ok inputs \<Longrightarrow> distinct (consumers_of inputs p)"
proof -
  have "distinct (consumers_of i p)" if "dict_wf i" "\<forall>(c, ps) \<in> set i. distinct ps" for i
    using that
  proof (induction i)
    case (Cons x i)
    obtain c ps where x: "x = (c, ps)" by (cases x)
    have "distinct ps" using Cons.prems(2) x by auto
    then have "filter (\<lambda>x. x = p) ps \<in> {[], [p]}" by (induction ps) (auto simp: filter_empty_conv)
    moreover have "c \<notin> set (consumers_of i p)" using Cons.prems(1) x by (force simp: consumers_mem)
    ultimately show ?case using Cons x by (auto simp: consumers_of_def)
  qed (simp add: consumers_of_def)
  then show "graph_ok inputs \<Longrightarrow> distinct (consumers_of inputs p)" by (fastforce simp: graph_ok_def)
qed

lemma release_spec:
  assumes "distinct cs" and "\<And>c. c \<in> set cs \<Longrightarrow> \<exists>n. map_of pending c = Some n" and "release_consumers cs pending ready = (pending', ready')"
  shows "ready' = ready @ filter (\<lambda>c. map_of pending c = Some 1) cs \<and>
    (\<forall>c. map_of pending' c = (if c \<in> set cs then map_option (\<lambda>n. n - 1) (map_of pending c) else map_of pending c))"
  using assms
proof (induction cs arbitrary: pending ready)
  case (Cons c cs)
  obtain n where n: "map_of pending c = Some n" using Cons.prems(2) by force
  let ?p = "AList.update c (n - 1) pending"
  have "ready' = (if n - 1 = 0 then ready @ [c] else ready) @ filter (\<lambda>c. map_of ?p c = Some 1) cs \<and>
    (\<forall>x. map_of pending' x = (if x \<in> set cs then map_option (\<lambda>n. n - 1) (map_of ?p x) else map_of ?p x))"
    by (rule Cons.IH) (use Cons.prems n in \<open>auto simp: dict_simps\<close>)
  moreover have "filter (\<lambda>c. map_of ?p c = Some 1) cs = filter (\<lambda>c. map_of pending c = Some 1) cs"
    by (rule filter_cong) (use Cons.prems(1) in \<open>auto simp: dict_simps\<close>)
  ultimately show ?case using n Cons.prems(1) by (auto simp: dict_simps)
qed simp

text \<open>Every producer of an element comes before it.\<close>

definition in_order :: "(string, string list) dict \<Rightarrow> string list \<Rightarrow> bool" where
  "in_order inputs order \<longleftrightarrow> (\<forall>i < length order. \<forall>ps. (order ! i, ps) \<in> set inputs \<longrightarrow> set ps \<subseteq> set (take i order))"

lemma in_order_snoc: "in_order inputs (order @ [x]) \<longleftrightarrow> in_order inputs order \<and> (\<forall>ps. (x, ps) \<in> set inputs \<longrightarrow> set ps \<subseteq> set order)"
  by (simp add: in_order_def nth_append less_Suc_eq all_conj_distrib imp_conjR)

definition kahn_inv :: "(string, string list) dict \<Rightarrow> (string, int) dict \<Rightarrow> string list \<Rightarrow> string list \<Rightarrow> bool" where
  "kahn_inv inputs pending ready order \<longleftrightarrow>
     distinct (order @ ready) \<and> set (order @ ready) \<subseteq> fst ` set inputs \<and> in_order inputs order \<and>
     (\<forall>(c, ps) \<in> set inputs. map_of pending c = Some (int (length (filter (\<lambda>p. p \<notin> set order) ps))) \<and>
        (c \<in> set (order @ ready) \<longleftrightarrow> set ps \<subseteq> set order))"

lemma filter_released:
  "distinct ps \<Longrightarrow> x \<notin> set xs \<Longrightarrow>
     length (filter (\<lambda>p. p \<notin> set xs) ps) = length (filter (\<lambda>p. p \<notin> set (xs @ [x])) ps) + (if x \<in> set ps then 1 else 0)"
  by (induction ps) auto

lemma kahn_step:
  assumes g: "graph_ok inputs" and i: "kahn_inv inputs pending (slot # ready) order"
    and r: "release_consumers (consumers_of inputs slot) pending ready = (pending', ready')"
  shows "kahn_inv inputs pending' ready' (order @ [slot])"
proof -
  let ?cs = "consumers_of inputs slot"
  have wf: "dict_wf inputs" using g by (simp add: graph_ok_def)
  have p: "map_of pending c = Some (int (length (filter (\<lambda>p. p \<notin> set order) ps)))" "c \<in> set (order @ slot # ready) \<longleftrightarrow> set ps \<subseteq> set order"
    if "(c, ps) \<in> set inputs" for c ps using i that by (auto simp: kahn_inv_def)
  have sp: "ready' = ready @ filter (\<lambda>c. map_of pending c = Some 1) ?cs"
    "\<And>c. map_of pending' c = (if c \<in> set ?cs then map_option (\<lambda>n. n - 1) (map_of pending c) else map_of pending c)"
  proof -
    have "\<exists>n. map_of pending c = Some n" if "c \<in> set ?cs" for c using that p(1) by (auto simp: consumers_mem)
    from release_spec[OF consumers_distinct[OF g] this r]
    show "ready' = ready @ filter (\<lambda>c. map_of pending c = Some 1) ?cs"
      "\<And>c. map_of pending' c = (if c \<in> set ?cs then map_option (\<lambda>n. n - 1) (map_of pending c) else map_of pending c)" by blast+
  qed
  have s: "slot \<notin> set order" "distinct (order @ ready)" "slot \<notin> set ready" using i by (auto simp: kahn_inv_def)
  have cnt: "length (filter (\<lambda>p. p \<notin> set order) ps) = length (filter (\<lambda>p. p \<notin> set (order @ [slot])) ps) + (if slot \<in> set ps then 1 else 0)"
    if "(c, ps) \<in> set inputs" for c ps
    by (rule filter_released) (use g s(1) that in \<open>auto simp: graph_ok_def\<close>)
  have mem: "slot \<in> set ps \<longleftrightarrow> c \<in> set ?cs" if "(c, ps) \<in> set inputs" for c ps
    using that wf by (auto simp: consumers_mem dest: eq_key_imp_eq_value)
  have one: "c \<in> set ?cs \<and> map_of pending c = Some 1 \<longleftrightarrow> slot \<in> set ps \<and> set ps \<subseteq> set (order @ [slot])" if c: "(c, ps) \<in> set inputs" for c ps
    using p(1)[OF c] cnt[OF c] mem[OF c] by (auto simp: filter_empty_conv)
  have new: "set (filter (\<lambda>c. map_of pending c = Some 1) ?cs) \<inter> set (order @ slot # ready) = {}"
  proof -
    have "c \<notin> set (order @ slot # ready)" if c: "c \<in> set ?cs" for c
    proof -
      obtain ps where ps: "(c, ps) \<in> set inputs" "slot \<in> set ps" using c by (auto simp: consumers_mem)
      then show ?thesis using p(2)[OF ps(1)] s(1) by auto
    qed
    then show ?thesis by auto
  qed
  have key: "fst ` set inputs \<supseteq> set ?cs" by (force simp: consumers_mem)
  have "distinct (order @ [slot] @ ready')" unfolding sp(1) using s new consumers_distinct[OF g] by auto
  moreover have "set (order @ [slot] @ ready') \<subseteq> fst ` set inputs" unfolding sp(1) using i key by (auto simp: kahn_inv_def)
  moreover have "in_order inputs (order @ [slot])" using i p(2)[of slot] by (auto simp: in_order_snoc kahn_inv_def)
  moreover have "map_of pending' c = Some (int (length (filter (\<lambda>p. p \<notin> set (order @ [slot])) ps)))" if c: "(c, ps) \<in> set inputs" for c ps
    using p(1)[OF c] cnt[OF c] mem[OF c] by (simp add: sp(2))
  moreover have "c \<in> set (order @ [slot] @ ready') \<longleftrightarrow> set ps \<subseteq> set (order @ [slot])" if c: "(c, ps) \<in> set inputs" for c ps
    unfolding sp(1) using p(2)[OF c] one[OF c] by auto
  ultimately show ?thesis unfolding kahn_inv_def by (auto simp del: filter_append set_append)
qed

lemma kahn_spec:
  assumes "graph_ok inputs" and "kahn_inv inputs pending ready order"
  shows "\<exists>pending'. kahn_inv inputs pending' [] (kahn inputs pending ready order)"
  using assms
proof (induction inputs pending ready order rule: kahn.induct)
  case (2 inputs pending slot ready order)
  obtain pending' ready' where r: "release_consumers (consumers_of inputs slot) pending ready = (pending', ready')" by (rule prod.exhaust)
  show ?case using 2(1)[OF r[symmetric]] 2(2) kahn_step[OF 2(2,3) r] r by auto
qed auto

lemma kahn_start:
  assumes "graph_ok inputs" and "pending = map (\<lambda>(s, ps). (s, int (length ps))) inputs"
  shows "kahn_inv inputs pending (map fst (filter (\<lambda>(s, n). n = 0) pending)) []"
proof -
  have e: "map fst (filter (\<lambda>(s, n). n = 0) pending) = map fst (filter (\<lambda>(s, ps). ps = []) inputs)"
    unfolding assms(2) by (induction inputs) auto
  have wf: "dict_wf inputs" using assms(1) by (simp add: graph_ok_def)
  have m: "map_of pending c = Some (int (length ps))" if "(c, ps) \<in> set inputs" for c ps
    unfolding assms(2) map_of_map using that wf by simp
  have d: "distinct (map fst (filter (\<lambda>(s, ps). ps = []) inputs))" using wf by (rule distinct_map_filter)
  have "c \<in> fst ` (set inputs \<inter> {(s, ps). ps = []}) \<longleftrightarrow> ps = []" if "(c, ps) \<in> set inputs" for c ps
    using that wf by (force dest: eq_key_imp_eq_value)
  then show ?thesis unfolding e using m d by (auto simp: kahn_inv_def in_order_def Int_def)
qed


text \<open>A cycle, in the direction of flow.\<close>

definition genuine_cycle :: "(string, string list) dict \<Rightarrow> string list \<Rightarrow> bool" where
  "genuine_cycle inputs cyc \<longleftrightarrow> cyc \<noteq> [] \<and> successively (\<lambda>a b. b \<in> set (consumers_of inputs a)) cyc \<and> hd cyc \<in> set (consumers_of inputs (last cyc))"

text \<open>Finishing order: whatever consumes an element has finished before it.\<close>

definition finished :: "(string, string list) dict \<Rightarrow> string list \<Rightarrow> bool" where
  "finished inputs fin \<longleftrightarrow> (\<forall>i < length fin. set (consumers_of inputs (fin ! i)) \<subseteq> set (take i fin))"

lemma finished_snoc: "finished inputs (fin @ [x]) \<longleftrightarrow> finished inputs fin \<and> set (consumers_of inputs x) \<subseteq> set fin"
  by (simp add: finished_def nth_append less_Suc_eq all_conj_distrib imp_conjR)

definition path_ok :: "(string, string list) dict \<Rightarrow> string list \<Rightarrow> bool" where
  "path_ok inputs path \<longleftrightarrow> distinct path \<and> set path \<subseteq> fst ` set inputs \<and> successively (\<lambda>a b. b \<in> set (consumers_of inputs a)) path"

lemma path_length: "path_ok inputs path \<Longrightarrow> length path \<le> length inputs"
  by (metis card_mono distinct_card finite_imageI finite_set length_map list.set_map card_length order_trans path_ok_def)

lemma successively_dropWhile: "successively P xs \<Longrightarrow> successively P (dropWhile Q xs)"
  by (metis successively_append_iff takeWhile_dropWhile_id)

lemma back_edge:
  assumes "path_ok inputs path" and "c \<in> set path" and "c \<in> set (consumers_of inputs (last path))"
  shows "genuine_cycle inputs (dropWhile (\<lambda>x. x \<noteq> c) path)"
proof -
  have ne: "dropWhile (\<lambda>x. x \<noteq> c) path \<noteq> []" using assms(2) by (auto simp: dropWhile_eq_Nil_conv)
  have "hd (dropWhile (\<lambda>x. x \<noteq> c) path) = c" using hd_dropWhile[OF ne] by simp
  moreover have "last (dropWhile (\<lambda>x. x \<noteq> c) path) = last path" using ne by (metis last_appendR takeWhile_dropWhile_id)
  ultimately show ?thesis using ne assms(1,3) by (simp add: genuine_cycle_def path_ok_def successively_dropWhile)
qed

lemma walk_spec:
  "path_ok inputs (path @ [slot]) \<Longrightarrow> finished inputs fin \<Longrightarrow> length inputs \<le> n + length path \<Longrightarrow>
     walk n inputs slot path fin = (found, path', fin') \<Longrightarrow>
     (if found \<noteq> [] then genuine_cycle inputs found else path' = path \<and> finished inputs fin' \<and> set fin \<subseteq> set fin' \<and> slot \<in> set fin')"
  "path_ok inputs path \<Longrightarrow> path \<noteq> [] \<Longrightarrow> set cs \<subseteq> set (consumers_of inputs (last path)) \<Longrightarrow> finished inputs fin \<Longrightarrow> length inputs \<le> n + length path \<Longrightarrow>
     walk_all n inputs cs path fin = (found, path', fin') \<Longrightarrow>
     (if found \<noteq> [] then genuine_cycle inputs found else path' = path \<and> finished inputs fin' \<and> set fin \<subseteq> set fin' \<and> set cs \<subseteq> set fin')"
proof (induction n inputs slot path fin and n inputs cs path fin arbitrary: found path' fin' and found path' fin' rule: walk_walk_all.induct)
  case (1 inputs slot path fin)
  then show ?case using path_length[OF 1(1)] by simp
next
  case (2 n inputs slot path fin)
  obtain f p k where w: "walk_all n inputs (consumers_of inputs slot) (path @ [slot]) fin = (f, p, k)" using prod_cases3 by blast
  have "if f \<noteq> [] then genuine_cycle inputs f else p = path @ [slot] \<and> finished inputs k \<and> set fin \<subseteq> set k \<and> set (consumers_of inputs slot) \<subseteq> set k"
    by (rule 2(1)[OF _ _ _ _ _ w]) (use 2(2-4) in auto)
  then show ?case using 2(5) w by (auto simp: finished_snoc split: if_splits)
next
  case (3 n inputs path fin)
  then show ?case by auto
next
  case (4 n inputs c cs path fin)
  consider "c \<in> set path" | "c \<notin> set path" "c \<in> set fin" | "c \<notin> set path" "c \<notin> set fin" by blast
  then show ?case
  proof cases
    case 1
    then have "(dropWhile (\<lambda>x. x \<noteq> c) path, path, fin) = (found, path', fin')" using 4(9) by (simp only: walk_all.simps if_True)
    then have "dropWhile (\<lambda>x. x \<noteq> c) path = found" by (rule Pair_inject)
    then show ?thesis using back_edge[OF 4(4) 1] 4(6) by (simp add: genuine_cycle_def)
  next
    case 2
    have "if found \<noteq> [] then genuine_cycle inputs found else path' = path \<and> finished inputs fin' \<and> set fin \<subseteq> set fin' \<and> set cs \<subseteq> set fin'"
      by (rule 4(1)[OF 2]) (use 4(4-9) 2 in auto)
    then show ?thesis using 2(2) by auto
  next
    case 3
    obtain f p k where w: "walk n inputs c path fin = (f, p, k)" using prod_cases3 by blast
    have key: "c \<in> fst ` set inputs" using 4(6) by (force simp: consumers_mem)
    have po: "path_ok inputs (path @ [c])" using 4(4-6) 3 key by (auto simp: path_ok_def successively_append_iff)
    have i: "if f \<noteq> [] then genuine_cycle inputs f else p = path \<and> finished inputs k \<and> set fin \<subseteq> set k \<and> c \<in> set k"
      by (rule 4(2)[OF 3 po 4(7,8) w])
    show ?thesis
    proof (cases "f = []")
      case False
      then show ?thesis using i w 3 4(9) by simp
    next
      case True
      then have n: "p = path" "finished inputs k" "set fin \<subseteq> set k" "c \<in> set k" "walk_all n inputs cs path k = (found, path', fin')"
        using i w 3 4(9) by simp_all
      have "if found \<noteq> [] then genuine_cycle inputs found else path' = p \<and> finished inputs fin' \<and> set k \<subseteq> set fin' \<and> set cs \<subseteq> set fin'"
        by (rule 4(3)[OF 3 w[symmetric] refl]) (use True n 4(4-8) in auto)
      then show ?thesis using n(1,4) subset_trans[OF n(3), of "set fin'"] by auto
    qed
  qed
qed

lemma search_spec:
  assumes "finished inputs fin" and "set ss \<subseteq> fst ` set inputs"
  shows "if search_from inputs ss fin \<noteq> [] then genuine_cycle inputs (search_from inputs ss fin)
    else (\<exists>fin'. finished inputs fin' \<and> set fin \<union> set ss \<subseteq> set fin')"
  using assms
proof (induction ss arbitrary: fin)
  case (Cons s ss)
  show ?case
  proof (cases "s \<in> set fin")
    case True
    then have e: "search_from inputs (s # ss) fin = search_from inputs ss fin" by simp
    have "set ss \<subseteq> fst ` set inputs" using Cons.prems(2) by simp
    from Cons.IH[OF Cons.prems(1) this] show ?thesis unfolding e using True by (auto split: if_splits)
  next
    case False
    obtain f p k where w: "walk (length inputs) inputs s [] fin = (f, p, k)" using prod_cases3 by blast
    have i: "if f \<noteq> [] then genuine_cycle inputs f else p = [] \<and> finished inputs k \<and> set fin \<subseteq> set k \<and> s \<in> set k"
      by (rule walk_spec(1)[OF _ Cons.prems(1) _ w]) (use Cons.prems(2) in \<open>auto simp: path_ok_def\<close>)
    show ?thesis
    proof (cases "f = []")
      case True
      then show ?thesis using i Cons.IH[of k] Cons.prems(2) w False by (auto split: if_splits)
    qed (use i w False in simp)
  qed
qed auto

lemma no_rest:
  assumes "finished inputs fin" and "R \<subseteq> set fin" and "\<And>c. c \<in> R \<Longrightarrow> \<exists>p \<in> R. c \<in> set (consumers_of inputs p)"
  shows "R = {}"
  using assms(1,2)
proof (induction fin rule: rev_induct)
  case (snoc x fin)
  have f: "finished inputs fin" "set (consumers_of inputs x) \<subseteq> set fin" using snoc.prems(1) by (simp_all add: finished_snoc)
  have "R \<subseteq> set fin"
  proof (cases "x \<in> R \<and> x \<notin> set fin")
    case True
    then obtain p where p: "p \<in> R" "x \<in> set (consumers_of inputs p)" using assms(3) by blast
    then have "p \<noteq> x" using f(2) True by auto
    then have "p \<in> set fin" using p(1) snoc.prems(2) by auto
    then obtain i where "i < length fin" "p = fin ! i" by (auto simp: in_set_conv_nth)
    then have "x \<in> set (take i fin)" using p(2) f(1) by (auto simp: finished_def)
    then show ?thesis using True by (auto dest: in_set_takeD)
  qed (use snoc.prems(2) in auto)
  then show ?case using snoc.IH f(1) by blast
qed simp

lemma topological_order_spec:
  assumes g: "graph_ok inputs"
  shows "case topological_order inputs of
      Inr order \<Rightarrow> mset order = mset (map fst inputs) \<and> in_order inputs order
    | Inl e \<Rightarrow> \<exists>cyc. e = ChainCycleError cyc \<and> genuine_cycle inputs cyc"
proof -
  define pending where "pending = map (\<lambda>(s, ps). (s, int (length ps))) inputs"
  define order where "order = kahn inputs pending (map fst (filter (\<lambda>(s, n). n = 0) pending)) []"
  have t: "topological_order inputs = (if length order \<noteq> length inputs then Inl (ChainCycleError (find_cycle inputs)) else Inr order)"
    by (simp add: topological_order_def Let_def order_def pending_def)
  obtain pending' where k: "kahn_inv inputs pending' [] order"
    using kahn_spec[OF g kahn_start[OF g pending_def]] unfolding order_def by blast
  then have k': "distinct order" "set order \<subseteq> fst ` set inputs" "in_order inputs order" "\<And>c ps. (c, ps) \<in> set inputs \<Longrightarrow> c \<in> set order \<longleftrightarrow> set ps \<subseteq> set order"
    by (auto simp: kahn_inv_def)
  have wf: "dict_wf inputs" using g by (simp add: graph_ok_def)
  show ?thesis
  proof (cases "length order = length inputs")
    case True
    have "card (set order) = card (set (map fst inputs))" using True distinct_card[OF k'(1)] distinct_card[OF wf] by simp
    then have "set order = set (map fst inputs)" using k'(2) by (intro card_subset_eq) auto
    then have "mset order = mset (map fst inputs)" using k'(1) wf set_eq_iff_mset_eq_distinct by blast
    then show ?thesis using t True k'(3) by simp
  next
    case False
    define R where "R = fst ` set inputs - set order"
    have ne: "R \<noteq> {}"
    proof
      assume "R = {}"
      then have "set order = set (map fst inputs)" using k'(2) by (auto simp: R_def)
      then have "length order = length (map fst inputs)" using distinct_card[OF k'(1)] distinct_card[OF wf] by metis
      then show False using False by simp
    qed
    have pr: "\<exists>p \<in> R. c \<in> set (consumers_of inputs p)" if c: "c \<in> R" for c
    proof -
      obtain ps where ps: "(c, ps) \<in> set inputs" "c \<notin> set order" using c by (auto simp: R_def)
      then obtain p where "p \<in> set ps" "p \<notin> set order" using k'(4)[OF ps(1)] by auto
      then show ?thesis using g ps(1) by (fastforce simp: R_def graph_ok_def consumers_mem)
    qed
    have "genuine_cycle inputs (find_cycle inputs)"
    proof (rule ccontr)
      assume n: "\<not> genuine_cycle inputs (find_cycle inputs)"
      have "finished inputs []" by (simp add: finished_def)
      from search_spec[OF this, of "map fst inputs"] n obtain fin where "finished inputs fin" "fst ` set inputs \<subseteq> set fin"
        unfolding find_cycle_def by (auto split: if_splits)
      then show False using no_rest[of inputs fin R] pr ne by (auto simp: R_def)
    qed
    then show ?thesis using t False by simp
  qed
qed

end
