(* ===== verification/Chain_Load.thy ===== *)
theory Chain_Load
  imports Chain
begin

text \<open>
  The second half of \<^verbatim>\<open>src/shipinfer/topology/chain.py\<close>: the rules of a chain, the negotiation of its edges, and \<^verbatim>\<open>Topology.from_spec\<close>, with what a
  chain that loads is guaranteed to be.
\<close>

section \<open>The rules of a chain\<close>

text \<open>What a registered class and its instance declare; \<^verbatim>\<open>Element.__init__\<close> parses the caps.\<close>

record element_decl =
  ed_accepts :: "string list"
  ed_produces :: "string list"
  ed_rest :: element

definition mk_element :: "element_decl \<Rightarrow> chain_error + element" where
  "mk_element d = (case parse_caps (ed_accepts d) of Inl e \<Rightarrow> Inl (PyError e)
     | Inr i \<Rightarrow> (case parse_caps (ed_produces d) of Inl e \<Rightarrow> Inl (PyError e)
       | Inr out \<Rightarrow> Inr ((ed_rest d)\<lparr>el_in := i, el_out := out\<rparr>)))"

definition refuse_if :: "bool \<Rightarrow> chain_error \<Rightarrow> chain_error + unit" where
  "refuse_if b e = (if b then Inl e else Inr ())"

fun each :: "('a \<Rightarrow> chain_error + unit) \<Rightarrow> 'a list \<Rightarrow> chain_error + unit" where
  "each f [] = Inr ()"
| "each f (x # xs) = rbind (f x) (\<lambda>_. each f xs)"

lemma each_Inr [simp]: "each f xs = Inr () \<longleftrightarrow> (\<forall>x \<in> set xs. f x = Inr ())"
  by (induction xs) (auto simp: rbind_Inr_iff)

lemma refuse_Inr [simp]: "refuse_if b e = Inr () \<longleftrightarrow> \<not> b"
  by (simp add: refuse_if_def)

definition node_named :: "'p node list \<Rightarrow> string \<Rightarrow> 'p node option" where
  "node_named nodes s = List.find (\<lambda>n. no_name n = s) nodes"

definition check_root :: "'p node \<Rightarrow> chain_error + unit" where
  "check_root n =
     rbind (refuse_if (no_kind n \<noteq> DECODE) ChainStructureError) (\<lambda>_.
     rbind (refuse_if (list_ex (\<lambda>c. \<not> is_wildcard c) (el_in (no_element n))) ChainStructureError) (\<lambda>_.
     rbind (refuse_if (list_ex is_wildcard (el_out (no_element n))) ChainStructureError) (\<lambda>_.
       refuse_if (no_condition n \<noteq> None) ChainStructureError)))"

fun add_producers :: "string list \<Rightarrow> string list \<Rightarrow> string list \<Rightarrow> string list \<times> string list" where
  "add_producers [] reaching frontier = (reaching, frontier)"
| "add_producers (p # ps) reaching frontier =
     (if p \<in> set reaching then add_producers ps reaching frontier else add_producers ps (reaching @ [p]) (frontier @ [p]))"

definition all_inputs :: "'p node list \<Rightarrow> string set" where "all_inputs nodes = (\<Union>n \<in> set nodes. set (no_inputs n))"

lemma add_producers_measure:
  assumes "add_producers ps reaching frontier = (reaching', frontier')" and "set ps \<subseteq> A" and "finite A"
  shows "length frontier' + card (A - set reaching') = length frontier + card (A - set reaching)"
  using assms(1,2)
proof (induction ps arbitrary: reaching frontier)
  case (Cons p ps)
  show ?case
  proof (cases "p \<in> set reaching")
    case True
    then show ?thesis using Cons by simp
  next
    case False
    have "A - set (reaching @ [p]) = (A - set reaching) - {p}" by auto
    then have "Suc (card (A - set (reaching @ [p]))) = card (A - set reaching)"
      using card_Suc_Diff1[of "A - set reaching" p] False Cons.prems(2) assms(3) by auto
    then show ?thesis using Cons.IH[of "reaching @ [p]" "frontier @ [p]"] Cons.prems False by simp
  qed
qed simp

text \<open>The loop over the frontier of \<^verbatim>\<open>_check_structure\<close>; every name in it is a node's.\<close>

function reach_back :: "'p node list \<Rightarrow> string list \<Rightarrow> string list \<Rightarrow> string list" where
  "reach_back nodes reaching [] = reaching"
| "reach_back nodes reaching (s # frontier) =
     (case node_named nodes s of
        None \<Rightarrow> reach_back nodes reaching frontier
      | Some n \<Rightarrow> (case add_producers (no_inputs n) reaching frontier of
          (reaching', frontier') \<Rightarrow> reach_back nodes reaching' frontier'))"
  by pat_completeness auto
termination
proof (relation "measure (\<lambda>(nodes, reaching, frontier). length frontier + card (all_inputs nodes - set reaching))", goal_cases)
  case (3 nodes reaching s frontier n reaching' frontier')
  have "set (no_inputs n) \<subseteq> all_inputs nodes" using 3(1) by (fastforce simp: node_named_def find_Some_iff all_inputs_def in_set_conv_nth)
  moreover have "add_producers (no_inputs n) reaching frontier = (reaching', frontier')" using 3(2) by (rule sym)
  moreover have "finite (all_inputs nodes)" by (simp add: all_inputs_def)
  ultimately have "length frontier' + card (all_inputs nodes - set reaching') = length frontier + card (all_inputs nodes - set reaching)"
    by (intro add_producers_measure)
  then show ?case by simp
qed auto

definition check_structure :: "'p node list \<Rightarrow> chain_error + unit" where
  "check_structure nodes =
     (let outs = filter (\<lambda>n. no_kind n = OUTPUT) nodes; start = map no_name outs in
      rbind (each check_root (filter is_root nodes)) (\<lambda>_.
      rbind (refuse_if (outs = []) ChainStructureError) (\<lambda>_.
      rbind (each (\<lambda>n. refuse_if (\<not> is_sink n) ChainStructureError) outs) (\<lambda>_.
        (let reaching = reach_back nodes start start in
         refuse_if (list_ex (\<lambda>n. no_name n \<notin> set reaching) nodes) ChainStructureError)))))"

definition check_row_selection :: "'p node list \<Rightarrow> chain_error + unit" where
  "check_row_selection nodes =
     rbind (each (\<lambda>n. refuse_if (el_selects_rows (no_element n) \<and>
         (case no_condition n of None \<Rightarrow> False | Some c \<Rightarrow> cn_field c = ''class'')) ChainStructureError) nodes) (\<lambda>_.
     (let emitters = filter (\<lambda>n. el_labels (no_element n) \<noteq> None) nodes;
          known = concat (map (\<lambda>n. the (el_labels (no_element n))) emitters) in
      if emitters = [] then Inr ()
      else each (\<lambda>n. refuse_if (list_ex (\<lambda>l. l \<notin> set known) (case el_classes (no_element n) of None \<Rightarrow> [] | Some ls \<Rightarrow> ls))
        ChainStructureError) nodes))"

definition check_row_indexed_meta :: "'p node list \<Rightarrow> chain_error + unit" where
  "check_row_indexed_meta nodes =
     (let wanted = concat (map (\<lambda>n. el_reads_per_row (no_element n)) nodes) in
      if wanted = [] then Inr ()
      else each (\<lambda>n. refuse_if (el_meta_key (no_element n) \<in> set wanted \<and> el_files_raw_response (no_element n)) ChainStructureError) nodes)"

definition ROW_FIELD_KINDS :: "element_kind \<Rightarrow> string option" where
  "ROW_FIELD_KINDS k = (case k of EMBED \<Rightarrow> Some ''embedding'' | SEGMENT \<Rightarrow> Some ''mask_area_px'' | TRACK \<Rightarrow> Some ''track_id''
     | MTMC \<Rightarrow> Some ''global_id'' | _ \<Rightarrow> None)"

text \<open>\<^verbatim>\<open>itertools.combinations(xs, 2)\<close>, and whether two slots contest a row.\<close>

fun combinations :: "'a list \<Rightarrow> ('a \<times> 'a) list" where
  "combinations [] = []"
| "combinations (x # xs) = map (Pair x) xs @ combinations xs"

definition contest :: "string list option \<Rightarrow> string list option \<Rightarrow> bool" where
  "contest left right =
     (if left = Some [] \<or> right = Some [] then False
      else case (left, right) of
        (Some l, Some r) \<Rightarrow> list_ex (\<lambda>x. x \<in> set r) l
      | _ \<Rightarrow> True)"

definition fillers_by_field :: "'p node list \<Rightarrow> (string, 'p node list) dict" where
  "fillers_by_field nodes = fold (\<lambda>n d. case ROW_FIELD_KINDS (no_kind n) of
       None \<Rightarrow> d
     | Some field \<Rightarrow> if el_selects_rows (no_element n)
         then AList.update field ((case map_of d field of None \<Rightarrow> [] | Some ns \<Rightarrow> ns) @ [n]) d else d) nodes []"

definition check_one_filler_per_row :: "'p node list \<Rightarrow> chain_error + unit" where
  "check_one_filler_per_row nodes =
     each (\<lambda>(field, fillers). each (\<lambda>(a, b).
         refuse_if (contest (el_classes (no_element a)) (el_classes (no_element b))) ChainStructureError) (combinations fillers))
       (fillers_by_field nodes)"

definition cross_camera_slots :: "'p node list \<Rightarrow> 'p node list" where
  "cross_camera_slots nodes = filter (\<lambda>n. no_kind n = MTMC) nodes"

definition check_every_group_is_rostered :: "'p node list \<Rightarrow> chain_error + unit" where
  "check_every_group_is_rostered nodes =
     (let slots = cross_camera_slots nodes in
      if length slots < 2 then Inr ()
      else refuse_if (list_ex (\<lambda>n. case el_group (no_element n) of None \<Rightarrow> True | Some (g, cams) \<Rightarrow> cams = []) slots) ChainConfigurationError)"

fun claim_cameras :: "string \<Rightarrow> string list \<Rightarrow> (string, string) dict \<Rightarrow> chain_error + (string, string) dict" where
  "claim_cameras slot [] claimed = Inr claimed"
| "claim_cameras slot (cam # cams) claimed =
     (case map_of claimed cam of
        Some owner \<Rightarrow> Inl ChainConfigurationError
      | None \<Rightarrow> claim_cameras slot cams (AList.update cam slot claimed))"

fun claim_all :: "'p node list \<Rightarrow> (string, string) dict \<Rightarrow> chain_error + (string, string) dict" where
  "claim_all [] claimed = Inr claimed"
| "claim_all (n # ns) claimed = (case el_group (no_element n) of
     None \<Rightarrow> claim_all ns claimed
   | Some (g, cams) \<Rightarrow> rbind (claim_cameras (no_name n) cams claimed) (claim_all ns))"

definition check_no_camera_is_claimed_twice :: "'p node list \<Rightarrow> chain_error + unit" where
  "check_no_camera_is_claimed_twice nodes = rbind (claim_all (cross_camera_slots nodes) []) (\<lambda>_. Inr ())"

section \<open>Edges, bypasses, donors\<close>

record arrival =
  ar_origin :: string
  ar_caps :: caps
  ar_skipped :: "string option"

text \<open>The values that arrive for a half, wildcards aside.\<close>

definition agreed_half :: "string list \<Rightarrow> chain_error + string" where
  "agreed_half values =
     (let concrete = remdups (filter (\<lambda>v. v \<noteq> ANY) values) in
      if 1 < length concrete then Inl ChainStructureError else Inr (case concrete of [] \<Rightarrow> ANY | v # _ \<Rightarrow> v))"

definition resolve_cap :: "arrival list \<Rightarrow> caps \<Rightarrow> chain_error + caps" where
  "resolve_cap arrivals c =
     rbind (if cp_format c \<noteq> ANY then Inr (cp_format c) else agreed_half (map (\<lambda>a. cp_format (ar_caps a)) arrivals)) (\<lambda>f.
     rbind (if cp_location c \<noteq> ANY then Inr (cp_location c) else agreed_half (map (\<lambda>a. cp_location (ar_caps a)) arrivals)) (\<lambda>l.
     case mk_caps f l of Inl e \<Rightarrow> Inl (PyError e) | Inr r \<Rightarrow> Inr r))"

definition resolve_produced :: "'p node \<Rightarrow> arrival list \<Rightarrow> chain_error + caps list" where
  "resolve_produced n arrivals =
     (let declared = el_out (no_element n) in
      if \<not> list_ex is_wildcard declared then Inr declared
      else rbind (rmapM (resolve_cap arrivals) declared) (\<lambda>resolved. Inr (dedupe resolved)))"

type_synonym arrivals = "string \<Rightarrow> arrival list"

definition arrive :: "string \<Rightarrow> arrival list \<Rightarrow> arrivals \<Rightarrow> arrivals" where
  "arrive s extra a = a(s := a s @ extra)"

definition negotiated :: "string \<Rightarrow> caps list \<Rightarrow> string \<Rightarrow> caps list \<Rightarrow> chain_error + caps" where
  "negotiated producer produced consumer accepted = (case negotiate produced accepted of
     Inl e \<Rightarrow> Inl (PyError e)
   | Inr None \<Rightarrow> Inl (CapsMismatchError producer consumer)
   | Inr (Some c) \<Rightarrow> Inr c)"

text \<open>What arrives at a conditional element goes on to its consumer when it is skipped.\<close>

definition bypass :: "string \<Rightarrow> string \<Rightarrow> caps list \<Rightarrow> arrival \<Rightarrow> chain_error + arrival" where
  "bypass skipped consumer accepted a =
     rbind (negotiated (ar_origin a) [ar_caps a] consumer accepted)
       (\<lambda>_. Inr \<lparr>ar_origin = ar_origin a, ar_caps = ar_caps a, ar_skipped = Some skipped\<rparr>)"

definition hand_over :: "'p node list \<Rightarrow> 'p node \<Rightarrow> caps list \<Rightarrow> string \<Rightarrow> arrivals \<times> edge list \<Rightarrow> chain_error + arrivals \<times> edge list" where
  "hand_over nodes n produced consumer st =
     (case node_named nodes consumer of
        None \<Rightarrow> Inl (PyError KeyError)
      | Some cn \<Rightarrow>
          rbind (negotiated (no_name n) produced consumer (el_in (no_element cn))) (\<lambda>c.
          let a = arrive consumer [\<lparr>ar_origin = no_name n, ar_caps = c, ar_skipped = None\<rparr>] (fst st);
              es = snd st @ [\<lparr>eg_producer = no_name n, eg_consumer = consumer, eg_caps = c\<rparr>] in
          if no_condition n = None then Inr (a, es)
          else rbind (rmapM (bypass (no_name n) consumer (el_in (no_element cn))) (a (no_name n)))
                 (\<lambda>extra. Inr (arrive consumer extra a, es))))"

fun hand_overs :: "'p node list \<Rightarrow> 'p node \<Rightarrow> caps list \<Rightarrow> string list \<Rightarrow> arrivals \<times> edge list \<Rightarrow> chain_error + arrivals \<times> edge list" where
  "hand_overs nodes n produced [] st = Inr st"
| "hand_overs nodes n produced (c # cs) st = rbind (hand_over nodes n produced c st) (hand_overs nodes n produced cs)"

fun negotiate_from :: "'p node list \<Rightarrow> 'p node list \<Rightarrow> arrivals \<times> edge list \<Rightarrow> chain_error + arrivals \<times> edge list" where
  "negotiate_from nodes [] st = Inr st"
| "negotiate_from nodes (n # ns) st =
     rbind (resolve_produced n (fst st (no_name n))) (\<lambda>produced.
     rbind (hand_overs nodes n produced (no_outputs n) st) (negotiate_from nodes ns))"

definition negotiate_edges :: "'p node list \<Rightarrow> chain_error + edge list" where
  "negotiate_edges nodes = rbind (negotiate_from nodes nodes (\<lambda>s. [], [])) (\<lambda>st. Inr (snd st))"

definition edge_caps :: "edge list \<Rightarrow> string \<Rightarrow> string \<Rightarrow> caps option" where
  "edge_caps edges p c = map_option eg_caps (List.find (\<lambda>e. eg_producer e = p \<and> eg_consumer e = c) (rev edges))"

fun donor_for :: "edge list \<Rightarrow> string \<Rightarrow> string list \<Rightarrow> caps list \<Rightarrow> string" where
  "donor_for edges s inputs [] = hd inputs"
| "donor_for edges s inputs (d # ds) =
     (case List.find (\<lambda>p. case edge_caps edges p s of None \<Rightarrow> False | Some c \<Rightarrow> caps_match c d) inputs of
        Some p \<Rightarrow> p
      | None \<Rightarrow> donor_for edges s inputs ds)"

definition with_donors :: "'p node list \<Rightarrow> edge list \<Rightarrow> 'p node list" where
  "with_donors nodes edges = map (\<lambda>n. if is_root n then n
     else n\<lparr>no_donor := Some (donor_for edges (no_name n) (no_inputs n) (el_in (no_element n)))\<rparr>) nodes"

section \<open>Loading a chain\<close>

record 'p topology =
  tp_name :: string
  tp_nodes :: "'p node list"
  tp_edges :: "edge list"

text \<open>
  \<^verbatim>\<open>create\<close> is \<^verbatim>\<open>create_element\<close> up to the base constructor: what the implementation registered for a kind declares for a slot, or why there is none.
\<close>

type_synonym 'p create = "element_kind \<Rightarrow> string \<Rightarrow> string \<Rightarrow> 'p \<Rightarrow> string option \<Rightarrow> chain_error + element_decl"

definition kind_of_slot :: "string \<times> 'p element_spec \<Rightarrow> chain_error + element_kind" where
  "kind_of_slot = (\<lambda>(slot, s). case es_kind s of Some k \<Rightarrow> kind_parse k | None \<Rightarrow> kind_infer slot)"

definition build_element :: "'p create \<Rightarrow> (string \<times> 'p element_spec) \<times> element_kind \<Rightarrow> chain_error + element" where
  "build_element create = (\<lambda>((slot, s), k). rbind (create k (es_impl s) slot (es_params s) (es_model s)) mk_element)"

definition spec_condition :: "'p element_spec \<Rightarrow> chain_error + condition option" where
  "spec_condition s = (case es_when s of
     None \<Rightarrow> Inr None
   | Some text \<Rightarrow> (case condition_parse text of None \<Rightarrow> Inl ConditionSyntaxError | Some c \<Rightarrow> Inr (Some c)))"

definition mk_node ::
  "(string, 'p element_spec) dict \<Rightarrow> (string, element_kind) dict \<Rightarrow> (string, element) dict \<Rightarrow> (string, string list) dict \<Rightarrow> string \<Rightarrow> chain_error + 'p node" where
  "mk_node specs kinds elements inputs slot =
     rbind (spec_condition (the (map_of specs slot))) (\<lambda>c.
       Inr \<lparr>no_name = slot, no_kind = the (map_of kinds slot), no_element = the (map_of elements slot), no_spec = the (map_of specs slot),
            no_inputs = the (map_of inputs slot), no_outputs = consumers_of inputs slot, no_condition = c, no_donor = None\<rparr>)"

definition check_nodes :: "'p node list \<Rightarrow> chain_error + unit" where
  "check_nodes nodes =
     rbind (check_structure nodes) (\<lambda>_.
     rbind (check_row_selection nodes) (\<lambda>_.
     rbind (check_row_indexed_meta nodes) (\<lambda>_.
     rbind (check_one_filler_per_row nodes) (\<lambda>_.
     rbind (check_every_group_is_rostered nodes) (\<lambda>_.
       check_no_camera_is_claimed_twice nodes)))))"

definition from_spec :: "'p create \<Rightarrow> string \<Rightarrow> (string, 'p element_spec) dict \<Rightarrow> chain_error + 'p topology" where
  "from_spec create name specs =
     (if specs = [] then Inl ChainSpecError
      else
        rbind (rmapM kind_of_slot specs) (\<lambda>ks.
        rbind (rmapM (build_element create) (zip specs ks)) (\<lambda>els.
        rbind (each (\<lambda>((slot, s), el). refuse_if (el_requires_model_name el \<and> (es_model s = None \<or> es_model s = Some [])) ChainStructureError)
          (zip specs els)) (\<lambda>_.
        rbind (resolve_predecessors specs) (\<lambda>inputs.
        rbind (topological_order inputs) (\<lambda>order.
        rbind (rmapM (mk_node specs (zip (map fst specs) ks) (zip (map fst specs) els) inputs) order) (\<lambda>nodes.
        rbind (check_nodes nodes) (\<lambda>_.
        rbind (negotiate_edges nodes) (\<lambda>edges.
          Inr \<lparr>tp_name = name, tp_nodes = with_donors nodes edges, tp_edges = edges\<rparr>)))))))))"

definition camera_groups :: "'p node list \<Rightarrow> chain_error + (string, string) dict" where
  "camera_groups nodes = fold (\<lambda>n r. rbind r (\<lambda>groups. case el_group (no_element n) of
       None \<Rightarrow> Inr groups
     | Some (g, cams) \<Rightarrow> fold (\<lambda>cam r. rbind r (\<lambda>gs. case map_of gs cam of
           Some old \<Rightarrow> if old \<noteq> g then Inl ChainConfigurationError else Inr (AList.update cam g gs)
         | None \<Rightarrow> Inr (AList.update cam g gs))) cams (Inr groups))) nodes (Inr [])"

section \<open>A resolved chain is a graph\<close>

lemma dedupe_facts [simp]: "set (dedupe xs) = set xs" "distinct (dedupe xs)"
  by (simp_all add: dedupe_def)

lemma check_targets_Inr: "check_targets slot known ts = Inr () \<longleftrightarrow> slot \<notin> set ts \<and> set ts \<subseteq> set known"
  by (induction ts) auto

lemma resolve_from_Inr:
  "resolve_from known previous specs = Inr inputs \<Longrightarrow>
     map fst inputs = map fst specs \<and> (\<forall>(c, ps) \<in> set inputs. distinct ps \<and> set ps \<subseteq> set known \<and> c \<notin> set ps)"
proof (induction known previous specs arbitrary: inputs rule: resolve_from.induct)
  case (2 known previous slot declared rest)
  let ?r = "case es_after declared of Some ps \<Rightarrow> ps | None \<Rightarrow> (case previous of None \<Rightarrow> [] | Some p \<Rightarrow> [p])"
  obtain rest' where r: "slot \<notin> set ?r" "set ?r \<subseteq> set known" "resolve_from known (Some slot) rest = Inr rest'" "inputs = (slot, dedupe ?r) # rest'"
    using 2(2) by (auto simp: rbind_Inr_iff check_targets_Inr Let_def)
  have "map fst rest' = map fst rest \<and> (\<forall>(c, ps) \<in> set rest'. distinct ps \<and> set ps \<subseteq> set known \<and> c \<notin> set ps)"
    by (rule 2(1)[OF refl r(3)])
  then show ?case using r(1,2) unfolding r(4) by auto
qed simp

lemma resolve_graph:
  assumes "dict_wf specs" and "resolve_predecessors specs = Inr inputs"
  shows "graph_ok inputs" "map fst inputs = map fst specs" "(c, ps) \<in> set inputs \<Longrightarrow> c \<notin> set ps"
proof -
  note r = resolve_from_Inr[OF assms(2)[unfolded resolve_predecessors_def]]
  show k: "map fst inputs = map fst specs" using r by simp
  then have "fst ` set inputs = set (map fst specs)" by (metis list.set_map)
  then show "graph_ok inputs" using r assms(1) k by (fastforce simp: graph_ok_def)
  show "(c, ps) \<in> set inputs \<Longrightarrow> c \<notin> set ps" using r by auto
qed

text \<open>
  C26: the order of a chain.  Whatever \<^verbatim>\<open>after:\<close> lines a chain file has, once they resolve the chain is either put in an order that has every element once and every
  producer before its consumers, or refused with a cycle that is one: a non-empty list of elements, each feeding the next and the last feeding the first.  In particular
  the search for it never ends without one.
\<close>

theorem chain_order:
  assumes "dict_wf specs" and "resolve_predecessors specs = Inr inputs"
  shows "case topological_order inputs of
      Inr order \<Rightarrow> mset order = mset (map fst specs) \<and>
        (\<forall>i < length order. \<forall>p ps. map_of inputs (order ! i) = Some ps \<and> p \<in> set ps \<longrightarrow> (\<exists>j < i. order ! j = p))
    | Inl e \<Rightarrow> \<exists>cyc. e = ChainCycleError cyc \<and> cyc \<noteq> [] \<and>
        (\<forall>i < length cyc. \<exists>ps. map_of inputs (cyc ! (Suc i mod length cyc)) = Some ps \<and> cyc ! i \<in> set ps)"
proof -
  note g = resolve_graph[OF assms]
  have wf: "dict_wf inputs" using g(1) by (simp add: graph_ok_def)
  show ?thesis
  proof (cases "topological_order inputs")
    case (Inr order)
    then have o: "mset order = mset (map fst inputs)" "in_order inputs order" using topological_order_spec[OF g(1)] by simp_all
    have "\<exists>j < i. order ! j = p" if "i < length order" "map_of inputs (order ! i) = Some ps" "p \<in> set ps" for i p ps
    proof -
      have "p \<in> set (take i order)" using o(2) that by (auto simp: in_order_def dest!: map_of_SomeD)
      then show ?thesis using that(1) by (auto simp: in_set_conv_nth)
    qed
    then show ?thesis using Inr o(1) g(2) by simp
  next
    case (Inl e)
    then obtain cyc where c: "e = ChainCycleError cyc" "genuine_cycle inputs cyc" using topological_order_spec[OF g(1)] by auto
    have "\<exists>ps. map_of inputs (cyc ! (Suc i mod length cyc)) = Some ps \<and> cyc ! i \<in> set ps" if i: "i < length cyc" for i
    proof -
      have "cyc ! (Suc i mod length cyc) \<in> set (consumers_of inputs (cyc ! i))"
      proof (cases "Suc i < length cyc")
        case True
        then show ?thesis using c(2) by (simp add: genuine_cycle_def successively_conv_nth)
      next
        case False
        then have "Suc i = length cyc" using i by simp
        then have "last cyc = cyc ! i" using i by (metis diff_Suc_1 genuine_cycle_def c(2) last_conv_nth)
        then show ?thesis using c(2) \<open>Suc i = length cyc\<close> using hd_conv_nth[of cyc] by (simp add: genuine_cycle_def)
      qed
      then show ?thesis using wf by (auto simp: consumers_mem)
    qed
    then show ?thesis using Inl c by (simp add: genuine_cycle_def)
  qed
qed

definition ring_spec :: "(string, unit element_spec) dict" where
  "ring_spec = [(''decode'', \<lparr>es_impl = ''pool'', es_kind = None, es_model = None, es_when = None, es_after = None, es_params = ()\<rparr>),
    (''detect'', \<lparr>es_impl = ''pool'', es_kind = None, es_model = None, es_when = None, es_after = Some [''track''], es_params = ()\<rparr>),
    (''track'', \<lparr>es_impl = ''pool'', es_kind = None, es_model = None, es_when = None, es_after = None, es_params = ()\<rparr>)]"

lemma chain_order_witness: "\<exists>cyc. topological_order [(''decode'', []), (''detect'', [''track'']), (''track'', [''detect''])] = Inl (ChainCycleError cyc) \<and> cyc \<noteq> []"
proof -
  have "dict_wf ring_spec" by code_simp
  moreover have "resolve_predecessors ring_spec = Inr [(''decode'', []), (''detect'', [''track'']), (''track'', [''detect''])]" by code_simp
  moreover have "topological_order [(''decode'', []), (''detect'', [''track'']), (''track'', [''detect''])] = Inl (ChainCycleError [''detect'', ''track''])" by code_simp
  ultimately show ?thesis using chain_order[of ring_spec] by fastforce
qed

section \<open>What a loaded chain is\<close>

definition chain_graph :: "'p node list \<Rightarrow> bool" where
  "chain_graph nodes \<longleftrightarrow> distinct (map no_name nodes) \<and>
     (\<forall>n \<in> set nodes. distinct (no_outputs n) \<and> distinct (no_inputs n) \<and>
        (\<forall>c. c \<in> set (no_outputs n) \<longleftrightarrow> (\<exists>m \<in> set nodes. no_name m = c \<and> no_name n \<in> set (no_inputs m))) \<and>
        list_all caps_ok (el_in (no_element n)) \<and> list_all caps_ok (el_out (no_element n))) \<and>
     (\<forall>i < length nodes. \<forall>p \<in> set (no_inputs (nodes ! i)). \<exists>j < i. no_name (nodes ! j) = p)"

lemma node_named_Some: "node_named nodes s = Some n \<Longrightarrow> n \<in> set nodes \<and> no_name n = s"
  by (auto simp: node_named_def find_Some_iff)

lemma node_named_ex: "s \<in> set (map no_name nodes) \<Longrightarrow> \<exists>n. node_named nodes s = Some n"
  by (cases "node_named nodes s") (auto simp: node_named_def find_None_iff)

lemma node_named_unique: "distinct (map no_name nodes) \<Longrightarrow> n \<in> set nodes \<Longrightarrow> node_named nodes (no_name n) = Some n"
  using node_named_Some[of nodes "no_name n"] node_named_ex[of "no_name n" nodes] by (auto dest: inj_onD simp: distinct_map)

lemma rmapM_member: "rmapM f xs = Inr ys \<Longrightarrow> y \<in> set ys \<Longrightarrow> \<exists>x \<in> set xs. f x = Inr y"
  by (induction xs arbitrary: ys) (auto simp: rbind_Inr_iff)

lemma parse_caps_ok: "parse_caps ts = Inr cs \<Longrightarrow> list_all caps_ok cs"
proof -
  have "caps_ok c" if "caps_parse t = Inr c" for t c
    using that by (auto simp: caps_parse_def mk_caps_ok split: prod.splits if_splits)
  then show "parse_caps ts = Inr cs \<Longrightarrow> list_all caps_ok cs"
    by (auto simp: parse_caps_def list_all_iff dest: rmapM_member)
qed

lemma mk_element_ok: "mk_element d = Inr el \<Longrightarrow> list_all caps_ok (el_in el) \<and> list_all caps_ok (el_out el)"
  by (auto simp: mk_element_def dest: parse_caps_ok split: sum.splits)

lemma map_of_zip_in: "distinct xs \<Longrightarrow> length xs = length ys \<Longrightarrow> x \<in> set xs \<Longrightarrow> the (map_of (zip xs ys) x) \<in> set ys"
  by (metis map_of_zip_is_None map_of_SomeD option.collapse set_zip_rightD)

lemma mk_node_Inr:
  "mk_node specs kinds elements inputs s = Inr n \<Longrightarrow>
     no_name n = s \<and> no_element n = the (map_of elements s) \<and> no_inputs n = the (map_of inputs s) \<and> no_outputs n = consumers_of inputs s"
  by (auto simp: mk_node_def rbind_Inr_iff)

lemma from_spec_Inr:
  assumes "dict_wf specs" and "from_spec create name specs = Inr t"
  obtains nodes edges where "chain_graph nodes" "check_nodes nodes = Inr ()" "negotiate_edges nodes = Inr edges"
    "t = \<lparr>tp_name = name, tp_nodes = with_donors nodes edges, tp_edges = edges\<rparr>" "mset (map no_name nodes) = mset (map fst specs)"
    "resolve_predecessors specs = Inr (map (\<lambda>s. (s, no_inputs (the (node_named nodes s)))) (map fst specs))"
proof -
  obtain ks els inputs order nodes edges where c: "rmapM kind_of_slot specs = Inr ks" "rmapM (build_element create) (zip specs ks) = Inr els"
    "resolve_predecessors specs = Inr inputs" "topological_order inputs = Inr order"
    "rmapM (mk_node specs (zip (map fst specs) ks) (zip (map fst specs) els) inputs) order = Inr nodes"
    "check_nodes nodes = Inr ()" "negotiate_edges nodes = Inr edges" "t = \<lparr>tp_name = name, tp_nodes = with_donors nodes edges, tp_edges = edges\<rparr>"
    using assms(2) by (auto simp: from_spec_def rbind_Inr_iff split: if_splits)
  note g = resolve_graph(1,2)[OF assms(1) c(3)]
  have wf: "dict_wf inputs" using g(1) by (simp add: graph_ok_def)
  have o: "mset order = mset (map fst inputs)" "in_order inputs order" using topological_order_spec[OF g(1)] c(4) by simp_all
  have len: "length els = length specs" "length ks = length specs"
    using c(1,2) by (auto simp: rmapM_Inr_iff list_all2_conv_all_nth)
  have ok: "list_all caps_ok (el_in el) \<and> list_all caps_ok (el_out el)" if el: "el \<in> set els" for el
  proof -
    obtain x where "build_element create x = Inr el" using rmapM_member[OF c(2) el] by blast
    then show ?thesis by (auto simp: build_element_def rbind_Inr_iff dest!: mk_element_ok split: prod.splits)
  qed
  have ln: "length nodes = length order" using c(5) by (auto simp: rmapM_Inr_iff list_all2_lengthD)
  have n: "no_name (nodes ! i) = order ! i \<and> no_element (nodes ! i) = the (map_of (zip (map fst specs) els) (order ! i)) \<and>
      no_inputs (nodes ! i) = the (map_of inputs (order ! i)) \<and> no_outputs (nodes ! i) = consumers_of inputs (order ! i)"
    if "i < length order" for i
  proof -
    have "mk_node specs (zip (map fst specs) ks) (zip (map fst specs) els) inputs (order ! i) = Inr (nodes ! i)"
      using c(5) that by (simp add: rmapM_Inr_iff list_all2_conv_all_nth)
    then show ?thesis by (rule mk_node_Inr)
  qed
  have names: "map no_name nodes = order" using ln n by (auto intro: nth_equalityI)
  have dist: "distinct (map no_name nodes)" using o(1) wf unfolding names by (metis mset_eq_imp_distinct_iff)
  have so: "set order = fst ` set inputs" "set order = set (map fst specs)" using o(1) g(2) by (metis list.set_map set_mset_mset)+
  have inp: "map_of inputs (order ! i) = Some (no_inputs (nodes ! i))" if "i < length order" for i
  proof -
    have "order ! i \<in> fst ` set inputs" using so(1) that nth_mem by blast
    then obtain ps where "map_of inputs (order ! i) = Some ps" using wf by (auto simp: dict_get_iff)
    then show ?thesis using n[OF that] by simp
  qed
  have mem: "(no_name m, no_inputs m) \<in> set inputs" if "m \<in> set nodes" for m
    using that inp n ln by (metis in_set_conv_nth map_of_SomeD)
  have cons: "x \<in> set (consumers_of inputs p) \<longleftrightarrow> (\<exists>m \<in> set nodes. no_name m = x \<and> p \<in> set (no_inputs m))" for x p
  proof -
    have "\<exists>m \<in> set nodes. no_name m = x \<and> ps = no_inputs m" if "(x, ps) \<in> set inputs" for ps
    proof -
      have "x \<in> set order" using that so(1) by force
      then obtain i where "i < length order" "order ! i = x" by (auto simp: in_set_conv_nth)
      then show ?thesis using inp[of i] n[of i] that wf ln by (metis dict_get_iff nth_mem option.inject)
    qed
    then show ?thesis using mem by (auto simp: consumers_mem)
  qed
  have "chain_graph nodes"
    unfolding chain_graph_def
  proof (intro conjI ballI allI impI)
    fix m assume m: "m \<in> set nodes"
    then obtain i where i: "i < length order" "m = nodes ! i" using ln by (auto simp: in_set_conv_nth)
    show "distinct (no_outputs m)" using n[OF i(1)] i(2) consumers_distinct[OF g(1)] by simp
    show "distinct (no_inputs m)" using mem[OF m] g(1) by (auto simp: graph_ok_def)
    show "x \<in> set (no_outputs m) \<longleftrightarrow> (\<exists>k \<in> set nodes. no_name k = x \<and> no_name m \<in> set (no_inputs k))" for x
      using n[OF i(1)] i(2) cons by simp
    have "order ! i \<in> set (map fst specs)" using so(2) i(1) nth_mem by blast
    then have "no_element m \<in> set els" using n[OF i(1)] i(2) map_of_zip_in[of "map fst specs" els "order ! i"] assms(1) len by simp
    then show "list_all caps_ok (el_in (no_element m))" "list_all caps_ok (el_out (no_element m))" using ok by auto
  next
    fix i p assume i: "i < length nodes" "p \<in> set (no_inputs (nodes ! i))"
    have "(order ! i, no_inputs (nodes ! i)) \<in> set inputs" using mem[OF nth_mem[OF i(1)]] n[of i] i(1) ln by simp
    then have "set (no_inputs (nodes ! i)) \<subseteq> set (take i order)" using o(2) i(1) ln unfolding in_order_def by simp
    then obtain j where j: "j < length (take i order)" "take i order ! j = p" using i(2) by (meson in_mono in_set_conv_nth)
    then have "no_name (nodes ! j) = p" using n[of j] by simp
    then show "\<exists>j < i. no_name (nodes ! j) = p" using j(1) by auto
  qed (rule dist)
  moreover have "inputs = map (\<lambda>s. (s, no_inputs (the (node_named nodes s)))) (map fst specs)"
  proof -
    have "x = (fst x, no_inputs (the (node_named nodes (fst x))))" if x: "x \<in> set inputs" for x
    proof -
      obtain s ps where e: "x = (s, ps)" by (cases x)
      then have "s \<in> set order" using x so(1) by force
      then obtain m where m: "node_named nodes s = Some m" "m \<in> set nodes" "no_name m = s"
        using names node_named_ex[of s nodes] node_named_Some[of nodes s] by auto
      then have "(s, no_inputs m) \<in> set inputs" using mem by blast
      moreover have "(s, ps) \<in> set inputs" using x e by simp
      ultimately have "ps = no_inputs m" using eq_key_imp_eq_value[OF wf] by blast
      then show ?thesis by (simp add: e m(1))
    qed
    then have "inputs = map (\<lambda>x. (fst x, no_inputs (the (node_named nodes (fst x))))) inputs" by (simp add: map_idI)
    then show ?thesis using g(2) by (metis (no_types, lifting) list.map_comp comp_apply map_eq_conv)
  qed
  ultimately show ?thesis using that[of nodes edges] c o(1) g(2) names by metis
qed

section \<open>Negotiation\<close>

text \<open>A cap an element hands on keeps every half it declares, and takes the other halves from what arrives.\<close>

definition carries :: "caps \<Rightarrow> caps \<Rightarrow> caps set \<Rightarrow> bool" where
  "carries declared c given \<longleftrightarrow>
     (if cp_format declared = ANY then \<forall>g \<in> given. cp_format g = cp_format c else cp_format c = cp_format declared) \<and>
     (if cp_location declared = ANY then \<forall>g \<in> given. cp_location g = cp_location c else cp_location c = cp_location declared)"

lemma agreed_half_Inr:
  assumes "agreed_half vs = Inr v" and "ANY \<notin> set vs" and "vs \<noteq> []"
  shows "v \<noteq> ANY \<and> set vs = {v}"
proof -
  let ?c = "remdups (filter (\<lambda>v. v \<noteq> ANY) vs)"
  have f: "filter (\<lambda>v. v \<noteq> ANY) vs = vs" using assms(2) by (auto simp: filter_id_conv)
  have l: "length ?c \<le> 1" "v = (case ?c of [] \<Rightarrow> ANY | v # _ \<Rightarrow> v)" using assms(1) by (auto simp: agreed_half_def Let_def split: if_splits)
  have s: "set ?c = set vs" using f by simp
  then have "?c \<noteq> []" using assms(3) by (metis set_empty)
  then obtain x where x: "?c = [x]" using l(1) by (cases ?c) auto
  then have "v = x" using l(2) by simp
  then show ?thesis using s x assms(2) by auto
qed

lemma lifted_Inr: "(case r of Inl e \<Rightarrow> Inl (PyError e) | Inr x \<Rightarrow> Inr x) = Inr c \<longleftrightarrow> r = Inr c"
  by (cases r) auto

lemma resolve_cap_Inr:
  assumes "resolve_cap xs d = Inr c" and "\<forall>x \<in> set xs. \<not> is_wildcard (ar_caps x)" and "xs \<noteq> []" and "caps_ok d"
  shows "\<not> is_wildcard c \<and> caps_ok c \<and> carries d c (ar_caps ` set xs)"
proof -
  obtain f l where r: "(if cp_format d \<noteq> ANY then Inr (cp_format d) else agreed_half (map (\<lambda>a. cp_format (ar_caps a)) xs)) = Inr f"
      "(if cp_location d \<noteq> ANY then Inr (cp_location d) else agreed_half (map (\<lambda>a. cp_location (ar_caps a)) xs)) = Inr l" "mk_caps f l = Inr c"
    using assms(1) by (simp only: resolve_cap_def rbind_Inr_iff lifted_Inr) blast
  have f: "f \<noteq> ANY \<and> (if cp_format d = ANY then \<forall>g \<in> ar_caps ` set xs. cp_format g = f else f = cp_format d)"
  proof (cases "cp_format d = ANY")
    case True
    then show ?thesis using r(1) agreed_half_Inr[of "map (\<lambda>a. cp_format (ar_caps a)) xs" f] assms(2,3) by (force simp: is_wildcard_def)
  qed (use r(1) in auto)
  have l: "l \<noteq> ANY \<and> (if cp_location d = ANY then \<forall>g \<in> ar_caps ` set xs. cp_location g = l else l = cp_location d)"
  proof (cases "cp_location d = ANY")
    case True
    then show ?thesis using r(2) agreed_half_Inr[of "map (\<lambda>a. cp_location (ar_caps a)) xs" l] assms(2,3) by (force simp: is_wildcard_def)
  qed (use r(2) in auto)
  have c: "cp_format c = f" "cp_location c = l" "caps_ok c" using r(3) by (auto simp: mk_caps_ok)
  have "carries d c (ar_caps ` set xs)" unfolding carries_def c by (rule conjI[OF conjunct2[OF f] conjunct2[OF l]])
  then show ?thesis using c f l by (simp add: is_wildcard_def)
qed

lemma resolve_produced_Inr:
  assumes "resolve_produced n xs = Inr ps" and "\<forall>x \<in> set xs. \<not> is_wildcard (ar_caps x)" and "list_all caps_ok (el_out (no_element n))"
    and "xs \<noteq> [] \<or> \<not> list_ex is_wildcard (el_out (no_element n))"
  shows "\<forall>p \<in> set ps. \<not> is_wildcard p \<and> caps_ok p \<and> (\<exists>d \<in> set (el_out (no_element n)). carries d p (ar_caps ` set xs))"
proof (cases "list_ex is_wildcard (el_out (no_element n))")
  case False
  then have "ps = el_out (no_element n)" using assms(1) by (simp add: resolve_produced_def)
  then show ?thesis using False assms(3) by (auto simp: list_ex_iff list_all_iff carries_def is_wildcard_def)
next
  case True
  then obtain rs where r: "rmapM (resolve_cap xs) (el_out (no_element n)) = Inr rs" "ps = dedupe rs"
    using assms(1) by (auto simp: resolve_produced_def rbind_Inr_iff)
  have "\<not> is_wildcard p \<and> caps_ok p \<and> (\<exists>d \<in> set (el_out (no_element n)). carries d p (ar_caps ` set xs))" if "p \<in> set rs" for p
    using rmapM_member[OF r(1) that] resolve_cap_Inr[of xs _ p] assms(2-4) True by (auto simp: list_all_iff)
  then show ?thesis unfolding r(2) by simp
qed

lemma negotiated_Inr:
  assumes "negotiated s produced k accepted = Inr c" and "list_all caps_ok produced" and "list_all caps_ok accepted" and "\<forall>p \<in> set produced. \<not> is_wildcard p"
  shows "c \<in> set produced \<and> (\<exists>a \<in> set accepted. caps_match c a)"
  using negotiate_spec[OF assms(2,3)] assms(1,4) by (auto simp: negotiated_def split: sum.splits option.splits)

definition skip_past :: "string \<Rightarrow> arrival \<Rightarrow> arrival" where
  "skip_past s a = \<lparr>ar_origin = ar_origin a, ar_caps = ar_caps a, ar_skipped = Some s\<rparr>"

lemma bypass_all:
  "rmapM (bypass s k accepted) xs = Inr ys \<Longrightarrow> ys = map (skip_past s) xs \<and> (\<forall>x \<in> set xs. \<exists>c. negotiated (ar_origin x) [ar_caps x] k accepted = Inr c)"
  by (induction xs arbitrary: ys) (auto simp: rbind_Inr_iff bypass_def skip_past_def)

lemma hand_overs_Inr:
  assumes "hand_overs nodes n produced cs (a, es) = Inr (a', es')" and "distinct cs" and "no_name n \<notin> set cs"
  shows "\<exists>g. es' = es @ map (\<lambda>c. \<lparr>eg_producer = no_name n, eg_consumer = c, eg_caps = g c\<rparr>) cs \<and>
     (\<forall>c \<in> set cs. \<exists>cn. node_named nodes c = Some cn \<and> negotiated (no_name n) produced c (el_in (no_element cn)) = Inr (g c) \<and>
        (no_condition n \<noteq> None \<longrightarrow> (\<forall>x \<in> set (a (no_name n)). \<exists>r. negotiated (ar_origin x) [ar_caps x] c (el_in (no_element cn)) = Inr r))) \<and>
     (\<forall>s. a' s = (if s \<in> set cs then a s @ [\<lparr>ar_origin = no_name n, ar_caps = g s, ar_skipped = None\<rparr>] @
         (if no_condition n = None then [] else map (skip_past (no_name n)) (a (no_name n))) else a s))"
  using assms
proof (induction cs arbitrary: a es)
  case (Cons c cs)
  obtain b fs where h: "hand_over nodes n produced c (a, es) = Inr (b, fs)" "hand_overs nodes n produced cs (b, fs) = Inr (a', es')"
    using Cons.prems(1) by (auto simp: rbind_Inr_iff)
  have ne: "no_name n \<noteq> c" "no_name n \<notin> set cs" "c \<notin> set cs" "distinct cs" using Cons.prems by auto
  obtain cn k where k: "node_named nodes c = Some cn" "negotiated (no_name n) produced c (el_in (no_element cn)) = Inr k"
    using h(1) by (auto simp: hand_over_def rbind_Inr_iff split: option.splits)
  let ?x = "\<lparr>ar_origin = no_name n, ar_caps = k, ar_skipped = None\<rparr>"
  have fs: "fs = es @ [\<lparr>eg_producer = no_name n, eg_consumer = c, eg_caps = k\<rparr>]" and
    b: "b = a(c := a c @ [?x] @ (if no_condition n = None then [] else map (skip_past (no_name n)) (a (no_name n))))" and
    bp: "no_condition n \<noteq> None \<longrightarrow> (\<forall>x \<in> set (a (no_name n)). \<exists>r. negotiated (ar_origin x) [ar_caps x] c (el_in (no_element cn)) = Inr r)"
    using h(1) k ne(1) by (auto simp: hand_over_def rbind_Inr_iff Let_def arrive_def dest!: bypass_all split: if_splits)
  have bn: "b (no_name n) = a (no_name n)" using ne(1) b by simp
  obtain g where g: "es' = fs @ map (\<lambda>c. \<lparr>eg_producer = no_name n, eg_consumer = c, eg_caps = g c\<rparr>) cs"
    "\<forall>c \<in> set cs. \<exists>cn. node_named nodes c = Some cn \<and> negotiated (no_name n) produced c (el_in (no_element cn)) = Inr (g c) \<and>
        (no_condition n \<noteq> None \<longrightarrow> (\<forall>x \<in> set (a (no_name n)). \<exists>r. negotiated (ar_origin x) [ar_caps x] c (el_in (no_element cn)) = Inr r))"
    "\<forall>s. a' s = (if s \<in> set cs then b s @ [\<lparr>ar_origin = no_name n, ar_caps = g s, ar_skipped = None\<rparr>] @
         (if no_condition n = None then [] else map (skip_past (no_name n)) (a (no_name n))) else b s)"
    using Cons.IH[OF h(2) ne(4,2)] unfolding bn by blast
  show ?case
  proof (rule exI[of _ "g(c := k)"], intro conjI ballI allI)
    show "es' = es @ map (\<lambda>x. \<lparr>eg_producer = no_name n, eg_consumer = x, eg_caps = (g(c := k)) x\<rparr>) (c # cs)"
      using g(1) fs ne(3) by auto
  next
    fix x assume "x \<in> set (c # cs)"
    then show "\<exists>cn. node_named nodes x = Some cn \<and> negotiated (no_name n) produced x (el_in (no_element cn)) = Inr ((g(c := k)) x) \<and>
        (no_condition n \<noteq> None \<longrightarrow> (\<forall>y \<in> set (a (no_name n)). \<exists>r. negotiated (ar_origin y) [ar_caps y] x (el_in (no_element cn)) = Inr r))"
      using g(2) k bp ne(3) by (cases "x = c") auto
  next
    fix s show "a' s = (if s \<in> set (c # cs) then a s @ [\<lparr>ar_origin = no_name n, ar_caps = (g(c := k)) s, ar_skipped = None\<rparr>] @
         (if no_condition n = None then [] else map (skip_past (no_name n)) (a (no_name n))) else a s)"
      using g(3) b ne(3) by auto
  qed
qed simp

text \<open>The state of the negotiation when the first \<^verbatim>\<open>k\<close> elements have handed over.\<close>

definition arrival_ok :: "'p node list \<Rightarrow> string \<Rightarrow> caps \<Rightarrow> bool" where
  "arrival_ok nodes s c \<longleftrightarrow> \<not> is_wildcard c \<and> caps_ok c \<and> (\<exists>m. node_named nodes s = Some m \<and> (\<exists>t \<in> set (el_in (no_element m)). caps_match c t))"

definition given_at :: "arrivals \<Rightarrow> string \<Rightarrow> (string \<times> caps) set" where
  "given_at a s = (\<lambda>x. (ar_origin x, ar_caps x)) ` set (a s)"

definition neg_inv :: "'p node list \<Rightarrow> nat \<Rightarrow> arrivals \<Rightarrow> edge list \<Rightarrow> bool" where
  "neg_inv nodes k a es \<longleftrightarrow>
     map (\<lambda>e. (eg_producer e, eg_consumer e)) es = concat (map (\<lambda>n. map (Pair (no_name n)) (no_outputs n)) (take k nodes)) \<and>
     (\<forall>s o' c. (o', c) \<in> given_at a s \<longrightarrow> arrival_ok nodes s c) \<and>
     (\<forall>e \<in> set es. (eg_producer e, eg_caps e) \<in> given_at a (eg_consumer e)) \<and>
     (\<forall>n \<in> set (take k nodes). no_condition n \<noteq> None \<longrightarrow> (\<forall>s \<in> set (no_outputs n). given_at a (no_name n) \<subseteq> given_at a s)) \<and>
     (\<forall>n \<in> set (take k nodes). \<forall>e \<in> set es. eg_producer e = no_name n \<longrightarrow>
        (\<exists>d \<in> set (el_out (no_element n)). carries d (eg_caps e) (snd ` given_at a (no_name n))))"

lemma chain_graphD:
  assumes "chain_graph nodes"
  shows "distinct (map no_name nodes)" "n \<in> set nodes \<Longrightarrow> distinct (no_outputs n)" "n \<in> set nodes \<Longrightarrow> list_all caps_ok (el_in (no_element n))"
    "n \<in> set nodes \<Longrightarrow> list_all caps_ok (el_out (no_element n))"
    "n \<in> set nodes \<Longrightarrow> s \<in> set (no_outputs n) \<longleftrightarrow> (\<exists>m \<in> set nodes. no_name m = s \<and> no_name n \<in> set (no_inputs m))"
    "i < length nodes \<Longrightarrow> p \<in> set (no_inputs (nodes ! i)) \<Longrightarrow> \<exists>j < i. no_name (nodes ! j) = p" "n \<in> set nodes \<Longrightarrow> distinct (no_inputs n)"
  using assms by (auto simp: chain_graph_def)

text \<open>An element hands on only to elements after it.\<close>

lemma outputs_later:
  assumes g: "chain_graph nodes" and i: "i < length nodes" and "j \<le> i" and "s \<in> set (no_outputs (nodes ! i))"
  shows "no_name (nodes ! j) \<noteq> s"
proof
  assume e: "no_name (nodes ! j) = s"
  obtain m where m: "m \<in> set nodes" "no_name m = s" "no_name (nodes ! i) \<in> set (no_inputs m)"
    using chain_graphD(5)[OF g nth_mem[OF i]] assms(4) by blast
  have j: "j < length nodes" using assms(2,3) by simp
  have "m = nodes ! j" using node_named_unique[OF chain_graphD(1)[OF g] m(1)] node_named_unique[OF chain_graphD(1)[OF g] nth_mem[OF j]] m(2) e by simp
  then obtain l where l: "l < j" "no_name (nodes ! l) = no_name (nodes ! i)" using chain_graphD(6)[OF g j] m(3) by blast
  have "l < length nodes" using l(1) j by simp
  then have "l = i" using chain_graphD(1)[OF g] i l(2) nth_eq_iff_index_eq[of "map no_name nodes" l i] by simp
  then show False using l(1) assms(3) by simp
qed

lemma neg_step:
  assumes g: "chain_graph nodes" and st: "each check_root (filter is_root nodes) = Inr ()" and inv: "neg_inv nodes k a es" and k: "k < length nodes"
    and p: "resolve_produced (nodes ! k) (a (no_name (nodes ! k))) = Inr produced"
    and h: "hand_overs nodes (nodes ! k) produced (no_outputs (nodes ! k)) (a, es) = Inr (a', es')"
  shows "neg_inv nodes (Suc k) a' es'"
proof -
  define n where "n = nodes ! k"
  let ?s = "no_name n"
  have n: "n \<in> set nodes" using k by (simp add: n_def)
  have I: "map (\<lambda>e. (eg_producer e, eg_consumer e)) es = concat (map (\<lambda>n. map (Pair (no_name n)) (no_outputs n)) (take k nodes))"
    "\<And>s o' c. (o', c) \<in> given_at a s \<Longrightarrow> arrival_ok nodes s c"
    "\<And>e. e \<in> set es \<Longrightarrow> (eg_producer e, eg_caps e) \<in> given_at a (eg_consumer e)"
    "\<And>m s. m \<in> set (take k nodes) \<Longrightarrow> no_condition m \<noteq> None \<Longrightarrow> s \<in> set (no_outputs m) \<Longrightarrow> given_at a (no_name m) \<subseteq> given_at a s"
    "\<And>m e. m \<in> set (take k nodes) \<Longrightarrow> e \<in> set es \<Longrightarrow> eg_producer e = no_name m \<Longrightarrow>
        \<exists>d \<in> set (el_out (no_element m)). carries d (eg_caps e) (snd ` given_at a (no_name m))"
    using inv unfolding neg_inv_def by blast+
  have early: "s \<noteq> no_name m" if ms: "m \<in> set (take (Suc k) nodes)" "s \<in> set (no_outputs n)" for m s
  proof -
    obtain j where "j \<le> k" "m = nodes ! j" using ms(1) k by (fastforce simp: in_set_conv_nth less_Suc_eq_le)
    then show ?thesis using outputs_later[OF g k] ms(2) by (auto simp: n_def)
  qed
  have self: "?s \<notin> set (no_outputs n)" using early[of n] k by (auto simp: n_def take_Suc_conv_app_nth)
  have conc: "\<forall>x \<in> set (a ?s). \<not> is_wildcard (ar_caps x)" using I(2) by (fastforce simp: given_at_def arrival_ok_def)
  have some: "a ?s \<noteq> [] \<or> \<not> list_ex is_wildcard (el_out (no_element n))"
  proof (cases "is_root n")
    case True
    then have "check_root n = Inr ()" using st n by auto
    then show ?thesis by (auto simp: check_root_def rbind_Inr_iff)
  next
    case False
    then obtain q where q: "q \<in> set (no_inputs n)" by (cases "no_inputs n") (auto simp: is_root_def)
    then obtain j where j: "j < k" "no_name (nodes ! j) = q" using chain_graphD(6)[OF g k] by (auto simp: n_def)
    then have "?s \<in> set (no_outputs (nodes ! j))" using chain_graphD(5)[OF g, of "nodes ! j" ?s] k n q by auto
    then have "(q, ?s) \<in> set (concat (map (\<lambda>n. map (Pair (no_name n)) (no_outputs n)) (take k nodes)))"
      using j k by (force simp: in_set_conv_nth)
    then obtain e where "e \<in> set es" "eg_consumer e = ?s" unfolding I(1)[symmetric] by auto
    then show ?thesis using I(3) by (fastforce simp: given_at_def)
  qed
  have pr: "\<forall>p \<in> set produced. \<not> is_wildcard p \<and> caps_ok p \<and> (\<exists>d \<in> set (el_out (no_element n)). carries d p (ar_caps ` set (a ?s)))"
    by (rule resolve_produced_Inr[OF p[folded n_def] conc chain_graphD(4)[OF g n] some])
  obtain f where f: "es' = es @ map (\<lambda>c. \<lparr>eg_producer = ?s, eg_consumer = c, eg_caps = f c\<rparr>) (no_outputs n)"
    "\<forall>c \<in> set (no_outputs n). \<exists>cn. node_named nodes c = Some cn \<and> negotiated ?s produced c (el_in (no_element cn)) = Inr (f c) \<and>
        (no_condition n \<noteq> None \<longrightarrow> (\<forall>x \<in> set (a ?s). \<exists>r. negotiated (ar_origin x) [ar_caps x] c (el_in (no_element cn)) = Inr r))"
    "\<forall>s. a' s = (if s \<in> set (no_outputs n) then a s @ [\<lparr>ar_origin = ?s, ar_caps = f s, ar_skipped = None\<rparr>] @
         (if no_condition n = None then [] else map (skip_past ?s) (a ?s)) else a s)"
    using hand_overs_Inr[OF h[folded n_def] chain_graphD(2)[OF g n] self] by blast
  have ga: "given_at a' s = (if s \<in> set (no_outputs n) then insert (?s, f s) (given_at a s \<union> (if no_condition n = None then {} else given_at a ?s)) else given_at a s)" for s
    unfolding given_at_def f(3)[rule_format] by (simp add: skip_past_def image_image image_Un)
  have fc: "f c \<in> set produced \<and> arrival_ok nodes c (f c) \<and> (no_condition n \<noteq> None \<longrightarrow> (\<forall>(o', x) \<in> given_at a ?s. arrival_ok nodes c x))"
    if c: "c \<in> set (no_outputs n)" for c
  proof -
    obtain cn where cn: "node_named nodes c = Some cn" "negotiated ?s produced c (el_in (no_element cn)) = Inr (f c)"
      "no_condition n \<noteq> None \<Longrightarrow> \<forall>x \<in> set (a ?s). \<exists>r. negotiated (ar_origin x) [ar_caps x] c (el_in (no_element cn)) = Inr r" using f(2) c by blast
    have ok: "list_all caps_ok (el_in (no_element cn))" using chain_graphD(3)[OF g] node_named_Some[OF cn(1)] by blast
    have "f c \<in> set produced \<and> (\<exists>t \<in> set (el_in (no_element cn)). caps_match (f c) t)"
      by (rule negotiated_Inr[OF cn(2) _ ok]) (use pr in \<open>auto simp: list_all_iff\<close>)
    then have "f c \<in> set produced \<and> arrival_ok nodes c (f c)" using pr cn(1) by (auto simp: arrival_ok_def)
    moreover have "arrival_ok nodes c x" if nc: "no_condition n \<noteq> None" and x: "(o', x) \<in> given_at a ?s" for o' x
    proof -
      obtain y where y: "y \<in> set (a ?s)" "ar_caps y = x" using x by (auto simp: given_at_def)
      obtain r where r: "negotiated (ar_origin y) [x] c (el_in (no_element cn)) = Inr r" using cn(3)[OF nc] y by blast
      have x': "\<not> is_wildcard x" "caps_ok x" using I(2)[OF x] by (auto simp: arrival_ok_def)
      have "r \<in> set [x] \<and> (\<exists>t \<in> set (el_in (no_element cn)). caps_match r t)" by (rule negotiated_Inr[OF r _ ok]) (use x' in auto)
      then show ?thesis using x' cn(1) by (auto simp: arrival_ok_def)
    qed
    ultimately show ?thesis by blast
  qed
  have tk: "take (Suc k) nodes = take k nodes @ [n]" using k by (simp add: take_Suc_conv_app_nth n_def)
  have frozen: "given_at a' (no_name m) = given_at a (no_name m)" if "m \<in> set (take (Suc k) nodes)" for m
    using early[OF that] by (auto simp: ga)
  have es_old: "eg_producer e \<noteq> ?s" if "e \<in> set es" for e
  proof -
    have "(eg_producer e, eg_consumer e) \<in> set (map (\<lambda>e. (eg_producer e, eg_consumer e)) es)" using that by simp
    then obtain j where "j < k" "eg_producer e = no_name (nodes ! j)" unfolding I(1) by (auto simp: in_set_conv_nth)
    then show ?thesis using chain_graphD(1)[OF g] k by (auto simp: n_def distinct_conv_nth)
  qed
  show ?thesis
    unfolding neg_inv_def
  proof (intro conjI allI ballI impI)
    show "map (\<lambda>e. (eg_producer e, eg_consumer e)) es' = concat (map (\<lambda>n. map (Pair (no_name n)) (no_outputs n)) (take (Suc k) nodes))"
      unfolding tk f(1) by (simp add: I(1) comp_def)
  next
    fix s o' c assume "(o', c) \<in> given_at a' s"
    then show "arrival_ok nodes s c" using I(2) fc[of s] by (fastforce simp: ga split: if_splits)
  next
    fix e assume e: "e \<in> set es'"
    show "(eg_producer e, eg_caps e) \<in> given_at a' (eg_consumer e)" using e I(3) unfolding f(1) by (auto simp: ga)
  next
    fix m s assume m: "m \<in> set (take (Suc k) nodes)" "no_condition m \<noteq> None" "s \<in> set (no_outputs m)"
    have "given_at a (no_name m) \<subseteq> given_at a' s"
    proof (cases "m \<in> set (take k nodes)")
      case True
      then show ?thesis using I(4)[OF True m(2,3)] by (auto simp: ga)
    next
      case False
      then have "m = n" using m(1) tk by auto
      then show ?thesis using m by (auto simp: ga)
    qed
    then show "given_at a' (no_name m) \<subseteq> given_at a' s" using frozen[OF m(1)] by simp
  next
    fix m e assume m: "m \<in> set (take (Suc k) nodes)" and e: "e \<in> set es'" "eg_producer e = no_name m"
    have "\<exists>d \<in> set (el_out (no_element m)). carries d (eg_caps e) (snd ` given_at a (no_name m))"
    proof (cases "e \<in> set es")
      case True
      then have "m \<noteq> n" using es_old e(2) by auto
      then have "m \<in> set (take k nodes)" using m tk by auto
      then show ?thesis using I(5) True e(2) by blast
    next
      case False
      then obtain c where c: "c \<in> set (no_outputs n)" "e = \<lparr>eg_producer = ?s, eg_consumer = c, eg_caps = f c\<rparr>" using e(1) unfolding f(1) by auto
      have "m \<in> set nodes" using m by (rule in_set_takeD)
      then have "m = n" using node_named_unique[OF chain_graphD(1)[OF g]] n e(2) c(2) by (metis edge.select_convs(1) option.inject)
      moreover have "snd ` given_at a ?s = ar_caps ` set (a ?s)" by (auto simp: given_at_def image_image)
      ultimately show ?thesis using fc[OF c(1)] pr c(2) by auto
    qed
    then show "\<exists>d \<in> set (el_out (no_element m)). carries d (eg_caps e) (snd ` given_at a' (no_name m))" unfolding frozen[OF m] .
  qed
qed

lemma neg_from:
  assumes g: "chain_graph nodes" and st: "each check_root (filter is_root nodes) = Inr ()"
  shows "k \<le> length nodes \<Longrightarrow> neg_inv nodes k a es \<Longrightarrow> negotiate_from nodes (drop k nodes) (a, es) = Inr (a', es') \<Longrightarrow> neg_inv nodes (length nodes) a' es'"
proof (induction "length nodes - k" arbitrary: k a es)
  case 0
  then show ?case by simp
next
  case (Suc d)
  then have k: "k < length nodes" by simp
  then have "drop k nodes = nodes ! k # drop (Suc k) nodes" by (simp add: Cons_nth_drop_Suc)
  then obtain produced b fs where r: "resolve_produced (nodes ! k) (a (no_name (nodes ! k))) = Inr produced"
    "hand_overs nodes (nodes ! k) produced (no_outputs (nodes ! k)) (a, es) = Inr (b, fs)" "negotiate_from nodes (drop (Suc k) nodes) (b, fs) = Inr (a', es')"
    using Suc.prems(3) by (auto simp: rbind_Inr_iff)
  show ?case by (rule Suc.hyps(1)[OF _ _ neg_step[OF g st Suc.prems(2) k r(1,2)] r(3)]) (use Suc.hyps(2) k in auto)
qed

lemma negotiate_edges_inv:
  assumes "chain_graph nodes" and "each check_root (filter is_root nodes) = Inr ()" and "negotiate_edges nodes = Inr edges"
  obtains a where "neg_inv nodes (length nodes) a edges"
proof -
  obtain a where a: "negotiate_from nodes (drop 0 nodes) (\<lambda>s. [], []) = Inr (a, edges)" using assms(3) by (auto simp: negotiate_edges_def rbind_Inr_iff)
  have "neg_inv nodes 0 (\<lambda>s. []) []" by (simp add: neg_inv_def given_at_def)
  from neg_from[OF assms(1,2) _ this a] that show ?thesis by simp
qed

section \<open>What a loaded chain guarantees\<close>

lemma carries_mono: "carries d c G \<Longrightarrow> H \<subseteq> G \<Longrightarrow> carries d c H"
proof -
  assume a: "carries d c G" "H \<subseteq> G"
  have "if P then \<forall>g \<in> H. f g = f c else Q" if "if P then \<forall>g \<in> G. f g = f c else Q" for P Q and f :: "caps \<Rightarrow> string"
    using that a(2) by (cases P) (simp_all, blast)
  then show "carries d c H" using a(1) unfolding carries_def by blast
qed

lemma with_donors_node:
  "n \<in> set (with_donors nodes edges) \<longleftrightarrow> (\<exists>m \<in> set nodes. n = (if is_root m then m
     else m\<lparr>no_donor := Some (donor_for edges (no_name m) (no_inputs m) (el_in (no_element m)))\<rparr>))"
  by (auto simp: with_donors_def)

lemma with_donors_fields:
  "n \<in> set (with_donors nodes edges) \<Longrightarrow> \<exists>m \<in> set nodes. no_name n = no_name m \<and> no_kind n = no_kind m \<and> no_element n = no_element m \<and>
     no_inputs n = no_inputs m \<and> no_outputs n = no_outputs m \<and> no_condition n = no_condition m"
  "m \<in> set nodes \<Longrightarrow> \<exists>n \<in> set (with_donors nodes edges). no_name n = no_name m \<and> no_kind n = no_kind m \<and> no_element n = no_element m \<and>
     no_inputs n = no_inputs m \<and> no_outputs n = no_outputs m \<and> no_condition n = no_condition m"
proof -
  define f where "f m = (if is_root m then m
     else m\<lparr>no_donor := Some (donor_for edges (no_name m) (no_inputs m) (el_in (no_element m)))\<rparr>)" for m :: "'a node"
  have e: "set (with_donors nodes edges) = f ` set nodes" unfolding with_donors_def f_def set_map ..
  have f: "no_name (f m) = no_name m" "no_kind (f m) = no_kind m" "no_element (f m) = no_element m" "no_inputs (f m) = no_inputs m"
    "no_outputs (f m) = no_outputs m" "no_condition (f m) = no_condition m" for m by (simp_all add: f_def)
  show "n \<in> set (with_donors nodes edges) \<Longrightarrow> \<exists>m \<in> set nodes. no_name n = no_name m \<and> no_kind n = no_kind m \<and> no_element n = no_element m \<and>
     no_inputs n = no_inputs m \<and> no_outputs n = no_outputs m \<and> no_condition n = no_condition m" unfolding e using f by auto
  show "m \<in> set nodes \<Longrightarrow> \<exists>n \<in> set (with_donors nodes edges). no_name n = no_name m \<and> no_kind n = no_kind m \<and> no_element n = no_element m \<and>
     no_inputs n = no_inputs m \<and> no_outputs n = no_outputs m \<and> no_condition n = no_condition m" unfolding e using f by auto
qed

text \<open>What can reach an element: over an edge, or past an element whose condition turned the item away.\<close>

inductive arrives :: "'p topology \<Rightarrow> string \<Rightarrow> string \<Rightarrow> caps \<Rightarrow> bool" for t where
  over_edge: "e \<in> set (tp_edges t) \<Longrightarrow> arrives t (eg_consumer e) (eg_producer e) (eg_caps e)"
| past: "n \<in> set (tp_nodes t) \<Longrightarrow> no_condition n \<noteq> None \<Longrightarrow> arrives t (no_name n) origin c \<Longrightarrow> s \<in> set (no_outputs n) \<Longrightarrow> arrives t s origin c"

lemma loaded_inv:
  assumes "dict_wf specs" and "from_spec create name specs = Inr t"
  obtains nodes a where "chain_graph nodes" "check_nodes nodes = Inr ()" "tp_nodes t = with_donors nodes (tp_edges t)"
    "neg_inv nodes (length nodes) a (tp_edges t)" "mset (map no_name nodes) = mset (map fst specs)"
proof -
  obtain nodes edges where n: "chain_graph nodes" "check_nodes nodes = Inr ()" "negotiate_edges nodes = Inr edges"
    "t = \<lparr>tp_name = name, tp_nodes = with_donors nodes edges, tp_edges = edges\<rparr>" "mset (map no_name nodes) = mset (map fst specs)"
    by (rule from_spec_Inr[OF assms])
  have "each check_root (filter is_root nodes) = Inr ()" using n(2) by (simp add: check_nodes_def check_structure_def rbind_Inr_iff Let_def)
  from negotiate_edges_inv[OF n(1) this n(3)] obtain a where "neg_inv nodes (length nodes) a edges" .
  then show ?thesis using that[of nodes a] n by simp
qed

lemma arrives_given:
  assumes "arrives t s origin c" and "tp_nodes t = with_donors nodes (tp_edges t)" and "neg_inv nodes (length nodes) a (tp_edges t)"
  shows "(origin, c) \<in> given_at a s"
  using assms(1)
proof induction
  case (over_edge e)
  then show ?case using assms(3) by (simp add: neg_inv_def)
next
  case (past n origin c s)
  obtain m where "m \<in> set nodes" "no_name n = no_name m" "no_outputs n = no_outputs m" "no_condition n = no_condition m"
    using with_donors_fields(1)[of n nodes "tp_edges t"] past(1) assms(2) by auto
  then show ?case using past(2,4,5) assms(3) unfolding neg_inv_def by fastforce
qed

text \<open>
  C24: nothing is converted behind the operator's back.  In a chain that loads, whatever arrives at an element, over an edge or past any number of skipped
  conditional elements, has a concrete format and location that the element declares to accept; and what an edge carries is what its producer declares, where a
  declared wildcard stands for the one format or location of everything that arrives at the producer.  So a payload on the device never meets an element that wants it on
  the host, however many pass-through elements lie between.
\<close>

theorem no_implicit_download:
  assumes "dict_wf specs" and "from_spec create name specs = Inr t"
  shows "(\<forall>s origin c. arrives t s origin c \<longrightarrow> \<not> is_wildcard c \<and>
      (\<exists>n \<in> set (tp_nodes t). no_name n = s \<and> (\<exists>x \<in> set (el_in (no_element n)). caps_match c x))) \<and>
    (\<forall>e \<in> set (tp_edges t). \<exists>n \<in> set (tp_nodes t). no_name n = eg_producer e \<and>
      (\<exists>d \<in> set (el_out (no_element n)). carries d (eg_caps e) {c. \<exists>origin. arrives t (no_name n) origin c}))"
proof -
  obtain nodes a where l: "chain_graph nodes" "tp_nodes t = with_donors nodes (tp_edges t)" "neg_inv nodes (length nodes) a (tp_edges t)"
    by (rule loaded_inv[OF assms])
  note giv = arrives_given[OF _ l(2,3)]
  have one: "\<not> is_wildcard c \<and> (\<exists>n \<in> set (tp_nodes t). no_name n = s \<and> (\<exists>x \<in> set (el_in (no_element n)). caps_match c x))"
    if r: "arrives t s origin c" for s origin c
  proof -
    have "arrival_ok nodes s c" using giv[OF r] l(3) by (auto simp: neg_inv_def)
    then obtain m where m: "\<not> is_wildcard c" "node_named nodes s = Some m" "\<exists>x \<in> set (el_in (no_element m)). caps_match c x" by (auto simp: arrival_ok_def)
    then obtain n where "n \<in> set (with_donors nodes (tp_edges t))" "no_name n = no_name m" "no_element n = no_element m"
      using with_donors_fields(2)[of m nodes "tp_edges t"] node_named_Some[OF m(2)] by blast
    then show ?thesis using m(1,3) node_named_Some[OF m(2)] l(2) by metis
  qed
  moreover have "\<exists>n \<in> set (tp_nodes t). no_name n = eg_producer e \<and>
      (\<exists>d \<in> set (el_out (no_element n)). carries d (eg_caps e) {c. \<exists>origin. arrives t (no_name n) origin c})" if e: "e \<in> set (tp_edges t)" for e
  proof -
    have "(eg_producer e, eg_consumer e) \<in> set (map (\<lambda>e. (eg_producer e, eg_consumer e)) (tp_edges t))" using e by simp
    also have "map (\<lambda>e. (eg_producer e, eg_consumer e)) (tp_edges t) = concat (map (\<lambda>n. map (Pair (no_name n)) (no_outputs n)) nodes)"
      using l(3) by (simp add: neg_inv_def)
    finally obtain m where m: "m \<in> set nodes" "eg_producer e = no_name m" by auto
    have "\<forall>n \<in> set nodes. \<forall>e \<in> set (tp_edges t). eg_producer e = no_name n \<longrightarrow>
        (\<exists>d \<in> set (el_out (no_element n)). carries d (eg_caps e) (snd ` given_at a (no_name n)))"
      using l(3) by (simp add: neg_inv_def)
    from this[rule_format, OF m(1) e m(2)] obtain d where d: "d \<in> set (el_out (no_element m))" "carries d (eg_caps e) (snd ` given_at a (no_name m))"
      by blast
    obtain n where n: "n \<in> set (tp_nodes t)" "no_name n = no_name m" "no_element n = no_element m"
      using with_donors_fields(2)[OF m(1), of "tp_edges t"] l(2) by auto
    have "{c. \<exists>origin. arrives t (no_name m) origin c} \<subseteq> snd ` given_at a (no_name m)" using giv by force
    then have "carries d (eg_caps e) {c. \<exists>origin. arrives t (no_name m) origin c}" by (rule carries_mono[OF d(2)])
    then show ?thesis using m(2) d(1) by (intro bexI[OF _ n(1)] conjI bexI[of _ d]) (simp_all add: n)
  qed
  ultimately show ?thesis by blast
qed

section \<open>Every element runs, and for a purpose\<close>

lemma add_producers_set:
  "add_producers ps reaching frontier = (r, f) \<Longrightarrow> set r = set reaching \<union> set ps \<and> set f \<subseteq> set frontier \<union> set ps"
  by (induction ps arbitrary: reaching frontier) (fastforce split: if_splits)+

text \<open>Whatever the backward search reaches has what the outputs have, when producers inherit it.\<close>

lemma reach_back_sound:
  assumes "\<And>n p. n \<in> set nodes \<Longrightarrow> Q (no_name n) \<Longrightarrow> p \<in> set (no_inputs n) \<Longrightarrow> Q p"
  shows "\<forall>x \<in> set reaching \<union> set frontier. Q x \<Longrightarrow> s \<in> set (reach_back nodes reaching frontier) \<Longrightarrow> Q s"
  using assms
proof (induction nodes reaching frontier rule: reach_back.induct)
  case (2 nodes reaching x frontier)
  show ?case
  proof (cases "node_named nodes x")
    case None
    then show ?thesis using 2(1)[OF None] 2(3-) by auto
  next
    case (Some n)
    obtain r f where a: "add_producers (no_inputs n) reaching frontier = (r, f)" by (rule prod.exhaust)
    have "\<forall>p \<in> set (no_inputs n). Q p" using 2(3,5) node_named_Some[OF Some] by auto
    then have "\<forall>y \<in> set r \<union> set f. Q y" using 2(3) add_producers_set[OF a] by auto
    then show ?thesis using 2(2)[OF Some a[symmetric]] 2(4,5) Some a by simp
  qed
qed auto

lemma structure_facts:
  assumes "check_structure nodes = Inr ()"
  shows "n \<in> set nodes \<Longrightarrow> is_root n \<Longrightarrow> no_kind n = DECODE \<and> no_condition n = None"
    "n \<in> set nodes \<Longrightarrow> no_kind n = OUTPUT \<Longrightarrow> is_sink n"
    "n \<in> set nodes \<Longrightarrow> no_name n \<in> set (reach_back nodes (map no_name (filter (\<lambda>n. no_kind n = OUTPUT) nodes)) (map no_name (filter (\<lambda>n. no_kind n = OUTPUT) nodes)))"
  using assms by (auto simp: check_structure_def check_root_def rbind_Inr_iff Let_def list_ex_iff)

definition feeds :: "'p topology \<Rightarrow> (string \<times> string) set" where
  "feeds t = (\<lambda>e. (eg_producer e, eg_consumer e)) ` set (tp_edges t)"

lemma feeds_outputs:
  assumes "neg_inv nodes (length nodes) a (tp_edges t)"
  shows "map (\<lambda>e. (eg_producer e, eg_consumer e)) (tp_edges t) = concat (map (\<lambda>n. map (Pair (no_name n)) (no_outputs n)) nodes)"
    "(p, s) \<in> feeds t \<longleftrightarrow> (\<exists>n \<in> set nodes. no_name n = p \<and> s \<in> set (no_outputs n))"
proof -
  show e: "map (\<lambda>e. (eg_producer e, eg_consumer e)) (tp_edges t) = concat (map (\<lambda>n. map (Pair (no_name n)) (no_outputs n)) nodes)"
    using assms by (simp add: neg_inv_def)
  have "feeds t = set (map (\<lambda>e. (eg_producer e, eg_consumer e)) (tp_edges t))" by (simp add: feeds_def)
  then show "(p, s) \<in> feeds t \<longleftrightarrow> (\<exists>n \<in> set nodes. no_name n = p \<and> s \<in> set (no_outputs n))" unfolding e by auto
qed

lemma reaches_output:
  assumes g: "chain_graph nodes" and c: "check_structure nodes = Inr ()" and v: "neg_inv nodes (length nodes) a (tp_edges t)" and n: "n \<in> set nodes"
  shows "\<exists>m \<in> set nodes. no_kind m = OUTPUT \<and> (no_name n, no_name m) \<in> (feeds t)\<^sup>*"
proof -
  define Q where "Q s \<longleftrightarrow> (\<exists>m \<in> set nodes. no_kind m = OUTPUT \<and> (s, no_name m) \<in> (feeds t)\<^sup>*)" for s
  have st: "Q p" if m: "m \<in> set nodes" and q: "Q (no_name m)" and p: "p \<in> set (no_inputs m)" for m p
  proof -
    obtain i where i: "i < length nodes" "m = nodes ! i" using m by (auto simp: in_set_conv_nth)
    then obtain j where j: "j < length nodes" "no_name (nodes ! j) = p" using chain_graphD(6)[OF g i(1)] p by (metis less_trans)
    then have "no_name m \<in> set (no_outputs (nodes ! j))" using chain_graphD(5)[OF g, of "nodes ! j"] m p by auto
    then have "(p, no_name m) \<in> feeds t" using feeds_outputs(2)[OF v] j by auto
    then show ?thesis using q unfolding Q_def by (meson converse_rtrancl_into_rtrancl)
  qed
  have "Q (no_name n)" by (rule reach_back_sound[OF st _ structure_facts(3)[OF c n]]) (auto simp: Q_def)
  then show ?thesis by (simp add: Q_def)
qed

lemma fed_by_root:
  assumes g: "chain_graph nodes" and c: "check_structure nodes = Inr ()" and v: "neg_inv nodes (length nodes) a (tp_edges t)"
  shows "i < length nodes \<Longrightarrow> \<exists>m \<in> set nodes. no_kind m = DECODE \<and> no_condition m = None \<and> is_root m \<and> (no_name m, no_name (nodes ! i)) \<in> (feeds t)\<^sup>*"
proof (induction i rule: less_induct)
  case (less i)
  let ?n = "nodes ! i"
  have n: "?n \<in> set nodes" using less.prems by simp
  show ?case
  proof (cases "is_root ?n")
    case True
    then show ?thesis using structure_facts(1)[OF c n] n by blast
  next
    case False
    then obtain p where p: "p \<in> set (no_inputs ?n)" by (cases "no_inputs ?n") (auto simp: is_root_def)
    then obtain j where j: "j < i" "no_name (nodes ! j) = p" using chain_graphD(6)[OF g less.prems] by blast
    then have "no_name ?n \<in> set (no_outputs (nodes ! j))" using chain_graphD(5)[OF g, of "nodes ! j"] n p less.prems by auto
    then have "(p, no_name ?n) \<in> feeds t" using feeds_outputs(2)[OF v] j less.prems by auto
    then show ?thesis using less.IH[OF j(1)] j less.prems by (meson less_trans rtrancl.rtrancl_into_rtrancl)
  qed
qed

text \<open>The donor: a predecessor whose edge carries the most preferred cap any predecessor's edge carries.\<close>

definition takes_from :: "edge list \<Rightarrow> string \<Rightarrow> string \<Rightarrow> caps \<Rightarrow> bool" where
  "takes_from edges s p d \<longleftrightarrow> (case edge_caps edges p s of None \<Rightarrow> False | Some c \<Rightarrow> caps_match c d)"

lemma donor_spec:
  assumes "\<exists>d \<in> set ds. \<exists>p \<in> set ps. takes_from edges s p d"
  shows "\<exists>i < length ds. donor_for edges s ps ds \<in> set ps \<and> takes_from edges s (donor_for edges s ps ds) (ds ! i) \<and>
    (\<forall>j < i. \<forall>p \<in> set ps. \<not> takes_from edges s p (ds ! j))"
  using assms
proof (induction ds)
  case (Cons d ds)
  have e: "donor_for edges s ps (d # ds) = (case List.find (\<lambda>p. takes_from edges s p d) ps of Some p \<Rightarrow> p | None \<Rightarrow> donor_for edges s ps ds)"
    by (simp add: takes_from_def)
  show ?case
  proof (cases "List.find (\<lambda>p. takes_from edges s p d) ps")
    case None
    then have no: "\<forall>p \<in> set ps. \<not> takes_from edges s p d" by (simp add: find_None_iff)
    then obtain i where i: "i < length ds" "donor_for edges s ps ds \<in> set ps" "takes_from edges s (donor_for edges s ps ds) (ds ! i)"
      "\<forall>j < i. \<forall>p \<in> set ps. \<not> takes_from edges s p (ds ! j)" using Cons by auto
    show ?thesis unfolding e None using i no by (intro exI[of _ "Suc i"]) (auto simp: less_Suc_eq_0_disj)
  next
    case (Some p)
    then have "p \<in> set ps \<and> takes_from edges s p d" by (auto simp: find_Some_iff)
    then show ?thesis unfolding e Some by (intro exI[of _ 0]) simp
  qed
qed simp

lemma distinct_concat_pairs: "distinct (map f xs) \<Longrightarrow> (\<And>x. x \<in> set xs \<Longrightarrow> distinct (g x)) \<Longrightarrow> distinct (concat (map (\<lambda>x. map (Pair (f x)) (g x)) xs))"
  by (induction xs) (auto simp: distinct_map inj_on_def)

lemma edge_caps_iff:
  assumes "distinct (map (\<lambda>e. (eg_producer e, eg_consumer e)) edges)"
  shows "edge_caps edges p s = Some c \<longleftrightarrow> (\<exists>e \<in> set edges. eg_producer e = p \<and> eg_consumer e = s \<and> eg_caps e = c)"
proof -
  let ?f = "\<lambda>e. eg_producer e = p \<and> eg_consumer e = s"
  have u: "e = e'" if "e \<in> set edges" "e' \<in> set edges" "?f e" "?f e'" for e e'
    using that assms by (auto simp: distinct_map dest: inj_onD)
  show ?thesis
  proof (cases "List.find ?f (rev edges)")
    case None
    then have "\<forall>e \<in> set edges. \<not> ?f e" by (auto simp: find_None_iff)
    then show ?thesis unfolding edge_caps_def None by auto
  next
    case (Some e)
    then have "e \<in> set (rev edges)" "?f e" by (auto simp: find_Some_iff simp del: set_rev)
    then show ?thesis using Some u by (auto simp: edge_caps_def)
  qed
qed

lemma takes_from_iff:
  assumes "distinct (map (\<lambda>e. (eg_producer e, eg_consumer e)) edges)"
  shows "takes_from edges s p d \<longleftrightarrow> (\<exists>e \<in> set edges. eg_producer e = p \<and> eg_consumer e = s \<and> caps_match (eg_caps e) d)"
proof -
  have "takes_from edges s p d \<longleftrightarrow> (\<exists>c. edge_caps edges p s = Some c \<and> caps_match c d)"
    by (auto simp: takes_from_def split: option.splits)
  then show ?thesis unfolding edge_caps_iff[OF assms] by blast
qed

lemma fed_by_inputs:
  assumes g: "chain_graph nodes" and v: "neg_inv nodes (length nodes) a (tp_edges t)" and n: "n \<in> set nodes"
  shows "(p, no_name n) \<in> feeds t \<longleftrightarrow> p \<in> set (no_inputs n)"
proof
  assume "(p, no_name n) \<in> feeds t"
  then obtain q where q: "q \<in> set nodes" "no_name q = p" "no_name n \<in> set (no_outputs q)" using feeds_outputs(2)[OF v] by blast
  then obtain m where "m \<in> set nodes" "no_name m = no_name n" "p \<in> set (no_inputs m)" using chain_graphD(5)[OF g q(1)] by blast
  then show "p \<in> set (no_inputs n)" using n chain_graphD(1)[OF g] by (metis node_named_unique option.inject)
next
  assume p: "p \<in> set (no_inputs n)"
  obtain i where i: "i < length nodes" "n = nodes ! i" using n by (auto simp: in_set_conv_nth)
  then obtain j where j: "j < length nodes" "no_name (nodes ! j) = p" using chain_graphD(6)[OF g i(1)] p by (metis less_trans)
  then have "no_name n \<in> set (no_outputs (nodes ! j))" using chain_graphD(5)[OF g, of "nodes ! j"] n p by auto
  then show "(p, no_name n) \<in> feeds t" using feeds_outputs(2)[OF v] j by auto
qed

lemma donor_chosen:
  fixes t :: "'p topology"
  assumes g: "chain_graph nodes" and v: "neg_inv nodes (length nodes) a (tp_edges t)" and m: "m \<in> set nodes" and nr: "\<not> is_root m"
    and dp: "distinct (map (\<lambda>e. (eg_producer e, eg_consumer e)) (tp_edges t))"
    and d: "d = donor_for (tp_edges t) (no_name m) (no_inputs m) (el_in (no_element m))"
  shows "d \<in> set (no_inputs m) \<and> (\<exists>i < length (el_in (no_element m)).
     (\<exists>e \<in> set (tp_edges t). eg_producer e = d \<and> eg_consumer e = no_name m \<and> caps_match (eg_caps e) (el_in (no_element m) ! i)) \<and>
     (\<forall>e \<in> set (tp_edges t). eg_consumer e = no_name m \<longrightarrow> (\<forall>j < i. \<not> caps_match (eg_caps e) (el_in (no_element m) ! j))))"
proof -
  let ?T = "takes_from (tp_edges t) (no_name m)"
  note tf = takes_from_iff[OF dp, of "no_name m"]
  obtain p where p: "p \<in> set (no_inputs m)" using nr by (cases "no_inputs m") (auto simp: is_root_def)
  then have "(p, no_name m) \<in> feeds t" using fed_by_inputs[OF g v m] by simp
  then obtain e where e: "e \<in> set (tp_edges t)" "eg_producer e = p" "eg_consumer e = no_name m" by (auto simp: feeds_def)
  have "(eg_producer e, eg_caps e) \<in> given_at a (eg_consumer e)" using v e(1) by (simp add: neg_inv_def)
  then have "arrival_ok nodes (no_name m) (eg_caps e)" using v unfolding e(3) by (auto simp: neg_inv_def)
  then obtain x where "x \<in> set (el_in (no_element m))" "caps_match (eg_caps e) x"
    using node_named_unique[OF chain_graphD(1)[OF g] m] by (auto simp: arrival_ok_def)
  then have "\<exists>x \<in> set (el_in (no_element m)). \<exists>p \<in> set (no_inputs m). ?T p x" using p e tf by blast
  from donor_spec[OF this] obtain i where i: "i < length (el_in (no_element m))" "d \<in> set (no_inputs m)" "?T d (el_in (no_element m) ! i)"
    "\<forall>j < i. \<forall>p \<in> set (no_inputs m). \<not> ?T p (el_in (no_element m) ! j)" unfolding d by blast
  have "\<not> caps_match (eg_caps e) (el_in (no_element m) ! j)" if e: "e \<in> set (tp_edges t)" "eg_consumer e = no_name m" and j: "j < i" for e j
  proof -
    have "(eg_producer e, no_name m) \<in> feeds t" using e by (auto simp: feeds_def)
    then have "eg_producer e \<in> set (no_inputs m)" using fed_by_inputs[OF g v m] by simp
    then show ?thesis using i(4) j e tf by blast
  qed
  then show ?thesis using i(1,2) i(3)[unfolded tf] by blast
qed

text \<open>
  C25: a chain that loads runs, and runs for something.  Its elements are the declared slots, each once.  Its edges are exactly the producer and consumer pairs of the
  resolved \<^verbatim>\<open>after:\<close> lines, each once.  Every element is fed, over edges, by a decoder without a condition and itself
  feeds an output element that nothing follows.  And every element with predecessors has a donor among them, whose edge carries the cap the element prefers most of those
  its edges carry.
\<close>

theorem chain_runs:
  assumes "dict_wf specs" and "from_spec create name specs = Inr t"
  shows "mset (map no_name (tp_nodes t)) = mset (map fst specs) \<and>
    distinct (map (\<lambda>e. (eg_producer e, eg_consumer e)) (tp_edges t)) \<and>
    (\<forall>n \<in> set (tp_nodes t).
      (\<forall>p. (p, no_name n) \<in> feeds t \<longleftrightarrow> p \<in> set (no_inputs n)) \<and>
      (\<exists>r \<in> set (tp_nodes t). no_kind r = DECODE \<and> is_root r \<and> no_condition r = None \<and> (no_name r, no_name n) \<in> (feeds t)\<^sup>*) \<and>
      (\<exists>m \<in> set (tp_nodes t). no_kind m = OUTPUT \<and> is_sink m \<and> (no_name n, no_name m) \<in> (feeds t)\<^sup>*) \<and>
      (\<not> is_root n \<longrightarrow> (\<exists>d \<in> set (no_inputs n). no_donor n = Some d \<and> (\<exists>i < length (el_in (no_element n)).
         (\<exists>e \<in> set (tp_edges t). eg_producer e = d \<and> eg_consumer e = no_name n \<and> caps_match (eg_caps e) (el_in (no_element n) ! i)) \<and>
         (\<forall>e \<in> set (tp_edges t). eg_consumer e = no_name n \<longrightarrow> (\<forall>j < i. \<not> caps_match (eg_caps e) (el_in (no_element n) ! j)))))))"
proof (intro conjI ballI allI impI)
  obtain nodes a where g: "chain_graph nodes" and ch: "check_nodes nodes = Inr ()" and tn: "tp_nodes t = with_donors nodes (tp_edges t)" and
    v: "neg_inv nodes (length nodes) a (tp_edges t)" and ms: "mset (map no_name nodes) = mset (map fst specs)" by (rule loaded_inv[OF assms])
  have st: "check_structure nodes = Inr ()" using ch by (simp add: check_nodes_def rbind_Inr_iff)
  have "map no_name (tp_nodes t) = map no_name nodes" unfolding tn with_donors_def by (simp add: comp_def)
  then show "mset (map no_name (tp_nodes t)) = mset (map fst specs)" using ms by simp
  show dp: "distinct (map (\<lambda>e. (eg_producer e, eg_consumer e)) (tp_edges t))"
    unfolding feeds_outputs(1)[OF v] by (rule distinct_concat_pairs) (use chain_graphD(1,2)[OF g] in auto)
  note lift = with_donors_fields(2)[of _ nodes "tp_edges t", folded tn]
  fix n assume n: "n \<in> set (tp_nodes t)"
  then obtain m where m: "m \<in> set nodes" "n = (if is_root m then m
      else m\<lparr>no_donor := Some (donor_for (tp_edges t) (no_name m) (no_inputs m) (el_in (no_element m)))\<rparr>)"
    unfolding tn with_donors_node by blast
  have same: "no_name n = no_name m" "no_inputs n = no_inputs m" "no_element n = no_element m" using m(2) by simp_all
  show "(p, no_name n) \<in> feeds t \<longleftrightarrow> p \<in> set (no_inputs n)" for p unfolding same by (rule fed_by_inputs[OF g v m(1)])
  obtain i where i: "i < length nodes" "m = nodes ! i" using m(1) by (auto simp: in_set_conv_nth)
  obtain r where r: "r \<in> set nodes" "no_kind r = DECODE" "no_condition r = None" "is_root r" "(no_name r, no_name n) \<in> (feeds t)\<^sup>*"
    using fed_by_root[OF g st v i(1)] i(2) same(1) by metis
  show "\<exists>r \<in> set (tp_nodes t). no_kind r = DECODE \<and> is_root r \<and> no_condition r = None \<and> (no_name r, no_name n) \<in> (feeds t)\<^sup>*"
    using lift[OF r(1)] r(2-5) unfolding is_root_def by metis
  obtain k where k: "k \<in> set nodes" "no_kind k = OUTPUT" "(no_name n, no_name k) \<in> (feeds t)\<^sup>*"
    using reaches_output[OF g st v m(1)] same(1) by metis
  show "\<exists>m \<in> set (tp_nodes t). no_kind m = OUTPUT \<and> is_sink m \<and> (no_name n, no_name m) \<in> (feeds t)\<^sup>*"
    using lift[OF k(1)] k(2,3) structure_facts(2)[OF st k(1,2)] unfolding is_sink_def by metis
  assume nr: "\<not> is_root n"
  then have nm: "\<not> is_root m" by (simp add: is_root_def same)
  then have "no_donor n = Some (donor_for (tp_edges t) (no_name m) (no_inputs m) (el_in (no_element m)))" using m(2) by simp
  then show "\<exists>d \<in> set (no_inputs n). no_donor n = Some d \<and> (\<exists>i < length (el_in (no_element n)).
         (\<exists>e \<in> set (tp_edges t). eg_producer e = d \<and> eg_consumer e = no_name n \<and> caps_match (eg_caps e) (el_in (no_element n) ! i)) \<and>
         (\<forall>e \<in> set (tp_edges t). eg_consumer e = no_name n \<longrightarrow> (\<forall>j < i. \<not> caps_match (eg_caps e) (el_in (no_element n) ! j))))"
    unfolding same using donor_chosen[OF g v m(1) nm dp refl] by blast
qed

section \<open>No row and no camera has two owners\<close>

lemma in_combinations: "i < j \<Longrightarrow> j < length xs \<Longrightarrow> (xs ! i, xs ! j) \<in> set (combinations xs)"
proof (induction xs arbitrary: i j)
  case (Cons x xs)
  then show ?case by (cases i; cases j) (auto simp: nth_Cons')
qed simp

lemma pair_in_combinations:
  "x \<in> set xs \<Longrightarrow> y \<in> set xs \<Longrightarrow> x \<noteq> y \<Longrightarrow> (x, y) \<in> set (combinations xs) \<or> (y, x) \<in> set (combinations xs)"
  by (metis in_combinations in_set_conv_nth linorder_neqE_nat)

lemma fillers_by_field_get:
  "map_of (fillers_by_field nodes) field =
     (let ns = filter (\<lambda>n. ROW_FIELD_KINDS (no_kind n) = Some field \<and> el_selects_rows (no_element n)) nodes in if ns = [] then None else Some ns)"
proof (induction nodes rule: rev_induct)
  case (snoc n nodes)
  then show ?case by (auto simp: fillers_by_field_def dict_simps Let_def split: option.splits)
qed (simp add: fillers_by_field_def)

text \<open>Whether a slot covers the rows of a label.\<close>

definition covers :: "'p node \<Rightarrow> string \<Rightarrow> bool" where
  "covers n label \<longleftrightarrow> (case el_classes (no_element n) of None \<Rightarrow> True | Some ls \<Rightarrow> label \<in> set ls)"

lemma contest_covers: "covers m l \<Longrightarrow> covers n l \<Longrightarrow> contest (el_classes (no_element m)) (el_classes (no_element n))"
  by (auto simp: covers_def contest_def list_ex_iff split: option.splits)

definition roster :: "'p node \<Rightarrow> string list" where
  "roster n = (case el_group (no_element n) of None \<Rightarrow> [] | Some (g, cams) \<Rightarrow> cams)"

lemma claim_cameras_Inr:
  "claim_cameras s cams claimed = Inr c \<Longrightarrow> distinct cams \<and> set cams \<inter> fst ` set claimed = {} \<and> fst ` set c = fst ` set claimed \<union> set cams"
proof (induction cams arbitrary: claimed)
  case (Cons x cams)
  then have x: "x \<notin> fst ` set claimed" "claim_cameras s cams (AList.update x s claimed) = Inr c"
    by (auto simp: map_of_eq_None_iff split: option.splits)
  then show ?case using Cons.IH[OF x(2)] by (auto simp: dict_keyset_update)
qed simp

lemma claim_all_Inr:
  "claim_all ns claimed = Inr c \<Longrightarrow> distinct (concat (map roster ns)) \<and> set (concat (map roster ns)) \<inter> fst ` set claimed = {}"
proof (induction ns arbitrary: claimed)
  case (Cons n ns)
  show ?case
  proof (cases "el_group (no_element n)")
    case None
    then show ?thesis using Cons by (simp add: roster_def)
  next
    case (Some gc)
    obtain g cams where gc: "gc = (g, cams)" by (cases gc)
    obtain b where b: "claim_cameras (no_name n) cams claimed = Inr b" "claim_all ns b = Inr c" using Cons.prems Some gc by (auto simp: rbind_Inr_iff)
    have "roster n = cams" using Some gc by (simp add: roster_def)
    then show ?thesis using claim_cameras_Inr[OF b(1)] Cons.IH[OF b(2)] by auto
  qed
qed simp


section \<open>A chain that loads\<close>

definition sample_element :: "string \<Rightarrow> element" where
  "sample_element impl = \<lparr>el_impl = impl, el_in = [], el_out = [], el_requires_model_name = (impl = ''pool''), el_selects_rows = (impl = ''crop''),
     el_reads_per_row = [], el_files_raw_response = False, el_meta_key = '''', el_group = None, el_classes = (if impl = ''crop'' then Some [''ship''] else None),
     el_labels = (if impl = ''pool'' then Some [''ship'', ''person''] else None)\<rparr>"

definition sample_create :: "unit create" where
  "sample_create k impl slot p model =
     (if k = DECODE then Inr \<lparr>ed_accepts = [''*@*''], ed_produces = [''nv12@gpu''], ed_rest = sample_element impl\<rparr>
      else if k = OUTPUT then Inr \<lparr>ed_accepts = [''nv12@gpu'', ''meta@cpu''], ed_produces = [], ed_rest = sample_element impl\<rparr>
      else if impl \<in> {''pool'', ''crop''} then Inr \<lparr>ed_accepts = [''nv12@gpu''], ed_produces = [''*@*''], ed_rest = sample_element impl\<rparr>
      else Inl UnknownElementImplError)"

definition slot_spec :: "string \<Rightarrow> string option \<Rightarrow> string option \<Rightarrow> string list option \<Rightarrow> unit element_spec" where
  "slot_spec impl model cond after = \<lparr>es_impl = impl, es_kind = None, es_model = model, es_when = cond, es_after = after, es_params = ()\<rparr>"

definition sample_specs :: "(string, unit element_spec) dict" where
  "sample_specs = [(''decode'', slot_spec ''gst'' None None None), (''detect'', slot_spec ''pool'' (Some ''ships'') None None),
     (''embed_ship'', slot_spec ''crop'' None (Some ''fps == high'') None), (''output'', slot_spec ''jsonlines'' None None (Some [''embed_ship'', ''detect'']))]"

definition sample_topology :: "unit topology" where
  "sample_topology = (case from_spec sample_create ''harbour'' sample_specs of Inr t \<Rightarrow> t | Inl e \<Rightarrow> \<lparr>tp_name = [], tp_nodes = [], tp_edges = []\<rparr>)"

lemma sample_loads: "dict_wf sample_specs" "from_spec sample_create ''harbour'' sample_specs = Inr sample_topology"
proof -
  show "dict_wf sample_specs" by code_simp
  have "case from_spec sample_create ''harbour'' sample_specs of Inr t \<Rightarrow> True | Inl e \<Rightarrow> False" by code_simp
  then show "from_spec sample_create ''harbour'' sample_specs = Inr sample_topology"
    unfolding sample_topology_def by (cases "from_spec sample_create ''harbour'' sample_specs") auto
qed

lemma no_implicit_download_witness:
  "\<exists>n \<in> set (tp_nodes sample_topology). no_name n = ''output'' \<and> (\<exists>x \<in> set (el_in (no_element n)). caps_match \<lparr>cp_format = ''nv12'', cp_location = ''gpu''\<rparr> x)"
proof -
  have "list_ex (\<lambda>e. eg_producer e = ''detect'' \<and> eg_consumer e = ''embed_ship'' \<and> eg_caps e = \<lparr>cp_format = ''nv12'', cp_location = ''gpu''\<rparr>) (tp_edges sample_topology)"
    by code_simp
  then obtain e where e: "e \<in> set (tp_edges sample_topology)" "eg_producer e = ''detect''" "eg_consumer e = ''embed_ship''" "eg_caps e = \<lparr>cp_format = ''nv12'', cp_location = ''gpu''\<rparr>"
    by (auto simp: list_ex_iff)
  have "list_ex (\<lambda>n. no_name n = ''embed_ship'' \<and> no_condition n \<noteq> None \<and> ''output'' \<in> set (no_outputs n)) (tp_nodes sample_topology)" by code_simp
  then obtain n where n: "n \<in> set (tp_nodes sample_topology)" "no_name n = ''embed_ship''" "no_condition n \<noteq> None" "''output'' \<in> set (no_outputs n)"
    by (auto simp: list_ex_iff)
  have "arrives sample_topology ''embed_ship'' ''detect'' \<lparr>cp_format = ''nv12'', cp_location = ''gpu''\<rparr>" using arrives.over_edge[OF e(1)] e by simp
  then have "arrives sample_topology ''output'' ''detect'' \<lparr>cp_format = ''nv12'', cp_location = ''gpu''\<rparr>" using arrives.past[OF n(1,3) _ n(4)] n(2) by simp
  then show ?thesis using no_implicit_download[OF sample_loads] by blast
qed

lemma chain_runs_witness:
  "list_ex (\<lambda>n. no_name n = ''output'' \<and> no_donor n = Some ''embed_ship'') (tp_nodes sample_topology) \<and> (''detect'', ''output'') \<in> feeds sample_topology"
proof -
  have c: "list_ex (\<lambda>n. no_name n = ''output'' \<and> no_donor n = Some ''embed_ship'') (tp_nodes sample_topology)" by code_simp
  have "list_ex (\<lambda>n. no_name n = ''output'' \<and> no_inputs n = [''embed_ship'', ''detect'']) (tp_nodes sample_topology)" by code_simp
  then obtain n where n: "n \<in> set (tp_nodes sample_topology)" "no_name n = ''output''" "no_inputs n = [''embed_ship'', ''detect'']" by (auto simp: list_ex_iff)
  have "\<forall>n \<in> set (tp_nodes sample_topology). \<forall>p. (p, no_name n) \<in> feeds sample_topology \<longleftrightarrow> p \<in> set (no_inputs n)"
    using chain_runs[OF sample_loads] by blast
  from this[rule_format, OF n(1), of "''detect''"] show ?thesis using n c by simp
qed


end
