(* ===== verification/Shared_Ring.thy ===== *)
theory Shared_Ring
  imports Prelude "HOL-Library.Word"
begin

text \<open>
  \<^verbatim>\<open>src/shipinfer/runtime/memory/shared_ring.py\<close>: the ring two processes exchange payloads through.  The shared block is a function from
  offsets to bytes; what a process keeps for itself is a \<^verbatim>\<open>handle\<close>.  A double is its bit pattern, an owner's name the bytes it is encoded as.
\<close>

section \<open>Layout\<close>

datatype ring_error =
    RingClosed string
  | RingFull nat nat
  | RingProtocol
  | RingValue
  | RingIndex
  | RingStruct

definition PAGE :: nat where "PAGE = 4096"

definition align_up :: "nat \<Rightarrow> nat \<Rightarrow> nat" where
  "align_up v to = (v + to - 1) div to * to"

record ring_layout =
  rl_slots :: nat
  rl_slot_bytes :: nat

definition mk_layout :: "int \<Rightarrow> int \<Rightarrow> ring_error + ring_layout" where
  "mk_layout slots slot_bytes =
     (if slots < 1 then Inl RingValue
      else if slot_bytes < 1 then Inl RingValue
      else Inr \<lparr>rl_slots = nat slots, rl_slot_bytes = nat slot_bytes\<rparr>)"

definition states_offset :: "ring_layout \<Rightarrow> nat" where "states_offset l = PAGE"
definition states_bytes :: "ring_layout \<Rightarrow> nat" where "states_bytes l = align_up (rl_slots l) PAGE"
definition payload_offset :: "ring_layout \<Rightarrow> nat" where "payload_offset l = states_offset l + states_bytes l"
definition padded_slot_bytes :: "ring_layout \<Rightarrow> nat" where "padded_slot_bytes l = align_up (rl_slot_bytes l) PAGE"
definition total_bytes :: "ring_layout \<Rightarrow> nat" where "total_bytes l = payload_offset l + rl_slots l * padded_slot_bytes l"

definition state_offset :: "ring_layout \<Rightarrow> nat \<Rightarrow> nat" where "state_offset l i = states_offset l + i"
definition slot_offset :: "ring_layout \<Rightarrow> nat \<Rightarrow> nat" where "slot_offset l i = payload_offset l + i * padded_slot_bytes l"

definition check_index :: "ring_layout \<Rightarrow> nat \<Rightarrow> ring_error + unit" where
  "check_index l i = (if i < rl_slots l then Inr () else Inl RingIndex)"

section \<open>Bytes\<close>

type_synonym bytes = "8 word list"
type_synonym memory = "nat \<Rightarrow> 8 word"

definition peek :: "memory \<Rightarrow> nat \<Rightarrow> nat \<Rightarrow> bytes" where
  "peek m off n = map m [off..<off + n]"

definition poke :: "nat \<Rightarrow> bytes \<Rightarrow> memory \<Rightarrow> memory" where
  "poke off bs m = (\<lambda>a. if off \<le> a \<and> a < off + length bs then bs ! (a - off) else m a)"

text \<open>Little-endian unsigned integers of \<^verbatim>\<open>n\<close> bytes.\<close>

fun pack_uint :: "nat \<Rightarrow> nat \<Rightarrow> bytes" where
  "pack_uint 0 v = []"
| "pack_uint (Suc n) v = word_of_nat (v mod 256) # pack_uint n (v div 256)"

fun unpack_uint :: "bytes \<Rightarrow> nat" where
  "unpack_uint [] = 0"
| "unpack_uint (b # bs) = unat b + 256 * unpack_uint bs"

lemma pack_uint_length [simp]: "length (pack_uint n v) = n"
  by (induction n arbitrary: v) auto

lemma unpack_pack: "v < 256 ^ n \<Longrightarrow> unpack_uint (pack_uint n v) = v"
proof (induction n arbitrary: v)
  case (Suc n)
  then have "v div 256 < 256 ^ n" by (simp add: less_mult_imp_div_less mult.commute)
  moreover have "unat (word_of_nat (v mod 256) :: 8 word) = v mod 256" by (simp add: unat_of_nat take_bit_eq_mod)
  ultimately show ?case using Suc.IH by simp
qed simp

lemma peek_length [simp]: "length (peek m off n) = n"
  by (simp add: peek_def)

lemma peek_poke_same: "n = length bs \<Longrightarrow> peek (poke off bs m) off n = bs"
  by (rule nth_equalityI) (auto simp: peek_def poke_def)

lemma peek_poke_other: "off' + n \<le> off \<or> off + length bs \<le> off' \<Longrightarrow> peek (poke off bs m) off' n = peek m off' n"
  by (rule nth_equalityI) (auto simp: peek_def poke_def)

lemma poke_other: "a < off \<or> off + length bs \<le> a \<Longrightarrow> poke off bs m a = m a"
  by (auto simp: poke_def)

lemma peek_poke_in: "o' + n \<le> length bs \<Longrightarrow> peek (poke 0 bs m) o' n = take n (drop o' bs)"
  by (rule nth_equalityI) (auto simp: peek_def poke_def)

section \<open>The header page\<close>

record ring_header =
  rh_magic :: nat
  rh_version :: nat
  rh_slots :: nat
  rh_slot_bytes :: nat
  rh_depth :: nat
  rh_ewma :: nat
  rh_heartbeat :: nat
  rh_closed :: bool
  rh_owner :: bytes

definition MAGIC :: nat where "MAGIC = 0x53485249"
definition RING_VERSION :: nat where "RING_VERSION = 1"
definition HEADER_SIZE :: nat where "HEADER_SIZE = 104"
definition STAMP_OFFSET :: nat where "STAMP_OFFSET = 16"
definition CLOSED_OFFSET :: nat where "CLOSED_OFFSET = HEADER_SIZE - 64"

text \<open>\<^verbatim>\<open>struct\<close> refuses what does not fit: the names are checked at creation, the other fields here.\<close>

definition header_fits :: "ring_header \<Rightarrow> bool" where
  "header_fits h \<longleftrightarrow> rh_magic h < 256 ^ 4 \<and> rh_version h < 256 ^ 4 \<and> rh_slots h < 256 ^ 4 \<and> rh_slot_bytes h < 256 ^ 4 \<and>
     rh_depth h < 256 ^ 4 \<and> rh_ewma h < 256 ^ 8 \<and> rh_heartbeat h < 256 ^ 8"

definition header_pack :: "ring_header \<Rightarrow> bytes" where
  "header_pack h = pack_uint 4 (rh_magic h) @ pack_uint 4 (rh_version h) @ pack_uint 4 (rh_slots h) @ pack_uint 4 (rh_slot_bytes h) @
     pack_uint 4 (rh_depth h) @ pack_uint 4 0 @ pack_uint 8 (rh_ewma h) @ pack_uint 8 (rh_heartbeat h) @
     [if rh_closed h then 1 else 0] @ take 63 (rh_owner h @ replicate 63 0)"

definition rstrip_nul :: "bytes \<Rightarrow> bytes" where
  "rstrip_nul bs = rev (dropWhile (\<lambda>b. b = 0) (rev bs))"

definition header_unpack :: "memory \<Rightarrow> ring_header" where
  "header_unpack m = \<lparr>rh_magic = unpack_uint (peek m 0 4), rh_version = unpack_uint (peek m 4 4), rh_slots = unpack_uint (peek m 8 4),
     rh_slot_bytes = unpack_uint (peek m 12 4), rh_depth = unpack_uint (peek m 16 4), rh_ewma = unpack_uint (peek m 24 8),
     rh_heartbeat = unpack_uint (peek m 32 8), rh_closed = (m 40 \<noteq> 0), rh_owner = rstrip_nul (peek m 41 63)\<rparr>"

lemma header_pack_length [simp]: "length (header_pack h) = HEADER_SIZE"
  by (simp add: header_pack_def HEADER_SIZE_def)

lemma rstrip_pad: "(bs = [] \<or> last bs \<noteq> 0) \<Longrightarrow> rstrip_nul (bs @ replicate k 0) = bs"
proof -
  assume a: "bs = [] \<or> last bs \<noteq> 0"
  have "dropWhile (\<lambda>b. b = 0) (replicate k (0 :: 8 word) @ rev bs) = dropWhile (\<lambda>b. b = 0) (rev bs)" by (induction k) auto
  also have "\<dots> = rev bs" using a by (cases bs rule: rev_cases) auto
  finally show ?thesis by (simp add: rstrip_nul_def)
qed

text \<open>What is packed is read back, and nothing outside the first bytes of the block is touched.\<close>

lemma header_roundtrip:
  assumes "header_fits h" and "length (rh_owner h) \<le> 63" and "rh_owner h = [] \<or> last (rh_owner h) \<noteq> 0"
  shows "header_unpack (poke 0 (header_pack h) m) = h"
proof -
  let ?m = "poke 0 (header_pack h) m"
  have p: "peek ?m o' n = take n (drop o' (header_pack h))" if "o' + n \<le> HEADER_SIZE" for o' n using that by (intro peek_poke_in) simp
  have d: "take 4 (drop 0 (header_pack h)) = pack_uint 4 (rh_magic h)" "take 4 (drop 4 (header_pack h)) = pack_uint 4 (rh_version h)"
    "take 4 (drop 8 (header_pack h)) = pack_uint 4 (rh_slots h)" "take 4 (drop 12 (header_pack h)) = pack_uint 4 (rh_slot_bytes h)"
    "take 4 (drop 16 (header_pack h)) = pack_uint 4 (rh_depth h)" "take 8 (drop 24 (header_pack h)) = pack_uint 8 (rh_ewma h)"
    "take 8 (drop 32 (header_pack h)) = pack_uint 8 (rh_heartbeat h)" "take 1 (drop 40 (header_pack h)) = [if rh_closed h then 1 else 0]"
    "take 63 (drop 41 (header_pack h)) = take 63 (rh_owner h @ replicate 63 0)"
    by (simp_all add: header_pack_def)
  have u: "peek ?m 0 4 = pack_uint 4 (rh_magic h)" "peek ?m 4 4 = pack_uint 4 (rh_version h)" "peek ?m 8 4 = pack_uint 4 (rh_slots h)"
    "peek ?m 12 4 = pack_uint 4 (rh_slot_bytes h)" "peek ?m 16 4 = pack_uint 4 (rh_depth h)" "peek ?m 24 8 = pack_uint 8 (rh_ewma h)"
    "peek ?m 32 8 = pack_uint 8 (rh_heartbeat h)" "peek ?m 40 1 = [if rh_closed h then 1 else 0]" "peek ?m 41 63 = take 63 (rh_owner h @ replicate 63 0)"
    unfolding d[symmetric] by (simp_all add: p HEADER_SIZE_def)
  have c: "?m 40 = (if rh_closed h then 1 else 0)" using u(8) by (simp add: peek_def)
  have o: "rstrip_nul (take 63 (rh_owner h @ replicate 63 0)) = rh_owner h"
    using rstrip_pad[OF assms(3), of "63 - length (rh_owner h)"] assms(2) by (simp add: min_def)
  show ?thesis unfolding header_unpack_def u c o using assms(1) by (simp add: unpack_pack header_fits_def)
qed

section \<open>A process's end of the ring\<close>

definition FREE :: "8 word" where "FREE = 0"
definition CLAIMED :: "8 word" where "CLAIMED = 1"
definition WRITTEN :: "8 word" where "WRITTEN = 2"
definition TAKEN :: "8 word" where "TAKEN = 3"

record ring_handle =
  hn_layout :: ring_layout
  hn_name :: string
  hn_owner :: bytes
  hn_is_owner :: bool
  hn_next :: nat
  hn_take_next :: nat
  hn_detached :: bool
  hn_closed_here :: bool

definition mk_handle :: "ring_layout \<Rightarrow> string \<Rightarrow> bytes \<Rightarrow> bool \<Rightarrow> ring_handle" where
  "mk_handle l name owner is_owner = \<lparr>hn_layout = l, hn_name = name, hn_owner = owner, hn_is_owner = is_owner, hn_next = 0, hn_take_next = 0,
     hn_detached = False, hn_closed_here = False\<rparr>"

definition read_header :: "ring_handle \<Rightarrow> memory \<Rightarrow> ring_header" where
  "read_header h m =
     (if hn_detached h
      then \<lparr>rh_magic = MAGIC, rh_version = RING_VERSION, rh_slots = rl_slots (hn_layout h), rh_slot_bytes = rl_slot_bytes (hn_layout h),
            rh_depth = 0, rh_ewma = 0, rh_heartbeat = 0, rh_closed = True, rh_owner = hn_owner h\<rparr>
      else header_unpack m)"

definition write_header :: "ring_handle \<Rightarrow> nat \<Rightarrow> nat \<Rightarrow> nat \<Rightarrow> bool \<Rightarrow> nat \<Rightarrow> memory \<Rightarrow> memory" where
  "write_header h depth ewma heartbeat shut magic m =
     (if hn_detached h then m
      else poke 0 (header_pack \<lparr>rh_magic = magic, rh_version = RING_VERSION, rh_slots = rl_slots (hn_layout h),
        rh_slot_bytes = rl_slot_bytes (hn_layout h), rh_depth = depth, rh_ewma = ewma, rh_heartbeat = heartbeat, rh_closed = shut,
        rh_owner = hn_owner h\<rparr>) m)"

definition ring_closed :: "ring_handle \<Rightarrow> memory \<Rightarrow> bool" where
  "ring_closed h m \<longleftrightarrow> hn_detached h \<or> m CLOSED_OFFSET = 1"

definition load_signal :: "ring_handle \<Rightarrow> memory \<Rightarrow> nat \<times> nat \<times> nat" where
  "load_signal h m =
     (if hn_detached h then (0, 0, 0)
      else (unpack_uint (peek m STAMP_OFFSET 4), unpack_uint (peek m (STAMP_OFFSET + 8) 8), unpack_uint (peek m (STAMP_OFFSET + 16) 8)))"

definition stamp_bytes :: "int \<Rightarrow> nat \<Rightarrow> nat \<Rightarrow> bytes" where
  "stamp_bytes depth ewma now = pack_uint 4 (nat (max 0 (min depth 0xFFFFFFFF))) @ pack_uint 4 0 @ pack_uint 8 ewma @ pack_uint 8 now"

definition stamp :: "ring_handle \<Rightarrow> int \<Rightarrow> nat \<Rightarrow> nat \<Rightarrow> memory \<Rightarrow> ring_error + memory" where
  "stamp h depth ewma now m =
     (if hn_detached h then Inr m
      else if \<not> hn_is_owner h then Inl RingProtocol
      else Inr (poke STAMP_OFFSET (stamp_bytes depth ewma now) m))"

definition slot_state :: "ring_handle \<Rightarrow> nat \<Rightarrow> memory \<Rightarrow> ring_error + 8 word" where
  "slot_state h i m =
     (if hn_detached h then Inr FREE
      else rbind (check_index (hn_layout h) i) (\<lambda>_. Inr (m (state_offset (hn_layout h) i))))"

definition set_state :: "ring_handle \<Rightarrow> nat \<Rightarrow> 8 word \<Rightarrow> memory \<Rightarrow> ring_error + memory" where
  "set_state h i v m =
     (if hn_detached h then Inr m
      else rbind (check_index (hn_layout h) i) (\<lambda>_. Inr (m(state_offset (hn_layout h) i := v))))"

text \<open>
  The read of \<^verbatim>\<open>_swap_state\<close> and its write.  The lock around the two is the process's own: the other process can act in between.  The read says whether to write;
  \<^verbatim>\<open>strict\<close> is the presence of an \<^verbatim>\<open>expected_word\<close>.
\<close>

definition swap_check :: "ring_handle \<Rightarrow> nat \<Rightarrow> 8 word \<Rightarrow> bool \<Rightarrow> memory \<Rightarrow> ring_error + bool" where
  "swap_check h i expect strict m =
     (if hn_detached h then Inr False
      else rbind (check_index (hn_layout h) i) (\<lambda>_.
        if m (state_offset (hn_layout h) i) \<noteq> expect then (if strict then Inl RingProtocol else Inr False) else Inr True))"

definition swap_store :: "ring_handle \<Rightarrow> nat \<Rightarrow> 8 word \<Rightarrow> memory \<Rightarrow> memory" where
  "swap_store h i to m = m(state_offset (hn_layout h) i := to)"

definition swap_state :: "ring_handle \<Rightarrow> nat \<Rightarrow> 8 word \<Rightarrow> 8 word \<Rightarrow> bool \<Rightarrow> memory \<Rightarrow> ring_error + memory \<times> bool" where
  "swap_state h i expect to strict m =
     rbind (swap_check h i expect strict m) (\<lambda>b. Inr (if b then swap_store h i to m else m, b))"

definition ring_depth :: "ring_handle \<Rightarrow> memory \<Rightarrow> nat" where
  "ring_depth h m =
     (if hn_detached h then 0
      else length (filter (\<lambda>b. b \<noteq> FREE) (peek m (states_offset (hn_layout h)) (rl_slots (hn_layout h)))))"

text \<open>Which slot \<^verbatim>\<open>claim\<close> tries next, and which \<^verbatim>\<open>take\<close> tries at a step of its scan.\<close>

definition claim_at :: "ring_handle \<Rightarrow> nat \<times> ring_handle" where
  "claim_at h = (hn_next h, h\<lparr>hn_next := (hn_next h + 1) mod rl_slots (hn_layout h)\<rparr>)"

definition take_at :: "ring_handle \<Rightarrow> nat \<Rightarrow> nat" where
  "take_at h step = (hn_take_next h + step) mod rl_slots (hn_layout h)"

definition took :: "nat \<Rightarrow> ring_handle \<Rightarrow> ring_handle" where
  "took i h = h\<lparr>hn_take_next := (i + 1) mod rl_slots (hn_layout h)\<rparr>"

fun claim_scan :: "nat \<Rightarrow> ring_handle \<Rightarrow> memory \<Rightarrow> ring_error + ring_handle \<times> memory \<times> nat option" where
  "claim_scan 0 h m = Inr (h, m, None)"
| "claim_scan (Suc n) h m =
     (case claim_at h of (i, h') \<Rightarrow>
       rbind (swap_state h' i FREE CLAIMED False m) (\<lambda>(m', b). if b then Inr (h', m', Some i) else claim_scan n h' m'))"

text \<open>One turn of \<^verbatim>\<open>claim\<close>'s loop; no slot and no error means another turn.\<close>

definition claim_turn :: "ring_handle \<Rightarrow> rat \<Rightarrow> rat \<Rightarrow> memory \<Rightarrow> ring_error + ring_handle \<times> memory \<times> nat option" where
  "claim_turn h now deadline m =
     (if hn_is_owner h then Inl RingProtocol
      else if ring_closed h m then Inl (RingClosed ''closed'')
      else rbind (claim_scan (rl_slots (hn_layout h)) h m) (\<lambda>(h', m', found).
        if found = None \<and> deadline \<le> now then Inl (RingFull (ring_depth h' m') (rl_slots (hn_layout h))) else Inr (h', m', found)))"

fun take_scan :: "nat \<Rightarrow> nat \<Rightarrow> ring_handle \<Rightarrow> memory \<Rightarrow> ring_error + ring_handle \<times> memory \<times> nat option" where
  "take_scan 0 step h m = Inr (h, m, None)"
| "take_scan (Suc n) step h m =
     rbind (swap_state h (take_at h step) WRITTEN TAKEN False m) (\<lambda>(m', b).
       if b then Inr (took (take_at h step) h, m', Some (take_at h step)) else take_scan n (Suc step) h m')"

datatype take_result = Took nat | NoWork | Again

definition take_turn :: "ring_handle \<Rightarrow> rat \<Rightarrow> rat option \<Rightarrow> memory \<Rightarrow> ring_error + ring_handle \<times> memory \<times> take_result" where
  "take_turn h now deadline m =
     (if \<not> hn_is_owner h then Inl RingProtocol
      else if hn_detached h then Inr (h, m, NoWork)
      else rbind (take_scan (rl_slots (hn_layout h)) 0 h m) (\<lambda>(h', m', found).
        case found of
          Some i \<Rightarrow> Inr (h', m', Took i)
        | None \<Rightarrow> Inr (h', m', if ring_closed h' m' \<or> (case deadline of None \<Rightarrow> False | Some d \<Rightarrow> d \<le> now) then NoWork else Again)))"

definition payload :: "ring_handle \<Rightarrow> nat \<Rightarrow> memory \<Rightarrow> ring_error + bytes" where
  "payload h i m =
     (if hn_detached h then Inl (RingClosed ''closed'')
      else rbind (check_index (hn_layout h) i) (\<lambda>_. Inr (peek m (slot_offset (hn_layout h) i) (rl_slot_bytes (hn_layout h)))))"

text \<open>A slice assignment into the view \<^verbatim>\<open>payload\<close> returns.\<close>

definition fill_payload :: "ring_handle \<Rightarrow> nat \<Rightarrow> nat \<Rightarrow> bytes \<Rightarrow> memory \<Rightarrow> ring_error + memory" where
  "fill_payload h i off bs m =
     rbind (payload h i m) (\<lambda>view. if off + length bs \<le> length view then Inr (poke (slot_offset (hn_layout h) i + off) bs m) else Inl RingValue)"

definition publish_slot :: "ring_handle \<Rightarrow> nat \<Rightarrow> memory \<Rightarrow> ring_error + memory" where
  "publish_slot h i m = (if hn_detached h then Inr m else rbind (swap_state h i CLAIMED WRITTEN True m) (\<lambda>(m', b). Inr m'))"

definition abandon_slot :: "ring_handle \<Rightarrow> nat \<Rightarrow> memory \<Rightarrow> ring_error + memory" where
  "abandon_slot h i m = (if hn_detached h then Inr m else rbind (swap_state h i CLAIMED FREE True m) (\<lambda>(m', b). Inr m'))"

definition release_slot :: "ring_handle \<Rightarrow> nat \<Rightarrow> memory \<Rightarrow> ring_error + memory" where
  "release_slot h i m =
     (if hn_detached h then Inr m
      else if \<not> hn_is_owner h then Inl RingProtocol
      else rbind (swap_state h i TAKEN FREE True m) (\<lambda>(m', b). Inr m'))"

text \<open>\<^verbatim>\<open>close\<close>, but for the mapping's lifetime: the owner's mark, then the handle answers no more.\<close>

definition close_handle :: "ring_handle \<Rightarrow> nat \<Rightarrow> memory \<Rightarrow> ring_handle \<times> memory" where
  "close_handle h now m =
     (let mark = hn_is_owner h \<and> \<not> hn_closed_here h;
          hd' = read_header h m;
          m' = (if mark then write_header h (rh_depth hd') (rh_ewma hd') now True MAGIC m else m)
      in (h\<lparr>hn_closed_here := hn_closed_here h \<or> hn_is_owner h, hn_detached := True\<rparr>, m'))"

section \<open>Creating and opening\<close>

record segment =
  sg_size :: nat
  sg_memory :: memory

text \<open>The shared names, each with its block, and the names this process has open.\<close>

definition create_ring :: "string \<Rightarrow> ring_layout \<Rightarrow> bytes \<Rightarrow> nat \<Rightarrow> (string, segment) dict \<Rightarrow> ring_error + ring_handle \<times> (string, segment) dict" where
  "create_ring name l owner now segs =
     (if 63 < length owner then Inl RingValue
      else if map_of segs name \<noteq> None then Inl RingProtocol
      else if 2 ^ 32 \<le> rl_slots l \<or> 2 ^ 32 \<le> rl_slot_bytes l then Inl RingStruct
      else
        (let h = mk_handle l name owner True;
             m0 = (\<lambda>_. 0);
             m1 = fold (\<lambda>i m. m(state_offset l i := FREE)) [0..<rl_slots l] m0;
             m2 = write_header h 0 0 now False 0 m1;
             m3 = poke 0 (pack_uint 4 MAGIC) m2
         in Inr (h, AList.update name \<lparr>sg_size = total_bytes l, sg_memory = m3\<rparr> segs)))"

definition open_ring :: "string \<Rightarrow> ring_layout \<Rightarrow> (string, segment) dict \<Rightarrow> string list \<Rightarrow> ring_error + ring_handle \<times> string list" where
  "open_ring name l segs opened =
     (case map_of segs name of
        None \<Rightarrow> Inl (RingClosed ''absent'')
      | Some sg \<Rightarrow>
          (let hd' = header_unpack (sg_memory sg) in
           if sg_size sg < HEADER_SIZE then Inl (RingClosed ''unborn'')
           else if rh_magic hd' = 0 then Inl (RingClosed ''unborn'')
           else if rh_magic hd' \<noteq> MAGIC \<or> rh_version hd' \<noteq> RING_VERSION then Inl RingProtocol
           else if sg_size sg < total_bytes l then Inl RingProtocol
           else if (rh_slots hd', rh_slot_bytes hd') \<noteq> (rl_slots l, rl_slot_bytes l) then Inl RingProtocol
           else if name \<in> set opened then Inl RingProtocol
           else Inr (mk_handle l name (rh_owner hd') False, opened @ [name])))"

section \<open>Two processes, one ring\<close>

text \<open>
  The steps of the two processes, interleaved in any order.  Each process has at most one \<^verbatim>\<open>_swap_state\<close> between its read and its write (its lock); what it will
  write is pending.  The writer's request threads use only slots \<^verbatim>\<open>claim\<close> gave them and they have not yet published or abandoned; the owner's consumers
  only slots \<^verbatim>\<open>take\<close> gave them and they have not yet released, and read the payload before they release.  \<^verbatim>\<open>wi_scan\<close> is the step of the scan
  \<^verbatim>\<open>take\<close> is in.  \<^verbatim>\<open>wi_sent\<close>, \<^verbatim>\<open>wi_got\<close> and \<^verbatim>\<open>wi_takes\<close> record what was published, what was read, and the slots taken; \<^verbatim>\<open>wi_error\<close> that some
  call raised.
\<close>

record wire =
  wi_memory :: memory
  wi_writer :: ring_handle
  wi_reader :: ring_handle
  wi_wpending :: "(nat \<times> 8 word) option"
  wi_rpending :: "(nat \<times> 8 word) option"
  wi_scan :: nat
  wi_claimed :: "nat list"
  wi_taken :: "nat list"
  wi_sent :: "bytes list"
  wi_got :: "bytes list"
  wi_takes :: "nat list"
  wi_error :: bool

datatype wire_op =
    ClaimProbe
  | Fill nat nat bytes
  | Publish nat
  | Abandon nat
  | WriterStore
  | TakeProbe
  | Release nat
  | ReaderStore
  | Stamp int nat nat
  | OwnerClose nat
  | WriterClose

definition begin_swap :: "ring_handle \<Rightarrow> nat \<Rightarrow> 8 word \<Rightarrow> 8 word \<Rightarrow> bool \<Rightarrow> memory \<Rightarrow> (nat \<times> 8 word) option \<times> bool" where
  "begin_swap h i expect to strict m = (case swap_check h i expect strict m of
     Inl e \<Rightarrow> (None, True)
   | Inr b \<Rightarrow> (if b then Some (i, to) else None, False))"

definition writer_swap :: "nat \<Rightarrow> 8 word \<Rightarrow> 8 word \<Rightarrow> bool \<Rightarrow> wire \<Rightarrow> wire" where
  "writer_swap i expect to strict s =
     (case begin_swap (wi_writer s) i expect to strict (wi_memory s) of
        (p, e) \<Rightarrow> s\<lparr>wi_wpending := p, wi_error := wi_error s \<or> e\<rparr>)"

definition reader_swap :: "nat \<Rightarrow> 8 word \<Rightarrow> 8 word \<Rightarrow> bool \<Rightarrow> wire \<Rightarrow> wire" where
  "reader_swap i expect to strict s =
     (case begin_swap (wi_reader s) i expect to strict (wi_memory s) of
        (p, e) \<Rightarrow> s\<lparr>wi_rpending := p, wi_error := wi_error s \<or> e\<rparr>)"

definition slot_bytes :: "ring_handle \<Rightarrow> nat \<Rightarrow> memory \<Rightarrow> bytes" where
  "slot_bytes h i m = peek m (slot_offset (hn_layout h) i) (rl_slot_bytes (hn_layout h))"

fun wire_step :: "wire \<Rightarrow> wire_op \<Rightarrow> wire" where
  "wire_step s ClaimProbe =
     (if wi_wpending s \<noteq> None then s
      else (case claim_at (wi_writer s) of (i, h) \<Rightarrow> writer_swap i FREE CLAIMED False (s\<lparr>wi_writer := h\<rparr>)))"
| "wire_step s (Fill i off bs) =
     (if i \<notin> set (wi_claimed s) then s
      else (case fill_payload (wi_writer s) i off bs (wi_memory s) of
              Inl e \<Rightarrow> s
            | Inr m \<Rightarrow> s\<lparr>wi_memory := m\<rparr>))"
| "wire_step s (Publish i) =
     (if wi_wpending s \<noteq> None \<or> i \<notin> set (wi_claimed s) then s
      else writer_swap i CLAIMED WRITTEN True (s\<lparr>wi_claimed := remove1 i (wi_claimed s)\<rparr>))"
| "wire_step s (Abandon i) =
     (if wi_wpending s \<noteq> None \<or> i \<notin> set (wi_claimed s) then s
      else writer_swap i CLAIMED FREE True (s\<lparr>wi_claimed := remove1 i (wi_claimed s)\<rparr>))"
| "wire_step s WriterStore =
     (case wi_wpending s of
        None \<Rightarrow> s
      | Some (i, to) \<Rightarrow> s\<lparr>wi_memory := swap_store (wi_writer s) i to (wi_memory s), wi_wpending := None,
          wi_claimed := (if to = CLAIMED then wi_claimed s @ [i] else wi_claimed s),
          wi_sent := (if to = WRITTEN then wi_sent s @ [slot_bytes (wi_writer s) i (wi_memory s)] else wi_sent s)\<rparr>)"
| "wire_step s TakeProbe =
     (if wi_rpending s \<noteq> None \<or> hn_detached (wi_reader s) then s
      else (case reader_swap (take_at (wi_reader s) (wi_scan s)) WRITTEN TAKEN False s of s' \<Rightarrow>
        if wi_rpending s' = None then s'\<lparr>wi_scan := (wi_scan s' + 1) mod rl_slots (hn_layout (wi_reader s'))\<rparr> else s'))"
| "wire_step s (Release i) =
     (if wi_rpending s \<noteq> None \<or> i \<notin> set (wi_taken s) then s
      else reader_swap i TAKEN FREE True
        (s\<lparr>wi_taken := remove1 i (wi_taken s), wi_got := wi_got s @ [slot_bytes (wi_reader s) i (wi_memory s)]\<rparr>))"
| "wire_step s ReaderStore =
     (case wi_rpending s of
        None \<Rightarrow> s
      | Some (i, to) \<Rightarrow>
          (let s1 = s\<lparr>wi_memory := swap_store (wi_reader s) i to (wi_memory s), wi_rpending := None\<rparr> in
           if to = TAKEN
           then s1\<lparr>wi_taken := wi_taken s @ [i], wi_takes := wi_takes s @ [i], wi_reader := took i (wi_reader s), wi_scan := 0\<rparr>
           else s1))"
| "wire_step s (Stamp depth ewma now) =
     (case stamp (wi_reader s) depth ewma now (wi_memory s) of
        Inl e \<Rightarrow> s\<lparr>wi_error := True\<rparr>
      | Inr m \<Rightarrow> s\<lparr>wi_memory := m\<rparr>)"
| "wire_step s (OwnerClose now) =
     (if wi_rpending s \<noteq> None then s
      else (case close_handle (wi_reader s) now (wi_memory s) of (h, m) \<Rightarrow> s\<lparr>wi_memory := m, wi_reader := h\<rparr>))"
| "wire_step s WriterClose =
     (if wi_wpending s \<noteq> None then s
      else (case close_handle (wi_writer s) 0 (wi_memory s) of (h, m) \<Rightarrow> s\<lparr>wi_memory := m, wi_writer := h\<rparr>))"

definition wire_run :: "wire_op list \<Rightarrow> wire \<Rightarrow> wire" where
  "wire_run ops s = foldl wire_step s ops"

text \<open>A ring one process created and the other opened.\<close>

definition wire_start :: "string \<Rightarrow> ring_layout \<Rightarrow> bytes \<Rightarrow> nat \<Rightarrow> ring_error + wire" where
  "wire_start name l owner now =
     rbind (create_ring name l owner now []) (\<lambda>(rd, segs).
     rbind (open_ring name l segs []) (\<lambda>(wr, opened).
       Inr \<lparr>wi_memory = sg_memory (the (map_of segs name)), wi_writer = wr, wi_reader = rd, wi_wpending = None, wi_rpending = None, wi_scan = 0,
            wi_claimed = [], wi_taken = [], wi_sent = [], wi_got = [], wi_takes = [], wi_error = False\<rparr>))"

section \<open>Where things lie\<close>

definition layout_ok :: "ring_layout \<Rightarrow> bool" where
  "layout_ok l \<longleftrightarrow> 0 < rl_slots l \<and> 0 < rl_slot_bytes l"

lemma align_up_ge: "0 < to \<Longrightarrow> v \<le> align_up v to"
proof -
  assume t: "0 < to"
  have "v + to - 1 = (v + to - 1) div to * to + (v + to - 1) mod to" by simp
  moreover have "(v + to - 1) mod to < to" using t by simp
  ultimately show ?thesis using t unfolding align_up_def by linarith
qed

lemma states_below_payload: "i < rl_slots l \<Longrightarrow> state_offset l i < payload_offset l"
  using align_up_ge[of PAGE "rl_slots l"] by (simp add: state_offset_def payload_offset_def states_bytes_def PAGE_def)

lemma header_below_states: "HEADER_SIZE \<le> state_offset l i"
  by (simp add: HEADER_SIZE_def state_offset_def states_offset_def PAGE_def)

lemma slots_apart:
  assumes "i < j"
  shows "slot_offset l i + rl_slot_bytes l \<le> slot_offset l j"
proof -
  have "rl_slot_bytes l \<le> padded_slot_bytes l" using align_up_ge[of PAGE "rl_slot_bytes l"] by (simp add: padded_slot_bytes_def PAGE_def)
  moreover have "Suc i * padded_slot_bytes l \<le> j * padded_slot_bytes l" using assms by (intro mult_le_mono1) simp
  ultimately show ?thesis by (simp add: slot_offset_def)
qed

lemma payload_before_slot: "payload_offset l \<le> slot_offset l i"
  by (simp add: slot_offset_def)

section \<open>The invariant\<close>

abbreviation st :: "ring_layout \<Rightarrow> memory \<Rightarrow> nat \<Rightarrow> 8 word" where
  "st l m i \<equiv> m (state_offset l i)"

definition msg :: "ring_layout \<Rightarrow> memory \<Rightarrow> nat \<Rightarrow> bytes" where
  "msg l m i = peek m (slot_offset l i) (rl_slot_bytes l)"

definition written :: "ring_layout \<Rightarrow> memory \<Rightarrow> nat set" where
  "written l m = {i. i < rl_slots l \<and> st l m i = WRITTEN}"

lemmas state_values = FREE_def CLAIMED_def WRITTEN_def TAKEN_def

lemma state_offset_inj [simp]: "state_offset l i = state_offset l j \<longleftrightarrow> i = j"
  by (simp add: state_offset_def)

lemma store_views:
  assumes "i < rl_slots l"
  shows "st l (m(state_offset l i := v)) j = (if j = i then v else st l m j)" "msg l (m(state_offset l i := v)) k = msg l m k"
proof -
  have "state_offset l i < slot_offset l k" using states_below_payload[OF assms] payload_before_slot[of l k] by simp
  then show "msg l (m(state_offset l i := v)) k = msg l m k" by (auto simp: msg_def peek_def)
qed simp

lemma header_views:
  assumes "off + length bs \<le> HEADER_SIZE"
  shows "st l (poke off bs m) i = st l m i" "msg l (poke off bs m) k = msg l m k" "written l (poke off bs m) = written l m"
proof -
  show s: "st l (poke off bs m) i = st l m i" for i using header_below_states[of l i] assms by (intro poke_other) simp
  have "HEADER_SIZE \<le> slot_offset l k" using header_below_states[of l 0] payload_before_slot[of l k]
    by (simp add: state_offset_def payload_offset_def)
  then show "msg l (poke off bs m) k = msg l m k" using assms unfolding msg_def by (intro peek_poke_other) simp
  show "written l (poke off bs m) = written l m" by (simp add: written_def s)
qed

lemma fill_views:
  assumes "off + length bs \<le> rl_slot_bytes l" and "i < rl_slots l"
  shows "j < rl_slots l \<Longrightarrow> st l (poke (slot_offset l i + off) bs m) j = st l m j"
    "k \<noteq> i \<Longrightarrow> msg l (poke (slot_offset l i + off) bs m) k = msg l m k" "written l (poke (slot_offset l i + off) bs m) = written l m"
proof -
  have s: "st l (poke (slot_offset l i + off) bs m) j = st l m j" if "j < rl_slots l" for j
    using states_below_payload[OF that] payload_before_slot[of l i] by (intro poke_other) simp
  then show "j < rl_slots l \<Longrightarrow> st l (poke (slot_offset l i + off) bs m) j = st l m j" .
  show "written l (poke (slot_offset l i + off) bs m) = written l m" using s by (auto simp: written_def)
  show "msg l (poke (slot_offset l i + off) bs m) k = msg l m k" if "k \<noteq> i"
  proof (cases "k < i")
    case True
    then show ?thesis using slots_apart[OF True, of l] unfolding msg_def by (intro peek_poke_other) simp
  next
    case False
    then have "i < k" using that by simp
    then show ?thesis using slots_apart[of i k l] assms(1) unfolding msg_def by (intro peek_poke_other) simp
  qed
qed

definition wpending_ok :: "ring_layout \<Rightarrow> memory \<Rightarrow> nat list \<Rightarrow> (nat \<times> 8 word) option \<Rightarrow> bool" where
  "wpending_ok l m claimed p \<longleftrightarrow> (\<forall>i to. p = Some (i, to) \<longrightarrow> i < rl_slots l \<and> i \<notin> set claimed \<and>
     (to = CLAIMED \<and> st l m i = FREE \<or> to \<in> {WRITTEN, FREE} \<and> st l m i = CLAIMED))"

definition rpending_ok :: "ring_layout \<Rightarrow> memory \<Rightarrow> ring_handle \<Rightarrow> nat \<Rightarrow> nat list \<Rightarrow> (nat \<times> 8 word) option \<Rightarrow> bool" where
  "rpending_ok l m h scan taken p \<longleftrightarrow> (\<forall>i to. p = Some (i, to) \<longrightarrow> i < rl_slots l \<and> i \<notin> set taken \<and>
     (to = TAKEN \<and> st l m i = WRITTEN \<and> i = take_at h scan \<or> to = FREE \<and> st l m i = TAKEN))"

text \<open>The slots a process's threads hold are distinct and in the state that process put them in.\<close>

definition holds :: "ring_layout \<Rightarrow> memory \<Rightarrow> 8 word \<Rightarrow> nat list \<Rightarrow> bool" where
  "holds l m v held \<longleftrightarrow> distinct held \<and> (\<forall>i \<in> set held. i < rl_slots l \<and> st l m i = v)"

definition in_flight :: "ring_layout \<Rightarrow> memory \<Rightarrow> nat list \<Rightarrow> bytes multiset" where
  "in_flight l m taken = image_mset (msg l m) (mset_set (written l m) + mset taken)"

definition wire_inv :: "ring_layout \<Rightarrow> wire \<Rightarrow> bool" where
  "wire_inv l s \<longleftrightarrow> layout_ok l \<and> hn_layout (wi_writer s) = l \<and> hn_layout (wi_reader s) = l \<and>
     hn_is_owner (wi_reader s) \<and> \<not> hn_is_owner (wi_writer s) \<and>
     wi_scan s < rl_slots l \<and> hn_next (wi_writer s) < rl_slots l \<and> hn_take_next (wi_reader s) < rl_slots l \<and> \<not> wi_error s \<and>
     holds l (wi_memory s) CLAIMED (wi_claimed s) \<and> holds l (wi_memory s) TAKEN (wi_taken s) \<and>
     wpending_ok l (wi_memory s) (wi_claimed s) (wi_wpending s) \<and>
     rpending_ok l (wi_memory s) (wi_reader s) (wi_scan s) (wi_taken s) (wi_rpending s) \<and>
     mset (wi_sent s) = mset (wi_got s) + in_flight l (wi_memory s) (wi_taken s)"

lemma written_finite [simp]: "finite (written l m)"
  by (simp add: written_def)

lemma written_store:
  assumes "i < rl_slots l"
  shows "written l (m(state_offset l i := v)) = (if v = WRITTEN then insert i (written l m) else written l m - {i})"
  using assms by (auto simp: written_def)

text \<open>Image over the slots of messages that a store leaves alone.\<close>

lemma image_store: "i < rl_slots l \<Longrightarrow> image_mset (msg l (m(state_offset l i := v))) M = image_mset (msg l m) M"
  by (intro image_mset_cong) (simp add: store_views(2))

lemma begin_swap_cases:
  assumes "i < rl_slots (hn_layout h)"
  shows "begin_swap h i expect to strict m =
    (if hn_detached h then (None, False)
     else if st (hn_layout h) m i = expect then (Some (i, to), False)
     else (None, strict))"
  using assms by (auto simp: begin_swap_def swap_check_def check_index_def)

lemma wire_invD:
  assumes "wire_inv l s"
  shows "layout_ok l" "hn_layout (wi_writer s) = l" "hn_layout (wi_reader s) = l" "\<not> wi_error s"
    "i \<in> set (wi_claimed s) \<Longrightarrow> i < rl_slots l" "i \<in> set (wi_claimed s) \<Longrightarrow> st l (wi_memory s) i = CLAIMED"
    "i \<in> set (wi_taken s) \<Longrightarrow> i < rl_slots l" "i \<in> set (wi_taken s) \<Longrightarrow> st l (wi_memory s) i = TAKEN"
    "distinct (wi_claimed s)" "distinct (wi_taken s)"
  using assms by (auto simp: wire_inv_def holds_def)

lemma pending_none [simp]: "wpending_ok l m c None" "rpending_ok l m h k t None"
  by (simp_all add: wpending_ok_def rpending_ok_def)

lemma pending_some [simp]:
  "wpending_ok l m claimed (Some (i, to)) \<longleftrightarrow> i < rl_slots l \<and> i \<notin> set claimed \<and>
     (to = CLAIMED \<and> st l m i = FREE \<or> to \<in> {WRITTEN, FREE} \<and> st l m i = CLAIMED)"
  "rpending_ok l m h scan taken (Some (i, to)) \<longleftrightarrow> i < rl_slots l \<and> i \<notin> set taken \<and>
     (to = TAKEN \<and> st l m i = WRITTEN \<and> i = take_at h scan \<or> to = FREE \<and> st l m i = TAKEN)"
  by (auto simp: wpending_ok_def rpending_ok_def)

lemma holds_remove: "holds l m v held \<Longrightarrow> holds l m v (remove1 i held)"
  by (auto simp: holds_def)

lemma in_flight_remove: "i \<in> set taken \<Longrightarrow> in_flight l m taken = add_mset (msg l m i) (in_flight l m (remove1 i taken))"
  unfolding in_flight_def by (metis add_mset_add_single image_mset_add_mset insert_DiffM mset_remove1 set_mset_mset union_mset_add_mset_right)

lemma claim_probe_inv:
  assumes i: "wire_inv l s"
  shows "wire_inv l (wire_step s ClaimProbe)"
proof (cases "wi_wpending s = None")
  case True
  let ?i = "hn_next (wi_writer s)"
  have n: "?i < rl_slots l" "(?i + 1) mod rl_slots l < rl_slots l" using i by (auto simp: wire_inv_def layout_ok_def)
  have "wi_claimed s = wi_claimed s" ..
  moreover have "?i \<notin> set (wi_claimed s)" if "st l (wi_memory s) ?i = FREE" using wire_invD(6)[OF i, of ?i] that by (auto simp: state_values)
  ultimately show ?thesis using i n True
    by (auto simp: claim_at_def writer_swap_def begin_swap_cases wire_inv_def)
qed (use i in simp)

lemma leave_claimed_inv:
  assumes i: "wire_inv l s" and p: "wi_wpending s = None" and c: "i \<in> set (wi_claimed s)" and to: "to \<in> {WRITTEN, FREE}"
  shows "wire_inv l (writer_swap i CLAIMED to True (s\<lparr>wi_claimed := remove1 i (wi_claimed s)\<rparr>))"
proof -
  have n: "i < rl_slots l" "st l (wi_memory s) i = CLAIMED" "distinct (wi_claimed s)" using wire_invD(5,6,9)[OF i] c by auto
  then show ?thesis using i p to holds_remove[of l "wi_memory s" CLAIMED "wi_claimed s" i]
    by (auto simp: writer_swap_def begin_swap_cases wire_inv_def)
qed

lemma release_inv:
  assumes i: "wire_inv l s" and p: "wi_rpending s = None" and c: "i \<in> set (wi_taken s)"
  shows "wire_inv l (reader_swap i TAKEN FREE True
    (s\<lparr>wi_taken := remove1 i (wi_taken s), wi_got := wi_got s @ [slot_bytes (wi_reader s) i (wi_memory s)]\<rparr>))"
proof -
  have n: "i < rl_slots l" "st l (wi_memory s) i = TAKEN" "distinct (wi_taken s)" using wire_invD(7,8,10)[OF i] c by auto
  have b: "slot_bytes (wi_reader s) i (wi_memory s) = msg l (wi_memory s) i" using wire_invD(3)[OF i] by (simp add: slot_bytes_def msg_def)
  show ?thesis using i p n holds_remove[of l "wi_memory s" TAKEN "wi_taken s" i] in_flight_remove[OF c, of l "wi_memory s"] unfolding b
    by (auto simp: reader_swap_def begin_swap_cases wire_inv_def)
qed

lemma take_probe_inv:
  assumes i: "wire_inv l s"
  shows "wire_inv l (wire_step s TakeProbe)"
proof (cases "wi_rpending s = None")
  case True
  let ?i = "take_at (wi_reader s) (wi_scan s)"
  have l: "hn_layout (wi_reader s) = l" "0 < rl_slots l" using i by (auto simp: wire_inv_def layout_ok_def)
  have n: "?i < rl_slots l" "(wi_scan s + 1) mod rl_slots l < rl_slots l" using l by (auto simp: take_at_def)
  have "?i \<notin> set (wi_taken s)" if "st l (wi_memory s) ?i = WRITTEN" using wire_invD(8)[OF i, of ?i] that by (auto simp: state_values)
  then show ?thesis using i n True
    by (auto simp: reader_swap_def begin_swap_cases wire_inv_def)
qed (use i in simp)

text \<open>A store by one process: what the other relies on stays.\<close>

lemma holds_store: "holds l m v held \<Longrightarrow> i \<notin> set held \<Longrightarrow> i < rl_slots l \<Longrightarrow> holds l (m(state_offset l i := w)) v held"
  by (auto simp: holds_def store_views(1))

lemma holds_add: "holds l m v held \<Longrightarrow> i \<notin> set held \<Longrightarrow> i < rl_slots l \<Longrightarrow> holds l (m(state_offset l i := v)) v (held @ [i])"
  by (auto simp: holds_def store_views(1))

lemma in_flight_store:
  assumes "i < rl_slots l"
  shows "st l m i \<noteq> WRITTEN \<Longrightarrow> in_flight l (m(state_offset l i := WRITTEN)) taken = add_mset (msg l m i) (in_flight l m taken)"
    "st l m i \<noteq> WRITTEN \<Longrightarrow> v \<noteq> WRITTEN \<Longrightarrow> in_flight l (m(state_offset l i := v)) taken = in_flight l m taken"
    "st l m i = WRITTEN \<Longrightarrow> v \<noteq> WRITTEN \<Longrightarrow> in_flight l (m(state_offset l i := v)) (taken @ [i]) = in_flight l m taken"
proof -
  have e: "in_flight l (m(state_offset l i := v)) t = image_mset (msg l m) (mset_set (if v = WRITTEN then insert i (written l m) else written l m - {i}) + mset t)" for v t
    unfolding in_flight_def by (simp only: image_store[OF assms] written_store[OF assms])
  have w: "i \<in> written l m \<longleftrightarrow> st l m i = WRITTEN" using assms by (simp add: written_def)
  show "st l m i \<noteq> WRITTEN \<Longrightarrow> in_flight l (m(state_offset l i := WRITTEN)) taken = add_mset (msg l m i) (in_flight l m taken)"
    unfolding e using w by (simp add: in_flight_def)
  show "st l m i \<noteq> WRITTEN \<Longrightarrow> v \<noteq> WRITTEN \<Longrightarrow> in_flight l (m(state_offset l i := v)) taken = in_flight l m taken"
    unfolding e using w by (simp add: in_flight_def)
  assume a: "st l m i = WRITTEN" "v \<noteq> WRITTEN"
  have "mset_set (written l m) = add_mset i (mset_set (written l m - {i}))" using w a(1) by (intro mset_set.remove) auto
  then show "in_flight l (m(state_offset l i := v)) (taken @ [i]) = in_flight l m taken" unfolding e using a(2) by (simp add: in_flight_def)
qed

lemma writer_store_inv:
  assumes i: "wire_inv l s"
  shows "wire_inv l (wire_step s WriterStore)"
proof (cases "wi_wpending s")
  case None
  then show ?thesis using i by simp
next
  case (Some p)
  obtain j to where p: "p = (j, to)" by (cases p)
  have j: "j < rl_slots l" "j \<notin> set (wi_claimed s)" and l: "hn_layout (wi_writer s) = l" and
    c: "to = CLAIMED \<and> st l (wi_memory s) j = FREE \<or> to \<in> {WRITTEN, FREE} \<and> st l (wi_memory s) j = CLAIMED" and
    rp: "rpending_ok l (wi_memory s) (wi_reader s) (wi_scan s) (wi_taken s) (wi_rpending s)"
    using i Some p by (auto simp: wire_inv_def)
  have st: "st l (wi_memory s) j \<noteq> TAKEN" "st l (wi_memory s) j \<noteq> WRITTEN" using c by (auto simp: state_values)
  have b: "slot_bytes (wi_writer s) j (wi_memory s) = msg l (wi_memory s) j" using l by (simp add: slot_bytes_def msg_def)
  have nt: "j \<notin> set (wi_taken s)" using wire_invD(8)[OF i] st(1) by auto
  have rp': "rpending_ok l ((wi_memory s)(state_offset l j := to)) (wi_reader s) (wi_scan s) (wi_taken s) (wi_rpending s)"
    using rp st by (auto simp: rpending_ok_def)
  note h = holds_store[OF _ nt j(1), of "wi_memory s" TAKEN to] holds_store[OF _ j(2,1), of "wi_memory s" CLAIMED to] holds_add[OF _ j(2,1), of "wi_memory s" CLAIMED]
  consider "to = WRITTEN" | "to = CLAIMED" "to \<noteq> WRITTEN" | "to = FREE" "to \<noteq> WRITTEN" "to \<noteq> CLAIMED" using c by (auto simp: state_values)
  then show ?thesis
  proof cases
    case 1
    moreover have "WRITTEN \<noteq> CLAIMED" by (simp add: state_values)
    ultimately show ?thesis using i Some p l rp' h(1,2) b in_flight_store(1)[of j l "wi_memory s", OF j(1) st(2)] by (simp add: wire_inv_def swap_store_def)
  next
    case 2
    then show ?thesis using i Some p l rp' h(1,3) in_flight_store(2)[of j l "wi_memory s", OF j(1) st(2)] by (simp add: wire_inv_def swap_store_def)
  next
    case 3
    then show ?thesis using i Some p l rp' h(1,2) in_flight_store(2)[of j l "wi_memory s", OF j(1) st(2)] by (simp add: wire_inv_def swap_store_def)
  qed
qed

lemma reader_store_inv:
  assumes i: "wire_inv l s"
  shows "wire_inv l (wire_step s ReaderStore)"
proof (cases "wi_rpending s")
  case None
  then show ?thesis using i by simp
next
  case (Some p)
  obtain j to where p: "p = (j, to)" by (cases p)
  have j: "j < rl_slots l" "j \<notin> set (wi_taken s)" and l: "hn_layout (wi_reader s) = l" "0 < rl_slots l" and
    c: "to = TAKEN \<and> st l (wi_memory s) j = WRITTEN \<or> to = FREE \<and> st l (wi_memory s) j = TAKEN" and
    wp: "wpending_ok l (wi_memory s) (wi_claimed s) (wi_wpending s)"
    using i Some p by (auto simp: wire_inv_def layout_ok_def)
  have st: "st l (wi_memory s) j \<noteq> CLAIMED" "st l (wi_memory s) j \<noteq> FREE" "to \<noteq> WRITTEN" "to \<noteq> CLAIMED" using c by (auto simp: state_values)
  have nc: "j \<notin> set (wi_claimed s)" using wire_invD(6)[OF i] st(1) by auto
  have wp': "wpending_ok l ((wi_memory s)(state_offset l j := to)) (wi_claimed s) (wi_wpending s)"
    using wp st by (auto simp: wpending_ok_def)
  note h = holds_store[OF _ nc j(1), of "wi_memory s" CLAIMED to] holds_store[OF _ j(2,1), of "wi_memory s" TAKEN to] holds_add[OF _ j(2,1), of "wi_memory s" TAKEN]
  consider "to = TAKEN" "st l (wi_memory s) j = WRITTEN" | "to = FREE" "st l (wi_memory s) j \<noteq> WRITTEN" "to \<noteq> TAKEN" using c by (auto simp: state_values)
  then show ?thesis
  proof cases
    case 1
    then show ?thesis using i Some p l wp' h(1,3) in_flight_store(3)[of j l "wi_memory s", OF j(1) 1(2) st(3)] by (simp add: wire_inv_def swap_store_def took_def)
  next
    case 2
    then show ?thesis using i Some p l wp' h(1,2) in_flight_store(2)[of j l "wi_memory s", OF j(1) 2(2) st(3)] by (simp add: wire_inv_def swap_store_def)
  qed
qed

text \<open>A write that leaves the states of all slots, and the messages of the slots in flight, as they are.\<close>

lemma memory_inv:
  assumes i: "wire_inv l s" and s: "\<And>j. j < rl_slots l \<Longrightarrow> st l m j = st l (wi_memory s) j"
    and f: "\<And>j. j < rl_slots l \<Longrightarrow> st l (wi_memory s) j = WRITTEN \<or> st l (wi_memory s) j = TAKEN \<Longrightarrow> msg l m j = msg l (wi_memory s) j"
  shows "wire_inv l (s\<lparr>wi_memory := m\<rparr>)"
proof -
  have "written l m = written l (wi_memory s)" using s by (auto simp: written_def)
  moreover have "image_mset (msg l m) (mset_set (written l (wi_memory s)) + mset (wi_taken s)) =
      image_mset (msg l (wi_memory s)) (mset_set (written l (wi_memory s)) + mset (wi_taken s))"
    using f wire_invD(7,8)[OF i] by (intro image_mset_cong) (auto simp: written_def)
  ultimately have "in_flight l m (wi_taken s) = in_flight l (wi_memory s) (wi_taken s)" by (simp add: in_flight_def)
  moreover have "holds l m v held" if "holds l (wi_memory s) v held" for v held using that s by (auto simp: holds_def)
  moreover have "wpending_ok l m c p" if "wpending_ok l (wi_memory s) c p" for c p using that s by (simp add: wpending_ok_def)
  moreover have "rpending_ok l m h k t p" if "rpending_ok l (wi_memory s) h k t p" for h k t p using that s by (simp add: rpending_ok_def)
  ultimately show ?thesis using i by (simp add: wire_inv_def)
qed

lemma header_poke_inv: "wire_inv l s \<Longrightarrow> off + length bs \<le> HEADER_SIZE \<Longrightarrow> wire_inv l (s\<lparr>wi_memory := poke off bs (wi_memory s)\<rparr>)"
  by (rule memory_inv) (simp_all add: header_views)

lemma fill_inv:
  assumes i: "wire_inv l s"
  shows "wire_inv l (wire_step s (Fill j off bs))"
proof (cases "j \<in> set (wi_claimed s)")
  case True
  have j: "j < rl_slots l" "st l (wi_memory s) j = CLAIMED" and l: "hn_layout (wi_writer s) = l" using wire_invD[OF i] True by auto
  show ?thesis
  proof (cases "fill_payload (wi_writer s) j off bs (wi_memory s)")
    case (Inr m)
    then have m: "m = poke (slot_offset l j + off) bs (wi_memory s)" "off + length bs \<le> rl_slot_bytes l"
      using l by (auto simp: fill_payload_def payload_def rbind_Inr_iff split: if_splits)
    have "wire_inv l (s\<lparr>wi_memory := m\<rparr>)"
    proof (rule memory_inv[OF i])
      fix k assume k: "k < rl_slots l"
      show "st l m k = st l (wi_memory s) k" unfolding m(1) by (rule fill_views(1)[OF m(2) j(1) k])
      assume "st l (wi_memory s) k = WRITTEN \<or> st l (wi_memory s) k = TAKEN"
      then have "k \<noteq> j" using j(2) by (auto simp: state_values)
      then show "msg l m k = msg l (wi_memory s) k" unfolding m(1) by (rule fill_views(2)[OF m(2) j(1)])
    qed
    then show ?thesis using True Inr by simp
  qed (use i True in simp)
qed (use i in simp)

lemma stamp_bytes_length [simp]: "length (stamp_bytes d e n) = 24"
  by (simp add: stamp_bytes_def)

lemma stamp_inv:
  assumes i: "wire_inv l s"
  shows "wire_inv l (wire_step s (Stamp d e n))"
  using i header_poke_inv[OF i, of STAMP_OFFSET "stamp_bytes d e n"]
  by (auto simp: stamp_def wire_inv_def STAMP_OFFSET_def HEADER_SIZE_def)

lemma write_header_inv: "wire_inv l s \<Longrightarrow> wire_inv l (s\<lparr>wi_memory := write_header h d e n c g (wi_memory s)\<rparr>)"
  by (auto simp: write_header_def intro: header_poke_inv)

lemma handle_flags_inv:
  "wire_inv l s \<Longrightarrow> wi_rpending s = None \<Longrightarrow> wire_inv l (s\<lparr>wi_reader := wi_reader s\<lparr>hn_closed_here := a, hn_detached := b\<rparr>\<rparr>)"
  "wire_inv l s \<Longrightarrow> wire_inv l (s\<lparr>wi_writer := wi_writer s\<lparr>hn_closed_here := a, hn_detached := b\<rparr>\<rparr>)"
  by (simp_all add: wire_inv_def)

lemma close_inv:
  assumes i: "wire_inv l s"
  shows "wire_inv l (wire_step s (OwnerClose n))" "wire_inv l (wire_step s WriterClose)"
proof -
  show "wire_inv l (wire_step s WriterClose)"
  proof (cases "wi_wpending s = None")
    case True
    have "\<not> hn_is_owner (wi_writer s)" using i by (simp add: wire_inv_def)
    then have "wire_step s WriterClose = s\<lparr>wi_writer := wi_writer s\<lparr>hn_closed_here := hn_closed_here (wi_writer s), hn_detached := True\<rparr>\<rparr>"
      using True by (simp add: close_handle_def Let_def)
    then show ?thesis using handle_flags_inv(2)[OF i] by presburger
  qed (use i in simp)
  show "wire_inv l (wire_step s (OwnerClose n))"
  proof (cases "wi_rpending s = None")
    case True
    obtain m where m: "wire_step s (OwnerClose n) =
        (s\<lparr>wi_memory := m\<rparr>)\<lparr>wi_reader := wi_reader (s\<lparr>wi_memory := m\<rparr>)\<lparr>hn_closed_here := hn_closed_here (wi_reader s) \<or> hn_is_owner (wi_reader s), hn_detached := True\<rparr>\<rparr>"
      "wire_inv l (s\<lparr>wi_memory := m\<rparr>)"
    proof (cases "hn_is_owner (wi_reader s) \<and> \<not> hn_closed_here (wi_reader s)")
      case c: True
      then show ?thesis using True that write_header_inv[OF i] by (simp add: close_handle_def Let_def)
    next
      case c: False
      have "s\<lparr>wi_memory := wi_memory s\<rparr> = s" by simp
      then show ?thesis using True that[of "wi_memory s"] c i by (auto simp: close_handle_def Let_def)
    qed
    show ?thesis unfolding m(1) by (rule handle_flags_inv(1)[OF m(2)]) (use True in simp)
  qed (use i in simp)
qed

lemma wire_step_inv: "wire_inv l s \<Longrightarrow> wire_inv l (wire_step s op)"
proof (cases op)
  case (Publish i)
  assume "wire_inv l s"
  then show ?thesis using leave_claimed_inv[of l s i WRITTEN] Publish by (cases "wi_wpending s") auto
next
  case (Abandon i)
  assume "wire_inv l s"
  then show ?thesis using leave_claimed_inv[of l s i FREE] Abandon by (cases "wi_wpending s") auto
next
  case (Release i)
  assume "wire_inv l s"
  then show ?thesis using release_inv[of l s i] Release by (cases "wi_rpending s") auto
qed (simp_all only: claim_probe_inv take_probe_inv writer_store_inv reader_store_inv fill_inv stamp_inv close_inv)

lemma wire_run_inv: "wire_inv l s \<Longrightarrow> wire_inv l (wire_run ops s)"
  unfolding wire_run_def by (induction ops arbitrary: s) (simp_all add: wire_step_inv)

lemma fresh_states: "fold (\<lambda>i m. m(state_offset l i := v)) is m a = (if a \<in> state_offset l ` set is then v else m a)"
  by (induction "is" arbitrary: m) auto

lemma poke_twice: "length bs \<le> length cs \<Longrightarrow> poke 0 bs (poke 0 cs m) = poke 0 (bs @ drop (length bs) cs) m"
  by (rule ext) (auto simp: poke_def nth_append)

lemma wire_start_facts:
  assumes "wire_start name l owner now = Inr s" and "layout_ok l"
  shows "wire_inv l s" "wi_takes s = []" "wi_sent s = []"
proof -
  define m where "m = poke 0 (pack_uint 4 MAGIC) (write_header (mk_handle l name owner True) 0 0 now False 0
    (fold (\<lambda>i m. m(state_offset l i := FREE)) [0..<rl_slots l] (\<lambda>_. 0)))"
  obtain wr opened where w: "open_ring name l [(name, \<lparr>sg_size = total_bytes l, sg_memory = m\<rparr>)] [] = Inr (wr, opened)"
    "s = \<lparr>wi_memory = m, wi_writer = wr, wi_reader = mk_handle l name owner True, wi_wpending = None, wi_rpending = None, wi_scan = 0,
            wi_claimed = [], wi_taken = [], wi_sent = [], wi_got = [], wi_takes = [], wi_error = False\<rparr>"
    using assms(1) by (auto simp: wire_start_def rbind_Inr_iff create_ring_def Let_def m_def split: if_splits)
  obtain ow where "wr = mk_handle l name ow False" using w(1) by (auto simp: open_ring_def Let_def split: if_splits)
  moreover have "st l m i = FREE" for i
    using header_below_states[of l i] by (simp add: m_def poke_def write_header_def mk_handle_def fresh_states FREE_def HEADER_SIZE_def)
  ultimately show "wire_inv l s" "wi_takes s = []" "wi_sent s = []"
    using assms(2) w(2) by (auto simp: wire_inv_def mk_handle_def layout_ok_def holds_def in_flight_def written_def state_values)
qed

section \<open>What the ring guarantees\<close>

lemma mk_layout_ok: "mk_layout a b = Inr l \<Longrightarrow> layout_ok l"
  by (auto simp: mk_layout_def layout_ok_def split: if_splits)


text \<open>How many slots the scan of \<^verbatim>\<open>take\<close> tries before it comes to \<^verbatim>\<open>j\<close>.\<close>

definition ahead :: "ring_layout \<Rightarrow> nat \<Rightarrow> wire \<Rightarrow> nat" where
  "ahead l j s = (j + rl_slots l - take_at (wi_reader s) (wi_scan s)) mod rl_slots l"

lemma ahead_eq: "j < n \<Longrightarrow> q < n \<Longrightarrow> (j + n - q) mod n = (if q \<le> j then j - q else j + n - q)" for n :: nat
  by (simp add: mod_if)

lemma ahead_next:
  fixes j n q :: nat
  assumes "j < n" and "q < n" and "q \<noteq> j"
  shows "(j + n - (q + 1) mod n) mod n + 1 = (j + n - q) mod n"
proof (cases "q + 1 = n")
  case True
  then have "j < q" using assms by arith
  then show ?thesis using assms True ahead_eq[of j n q] by simp
next
  case False
  then have "(q + 1) mod n = q + 1" using assms(2) by simp
  then show ?thesis using assms ahead_eq[of j n q] ahead_eq[of j n "q + 1"] False by auto
qed

lemma take_at_less: "0 < rl_slots (hn_layout h) \<Longrightarrow> take_at h k < rl_slots (hn_layout h)"
  by (simp add: take_at_def)

lemma take_probe_ahead:
  assumes i: "wire_inv l s" and j: "j < rl_slots l" and w: "st l (wi_memory s) j = WRITTEN"
  shows "ahead l j (wire_step s TakeProbe) \<le> ahead l j s \<and> wi_takes (wire_step s TakeProbe) = wi_takes s \<and> wi_memory (wire_step s TakeProbe) = wi_memory s"
proof -
  have l: "hn_layout (wi_reader s) = l" "0 < rl_slots l" using i by (auto simp: wire_inv_def layout_ok_def)
  let ?q = "take_at (wi_reader s) (wi_scan s)"
  have q: "?q < rl_slots l" using take_at_less[of "wi_reader s"] l by simp
  have nx: "(hn_take_next (wi_reader s) + (wi_scan s + 1) mod rl_slots l) mod rl_slots l = (?q + 1) mod rl_slots l"
    using l by (simp add: take_at_def mod_simps add.assoc)
  show ?thesis
  proof (cases "wi_rpending s = None \<and> \<not> hn_detached (wi_reader s) \<and> st l (wi_memory s) ?q \<noteq> WRITTEN")
    case True
    then have "?q \<noteq> j" using w by auto
    then show ?thesis using True q l nx ahead_next[OF j q] by (auto simp: reader_swap_def begin_swap_cases ahead_def take_at_def)
  next
    case False
    then show ?thesis using q l by (auto simp: reader_swap_def begin_swap_cases ahead_def)
  qed
qed

lemma reader_store_ahead:
  assumes i: "wire_inv l s" and j: "j < rl_slots l" and w: "st l (wi_memory s) j = WRITTEN"
  shows "\<exists>t. wi_takes (wire_step s ReaderStore) = wi_takes s @ t \<and>
    (j \<notin> set t \<longrightarrow> length t + ahead l j (wire_step s ReaderStore) \<le> ahead l j s \<and> st l (wi_memory (wire_step s ReaderStore)) j = WRITTEN)"
proof (cases "wi_rpending s")
  case None
  then show ?thesis using w by simp
next
  case (Some p)
  obtain k to where p: "p = (k, to)" by (cases p)
  have l: "hn_layout (wi_reader s) = l" "0 < rl_slots l" using i by (auto simp: wire_inv_def layout_ok_def)
  have c: "k < rl_slots l" "to = TAKEN \<and> st l (wi_memory s) k = WRITTEN \<and> k = take_at (wi_reader s) (wi_scan s) \<or> to = FREE \<and> st l (wi_memory s) k = TAKEN"
    using i Some p by (auto simp: wire_inv_def)
  show ?thesis
  proof (cases "to = TAKEN")
    case True
    then have k: "k = take_at (wi_reader s) (wi_scan s)" using c(2) by (auto simp: state_values)
    have "ahead l j (wire_step s ReaderStore) + 1 = ahead l j s" if "k \<noteq> j"
      using ahead_next[OF j c(1) that] Some p True l k by (simp add: ahead_def took_def take_at_def)
    then show ?thesis using Some p True w l by (auto simp: swap_store_def)
  next
    case False
    then have "k \<noteq> j" using c(2) w by (auto simp: state_values)
    then show ?thesis using Some p False w l by (auto simp: swap_store_def ahead_def)
  qed
qed

lemma other_ahead:
  assumes i: "wire_inv l s" and j: "j < rl_slots l" and w: "st l (wi_memory s) j = WRITTEN" and "op \<noteq> TakeProbe" "op \<noteq> ReaderStore"
  shows "wi_takes (wire_step s op) = wi_takes s \<and> ahead l j (wire_step s op) = ahead l j s \<and> st l (wi_memory (wire_step s op)) j = WRITTEN"
proof -
  have l: "hn_layout (wi_writer s) = l" "hn_layout (wi_reader s) = l" using i by (auto simp: wire_inv_def)
  have hdr: "st l (write_header h d e n c g m) k = st l m k" for h d e n c g m k by (simp add: write_header_def header_views)
  show ?thesis
  proof (cases op)
    case (Fill k off bs)
    have "st l m j = WRITTEN" if "fill_payload (wi_writer s) k off bs (wi_memory s) = Inr m" for m
    proof -
      have m: "m = poke (slot_offset l k + off) bs (wi_memory s)" "off + length bs \<le> rl_slot_bytes l" "k < rl_slots l"
        using that l by (auto simp: fill_payload_def payload_def check_index_def rbind_Inr_iff split: if_splits)
      show ?thesis unfolding m(1) using fill_views(1)[OF m(2,3) j] w by simp
    qed
    then show ?thesis using Fill w by (auto simp: ahead_def split: sum.splits)
  next
    case WriterStore
    have "k \<noteq> j" if "wi_wpending s = Some (k, to)" for k to
      using i that w by (auto simp: wire_inv_def state_values)
    then show ?thesis using WriterStore w l by (auto simp: ahead_def swap_store_def split: option.splits)
  next
    case (Stamp d e n)
    then show ?thesis using w header_views(1)[where off = STAMP_OFFSET and bs = "stamp_bytes d e n" and l = l] by (auto simp: stamp_def ahead_def STAMP_OFFSET_def HEADER_SIZE_def)
  next
    case (OwnerClose n)
    then show ?thesis using w hdr l by (auto simp: close_handle_def Let_def ahead_def take_at_def)
  next
    case WriterClose
    then show ?thesis using w hdr l by (auto simp: close_handle_def Let_def ahead_def take_at_def)
  qed (use w assms(4,5) in \<open>auto simp: ahead_def writer_swap_def reader_swap_def claim_at_def split: prod.splits\<close>)
qed

lemma step_ahead:
  assumes "wire_inv l s" and "j < rl_slots l" and "st l (wi_memory s) j = WRITTEN"
  shows "\<exists>t. wi_takes (wire_step s op) = wi_takes s @ t \<and>
    (j \<notin> set t \<longrightarrow> length t + ahead l j (wire_step s op) \<le> ahead l j s \<and> st l (wi_memory (wire_step s op)) j = WRITTEN)"
proof (cases "op = ReaderStore")
  case True
  show ?thesis unfolding True by (rule reader_store_ahead[OF assms])
next
  case False
  then show ?thesis using take_probe_ahead[OF assms] other_ahead[OF assms _ False] assms(3) by (cases "op = TakeProbe") auto
qed

lemma run_ahead:
  assumes "wire_inv l s" and "j < rl_slots l" and "st l (wi_memory s) j = WRITTEN"
  shows "\<exists>t. wi_takes (wire_run ops s) = wi_takes s @ t \<and> (j \<notin> set t \<longrightarrow> length t + ahead l j (wire_run ops s) \<le> ahead l j s)"
proof -
  have "\<exists>t. wi_takes (wire_run ops s) = wi_takes s @ t \<and>
      (j \<notin> set t \<longrightarrow> length t + ahead l j (wire_run ops s) \<le> ahead l j s \<and> st l (wi_memory (wire_run ops s)) j = WRITTEN)"
  proof (induction ops rule: rev_induct)
    case Nil
    then show ?case using assms(3) by (simp add: wire_run_def)
  next
    case (snoc op ops)
    let ?s = "wire_run ops s"
    have e: "wire_run (ops @ [op]) s = wire_step ?s op" by (simp add: wire_run_def)
    obtain t where t: "wi_takes ?s = wi_takes s @ t" "j \<notin> set t \<Longrightarrow> length t + ahead l j ?s \<le> ahead l j s \<and> st l (wi_memory ?s) j = WRITTEN"
      using snoc by blast
    show ?case
    proof (cases "j \<in> set t")
      case True
      have "\<exists>u. wi_takes (wire_step ?s op) = wi_takes ?s @ u" by (cases op) (auto simp: writer_swap_def reader_swap_def Let_def split: prod.splits sum.splits option.splits)
      then show ?thesis unfolding e using t(1) True by auto
    next
      case False
      obtain u where "wi_takes (wire_step ?s op) = wi_takes ?s @ u"
        "j \<notin> set u \<Longrightarrow> length u + ahead l j (wire_step ?s op) \<le> ahead l j ?s \<and> st l (wi_memory (wire_step ?s op)) j = WRITTEN"
        using step_ahead[OF wire_run_inv[OF assms(1)] assms(2), of ops op] t(2)[OF False] by blast
      then show ?thesis unfolding e using t False by (intro exI[of _ "t @ u"]) auto
    qed
  qed
  then show ?thesis by blast
qed


section \<open>The header a peer reads\<close>

lemma unpack_poke_magic:
  assumes "length bs = 4"
  shows "header_unpack (poke 0 bs m) = (header_unpack m)\<lparr>rh_magic := unpack_uint bs\<rparr>"
proof -
  have "peek (poke 0 bs m) 0 4 = bs" using assms by (intro peek_poke_same) simp
  moreover have "peek (poke 0 bs m) o' n = peek m o' n" if "4 \<le> o'" for o' n using that assms by (intro peek_poke_other) simp
  moreover have "poke 0 bs m 40 = m 40" using assms by (intro poke_other) simp
  ultimately show ?thesis by (simp add: header_unpack_def)
qed

lemma unpack_poke_stamp:
  assumes "e < 256 ^ 8" and "n < 256 ^ 8"
  shows "header_unpack (poke STAMP_OFFSET (stamp_bytes d e n) m) =
    (header_unpack m)\<lparr>rh_depth := nat (max 0 (min d 0xFFFFFFFF)), rh_ewma := e, rh_heartbeat := n\<rparr>"
proof -
  let ?m = "poke STAMP_OFFSET (stamp_bytes d e n) m"
  have a: "peek ?m o' k = take k (drop (o' - 16) (stamp_bytes d e n))" if "16 \<le> o'" "o' + k \<le> 40" for o' k
    using that by (intro nth_equalityI) (auto simp: peek_def poke_def STAMP_OFFSET_def)
  have d: "take 4 (drop 0 (stamp_bytes d e n)) = pack_uint 4 (nat (max 0 (min d 0xFFFFFFFF)))" "take 8 (drop 8 (stamp_bytes d e n)) = pack_uint 8 e"
    "take 8 (drop 16 (stamp_bytes d e n)) = pack_uint 8 n" by (simp_all add: stamp_bytes_def)
  have i: "peek ?m 16 4 = pack_uint 4 (nat (max 0 (min d 0xFFFFFFFF)))" "peek ?m 24 8 = pack_uint 8 e" "peek ?m 32 8 = pack_uint 8 n"
    unfolding d[symmetric] by (simp_all add: a)
  have o: "peek ?m o' k = peek m o' k" if "o' + k \<le> 16 \<or> 40 \<le> o'" for o' k
    using that by (intro peek_poke_other) (auto simp: STAMP_OFFSET_def)
  have c: "?m 40 = m 40" by (intro poke_other) (simp add: STAMP_OFFSET_def)
  have "nat (max 0 (min d 0xFFFFFFFF)) < 256 ^ 4" by simp
  then show ?thesis using assms c by (simp add: header_unpack_def i o unpack_pack)
qed

lemma unpack_other: "\<forall>a < HEADER_SIZE. m' a = m a \<Longrightarrow> header_unpack m' = header_unpack m"
proof -
  assume a: "\<forall>a < HEADER_SIZE. m' a = m a"
  have "peek m' o' n = peek m o' n" if "o' + n \<le> HEADER_SIZE" for o' n using that a by (auto simp: peek_def)
  then show ?thesis using a by (simp add: header_unpack_def HEADER_SIZE_def)
qed

text \<open>The specification: the header is a record the owner updates.\<close>

fun header_step :: "wire_op \<Rightarrow> ring_header \<Rightarrow> ring_header" where
  "header_step (Stamp d e n) h = (if rh_closed h then h else h\<lparr>rh_depth := nat (max 0 (min d 0xFFFFFFFF)), rh_ewma := e, rh_heartbeat := n\<rparr>)"
| "header_step (OwnerClose n) h = (if rh_closed h then h else h\<lparr>rh_heartbeat := n, rh_closed := True\<rparr>)"
| "header_step op h = h"

text \<open>A close that finds the owner's lock taken waits: it has no effect on the run.\<close>

fun header_run :: "wire_op list \<Rightarrow> wire \<Rightarrow> ring_header \<Rightarrow> ring_header" where
  "header_run [] s h = h"
| "header_run (op # ops) s h =
     header_run ops (wire_step s op) (if (\<exists>n. op = OwnerClose n) \<and> wi_rpending s \<noteq> None then h else header_step op h)"

fun clock_fits :: "wire_op \<Rightarrow> bool" where
  "clock_fits (Stamp d e n) \<longleftrightarrow> e < 2 ^ 64 \<and> n < 2 ^ 64"
| "clock_fits (OwnerClose n) \<longleftrightarrow> n < 2 ^ 64"
| "clock_fits op \<longleftrightarrow> True"

definition header_inv :: "ring_layout \<Rightarrow> bytes \<Rightarrow> ring_header \<Rightarrow> wire \<Rightarrow> bool" where
  "header_inv l owner h s \<longleftrightarrow> wire_inv l s \<and> header_unpack (wi_memory s) = h \<and> header_fits h \<and>
     rh_magic h = MAGIC \<and> rh_version h = RING_VERSION \<and> rh_slots h = rl_slots l \<and> rh_slot_bytes h = rl_slot_bytes l \<and> rh_owner h = owner \<and>
     hn_owner (wi_reader s) = owner \<and> length owner \<le> 63 \<and> (owner = [] \<or> last owner \<noteq> 0) \<and>
     (hn_detached (wi_reader s) \<longleftrightarrow> rh_closed h) \<and> (hn_closed_here (wi_reader s) \<longleftrightarrow> rh_closed h) \<and>
     wi_memory s CLOSED_OFFSET = (if rh_closed h then 1 else 0)"

lemma closed_byte: "poke 0 (header_pack h) m CLOSED_OFFSET = (if rh_closed h then 1 else 0)"
proof -
  have "header_pack h ! 40 = (if rh_closed h then 1 else 0)" by (simp add: header_pack_def nth_append)
  then show ?thesis by (simp add: poke_def CLOSED_OFFSET_def HEADER_SIZE_def)
qed

lemma header_inv_other:
  assumes h: "header_inv l owner h s" and op: "\<nexists>d e n. op = Stamp d e n" "\<nexists>n. op = OwnerClose n"
  shows "header_inv l owner h (wire_step s op)"
proof -
  have i: "wire_inv l s" and l: "hn_layout (wi_writer s) = l" "hn_layout (wi_reader s) = l" using h by (auto simp: header_inv_def wire_inv_def)
  have st: "\<not> state_offset l k < HEADER_SIZE" for k using header_below_states[of l k] by simp
  have m: "\<forall>a < HEADER_SIZE. wi_memory (wire_step s op) a = wi_memory s a"
  proof (cases op)
    case (Fill k off bs)
    have "\<forall>a < HEADER_SIZE. m a = wi_memory s a" if m: "fill_payload (wi_writer s) k off bs (wi_memory s) = Inr m" for m
    proof -
      have e: "m = poke (slot_offset l k + off) bs (wi_memory s)" using m l by (auto simp: fill_payload_def rbind_Inr_iff split: if_splits)
      have "HEADER_SIZE \<le> slot_offset l k + off" using payload_before_slot[of l k] header_below_states[of l 0]
        by (simp add: state_offset_def payload_offset_def)
      then show ?thesis unfolding e by (simp add: poke_other)
    qed
    then show ?thesis using Fill by (auto split: sum.splits)
  next
    case WriterClose
    then show ?thesis using i by (auto simp: close_handle_def Let_def wire_inv_def)
  qed (use op in \<open>auto simp: writer_swap_def reader_swap_def swap_store_def l st Let_def split: prod.splits option.splits\<close>)
  have r: "hn_owner (wi_reader (wire_step s op)) = hn_owner (wi_reader s) \<and> hn_detached (wi_reader (wire_step s op)) = hn_detached (wi_reader s) \<and>
      hn_closed_here (wi_reader (wire_step s op)) = hn_closed_here (wi_reader s)"
    using op by (cases op) (auto simp: writer_swap_def reader_swap_def took_def close_handle_def Let_def split: prod.splits option.splits sum.splits)
  have "wi_memory (wire_step s op) CLOSED_OFFSET = wi_memory s CLOSED_OFFSET" using m by (simp add: CLOSED_OFFSET_def HEADER_SIZE_def)
  then show ?thesis using h unpack_other[OF m] r wire_step_inv[OF i, of op] by (simp add: header_inv_def)
qed

lemma header_inv_stamp:
  assumes h: "header_inv l owner h s" and c: "clock_fits (Stamp d e n)"
  shows "header_inv l owner (header_step (Stamp d e n) h) (wire_step s (Stamp d e n))"
proof (cases "hn_detached (wi_reader s)")
  case True
  then show ?thesis using h by (auto simp: header_inv_def stamp_def)
next
  case False
  have i: "wire_inv l s" using h by (simp add: header_inv_def)
  have s: "wire_step s (Stamp d e n) = s\<lparr>wi_memory := poke STAMP_OFFSET (stamp_bytes d e n) (wi_memory s)\<rparr>"
    using False i by (simp add: stamp_def wire_inv_def)
  have "nat (max 0 (min d 0xFFFFFFFF)) < 256 ^ 4" by simp
  moreover have "poke STAMP_OFFSET (stamp_bytes d e n) (wi_memory s) CLOSED_OFFSET = wi_memory s CLOSED_OFFSET"
    by (intro poke_other) (simp add: STAMP_OFFSET_def CLOSED_OFFSET_def HEADER_SIZE_def)
  ultimately show ?thesis using h c False wire_step_inv[OF i, of "Stamp d e n"] unfolding s
    by (simp add: header_inv_def unpack_poke_stamp header_fits_def)
qed

lemma header_inv_close:
  assumes h: "header_inv l owner h s" and c: "n < 2 ^ 64" and p: "wi_rpending s = None"
  shows "header_inv l owner (header_step (OwnerClose n) h) (wire_step s (OwnerClose n))"
proof -
  have i: "wire_inv l s" and ow: "hn_is_owner (wi_reader s)" "hn_layout (wi_reader s) = l" using h by (auto simp: header_inv_def wire_inv_def)
  show ?thesis
  proof (cases "rh_closed h")
    case True
    then have "wire_step s (OwnerClose n) = s"
      using h p by (simp add: header_inv_def close_handle_def Let_def)
    then show ?thesis using h True by simp
  next
    case False
    let ?h = "h\<lparr>rh_heartbeat := n, rh_closed := True\<rparr>"
    have rd: "read_header (wi_reader s) (wi_memory s) = h" using h False by (simp add: header_inv_def read_header_def)
    have fits: "header_fits ?h" using h c by (simp add: header_inv_def header_fits_def)
    have "header_unpack (poke 0 (header_pack ?h) (wi_memory s)) = ?h"
      by (rule header_roundtrip[OF fits]) (use h in \<open>auto simp: header_inv_def\<close>)
    moreover have "write_header (wi_reader s) (rh_depth h) (rh_ewma h) n True MAGIC (wi_memory s) = poke 0 (header_pack ?h) (wi_memory s)"
      using h False ow by (cases h) (simp add: write_header_def header_inv_def)
    ultimately show ?thesis using h False p ow rd fits wire_step_inv[OF i, of "OwnerClose n"] closed_byte[of ?h "wi_memory s"]
      by (simp add: header_inv_def close_handle_def Let_def)
  qed
qed

definition first_header :: "ring_layout \<Rightarrow> bytes \<Rightarrow> nat \<Rightarrow> ring_header" where
  "first_header l owner now = \<lparr>rh_magic = MAGIC, rh_version = RING_VERSION, rh_slots = rl_slots l, rh_slot_bytes = rl_slot_bytes l,
     rh_depth = 0, rh_ewma = 0, rh_heartbeat = now, rh_closed = False, rh_owner = owner\<rparr>"

definition created_memory :: "string \<Rightarrow> ring_layout \<Rightarrow> bytes \<Rightarrow> nat \<Rightarrow> memory" where
  "created_memory name l owner now = poke 0 (pack_uint 4 MAGIC) (write_header (mk_handle l name owner True) 0 0 now False 0
     (fold (\<lambda>i m. m(state_offset l i := FREE)) [0..<rl_slots l] (\<lambda>_. 0)))"

lemma created_header:
  assumes "length owner \<le> 63" and "owner = [] \<or> last owner \<noteq> 0" and "rl_slots l < 2 ^ 32" and "rl_slot_bytes l < 2 ^ 32" and "now < 2 ^ 64"
  shows "header_unpack (created_memory name l owner now) = first_header l owner now" "header_fits (first_header l owner now)"
    "created_memory name l owner now CLOSED_OFFSET = 0"
proof -
  let ?h0 = "(first_header l owner now)\<lparr>rh_magic := 0\<rparr>"
  define m1 where "m1 = fold (\<lambda>i m. m(state_offset l i := FREE)) [0..<rl_slots l] (\<lambda>_. 0)"
  have c: "created_memory name l owner now = poke 0 (pack_uint 4 MAGIC) (poke 0 (header_pack ?h0) m1)"
    by (simp add: created_memory_def m1_def write_header_def mk_handle_def first_header_def)
  have f: "header_fits ?h0" using assms(3-5) by (simp add: header_fits_def first_header_def RING_VERSION_def)
  have "header_unpack (created_memory name l owner now) = ?h0\<lparr>rh_magic := unpack_uint (pack_uint 4 MAGIC)\<rparr>"
    using header_roundtrip[OF f] assms(1,2) unfolding c by (simp add: unpack_poke_magic first_header_def)
  also have "unpack_uint (pack_uint 4 MAGIC) = MAGIC" by (rule unpack_pack) (simp add: MAGIC_def)
  finally show "header_unpack (created_memory name l owner now) = first_header l owner now" by (simp add: first_header_def)
  show "header_fits (first_header l owner now)" using f by (simp add: header_fits_def first_header_def MAGIC_def)
  have "poke 0 (pack_uint 4 MAGIC) x CLOSED_OFFSET = x CLOSED_OFFSET" for x
    by (intro poke_other) (simp add: CLOSED_OFFSET_def HEADER_SIZE_def)
  then show "created_memory name l owner now CLOSED_OFFSET = 0" using closed_byte[of ?h0 m1] unfolding c by (simp add: first_header_def)
qed

text \<open>What the owner creates, the writer can open.\<close>

lemma create_then_open:
  assumes "length owner \<le> 63" and "owner = [] \<or> last owner \<noteq> 0" and "rl_slots l < 2 ^ 32" and "rl_slot_bytes l < 2 ^ 32" and "now < 2 ^ 64"
  shows "wire_start name l owner now = Inr \<lparr>wi_memory = created_memory name l owner now, wi_writer = mk_handle l name owner False,
    wi_reader = mk_handle l name owner True, wi_wpending = None, wi_rpending = None, wi_scan = 0, wi_claimed = [], wi_taken = [],
    wi_sent = [], wi_got = [], wi_takes = [], wi_error = False\<rparr>"
proof -
  note h = created_header(1)[OF assms]
  have "HEADER_SIZE \<le> total_bytes l" by (simp add: HEADER_SIZE_def total_bytes_def payload_offset_def states_offset_def PAGE_def)
  moreover have "MAGIC \<noteq> 0" by (simp add: MAGIC_def)
  ultimately have "open_ring name l [(name, \<lparr>sg_size = total_bytes l, sg_memory = created_memory name l owner now\<rparr>)] [] = Inr (mk_handle l name owner False, [name])"
    by (simp add: open_ring_def h first_header_def Let_def)
  then show ?thesis using assms(1,3,4) by (simp add: wire_start_def create_ring_def Let_def created_memory_def)
qed

lemma start_header:
  assumes "wire_start name l owner now = Inr s" and "layout_ok l" and "owner = [] \<or> last owner \<noteq> 0" and "now < 2 ^ 64"
  shows "header_inv l owner (first_header l owner now) s"
proof -
  have w: "length owner \<le> 63" "rl_slots l < 2 ^ 32" "rl_slot_bytes l < 2 ^ 32"
    using assms(1) by (auto simp: wire_start_def rbind_Inr_iff create_ring_def Let_def split: if_splits)
  have s: "wi_memory s = created_memory name l owner now" "wi_reader s = mk_handle l name owner True"
    using create_then_open[OF w(1) assms(3) w(2,3) assms(4), of name] assms(1) by auto
  then show ?thesis using created_header[OF w(1) assms(3) w(2,3) assms(4)] w(1) assms(3) wire_start_facts(1)[OF assms(1,2)]
    by (simp add: header_inv_def) (simp add: first_header_def mk_handle_def)
qed

lemma header_run_inv:
  "header_inv l owner h s \<Longrightarrow> list_all clock_fits ops \<Longrightarrow> header_inv l owner (header_run ops s h) (wire_run ops s)"
proof (induction ops arbitrary: s h)
  case Nil
  then show ?case by (simp add: wire_run_def)
next
  case (Cons op ops)
  have e: "wire_run (op # ops) s = wire_run ops (wire_step s op)" by (simp add: wire_run_def)
  have c: "clock_fits op" "list_all clock_fits ops" using Cons.prems(2) by simp_all
  consider (stamp) d e n where "op = Stamp d e n" | (shut) n where "op = OwnerClose n" | (other) "\<nexists>d e n. op = Stamp d e n" "\<nexists>n. op = OwnerClose n" by blast
  then have "header_inv l owner (if (\<exists>n. op = OwnerClose n) \<and> wi_rpending s \<noteq> None then h else header_step op h) (wire_step s op)"
  proof cases
    case stamp
    then show ?thesis using header_inv_stamp[OF Cons.prems(1), of d e n] c(1) by simp
  next
    case shut
    then show ?thesis using header_inv_close[OF Cons.prems(1), of n] c(1) Cons.prems(1) by (cases "wi_rpending s") auto
  next
    case other
    moreover have "header_step op h = h" using other by (cases op) auto
    ultimately show ?thesis using header_inv_other[OF Cons.prems(1) other] by simp
  qed
  from Cons.IH[OF this c(2)] show ?case unfolding e by simp
qed



section \<open>A concrete ring\<close>

definition ring_layout_2x2 :: ring_layout where
  "ring_layout_2x2 = \<lparr>rl_slots = 2, rl_slot_bytes = 2\<rparr>"

definition ring_ops :: "wire_op list" where
  "ring_ops = [ClaimProbe, WriterStore, Fill 0 0 [7, 9], ClaimProbe, WriterStore, Fill 1 0 [1, 2], Publish 1, WriterStore, Stamp 3 5 11, Publish 0, WriterStore]"

definition ring_start :: wire where
  "ring_start = \<lparr>wi_memory = created_memory ''model'' ring_layout_2x2 [65] 10, wi_writer = mk_handle ring_layout_2x2 ''model'' [65] False,
    wi_reader = mk_handle ring_layout_2x2 ''model'' [65] True, wi_wpending = None, wi_rpending = None, wi_scan = 0, wi_claimed = [], wi_taken = [],
    wi_sent = [], wi_got = [], wi_takes = [], wi_error = False\<rparr>"

lemma ring_started: "mk_layout 2 2 = Inr ring_layout_2x2" "wire_start ''model'' ring_layout_2x2 [65] 10 = Inr ring_start"
proof -
  show "mk_layout 2 2 = Inr ring_layout_2x2" by (simp add: mk_layout_def ring_layout_2x2_def)
  show "wire_start ''model'' ring_layout_2x2 [65] 10 = Inr ring_start"
    unfolding ring_start_def by (rule create_then_open) (simp_all add: ring_layout_2x2_def)
qed

lemma ring_start_free: "st ring_layout_2x2 (wi_memory ring_start) i = FREE"
  using header_below_states[of ring_layout_2x2 i]
  by (simp add: ring_start_def created_memory_def poke_def write_header_def mk_handle_def fresh_states FREE_def HEADER_SIZE_def)

lemmas ring_eval = ring_ops_def wire_run_def mk_handle_def claim_at_def writer_swap_def reader_swap_def begin_swap_def swap_check_def check_index_def
  swap_store_def fill_payload_def payload_def slot_bytes_def state_offset_def slot_offset_def payload_offset_def states_offset_def states_bytes_def
  padded_slot_bytes_def align_up_def PAGE_def take_at_def took_def stamp_def STAMP_OFFSET_def peek_def poke_def state_values ring_layout_2x2_def

lemma ring_after_ops:
  "wi_sent (wire_run ring_ops ring_start) = [[1, 2], [7, 9]] \<and> st ring_layout_2x2 (wi_memory (wire_run ring_ops ring_start)) 1 = WRITTEN"
proof -
  have m: "created_memory ''model'' ring_layout_2x2 [65] 10 4096 = 0" "created_memory ''model'' ring_layout_2x2 [65] 10 4097 = 0"
    using ring_start_free[of 0] ring_start_free[of 1] by (simp_all add: ring_start_def state_offset_def states_offset_def PAGE_def FREE_def)
  show ?thesis unfolding ring_start_def by (simp add: ring_eval m[unfolded ring_layout_2x2_def])
qed





end
