(* ===== verification/Server_Pool.thy ===== *)
theory Server_Pool
  imports Prelude
begin

text \<open>
  The lifecycle of the inference server: \<^verbatim>\<open>InferenceServer\<close> of \<^verbatim>\<open>engine/pool.py\<close>, whose \<^verbatim>\<open>start\<close>, \<^verbatim>\<open>stop\<close>, \<^verbatim>\<open>load_model\<close>,
  \<^verbatim>\<open>unload_model\<close>, \<^verbatim>\<open>index\<close>, \<^verbatim>\<open>infer\<close> and \<^verbatim>\<open>stats\<close> any number of threads call at the same time.  The machine is the fields of the server, the
  objects it has made (running models, open trace sinks, joined meshes) and, for each thread, the point of the program it has reached.  One step is what the code does
  without another thread seeing the middle of it: the body of a \<^verbatim>\<open>with self._lifecycle_lock\<close> or \<^verbatim>\<open>with self._lock\<close>, one unlocked read of a field, or one call
  to something outside (a scan of the repository, a model's start or stop).  The control lock is held across many steps, so it is a field of the machine.  A step takes
  from outside whether the call it makes succeeds, or whether a timed wait runs out, and what the repository holds.
\<close>

section \<open>The server's state\<close>

record artifact =
  ar_instances :: nat
  ar_steps :: "string list option"

type_synonym repository = "(string, artifact) dict"

text \<open>A model object: its identity, its name and, of an ensemble, the models its steps call.\<close>

record model_obj =
  mo_id :: nat
  mo_name :: string
  mo_steps :: "string list option"

record pool_settings =
  ps_strict :: bool
  ps_explicit :: bool
  ps_load_all :: bool
  ps_startup :: "string list"
  ps_tracing :: bool
  ps_shard :: "nat option"
  ps_shared :: "string list"

datatype sink = Null_Sink | Live_Sink nat

datatype pool_error = Server_State | Model_Control | Model_Not_Found | Load_Failed

datatype outcome = Returned | Found model_obj | Raised pool_error | Scraped sink nat | Scrape_Error | Listed "(string \<times> bool) list"

text \<open>The local variables of one \<^verbatim>\<open>start()\<close>: the run it claimed, the sink and the mesh it built, its ledger, and what is still to load.\<close>

record run =
  rn_gen :: nat
  rn_sink :: "sink option"
  rn_mine :: "model_obj list"
  rn_todo :: "string list"
  rn_mesh :: "nat option"
  rn_error :: pool_error

datatype caller = By_Start run | By_Load nat

datatype teardown = Stale_Check | Leave_Tier | Stop_Mesh nat | Drain | Stop_Drained "model_obj list" | Read_Sink | Read_Totals sink
  | Swap_Sink sink "(sink \<times> nat) option" | Close_Sink sink | Close_Memory | Set_Barrier | Let_Control

text \<open>Where a thread is.  \<open>Tear g cont s\<close> is a teardown of run \<open>g\<close>; \<open>cont\<close> is the start that called it on its way out, if one did.\<close>

datatype pc = Idle
  | Start_Check | Begin bool | Begin_Wait | Build_Sink nat | Scan run | Pick run | Load_Next run | Skip run | Join run | Finish run
  | Building caller string | Model_Starting caller model_obj nat | Model_Failed caller model_obj | Publish caller model_obj
  | Stop_Run "nat option" "run option" | Await "run option" | Stop_Lock nat "run option" | Tear nat "run option" teardown
  | Abandon_Lock run | Abandon_Pop run | Abandon_Stop run "model_obj list" | Abandon_Unlock run | Abandon_Mesh run | Abandon_Sink run
  | Load_Check string | Load_Lock string | Load_Recheck string | Load_Table string | Load_Run string | Load_Scan string nat
  | Unload_Check string | Unload_Lock string | Unload_Recheck string | Unload_Find string | Unload_Deps string model_obj
  | Unload_Pop string model_obj | Unload_Stop model_obj | Unlock outcome
  | Infer_Check string | Infer_Find string
  | Index_Check | Index_Try | Index_Scan | Index_Unlock bool | Index_List
  | Scrape_Read | Scrape_Closed sink | Scrape_Again sink | Scrape_Ask sink

record server =
  sv_started :: bool
  sv_starting :: bool
  sv_generation :: nat
  sv_torn_down :: bool
  sv_repository :: "repository option"
  sv_models :: "(string, model_obj) dict"
  sv_mesh :: "nat option"
  sv_traces :: sink
  sv_last :: "(sink \<times> nat) option"
  sv_control :: "nat option"

record machine = server +
  mc_pcs :: "nat \<Rightarrow> pc"
  mc_log :: "(nat \<times> outcome) list"
  mc_next :: nat
  mc_live :: "model_obj list"
  mc_sinks :: "nat list"
  mc_counts :: "nat \<Rightarrow> nat"
  mc_meshes :: "nat list"
  mc_memory_closes :: nat

definition init_server :: machine where
  "init_server = \<lparr>sv_started = False, sv_starting = False, sv_generation = 0, sv_torn_down = True, sv_repository = None, sv_models = [], sv_mesh = None,
     sv_traces = Null_Sink, sv_last = None, sv_control = None, mc_pcs = (\<lambda>t. Idle), mc_log = [], mc_next = 0, mc_live = [], mc_sinks = [],
     mc_counts = (\<lambda>s. 0), mc_meshes = [], mc_memory_closes = 0\<rparr>"

definition goto :: "nat \<Rightarrow> pc \<Rightarrow> machine \<Rightarrow> machine" where
  "goto t p m = m\<lparr>mc_pcs := (mc_pcs m)(t := p)\<rparr>"

definition leave :: "nat \<Rightarrow> outcome \<Rightarrow> machine \<Rightarrow> machine" where
  "leave t r m = m\<lparr>mc_pcs := (mc_pcs m)(t := Idle), mc_log := mc_log m @ [(t, r)]\<rparr>"

definition is_stopping :: "machine \<Rightarrow> bool" where
  "is_stopping m \<longleftrightarrow> \<not> (sv_started m \<or> sv_starting m)"

definition start_abort :: "nat \<Rightarrow> machine \<Rightarrow> string option" where
  "start_abort g m = (if sv_generation m \<noteq> g then Some ''a later run has claimed this server''
     else if is_stopping m then Some ''the server is stopping'' else None)"

definition stop_abort :: "machine \<Rightarrow> string option" where
  "stop_abort m = (if is_stopping m then Some ''the server is stopping'' else None)"

section \<open>Start\<close>

definition begin_start :: "nat \<Rightarrow> bool \<Rightarrow> machine \<Rightarrow> machine" where
  "begin_start t waited m =
    (if sv_started m then leave t Returned m
     else if sv_starting m then leave t (Raised Server_State) m
     else if sv_torn_down m then
       goto t (Build_Sink (Suc (sv_generation m))) (m\<lparr>sv_generation := Suc (sv_generation m), sv_starting := True, sv_torn_down := False\<rparr>)
     else if waited then leave t (Raised Server_State) m
     else goto t Begin_Wait m)"

definition begin_wait :: "nat \<Rightarrow> bool \<Rightarrow> machine \<Rightarrow> machine" where
  "begin_wait t expired m = (if sv_torn_down m \<or> expired then goto t (Begin True) m else m)"

definition start_failed :: "nat \<Rightarrow> run \<Rightarrow> machine \<Rightarrow> machine" where
  "start_failed t r m = goto t (Stop_Run (Some (rn_gen r)) (Some (r\<lparr>rn_error := Load_Failed\<rparr>))) m"

definition new_run :: "nat \<Rightarrow> sink option \<Rightarrow> run" where
  "new_run g s = \<lparr>rn_gen = g, rn_sink = s, rn_mine = [], rn_todo = [], rn_mesh = None, rn_error = Server_State\<rparr>"

definition build_sink :: "pool_settings \<Rightarrow> nat \<Rightarrow> bool \<Rightarrow> nat \<Rightarrow> machine \<Rightarrow> machine" where
  "build_sink cfg t ok g m =
    (if \<not> ok then start_failed t (new_run g None) m
     else if ps_tracing cfg then
       goto t (Scan (new_run g (Some (Live_Sink (mc_next m))))) (m\<lparr>mc_next := Suc (mc_next m), mc_sinks := mc_next m # mc_sinks m\<rparr>)
     else goto t (Scan (new_run g (Some Null_Sink))) m)"

definition repo_index :: "(string \<times> artifact) list \<Rightarrow> repository" where
  "repo_index entries = fold (\<lambda>(n, a) d. AList.update n a d) entries []"

definition startup_names :: "pool_settings \<Rightarrow> repository \<Rightarrow> string list" where
  "startup_names cfg repo =
    (if ps_explicit cfg then ps_startup cfg else if ps_load_all cfg then sort (map fst repo) else ps_startup cfg)"

definition scan_start :: "nat \<Rightarrow> bool \<Rightarrow> (string \<times> artifact) list \<Rightarrow> run \<Rightarrow> machine \<Rightarrow> machine" where
  "scan_start t ok repo r m = (if ok then goto t (Pick r) (m\<lparr>sv_repository := Some (repo_index repo)\<rparr>) else start_failed t r m)"

definition is_ensemble :: "repository \<Rightarrow> string \<Rightarrow> bool" where
  "is_ensemble repo n = (case map_of repo n of Some a \<Rightarrow> ar_steps a \<noteq> None | None \<Rightarrow> False)"

definition pick_names :: "pool_settings \<Rightarrow> nat \<Rightarrow> run \<Rightarrow> machine \<Rightarrow> machine" where
  "pick_names cfg t r m = (case sv_repository m of None \<Rightarrow> start_failed t r m
    | Some repo \<Rightarrow>
        let names = startup_names cfg repo in
        if list_all (\<lambda>n. map_of repo n \<noteq> None) names
        then goto t (Load_Next (r\<lparr>rn_todo := filter (\<lambda>n. \<not> is_ensemble repo n) names @ filter (is_ensemble repo) names\<rparr>)) m
        else start_failed t r m)"

definition load_next :: "nat \<Rightarrow> run \<Rightarrow> machine \<Rightarrow> machine" where
  "load_next t r m = (case rn_todo r of [] \<Rightarrow> goto t (Join r) m | n # ns \<Rightarrow> goto t (Building (By_Start (r\<lparr>rn_todo := ns\<rparr>)) n) m)"

text \<open>An exception leaves \<^verbatim>\<open>_build_and_start\<close>: into \<^verbatim>\<open>_load\<close>, which may swallow it, or out of \<^verbatim>\<open>load_model\<close>.\<close>

definition load_raised :: "pool_settings \<Rightarrow> nat \<Rightarrow> caller \<Rightarrow> machine \<Rightarrow> machine" where
  "load_raised cfg t c m = (case c of
      By_Start r \<Rightarrow> if ps_strict cfg then start_failed t r m else goto t (Skip r) m
    | By_Load g \<Rightarrow> goto t (Unlock (Raised Load_Failed)) m)"

definition skip_or_raise :: "nat \<Rightarrow> run \<Rightarrow> machine \<Rightarrow> machine" where
  "skip_or_raise t r m = (if start_abort (rn_gen r) m \<noteq> None then start_failed t r m else goto t (Load_Next r) m)"

section \<open>Building, starting and publishing one model\<close>

definition caller_gen :: "caller \<Rightarrow> nat" where
  "caller_gen c = (case c of By_Start r \<Rightarrow> rn_gen r | By_Load g \<Rightarrow> g)"

definition caller_abort :: "caller \<Rightarrow> machine \<Rightarrow> string option" where
  "caller_abort c m = (case c of By_Start r \<Rightarrow> start_abort (rn_gen r) m | By_Load g \<Rightarrow> stop_abort m)"

definition build_model :: "pool_settings \<Rightarrow> nat \<Rightarrow> bool \<Rightarrow> caller \<Rightarrow> string \<Rightarrow> machine \<Rightarrow> machine" where
  "build_model cfg t ok c n m = (case Option.bind (sv_repository m) (\<lambda>repo. map_of repo n) of
      None \<Rightarrow> load_raised cfg t c m
    | Some a \<Rightarrow>
        if ok then
          let x = \<lparr>mo_id = mc_next m, mo_name = n, mo_steps = ar_steps a\<rparr>
          in goto t (Model_Starting c x (if ar_steps a = None then 2 * ar_instances a else 0)) (m\<lparr>mc_next := Suc (mc_next m), mc_live := x # mc_live m\<rparr>)
        else load_raised cfg t c m)"

text \<open>
  A plain model polls the abort before it starts each instance and before it waits for each; an ensemble looks its steps up in the table.
\<close>

definition start_model :: "nat \<Rightarrow> bool \<Rightarrow> caller \<Rightarrow> model_obj \<Rightarrow> nat \<Rightarrow> machine \<Rightarrow> machine" where
  "start_model t ok c x k m = (case mo_steps x of
      Some steps \<Rightarrow> if ok \<and> list_all (\<lambda>n. map_of (sv_models m) n \<noteq> None) steps then goto t (Publish c x) m else goto t (Model_Failed c x) m
    | None \<Rightarrow>
        if \<not> ok then goto t (Model_Failed c x) m
        else case k of 0 \<Rightarrow> goto t (Publish c x) m
          | Suc k' \<Rightarrow> if caller_abort c m \<noteq> None then goto t (Model_Failed c x) m else goto t (Model_Starting c x k') m)"

definition stop_object :: "model_obj \<Rightarrow> machine \<Rightarrow> machine" where
  "stop_object x m = m\<lparr>mc_live := filter (\<lambda>y. y \<noteq> x) (mc_live m)\<rparr>"

definition publish_model :: "nat \<Rightarrow> caller \<Rightarrow> model_obj \<Rightarrow> machine \<Rightarrow> machine" where
  "publish_model t c x m =
    (let m' = (if sv_generation m = caller_gen c then m\<lparr>sv_models := AList.update (mo_name x) x (sv_models m)\<rparr> else m)
     in case c of By_Start r \<Rightarrow> goto t (Load_Next (r\<lparr>rn_mine := rn_mine r @ [x]\<rparr>)) m' | By_Load g \<Rightarrow> goto t (Unlock (Found x)) m')"

definition join_tier :: "pool_settings \<Rightarrow> nat \<Rightarrow> bool \<Rightarrow> run \<Rightarrow> machine \<Rightarrow> machine" where
  "join_tier cfg t ok r m =
    (if ps_shard cfg = None then goto t (Finish r) m
     else let shared = List.map_filter (\<lambda>n. map_of (sv_models m) n) (ps_shared cfg) in
       if \<not> list_all (\<lambda>x. mo_steps x = None) shared then start_failed t r m
       else if shared = [] then goto t (Finish r) m
       else if ok then goto t (Finish (r\<lparr>rn_mesh := Some (mc_next m)\<rparr>)) (m\<lparr>mc_next := Suc (mc_next m), mc_meshes := mc_next m # mc_meshes m\<rparr>)
       else start_failed t r m)"

definition finish_start :: "nat \<Rightarrow> run \<Rightarrow> machine \<Rightarrow> machine" where
  "finish_start t r m =
    (if sv_generation m \<noteq> rn_gen r \<or> \<not> sv_starting m then goto t (Abandon_Lock r) m
     else leave t Returned
       (case rn_sink r of
          None \<Rightarrow> m\<lparr>sv_started := True, sv_starting := False, sv_mesh := rn_mesh r\<rparr>
        | Some s \<Rightarrow> m\<lparr>sv_started := True, sv_starting := False, sv_mesh := rn_mesh r, sv_traces := s, sv_last := None\<rparr>))"

section \<open>Stop\<close>

text \<open>What follows a \<^verbatim>\<open>_stop_run\<close>: the public \<^verbatim>\<open>stop\<close> returns, a failing \<^verbatim>\<open>start\<close> goes on to \<^verbatim>\<open>_abandon_start\<close>.\<close>

definition after_stop :: "nat \<Rightarrow> run option \<Rightarrow> machine \<Rightarrow> machine" where
  "after_stop t cont m = (case cont of None \<Rightarrow> leave t Returned m | Some r \<Rightarrow> goto t (Abandon_Lock r) m)"

definition stop_run :: "nat \<Rightarrow> nat option \<Rightarrow> run option \<Rightarrow> machine \<Rightarrow> machine" where
  "stop_run t g cont m =
    (if g \<noteq> None \<and> g \<noteq> Some (sv_generation m) then after_stop t cont m
     else if is_stopping m then goto t (Await cont) m
     else goto t (Stop_Lock (sv_generation m) cont) (m\<lparr>sv_started := False, sv_starting := False\<rparr>))"

definition await_teardown :: "nat \<Rightarrow> bool \<Rightarrow> run option \<Rightarrow> machine \<Rightarrow> machine" where
  "await_teardown t expired cont m = (if sv_torn_down m \<or> expired then after_stop t cont m else m)"

text \<open>Taking the control lock: the thread waits while another holds it.\<close>

definition take_control :: "nat \<Rightarrow> pc \<Rightarrow> machine \<Rightarrow> machine" where
  "take_control t p m = (if sv_control m = None then goto t p (m\<lparr>sv_control := Some t\<rparr>) else m)"

definition let_control :: "machine \<Rightarrow> machine" where
  "let_control m = m\<lparr>sv_control := None\<rparr>"

definition sink_totals :: "sink \<Rightarrow> machine \<Rightarrow> sink \<times> nat" where
  "sink_totals s m = (s, case s of Null_Sink \<Rightarrow> 0 | Live_Sink i \<Rightarrow> mc_counts m i)"

definition close_sink :: "sink \<Rightarrow> machine \<Rightarrow> machine" where
  "close_sink s m = (case s of Null_Sink \<Rightarrow> m | Live_Sink i \<Rightarrow> m\<lparr>mc_sinks := filter (\<lambda>j. j \<noteq> i) (mc_sinks m)\<rparr>)"

definition stop_mesh :: "nat \<Rightarrow> machine \<Rightarrow> machine" where
  "stop_mesh i m = m\<lparr>mc_meshes := filter (\<lambda>j. j \<noteq> i) (mc_meshes m)\<rparr>"

text \<open>\<^verbatim>\<open>_release\<close>, one step after another, and the \<^verbatim>\<open>finally\<close> of \<^verbatim>\<open>_teardown\<close>.\<close>

definition tear_step :: "nat \<Rightarrow> bool \<Rightarrow> nat \<Rightarrow> run option \<Rightarrow> teardown \<Rightarrow> machine \<Rightarrow> machine" where
  "tear_step t ok g cont st m = (case st of
      Stale_Check \<Rightarrow> goto t (Tear g cont (if sv_generation m \<noteq> g then Set_Barrier else Leave_Tier)) m
    | Leave_Tier \<Rightarrow> (case sv_mesh m of None \<Rightarrow> goto t (Tear g cont Drain) m
        | Some i \<Rightarrow> goto t (Tear g cont (Stop_Mesh i)) (m\<lparr>sv_mesh := None\<rparr>))
    | Stop_Mesh i \<Rightarrow> goto t (Tear g cont Drain) (stop_mesh i m)
    | Drain \<Rightarrow> goto t (Tear g cont (Stop_Drained (rev (map snd (sv_models m))))) (m\<lparr>sv_models := []\<rparr>)
    | Stop_Drained [] \<Rightarrow> goto t (Tear g cont Read_Sink) m
    | Stop_Drained (x # xs) \<Rightarrow> goto t (Tear g cont (Stop_Drained xs)) (stop_object x m)
    | Read_Sink \<Rightarrow> goto t (Tear g cont (if sv_generation m = g then Read_Totals (sv_traces m) else Set_Barrier)) m
    | Read_Totals s \<Rightarrow> goto t (Tear g cont (Swap_Sink s (if ok then Some (sink_totals s m) else None))) m
    | Swap_Sink s totals \<Rightarrow>
        if sv_generation m = g
        then goto t (Tear g cont (Close_Sink s))
          (m\<lparr>sv_traces := Null_Sink, sv_last := if totals \<noteq> None \<and> s \<noteq> Null_Sink then totals else sv_last m\<rparr>)
        else goto t (Tear g cont Set_Barrier) m
    | Close_Sink s \<Rightarrow> goto t (Tear g cont Close_Memory) (close_sink s m)
    | Close_Memory \<Rightarrow> goto t (Tear g cont Set_Barrier) (m\<lparr>mc_memory_closes := Suc (mc_memory_closes m)\<rparr>)
    | Set_Barrier \<Rightarrow> goto t (Tear g cont Let_Control) (m\<lparr>sv_torn_down := True\<rparr>)
    | Let_Control \<Rightarrow> after_stop t cont (let_control m))"

section \<open>A start that lost its claim\<close>

text \<open>Each model of the ledger leaves the table if the entry under its name is that very object.\<close>

definition release_entry :: "model_obj \<Rightarrow> (string, model_obj) dict \<Rightarrow> (string, model_obj) dict" where
  "release_entry x d = (if map_of d (mo_name x) = Some x then AList.delete (mo_name x) d else d)"

definition abandon_pop :: "nat \<Rightarrow> run \<Rightarrow> machine \<Rightarrow> machine" where
  "abandon_pop t r m = goto t (Abandon_Stop r (rev (rn_mine r))) (m\<lparr>sv_models := fold release_entry (rn_mine r) (sv_models m)\<rparr>)"

definition abandon_stop :: "nat \<Rightarrow> run \<Rightarrow> model_obj list \<Rightarrow> machine \<Rightarrow> machine" where
  "abandon_stop t r xs m = (case xs of [] \<Rightarrow> goto t (Abandon_Unlock r) m | x # xs' \<Rightarrow> goto t (Abandon_Stop r xs') (stop_object x m))"

definition abandon_mesh :: "nat \<Rightarrow> run \<Rightarrow> machine \<Rightarrow> machine" where
  "abandon_mesh t r m = goto t (Abandon_Sink r) (case rn_mesh r of None \<Rightarrow> m | Some i \<Rightarrow> stop_mesh i m)"

definition abandon_sink :: "nat \<Rightarrow> run \<Rightarrow> machine \<Rightarrow> machine" where
  "abandon_sink t r m = leave t (Raised (rn_error r)) (case rn_sink r of None \<Rightarrow> m | Some s \<Rightarrow> close_sink s m)"

section \<open>Explicit model control\<close>

definition require_control :: "pool_settings \<Rightarrow> nat \<Rightarrow> pc \<Rightarrow> machine \<Rightarrow> machine" where
  "require_control cfg t p m =
    (if \<not> sv_started m then leave t (Raised Server_State) m
     else if \<not> ps_explicit cfg then leave t (Raised Model_Control) m else goto t p m)"

definition load_recheck :: "nat \<Rightarrow> string \<Rightarrow> machine \<Rightarrow> machine" where
  "load_recheck t n m = (if sv_started m then goto t (Load_Table n) m else goto t (Unlock (Raised Server_State)) m)"

definition load_table :: "nat \<Rightarrow> string \<Rightarrow> machine \<Rightarrow> machine" where
  "load_table t n m = (if map_of (sv_models m) n \<noteq> None then goto t (Unlock (Raised Model_Control)) m else goto t (Load_Run n) m)"

definition load_scan :: "nat \<Rightarrow> bool \<Rightarrow> (string \<times> artifact) list \<Rightarrow> string \<Rightarrow> nat \<Rightarrow> machine \<Rightarrow> machine" where
  "load_scan t ok repo n g m =
    (if ok then goto t (Building (By_Load g) n) (m\<lparr>sv_repository := Some (repo_index repo)\<rparr>) else goto t (Unlock (Raised Load_Failed)) m)"

definition find_model :: "string \<Rightarrow> machine \<Rightarrow> pool_error + model_obj" where
  "find_model n m = (case map_of (sv_models m) n of Some x \<Rightarrow> Inr x | None \<Rightarrow> Inl Model_Not_Found)"

definition unload_recheck :: "nat \<Rightarrow> string \<Rightarrow> machine \<Rightarrow> machine" where
  "unload_recheck t n m = (if sv_started m then goto t (Unload_Find n) m else goto t (Unlock (Raised Server_State)) m)"

definition unload_find :: "nat \<Rightarrow> string \<Rightarrow> machine \<Rightarrow> machine" where
  "unload_find t n m = (case find_model n m of Inl e \<Rightarrow> goto t (Unlock (Raised e)) m | Inr x \<Rightarrow> goto t (Unload_Deps n x) m)"

definition depends_on :: "string \<Rightarrow> model_obj \<Rightarrow> bool" where
  "depends_on n x = (case mo_steps x of None \<Rightarrow> False | Some steps \<Rightarrow> n \<in> set steps)"

definition ensembles_depending_on :: "string \<Rightarrow> machine \<Rightarrow> string list" where
  "ensembles_depending_on n m = sort (map mo_name (filter (depends_on n) (map snd (sv_models m))))"

definition unload_deps :: "nat \<Rightarrow> string \<Rightarrow> model_obj \<Rightarrow> machine \<Rightarrow> machine" where
  "unload_deps t n x m = (if ensembles_depending_on n m \<noteq> [] then goto t (Unlock (Raised Model_Control)) m else goto t (Unload_Pop n x) m)"

definition unload_pop :: "nat \<Rightarrow> string \<Rightarrow> model_obj \<Rightarrow> machine \<Rightarrow> machine" where
  "unload_pop t n x m = goto t (Unload_Stop x) (m\<lparr>sv_models := AList.delete n (sv_models m)\<rparr>)"

section \<open>Inference, the index and the scrape\<close>

definition infer_find :: "nat \<Rightarrow> string \<Rightarrow> machine \<Rightarrow> machine" where
  "infer_find t n m = (case find_model n m of Inl e \<Rightarrow> leave t (Raised e) m | Inr x \<Rightarrow> leave t (Found x) m)"

definition index_check :: "pool_settings \<Rightarrow> nat \<Rightarrow> machine \<Rightarrow> machine" where
  "index_check cfg t m =
    (if \<not> sv_started m then leave t (Raised Server_State) m else goto t (if ps_explicit cfg then Index_Try else Index_List) m)"

definition index_scan :: "nat \<Rightarrow> bool \<Rightarrow> (string \<times> artifact) list \<Rightarrow> machine \<Rightarrow> machine" where
  "index_scan t ok repo m = goto t (Index_Unlock ok) (if ok then m\<lparr>sv_repository := Some (repo_index repo)\<rparr> else m)"

definition index_list :: "nat \<Rightarrow> machine \<Rightarrow> machine" where
  "index_list t m = (case sv_repository m of None \<Rightarrow> leave t (Raised Server_State) m
    | Some repo \<Rightarrow> leave t (Listed (sort_key fst (map (\<lambda>e. (fst e, map_of (sv_models m) (fst e) \<noteq> None)) repo))) m)"

definition sink_closed :: "sink \<Rightarrow> machine \<Rightarrow> bool" where
  "sink_closed s m = (case s of Null_Sink \<Rightarrow> False | Live_Sink i \<Rightarrow> i \<notin> set (mc_sinks m))"

definition scrape_read :: "nat \<Rightarrow> machine \<Rightarrow> machine" where
  "scrape_read t m = (case sv_last m of Some (s, k) \<Rightarrow> leave t (Scraped s k) m | None \<Rightarrow> goto t (Scrape_Closed (sv_traces m)) m)"

definition scrape_closed :: "nat \<Rightarrow> sink \<Rightarrow> machine \<Rightarrow> machine" where
  "scrape_closed t s m = goto t (if sink_closed s m then Scrape_Again s else Scrape_Ask s) m"

definition scrape_again :: "nat \<Rightarrow> sink \<Rightarrow> machine \<Rightarrow> machine" where
  "scrape_again t s m = (case sv_last m of Some (s', k) \<Rightarrow> leave t (Scraped s' k) m | None \<Rightarrow> goto t (Scrape_Ask s) m)"

definition scrape_ask :: "nat \<Rightarrow> bool \<Rightarrow> sink \<Rightarrow> machine \<Rightarrow> machine" where
  "scrape_ask t ok s m = leave t (if ok then (case sink_totals s m of (s', k) \<Rightarrow> Scraped s' k) else Scrape_Error) m"

section \<open>The machine\<close>

definition pool_step :: "pool_settings \<Rightarrow> nat \<Rightarrow> bool \<Rightarrow> (string \<times> artifact) list \<Rightarrow> machine \<Rightarrow> machine" where
  "pool_step cfg t ok repo m = (case mc_pcs m t of
      Idle \<Rightarrow> m
    | Start_Check \<Rightarrow> if sv_started m then leave t Returned m else goto t (Begin False) m
    | Begin waited \<Rightarrow> begin_start t waited m
    | Begin_Wait \<Rightarrow> begin_wait t ok m
    | Build_Sink g \<Rightarrow> build_sink cfg t ok g m
    | Scan r \<Rightarrow> scan_start t ok repo r m
    | Pick r \<Rightarrow> pick_names cfg t r m
    | Load_Next r \<Rightarrow> load_next t r m
    | Skip r \<Rightarrow> skip_or_raise t r m
    | Join r \<Rightarrow> join_tier cfg t ok r m
    | Finish r \<Rightarrow> finish_start t r m
    | Building c n \<Rightarrow> build_model cfg t ok c n m
    | Model_Starting c x k \<Rightarrow> start_model t ok c x k m
    | Model_Failed c x \<Rightarrow> load_raised cfg t c (stop_object x m)
    | Publish c x \<Rightarrow> publish_model t c x m
    | Stop_Run g cont \<Rightarrow> stop_run t g cont m
    | Await cont \<Rightarrow> await_teardown t ok cont m
    | Stop_Lock g cont \<Rightarrow> take_control t (Tear g cont Stale_Check) m
    | Tear g cont st \<Rightarrow> tear_step t ok g cont st m
    | Abandon_Lock r \<Rightarrow> take_control t (Abandon_Pop r) m
    | Abandon_Pop r \<Rightarrow> abandon_pop t r m
    | Abandon_Stop r xs \<Rightarrow> abandon_stop t r xs m
    | Abandon_Unlock r \<Rightarrow> goto t (Abandon_Mesh r) (let_control m)
    | Abandon_Mesh r \<Rightarrow> abandon_mesh t r m
    | Abandon_Sink r \<Rightarrow> abandon_sink t r m
    | Load_Check n \<Rightarrow> require_control cfg t (Load_Lock n) m
    | Load_Lock n \<Rightarrow> take_control t (Load_Recheck n) m
    | Load_Recheck n \<Rightarrow> load_recheck t n m
    | Load_Table n \<Rightarrow> load_table t n m
    | Load_Run n \<Rightarrow> goto t (Load_Scan n (sv_generation m)) m
    | Load_Scan n g \<Rightarrow> load_scan t ok repo n g m
    | Unload_Check n \<Rightarrow> require_control cfg t (Unload_Lock n) m
    | Unload_Lock n \<Rightarrow> take_control t (Unload_Recheck n) m
    | Unload_Recheck n \<Rightarrow> unload_recheck t n m
    | Unload_Find n \<Rightarrow> unload_find t n m
    | Unload_Deps n x \<Rightarrow> unload_deps t n x m
    | Unload_Pop n x \<Rightarrow> unload_pop t n x m
    | Unload_Stop x \<Rightarrow> goto t (Unlock Returned) (stop_object x m)
    | Unlock r \<Rightarrow> leave t r (let_control m)
    | Infer_Check n \<Rightarrow> if sv_started m then goto t (Infer_Find n) m else leave t (Raised Server_State) m
    | Infer_Find n \<Rightarrow> infer_find t n m
    | Index_Check \<Rightarrow> index_check cfg t m
    | Index_Try \<Rightarrow> if sv_control m = None then goto t Index_Scan (m\<lparr>sv_control := Some t\<rparr>) else goto t Index_List m
    | Index_Scan \<Rightarrow> index_scan t ok repo m
    | Index_Unlock good \<Rightarrow> if good then goto t Index_List (let_control m) else leave t (Raised Load_Failed) (let_control m)
    | Index_List \<Rightarrow> index_list t m
    | Scrape_Read \<Rightarrow> scrape_read t m
    | Scrape_Closed s \<Rightarrow> scrape_closed t s m
    | Scrape_Again s \<Rightarrow> scrape_again t s m
    | Scrape_Ask s \<Rightarrow> scrape_ask t ok s m)"

datatype pool_call = Start_Server | Stop_Server | Load_Model string | Unload_Model string | Infer_On string | Index_Models | Scrape_Stats

definition call_pc :: "pool_call \<Rightarrow> pc" where
  "call_pc c = (case c of Start_Server \<Rightarrow> Start_Check | Stop_Server \<Rightarrow> Stop_Run None None | Load_Model n \<Rightarrow> Load_Check n
    | Unload_Model n \<Rightarrow> Unload_Check n | Infer_On n \<Rightarrow> Infer_Check n | Index_Models \<Rightarrow> Index_Check | Scrape_Stats \<Rightarrow> Scrape_Read)"

text \<open>
  What can happen: a thread that is idle calls a method, a thread takes its next step, or a worker thread of a model records a trace in an open sink.
\<close>

datatype pool_event = Call nat pool_call | Step nat bool "(string \<times> artifact) list" | Record nat

fun pool_act :: "pool_settings \<Rightarrow> pool_event \<Rightarrow> machine \<Rightarrow> machine" where
  "pool_act cfg (Call t c) m = (if mc_pcs m t = Idle then goto t (call_pc c) m else m)"
| "pool_act cfg (Step t ok repo) m = pool_step cfg t ok repo m"
| "pool_act cfg (Record i) m = (if i \<in> set (mc_sinks m) then m\<lparr>mc_counts := (mc_counts m)(i := Suc (mc_counts m i))\<rparr> else m)"

definition pool_run :: "pool_settings \<Rightarrow> pool_event list \<Rightarrow> machine" where
  "pool_run cfg acts = foldl (\<lambda>m a. pool_act cfg a m) init_server acts"

end
