(* ===== verification/Server_Lifecycle.thy ===== *)
theory Server_Lifecycle
  imports Server_Pool
begin

text \<open>
  What the lifecycle of the inference server keeps, whatever its threads do: who may claim, tear down and edit, and which thread or field each running model,
  open sink and joined mesh belongs to.
\<close>

section \<open>What the point of the program a thread has reached says about it\<close>

definition claim :: "pc \<Rightarrow> nat option" where
  "claim p = (case p of Build_Sink g \<Rightarrow> Some g | Scan r \<Rightarrow> Some (rn_gen r) | Pick r \<Rightarrow> Some (rn_gen r) | Load_Next r \<Rightarrow> Some (rn_gen r)
     | Skip r \<Rightarrow> Some (rn_gen r) | Join r \<Rightarrow> Some (rn_gen r) | Finish r \<Rightarrow> Some (rn_gen r) | Building (By_Start r) n \<Rightarrow> Some (rn_gen r)
     | Model_Starting (By_Start r) x k \<Rightarrow> Some (rn_gen r) | Model_Failed (By_Start r) x \<Rightarrow> Some (rn_gen r) | Publish (By_Start r) x \<Rightarrow> Some (rn_gen r)
     | Stop_Run (Some g) cont \<Rightarrow> Some g | _ \<Rightarrow> None)"

definition pending :: "pc \<Rightarrow> nat option" where
  "pending p = (case p of Stop_Lock g cont \<Rightarrow> Some g | Tear g cont st \<Rightarrow> if st = Let_Control then None else Some g | _ \<Rightarrow> None)"

definition holding :: "pc \<Rightarrow> bool" where
  "holding p = (case p of Tear g cont st \<Rightarrow> True | Abandon_Pop r \<Rightarrow> True | Abandon_Stop r xs \<Rightarrow> True | Abandon_Unlock r \<Rightarrow> True
     | Load_Recheck n \<Rightarrow> True | Load_Table n \<Rightarrow> True | Load_Run n \<Rightarrow> True | Load_Scan n g \<Rightarrow> True | Building (By_Load g) n \<Rightarrow> True
     | Model_Starting (By_Load g) x k \<Rightarrow> True | Model_Failed (By_Load g) x \<Rightarrow> True | Publish (By_Load g) x \<Rightarrow> True
     | Unload_Recheck n \<Rightarrow> True | Unload_Find n \<Rightarrow> True | Unload_Deps n x \<Rightarrow> True | Unload_Pop n x \<Rightarrow> True | Unload_Stop x \<Rightarrow> True | Unlock r \<Rightarrow> True
     | Index_Scan \<Rightarrow> True | Index_Unlock b \<Rightarrow> True | _ \<Rightarrow> False)"

definition editing :: "pc \<Rightarrow> bool" where
  "editing p = (case p of Load_Table n \<Rightarrow> True | Load_Run n \<Rightarrow> True | Load_Scan n g \<Rightarrow> True | Building (By_Load g) n \<Rightarrow> True
     | Model_Starting (By_Load g) x k \<Rightarrow> True | Model_Failed (By_Load g) x \<Rightarrow> True | Publish (By_Load g) x \<Rightarrow> True
     | Unload_Find n \<Rightarrow> True | Unload_Deps n x \<Rightarrow> True | Unload_Pop n x \<Rightarrow> True | _ \<Rightarrow> False)"

definition edit_gen :: "pc \<Rightarrow> nat option" where
  "edit_gen p = (case p of Load_Scan n g \<Rightarrow> Some g | Building (By_Load g) n \<Rightarrow> Some g | Model_Starting (By_Load g) x k \<Rightarrow> Some g
     | Model_Failed (By_Load g) x \<Rightarrow> Some g | Publish (By_Load g) x \<Rightarrow> Some g | _ \<Rightarrow> None)"

lemmas pc_views = claim_def pending_def holding_def editing_def edit_gen_def

text \<open>No start is under way for the run that is up, and no teardown has ended.\<close>

definition settled :: "machine \<Rightarrow> bool" where
  "settled m \<longleftrightarrow> \<not> sv_starting m \<and> \<not> sv_torn_down m \<and> (\<forall>t. claim (mc_pcs m t) \<noteq> Some (sv_generation m))"

definition life_inv :: "machine \<Rightarrow> bool" where
  "life_inv m \<longleftrightarrow> \<not> (sv_started m \<and> sv_starting m) \<and> (sv_torn_down m \<longrightarrow> \<not> sv_started m \<and> \<not> sv_starting m) \<and>
     (sv_starting m \<longrightarrow> (\<exists>t. claim (mc_pcs m t) = Some (sv_generation m))) \<and>
     (\<not> sv_started m \<and> \<not> sv_starting m \<and> \<not> sv_torn_down m \<longrightarrow> (\<exists>t. pending (mc_pcs m t) \<noteq> None)) \<and>
     (\<forall>t g. pending (mc_pcs m t) = Some g \<longrightarrow> g = sv_generation m \<and> \<not> sv_started m \<and> \<not> sv_starting m \<and> \<not> sv_torn_down m) \<and>
     (\<forall>t t'. pending (mc_pcs m t) \<noteq> None \<and> pending (mc_pcs m t') \<noteq> None \<longrightarrow> t = t') \<and>
     (\<forall>t g. claim (mc_pcs m t) = Some g \<longrightarrow> g \<le> sv_generation m \<and> (g = sv_generation m \<longrightarrow> \<not> sv_started m)) \<and>
     (\<forall>t t' g. claim (mc_pcs m t) = Some g \<and> claim (mc_pcs m t') = Some g \<longrightarrow> t = t') \<and>
     (\<forall>t. holding (mc_pcs m t) \<longleftrightarrow> sv_control m = Some t) \<and>
     (\<forall>t. editing (mc_pcs m t) \<longrightarrow> settled m) \<and>
     (\<forall>t g. edit_gen (mc_pcs m t) = Some g \<longrightarrow> g = sv_generation m)"

lemma life_invD:
  assumes "life_inv m"
  shows "\<not> (sv_started m \<and> sv_starting m)" and "sv_torn_down m \<Longrightarrow> \<not> sv_started m \<and> \<not> sv_starting m"
    and "sv_starting m \<Longrightarrow> \<exists>t. claim (mc_pcs m t) = Some (sv_generation m)"
    and "\<not> sv_started m \<Longrightarrow> \<not> sv_starting m \<Longrightarrow> \<not> sv_torn_down m \<Longrightarrow> \<exists>t. pending (mc_pcs m t) \<noteq> None"
    and "pending (mc_pcs m t) = Some g \<Longrightarrow> g = sv_generation m \<and> \<not> sv_started m \<and> \<not> sv_starting m \<and> \<not> sv_torn_down m"
    and "pending (mc_pcs m t) = Some g \<Longrightarrow> pending (mc_pcs m t') = Some g' \<Longrightarrow> t = t'"
    and "claim (mc_pcs m t) = Some g \<Longrightarrow> g \<le> sv_generation m"
    and "claim (mc_pcs m t) = Some (sv_generation m) \<Longrightarrow> \<not> sv_started m"
    and "claim (mc_pcs m t) = Some g \<Longrightarrow> claim (mc_pcs m t') = Some g \<Longrightarrow> t = t'"
    and "holding (mc_pcs m t) \<longleftrightarrow> sv_control m = Some t" and "editing (mc_pcs m t) \<Longrightarrow> settled m"
    and "edit_gen (mc_pcs m t) = Some g \<Longrightarrow> g = sv_generation m"
  using assms by (auto simp: life_inv_def)

lemma started_settled: "life_inv m \<Longrightarrow> sv_started m \<Longrightarrow> settled m"
  by (auto simp: settled_def dest: life_invD)

text \<open>A step that changes no flag: what the thread claims, holds and edits does not grow.\<close>

lemma life_quiet:
  assumes i: "life_inv m" and p: "mc_pcs m' = (mc_pcs m)(t := p')"
    and f: "sv_started m' = sv_started m" "sv_starting m' = sv_starting m" "sv_torn_down m' = sv_torn_down m"
      "sv_generation m' = sv_generation m" "sv_control m' = sv_control m"
    and c: "claim p' = claim (mc_pcs m t) \<or> claim p' = None \<and> (sv_starting m \<longrightarrow> claim (mc_pcs m t) \<noteq> Some (sv_generation m))"
    and q: "pending p' = pending (mc_pcs m t)" and h: "holding p' = holding (mc_pcs m t)"
    and e: "editing p' \<Longrightarrow> editing (mc_pcs m t) \<or> sv_started m" and g: "\<And>g. edit_gen p' = Some g \<Longrightarrow> edit_gen (mc_pcs m t) = Some g \<or> g = sv_generation m"
  shows "life_inv m'"
proof -
  have cl: "claim (mc_pcs m' u) = Some k \<Longrightarrow> claim (mc_pcs m u) = Some k" for u k using c by (auto simp: p split: if_splits)
  have ke: "sv_starting m \<Longrightarrow> claim (mc_pcs m u) = Some (sv_generation m) \<Longrightarrow> claim (mc_pcs m' u) = Some (sv_generation m)" for u
    using c by (auto simp: p)
  have pe: "pending (mc_pcs m' u) = pending (mc_pcs m u)" for u using q by (simp add: p)
  have ho: "holding (mc_pcs m' u) = holding (mc_pcs m u)" for u using h by (simp add: p)
  have se: "settled m \<Longrightarrow> settled m'" using cl by (auto simp: settled_def f)
  have ed: "editing (mc_pcs m' u) \<Longrightarrow> settled m'" for u
    using e se started_settled[OF i] life_invD(11)[OF i] by (auto simp: p split: if_splits)
  have eg: "edit_gen (mc_pcs m' u) = Some k \<Longrightarrow> k = sv_generation m" for u k
    using g life_invD(12)[OF i] by (auto simp: p split: if_splits)
  show ?thesis unfolding life_inv_def pe ho f
  proof (intro conjI)
    show "sv_starting m \<longrightarrow> (\<exists>t. claim (mc_pcs m' t) = Some (sv_generation m))" using life_invD(3)[OF i] ke by blast
    show "\<forall>t g. claim (mc_pcs m' t) = Some g \<longrightarrow> g \<le> sv_generation m \<and> (g = sv_generation m \<longrightarrow> \<not> sv_started m)"
      using cl life_invD(7,8)[OF i] by blast
    show "\<forall>t t' g. claim (mc_pcs m' t) = Some g \<and> claim (mc_pcs m' t') = Some g \<longrightarrow> t = t'" using cl life_invD(9)[OF i] by blast
    show "\<forall>t. editing (mc_pcs m' t) \<longrightarrow> settled m'" using ed by blast
    show "\<forall>t g. edit_gen (mc_pcs m' t) = Some g \<longrightarrow> g = sv_generation m" using eg by blast
  qed (use i in \<open>simp_all add: life_inv_def\<close>)
qed

text \<open>The steps that change a flag, the barrier or the control lock.\<close>

lemma life_claim:
  assumes i: "life_inv m" and p: "mc_pcs m' = (mc_pcs m)(t := Build_Sink (Suc (sv_generation m)))"
    and at: "mc_pcs m t = Begin w" and fr: "sv_torn_down m" and f: "sv_started m' = sv_started m" "sv_starting m'" "\<not> sv_torn_down m'"
      "sv_generation m' = Suc (sv_generation m)" "sv_control m' = sv_control m"
  shows "life_inv m'"
proof -
  have n: "\<not> sv_started m" "\<not> sv_starting m" using life_invD(2)[OF i fr] by auto
  have noed: "\<not> editing (mc_pcs m u)" for u using life_invD(11)[OF i, of u] fr by (auto simp: settled_def)
  have nope: "pending (mc_pcs m u) = None" for u using life_invD(5)[OF i, of u] fr by (cases "pending (mc_pcs m u)") auto
  have nogen: "edit_gen (mc_pcs m u) = None" for u
    using noed[of u] by (auto simp: edit_gen_def editing_def split: pc.splits caller.splits)
  have c: "claim (mc_pcs m' u) = (if u = t then Some (Suc (sv_generation m)) else claim (mc_pcs m u))" for u by (simp add: p claim_def)
  have le: "claim (mc_pcs m u) = Some g \<Longrightarrow> g \<le> sv_generation m" for u g by (rule life_invD(7)[OF i])
  have le': "claim (mc_pcs m u) \<noteq> Some (Suc (sv_generation m))" for u using le[of u] by fastforce
  have pe: "pending (mc_pcs m' u) = None" for u using nope by (simp add: p pending_def)
  have ho: "holding (mc_pcs m' u) = holding (mc_pcs m u)" for u by (simp add: p holding_def at)
  have ed: "\<not> editing (mc_pcs m' u)" "edit_gen (mc_pcs m' u) = None" for u using noed nogen by (auto simp: p editing_def edit_gen_def)
  show ?thesis unfolding life_inv_def pe ho f c
    using n le le' life_invD(9,10)[OF i] ed by (auto simp: f intro: le_SucI)
qed

lemma life_clear:
  assumes i: "life_inv m" and at: "mc_pcs m t = Stop_Run g cont" and gen: "g = None \<or> g = Some (sv_generation m)" and up: "sv_started m \<or> sv_starting m"
    and p: "mc_pcs m' = (mc_pcs m)(t := Stop_Lock (sv_generation m) cont)"
    and f: "\<not> sv_started m'" "\<not> sv_starting m'" "sv_torn_down m' = sv_torn_down m" "sv_generation m' = sv_generation m" "sv_control m' = sv_control m"
  shows "life_inv m'"
proof -
  have n: "\<not> sv_torn_down m" using life_invD(2)[OF i] up by auto
  have nope: "pending (mc_pcs m u) = None" for u using life_invD(5)[OF i, of u] up by (cases "pending (mc_pcs m u)") auto
  have cl: "claim (mc_pcs m' u) = Some k \<Longrightarrow> claim (mc_pcs m u) = Some k" for u k by (auto simp: p claim_def split: if_splits)
  have pe: "pending (mc_pcs m' u) = (if u = t then Some (sv_generation m) else None)" for u using nope by (simp add: p pending_def)
  have ho: "holding (mc_pcs m' u) = holding (mc_pcs m u)" for u by (simp add: p holding_def at)
  have se: "settled m \<Longrightarrow> settled m'" using cl by (auto simp: settled_def f)
  have ed: "editing (mc_pcs m' u) \<Longrightarrow> settled m'" for u using se life_invD(11)[OF i] by (auto simp: p editing_def split: if_splits)
  have eg: "edit_gen (mc_pcs m' u) = Some k \<Longrightarrow> k = sv_generation m" for u k
    using life_invD(12)[OF i] by (auto simp: p edit_gen_def split: if_splits)
  show ?thesis unfolding life_inv_def pe ho f
    using n ed eg life_invD(7,9,10)[OF i] by (auto simp: f dest!: cl)
qed

lemma life_finish:
  assumes i: "life_inv m" and at: "mc_pcs m t = Finish r" and gen: "sv_generation m = rn_gen r" and up: "sv_starting m"
    and p: "mc_pcs m' = (mc_pcs m)(t := Idle)"
    and f: "sv_started m'" "\<not> sv_starting m'" "sv_torn_down m' = sv_torn_down m" "sv_generation m' = sv_generation m" "sv_control m' = sv_control m"
  shows "life_inv m'"
proof -
  have n: "\<not> sv_torn_down m" using life_invD(2)[OF i] up by auto
  have nope: "pending (mc_pcs m u) = None" for u using life_invD(5)[OF i, of u] up by (cases "pending (mc_pcs m u)") auto
  have noed: "\<not> editing (mc_pcs m u)" for u using life_invD(11)[OF i, of u] up by (auto simp: settled_def)
  have nogen: "edit_gen (mc_pcs m u) = None" for u
    using noed[of u] by (auto simp: edit_gen_def editing_def split: pc.splits caller.splits)
  have mine: "claim (mc_pcs m t) = Some (sv_generation m)" by (simp add: at claim_def gen)
  have cl: "claim (mc_pcs m' u) = Some k \<Longrightarrow> claim (mc_pcs m u) = Some k \<and> k \<noteq> sv_generation m" for u k
    using life_invD(9)[OF i mine, of u] by (auto simp: p claim_def split: if_splits)
  have pe: "pending (mc_pcs m' u) = None" for u using nope by (simp add: p pending_def)
  have ho: "holding (mc_pcs m' u) = holding (mc_pcs m u)" for u by (simp add: p holding_def at)
  have ed: "\<not> editing (mc_pcs m' u)" "edit_gen (mc_pcs m' u) = None" for u using noed nogen by (auto simp: p editing_def edit_gen_def)
  show ?thesis unfolding life_inv_def pe ho f
    using n ed life_invD(7,9,10)[OF i] by (auto simp: f dest!: cl)
qed

lemma life_barrier:
  assumes i: "life_inv m" and at: "mc_pcs m t = Tear g cont Set_Barrier" and p: "mc_pcs m' = (mc_pcs m)(t := Tear g cont Let_Control)"
    and f: "sv_started m' = sv_started m" "sv_starting m' = sv_starting m" "sv_torn_down m'" "sv_generation m' = sv_generation m" "sv_control m' = sv_control m"
  shows "life_inv m'"
proof -
  have pt: "pending (mc_pcs m t) = Some g" by (simp add: at pending_def)
  have n: "\<not> sv_started m" "\<not> sv_starting m" using life_invD(5)[OF i pt] by auto
  have nope: "pending (mc_pcs m' u) = None" for u using life_invD(6)[OF i pt, of u] by (cases "pending (mc_pcs m u)") (auto simp: p pending_def)
  have ct: "sv_control m = Some t" using life_invD(10)[OF i, of t] by (simp add: at holding_def)
  have noed: "\<not> editing (mc_pcs m u)" for u
  proof
    assume e: "editing (mc_pcs m u)"
    then have "holding (mc_pcs m u)" by (auto simp: editing_def holding_def split: pc.splits caller.splits)
    then have "u = t" using life_invD(10)[OF i, of u] ct by simp
    then show False using e by (simp add: at editing_def)
  qed
  have nogen: "edit_gen (mc_pcs m u) = None" for u
    using noed[of u] by (auto simp: edit_gen_def editing_def split: pc.splits caller.splits)
  have cl: "claim (mc_pcs m' u) = claim (mc_pcs m u)" for u by (simp add: p claim_def at)
  have ho: "holding (mc_pcs m' u) = holding (mc_pcs m u)" for u by (simp add: p holding_def at)
  have ed: "\<not> editing (mc_pcs m' u)" "edit_gen (mc_pcs m' u) = None" for u using noed nogen by (auto simp: p editing_def edit_gen_def)
  show ?thesis unfolding life_inv_def nope ho f cl
    using n ed life_invD(7,9,10)[OF i] by (auto simp: f)
qed

text \<open>Taking and letting go of the control lock.\<close>

lemma life_lock:
  assumes i: "life_inv m" and p: "mc_pcs m' = (mc_pcs m)(t := p')"
    and f: "sv_started m' = sv_started m" "sv_starting m' = sv_starting m" "sv_torn_down m' = sv_torn_down m" "sv_generation m' = sv_generation m"
    and l: "sv_control m = None \<and> sv_control m' = Some t \<and> holding p' \<or> holding (mc_pcs m t) \<and> sv_control m' = None \<and> \<not> holding p'"
    and c: "claim p' = claim (mc_pcs m t)" and q: "pending p' = pending (mc_pcs m t)" and e: "\<not> editing p'" "edit_gen p' = None"
  shows "life_inv m'"
proof -
  have cl: "claim (mc_pcs m' u) = claim (mc_pcs m u)" for u using c by (simp add: p)
  have pe: "pending (mc_pcs m' u) = pending (mc_pcs m u)" for u using q by (simp add: p)
  have ho: "holding (mc_pcs m' u) \<longleftrightarrow> sv_control m' = Some u" for u using l life_invD(10)[OF i, of u] life_invD(10)[OF i, of t] by (auto simp: p)
  have se: "settled m' = settled m" using cl by (simp add: settled_def f)
  have ed: "editing (mc_pcs m' u) \<Longrightarrow> settled m" for u using e life_invD(11)[OF i] by (auto simp: p split: if_splits)
  have eg: "edit_gen (mc_pcs m' u) = Some k \<Longrightarrow> k = sv_generation m" for u k using e life_invD(12)[OF i] by (auto simp: p split: if_splits)
  show ?thesis unfolding life_inv_def pe ho cl f se
  proof (intro conjI)
    show "\<forall>t. editing (mc_pcs m' t) \<longrightarrow> settled m" using ed by blast
    show "\<forall>t g. edit_gen (mc_pcs m' t) = Some g \<longrightarrow> g = sv_generation m" using eg by blast
  qed (use i in \<open>simp_all add: life_inv_def\<close>)
qed

lemma outside_calls [simp]:
  "sv_started (stop_object x m) = sv_started m" "sv_starting (stop_object x m) = sv_starting m" "sv_torn_down (stop_object x m) = sv_torn_down m"
  "sv_generation (stop_object x m) = sv_generation m" "sv_control (stop_object x m) = sv_control m" "mc_pcs (stop_object x m) = mc_pcs m"
  "sv_started (close_sink s m) = sv_started m" "sv_starting (close_sink s m) = sv_starting m" "sv_torn_down (close_sink s m) = sv_torn_down m"
  "sv_generation (close_sink s m) = sv_generation m" "sv_control (close_sink s m) = sv_control m" "mc_pcs (close_sink s m) = mc_pcs m"
  "sv_started (stop_mesh i m) = sv_started m" "sv_starting (stop_mesh i m) = sv_starting m" "sv_torn_down (stop_mesh i m) = sv_torn_down m"
  "sv_generation (stop_mesh i m) = sv_generation m" "sv_control (stop_mesh i m) = sv_control m" "mc_pcs (stop_mesh i m) = mc_pcs m"
  "sv_started (let_control m) = sv_started m" "sv_starting (let_control m) = sv_starting m" "sv_torn_down (let_control m) = sv_torn_down m"
  "sv_generation (let_control m) = sv_generation m" "sv_control (let_control m) = None" "mc_pcs (let_control m) = mc_pcs m"
  by (auto simp: stop_object_def close_sink_def stop_mesh_def let_control_def split: sink.splits)

definition same_life :: "machine \<Rightarrow> machine \<Rightarrow> bool" where
  "same_life m m0 \<longleftrightarrow> sv_started m0 = sv_started m \<and> sv_starting m0 = sv_starting m \<and> sv_torn_down m0 = sv_torn_down m \<and>
     sv_generation m0 = sv_generation m \<and> mc_pcs m0 = mc_pcs m"

definition quiet_move :: "machine \<Rightarrow> pc \<Rightarrow> pc \<Rightarrow> bool" where
  "quiet_move m p p' \<longleftrightarrow> (claim p' = claim p \<or> claim p' = None \<and> (sv_starting m \<longrightarrow> claim p \<noteq> Some (sv_generation m))) \<and>
     pending p' = pending p \<and> holding p' = holding p \<and> (editing p' \<longrightarrow> editing p \<or> sv_started m) \<and>
     (\<forall>g. edit_gen p' = Some g \<longrightarrow> edit_gen p = Some g \<or> g = sv_generation m)"

definition lock_move :: "machine \<Rightarrow> nat \<Rightarrow> nat option \<Rightarrow> pc \<Rightarrow> pc \<Rightarrow> bool" where
  "lock_move m t l p p' \<longleftrightarrow> (sv_control m = None \<and> l = Some t \<and> holding p' \<or> holding p \<and> l = None \<and> \<not> holding p') \<and>
     claim p' = claim p \<and> pending p' = pending p \<and> \<not> editing p' \<and> edit_gen p' = None"

lemma life_moves:
  assumes "life_inv m" and "same_life m m0"
    and "sv_control m0 = sv_control m \<and> quiet_move m (mc_pcs m t) p' \<or> lock_move m t (sv_control m0) (mc_pcs m t) p'"
  shows "life_inv (goto t p' m0)" and "p' = Idle \<Longrightarrow> life_inv (leave t r m0)"
proof -
  have "life_inv m'" if "mc_pcs m' = (mc_pcs m)(t := p')" "sv_started m' = sv_started m" "sv_starting m' = sv_starting m" "sv_torn_down m' = sv_torn_down m"
    "sv_generation m' = sv_generation m" "sv_control m' = sv_control m0" for m'
    using assms(3)
  proof
    assume "sv_control m0 = sv_control m \<and> quiet_move m (mc_pcs m t) p'"
    then show ?thesis using that by (intro life_quiet[OF assms(1), of m' t p']) (auto simp: quiet_move_def)
  next
    assume "lock_move m t (sv_control m0) (mc_pcs m t) p'"
    then show ?thesis using that by (intro life_lock[OF assms(1), of m' t p']) (auto simp: lock_move_def)
  qed
  then show "life_inv (goto t p' m0)" and "p' = Idle \<Longrightarrow> life_inv (leave t r m0)"
    using assms(2) by (auto simp: same_life_def goto_def leave_def)
qed

lemmas life_goto = life_moves(1)
lemmas life_leave = life_moves(2)[OF _ _ _ refl]

lemma life_call: "life_inv m \<Longrightarrow> mc_pcs m t = Idle \<Longrightarrow> life_inv (goto t (call_pc c) m)"
  by (rule life_goto[of m]) (auto simp: same_life_def quiet_move_def call_pc_def pc_views split: pool_call.splits)

lemma life_record: "life_inv m \<Longrightarrow> life_inv (m\<lparr>mc_counts := f\<rparr>)"
  by (simp add: life_inv_def settled_def)

lemma life_init: "life_inv init_server"
  by (simp add: life_inv_def init_server_def pc_views)

lemmas start_steps = begin_start_def begin_wait_def build_sink_def scan_start_def pick_names_def load_next_def skip_or_raise_def join_tier_def
  build_model_def start_model_def load_raised_def start_failed_def new_run_def
lemmas stop_steps = after_stop_def await_teardown_def take_control_def abandon_pop_def abandon_stop_def abandon_mesh_def abandon_sink_def
lemmas control_steps = require_control_def load_recheck_def load_table_def load_scan_def unload_recheck_def unload_find_def unload_deps_def unload_pop_def
lemmas query_steps = infer_find_def index_check_def index_scan_def index_list_def scrape_read_def scrape_closed_def scrape_again_def scrape_ask_def

lemma life_tear:
  assumes i: "life_inv m" and at: "mc_pcs m t = Tear g cont st"
  shows "life_inv (tear_step t ok g cont st m)"
proof (cases "st = Set_Barrier")
  case True
  then show ?thesis using at by (intro life_barrier[OF i, of t g cont]) (auto simp: tear_step_def goto_def)
next
  case False
  then show ?thesis
    by (auto simp: tear_step_def same_life_def quiet_move_def lock_move_def at pc_views after_stop_def
        intro!: life_goto[OF i] life_leave[OF i] split: teardown.splits option.splits list.splits)
qed

lemma life_publish:
  assumes i: "life_inv m" and at: "mc_pcs m t = Publish c x"
  shows "life_inv (publish_model t c x m)"
  by (auto simp: publish_model_def Let_def same_life_def quiet_move_def lock_move_def at pc_views split: caller.splits intro!: life_goto[OF i])

lemma life_stop_run:
  assumes i: "life_inv m" and at: "mc_pcs m t = Stop_Run g cont"
  shows "life_inv (stop_run t g cont m)"
proof (cases "(g = None \<or> g = Some (sv_generation m)) \<and> \<not> is_stopping m")
  case True
  then show ?thesis
    by (intro life_clear[OF i at]) (auto simp: stop_run_def is_stopping_def goto_def)
next
  case False
  then show ?thesis
    by (auto simp: stop_run_def is_stopping_def after_stop_def same_life_def quiet_move_def at pc_views split: option.splits
        intro!: life_goto[OF i] life_leave[OF i])
qed

lemma life_finish_start:
  assumes i: "life_inv m" and at: "mc_pcs m t = Finish r"
  shows "life_inv (finish_start t r m)"
proof (cases "sv_generation m = rn_gen r \<and> sv_starting m")
  case True
  then show ?thesis by (intro life_finish[OF i at]) (auto simp: finish_start_def leave_def split: option.splits)
next
  case False
  then show ?thesis by (auto simp: finish_start_def same_life_def quiet_move_def at pc_views intro!: life_goto[OF i])
qed

lemma life_begin:
  assumes i: "life_inv m" and at: "mc_pcs m t = Begin w"
  shows "life_inv (begin_start t w m)"
proof (cases "\<not> sv_started m \<and> \<not> sv_starting m \<and> sv_torn_down m")
  case True
  then show ?thesis by (intro life_claim[OF i _ at]) (auto simp: begin_start_def goto_def)
next
  case False
  then show ?thesis by (auto simp: begin_start_def same_life_def quiet_move_def at pc_views intro!: life_goto[OF i] life_leave[OF i])
qed

lemma life_step:
  assumes i: "life_inv m"
  shows "life_inv (pool_step cfg t ok repo m)"
proof (cases "mc_pcs m t")
  case (Begin w) then show ?thesis using life_begin[OF i Begin] by (simp add: pool_step_def)
next
  case (Finish r) then show ?thesis using life_finish_start[OF i Finish] by (simp add: pool_step_def)
next
  case (Publish c x) then show ?thesis using life_publish[OF i Publish] by (simp add: pool_step_def)
next
  case (Stop_Run g cont) then show ?thesis using life_stop_run[OF i Stop_Run] by (simp add: pool_step_def)
next
  case (Tear g cont st) then show ?thesis using life_tear[OF i Tear] by (simp add: pool_step_def)
next
  case (Stop_Lock g cont)
  then show ?thesis using i
    by (auto simp: pool_step_def take_control_def same_life_def lock_move_def quiet_move_def pc_views intro!: life_goto[OF i])
qed (auto simp: pool_step_def start_steps stop_steps control_steps query_steps Let_def same_life_def quiet_move_def lock_move_def pc_views i
      intro!: life_goto[OF i] life_leave[OF i] split: option.splits caller.splits list.splits nat.splits sum.splits)

section \<open>Who owns a running model\<close>

definition run_of :: "pc \<Rightarrow> run option" where
  "run_of p = (case p of Scan r \<Rightarrow> Some r | Pick r \<Rightarrow> Some r | Load_Next r \<Rightarrow> Some r | Skip r \<Rightarrow> Some r | Join r \<Rightarrow> Some r | Finish r \<Rightarrow> Some r
     | Building (By_Start r) n \<Rightarrow> Some r | Model_Starting (By_Start r) x k \<Rightarrow> Some r | Model_Failed (By_Start r) x \<Rightarrow> Some r | Publish (By_Start r) x \<Rightarrow> Some r
     | Stop_Run g cont \<Rightarrow> cont | Await cont \<Rightarrow> cont | Stop_Lock g cont \<Rightarrow> cont | Tear g cont st \<Rightarrow> cont
     | Abandon_Lock r \<Rightarrow> Some r | Abandon_Pop r \<Rightarrow> Some r | Abandon_Stop r xs \<Rightarrow> Some r | Abandon_Unlock r \<Rightarrow> Some r | Abandon_Mesh r \<Rightarrow> Some r
     | Abandon_Sink r \<Rightarrow> Some r | _ \<Rightarrow> None)"

definition mine :: "pc \<Rightarrow> model_obj set" where
  "mine p = (case run_of p of None \<Rightarrow> {} | Some r \<Rightarrow> set (rn_mine r))"

text \<open>The model a thread is starting and has shown to nobody, and those it is about to stop.\<close>

definition fresh :: "pc \<Rightarrow> model_obj set" where
  "fresh p = (case p of Model_Starting c x k \<Rightarrow> {x} | Model_Failed c x \<Rightarrow> {x} | Publish c x \<Rightarrow> {x} | _ \<Rightarrow> {})"

definition doomed :: "pc \<Rightarrow> model_obj set" where
  "doomed p = (case p of Tear g cont (Stop_Drained xs) \<Rightarrow> set xs | Abandon_Stop r xs \<Rightarrow> set xs | Unload_Stop x \<Rightarrow> {x} | _ \<Rightarrow> {})"

definition popped :: "pc \<Rightarrow> bool" where
  "popped p = (case p of Abandon_Stop r xs \<Rightarrow> True | Abandon_Unlock r \<Rightarrow> True | Abandon_Mesh r \<Rightarrow> True | Abandon_Sink r \<Rightarrow> True | _ \<Rightarrow> False)"

definition owned :: "pc \<Rightarrow> model_obj set" where
  "owned p = fresh p \<union> doomed p \<union> (if popped p then {} else mine p)"

definition drained :: "pc \<Rightarrow> bool" where
  "drained p = (case p of Tear g cont st \<Rightarrow> st \<noteq> Stale_Check \<and> st \<noteq> Leave_Tier \<and> (\<forall>i. st \<noteq> Stop_Mesh i) \<and> st \<noteq> Drain \<and> st \<noteq> Let_Control | _ \<Rightarrow> False)"

definition plan_names :: "pc \<Rightarrow> string list" where
  "plan_names p = (case p of Load_Next r \<Rightarrow> map mo_name (rn_mine r) @ rn_todo r | Skip r \<Rightarrow> map mo_name (rn_mine r) @ rn_todo r
     | Building (By_Start r) n \<Rightarrow> map mo_name (rn_mine r) @ n # rn_todo r
     | Model_Starting (By_Start r) x k \<Rightarrow> map mo_name (rn_mine r) @ mo_name x # rn_todo r
     | Model_Failed (By_Start r) x \<Rightarrow> map mo_name (rn_mine r) @ mo_name x # rn_todo r
     | Publish (By_Start r) x \<Rightarrow> map mo_name (rn_mine r) @ mo_name x # rn_todo r | _ \<Rightarrow> [])"

definition unstarted :: "pc \<Rightarrow> bool" where
  "unstarted p = (case p of Scan r \<Rightarrow> rn_mine r = [] | Pick r \<Rightarrow> rn_mine r = [] | _ \<Rightarrow> True)"

definition absent :: "pc \<Rightarrow> string option" where
  "absent p = (case p of Load_Run n \<Rightarrow> Some n | Load_Scan n g \<Rightarrow> Some n | Building (By_Load g) n \<Rightarrow> Some n
     | Model_Starting (By_Load g) x k \<Rightarrow> Some (mo_name x) | Publish (By_Load g) x \<Rightarrow> Some (mo_name x) | _ \<Rightarrow> None)"

definition unload_target :: "pc \<Rightarrow> (string \<times> model_obj) option" where
  "unload_target p = (case p of Unload_Deps n x \<Rightarrow> Some (n, x) | Unload_Pop n x \<Rightarrow> Some (n, x) | _ \<Rightarrow> None)"

lemmas pc_objects = run_of_def mine_def fresh_def doomed_def popped_def owned_def drained_def plan_names_def unstarted_def absent_def unload_target_def

abbreviation table :: "machine \<Rightarrow> model_obj set" where
  "table m \<equiv> snd ` set (sv_models m)"

text \<open>When every entry of the table is in the ledger of a start that is still under way.\<close>

definition covered :: "machine \<Rightarrow> bool" where
  "covered m \<longleftrightarrow> sv_torn_down m \<or> (\<exists>t. claim (mc_pcs m t) = Some (sv_generation m)) \<or> (\<exists>t. drained (mc_pcs m t))"

definition dicts_ok :: "machine \<Rightarrow> bool" where
  "dicts_ok m \<longleftrightarrow> dict_wf (sv_models m) \<and> (\<forall>n x. (n, x) \<in> set (sv_models m) \<longrightarrow> mo_name x = n) \<and>
     (\<forall>repo. sv_repository m = Some repo \<longrightarrow> dict_wf repo)"

definition fresh_ok :: "machine \<Rightarrow> bool" where
  "fresh_ok m \<longleftrightarrow> (\<forall>t x. x \<in> fresh (mc_pcs m t) \<longrightarrow> x \<in> set (mc_live m) \<and> x \<notin> table m \<and>
     (\<forall>t'. x \<notin> mine (mc_pcs m t') \<and> x \<notin> doomed (mc_pcs m t') \<and> (t' \<noteq> t \<longrightarrow> x \<notin> fresh (mc_pcs m t'))))"

definition ids_ok :: "machine \<Rightarrow> bool" where
  "ids_ok m \<longleftrightarrow> (\<forall>x \<in> table m \<union> set (mc_live m). mo_id x < mc_next m) \<and>
     (\<forall>t. \<forall>x \<in> mine (mc_pcs m t) \<union> doomed (mc_pcs m t) \<union> fresh (mc_pcs m t). mo_id x < mc_next m)"

definition obj_inv :: "machine \<Rightarrow> bool" where
  "obj_inv m \<longleftrightarrow> dicts_ok m \<and> fresh_ok m \<and> ids_ok m \<and> table m \<subseteq> set (mc_live m) \<and>
     (\<forall>t. doomed (mc_pcs m t) \<inter> table m = {}) \<and>
     (\<forall>t t'. t \<noteq> t' \<longrightarrow> mine (mc_pcs m t) \<inter> mine (mc_pcs m t') = {}) \<and>
     (covered m \<longrightarrow> table m \<subseteq> (\<Union>t. mine (mc_pcs m t))) \<and>
     (\<forall>t. sv_starting m \<and> claim (mc_pcs m t) = Some (sv_generation m) \<longrightarrow> mine (mc_pcs m t) \<subseteq> table m) \<and>
     set (mc_live m) \<subseteq> table m \<union> (\<Union>t. owned (mc_pcs m t)) \<and>
     (\<forall>t. popped (mc_pcs m t) \<longrightarrow> mine (mc_pcs m t) \<inter> table m = {}) \<and>
     (\<forall>t n. absent (mc_pcs m t) = Some n \<longrightarrow> map_of (sv_models m) n = None) \<and>
     (\<forall>t n x. unload_target (mc_pcs m t) = Some (n, x) \<longrightarrow> map_of (sv_models m) n = Some x) \<and>
     (\<forall>t. distinct (plan_names (mc_pcs m t)) \<and> unstarted (mc_pcs m t))"

lemma obj_invD:
  assumes "obj_inv m"
  shows "dicts_ok m" "fresh_ok m" "ids_ok m" "table m \<subseteq> set (mc_live m)" "doomed (mc_pcs m t) \<inter> table m = {}"
    "t \<noteq> t' \<Longrightarrow> mine (mc_pcs m t) \<inter> mine (mc_pcs m t') = {}" "covered m \<Longrightarrow> table m \<subseteq> (\<Union>t. mine (mc_pcs m t))"
    "sv_starting m \<Longrightarrow> claim (mc_pcs m t) = Some (sv_generation m) \<Longrightarrow> mine (mc_pcs m t) \<subseteq> table m"
    "set (mc_live m) \<subseteq> table m \<union> (\<Union>t. owned (mc_pcs m t))" "popped (mc_pcs m t) \<Longrightarrow> mine (mc_pcs m t) \<inter> table m = {}"
    "absent (mc_pcs m t) = Some n \<Longrightarrow> map_of (sv_models m) n = None"
    "unload_target (mc_pcs m t) = Some (n, x) \<Longrightarrow> map_of (sv_models m) n = Some x"
    "distinct (plan_names (mc_pcs m t))" "unstarted (mc_pcs m t)"
  using assms unfolding obj_inv_def by (elim conjE; simp)+

text \<open>No new object: the identities stay below the next one.\<close>

lemma ids_mono:
  assumes "ids_ok m" and "table m' \<union> set (mc_live m') \<subseteq> table m \<union> set (mc_live m)" and "mc_next m \<le> mc_next m'"
    and "\<And>u. mine (mc_pcs m' u) \<union> doomed (mc_pcs m' u) \<union> fresh (mc_pcs m' u) \<subseteq> mine (mc_pcs m u) \<union> doomed (mc_pcs m u) \<union> fresh (mc_pcs m u)"
  shows "ids_ok m'"
  unfolding ids_ok_def
proof (intro conjI ballI allI)
  fix x assume "x \<in> table m' \<union> set (mc_live m')"
  then have "x \<in> table m \<union> set (mc_live m)" by (rule subsetD[OF assms(2)])
  then have "mo_id x < mc_next m" using assms(1) unfolding ids_ok_def by blast
  then show "mo_id x < mc_next m'" using assms(3) by simp
next
  fix u x assume "x \<in> mine (mc_pcs m' u) \<union> doomed (mc_pcs m' u) \<union> fresh (mc_pcs m' u)"
  then have "x \<in> mine (mc_pcs m u) \<union> doomed (mc_pcs m u) \<union> fresh (mc_pcs m u)" by (rule subsetD[OF assms(4)])
  then have "mo_id x < mc_next m" using assms(1) unfolding ids_ok_def by blast
  then show "mo_id x < mc_next m'" using assms(3) by simp
qed

text \<open>A step that touches neither the table nor the running models.\<close>

lemma obj_quiet:
  assumes i: "obj_inv m" and p: "mc_pcs m' = (mc_pcs m)(t := p')"
    and s: "sv_models m' = sv_models m" "mc_live m' = mc_live m" "mc_next m \<le> mc_next m'" and d: "dicts_ok m'"
    and f: "fresh p' = fresh (mc_pcs m t)" and dm: "doomed p' = doomed (mc_pcs m t)"
    and o: "owned (mc_pcs m t) \<subseteq> owned p' \<union> table m" and c: "covered m' \<Longrightarrow> covered m"
    and mi: "mine p' = mine (mc_pcs m t) \<or> mine p' = {} \<and> (covered m' \<longrightarrow> mine (mc_pcs m t) \<inter> table m = {})"
    and st: "\<And>u. sv_starting m' \<Longrightarrow> claim (mc_pcs m' u) = Some (sv_generation m') \<Longrightarrow> sv_starting m \<and> claim (mc_pcs m u) = Some (sv_generation m) \<or> mine (mc_pcs m' u) = {}"
    and po: "popped p' \<Longrightarrow> popped (mc_pcs m t)"
    and ab: "\<And>n. absent p' = Some n \<Longrightarrow> map_of (sv_models m) n = None"
    and ut: "\<And>n x. unload_target p' = Some (n, x) \<Longrightarrow> map_of (sv_models m) n = Some x"
    and pn: "distinct (plan_names p')" "unstarted p'"
  shows "obj_inv m'"
proof -
  have mu: "mine (mc_pcs m' u) \<subseteq> mine (mc_pcs m u)" for u using mi by (auto simp: p)
  have fu: "fresh (mc_pcs m' u) = fresh (mc_pcs m u)" "doomed (mc_pcs m' u) = doomed (mc_pcs m u)" for u using f dm by (simp_all add: p)
  have cv: "table m \<subseteq> (\<Union>u. mine (mc_pcs m' u))" if cm: "covered m'"
  proof
    fix x assume x: "x \<in> table m"
    then obtain u where u: "x \<in> mine (mc_pcs m u)" using obj_invD(7)[OF i c[OF cm]] by blast
    then have "x \<in> mine (mc_pcs m' u)" using mi cm x by (auto simp: p)
    then show "x \<in> (\<Union>u. mine (mc_pcs m' u))" by blast
  qed
  have ow: "set (mc_live m) \<subseteq> table m \<union> (\<Union>u. owned (mc_pcs m' u))"
  proof
    fix x assume "x \<in> set (mc_live m)"
    then consider "x \<in> table m" | u where "x \<in> owned (mc_pcs m u)" using obj_invD(9)[OF i] by blast
    then show "x \<in> table m \<union> (\<Union>u. owned (mc_pcs m' u))"
    proof cases
      case 2
      then have "x \<in> table m \<or> x \<in> owned (mc_pcs m' u)" using o by (auto simp: p)
      then show ?thesis by blast
    qed simp
  qed
  have fr: "fresh_ok m'" using obj_invD(2)[OF i] mu unfolding fresh_ok_def s fu by blast
  have id: "ids_ok m'" by (rule ids_mono[OF obj_invD(3)[OF i] _ s(3)]) (simp_all add: s(1,2) fu le_supI1 mu)
  show ?thesis unfolding obj_inv_def s fu
  proof (intro conjI)
    show "\<forall>t t'. t \<noteq> t' \<longrightarrow> mine (mc_pcs m' t) \<inter> mine (mc_pcs m' t') = {}" using obj_invD(6)[OF i] mu by blast
    show "\<forall>t. sv_starting m' \<and> claim (mc_pcs m' t) = Some (sv_generation m') \<longrightarrow> mine (mc_pcs m' t) \<subseteq> table m"
    proof (intro allI impI)
      fix u assume "sv_starting m' \<and> claim (mc_pcs m' u) = Some (sv_generation m')"
      then consider "sv_starting m \<and> claim (mc_pcs m u) = Some (sv_generation m)" | "mine (mc_pcs m' u) = {}" using st by blast
      then show "mine (mc_pcs m' u) \<subseteq> table m" using obj_invD(8)[OF i, of u] mu[of u] by cases auto
    qed
    show "\<forall>t. popped (mc_pcs m' t) \<longrightarrow> mine (mc_pcs m' t) \<inter> table m = {}"
    proof (intro allI impI)
      fix u assume "popped (mc_pcs m' u)"
      then have "popped (mc_pcs m u)" using po by (auto simp: p split: if_splits)
      then show "mine (mc_pcs m' u) \<inter> table m = {}" using obj_invD(10)[OF i, of u] mu[of u] by blast
    qed
    show "\<forall>t n. absent (mc_pcs m' t) = Some n \<longrightarrow> map_of (sv_models m) n = None" using ab obj_invD(11)[OF i] by (auto simp: p)
    show "\<forall>t n x. unload_target (mc_pcs m' t) = Some (n, x) \<longrightarrow> map_of (sv_models m) n = Some x"
      using ut obj_invD(12)[OF i] unfolding p by (metis fun_upd_apply)
    show "\<forall>t. distinct (plan_names (mc_pcs m' t)) \<and> unstarted (mc_pcs m' t)" using pn obj_invD(13,14)[OF i] by (auto simp: p)
  qed (use cv ow fr id d obj_invD(4,5)[OF i] in blast)+
qed

lemma table_entry: "dicts_ok m \<Longrightarrow> (x \<in> table m) \<longleftrightarrow> map_of (sv_models m) (mo_name x) = Some x"
  by (force simp: dicts_ok_def dest: map_of_SomeD)

lemma fresh_not_table: "fresh_ok m \<Longrightarrow> x \<in> fresh (mc_pcs m t) \<Longrightarrow> x \<notin> table m"
  by (auto simp: fresh_ok_def)

text \<open>A new model object.\<close>

lemma obj_new:
  assumes i: "obj_inv m" and p: "mc_pcs m' = (mc_pcs m)(t := p')"
    and s: "sv_models m' = sv_models m" "sv_repository m' = sv_repository m" "mc_live m' = x # mc_live m" "mc_next m' = Suc (mc_next m)" "mo_id x = mc_next m"
    and fl: "sv_starting m' = sv_starting m" "sv_generation m' = sv_generation m" "covered m' = covered m"
    and f: "fresh (mc_pcs m t) = {}" "fresh p' = {x}" "doomed p' = {}" "doomed (mc_pcs m t) = {}" "mine p' = mine (mc_pcs m t)" "\<not> popped p'" "\<not> popped (mc_pcs m t)"
    and cl: "claim p' = claim (mc_pcs m t)" and ab: "absent p' = absent (mc_pcs m t)" and ut: "unload_target p' = None"
    and pn: "distinct (plan_names p')" "unstarted p'"
  shows "obj_inv m'"
proof -
  note id = obj_invD(3)[OF i, unfolded ids_ok_def]
  have new: "x \<notin> table m" "x \<notin> mine (mc_pcs m u)" "x \<notin> doomed (mc_pcs m u)" "x \<notin> fresh (mc_pcs m u)" for u
    using id s(5) by force+
  have mu: "mine (mc_pcs m' u) = mine (mc_pcs m u)" "doomed (mc_pcs m' u) = doomed (mc_pcs m u)" "popped (mc_pcs m' u) = popped (mc_pcs m u)"
    "absent (mc_pcs m' u) = absent (mc_pcs m u)" "claim (mc_pcs m' u) = claim (mc_pcs m u)" for u using f cl ab by (simp_all add: p)
  have fu: "fresh (mc_pcs m' u) = (if u = t then {x} else fresh (mc_pcs m u))" for u using f by (simp add: p)
  have ow: "owned (mc_pcs m' u) = (if u = t then insert x (owned (mc_pcs m u)) else owned (mc_pcs m u))" for u using f by (simp add: p owned_def)
  have fr: "fresh_ok m'" unfolding fresh_ok_def s mu fu
    using obj_invD(2)[OF i] new by (auto simp: fresh_ok_def split: if_splits)
  have ids: "ids_ok m'" unfolding ids_ok_def s(1,3,4) mu fu using id s(5) by (auto simp: less_Suc_eq)
  have dk: "dicts_ok m'" using obj_invD(1)[OF i] by (simp add: dicts_ok_def s)
  show ?thesis unfolding obj_inv_def s mu fl
  proof (intro conjI)
    show "\<forall>t n x. unload_target (mc_pcs m' t) = Some (n, x) \<longrightarrow> map_of (sv_models m) n = Some x"
      using ut obj_invD(12)[OF i] unfolding p by (metis fun_upd_apply option.distinct(1))
    show "\<forall>t. distinct (plan_names (mc_pcs m' t)) \<and> unstarted (mc_pcs m' t)" using pn obj_invD(13,14)[OF i] by (auto simp: p)
    show "set (x # mc_live m) \<subseteq> table m \<union> (\<Union>u. owned (mc_pcs m' u))"
      using obj_invD(9)[OF i] by (auto simp: ow split: if_splits)
  qed (use fr ids dk obj_invD(4-8,10,11)[OF i] in auto)
qed

text \<open>A model is stopped.\<close>

lemma obj_stop:
  assumes i: "obj_inv m" and p: "mc_pcs m' = (mc_pcs m)(t := p')"
    and s: "sv_models m' = sv_models m" "sv_repository m' = sv_repository m" "mc_live m' = filter (\<lambda>y. y \<noteq> x) (mc_live m)" "mc_next m' = mc_next m"
    and fl: "sv_starting m' = sv_starting m" "sv_generation m' = sv_generation m" "covered m' = covered m"
    and x: "x \<in> doomed (mc_pcs m t) \<and> fresh (mc_pcs m t) = {} \<or> fresh (mc_pcs m t) = {x}" and f: "fresh p' = {}"
    and d: "doomed p' \<subseteq> doomed (mc_pcs m t)" "mine p' = mine (mc_pcs m t)" "popped p' = popped (mc_pcs m t)" "owned (mc_pcs m t) \<subseteq> insert x (owned p')"
    and cl: "sv_starting m \<Longrightarrow> claim p' = Some (sv_generation m) \<Longrightarrow> claim (mc_pcs m t) = Some (sv_generation m)"
    and ab: "absent p' = None" and ut: "unload_target p' = None" and pn: "distinct (plan_names p')" "unstarted p'"
  shows "obj_inv m'"
proof -
  note fo = obj_invD(2)[OF i, unfolded fresh_ok_def]
  have nt: "x \<notin> table m" using x obj_invD(5)[OF i, of t] fo by blast
  have nf: "u \<noteq> t \<Longrightarrow> x \<notin> fresh (mc_pcs m u)" for u using x fo by blast
  have mu: "mine (mc_pcs m' u) = mine (mc_pcs m u)" "popped (mc_pcs m' u) = popped (mc_pcs m u)" for u using d by (simp_all add: p)
  have du: "doomed (mc_pcs m' u) \<subseteq> doomed (mc_pcs m u)" for u using d by (simp add: p)
  have fu: "fresh (mc_pcs m' u) = (if u = t then {} else fresh (mc_pcs m u))" for u using f by (simp add: p)
  have fr: "fresh_ok m'" unfolding fresh_ok_def s mu fu using fo nf
    by (auto split: if_splits dest: subsetD[OF du])
  have ids: "ids_ok m'" by (rule ids_mono[OF obj_invD(3)[OF i]]) (use du in \<open>auto simp: s mu fu\<close>)
  have dk: "dicts_ok m'" using obj_invD(1)[OF i] by (simp add: dicts_ok_def s)
  have ow: "u \<noteq> t \<Longrightarrow> owned (mc_pcs m' u) = owned (mc_pcs m u)" for u by (simp add: p)
  show ?thesis unfolding obj_inv_def s mu fl
  proof (intro conjI)
    show "\<forall>t n x. unload_target (mc_pcs m' t) = Some (n, x) \<longrightarrow> map_of (sv_models m) n = Some x"
      using ut obj_invD(12)[OF i] unfolding p by (metis fun_upd_apply option.distinct(1))
    show "\<forall>t n. absent (mc_pcs m' t) = Some n \<longrightarrow> map_of (sv_models m) n = None"
      using ab obj_invD(11)[OF i] unfolding p by (metis fun_upd_apply option.distinct(1))
    show "\<forall>t. distinct (plan_names (mc_pcs m' t)) \<and> unstarted (mc_pcs m' t)" using pn obj_invD(13,14)[OF i] by (auto simp: p)
    show "set (filter (\<lambda>y. y \<noteq> x) (mc_live m)) \<subseteq> table m \<union> (\<Union>u. owned (mc_pcs m' u))"
    proof
      fix y assume "y \<in> set (filter (\<lambda>y. y \<noteq> x) (mc_live m))"
      then have y: "y \<in> set (mc_live m)" "y \<noteq> x" by auto
      then consider "y \<in> table m" | u where "y \<in> owned (mc_pcs m u)" using obj_invD(9)[OF i] by blast
      then show "y \<in> table m \<union> (\<Union>u. owned (mc_pcs m' u))"
      proof cases
        case 2
        then have "y \<in> owned (mc_pcs m' u)" using d(4) y(2) by (cases "u = t") (auto simp: p)
        then show ?thesis by blast
      qed simp
    qed
    show "table m \<subseteq> set (filter (\<lambda>y. y \<noteq> x) (mc_live m))" using obj_invD(4)[OF i] nt by auto
    show "\<forall>t. doomed (mc_pcs m' t) \<inter> table m = {}" using obj_invD(5)[OF i] du by blast
    show "\<forall>t. sv_starting m \<and> claim (mc_pcs m' t) = Some (sv_generation m) \<longrightarrow> mine (mc_pcs m t) \<subseteq> table m"
      using cl obj_invD(8)[OF i] unfolding p by (metis fun_upd_apply)
  qed (use fr ids dk obj_invD(6,7,10)[OF i] in auto)
qed

text \<open>Entries leave the table.\<close>

lemma obj_remove:
  assumes i: "obj_inv m" and p: "mc_pcs m' = (mc_pcs m)(t := p')"
    and s: "set (sv_models m') \<subseteq> set (sv_models m)" "dict_wf (sv_models m')" "sv_repository m' = sv_repository m" "mc_live m' = mc_live m" "mc_next m' = mc_next m"
    and fl: "sv_starting m' = sv_starting m" "sv_generation m' = sv_generation m"
    and c: "covered m' \<Longrightarrow> covered m \<or> sv_models m' = []"
    and f: "fresh (mc_pcs m t) = {}" "fresh p' = {}" and d: "doomed p' \<subseteq> table m \<union> mine (mc_pcs m t)" "doomed p' \<inter> table m' = {}" "mine p' = mine (mc_pcs m t)"
    and po: "popped p' \<Longrightarrow> mine p' \<inter> table m' = {}" and ow: "table m \<union> owned (mc_pcs m t) \<subseteq> table m' \<union> owned p'"
    and cl: "claim p' = None" and st: "\<And>u. sv_starting m \<Longrightarrow> u \<noteq> t \<Longrightarrow> claim (mc_pcs m u) = Some (sv_generation m) \<Longrightarrow> mine (mc_pcs m u) \<inter> table m \<subseteq> table m'"
    and ab: "absent p' = None" and ut: "unload_target p' = None" "\<And>u. u \<noteq> t \<Longrightarrow> unload_target (mc_pcs m u) = None"
    and pn: "distinct (plan_names p')" "unstarted p'"
  shows "obj_inv m'"
proof -
  note fo = obj_invD(2)[OF i, unfolded fresh_ok_def]
  have sub: "table m' \<subseteq> table m" using s(1) by blast
  have wf: "dict_wf (sv_models m)" using obj_invD(1)[OF i] by (simp add: dicts_ok_def)
  have mo: "map_of (sv_models m') n = Some y \<Longrightarrow> map_of (sv_models m) n = Some y" for n y
    using s(1,2) wf by (meson dict_get_iff subsetD)
  have mu: "mine (mc_pcs m' u) = mine (mc_pcs m u)" for u using d(3) by (simp add: p)
  have fu: "fresh (mc_pcs m' u) = fresh (mc_pcs m u)" for u using f by (simp add: p)
  have du: "doomed (mc_pcs m' u) \<subseteq> doomed (mc_pcs m u) \<or> doomed (mc_pcs m' u) \<subseteq> table m \<union> mine (mc_pcs m u)" for u using d(1) by (simp add: p)
  have fr: "fresh_ok m'" unfolding fresh_ok_def s(4) mu fu
  proof (intro allI impI conjI)
    fix u x u' assume x: "x \<in> fresh (mc_pcs m u)"
    then show "x \<notin> doomed (mc_pcs m' u')" using fo du[of u'] by blast
  qed (use fo sub in blast)+
  have ids: "ids_ok m'" unfolding ids_ok_def s(4,5) mu fu
  proof (intro conjI allI ballI)
    fix x assume "x \<in> table m' \<union> set (mc_live m)"
    then show "mo_id x < mc_next m" using obj_invD(3)[OF i] sub by (auto simp: ids_ok_def)
  next
    fix u x assume "x \<in> mine (mc_pcs m u) \<union> doomed (mc_pcs m' u) \<union> fresh (mc_pcs m u)"
    then have "x \<in> table m \<or> x \<in> mine (mc_pcs m u) \<union> doomed (mc_pcs m u) \<union> fresh (mc_pcs m u)" using du[of u] by blast
    then show "mo_id x < mc_next m" using obj_invD(3)[OF i] unfolding ids_ok_def by blast
  qed
  have dk: "dicts_ok m'" using obj_invD(1)[OF i] s by (auto simp: dicts_ok_def)
  show ?thesis unfolding obj_inv_def s(4) mu fl
  proof (intro conjI)
    show "table m' \<subseteq> set (mc_live m)" using sub obj_invD(4)[OF i] by blast
    show "\<forall>t. doomed (mc_pcs m' t) \<inter> table m' = {}"
    proof
      fix u
      show "doomed (mc_pcs m' u) \<inter> table m' = {}"
      proof (cases "u = t")
        case False
        then have "doomed (mc_pcs m' u) \<inter> table m = {}" using obj_invD(5)[OF i, of u] by (simp add: p)
        then show ?thesis using sub by blast
      qed (use d(2) in \<open>simp add: p\<close>)
    qed
    show "covered m' \<longrightarrow> table m' \<subseteq> (\<Union>t. mine (mc_pcs m t))"
    proof
      assume "covered m'"
      then consider "covered m" | "sv_models m' = []" using c by blast
      then show "table m' \<subseteq> (\<Union>t. mine (mc_pcs m t))" using obj_invD(7)[OF i] sub by cases (blast, simp)
    qed
    show "\<forall>t. sv_starting m \<and> claim (mc_pcs m' t) = Some (sv_generation m) \<longrightarrow> mine (mc_pcs m t) \<subseteq> table m'"
    proof (intro allI impI)
      fix u assume u: "sv_starting m \<and> claim (mc_pcs m' u) = Some (sv_generation m)"
      then have "u \<noteq> t" using cl by (auto simp: p)
      then show "mine (mc_pcs m u) \<subseteq> table m'" using u st[of u] obj_invD(8)[OF i, of u] by (auto simp: p)
    qed
    show "set (mc_live m) \<subseteq> table m' \<union> (\<Union>u. owned (mc_pcs m' u))"
    proof
      fix y assume "y \<in> set (mc_live m)"
      then consider "y \<in> table m" | u where "y \<in> owned (mc_pcs m u)" using obj_invD(9)[OF i] by blast
      then show "y \<in> table m' \<union> (\<Union>u. owned (mc_pcs m' u))"
      proof cases
        case 1
        then have "y \<in> table m' \<or> y \<in> owned (mc_pcs m' t)" using ow by (auto simp: p)
        then show ?thesis by blast
      next
        case 2
        then have "y \<in> table m' \<or> y \<in> owned (mc_pcs m' u)" using ow unfolding p by (cases "u = t") (simp, blast, simp)
        then show ?thesis by blast
      qed
    qed
    show "\<forall>t. popped (mc_pcs m' t) \<longrightarrow> mine (mc_pcs m t) \<inter> table m' = {}"
    proof (intro allI impI)
      fix u assume u: "popped (mc_pcs m' u)"
      show "mine (mc_pcs m u) \<inter> table m' = {}"
      proof (cases "u = t")
        case True
        then show ?thesis using u po d(3) by (simp add: p)
      next
        case False
        then have "mine (mc_pcs m u) \<inter> table m = {}" using u obj_invD(10)[OF i, of u] by (simp add: p)
        then show ?thesis using sub by blast
      qed
    qed
    show "\<forall>t n. absent (mc_pcs m' t) = Some n \<longrightarrow> map_of (sv_models m') n = None"
      using ab obj_invD(11)[OF i] mo unfolding p by (metis fun_upd_apply option.distinct(1) option.exhaust)
    show "\<forall>t n x. unload_target (mc_pcs m' t) = Some (n, x) \<longrightarrow> map_of (sv_models m') n = Some x"
      using ut unfolding p by (metis fun_upd_apply option.distinct(1))
    show "\<forall>t. distinct (plan_names (mc_pcs m' t)) \<and> unstarted (mc_pcs m' t)" using pn obj_invD(13,14)[OF i] by (auto simp: p)
  qed (use fr ids dk obj_invD(6)[OF i] in auto)
qed

end
