(* ===== verification/Server_Ownership.thy ===== *)
theory Server_Ownership
  imports Server_Lifecycle
begin

text \<open>
  Every step of the server keeps the ownership of its models: publishing, draining, abandoning and unloading hand a model over between a thread and the table and
  lose none.
\<close>

section \<open>Publishing\<close>

lemma absent_edits: "absent p \<noteq> None \<Longrightarrow> editing p" "unload_target p \<noteq> None \<Longrightarrow> editing p"
  by (auto simp: absent_def unload_target_def editing_def split: pc.splits caller.splits)

lemma editing_holds: "editing p \<Longrightarrow> holding p"
  by (auto simp: editing_def holding_def split: pc.splits caller.splits)

lemma drained_holds: "drained p \<Longrightarrow> holding p" "drained p \<Longrightarrow> pending p \<noteq> None"
  by (auto simp: drained_def holding_def pending_def split: pc.splits)

lemma one_holder: "life_inv m \<Longrightarrow> holding (mc_pcs m t) \<Longrightarrow> holding (mc_pcs m u) \<Longrightarrow> t = u"
  using life_invD(10) by fastforce

text \<open>What the ledger or the table takes over from the thread that started the model.\<close>

lemma obj_handover:
  assumes i: "obj_inv m" and p: "mc_pcs m' = (mc_pcs m)(t := p')"
    and f: "fresh (mc_pcs m t) = {x}" "fresh p' = {}" "doomed (mc_pcs m t) = {}" "doomed p' = {}" "\<not> popped p'" "\<not> popped (mc_pcs m t)"
    and mi: "mine p' \<subseteq> insert x (mine (mc_pcs m t))" "mine (mc_pcs m t) \<subseteq> mine p'"
    and s: "table m' \<subseteq> insert x (table m)" "dicts_ok m'" "sv_repository m' = sv_repository m" "mc_live m' = mc_live m" "mc_next m' = mc_next m"
    and x: "x \<in> mine p' \<or> x \<in> table m'" and gone: "\<And>y. y \<in> table m \<Longrightarrow> y \<notin> table m' \<Longrightarrow> \<exists>u. y \<in> mine (mc_pcs m u)"
    and fl: "sv_starting m' = sv_starting m" "sv_generation m' = sv_generation m" and c: "covered m' \<Longrightarrow> covered m \<and> (x \<in> table m' \<longrightarrow> x \<in> mine p')"
    and st: "\<And>u. sv_starting m \<Longrightarrow> claim (mc_pcs m' u) = Some (sv_generation m) \<Longrightarrow> mine (mc_pcs m' u) \<subseteq> table m'"
    and ab: "\<And>u n. absent (mc_pcs m' u) = Some n \<Longrightarrow> map_of (sv_models m') n = None"
    and ut: "\<And>u n y. unload_target (mc_pcs m' u) = Some (n, y) \<Longrightarrow> map_of (sv_models m') n = Some y"
    and pn: "distinct (plan_names p')" "unstarted p'"
  shows "obj_inv m'"
proof -
  note fo = obj_invD(2)[OF i, unfolded fresh_ok_def]
  have xt: "x \<in> fresh (mc_pcs m t)" using f by simp
  have xf: "x \<in> set (mc_live m)" "x \<notin> table m" "x \<notin> mine (mc_pcs m u)" "x \<notin> doomed (mc_pcs m u)" "u \<noteq> t \<Longrightarrow> x \<notin> fresh (mc_pcs m u)" for u
    using fo xt by blast+
  have du: "doomed (mc_pcs m' u) = doomed (mc_pcs m u)" "popped (mc_pcs m' u) = popped (mc_pcs m u)" for u using f by (simp_all add: p)
  have fu: "fresh (mc_pcs m' u) = (if u = t then {} else fresh (mc_pcs m u))" for u using f by (simp add: p)
  have mu: "y \<in> mine (mc_pcs m' u) \<Longrightarrow> y \<in> mine (mc_pcs m u) \<or> y = x \<and> u = t" for u y using mi by (auto simp: p split: if_splits)
  have mk: "mine (mc_pcs m u) \<subseteq> mine (mc_pcs m' u)" for u using mi by (simp add: p)
  have ow: "u \<noteq> t \<Longrightarrow> owned (mc_pcs m' u) = owned (mc_pcs m u)" "owned (mc_pcs m' t) = mine p'" "owned (mc_pcs m t) = insert x (mine (mc_pcs m t))" for u
    using f by (auto simp: p owned_def)
  have fr: "fresh_ok m'" unfolding fresh_ok_def s(4) du fu
  proof (intro allI impI conjI)
    fix u y u' assume y: "y \<in> (if u = t then {} else fresh (mc_pcs m u))"
    then have yu: "u \<noteq> t" "y \<in> fresh (mc_pcs m u)" by (auto split: if_splits)
    then have "y \<noteq> x" using xf(5) by blast
    show "y \<in> set (mc_live m)" and "y \<notin> doomed (mc_pcs m u')" using fo yu by blast+
    show "y \<notin> table m'" using fo yu s(1) \<open>y \<noteq> x\<close> by blast
    show "y \<notin> mine (mc_pcs m' u')" using fo yu mu \<open>y \<noteq> x\<close> by blast
    show "y \<notin> (if u' = t then {} else fresh (mc_pcs m u'))" if "u' \<noteq> u" using fo yu that by auto
  qed
  have ids: "ids_ok m'" unfolding ids_ok_def s(4,5) du fu
  proof (intro conjI allI ballI)
    fix y assume "y \<in> table m' \<union> set (mc_live m)"
    then have "y \<in> table m \<union> set (mc_live m)" using s(1) xf(1) by blast
    then show "mo_id y < mc_next m" using obj_invD(3)[OF i] by (simp add: ids_ok_def)
  next
    fix u y assume "y \<in> mine (mc_pcs m' u) \<union> doomed (mc_pcs m u) \<union> (if u = t then {} else fresh (mc_pcs m u))"
    then have "y \<in> mine (mc_pcs m u) \<union> doomed (mc_pcs m u) \<union> fresh (mc_pcs m u)" using mu xt by (auto split: if_splits)
    then show "mo_id y < mc_next m" using obj_invD(3)[OF i] unfolding ids_ok_def by blast
  qed
  show ?thesis unfolding obj_inv_def s(4) du fl
  proof (intro conjI)
    show "table m' \<subseteq> set (mc_live m)" using s(1) xf(1) obj_invD(4)[OF i] by blast
    show "\<forall>t. doomed (mc_pcs m t) \<inter> table m' = {}" using s(1) xf(4) obj_invD(5)[OF i] by blast
    show "\<forall>t t'. t \<noteq> t' \<longrightarrow> mine (mc_pcs m' t) \<inter> mine (mc_pcs m' t') = {}"
    proof (intro allI impI equals0I)
      fix u u' y assume n: "u \<noteq> u'" and y: "y \<in> mine (mc_pcs m' u) \<inter> mine (mc_pcs m' u')"
      then have "y \<in> mine (mc_pcs m u) \<or> y = x \<and> u = t" "y \<in> mine (mc_pcs m u') \<or> y = x \<and> u' = t" using mu by blast+
      then show False using obj_invD(6)[OF i n] xf(3) n by blast
    qed
    show "covered m' \<longrightarrow> table m' \<subseteq> (\<Union>t. mine (mc_pcs m' t))"
    proof (intro impI subsetI)
      fix y assume cm: "covered m'" and y: "y \<in> table m'"
      show "y \<in> (\<Union>t. mine (mc_pcs m' t))"
      proof (cases "y = x")
        case True
        then have "y \<in> mine (mc_pcs m' t)" using c[OF cm] y by (simp add: p)
        then show ?thesis by blast
      next
        case False
        then have "y \<in> table m" using s(1) y by blast
        then show ?thesis using obj_invD(7)[OF i] c[OF cm] mk by blast
      qed
    qed
    show "set (mc_live m) \<subseteq> table m' \<union> (\<Union>u. owned (mc_pcs m' u))"
    proof
      fix y assume "y \<in> set (mc_live m)"
      then consider "y \<in> table m'" | "y \<in> table m" "y \<notin> table m'" | u where "y \<in> owned (mc_pcs m u)" using obj_invD(9)[OF i] by blast
      then show "y \<in> table m' \<union> (\<Union>u. owned (mc_pcs m' u))"
      proof cases
        case 2
        then obtain u where u: "y \<in> mine (mc_pcs m u)" using gone by blast
        then have "\<not> popped (mc_pcs m u)" using obj_invD(10)[OF i, of u] 2(1) by blast
        then have "y \<in> owned (mc_pcs m' u)" using u mk du(2) by (auto simp: owned_def)
        then show ?thesis by blast
      next
        case 3
        have "y \<in> table m' \<or> y \<in> owned (mc_pcs m' u)"
        proof (cases "u = t")
          case True
          then have "y = x \<or> y \<in> mine (mc_pcs m t)" using 3 ow(3) by simp
          then have "y \<in> table m' \<or> y \<in> mine p'" using x mi(2) by blast
          then show ?thesis unfolding True ow(2) .
        qed (use 3 ow(1) in simp)
        then show ?thesis by blast
      qed simp
    qed
    show "\<forall>t. popped (mc_pcs m t) \<longrightarrow> mine (mc_pcs m' t) \<inter> table m' = {}"
    proof (intro allI impI)
      fix u assume u: "popped (mc_pcs m u)"
      then have "mine (mc_pcs m' u) = mine (mc_pcs m u)" using f by (auto simp: p)
      moreover have "mine (mc_pcs m u) \<inter> insert x (table m) = {}" using obj_invD(10)[OF i u] xf(3)[of u] by blast
      ultimately show "mine (mc_pcs m' u) \<inter> table m' = {}" using s(1) by blast
    qed
    show "\<forall>t. distinct (plan_names (mc_pcs m' t)) \<and> unstarted (mc_pcs m' t)" using pn obj_invD(13,14)[OF i] by (auto simp: p)
    show "\<forall>t n y. unload_target (mc_pcs m' t) = Some (n, y) \<longrightarrow> map_of (sv_models m') n = Some y" using ut by blast
    show "\<forall>t. sv_starting m \<and> claim (mc_pcs m' t) = Some (sv_generation m) \<longrightarrow> mine (mc_pcs m' t) \<subseteq> table m'" using st by blast
    show "\<forall>t n. absent (mc_pcs m' t) = Some n \<longrightarrow> map_of (sv_models m') n = None" using ab by blast
  qed (fact s(2) fr ids)+
qed

lemma table_update:
  assumes "dicts_ok m"
  shows "snd ` set (AList.update (mo_name x) x (sv_models m)) \<subseteq> insert x (table m)" and "x \<in> snd ` set (AList.update (mo_name x) x (sv_models m))"
    and "y \<in> table m \<Longrightarrow> y \<notin> snd ` set (AList.update (mo_name x) x (sv_models m)) \<Longrightarrow> mo_name y = mo_name x"
    and "dicts_ok (m\<lparr>sv_models := AList.update (mo_name x) x (sv_models m)\<rparr>)"
proof -
  have wf: "dict_wf (sv_models m)" and nm: "\<And>n y. (n, y) \<in> set (sv_models m) \<Longrightarrow> mo_name y = n" using assms by (auto simp: dicts_ok_def)
  have mem: "(n, y) \<in> set (AList.update (mo_name x) x (sv_models m)) \<longleftrightarrow> (if n = mo_name x then y = x else (n, y) \<in> set (sv_models m))" for n y
    using dict_mem_update[OF wf] by auto
  show "snd ` set (AList.update (mo_name x) x (sv_models m)) \<subseteq> insert x (table m)" using mem by (force split: if_splits)
  show "x \<in> snd ` set (AList.update (mo_name x) x (sv_models m))" using mem[of "mo_name x" x] by force
  show "y \<in> table m \<Longrightarrow> y \<notin> snd ` set (AList.update (mo_name x) x (sv_models m)) \<Longrightarrow> mo_name y = mo_name x"
    using mem nm by (force split: if_splits)
  show "dicts_ok (m\<lparr>sv_models := AList.update (mo_name x) x (sv_models m)\<rparr>)"
    using assms mem wf by (auto simp: dicts_ok_def split: if_splits)
qed

lemma publish_facts:
  assumes "mc_pcs m t = Publish c x"
  shows "fresh (mc_pcs m t) = {x}" "doomed (mc_pcs m t) = {}" "\<not> popped (mc_pcs m t)"
  using assms by (simp_all add: pc_objects)

lemma covered_moves:
  assumes "mc_pcs m' = (mc_pcs m)(t := p')" and "sv_torn_down m' = sv_torn_down m" and "sv_generation m' = sv_generation m"
    and "claim p' = claim (mc_pcs m t) \<or> claim p' = None" and "drained p' \<Longrightarrow> drained (mc_pcs m t)"
  shows "covered m' \<Longrightarrow> covered m"
  using assms by (auto simp: covered_def split: if_splits)

lemma obj_publish_start:
  assumes l: "life_inv m" and i: "obj_inv m" and at: "mc_pcs m t = Publish (By_Start r) x"
  shows "obj_inv (publish_model t (By_Start r) x m)"
proof -
  define p' where "p' = Load_Next (r\<lparr>rn_mine := rn_mine r @ [x]\<rparr>)"
  define m0 where "m0 = (if sv_generation m = rn_gen r then m\<lparr>sv_models := AList.update (mo_name x) x (sv_models m)\<rparr> else m)"
  let ?m = "publish_model t (By_Start r) x m"
  have e: "?m = goto t p' m0" by (simp add: publish_model_def p'_def m0_def caller_gen_def Let_def)
  have f: "sv_started ?m = sv_started m" "sv_starting ?m = sv_starting m" "sv_torn_down ?m = sv_torn_down m" "sv_generation ?m = sv_generation m"
    "sv_repository ?m = sv_repository m" "mc_live ?m = mc_live m" "mc_next ?m = mc_next m" "sv_models ?m = sv_models m0"
    and p: "mc_pcs ?m = (mc_pcs m)(t := p')" by (simp_all add: e goto_def m0_def)
  have cl: "claim (mc_pcs m t) = Some (rn_gen r)" "claim p' = Some (rn_gen r)" by (simp_all add: at p'_def claim_def)
  have mi: "mine p' = insert x (mine (mc_pcs m t))" by (auto simp: p'_def mine_def run_of_def at)
  have dk: "dicts_ok m" by (rule obj_invD(1)[OF i])
  have names: "distinct (map mo_name (rn_mine r) @ mo_name x # rn_todo r)" using obj_invD(13)[OF i, of t] by (simp add: at plan_names_def)
  have pub: "sv_models ?m = AList.update (mo_name x) x (sv_models m)" if "sv_generation m = rn_gen r" using that f by (simp add: m0_def)
  have kept: "sv_models ?m = sv_models m" if "sv_generation m \<noteq> rn_gen r" using that f by (simp add: m0_def)
  have cov: "covered m" if "sv_generation m = rn_gen r" using that cl by (auto simp: covered_def)
  have noed: "absent (mc_pcs ?m u) = None" "unload_target (mc_pcs ?m u) = None" if "sv_generation m = rn_gen r" for u
  proof -
    have "\<not> editing (mc_pcs m u)" using life_invD(11)[OF l, of u] that cl by (auto simp: settled_def)
    then have "absent (mc_pcs m u) = None" "unload_target (mc_pcs m u) = None" using absent_edits by blast+
    then show "absent (mc_pcs ?m u) = None" "unload_target (mc_pcs ?m u) = None" by (simp_all add: p p'_def absent_def unload_target_def)
  qed
  have cvm: "covered ?m \<Longrightarrow> covered m" by (rule covered_moves[OF p f(3,4)]) (simp_all add: cl[unfolded p'_def] p'_def drained_def)
  show ?thesis
  proof (rule obj_handover[OF i p publish_facts(1)[OF at] _ publish_facts(2)[OF at] _ _ publish_facts(3)[OF at] _ _ _ _ f(5-7)])
    show "fresh p' = {}" "doomed p' = {}" "\<not> popped p'" "unstarted p'" "mine p' \<subseteq> insert x (mine (mc_pcs m t))" "mine (mc_pcs m t) \<subseteq> mine p'"
      "x \<in> mine p' \<or> x \<in> table ?m"
      using mi by (auto simp: p'_def fresh_def doomed_def popped_def unstarted_def)
    show "distinct (plan_names p')" using names by (simp add: p'_def plan_names_def)
    show "table ?m \<subseteq> insert x (table m)"
      using table_update(1)[OF dk, of x] pub kept by (cases "sv_generation m = rn_gen r") auto
    show "dicts_ok ?m"
      using table_update(4)[OF dk, of x] dk f(5) pub kept by (cases "sv_generation m = rn_gen r") (simp_all add: dicts_ok_def)
    show "\<exists>u. y \<in> mine (mc_pcs m u)" if "y \<in> table m" "y \<notin> table ?m" for y
      using that kept cov obj_invD(7)[OF i] by (cases "sv_generation m = rn_gen r") (blast, simp)
    show "sv_starting ?m = sv_starting m" "sv_generation ?m = sv_generation m" by (fact f)+
    show "covered m \<and> (x \<in> table ?m \<longrightarrow> x \<in> mine p')" if "covered ?m" using cvm[OF that] mi by blast
    show "mine (mc_pcs ?m u) \<subseteq> table ?m" if s: "sv_starting m" and c: "claim (mc_pcs ?m u) = Some (sv_generation m)" for u
    proof (cases "sv_generation m = rn_gen r")
      case True
      then have u: "u = t" using life_invD(9)[OF l, of t "rn_gen r" u] c cl by (cases "u = t") (auto simp: p)
      have old: "set (rn_mine r) \<subseteq> table m" using obj_invD(8)[OF i s, of t] cl(1) True by (simp add: at mine_def run_of_def)
      have "y \<in> table ?m" if y: "y \<in> set (rn_mine r)" for y
      proof (rule ccontr)
        assume "y \<notin> table ?m"
        then have "mo_name y = mo_name x" using table_update(3)[OF dk, of y x] y old pub[OF True] by auto
        then have "mo_name x \<in> mo_name ` set (rn_mine r)" using y by (metis image_eqI)
        then show False using names by simp
      qed
      moreover have "x \<in> table ?m" using table_update(2)[of m x, OF dk] pub[OF True] by simp
      ultimately show ?thesis using u by (auto simp: p p'_def mine_def run_of_def)
    next
      case False
      then have "u \<noteq> t" using c cl by (auto simp: p)
      then show ?thesis using obj_invD(8)[OF i s, of u] c kept[OF False] by (simp add: p)
    qed
    show "map_of (sv_models ?m) n = None" if "absent (mc_pcs ?m u) = Some n" for u n
      using that noed[of u] obj_invD(11)[OF i, of u n] kept
      by (cases "sv_generation m = rn_gen r"; cases "u = t") (simp_all add: p p'_def absent_def)
    show "map_of (sv_models ?m) n = Some y" if "unload_target (mc_pcs ?m u) = Some (n, y)" for u n y
      using that noed[of u] obj_invD(12)[OF i, of u n y] kept
      by (cases "sv_generation m = rn_gen r"; cases "u = t") (simp_all add: p p'_def unload_target_def)
  qed
qed

lemma obj_publish_load:
  assumes l: "life_inv m" and i: "obj_inv m" and at: "mc_pcs m t = Publish (By_Load g) x"
  shows "obj_inv (publish_model t (By_Load g) x m)"
proof -
  let ?m = "publish_model t (By_Load g) x m" and ?p = "Unlock (Found x)"
  have g: "sv_generation m = g" using life_invD(12)[OF l, of t g] by (simp add: at edit_gen_def)
  have st: "settled m" using life_invD(11)[OF l, of t] by (simp add: at editing_def)
  have f: "sv_starting ?m = sv_starting m" "sv_generation ?m = sv_generation m" "sv_torn_down ?m = sv_torn_down m"
    "sv_repository ?m = sv_repository m" "mc_live ?m = mc_live m" "mc_next ?m = mc_next m"
    and md: "sv_models ?m = AList.update (mo_name x) x (sv_models m)"
    and p: "mc_pcs ?m = (mc_pcs m)(t := ?p)" by (simp_all add: publish_model_def caller_gen_def g goto_def)
  have dk: "dicts_ok m" by (rule obj_invD(1)[OF i])
  have new: "map_of (sv_models m) (mo_name x) = None" using obj_invD(11)[OF i, of t] by (simp add: at absent_def)
  have me: "holding (mc_pcs m t)" by (simp add: at holding_def)
  have others: "u \<noteq> t \<Longrightarrow> \<not> holding (mc_pcs m u)" for u using one_holder[OF l me, of u] by blast
  have quiet: "absent (mc_pcs ?m u) = None" "unload_target (mc_pcs ?m u) = None" "\<not> drained (mc_pcs ?m u)" for u
  proof -
    have "u \<noteq> t \<Longrightarrow> \<not> editing (mc_pcs m u) \<and> \<not> drained (mc_pcs m u)" using others[of u] editing_holds drained_holds(1) by blast
    then have "u \<noteq> t \<Longrightarrow> absent (mc_pcs m u) = None \<and> unload_target (mc_pcs m u) = None \<and> \<not> drained (mc_pcs m u)" using absent_edits by blast
    then show "absent (mc_pcs ?m u) = None" "unload_target (mc_pcs ?m u) = None" "\<not> drained (mc_pcs ?m u)"
      by (simp_all add: p absent_def unload_target_def drained_def)
  qed
  have nocl: "claim (mc_pcs ?m u) \<noteq> Some (sv_generation m)" for u using st by (simp add: p claim_def settled_def)
  have ncov: "\<not> covered ?m" using st quiet(3) nocl by (auto simp: covered_def settled_def f)
  show ?thesis
  proof (rule obj_handover[OF i p publish_facts(1)[OF at] _ publish_facts(2)[OF at] _ _ publish_facts(3)[OF at] _ _ _ _ f(4-6)])
    show "fresh ?p = {}" "doomed ?p = {}" "\<not> popped ?p" "unstarted ?p" "mine ?p \<subseteq> insert x (mine (mc_pcs m t))" "mine (mc_pcs m t) \<subseteq> mine ?p"
      "distinct (plan_names ?p)" by (simp_all add: pc_objects at)
    show "table ?m \<subseteq> insert x (table m)" unfolding md by (rule table_update(1)[OF dk])
    show "dicts_ok ?m" using table_update(4)[OF dk, of x] by (simp add: dicts_ok_def md f)
    show "x \<in> mine ?p \<or> x \<in> table ?m" unfolding md using table_update(2)[OF dk] by blast
    show "\<exists>u. y \<in> mine (mc_pcs m u)" if y: "y \<in> table m" "y \<notin> table ?m" for y
    proof -
      have "mo_name y = mo_name x" using table_update(3)[OF dk y(1)] y(2) unfolding md by blast
      then show ?thesis using y(1) table_entry[OF dk, of y] new by simp
    qed
    show "sv_starting ?m = sv_starting m" "sv_generation ?m = sv_generation m" by (fact f)+
    show "covered m \<and> (x \<in> table ?m \<longrightarrow> x \<in> mine ?p)" if "covered ?m" using that ncov by blast
    show "mine (mc_pcs ?m u) \<subseteq> table ?m" if "sv_starting m" for u using that st by (simp add: settled_def)
    show "map_of (sv_models ?m) n = None" if "absent (mc_pcs ?m u) = Some n" for u n using that quiet[of u] by simp
    show "map_of (sv_models ?m) n = Some y" if "unload_target (mc_pcs ?m u) = Some (n, y)" for u n y using that quiet[of u] by simp
  qed
qed

section \<open>Every step keeps the ownership\<close>

definition same_objs :: "machine \<Rightarrow> machine \<Rightarrow> bool" where
  "same_objs m m0 \<longleftrightarrow> sv_models m0 = sv_models m \<and> mc_live m0 = mc_live m \<and> mc_next m \<le> mc_next m0 \<and> dicts_ok m0 \<and>
     sv_starting m0 = sv_starting m \<and> sv_generation m0 = sv_generation m \<and> sv_torn_down m0 = sv_torn_down m \<and> mc_pcs m0 = mc_pcs m"

definition quiet_objs :: "machine \<Rightarrow> pc \<Rightarrow> pc \<Rightarrow> bool" where
  "quiet_objs m p p' \<longleftrightarrow> fresh p' = fresh p \<and> doomed p' = doomed p \<and> owned p \<subseteq> owned p' \<and> (mine p' = mine p \<or> mine p' = {} \<and> popped p) \<and>
     (claim p' = claim p \<or> claim p' = None) \<and> (drained p' \<longrightarrow> drained p) \<and> (popped p' \<longrightarrow> popped p) \<and>
     (\<forall>n. absent p' = Some n \<longrightarrow> map_of (sv_models m) n = None) \<and> (\<forall>n x. unload_target p' = Some (n, x) \<longrightarrow> map_of (sv_models m) n = Some x) \<and>
     distinct (plan_names p') \<and> unstarted p'"

lemma objs_moves:
  assumes i: "obj_inv m" and s: "same_objs m m0" and q: "quiet_objs m (mc_pcs m t) p'"
  shows "obj_inv (goto t p' m0)" and "p' = Idle \<Longrightarrow> obj_inv (leave t r m0)"
proof -
  have "obj_inv m'" if p: "mc_pcs m' = (mc_pcs m)(t := p')" and f: "sv_models m' = sv_models m" "mc_live m' = mc_live m" "mc_next m \<le> mc_next m'"
    "sv_repository m' = sv_repository m0" "sv_starting m' = sv_starting m" "sv_generation m' = sv_generation m" "sv_torn_down m' = sv_torn_down m" for m'
  proof (rule obj_quiet[OF i p f(1-3)])
    have c: "claim p' = claim (mc_pcs m t) \<or> claim p' = None" "drained p' \<Longrightarrow> drained (mc_pcs m t)" using q by (auto simp: quiet_objs_def)
    show "dicts_ok m'" using s f unfolding same_objs_def dicts_ok_def by metis
    show "covered m" if "covered m'" by (rule covered_moves[OF p f(7,6) c that])
    show "mine p' = mine (mc_pcs m t) \<or> mine p' = {} \<and> (covered m' \<longrightarrow> mine (mc_pcs m t) \<inter> table m = {})"
      using q obj_invD(10)[OF i, of t] by (auto simp: quiet_objs_def)
    show "sv_starting m \<and> claim (mc_pcs m u) = Some (sv_generation m) \<or> mine (mc_pcs m' u) = {}"
      if "sv_starting m'" "claim (mc_pcs m' u) = Some (sv_generation m')" for u
      using that c(1) f by (cases "u = t") (auto simp: p)
  qed (use q in \<open>auto simp: quiet_objs_def\<close>)
  then show "obj_inv (goto t p' m0)" and "p' = Idle \<Longrightarrow> obj_inv (leave t r m0)"
    using s by (auto simp: same_objs_def goto_def leave_def)
qed

lemmas objs_goto = objs_moves(1)
lemmas objs_leave = objs_moves(2)[OF _ _ _ refl]

lemma repo_index_wf: "dict_wf (repo_index entries)"
proof -
  have "dict_wf d \<Longrightarrow> dict_wf (fold (\<lambda>(n, a) d. AList.update n a d) es d)" for es and d :: repository
    by (induction es arbitrary: d) auto
  then show ?thesis by (simp add: repo_index_def)
qed

lemma outside_objs [simp]:
  "sv_models (stop_object x m) = sv_models m" "sv_repository (stop_object x m) = sv_repository m" "mc_next (stop_object x m) = mc_next m"
  "mc_live (stop_object x m) = filter (\<lambda>y. y \<noteq> x) (mc_live m)"
  "sv_models (close_sink s m) = sv_models m" "sv_repository (close_sink s m) = sv_repository m" "mc_next (close_sink s m) = mc_next m"
  "mc_live (close_sink s m) = mc_live m"
  "sv_models (stop_mesh i m) = sv_models m" "sv_repository (stop_mesh i m) = sv_repository m" "mc_next (stop_mesh i m) = mc_next m"
  "mc_live (stop_mesh i m) = mc_live m"
  "sv_models (let_control m) = sv_models m" "sv_repository (let_control m) = sv_repository m" "mc_next (let_control m) = mc_next m"
  "mc_live (let_control m) = mc_live m"
  by (auto simp: stop_object_def close_sink_def stop_mesh_def let_control_def split: sink.splits)

text \<open>\<^verbatim>\<open>_release_models\<close> takes out of the table exactly the objects of the ledger.\<close>

lemma release_entries:
  assumes "dict_wf d" and "\<forall>n y. (n, y) \<in> set d \<longrightarrow> mo_name y = n"
  shows "dict_wf (fold release_entry xs d) \<and> set (fold release_entry xs d) = {(n, y). (n, y) \<in> set d \<and> y \<notin> set xs}"
  using assms
proof (induction xs arbitrary: d)
  case (Cons x xs)
  have w: "dict_wf (release_entry x d)" using Cons.prems(1) by (simp add: release_entry_def)
  have e: "set (release_entry x d) = {(n, y). (n, y) \<in> set d \<and> y \<noteq> x}"
  proof (cases "map_of d (mo_name x) = Some x")
    case True
    then have "(mo_name x, y) \<in> set d \<longleftrightarrow> y = x" for y using Cons.prems(1) by (metis dict_get_iff option.inject)
    then show ?thesis using True Cons.prems(2) by (auto simp: release_entry_def dict_mem_delete)
  next
    case False
    then have "(n, x) \<notin> set d" for n using Cons.prems by (metis dict_get_iff)
    then show ?thesis using False by (auto simp: release_entry_def)
  qed
  show ?case using Cons.IH[OF w] Cons.prems(2) e by auto
qed simp

lemma obj_abandon_pop:
  assumes l: "life_inv m" and i: "obj_inv m" and at: "mc_pcs m t = Abandon_Pop r"
  shows "obj_inv (abandon_pop t r m)"
proof -
  let ?m = "abandon_pop t r m" and ?p = "Abandon_Stop r (rev (rn_mine r))"
  have p: "mc_pcs ?m = (mc_pcs m)(t := ?p)" by (simp add: abandon_pop_def goto_def)
  have mi: "mine (mc_pcs m t) = set (rn_mine r)" by (simp add: at mine_def run_of_def)
  have e: "dict_wf (sv_models ?m)" "set (sv_models ?m) = {(n, y). (n, y) \<in> set (sv_models m) \<and> y \<notin> set (rn_mine r)}"
    using release_entries[of "sv_models m" "rn_mine r"] obj_invD(1)[OF i] by (simp_all add: abandon_pop_def goto_def dicts_ok_def)
  then have tb: "table ?m = table m - set (rn_mine r)" by force
  have f: "sv_repository ?m = sv_repository m" "mc_live ?m = mc_live m" "mc_next ?m = mc_next m" "sv_starting ?m = sv_starting m"
    "sv_generation ?m = sv_generation m" "sv_torn_down ?m = sv_torn_down m" by (simp_all add: abandon_pop_def goto_def)
  have me: "holding (mc_pcs m t)" by (simp add: at holding_def)
  show ?thesis
  proof (rule obj_remove[OF i p _ e(1) f(1-5)])
    show "set (sv_models ?m) \<subseteq> set (sv_models m)" using e by auto
    show "covered m \<or> sv_models ?m = []" if "covered ?m" using covered_moves[OF p f(6,5) _ _ that] by (simp add: claim_def drained_def)
    show "table m \<union> owned (mc_pcs m t) \<subseteq> table ?m \<union> owned ?p" unfolding tb by (auto simp: pc_objects at)
    show "mine (mc_pcs m u) \<inter> table m \<subseteq> table ?m" if "u \<noteq> t" for u using obj_invD(6)[OF i that] mi unfolding tb by blast
    show "unload_target (mc_pcs m u) = None" if "u \<noteq> t" for u
      using one_holder[OF l me, of u] that absent_edits(2)[of "mc_pcs m u"] editing_holds by blast
  qed (auto simp: tb pc_objects at claim_def)
qed

lemma obj_unload_pop:
  assumes l: "life_inv m" and i: "obj_inv m" and at: "mc_pcs m t = Unload_Pop n x"
  shows "obj_inv (unload_pop t n x m)"
proof -
  let ?m = "unload_pop t n x m" and ?p = "Unload_Stop x"
  have p: "mc_pcs ?m = (mc_pcs m)(t := ?p)" by (simp add: unload_pop_def goto_def)
  have x: "map_of (sv_models m) n = Some x" using obj_invD(12)[OF i, of t] by (simp add: at unload_target_def)
  have wf: "dict_wf (sv_models m)" "\<And>k y. (k, y) \<in> set (sv_models m) \<Longrightarrow> mo_name y = k" using obj_invD(1)[OF i] by (auto simp: dicts_ok_def)
  have one: "(n, y) \<in> set (sv_models m) \<longleftrightarrow> y = x" for y using x dict_get_iff[OF wf(1)] by (metis option.inject)
  have e: "set (sv_models ?m) = {(k, y). (k, y) \<in> set (sv_models m) \<and> k \<noteq> n}" by (auto simp: unload_pop_def goto_def dict_mem_delete)
  have tb: "table ?m = table m - {x}"
  proof (rule set_eqI)
    fix y show "y \<in> table ?m \<longleftrightarrow> y \<in> table m - {x}"
    proof
      assume "y \<in> table ?m"
      then obtain k where k: "(k, y) \<in> set (sv_models m)" "k \<noteq> n" using e by auto
      then have "y \<noteq> x" using wf(2)[of k y] wf(2)[of n x] one by auto
      then show "y \<in> table m - {x}" using k by force
    next
      assume "y \<in> table m - {x}"
      then obtain k where k: "(k, y) \<in> set (sv_models m)" "y \<noteq> x" by auto
      then have "(k, y) \<in> set (sv_models ?m)" using one e by auto
      then show "y \<in> table ?m" by force
    qed
  qed
  have f: "sv_repository ?m = sv_repository m" "mc_live ?m = mc_live m" "mc_next ?m = mc_next m" "sv_starting ?m = sv_starting m"
    "sv_generation ?m = sv_generation m" "sv_torn_down ?m = sv_torn_down m" by (simp_all add: unload_pop_def goto_def)
  have st: "settled m" using life_invD(11)[OF l, of t] by (simp add: at editing_def)
  have me: "holding (mc_pcs m t)" by (simp add: at holding_def)
  show ?thesis
  proof (rule obj_remove[OF i p _ _ f(1-5)])
    show "set (sv_models ?m) \<subseteq> set (sv_models m)" using e by auto
    show "dict_wf (sv_models ?m)" using wf(1) by (simp add: unload_pop_def goto_def)
    show "covered m \<or> sv_models ?m = []" if "covered ?m" using covered_moves[OF p f(6,5) _ _ that] by (simp add: claim_def drained_def)
    show "table m \<union> owned (mc_pcs m t) \<subseteq> table ?m \<union> owned ?p" unfolding tb by (auto simp: pc_objects at)
    show "doomed ?p \<subseteq> table m \<union> mine (mc_pcs m t)" using one by (force simp: doomed_def)
    show "mine (mc_pcs m u) \<inter> table m \<subseteq> table ?m" if "sv_starting m" for u using st that by (simp add: settled_def)
    show "unload_target (mc_pcs m u) = None" if "u \<noteq> t" for u
      using one_holder[OF l me, of u] that absent_edits(2)[of "mc_pcs m u"] editing_holds by blast
  qed (auto simp: tb pc_objects at claim_def)
qed

lemma obj_drain:
  assumes l: "life_inv m" and i: "obj_inv m" and at: "mc_pcs m t = Tear g cont Drain"
  shows "obj_inv (tear_step t ok g cont Drain m)"
proof -
  let ?m = "tear_step t ok g cont Drain m" and ?p = "Tear g cont (Stop_Drained (rev (map snd (sv_models m))))"
  have p: "mc_pcs ?m = (mc_pcs m)(t := ?p)" and e: "sv_models ?m = []" by (simp_all add: tear_step_def goto_def)
  have f: "sv_repository ?m = sv_repository m" "mc_live ?m = mc_live m" "mc_next ?m = mc_next m" "sv_starting ?m = sv_starting m"
    "sv_generation ?m = sv_generation m" by (simp_all add: tear_step_def goto_def)
  have n: "\<not> sv_starting m" using life_invD(5)[OF l, of t g] by (simp add: at pending_def)
  have me: "holding (mc_pcs m t)" by (simp add: at holding_def)
  show ?thesis
  proof (rule obj_remove[OF i p _ _ f])
    show "unload_target (mc_pcs m u) = None" if "u \<noteq> t" for u
      using one_holder[OF l me, of u] that absent_edits(2)[of "mc_pcs m u"] editing_holds by blast
  qed (use n in \<open>auto simp: e pc_objects at claim_def\<close>)
qed

lemma covered_same:
  assumes "mc_pcs m' = (mc_pcs m)(t := p')" and "sv_torn_down m' = sv_torn_down m" and "sv_generation m' = sv_generation m"
    and "claim p' = claim (mc_pcs m t)" and "drained p' = drained (mc_pcs m t)"
  shows "covered m' = covered m"
proof -
  have "claim (mc_pcs m' u) = claim (mc_pcs m u)" "drained (mc_pcs m' u) = drained (mc_pcs m u)" for u using assms by simp_all
  then show ?thesis by (simp add: covered_def assms)
qed

text \<open>A thread stops a model of its own and moves on.\<close>

definition stop_moves :: "model_obj \<Rightarrow> pc \<Rightarrow> pc \<Rightarrow> bool" where
  "stop_moves x p p' \<longleftrightarrow> (x \<in> doomed p \<and> fresh p = {} \<or> fresh p = {x}) \<and> fresh p' = {} \<and> doomed p' \<subseteq> doomed p \<and> mine p' = mine p \<and>
     popped p' = popped p \<and> owned p \<subseteq> insert x (owned p') \<and> claim p' = claim p \<and> drained p' = drained p \<and> absent p' = None \<and> unload_target p' = None \<and>
     distinct (plan_names p') \<and> unstarted p'"

lemma obj_stop_goto:
  assumes i: "obj_inv m" and s: "stop_moves x (mc_pcs m t) p'"
  shows "obj_inv (goto t p' (stop_object x m))"
proof (rule obj_stop[OF i])
  let ?m = "goto t p' (stop_object x m)"
  show p: "mc_pcs ?m = (mc_pcs m)(t := p')" by (simp add: goto_def)
  show "covered ?m = covered m" using s by (intro covered_same[OF p]) (simp_all add: stop_moves_def goto_def)
qed (insert s[unfolded stop_moves_def], (elim conjE, simp add: goto_def)+)

lemma obj_call: "obj_inv m \<Longrightarrow> mc_pcs m t = Idle \<Longrightarrow> obj_inv (goto t (call_pc c) m)"
  by (rule objs_goto[of m])
    (auto simp: same_objs_def quiet_objs_def call_pc_def pc_objects claim_def obj_invD(1) split: pool_call.splits)

lemma obj_record: "obj_inv m \<Longrightarrow> obj_inv (m\<lparr>mc_counts := f\<rparr>)"
  by (simp add: obj_inv_def dicts_ok_def fresh_ok_def ids_ok_def covered_def)

lemma obj_init: "obj_inv init_server"
  by (simp add: obj_inv_def init_server_def dicts_ok_def fresh_ok_def ids_ok_def pc_objects)

lemma obj_begin:
  assumes l: "life_inv m" and i: "obj_inv m" and at: "mc_pcs m t = Begin w"
  shows "obj_inv (begin_start t w m)"
proof (cases "\<not> sv_started m \<and> \<not> sv_starting m \<and> sv_torn_down m")
  case True
  let ?m = "begin_start t w m" and ?p = "Build_Sink (Suc (sv_generation m))"
  have e: "?m = goto t ?p (m\<lparr>sv_generation := Suc (sv_generation m), sv_starting := True, sv_torn_down := False\<rparr>)"
    using True by (simp add: begin_start_def)
  have p: "mc_pcs ?m = (mc_pcs m)(t := ?p)" and f: "sv_models ?m = sv_models m" "mc_live ?m = mc_live m" "mc_next m \<le> mc_next ?m"
    "sv_generation ?m = Suc (sv_generation m)" "sv_repository ?m = sv_repository m" by (simp_all add: e goto_def)
  show ?thesis
  proof (rule obj_quiet[OF i p f(1-3)])
    show "dicts_ok ?m" using obj_invD(1)[OF i] by (simp add: dicts_ok_def f)
    show "covered m" if "covered ?m" using True by (simp add: covered_def)
    show "sv_starting m \<and> claim (mc_pcs m u) = Some (sv_generation m) \<or> mine (mc_pcs ?m u) = {}"
      if "claim (mc_pcs ?m u) = Some (sv_generation ?m)" for u
      using that life_invD(7)[OF l, of u "Suc (sv_generation m)"] by (cases "u = t") (auto simp: p f pc_objects)
  qed (auto simp: pc_objects at)
next
  case False
  then show ?thesis
    by (auto simp: begin_start_def same_objs_def quiet_objs_def at pc_objects claim_def obj_invD(1)[OF i] intro!: objs_goto[OF i] objs_leave[OF i])
qed

lemma obj_finish:
  assumes l: "life_inv m" and i: "obj_inv m" and at: "mc_pcs m t = Finish r"
  shows "obj_inv (finish_start t r m)"
proof (cases "sv_generation m = rn_gen r \<and> sv_starting m")
  case True
  let ?m = "finish_start t r m"
  have p: "mc_pcs ?m = (mc_pcs m)(t := Idle)" and f: "sv_models ?m = sv_models m" "mc_live ?m = mc_live m" "mc_next m \<le> mc_next ?m"
    "sv_generation ?m = sv_generation m" "sv_repository ?m = sv_repository m" "sv_torn_down ?m = sv_torn_down m" "\<not> sv_starting ?m"
    using True by (auto simp: finish_start_def leave_def split: option.splits)
  have mine: "claim (mc_pcs m t) = Some (sv_generation m)" using True by (simp add: at claim_def)
  have "\<not> sv_torn_down m" using life_invD(2)[OF l] True by blast
  moreover have "claim (mc_pcs ?m u) \<noteq> Some (sv_generation m)" for u using life_invD(9)[OF l mine, of u] by (auto simp: p claim_def)
  moreover have "\<not> drained (mc_pcs ?m u)" for u
  proof -
    have "pending (mc_pcs m u) = None" using life_invD(5)[OF l, of u] True by (cases "pending (mc_pcs m u)") auto
    then show ?thesis using drained_holds(2)[of "mc_pcs m u"] by (auto simp: p drained_def)
  qed
  ultimately have n: "\<not> covered ?m" by (auto simp: covered_def f)
  have mt: "mine (mc_pcs m t) \<subseteq> table m" using obj_invD(8)[OF i _ mine] True by blast
  show ?thesis
  proof (rule obj_quiet[OF i p f(1-3)])
    show "dicts_ok ?m" using obj_invD(1)[OF i] by (simp add: dicts_ok_def f)
    show "owned (mc_pcs m t) \<subseteq> owned Idle \<union> table m" using mt by (auto simp: at pc_objects)
  qed (use n f(7) in \<open>auto simp: pc_objects at\<close>)
next
  case False
  then show ?thesis
    using i by (auto simp: finish_start_def same_objs_def quiet_objs_def at pc_objects claim_def obj_invD(1)[OF i] intro!: objs_goto[OF i])
qed

lemma obj_stop_run:
  assumes i: "obj_inv m" and at: "mc_pcs m t = Stop_Run g cont"
  shows "obj_inv (stop_run t g cont m)"
proof (cases "(g = None \<or> g = Some (sv_generation m)) \<and> \<not> is_stopping m")
  case True
  let ?m = "stop_run t g cont m" and ?p = "Stop_Lock (sv_generation m) cont"
  have e: "?m = goto t ?p (m\<lparr>sv_started := False, sv_starting := False\<rparr>)" using True by (auto simp: stop_run_def)
  have p: "mc_pcs ?m = (mc_pcs m)(t := ?p)" and f: "sv_models ?m = sv_models m" "mc_live ?m = mc_live m" "mc_next m \<le> mc_next ?m"
    "sv_generation ?m = sv_generation m" "sv_repository ?m = sv_repository m" "sv_torn_down ?m = sv_torn_down m" "\<not> sv_starting ?m"
    by (simp_all add: e goto_def)
  show ?thesis
  proof (rule obj_quiet[OF i p f(1-3)])
    show "dicts_ok ?m" using obj_invD(1)[OF i] by (simp add: dicts_ok_def f)
    show "covered m" if "covered ?m" using covered_moves[OF p f(6,4) _ _ that] by (simp add: claim_def drained_def)
  qed (use f(7) in \<open>auto simp: pc_objects at\<close>)
next
  case False
  then show ?thesis
    by (auto simp: stop_run_def is_stopping_def after_stop_def same_objs_def quiet_objs_def at pc_objects claim_def obj_invD(1)[OF i] split: option.splits
        intro!: objs_goto[OF i] objs_leave[OF i])
qed

lemma obj_barrier:
  assumes l: "life_inv m" and i: "obj_inv m" and at: "mc_pcs m t = Tear g cont Set_Barrier"
  shows "obj_inv (tear_step t ok g cont Set_Barrier m)"
proof -
  let ?m = "tear_step t ok g cont Set_Barrier m" and ?p = "Tear g cont Let_Control"
  have p: "mc_pcs ?m = (mc_pcs m)(t := ?p)" and f: "sv_models ?m = sv_models m" "mc_live ?m = mc_live m" "mc_next m \<le> mc_next ?m"
    "sv_starting ?m = sv_starting m" "sv_repository ?m = sv_repository m" by (simp_all add: tear_step_def goto_def)
  have n: "\<not> sv_starting m" using life_invD(5)[OF l, of t g] by (simp add: at pending_def)
  have "drained (mc_pcs m t)" by (simp add: at drained_def)
  then have "covered m" by (auto simp: covered_def)
  then show ?thesis
    using n by (intro obj_quiet[OF i p f(1-3)]) (use obj_invD(1)[OF i] in \<open>auto simp: pc_objects at f dicts_ok_def\<close>)
qed

lemma obj_tear:
  assumes l: "life_inv m" and i: "obj_inv m" and at: "mc_pcs m t = Tear g cont st"
  shows "obj_inv (tear_step t ok g cont st m)"
proof (cases st)
  case Drain
  then show ?thesis using obj_drain[OF l i, of t g cont ok] at by simp
next
  case Set_Barrier
  then show ?thesis using obj_barrier[OF l i, of t g cont ok] at by simp
next
  case Stale_Check
  then have "g = sv_generation m" using life_invD(5)[OF l, of t g] at by (simp add: pending_def)
  then show ?thesis using Stale_Check
    by (auto simp: tear_step_def same_objs_def quiet_objs_def at pc_objects claim_def obj_invD(1)[OF i] intro!: objs_goto[OF i])
next
  case (Stop_Drained xs)
  show ?thesis
  proof (cases xs)
    case (Cons x xs')
    have "stop_moves x (mc_pcs m t) (Tear g cont (Stop_Drained xs'))" by (auto simp: stop_moves_def at Stop_Drained Cons pc_objects claim_def)
    then show ?thesis using obj_stop_goto[OF i] by (simp add: tear_step_def Stop_Drained Cons)
  qed (auto simp: tear_step_def Stop_Drained same_objs_def quiet_objs_def at pc_objects claim_def obj_invD(1)[OF i] intro!: objs_goto[OF i])
qed (use obj_invD(1)[OF i] in \<open>auto simp: tear_step_def same_objs_def quiet_objs_def at pc_objects claim_def after_stop_def dicts_ok_def
    intro!: objs_goto[OF i] objs_leave[OF i] split: option.splits\<close>)

lemma load_raised_cases:
  "load_raised cfg t c m = goto t (case c of By_Start r \<Rightarrow> if ps_strict cfg then Stop_Run (Some (rn_gen r)) (Some (r\<lparr>rn_error := Load_Failed\<rparr>)) else Skip r
     | By_Load g \<Rightarrow> Unlock (Raised Load_Failed)) m"
  by (simp add: load_raised_def start_failed_def split: caller.splits)

lemma obj_failed:
  assumes i: "obj_inv m" and at: "mc_pcs m t = Model_Failed c x"
  shows "obj_inv (load_raised cfg t c (stop_object x m))"
  unfolding load_raised_cases
proof (rule obj_stop_goto[OF i])
  have "distinct (plan_names (Model_Failed c x))" using obj_invD(13)[OF i, of t] at by simp
  then show "stop_moves x (mc_pcs m t) (case c of By_Start r \<Rightarrow> if ps_strict cfg then Stop_Run (Some (rn_gen r)) (Some (r\<lparr>rn_error := Load_Failed\<rparr>)) else Skip r
     | By_Load g \<Rightarrow> Unlock (Raised Load_Failed))"
    by (auto simp: stop_moves_def at pc_objects claim_def split: caller.splits)
qed

lemma obj_build:
  assumes i: "obj_inv m" and at: "mc_pcs m t = Building c n"
  shows "obj_inv (build_model cfg t ok c n m)"
proof -
  have pn: "distinct (plan_names (Building c n))" "absent (Building c n) = Some k \<Longrightarrow> map_of (sv_models m) k = None" for k
    using obj_invD(11,13)[OF i, of t] at by simp_all
  have quiet: "obj_inv (load_raised cfg t c m)"
    using pn by (auto simp: load_raised_cases same_objs_def quiet_objs_def at pc_objects claim_def obj_invD(1)[OF i] intro!: objs_goto[OF i] split: caller.splits)
  have "obj_inv (goto t (Model_Starting c x k) (m\<lparr>mc_next := Suc (mc_next m), mc_live := x # mc_live m\<rparr>))"
    if "mo_id x = mc_next m" "mo_name x = n" for x k
  proof (rule obj_new[OF i])
    let ?m = "goto t (Model_Starting c x k) (m\<lparr>mc_next := Suc (mc_next m), mc_live := x # mc_live m\<rparr>)"
    show p: "mc_pcs ?m = (mc_pcs m)(t := Model_Starting c x k)" by (simp add: goto_def)
    show "covered ?m = covered m" by (rule covered_same[OF p]) (auto simp: goto_def at claim_def drained_def split: caller.splits)
  qed (use that pn in \<open>auto simp: goto_def at pc_objects claim_def split: caller.splits\<close>)
  then show ?thesis using quiet by (auto simp: build_model_def Let_def split: option.splits)
qed

lemma objs_step:
  assumes l: "life_inv m" and i: "obj_inv m" and names: "distinct (ps_startup cfg)"
  shows "obj_inv (pool_step cfg t ok repo m)"
proof -
  note d = obj_invD(1)[OF i]
  have keep: "p = mc_pcs m t \<Longrightarrow> distinct (plan_names p) \<and> unstarted p" "\<And>n. absent (mc_pcs m t) = Some n \<Longrightarrow> map_of (sv_models m) n = None"
    "\<And>n x. unload_target (mc_pcs m t) = Some (n, x) \<Longrightarrow> map_of (sv_models m) n = Some x" for p
    using obj_invD(11,12,13,14)[OF i, of t] by auto
  show ?thesis
  proof (cases "mc_pcs m t")
    case (Begin w) then show ?thesis using obj_begin[OF l i Begin] by (simp add: pool_step_def)
  next
    case (Finish r) then show ?thesis using obj_finish[OF l i Finish] by (simp add: pool_step_def)
  next
    case (Publish c x)
    then show ?thesis using obj_publish_start[OF l i, of t] obj_publish_load[OF l i, of t] by (cases c) (simp_all add: pool_step_def)
  next
    case (Stop_Run g cont) then show ?thesis using obj_stop_run[OF i Stop_Run] by (simp add: pool_step_def)
  next
    case (Tear g cont st) then show ?thesis using obj_tear[OF l i Tear] by (simp add: pool_step_def)
  next
    case (Model_Failed c x) then show ?thesis using obj_failed[OF i Model_Failed] by (simp add: pool_step_def)
  next
    case (Building c n) then show ?thesis using obj_build[OF i Building] by (simp add: pool_step_def)
  next
    case (Abandon_Pop r) then show ?thesis using obj_abandon_pop[OF l i Abandon_Pop] by (simp add: pool_step_def)
  next
    case (Unload_Pop n x) then show ?thesis using obj_unload_pop[OF l i Unload_Pop] by (simp add: pool_step_def)
  next
    case (Unload_Stop x)
    have "stop_moves x (mc_pcs m t) (Unlock Returned)" by (auto simp: stop_moves_def Unload_Stop pc_objects claim_def)
    then show ?thesis using obj_stop_goto[OF i] by (simp add: pool_step_def Unload_Stop)
  next
    case (Abandon_Stop r xs)
    show ?thesis
    proof (cases xs)
      case (Cons x xs')
      have "stop_moves x (mc_pcs m t) (Abandon_Stop r xs')" by (auto simp: stop_moves_def Abandon_Stop Cons pc_objects claim_def)
      then show ?thesis using obj_stop_goto[OF i] by (simp add: pool_step_def Abandon_Stop abandon_stop_def Cons)
    qed (auto simp: pool_step_def Abandon_Stop abandon_stop_def same_objs_def quiet_objs_def pc_objects claim_def d intro!: objs_goto[OF i])
  next
    case (Pick r)
    have e: "rn_mine r = []" using keep(1)[OF refl] by (simp add: Pick unstarted_def)
    have "distinct (startup_names cfg q)" if "sv_repository m = Some q" for q
      using that d names by (auto simp: startup_names_def dicts_ok_def)
    then show ?thesis using e
      by (auto simp: pool_step_def Pick pick_names_def start_failed_def Let_def same_objs_def quiet_objs_def pc_objects claim_def d
          intro!: objs_goto[OF i] split: option.splits)
  next
    case (Load_Next r)
    then show ?thesis using keep(1)[OF refl]
      by (auto simp: pool_step_def load_next_def same_objs_def quiet_objs_def pc_objects claim_def d intro!: objs_goto[OF i] split: list.splits)
  next
    case (Model_Starting c x k)
    then show ?thesis using keep
      by (auto simp: pool_step_def start_model_def same_objs_def quiet_objs_def pc_objects claim_def d intro!: objs_goto[OF i]
          split: option.splits nat.splits caller.splits)
  next
    case (Build_Sink g)
    have "dicts_ok (m\<lparr>mc_next := Suc (mc_next m), mc_sinks := mc_next m # mc_sinks m\<rparr>)" using d by (simp add: dicts_ok_def)
    then show ?thesis using Build_Sink
      by (auto simp: pool_step_def build_sink_def start_failed_def new_run_def same_objs_def quiet_objs_def pc_objects claim_def d intro!: objs_goto[OF i])
  next
    case (Join r)
    have "dicts_ok (m\<lparr>mc_next := Suc (mc_next m), mc_meshes := mc_next m # mc_meshes m\<rparr>)" using d by (simp add: dicts_ok_def)
    then show ?thesis using Join
      by (auto simp: pool_step_def join_tier_def Let_def start_failed_def same_objs_def quiet_objs_def pc_objects claim_def d intro!: objs_goto[OF i])
  next
    case (Scan r)
    have "dicts_ok (m\<lparr>sv_repository := Some (repo_index repo)\<rparr>)" using d by (simp add: dicts_ok_def repo_index_wf)
    then show ?thesis using Scan keep(1)[OF refl]
      by (auto simp: pool_step_def scan_start_def start_failed_def same_objs_def quiet_objs_def pc_objects claim_def d intro!: objs_goto[OF i])
  next
    case (Load_Scan n g)
    have "dicts_ok (m\<lparr>sv_repository := Some (repo_index repo)\<rparr>)" using d by (simp add: dicts_ok_def repo_index_wf)
    then show ?thesis using Load_Scan keep
      by (auto simp: pool_step_def load_scan_def same_objs_def quiet_objs_def pc_objects claim_def d intro!: objs_goto[OF i])
  next
    case Index_Scan
    have "dicts_ok (m\<lparr>sv_repository := Some (repo_index repo)\<rparr>)" using d by (simp add: dicts_ok_def repo_index_wf)
    then show ?thesis using Index_Scan
      by (auto simp: pool_step_def index_scan_def same_objs_def quiet_objs_def pc_objects claim_def d intro!: objs_goto[OF i])
  next
    case (Load_Table n)
    then show ?thesis
      by (cases "map_of (sv_models m) n")
        (simp_all add: pool_step_def load_table_def same_objs_def quiet_objs_def pc_objects claim_def d objs_goto[OF i])
  qed (use d keep in \<open>auto simp: pool_step_def begin_wait_def skip_or_raise_def start_failed_def stop_steps control_steps query_steps find_model_def Let_def same_objs_def
      quiet_objs_def pc_objects claim_def dicts_ok_def i intro!: objs_goto[OF i] objs_leave[OF i] split: option.splits caller.splits list.splits sum.splits\<close>)
qed

end
