(* ===== verification/Server_Run.thy ===== *)
theory Server_Run
  imports Server_Ownership
begin

text \<open>
  The trace sinks and meshes of the server, and what the lifecycle guarantees of every run of its threads: nothing leaks, no teardown is overtaken, no call is stuck.
\<close>

section \<open>Trace sinks and meshes\<close>

definition holds_sink :: "nat \<Rightarrow> pc \<Rightarrow> bool" where
  "holds_sink i p \<longleftrightarrow> (\<exists>r. run_of p = Some r \<and> rn_sink r = Some (Live_Sink i)) \<or> (\<exists>g cont. p = Tear g cont (Close_Sink (Live_Sink i)))"

definition holds_mesh :: "nat \<Rightarrow> pc \<Rightarrow> bool" where
  "holds_mesh i p \<longleftrightarrow> (\<exists>r xs. p \<in> {Finish r, Abandon_Lock r, Abandon_Pop r, Abandon_Stop r xs, Abandon_Unlock r, Abandon_Mesh r} \<and> rn_mesh r = Some i) \<or>
     (\<exists>g cont. p = Tear g cont (Stop_Mesh i))"

definition swapped :: "pc \<Rightarrow> bool" where
  "swapped p \<longleftrightarrow> (\<exists>g cont st. p = Tear g cont st \<and> ((\<exists>s. st = Close_Sink s) \<or> st = Close_Memory \<or> st = Set_Barrier))"

definition left_tier :: "pc \<Rightarrow> bool" where
  "left_tier p \<longleftrightarrow> (\<exists>g cont st. p = Tear g cont st \<and> st \<noteq> Stale_Check \<and> st \<noteq> Leave_Tier \<and> st \<noteq> Let_Control)"

definition reading :: "pc \<Rightarrow> sink option" where
  "reading p = (case p of Tear g cont (Read_Totals s) \<Rightarrow> Some s | Tear g cont (Swap_Sink s k) \<Rightarrow> Some s | _ \<Rightarrow> None)"

lemmas pc_resources = holds_sink_def holds_mesh_def swapped_def left_tier_def reading_def run_of_def

definition res_inv :: "machine \<Rightarrow> bool" where
  "res_inv m \<longleftrightarrow>
     (\<forall>i \<in> set (mc_sinks m). sv_traces m = Live_Sink i \<or> (\<exists>t. holds_sink i (mc_pcs m t))) \<and>
     (\<forall>i \<in> set (mc_meshes m). sv_mesh m = Some i \<or> (\<exists>t. holds_mesh i (mc_pcs m t))) \<and>
     (sv_starting m \<or> sv_torn_down m \<or> (\<exists>t. swapped (mc_pcs m t)) \<longrightarrow> sv_traces m = Null_Sink) \<and>
     (sv_starting m \<or> sv_torn_down m \<or> (\<exists>t. left_tier (mc_pcs m t)) \<longrightarrow> sv_mesh m = None) \<and>
     (\<forall>t s. reading (mc_pcs m t) = Some s \<longrightarrow> s = sv_traces m)"

lemma res_invD:
  assumes "res_inv m"
  shows "i \<in> set (mc_sinks m) \<Longrightarrow> sv_traces m = Live_Sink i \<or> (\<exists>t. holds_sink i (mc_pcs m t))"
    "i \<in> set (mc_meshes m) \<Longrightarrow> sv_mesh m = Some i \<or> (\<exists>t. holds_mesh i (mc_pcs m t))"
    "sv_starting m \<or> sv_torn_down m \<or> swapped (mc_pcs m t) \<Longrightarrow> sv_traces m = Null_Sink"
    "sv_starting m \<or> sv_torn_down m \<or> left_tier (mc_pcs m t) \<Longrightarrow> sv_mesh m = None"
    "reading (mc_pcs m t) = Some s \<Longrightarrow> s = sv_traces m"
  using assms unfolding res_inv_def by blast+

lemma tear_pending: "swapped p \<or> left_tier p \<or> reading p \<noteq> None \<Longrightarrow> pending p \<noteq> None"
  by (auto simp: swapped_def left_tier_def reading_def pending_def split: pc.splits teardown.splits)

text \<open>A step of one thread: what it opened it holds, what it let go of it closed or installed.\<close>

lemma res_change:
  assumes i: "res_inv m" and p: "mc_pcs m' = (mc_pcs m)(t := p')"
    and s: "\<And>j. j \<in> set (mc_sinks m') \<Longrightarrow> j \<in> set (mc_sinks m) \<and> (holds_sink j (mc_pcs m t) \<longrightarrow> holds_sink j p' \<or> sv_traces m' = Live_Sink j) \<and>
        (sv_traces m = Live_Sink j \<longrightarrow> sv_traces m' = Live_Sink j \<or> holds_sink j p') \<or> holds_sink j p'"
    and h: "\<And>j. j \<in> set (mc_meshes m') \<Longrightarrow> j \<in> set (mc_meshes m) \<and> (holds_mesh j (mc_pcs m t) \<longrightarrow> holds_mesh j p' \<or> sv_mesh m' = Some j) \<and>
        (sv_mesh m = Some j \<longrightarrow> sv_mesh m' = Some j \<or> holds_mesh j p') \<or> holds_mesh j p'"
    and tr: "sv_starting m' \<or> sv_torn_down m' \<or> swapped p' \<or> (\<exists>u. u \<noteq> t \<and> swapped (mc_pcs m u)) \<Longrightarrow> sv_traces m' = Null_Sink"
    and me: "sv_starting m' \<or> sv_torn_down m' \<or> left_tier p' \<or> (\<exists>u. u \<noteq> t \<and> left_tier (mc_pcs m u)) \<Longrightarrow> sv_mesh m' = None"
    and rd: "\<And>k. reading p' = Some k \<Longrightarrow> k = sv_traces m'" "\<And>u k. u \<noteq> t \<Longrightarrow> reading (mc_pcs m u) = Some k \<Longrightarrow> sv_traces m' = sv_traces m"
  shows "res_inv m'"
  unfolding res_inv_def
proof (intro conjI ballI allI impI)
  fix j assume j: "j \<in> set (mc_sinks m')"
  have t: "holds_sink j p' \<Longrightarrow> \<exists>u. holds_sink j (mc_pcs m' u)" using p by (metis fun_upd_same)
  have o: "u \<noteq> t \<Longrightarrow> holds_sink j (mc_pcs m u) \<Longrightarrow> \<exists>u. holds_sink j (mc_pcs m' u)" for u using p by (metis fun_upd_other)
  show "sv_traces m' = Live_Sink j \<or> (\<exists>u. holds_sink j (mc_pcs m' u))"
    using s[OF j] res_invD(1)[OF i, of j] t o by metis
next
  fix j assume j: "j \<in> set (mc_meshes m')"
  have t: "holds_mesh j p' \<Longrightarrow> \<exists>u. holds_mesh j (mc_pcs m' u)" using p by (metis fun_upd_same)
  have o: "u \<noteq> t \<Longrightarrow> holds_mesh j (mc_pcs m u) \<Longrightarrow> \<exists>u. holds_mesh j (mc_pcs m' u)" for u using p by (metis fun_upd_other)
  show "sv_mesh m' = Some j \<or> (\<exists>u. holds_mesh j (mc_pcs m' u))"
    using h[OF j] res_invD(2)[OF i, of j] t o by metis
next
  assume "sv_starting m' \<or> sv_torn_down m' \<or> (\<exists>u. swapped (mc_pcs m' u))"
  then show "sv_traces m' = Null_Sink" using tr unfolding p by (metis fun_upd_apply)
next
  assume "sv_starting m' \<or> sv_torn_down m' \<or> (\<exists>u. left_tier (mc_pcs m' u))"
  then show "sv_mesh m' = None" using me unfolding p by (metis fun_upd_apply)
next
  fix u k assume "reading (mc_pcs m' u) = Some k"
  then show "k = sv_traces m'" using rd res_invD(5)[OF i, of u k] unfolding p by (metis fun_upd_apply)
qed

text \<open>The fields stay; sinks and meshes may be closed or, by this thread, opened.\<close>

definition same_res :: "machine \<Rightarrow> machine \<Rightarrow> bool" where
  "same_res m m0 \<longleftrightarrow> sv_traces m0 = sv_traces m \<and> sv_mesh m0 = sv_mesh m \<and> sv_starting m0 = sv_starting m \<and> sv_torn_down m0 = sv_torn_down m \<and> mc_pcs m0 = mc_pcs m"

definition res_moves :: "machine \<Rightarrow> machine \<Rightarrow> pc \<Rightarrow> pc \<Rightarrow> bool" where
  "res_moves m m0 p p' \<longleftrightarrow> (\<forall>j \<in> set (mc_sinks m0). holds_sink j p' \<or> j \<in> set (mc_sinks m) \<and> \<not> holds_sink j p) \<and>
     (\<forall>j \<in> set (mc_meshes m0). holds_mesh j p' \<or> j \<in> set (mc_meshes m) \<and> \<not> holds_mesh j p) \<and>
     (swapped p' \<longrightarrow> swapped p) \<and> (left_tier p' \<longrightarrow> left_tier p \<or> sv_mesh m = None) \<and> (\<forall>s. reading p' = Some s \<longrightarrow> s = sv_traces m)"

lemma res_step_moves:
  assumes i: "res_inv m" and s: "same_res m m0" and q: "res_moves m m0 (mc_pcs m t) p'"
  shows "res_inv (goto t p' m0)" and "p' = Idle \<Longrightarrow> res_inv (leave t r m0)"
proof -
  have "res_inv m'" if p: "mc_pcs m' = (mc_pcs m)(t := p')" and f: "sv_traces m' = sv_traces m" "sv_mesh m' = sv_mesh m" "sv_starting m' = sv_starting m"
    "sv_torn_down m' = sv_torn_down m" "mc_sinks m' = mc_sinks m0" "mc_meshes m' = mc_meshes m0" for m'
  proof (rule res_change[OF i p])
    show "sv_traces m' = Null_Sink" if "sv_starting m' \<or> sv_torn_down m' \<or> swapped p' \<or> (\<exists>u. u \<noteq> t \<and> swapped (mc_pcs m u))"
      using that q res_invD(3)[OF i] f by (auto simp: res_moves_def)
    show "sv_mesh m' = None" if "sv_starting m' \<or> sv_torn_down m' \<or> left_tier p' \<or> (\<exists>u. u \<noteq> t \<and> left_tier (mc_pcs m u))"
      using that q res_invD(4)[OF i] f by (auto simp: res_moves_def)
  qed (use q f in \<open>auto simp: res_moves_def\<close>)
  then show "res_inv (goto t p' m0)" and "p' = Idle \<Longrightarrow> res_inv (leave t r m0)"
    using s by (auto simp: same_res_def goto_def leave_def)
qed

lemmas res_goto = res_step_moves(1)
lemmas res_leave = res_step_moves(2)[OF _ _ _ refl]

lemma outside_res [simp]:
  "sv_traces (stop_object x m) = sv_traces m" "sv_mesh (stop_object x m) = sv_mesh m" "mc_sinks (stop_object x m) = mc_sinks m" "mc_meshes (stop_object x m) = mc_meshes m"
  "sv_traces (close_sink s m) = sv_traces m" "sv_mesh (close_sink s m) = sv_mesh m" "mc_meshes (close_sink s m) = mc_meshes m"
  "set (mc_sinks (close_sink s m)) = set (mc_sinks m) - {i. s = Live_Sink i}"
  "sv_traces (stop_mesh i m) = sv_traces m" "sv_mesh (stop_mesh i m) = sv_mesh m" "mc_sinks (stop_mesh i m) = mc_sinks m"
  "set (mc_meshes (stop_mesh i m)) = set (mc_meshes m) - {i}"
  "sv_traces (let_control m) = sv_traces m" "sv_mesh (let_control m) = sv_mesh m" "mc_sinks (let_control m) = mc_sinks m" "mc_meshes (let_control m) = mc_meshes m"
  by (auto simp: stop_object_def close_sink_def stop_mesh_def let_control_def split: sink.splits)

lemma res_begin:
  assumes i: "res_inv m" and at: "mc_pcs m t = Begin w"
  shows "res_inv (begin_start t w m)"
proof (cases "\<not> sv_started m \<and> \<not> sv_starting m \<and> sv_torn_down m")
  case True
  let ?m = "begin_start t w m" and ?p = "Build_Sink (Suc (sv_generation m))"
  have p: "mc_pcs ?m = (mc_pcs m)(t := ?p)" and f: "sv_traces ?m = Null_Sink" "sv_mesh ?m = None" "mc_sinks ?m = mc_sinks m" "mc_meshes ?m = mc_meshes m"
    "sv_traces m = Null_Sink" "sv_mesh m = None"
    using True res_invD(3,4)[OF i] by (simp_all add: begin_start_def goto_def)
  show ?thesis by (rule res_change[OF i p]) (auto simp: f at pc_resources)
next
  case False
  then show ?thesis
    by (auto simp: begin_start_def same_res_def res_moves_def at pc_resources intro!: res_goto[OF i] res_leave[OF i])
qed

lemma res_finish:
  assumes l: "life_inv m" and i: "res_inv m" and at: "mc_pcs m t = Finish r"
  shows "res_inv (finish_start t r m)"
proof (cases "sv_generation m = rn_gen r \<and> sv_starting m")
  case True
  let ?m = "finish_start t r m"
  have n: "sv_traces m = Null_Sink" "sv_mesh m = None" using True res_invD(3,4)[OF i] by auto
  have p: "mc_pcs ?m = (mc_pcs m)(t := Idle)" and f: "sv_mesh ?m = rn_mesh r" "mc_sinks ?m = mc_sinks m" "mc_meshes ?m = mc_meshes m"
    "sv_traces ?m = (case rn_sink r of None \<Rightarrow> sv_traces m | Some s \<Rightarrow> s)" "\<not> sv_starting ?m" "sv_torn_down ?m = sv_torn_down m"
    using True by (auto simp: finish_start_def leave_def split: option.splits)
  have down: "\<not> sv_torn_down m" using life_invD(2)[OF l] True by blast
  have "pending (mc_pcs m u) = None" for u using life_invD(5)[OF l, of u] True by (cases "pending (mc_pcs m u)") auto
  then have q: "\<not> swapped (mc_pcs m u)" "\<not> left_tier (mc_pcs m u)" "reading (mc_pcs m u) = None" for u using tear_pending[of "mc_pcs m u"] by (auto simp del: not_None_eq)
  have hs: "holds_sink j (mc_pcs m t) \<longleftrightarrow> rn_sink r = Some (Live_Sink j)" "holds_mesh j (mc_pcs m t) \<longleftrightarrow> rn_mesh r = Some j" for j
    by (simp_all add: at pc_resources)
  have idle: "\<not> holds_sink j Idle" "\<not> holds_mesh j Idle" "\<not> swapped Idle" "\<not> left_tier Idle" "reading Idle = None" for j by (simp_all add: pc_resources)
  show ?thesis by (rule res_change[OF i p]) (use q down in \<open>auto simp: f n hs idle\<close>)
next
  case False
  then show ?thesis by (auto simp: finish_start_def same_res_def res_moves_def at pc_resources intro!: res_goto[OF i])
qed

lemma res_stop_run:
  assumes i: "res_inv m" and at: "mc_pcs m t = Stop_Run g cont"
  shows "res_inv (stop_run t g cont m)"
proof (cases "(g = None \<or> g = Some (sv_generation m)) \<and> \<not> is_stopping m")
  case True
  let ?m = "stop_run t g cont m" and ?p = "Stop_Lock (sv_generation m) cont"
  have e: "?m = goto t ?p (m\<lparr>sv_started := False, sv_starting := False\<rparr>)" using True by (auto simp: stop_run_def)
  have p: "mc_pcs ?m = (mc_pcs m)(t := ?p)" and f: "sv_traces ?m = sv_traces m" "sv_mesh ?m = sv_mesh m" "mc_sinks ?m = mc_sinks m"
    "mc_meshes ?m = mc_meshes m" "\<not> sv_starting ?m" "sv_torn_down ?m = sv_torn_down m" by (simp_all add: e goto_def)
  have hs: "holds_sink j (mc_pcs m t) = holds_sink j ?p" "holds_mesh j (mc_pcs m t) = holds_mesh j ?p" for j by (simp_all add: at pc_resources)
  have q: "\<not> swapped ?p" "\<not> left_tier ?p" "reading ?p = None" by (simp_all add: pc_resources)
  show ?thesis by (rule res_change[OF i p]) (use res_invD(3-5)[OF i] in \<open>auto simp: f hs q\<close>)
next
  case False
  then show ?thesis
    by (auto simp: stop_run_def is_stopping_def after_stop_def same_res_def res_moves_def at pc_resources split: option.splits
        intro!: res_goto[OF i] res_leave[OF i])
qed

lemma tear_views:
  "holds_sink j (Tear g cont st) \<longleftrightarrow> (\<exists>r. cont = Some r \<and> rn_sink r = Some (Live_Sink j)) \<or> st = Close_Sink (Live_Sink j)"
  "holds_mesh j (Tear g cont st) \<longleftrightarrow> st = Stop_Mesh j"
  "swapped (Tear g cont st) \<longleftrightarrow> (\<exists>s. st = Close_Sink s) \<or> st = Close_Memory \<or> st = Set_Barrier"
  "left_tier (Tear g cont st) \<longleftrightarrow> st \<noteq> Stale_Check \<and> st \<noteq> Leave_Tier \<and> st \<noteq> Let_Control"
  "reading (Tear g cont st) = (case st of Read_Totals s \<Rightarrow> Some s | Swap_Sink s k \<Rightarrow> Some s | _ \<Rightarrow> None)"
  by (auto simp: pc_resources)

lemma res_tear:
  assumes l: "life_inv m" and i: "res_inv m" and at: "mc_pcs m t = Tear g cont st"
  shows "res_inv (tear_step t ok g cont st m)"
proof -
  have pt: "pending (mc_pcs m t) = Some g" if "st \<noteq> Let_Control" using that by (simp add: at pending_def)
  have only: "pending (mc_pcs m u) = None" if "st \<noteq> Let_Control" "u \<noteq> t" for u using life_invD(6)[OF l pt[OF that(1)], of u] that(2) by fastforce
  have quiet: "\<not> swapped (mc_pcs m u)" "\<not> left_tier (mc_pcs m u)" "reading (mc_pcs m u) = None" if "st \<noteq> Let_Control" "u \<noteq> t" for u
    using tear_pending[of "mc_pcs m u"] only[OF that] by (auto simp del: not_None_eq)
  have g: "sv_generation m = g" "\<not> sv_starting m" "\<not> sv_torn_down m" if "st \<noteq> Let_Control" using life_invD(5)[OF l pt[OF that]] by auto
  have r: "reading (Tear g cont st) = Some s \<Longrightarrow> s = sv_traces m" for s using res_invD(5)[OF i, of t s] by (simp add: at)
  have t3: "swapped (Tear g cont st) \<Longrightarrow> sv_traces m = Null_Sink" "left_tier (Tear g cont st) \<Longrightarrow> sv_mesh m = None"
    using res_invD(3,4)[OF i, of t] by (simp_all add: at)
  have hs: "holds_sink j (mc_pcs m t) \<longleftrightarrow> holds_sink j (Tear g cont st)" "holds_mesh j (mc_pcs m t) \<longleftrightarrow> holds_mesh j (Tear g cont st)" for j by (simp_all add: at)
  show ?thesis
  proof (cases st)
    case Leave_Tier
    show ?thesis
    proof (cases "sv_mesh m")
      case (Some k)
      then have p: "mc_pcs (tear_step t ok g cont st m) = (mc_pcs m)(t := Tear g cont (Stop_Mesh k))" by (simp add: tear_step_def Leave_Tier goto_def)
      show ?thesis
        by (rule res_change[OF i p]) (use Some Leave_Tier quiet g in \<open>auto simp: tear_step_def goto_def hs tear_views\<close>)
    qed (auto simp: tear_step_def Leave_Tier same_res_def res_moves_def at pc_resources intro!: res_goto[OF i])
  next
    case (Swap_Sink s k)
    then have p: "mc_pcs (tear_step t ok g cont st m) = (mc_pcs m)(t := Tear g cont (Close_Sink s))" using g by (simp add: tear_step_def goto_def)
    have s: "s = sv_traces m" using r[of s] by (simp add: Swap_Sink reading_def)
    show ?thesis
      by (rule res_change[OF i p]) (use s Swap_Sink quiet g t3 in \<open>auto simp: tear_step_def goto_def hs tear_views\<close>)
  next
    case Set_Barrier
    then have p: "mc_pcs (tear_step t ok g cont st m) = (mc_pcs m)(t := Tear g cont Let_Control)" by (simp add: tear_step_def goto_def)
    show ?thesis
      by (rule res_change[OF i p]) (use Set_Barrier quiet g t3 in \<open>auto simp: tear_step_def goto_def hs tear_views\<close>)
  qed (use g t3 r in \<open>auto simp: tear_step_def same_res_def res_moves_def at pc_resources after_stop_def
      intro!: res_goto[OF i] res_leave[OF i] split: option.splits list.splits\<close>)
qed

lemma res_step:
  assumes l: "life_inv m" and i: "res_inv m"
  shows "res_inv (pool_step cfg t ok repo m)"
proof (cases "mc_pcs m t")
  case (Begin w) then show ?thesis using res_begin[OF i Begin] by (simp add: pool_step_def)
next
  case (Finish r) then show ?thesis using res_finish[OF l i Finish] by (simp add: pool_step_def)
next
  case (Stop_Run g cont) then show ?thesis using res_stop_run[OF i Stop_Run] by (simp add: pool_step_def)
next
  case (Tear g cont st) then show ?thesis using res_tear[OF l i Tear] by (simp add: pool_step_def)
next
  case (Publish c x)
  then show ?thesis
    by (auto simp: pool_step_def publish_model_def Let_def same_res_def res_moves_def pc_resources split: caller.splits intro!: res_goto[OF i])
qed (auto simp: pool_step_def start_steps stop_steps control_steps query_steps Let_def same_res_def res_moves_def pc_resources i
      intro!: res_goto[OF i] res_leave[OF i] split: option.splits caller.splits list.splits nat.splits sum.splits)

section \<open>What every run of the threads guarantees\<close>

lemma pool_run_inv:
  assumes inv: "\<And>m t c. P m \<Longrightarrow> mc_pcs m t = Idle \<Longrightarrow> P (goto t (call_pc c) m)" "\<And>m f. P m \<Longrightarrow> P (m\<lparr>mc_counts := f\<rparr>)"
    "\<And>m t ok repo. P m \<Longrightarrow> P (pool_step cfg t ok repo m)" "P init_server"
  shows "P (pool_run cfg acts)"
proof -
  have "P m \<Longrightarrow> P (foldl (\<lambda>m a. pool_act cfg a m) m as)" for m as
  proof (induction "as" arbitrary: m)
    case (Cons a as)
    have "P (pool_act cfg a m)" using Cons.prems inv by (cases a) auto
    then show ?case using Cons.IH by simp
  qed simp
  then show ?thesis using inv(4) by (simp add: pool_run_def)
qed

lemma life_run: "life_inv (pool_run cfg acts)"
  by (rule pool_run_inv) (auto intro: life_call life_record life_step life_init)

lemma objs_run: "distinct (ps_startup cfg) \<Longrightarrow> obj_inv (pool_run cfg acts)"
  using pool_run_inv[of "\<lambda>m. life_inv m \<and> obj_inv m" cfg acts]
  by (auto intro: life_call life_record life_step life_init obj_call obj_record objs_step obj_init)

lemma res_call: "res_inv m \<Longrightarrow> mc_pcs m t = Idle \<Longrightarrow> res_inv (goto t (call_pc c) m)"
  by (rule res_goto[of m]) (auto simp: same_res_def res_moves_def call_pc_def pc_resources split: pool_call.splits)

lemma res_run: "res_inv (pool_run cfg acts)"
  using pool_run_inv[of "\<lambda>m. life_inv m \<and> res_inv m" cfg acts] res_call res_step life_call life_record life_step life_init
  by (auto simp: res_inv_def init_server_def pc_resources)


text \<open>
  A lookup never answers with a stopped model.  At every moment of every run, what the table holds under a name is a model of that name that has been started and not
  been stopped, and no thread is about to stop it.
\<close>

theorem served_models_run:
  assumes "distinct (ps_startup cfg)" and "m = pool_run cfg acts" and "find_model n m = Inr x"
  shows "x \<in> set (mc_live m) \<and> mo_name x = n \<and> (\<forall>t. x \<notin> doomed (mc_pcs m t) \<and> x \<notin> fresh (mc_pcs m t))"
proof -
  have o: "obj_inv m" using objs_run[OF assms(1)] assms(2) by auto
  have e: "(n, x) \<in> set (sv_models m)" using assms(3) by (auto simp: find_model_def dest: map_of_SomeD split: option.splits)
  then have t: "x \<in> table m" by force
  have "x \<in> set (mc_live m)" using obj_invD(4)[OF o] t by blast
  moreover have "mo_name x = n" using obj_invD(1)[OF o] e by (simp add: dicts_ok_def)
  moreover have "x \<notin> doomed (mc_pcs m u)" "x \<notin> fresh (mc_pcs m u)" for u
    using obj_invD(5)[OF o, of u] fresh_not_table[OF obj_invD(2)[OF o], of x u] t by blast+
  ultimately show ?thesis by blast
qed

text \<open>
  C32: no teardown is ever overtaken.  While a teardown is on its way, from the moment the flags are cleared until the barrier is set, its run is the newest one and no start can
  claim the server: each of the checks in \<^verbatim>\<open>_release\<close> for a later run finds its own, and the steps after them are never skipped.  There is at most one such teardown,
  and only the thread that holds the control lock is past its first check.
\<close>

theorem no_teardown_overtaken:
  assumes "m = pool_run cfg acts" and "pending (mc_pcs m t) = Some g"
  shows "g = sv_generation m \<and> \<not> sv_started m \<and> \<not> sv_starting m \<and> \<not> sv_torn_down m \<and> (\<forall>u. pending (mc_pcs m u) \<noteq> None \<longrightarrow> u = t) \<and>
    (begin_start u waited m = goto u Begin_Wait m \<or> begin_start u waited m = leave u (Raised Server_State) m)"
proof -
  have l: "life_inv m" using life_run assms(1) by simp
  note f = life_invD(5)[OF l assms(2)]
  have "u' = t" if "pending (mc_pcs m u') \<noteq> None" for u' using life_invD(6)[OF l assms(2)] that by fastforce
  then show ?thesis using f by (auto simp: begin_start_def)
qed

lemma holder_moves:
  assumes "mc_pcs m t \<noteq> Idle" and "sv_control m = None \<or> holding (mc_pcs m t)"
  shows "mc_pcs (pool_step cfg t True repo m) t \<noteq> mc_pcs m t"
proof -
  have g: "mc_pcs (goto t p m0) t = p" "mc_pcs (leave t r m0) t = Idle" for p r m0 by (simp_all add: goto_def leave_def)
  show ?thesis
  proof (cases "mc_pcs m t")
    case (Tear k cont st)
    then show ?thesis by (auto simp: pool_step_def tear_step_def after_stop_def g split: teardown.splits option.splits list.splits)
  next
    case (Publish c x)
    then show ?thesis by (auto simp: pool_step_def publish_model_def Let_def g split: caller.splits)
  next
    case (Finish r)
    then show ?thesis by (auto simp: pool_step_def finish_start_def g)
  next
    case (Stop_Run k cont)
    then show ?thesis by (auto simp: pool_step_def stop_run_def after_stop_def g split: option.splits)
  next
    case (Abandon_Lock r)
    then show ?thesis using assms(2) by (auto simp: pool_step_def take_control_def g holding_def)
  next
    case (Stop_Lock k cont)
    then show ?thesis using assms(2) by (auto simp: pool_step_def take_control_def g holding_def)
  next
    case (Load_Lock n)
    then show ?thesis using assms(2) by (auto simp: pool_step_def take_control_def g holding_def)
  next
    case (Unload_Lock n)
    then show ?thesis using assms(2) by (auto simp: pool_step_def take_control_def g holding_def)
  qed (use assms(1) in \<open>auto simp: pool_step_def start_steps stop_steps control_steps query_steps Let_def g
      split: option.splits caller.splits list.splits nat.splits sum.splits prod.splits\<close>)
qed

text \<open>
  C33: no call is stuck for good.  In every reachable state a thread inside a call can go on, once the call it has made outside returns or its wait runs out; if instead it waits for the
  control lock, the thread that holds the lock can.
\<close>

theorem lifecycle_never_stuck:
  assumes "m = pool_run cfg acts" and "mc_pcs m t \<noteq> Idle"
  shows "mc_pcs (pool_step cfg t True repo m) t \<noteq> mc_pcs m t \<or>
    (\<exists>h. sv_control m = Some h \<and> h \<noteq> t \<and> mc_pcs (pool_step cfg h True repo m) h \<noteq> mc_pcs m h)"
proof (cases "sv_control m")
  case (Some h)
  have l: "life_inv m" using life_run assms(1) by simp
  have h: "holding (mc_pcs m h)" using life_invD(10)[OF l, of h] Some by simp
  then have "mc_pcs m h \<noteq> Idle" by (auto simp: holding_def)
  then have "mc_pcs (pool_step cfg h True repo m) h \<noteq> mc_pcs m h" using holder_moves h by blast
  then show ?thesis using Some by (cases "h = t") auto
qed (use holder_moves[OF assms(2)] in blast)

section \<open>Concrete runs\<close>

definition plain_cfg :: "string list \<Rightarrow> pool_settings" where
  "plain_cfg names = \<lparr>ps_strict = False, ps_explicit = False, ps_load_all = (names = []), ps_startup = names, ps_tracing = False, ps_shard = None, ps_shared = []\<rparr>"

definition one_model :: "(string \<times> artifact) list" where
  "one_model = [(''b'', \<lparr>ar_instances = 1, ar_steps = None\<rparr>)]"

definition with_ensemble :: "(string \<times> artifact) list" where
  "with_ensemble = one_model @ [(''e'', \<lparr>ar_instances = 0, ar_steps = Some [''b'']\<rparr>)]"

definition twice_run :: "pool_event list" where
  "twice_run = Call 0 Start_Server # replicate 20 (Step 0 True one_model) @ Call 0 Stop_Server # replicate 14 (Step 0 True [])"


text \<open>Only its own steps move a thread, and a thread that nothing called is idle.\<close>

lemma goto_other: "u \<noteq> t \<Longrightarrow> mc_pcs (goto t p m) u = mc_pcs m u" "u \<noteq> t \<Longrightarrow> mc_pcs (leave t r m) u = mc_pcs m u"
  by (simp_all add: goto_def leave_def)

lemma step_other: "u \<noteq> t \<Longrightarrow> mc_pcs (pool_step cfg t ok repo m) u = mc_pcs m u"
  by (cases "mc_pcs m t")
    (auto simp: pool_step_def start_steps stop_steps control_steps query_steps publish_model_def finish_start_def stop_run_def tear_step_def Let_def goto_other
      split: option.splits caller.splits list.splits nat.splits sum.splits prod.splits teardown.splits)

fun caller_threads :: "pool_event list \<Rightarrow> nat list" where
  "caller_threads [] = []"
| "caller_threads (Call t c # as) = t # caller_threads as"
| "caller_threads (a # as) = caller_threads as"

lemma uncalled_idle: "u \<notin> set (caller_threads acts) \<Longrightarrow> mc_pcs (pool_run cfg acts) u = Idle"
proof -
  have "mc_pcs m u = Idle \<Longrightarrow> u \<notin> set (caller_threads as) \<Longrightarrow> mc_pcs (foldl (\<lambda>m a. pool_act cfg a m) m as) u = Idle" for m as
  proof (induction "as" arbitrary: m)
    case (Cons a as)
    have "mc_pcs (pool_act cfg a m) u = Idle"
    proof (cases a)
      case (Call t c)
      then show ?thesis using Cons.prems by (auto simp: goto_other)
    next
      case (Step t ok repo)
      then show ?thesis using Cons.prems(1) step_other[of u t cfg ok repo m] by (cases "u = t") (simp_all add: pool_step_def)
    qed (use Cons.prems in simp)
    moreover have "u \<notin> set (caller_threads as)" using Cons.prems(2) by (cases a) auto
    ultimately show ?case using Cons.IH by simp
  qed simp
  then show "u \<notin> set (caller_threads acts) \<Longrightarrow> mc_pcs (pool_run cfg acts) u = Idle" by (simp add: pool_run_def init_server_def)
qed

lemma all_idle:
  "list_all (\<lambda>t. mc_pcs (pool_run cfg acts) t = Idle) (caller_threads acts) \<Longrightarrow> \<forall>t. mc_pcs (pool_run cfg acts) t = Idle"
  using uncalled_idle by (fastforce simp: list_all_iff)

text \<open>
  Thread 0 starts the server and is about to publish its model when thread 1 stops the server; it publishes after the drain.  Thread 2 starts the server again: its own copy
  of the model fails to build, which \<^verbatim>\<open>strict_startup=false\<close> allows, and its ensemble finds the copy of thread 0 in the table.  Then thread 0 gives up and takes its copy away.
\<close>

definition stranded_run :: "pool_event list" where
  "stranded_run = Call 0 Start_Server # replicate 10 (Step 0 True one_model) @ Call 1 Stop_Server # replicate 13 (Step 1 True []) @ Step 0 True [] #
     Call 2 Start_Server # replicate 6 (Step 2 True with_ensemble) @ Step 2 False [] # replicate 10 (Step 2 True []) @ replicate 12 (Step 0 True [])"


section \<open>Unloading\<close>

definition unload_safe :: "machine \<Rightarrow> bool" where
  "unload_safe m \<longleftrightarrow> (\<forall>t n x. mc_pcs m t = Unload_Pop n x \<longrightarrow> (\<forall>y \<in> table m. \<not> depends_on n y))"

lemma table_shrinks:
  assumes "obj_inv m" and "\<And>c x. mc_pcs m t \<noteq> Publish c x"
  shows "table (pool_step cfg t ok repo m) \<subseteq> table m"
proof -
  have g: "sv_models (goto t p m0) = sv_models m0" "sv_models (leave t r m0) = sv_models m0" for p r m0 by (simp_all add: goto_def leave_def)
  have "set (fold release_entry xs (sv_models m)) \<subseteq> set (sv_models m)" for xs
    using release_entries[of "sv_models m" xs] obj_invD(1)[OF assms(1)] by (auto simp: dicts_ok_def)
  then have f: "set (fold release_entry xs (sv_models m)) \<subseteq> set (sv_models m)" "set (AList.delete n (sv_models m)) \<subseteq> set (sv_models m)" for xs n
    by (auto simp: AList.delete_eq)
  have "set (sv_models (pool_step cfg t ok repo m)) \<subseteq> set (sv_models m)"
  proof (cases "mc_pcs m t")
    case (Abandon_Pop r)
    then show ?thesis using f(1)[of "rn_mine r"] by (simp add: pool_step_def abandon_pop_def g)
  next
    case (Unload_Pop n x)
    then show ?thesis using f(2)[of n] by (simp add: pool_step_def unload_pop_def g)
  qed (use assms(2) in \<open>auto simp: pool_step_def start_steps after_stop_def await_teardown_def take_control_def abandon_stop_def abandon_mesh_def abandon_sink_def
      require_control_def load_recheck_def load_table_def load_scan_def unload_recheck_def unload_find_def unload_deps_def query_steps
      finish_start_def stop_run_def tear_step_def Let_def g
      split: option.splits caller.splits list.splits nat.splits sum.splits prod.splits teardown.splits if_splits\<close>)
  then show ?thesis by blast
qed

lemma deps_empty: "ensembles_depending_on n m = [] \<Longrightarrow> y \<in> table m \<Longrightarrow> \<not> depends_on n y"
proof -
  assume e: "ensembles_depending_on n m = []" and y: "y \<in> table m"
  have "length (filter (depends_on n) (map snd (sv_models m))) = length (ensembles_depending_on n m)" by (simp add: ensembles_depending_on_def)
  then have "filter (depends_on n) (map snd (sv_models m)) = []" using e by (metis length_0_conv list.size(3))
  then show "\<not> depends_on n y" using y by (auto simp: filter_empty_conv)
qed

lemma reaches_pop:
  assumes "mc_pcs (pool_step cfg t ok repo m) t = Unload_Pop n x"
  shows "mc_pcs m t = Unload_Deps n x \<and> ensembles_depending_on n m = [] \<and> sv_models (pool_step cfg t ok repo m) = sv_models m"
proof -
  have g: "mc_pcs (goto t p m0) t = p" "mc_pcs (leave t r m0) t = Idle" "sv_models (goto t p m0) = sv_models m0" for p r m0
    by (simp_all add: goto_def leave_def)
  show ?thesis
  proof (cases "mc_pcs m t")
    case (Unload_Deps k y)
    then show ?thesis using assms by (simp add: pool_step_def unload_deps_def g split: if_splits)
  qed (use assms in \<open>auto simp: pool_step_def start_steps stop_steps require_control_def load_recheck_def load_table_def load_scan_def unload_recheck_def unload_find_def
      unload_pop_def query_steps finish_start_def publish_model_def stop_run_def tear_step_def Let_def g
      split: option.splits caller.splits list.splits nat.splits sum.splits prod.splits teardown.splits if_splits\<close>)
qed

lemma unload_step:
  assumes l: "life_inv m" and o: "obj_inv m" and u: "unload_safe m"
  shows "unload_safe (pool_step cfg t ok repo m)"
  unfolding unload_safe_def
proof (intro allI impI ballI)
  let ?m = "pool_step cfg t ok repo m"
  fix v n x y assume v: "mc_pcs ?m v = Unload_Pop n x" and y: "y \<in> table ?m"
  show "\<not> depends_on n y"
  proof (cases "v = t")
    case True
    then have "ensembles_depending_on n m = []" "sv_models ?m = sv_models m" using reaches_pop v by blast+
    then show ?thesis using deps_empty[of n m y] y by simp
  next
    case False
    then have at: "mc_pcs m v = Unload_Pop n x" using v step_other by simp
    have st: "settled m" and h: "holding (mc_pcs m v)" using life_invD(11)[OF l, of v] by (simp_all add: at editing_def holding_def)
    have "y \<in> table m"
    proof (cases "\<exists>c z. mc_pcs m t = Publish c z")
      case True
      then obtain c z where p: "mc_pcs m t = Publish c z" by blast
      obtain r where c: "c = By_Start r"
      proof (cases c)
        case (By_Load g)
        then have "holding (mc_pcs m t)" by (simp add: p holding_def)
        then show ?thesis using one_holder[OF l h] False by blast
      qed (use that in blast)
      have "rn_gen r \<noteq> sv_generation m" using st p c by (auto simp: settled_def claim_def dest: spec[of _ t])
      then have "sv_models ?m = sv_models m" by (simp add: pool_step_def p c publish_model_def caller_gen_def goto_def)
      then show ?thesis using y by simp
    qed (use table_shrinks[OF o] y in blast)
    then show ?thesis using u at by (auto simp: unload_safe_def)
  qed
qed

lemma unload_run:
  assumes "distinct (ps_startup cfg)"
  shows "unload_safe (pool_run cfg acts)"
proof -
  let ?P = "\<lambda>m. (life_inv m \<and> obj_inv m) \<and> unload_safe m"
  have "?P (pool_run cfg acts)"
  proof (rule pool_run_inv)
    show "?P (goto t (call_pc c) m)" if "?P m" "mc_pcs m t = Idle" for m t c
    proof -
      have "unload_safe (goto t (call_pc c) m)"
        using that by (auto simp: unload_safe_def goto_def call_pc_def split: pool_call.splits if_splits)
      then show ?thesis using that life_call obj_call by blast
    qed
    show "?P (m\<lparr>mc_counts := f\<rparr>)" if "?P m" for m f
    proof -
      have "unload_safe (m\<lparr>mc_counts := f\<rparr>)" using that by (simp add: unload_safe_def)
      then show ?thesis using that life_record obj_record by blast
    qed
    show "?P (pool_step cfg t ok repo m)" if "?P m" for m t ok repo
      using that life_step objs_step[OF _ _ assms] unload_step by blast
    have "unload_safe init_server" by (simp add: unload_safe_def init_server_def)
    then show "?P init_server" using life_init obj_init by blast
  qed
  then show ?thesis by blast
qed


section \<open>Witnesses\<close>

definition up_run :: "pool_event list" where
  "up_run = Call 0 Start_Server # replicate 24 (Step 0 True with_ensemble)"

definition control_cfg :: pool_settings where
  "control_cfg = \<lparr>ps_strict = True, ps_explicit = True, ps_load_all = True, ps_startup = [''b''], ps_tracing = True, ps_shard = Some 0, ps_shared = [''b'']\<rparr>"

definition unload_acts :: "pool_event list" where
  "unload_acts = up_run @ Call 1 (Unload_Model ''b'') # replicate 5 (Step 1 True [])"


lemma served_models_run_witness: "\<exists>x. find_model ''b'' (pool_run control_cfg up_run) = Inr x \<and> x \<in> set (mc_live (pool_run control_cfg up_run)) \<and> mo_name x = ''b''"
proof -
  have d: "distinct (ps_startup control_cfg)" by (simp add: control_cfg_def)
  have f: "find_model ''b'' (pool_run control_cfg up_run) = Inr \<lparr>mo_id = 1, mo_name = ''b'', mo_steps = None\<rparr>" by code_simp
  show ?thesis using served_models_run[OF d refl f] f by blast
qed

definition stop_acts :: "pool_event list" where
  "stop_acts = up_run @ Call 1 Stop_Server # replicate 4 (Step 1 True [])"

lemma no_teardown_overtaken_witness: "(\<exists>g. pending (mc_pcs (pool_run control_cfg stop_acts) 1) = Some g) \<and> \<not> sv_torn_down (pool_run control_cfg stop_acts)"
proof -
  have p: "pending (mc_pcs (pool_run control_cfg stop_acts) 1) = Some 1" by code_simp
  show ?thesis using no_teardown_overtaken[OF refl p, of 2 False] p by blast
qed

lemma lifecycle_never_stuck_witness:
  "sv_control (pool_run control_cfg stop_acts) = Some 1 \<and> mc_pcs (pool_step control_cfg 1 True [] (pool_run control_cfg stop_acts)) 1 \<noteq> mc_pcs (pool_run control_cfg stop_acts) 1"
proof -
  have b: "sv_control (pool_run control_cfg stop_acts) = Some 1" "mc_pcs (pool_run control_cfg stop_acts) 1 \<noteq> Idle" by code_simp+
  show ?thesis using lifecycle_never_stuck[OF refl b(2), of "[]"] b(1) by auto
qed


end
