(* ===== verification/Ensemble.thy ===== *)
theory Ensemble
  imports Model_Config
begin

text \<open>
  \<^verbatim>\<open>src/shipinfer/engine/ensemble.py\<close>: a graph of models behind one name.  \<^verbatim>\<open>start\<close> checks the wiring and derives the plan of each step; a request is then an
  execution that pool threads and the callbacks of finished steps advance together.  What happens between two acquisitions of the execution's lock is one step of one
  of its tasks; which task goes next, and when a model answers, is open.  The models are a function of the step and its inputs.  Counters and traces are not modelled.
\<close>

section \<open>The wiring\<close>

text \<open>What a model's configuration declares: \<^verbatim>\<open>input_specs\<close> and \<^verbatim>\<open>output_specs\<close>.\<close>

record signature =
  sn_inputs :: "tensor_spec list"
  sn_outputs :: "tensor_spec list"

datatype ens_error = Model_Missing string | Bad_Wiring

record step_plan =
  sp_index :: nat
  sp_step :: ensemble_step
  sp_reads :: "string list"
  sp_writes :: "string list"

definition renamed :: "(string, string) dict \<Rightarrow> string \<Rightarrow> string" where
  "renamed m n = (case map_of m n of None \<Rightarrow> n | Some k \<Rightarrow> k)"

text \<open>Python's truth of \<^verbatim>\<open>step.condition\<close>: the empty string is as good as none.\<close>

definition has_condition :: "ensemble_step \<Rightarrow> bool" where
  "has_condition s \<longleftrightarrow> condition s \<noteq> None \<and> condition s \<noteq> Some []"

fun check_inputs ::
  "ensemble_step \<Rightarrow> (string, tensor_spec) dict \<Rightarrow> string list \<Rightarrow> tensor_spec list \<Rightarrow> string list \<Rightarrow> ens_error + string list" where
  "check_inputs s avail conds [] reads = Inr reads"
| "check_inputs s avail conds (spec # specs) reads =
     (let source = renamed (input_map s) (sname spec); reads' = reads @ [source] in
      case map_of avail source of
        None \<Rightarrow> if optional spec then check_inputs s avail conds specs reads' else Inl Bad_Wiring
      | Some made \<Rightarrow>
          if sdtype made \<noteq> sdtype spec then Inl Bad_Wiring
          else if \<not> spec_matches spec (sshape made) then Inl Bad_Wiring
          else if source \<in> set conds \<and> \<not> has_condition s then Inl Bad_Wiring
          else check_inputs s avail conds specs reads')"

definition add_outputs :: "ensemble_step \<Rightarrow> tensor_spec list \<Rightarrow> (string, tensor_spec) dict \<Rightarrow> (string, tensor_spec) dict" where
  "add_outputs s specs avail =
     fold (\<lambda>spec d. AList.update (renamed (output_map s) (sname spec)) (spec\<lparr>sname := renamed (output_map s) (sname spec)\<rparr>) d) specs avail"

definition step_writes :: "ensemble_step \<Rightarrow> tensor_spec list \<Rightarrow> string list" where
  "step_writes s specs = map (\<lambda>spec. renamed (output_map s) (sname spec)) specs"

fun validate_steps ::
  "(string \<Rightarrow> signature option) \<Rightarrow> nat \<Rightarrow> ensemble_step list \<Rightarrow> (string, tensor_spec) dict \<Rightarrow> string list \<Rightarrow>
    ens_error + step_plan list \<times> (string, tensor_spec) dict" where
  "validate_steps resolve i [] avail conds = Inr ([], avail)"
| "validate_steps resolve i (s # ss) avail conds =
     (case resolve (es_model s) of
        None \<Rightarrow> Inl (Model_Missing (es_model s))
      | Some sig \<Rightarrow>
          rbind (check_inputs s avail conds (sn_inputs sig) []) (\<lambda>reads.
          if has_condition s \<and> map_of avail (the (condition s)) = None then Inl Bad_Wiring
          else
            let reads' = (if has_condition s then reads @ [the (condition s)] else reads);
                writes = step_writes s (sn_outputs sig)
            in rbind (validate_steps resolve (Suc i) ss (add_outputs s (sn_outputs sig) avail) (if has_condition s then conds @ writes else conds))
                 (\<lambda>(plans, avail'). Inr (\<lparr>sp_index = i, sp_step = s, sp_reads = reads', sp_writes = writes\<rparr> # plans, avail'))))"

definition check_output :: "(string, tensor_spec) dict \<Rightarrow> tensor_spec \<Rightarrow> bool" where
  "check_output avail spec = (case map_of avail (sname spec) of None \<Rightarrow> False
     | Some made \<Rightarrow> sdtype made = sdtype spec \<and> spec_matches spec (sshape made))"

definition validate_graph :: "(string \<Rightarrow> signature option) \<Rightarrow> signature \<Rightarrow> ensemble_step list \<Rightarrow> ens_error + step_plan list" where
  "validate_graph resolve own steps =
     rbind (validate_steps resolve 0 steps (specs_by_name (sn_inputs own)) [])
       (\<lambda>(plans, avail). if list_all (check_output avail) (sn_outputs own) then Inr plans else Inl Bad_Wiring)"

definition late_producers :: "step_plan list \<Rightarrow> bool" where
  "late_producers plans = list_ex (\<lambda>p. list_ex (\<lambda>q. sp_index p < sp_index q \<and> list_ex (\<lambda>n. n \<in> set (sp_reads p)) (sp_writes q)) plans) plans"

definition ensemble_start :: "(string \<Rightarrow> signature option) \<Rightarrow> signature \<Rightarrow> ensemble_step list \<Rightarrow> ens_error + step_plan list" where
  "ensemble_start resolve own steps =
     rbind (validate_graph resolve own steps) (\<lambda>plans. if late_producers plans then Inl Bad_Wiring else Inr plans)"

text \<open>The producers a step waits for: those declared before it.\<close>

definition waits_on :: "step_plan list \<Rightarrow> step_plan \<Rightarrow> nat list" where
  "waits_on plans p = map sp_index (filter (\<lambda>q. sp_index q < sp_index p \<and> list_ex (\<lambda>n. n \<in> set (sp_reads p)) (sp_writes q)) plans)"

section \<open>One execution\<close>

type_synonym namespace = "(string, tensor) dict"

text \<open>The started ensemble: its plans, its declared outputs, the input specs of each step's model and the models.\<close>

record ensemble_model =
  en_plans :: "step_plan list"
  en_outputs :: "tensor_spec list"
  en_specs :: "nat \<Rightarrow> tensor_spec list"
  en_call :: "nat \<Rightarrow> namespace \<Rightarrow> err + namespace"

definition started_ensemble :: "(string \<Rightarrow> signature option) \<Rightarrow> signature \<Rightarrow> (nat \<Rightarrow> namespace \<Rightarrow> err + namespace) \<Rightarrow> step_plan list \<Rightarrow> ensemble_model" where
  "started_ensemble resolve own call plans = \<lparr>en_plans = plans, en_outputs = sn_outputs own,
     en_specs = (\<lambda>i. case resolve (es_model (sp_step (plans ! i))) of None \<Rightarrow> [] | Some sig \<Rightarrow> sn_inputs sig), en_call = call\<rparr>"

text \<open>
  What a pool thread or a callback has still to do for an execution.  \<open>Dispatch todo moved\<close> is the loop over the ready steps of one pass of \<^verbatim>\<open>_pump\<close>; \<open>Call_Step\<close> has read the
  namespace and not yet called the model; \<open>Fail_With\<close> is about to claim the execution for an error.
\<close>

datatype ens_task = Begin_Task | Set_Running | Retire | Pump | Dispatch "nat list" bool | Skip_Step nat "nat list" | Call_Step nat namespace "nat list" bool
  | Fail_With err "nat list" bool | Collect | Settle namespace | Write_Back nat namespace | Submit

record execution =
  ex_request :: namespace
  ex_namespace :: namespace
  ex_started :: "nat list"
  ex_finished :: "nat list"
  ex_written_by :: "(string, nat) dict"
  ex_settled :: bool
  ex_future :: fut_state
  ex_answer :: "namespace option"
  ex_tasks :: "ens_task list"
  ex_flight :: "(nat \<times> namespace) list"

definition new_execution :: "namespace \<Rightarrow> execution" where
  "new_execution given = \<lparr>ex_request = given, ex_namespace = given, ex_started = [], ex_finished = [], ex_written_by = [], ex_settled = False,
     ex_future = PENDING, ex_answer = None, ex_tasks = [Begin_Task], ex_flight = []\<rparr>"

text \<open>\<^verbatim>\<open>_claim\<close> and \<^verbatim>\<open>_settle\<close>: the first to claim resolves the future, unless its caller has cancelled it.\<close>

definition settle_future :: "fut_state \<Rightarrow> fut_state \<Rightarrow> fut_state" where
  "settle_future f new = (if f = PENDING \<or> f = RUNNING then new else f)"

definition claim_exec :: "fut_state \<Rightarrow> namespace option \<Rightarrow> execution \<Rightarrow> execution" where
  "claim_exec new ans e =
     (if ex_settled e then e else e\<lparr>ex_settled := True, ex_future := settle_future (ex_future e) new, ex_answer := ans\<rparr>)"

definition is_truthy :: "tensor option \<Rightarrow> bool" where
  "is_truthy t = (case t of None \<Rightarrow> False
     | Some t \<Rightarrow> if 0 \<in> set (shape t) then False
        else case tensor_numpy t of Inl e \<Rightarrow> True | Inr a \<Rightarrow> list_ex (\<lambda>v. v \<noteq> 0) (nd_data a))"

definition is_skipped :: "ensemble_step \<Rightarrow> namespace \<Rightarrow> bool" where
  "is_skipped s ns = (condition s \<noteq> None \<and> \<not> is_truthy (if has_condition s then map_of ns (the (condition s)) else None))"

definition step_of :: "ensemble_model \<Rightarrow> nat \<Rightarrow> ensemble_step" where
  "step_of en i = sp_step (en_plans en ! i)"

text \<open>How the model's table or its queue takes a call.\<close>

datatype call_fate = Accepted | Unresolved err | Refused err

fun step_inputs :: "ensemble_step \<Rightarrow> tensor_spec list \<Rightarrow> namespace \<Rightarrow> err + namespace" where
  "step_inputs s [] ns = Inr []"
| "step_inputs s (spec # specs) ns =
     (case map_of ns (renamed (input_map s) (sname spec)) of
        None \<Rightarrow> if optional spec then step_inputs s specs ns else Inl InferenceError
      | Some t \<Rightarrow> rbind (step_inputs s specs ns) (\<lambda>d. Inr ((sname spec, t) # d)))"

text \<open>The attempt of \<^verbatim>\<open>_dispatch\<close>: look the model up, gather its inputs, hand the request over.\<close>

definition attempt_call :: "ensemble_model \<Rightarrow> call_fate \<Rightarrow> nat \<Rightarrow> namespace \<Rightarrow> err + namespace" where
  "attempt_call en fate i ns = (case fate of
      Unresolved x \<Rightarrow> Inl x
    | Accepted \<Rightarrow> step_inputs (step_of en i) (en_specs en i) ns
    | Refused x \<Rightarrow> rbind (step_inputs (step_of en i) (en_specs en i) ns) (\<lambda>ins. Inl x))"

text \<open>The write of \<^verbatim>\<open>_step_done\<close>: the last writer by declaration order keeps the name.\<close>

definition write_output :: "nat \<Rightarrow> ensemble_step \<Rightarrow> string \<times> tensor \<Rightarrow> namespace \<times> (string, nat) dict \<Rightarrow> namespace \<times> (string, nat) dict" where
  "write_output i s nt st =
     (let target = renamed (output_map s) (fst nt) in
      if (case map_of (snd st) target of None \<Rightarrow> True | Some j \<Rightarrow> j \<le> i)
      then (AList.update target (snd nt) (fst st), AList.update target i (snd st)) else st)"

definition zero_rows :: "tensor_spec \<Rightarrow> err + tensor" where
  "zero_rows spec = from_numpy \<lparr>nd_dtype = numpy_dtype (sdtype spec), nd_shape = 0 # map (\<lambda>d. if 0 < d then d else 0) (sshape spec), nd_data = []\<rparr>"

definition collect_outputs :: "tensor_spec list \<Rightarrow> namespace \<Rightarrow> err + namespace" where
  "collect_outputs specs ns =
     rmapM (\<lambda>spec. case map_of ns (sname spec) of Some t \<Rightarrow> Inr (sname spec, t) | None \<Rightarrow> rbind (zero_rows spec) (\<lambda>t. Inr (sname spec, t))) specs"

definition take_ready :: "ensemble_model \<Rightarrow> execution \<Rightarrow> nat list" where
  "take_ready en e = map sp_index (filter (\<lambda>p. sp_index p \<notin> set (ex_started e) \<and> list_all (\<lambda>i. i \<in> set (ex_finished e)) (waits_on (en_plans en) p)) (en_plans en))"

definition swap_task :: "nat \<Rightarrow> ens_task list \<Rightarrow> execution \<Rightarrow> execution" where
  "swap_task k ts e = e\<lparr>ex_tasks := take k (ex_tasks e) @ ts @ drop (Suc k) (ex_tasks e)\<rparr>"

definition pump :: "ensemble_model \<Rightarrow> nat \<Rightarrow> execution \<Rightarrow> execution" where
  "pump en k e =
     (if ex_settled e then swap_task k [] e
      else let ready = take_ready en e in
        if ready = [] then swap_task k (if length (ex_finished e) = length (en_plans en) then [Collect] else []) e
        else swap_task k [Dispatch ready False] (e\<lparr>ex_started := ex_started e @ ready\<rparr>))"

text \<open>
  One step of task \<open>k\<close>.  \<open>fate\<close> says how a call is taken; \<open>pool_open\<close> is whether the pool still takes work.
\<close>

definition run_task :: "ensemble_model \<Rightarrow> bool \<Rightarrow> call_fate \<Rightarrow> nat \<Rightarrow> execution \<Rightarrow> execution" where
  "run_task en pool_open fate k e = (case ex_tasks e ! k of
      Begin_Task \<Rightarrow> swap_task k (if ex_settled e then [] else [Set_Running]) e
    | Set_Running \<Rightarrow> (case set_running_or_notify_cancel (ex_future e) of
          Inl x \<Rightarrow> swap_task k [] e
        | Inr (f, running) \<Rightarrow> swap_task k [if running then Pump else Retire] (e\<lparr>ex_future := f\<rparr>))
    | Retire \<Rightarrow> swap_task k [] (claim_exec (ex_future e) None e)
    | Pump \<Rightarrow> pump en k e
    | Dispatch [] moved \<Rightarrow> swap_task k (if moved then [Pump] else []) e
    | Dispatch (i # rest) moved \<Rightarrow>
        if ex_settled e then swap_task k [Dispatch rest moved] e
        else if is_skipped (step_of en i) (ex_namespace e) then swap_task k [Skip_Step i rest] e
        else swap_task k [Call_Step i (ex_namespace e) rest moved] e
    | Skip_Step i rest \<Rightarrow> swap_task k [Dispatch rest True] (e\<lparr>ex_finished := ex_finished e @ [i]\<rparr>)
    | Call_Step i ns rest moved \<Rightarrow>
        (case attempt_call en fate i ns of
           Inl x \<Rightarrow> swap_task k [Fail_With x rest moved] e
         | Inr ins \<Rightarrow> swap_task k [Dispatch rest moved] (e\<lparr>ex_flight := ex_flight e @ [(i, ins)]\<rparr>))
    | Fail_With x rest moved \<Rightarrow> swap_task k [Dispatch rest moved] (claim_exec (FAILED x) None e)
    | Collect \<Rightarrow>
        if ex_settled e then swap_task k [] e
        else (case collect_outputs (en_outputs en) (ex_namespace e) of Inl x \<Rightarrow> swap_task k [Fail_With x [] False] e | Inr outs \<Rightarrow> swap_task k [Settle outs] e)
    | Settle outs \<Rightarrow> swap_task k [] (claim_exec RESULT (Some outs) e)
    | Write_Back i outs \<Rightarrow>
        if ex_settled e then swap_task k [] e
        else let st = fold (write_output i (step_of en i)) outs (ex_namespace e, ex_written_by e)
          in swap_task k [Submit] (e\<lparr>ex_namespace := fst st, ex_written_by := snd st, ex_finished := ex_finished e @ [i]\<rparr>)
    | Submit \<Rightarrow> swap_task k [if pool_open then Pump else Fail_With RequestCancelledError [] False] e)"

text \<open>The model of an outstanding call answers; its callback runs.\<close>

definition answer_call :: "ensemble_model \<Rightarrow> nat \<Rightarrow> execution \<Rightarrow> execution" where
  "answer_call en j e = (case ex_flight e ! j of (i, ins) \<Rightarrow>
     e\<lparr>ex_flight := take j (ex_flight e) @ drop (Suc j) (ex_flight e),
       ex_tasks := ex_tasks e @ [case en_call en i ins of Inl x \<Rightarrow> Fail_With x [] False | Inr outs \<Rightarrow> Write_Back i outs]\<rparr>)"

datatype exec_event = Run_Task nat call_fate | Answer_Call nat | Cancel_Future | Stop_Exec

fun exec_step :: "ensemble_model \<Rightarrow> bool \<Rightarrow> exec_event \<Rightarrow> execution \<Rightarrow> execution" where
  "exec_step en pool_open (Run_Task k fate) e = (if k < length (ex_tasks e) then run_task en pool_open fate k e else e)"
| "exec_step en pool_open (Answer_Call j) e = (if j < length (ex_flight e) then answer_call en j e else e)"
| "exec_step en pool_open Cancel_Future e = (if ex_future e = PENDING then e\<lparr>ex_future := CANCELLED\<rparr> else e)"
| "exec_step en pool_open Stop_Exec e = claim_exec (FAILED RequestCancelledError) None e"

section \<open>The ensemble and its executions\<close>

record ensemble_state =
  em_name :: string
  em_capacity :: int
  em_started :: bool
  em_pool_open :: bool
  em_slots :: int
  em_execs :: "execution list"

definition ensemble_capacity :: "int \<Rightarrow> int \<Rightarrow> int" where
  "ensemble_capacity max_workers max_pending = max 1 (if 0 < max_pending then max_pending else max_workers * 4)"

definition init_ensemble :: "string \<Rightarrow> int \<Rightarrow> int \<Rightarrow> ensemble_state" where
  "init_ensemble name max_workers max_pending = \<lparr>em_name = name, em_capacity = ensemble_capacity max_workers max_pending, em_started = True,
     em_pool_open = True, em_slots = ensemble_capacity max_workers max_pending, em_execs = []\<rparr>"

datatype ens_event = Infer namespace | On nat exec_event | Begin_Stop | Close_Pool

definition ensemble_infer :: "signature \<Rightarrow> namespace \<Rightarrow> ensemble_state \<Rightarrow> err + ensemble_state" where
  "ensemble_infer own given m =
     (if \<not> em_started m then Inl ServerStateError
      else case validate_against given (sn_inputs own) of Inl x \<Rightarrow> Inl ValidationError
        | Inr u \<Rightarrow>
            if em_slots m \<le> 0 then Inl (QueueFullError (''ensemble:'' @ em_name m) (em_capacity m) (em_capacity m))
            else Inr (m\<lparr>em_slots := em_slots m - 1, em_execs := em_execs m @
              [if em_pool_open m then new_execution given else (new_execution given)\<lparr>ex_tasks := [Fail_With RequestCancelledError [] False]\<rparr>]\<rparr>))"

text \<open>A claim gives its slot back: the slots grow by one when the execution goes from live to settled.\<close>

definition on_exec :: "ensemble_model \<Rightarrow> nat \<Rightarrow> exec_event \<Rightarrow> ensemble_state \<Rightarrow> ensemble_state" where
  "on_exec en n a m =
     (if n < length (em_execs m) then
        let e = em_execs m ! n; e' = exec_step en (em_pool_open m) a e
        in m\<lparr>em_execs := (em_execs m)[n := e'], em_slots := (if ex_settled e' \<and> \<not> ex_settled e then em_slots m + 1 else em_slots m)\<rparr>
      else m)"

fun ensemble_step_event :: "ensemble_model \<Rightarrow> signature \<Rightarrow> ens_event \<Rightarrow> ensemble_state \<Rightarrow> ensemble_state" where
  "ensemble_step_event en own (Infer given) m = (case ensemble_infer own given m of Inl x \<Rightarrow> m | Inr m' \<Rightarrow> m')"
| "ensemble_step_event en own (On n a) m = (if a = Stop_Exec \<and> em_started m then m else on_exec en n a m)"
| "ensemble_step_event en own Begin_Stop m = m\<lparr>em_started := False\<rparr>"
| "ensemble_step_event en own Close_Pool m = (if em_started m then m else m\<lparr>em_pool_open := False\<rparr>)"

definition ensemble_run :: "ensemble_model \<Rightarrow> signature \<Rightarrow> ens_event list \<Rightarrow> ensemble_state \<Rightarrow> ensemble_state" where
  "ensemble_run en own as m = foldl (\<lambda>m a. ensemble_step_event en own a m) m as"

section \<open>The sequential walk\<close>

text \<open>
  The semantics the scheduler is to keep: the steps one after another in the order of their declaration, each on what the earlier ones left.
\<close>

definition write_all :: "ensemble_step \<Rightarrow> namespace \<Rightarrow> namespace \<Rightarrow> namespace" where
  "write_all s outs ns = fold (\<lambda>(n, t) d. AList.update (renamed (output_map s) n) t d) outs ns"

definition walk_step :: "ensemble_model \<Rightarrow> nat \<Rightarrow> namespace \<Rightarrow> err + namespace option" where
  "walk_step en i ns =
     (if is_skipped (step_of en i) ns then Inr None
      else rbind (step_inputs (step_of en i) (en_specs en i) ns) (\<lambda>ins. rbind (en_call en i ins) (\<lambda>outs. Inr (Some outs))))"

fun walk_steps :: "ensemble_model \<Rightarrow> nat \<Rightarrow> nat \<Rightarrow> namespace \<Rightarrow> err + namespace" where
  "walk_steps en i 0 ns = Inr ns"
| "walk_steps en i (Suc k) ns =
     rbind (walk_step en i ns) (\<lambda>r. walk_steps en (Suc i) k (case r of None \<Rightarrow> ns | Some outs \<Rightarrow> write_all (step_of en i) outs ns))"

definition walk_ensemble :: "ensemble_model \<Rightarrow> namespace \<Rightarrow> err + namespace" where
  "walk_ensemble en given = rbind (walk_steps en 0 (length (en_plans en)) given) (collect_outputs (en_outputs en))"

end
