(* ===== verification/Ensemble_Schedule.thy ===== *)
theory Ensemble_Schedule
  imports Ensemble
begin

text \<open>
  Every interleaving of the tasks of an execution keeps the schedule: a step is claimed once, nobody who could go on is left asleep, and a request gives its slot back once.
\<close>

section \<open>The schedule\<close>

definition plans_ok :: "step_plan list \<Rightarrow> bool" where
  "plans_ok plans \<longleftrightarrow> (\<forall>i < length plans. sp_index (plans ! i) = i) \<and> \<not> late_producers plans"

definition waits :: "ensemble_model \<Rightarrow> nat \<Rightarrow> nat set" where
  "waits en i = set (waits_on (en_plans en) (en_plans en ! i))"

lemma waits_below: "plans_ok (en_plans en) \<Longrightarrow> i < length (en_plans en) \<Longrightarrow> j \<in> waits en i \<Longrightarrow> j < i"
  by (auto simp: waits_def waits_on_def plans_ok_def)

text \<open>The steps a task has claimed and not yet passed on.\<close>

definition pend :: "ens_task \<Rightarrow> nat list" where
  "pend t = (case t of Dispatch rest moved \<Rightarrow> rest | Skip_Step i rest \<Rightarrow> i # rest | Call_Step i ns rest moved \<Rightarrow> i # rest
     | Fail_With x rest moved \<Rightarrow> rest | Write_Back i outs \<Rightarrow> [i] | _ \<Rightarrow> [])"

definition pending_steps :: "execution \<Rightarrow> nat list" where
  "pending_steps e = concat (map pend (ex_tasks e)) @ map fst (ex_flight e) @ ex_finished e"

text \<open>A task that will look for ready steps again, or end the execution.\<close>

definition will_pump :: "ens_task \<Rightarrow> bool" where
  "will_pump t = (case t of Dispatch rest moved \<Rightarrow> moved | Call_Step i ns rest moved \<Rightarrow> moved | Write_Back i outs \<Rightarrow> False | _ \<Rightarrow> True)"

definition is_failing :: "ens_task \<Rightarrow> bool" where
  "is_failing t = (case t of Fail_With x rest moved \<Rightarrow> True | _ \<Rightarrow> False)"

definition is_opening :: "ens_task \<Rightarrow> bool" where
  "is_opening t = (t = Begin_Task \<or> t = Set_Running \<or> t = Retire)"

lemmas task_views = pend_def will_pump_def is_failing_def is_opening_def

definition pumpable :: "ensemble_model \<Rightarrow> execution \<Rightarrow> bool" where
  "pumpable en e \<longleftrightarrow> (\<exists>i < length (en_plans en). i \<notin> set (ex_started e) \<and> waits en i \<subseteq> set (ex_finished e)) \<or> length (ex_finished e) = length (en_plans en)"

definition future_ok :: "execution \<Rightarrow> bool" where
  "future_ok e \<longleftrightarrow> length (filter is_opening (ex_tasks e)) \<le> 1 \<and>
     (if ex_settled e then ex_future e \<noteq> PENDING \<and> ex_future e \<noteq> RUNNING
      else case filter is_opening (ex_tasks e) of
          [] \<Rightarrow> ex_future e = RUNNING \<or> list_ex is_failing (ex_tasks e)
        | t # ts \<Rightarrow> if t = Retire then ex_future e = CANCELLED_AND_NOTIFIED else ex_future e = PENDING \<or> ex_future e = CANCELLED)"

definition sched_inv :: "ensemble_model \<Rightarrow> execution \<Rightarrow> bool" where
  "sched_inv en e \<longleftrightarrow> distinct (ex_started e) \<and> set (ex_started e) \<subseteq> {..<length (en_plans en)} \<and>
     mset (pending_steps e) \<subseteq># mset (ex_started e) \<and>
     (\<not> ex_settled e \<and> (\<forall>t \<in> set (ex_tasks e). \<not> is_failing t) \<longrightarrow> mset (pending_steps e) = mset (ex_started e)) \<and>
     (\<not> ex_settled e \<and> pumpable en e \<longrightarrow> (\<exists>t \<in> set (ex_tasks e). will_pump t))"

lemma sched_invD:
  assumes "sched_inv en e"
  shows "distinct (ex_started e)" "set (ex_started e) \<subseteq> {..<length (en_plans en)}" "mset (pending_steps e) \<subseteq># mset (ex_started e)"
    "\<not> ex_settled e \<Longrightarrow> \<forall>t \<in> set (ex_tasks e). \<not> is_failing t \<Longrightarrow> mset (pending_steps e) = mset (ex_started e)"
    "\<not> ex_settled e \<Longrightarrow> pumpable en e \<Longrightarrow> \<exists>t \<in> set (ex_tasks e). will_pump t"
  using assms unfolding sched_inv_def by (elim conjE; simp)+

lemma take_ready_set:
  assumes "plans_ok (en_plans en)"
  shows "set (take_ready en e) = {i. i < length (en_plans en) \<and> i \<notin> set (ex_started e) \<and> waits en i \<subseteq> set (ex_finished e)}"
    and "distinct (take_ready en e)"
proof -
  have ix: "map sp_index (en_plans en) = [0..<length (en_plans en)]"
    using assms by (intro nth_equalityI) (auto simp: plans_ok_def)
  let ?f = "\<lambda>p. sp_index p \<notin> set (ex_started e) \<and> list_all (\<lambda>i. i \<in> set (ex_finished e)) (waits_on (en_plans en) p)"
  show "distinct (take_ready en e)" unfolding take_ready_def using ix by (metis distinct_map_filter distinct_upt)
  show "set (take_ready en e) = {i. i < length (en_plans en) \<and> i \<notin> set (ex_started e) \<and> waits en i \<subseteq> set (ex_finished e)}"
  proof (intro set_eqI iffI)
    fix i assume "i \<in> set (take_ready en e)"
    then obtain p where p: "p \<in> set (en_plans en)" "?f p" "i = sp_index p" by (auto simp: take_ready_def)
    then obtain j where "j < length (en_plans en)" "p = en_plans en ! j" by (auto simp: in_set_conv_nth)
    then show "i \<in> {i. i < length (en_plans en) \<and> i \<notin> set (ex_started e) \<and> waits en i \<subseteq> set (ex_finished e)}"
      using p assms by (auto simp: plans_ok_def waits_def list_all_iff)
  next
    fix i assume "i \<in> {i. i < length (en_plans en) \<and> i \<notin> set (ex_started e) \<and> waits en i \<subseteq> set (ex_finished e)}"
    then have i: "i < length (en_plans en)" "?f (en_plans en ! i)" "sp_index (en_plans en ! i) = i" using assms
      by (auto simp: plans_ok_def waits_def list_all_iff)
    then show "i \<in> set (take_ready en e)" unfolding take_ready_def by (force simp: image_iff intro!: bexI[of _ "en_plans en ! i"])
  qed
qed

lemma swap_task_at: "ex_tasks e = xs @ t # ys \<Longrightarrow> swap_task (length xs) ts e0 = e0\<lparr>ex_tasks := take (length xs) (ex_tasks e0) @ ts @ drop (Suc (length xs)) (ex_tasks e0)\<rparr>"
  by (simp add: swap_task_def)

text \<open>A task is taken off and others put in its place; nothing else that the schedule depends on changes.\<close>

lemma sched_quiet:
  assumes i: "sched_inv en e" and t: "ex_tasks e = xs @ t # ys" and t': "ex_tasks e' = xs @ ts @ ys"
    and s: "ex_started e' = ex_started e" "ex_finished e' = ex_finished e" "ex_settled e' = ex_settled e"
    and p: "mset (concat (map pend ts)) + mset (map fst (ex_flight e')) = mset (pend t) + mset (map fst (ex_flight e)) \<or>
      mset (concat (map pend ts)) + mset (map fst (ex_flight e')) \<subseteq># mset (pend t) + mset (map fst (ex_flight e)) \<and> (ex_settled e \<or> list_ex is_failing ts)"
    and f: "is_failing t \<Longrightarrow> ex_settled e" and w: "will_pump t \<Longrightarrow> ex_settled e \<or> list_ex will_pump ts \<or> \<not> pumpable en e"
  shows "sched_inv en e'"
proof -
  let ?rest = "mset (concat (map pend xs)) + mset (concat (map pend ys)) + mset (ex_finished e)"
  have m: "mset (pending_steps e) = mset (pend t) + mset (map fst (ex_flight e)) + ?rest"
    and m': "mset (pending_steps e') = mset (concat (map pend ts)) + mset (map fst (ex_flight e')) + ?rest"
    by (simp_all add: pending_steps_def t t' s ac_simps)
  have sub: "mset (pending_steps e') \<subseteq># mset (pending_steps e)" using p unfolding m m' by (auto intro: subset_mset.add_right_mono)
  have pu: "pumpable en e' = pumpable en e" by (simp add: pumpable_def s)
  show ?thesis unfolding sched_inv_def s pu
  proof (intro conjI impI)
    show "mset (pending_steps e') \<subseteq># mset (ex_started e)" using sub sched_invD(3)[OF i] by (rule subset_mset.order_trans)
    show "mset (pending_steps e') = mset (ex_started e)" if u: "\<not> ex_settled e \<and> (\<forall>t \<in> set (ex_tasks e'). \<not> is_failing t)"
    proof -
      have nf: "\<forall>u \<in> set (ex_tasks e). \<not> is_failing u" using u f by (auto simp: t t')
      have "\<not> list_ex is_failing ts" using u by (auto simp: t' list_ex_iff)
      then have "mset (pending_steps e') = mset (pending_steps e)" using p u unfolding m m' by auto
      then show ?thesis using sched_invD(4)[OF i] u nf by simp
    qed
    show "\<exists>t \<in> set (ex_tasks e'). will_pump t" if u: "\<not> ex_settled e \<and> pumpable en e"
    proof -
      obtain v where "v \<in> set (ex_tasks e)" "will_pump v" using sched_invD(5)[OF i] u by blast
      then show ?thesis using w u by (auto simp: t t' list_ex_iff)
    qed
  qed (fact sched_invD(1,2)[OF i])+
qed

lemma sched_settled:
  assumes i: "sched_inv en e" and s: "ex_settled e'" "ex_started e' = ex_started e" and p: "mset (pending_steps e') \<subseteq># mset (pending_steps e)"
  shows "sched_inv en e'"
  using sched_invD(1-3)[OF i] s subset_mset.order_trans[OF p] by (simp add: sched_inv_def)

lemma sched_finish:
  assumes i: "sched_inv en e" and t: "ex_tasks e = xs @ t # ys" and t': "ex_tasks e' = xs @ u # ys"
    and s: "ex_started e' = ex_started e" "ex_finished e' = ex_finished e @ [k]" "ex_settled e' = ex_settled e" "ex_flight e' = ex_flight e"
    and p: "mset (pend t) = add_mset k (mset (pend u))" and w: "will_pump u" and f: "\<not> is_failing t"
  shows "sched_inv en e'"
proof -
  have m: "mset (pending_steps e') = mset (pending_steps e)" using p by (simp add: pending_steps_def t t' s ac_simps)
  show ?thesis unfolding sched_inv_def s m
  proof (intro conjI impI)
    show "mset (pending_steps e) = mset (ex_started e)" if "\<not> ex_settled e \<and> (\<forall>t \<in> set (ex_tasks e'). \<not> is_failing t)"
      using that sched_invD(4)[OF i] f by (auto simp: t t')
    show "\<exists>t \<in> set (ex_tasks e'). will_pump t" using w by (auto simp: t')
  qed (fact sched_invD(1-3)[OF i])+
qed

lemma finished_within:
  assumes "sched_inv en e"
  shows "distinct (ex_finished e)" "set (ex_finished e) \<subseteq> set (ex_started e)" "set (ex_finished e) \<subseteq> {..<length (en_plans en)}"
proof -
  have "mset (ex_finished e) \<subseteq># mset (pending_steps e)" by (simp add: pending_steps_def)
  then have sub: "mset (ex_finished e) \<subseteq># mset (ex_started e)" using sched_invD(3)[OF assms] subset_mset.order_trans by blast
  show "set (ex_finished e) \<subseteq> set (ex_started e)" using set_mset_mono[OF sub] by simp
  then show "set (ex_finished e) \<subseteq> {..<length (en_plans en)}" using sched_invD(2)[OF assms] by blast
  have "count (mset (ex_finished e)) x \<le> 1" for x
    using mset_subset_eq_count[OF sub, of x] sched_invD(1)[OF assms] by (metis distinct_count_atmost_1 le_trans nat_le_linear zero_le_one)
  then show "distinct (ex_finished e)" by (metis distinct_count_atmost_1 le_neq_implies_less less_one count_eq_zero_iff set_mset_mset)
qed

lemma all_finished:
  assumes "sched_inv en e" and "length (ex_finished e) = length (en_plans en)"
  shows "set (ex_finished e) = {..<length (en_plans en)}"
  using finished_within[OF assms(1)] assms(2) by (metis card_lessThan card_subset_eq distinct_card finite_lessThan)

lemma sched_pump:
  assumes i: "sched_inv en e" and ok: "plans_ok (en_plans en)" and t: "ex_tasks e = xs @ Pump # ys"
  shows "sched_inv en (pump en (length xs) e)"
proof -
  let ?r = "take_ready en e" and ?e = "pump en (length xs) e"
  note r = take_ready_set[OF ok, of e]
  show ?thesis
  proof (cases "ex_settled e \<or> ?r = []")
    case True
    have "\<not> pumpable en e" if "?r = []" "length (ex_finished e) \<noteq> length (en_plans en)" using that r(1) by (auto simp: pumpable_def)
    then have w: "ex_settled e \<or> length (ex_finished e) = length (en_plans en) \<or> \<not> pumpable en e" using True by blast
    have e: "?e = swap_task (length xs) (if \<not> ex_settled e \<and> length (ex_finished e) = length (en_plans en) then [Collect] else []) e"
      using True by (auto simp: pump_def Let_def)
    show ?thesis unfolding e
      by (rule sched_quiet[OF i t]) (use w in \<open>auto simp: swap_task_def t task_views\<close>)
  next
    case False
    have e: "ex_tasks ?e = xs @ Dispatch ?r False # ys" "ex_started ?e = ex_started e @ ?r" "ex_finished ?e = ex_finished e" "ex_settled ?e = ex_settled e"
      "ex_flight ?e = ex_flight e" using False by (simp_all add: pump_def Let_def swap_task_def t)
    have m: "mset (pending_steps ?e) = mset (pending_steps e) + mset ?r" by (simp add: pending_steps_def e t task_views ac_simps)
    have np: "\<not> pumpable en ?e"
    proof -
      obtain j where j: "j < length (en_plans en)" "j \<notin> set (ex_started e)" using False r(1) by (cases ?r) auto
      then have "j \<notin> set (ex_finished e)" using finished_within(2)[OF i] by blast
      then have "length (ex_finished e) \<noteq> length (en_plans en)" using all_finished[OF i] j(1) by blast
      then show ?thesis using r(1) by (auto simp: pumpable_def e)
    qed
    show ?thesis unfolding sched_inv_def e(2,4) m
    proof (intro conjI impI)
      show "distinct (ex_started e @ ?r)" using sched_invD(1)[OF i] r by auto
      show "set (ex_started e @ ?r) \<subseteq> {..<length (en_plans en)}" using sched_invD(2)[OF i] r(1) by auto
      show "mset (pending_steps e) + mset ?r \<subseteq># mset (ex_started e @ ?r)" using sched_invD(3)[OF i] by simp
      show "mset (pending_steps e) + mset ?r = mset (ex_started e @ ?r)" if "\<not> ex_settled e \<and> (\<forall>t \<in> set (ex_tasks ?e). \<not> is_failing t)"
        using that sched_invD(4)[OF i] by (auto simp: e t task_views)
    qed (use np in blast)
  qed
qed

lemma claim_facts [simp]:
  "ex_settled (claim_exec f a e)" "ex_started (claim_exec f a e) = ex_started e" "ex_finished (claim_exec f a e) = ex_finished e"
  "ex_tasks (claim_exec f a e) = ex_tasks e" "ex_flight (claim_exec f a e) = ex_flight e" "ex_namespace (claim_exec f a e) = ex_namespace e"
  "ex_written_by (claim_exec f a e) = ex_written_by e" "ex_request (claim_exec f a e) = ex_request e"
  by (simp_all add: claim_exec_def)

lemma swap_facts [simp]:
  "ex_settled (swap_task k ts e) = ex_settled e" "ex_started (swap_task k ts e) = ex_started e" "ex_finished (swap_task k ts e) = ex_finished e"
  "ex_flight (swap_task k ts e) = ex_flight e" "ex_namespace (swap_task k ts e) = ex_namespace e" "ex_future (swap_task k ts e) = ex_future e"
  "ex_written_by (swap_task k ts e) = ex_written_by e" "ex_request (swap_task k ts e) = ex_request e" "ex_answer (swap_task k ts e) = ex_answer e"
  "ex_tasks (swap_task k ts e) = take k (ex_tasks e) @ ts @ drop (Suc k) (ex_tasks e)"
  by (simp_all add: swap_task_def)

lemma sched_run_task:
  assumes i: "sched_inv en e" and fo: "future_ok e" and ok: "plans_ok (en_plans en)" and t: "ex_tasks e = xs @ t # ys"
  shows "sched_inv en (run_task en pool_open fate (length xs) e)"
proof (cases t)
  case Pump
  then show ?thesis using sched_pump[OF i ok] t by (simp add: run_task_def)
next
  case (Skip_Step k rest)
  show ?thesis
    by (rule sched_finish[OF i t, where k = k and u = "Dispatch rest True"]) (auto simp: run_task_def t Skip_Step task_views)
next
  case (Write_Back k outs)
  show ?thesis
  proof (cases "ex_settled e")
    case True
    show ?thesis by (rule sched_settled[OF i]) (auto simp: run_task_def t Write_Back True pending_steps_def pend_def)
  next
    case False
    show ?thesis
      by (rule sched_finish[OF i t, where k = k and u = Submit]) (use False in \<open>auto simp: run_task_def t Write_Back task_views Let_def\<close>)
  qed
next
  case Set_Running
  have "ex_settled e" if "set_running_or_notify_cancel (ex_future e) = Inl x" for x
    using that fo by (auto simp: t Set_Running future_ok_def is_opening_def set_running_or_notify_cancel_def split: fut_state.splits if_splits list.splits)
  then show ?thesis
    by (cases "set_running_or_notify_cancel (ex_future e)")
      (auto simp: run_task_def t Set_Running task_views split: prod.splits intro!: sched_quiet[OF i t])
next
  case (Dispatch todo moved)
  then show ?thesis
    by (cases todo) (auto simp: run_task_def t task_views intro!: sched_quiet[OF i t])
next
  case (Call_Step k ns rest moved)
  then show ?thesis
    by (cases "attempt_call en fate k ns") (auto simp: run_task_def t task_views intro!: sched_quiet[OF i t])
next
  case (Fail_With x rest moved)
  show ?thesis by (rule sched_settled[OF i]) (simp_all add: run_task_def t Fail_With pending_steps_def pend_def)
next
  case Retire
  show ?thesis by (rule sched_settled[OF i]) (simp_all add: run_task_def t Retire pending_steps_def pend_def)
next
  case (Settle outs)
  show ?thesis by (rule sched_settled[OF i]) (simp_all add: run_task_def t Settle pending_steps_def pend_def)
qed (auto simp: run_task_def t task_views split: sum.splits intro!: sched_quiet[OF i t])

section \<open>The future of an execution\<close>

lemma future_okD:
  assumes "future_ok e"
  shows "length (filter is_opening (ex_tasks e)) \<le> 1" "ex_settled e \<Longrightarrow> ex_future e \<noteq> PENDING \<and> ex_future e \<noteq> RUNNING"
    "\<not> ex_settled e \<Longrightarrow> filter is_opening (ex_tasks e) = [] \<Longrightarrow> ex_future e = RUNNING \<or> list_ex is_failing (ex_tasks e)"
  using assms unfolding future_ok_def by (auto split: if_splits)

lemma future_quiet:
  assumes i: "future_ok e" and t: "ex_tasks e = xs @ t # ys" and t': "ex_tasks e' = xs @ ts @ ys"
    and s: "ex_settled e' = ex_settled e" "ex_future e' = ex_future e" and o: "\<not> is_opening t" "list_all (\<lambda>u. \<not> is_opening u) ts"
    and f: "is_failing t \<longrightarrow> list_ex is_failing ts"
  shows "future_ok e'"
proof -
  have "filter is_opening ts = []" using o(2) by (simp add: filter_empty_conv list_all_iff)
  then have "filter is_opening (ex_tasks e') = filter is_opening (ex_tasks e)" using o(1) by (simp add: t t')
  then show ?thesis using i f unfolding future_ok_def s by (auto simp: t t' split: list.splits if_splits)
qed

lemma future_claim:
  assumes i: "future_ok e" and t: "ex_tasks e = xs @ t # ys" and o: "list_all (\<lambda>u. \<not> is_opening u) ts" and n: "new \<noteq> PENDING" "new \<noteq> RUNNING"
  shows "future_ok (swap_task (length xs) ts (claim_exec new a e))"
proof -
  have "filter is_opening ts = []" using o by (simp add: filter_empty_conv list_all_iff)
  then show ?thesis using i n by (auto simp: future_ok_def t claim_exec_def settle_future_def split: if_splits)
qed

lemma future_opening:
  assumes i: "future_ok e" and t: "ex_tasks e = xs @ t # ys" and o: "is_opening t"
  shows "filter is_opening xs = []" "filter is_opening ys = []"
  using future_okD(1)[OF i] o by (auto simp: t split: if_splits)

lemma future_run_task:
  assumes i: "future_ok e" and t: "ex_tasks e = xs @ t # ys"
  shows "future_ok (run_task en pool_open fate (length xs) e)"
proof (cases t)
  case Begin_Task
  note o = future_opening[OF i t]
  show ?thesis using i o by (auto simp: run_task_def t Begin_Task future_ok_def is_opening_def)
next
  case Set_Running
  note o = future_opening[OF i t]
  show ?thesis using i o
    by (cases "ex_future e") (auto simp: run_task_def t Set_Running future_ok_def is_opening_def set_running_or_notify_cancel_def)
next
  case Retire
  note o = future_opening[OF i t]
  have "ex_settled e \<or> ex_future e = CANCELLED_AND_NOTIFIED" using i o by (auto simp: future_ok_def t Retire is_opening_def split: if_splits)
  then show ?thesis using future_claim[OF i t, of "[]" "ex_future e" None] i
    by (auto simp: run_task_def t Retire future_okD(2))
next
  case Pump
  then show ?thesis
    by (auto simp: run_task_def t pump_def Let_def is_opening_def is_failing_def intro!: future_quiet[OF i t])
next
  case (Dispatch todo moved)
  then show ?thesis by (cases todo) (auto simp: run_task_def t is_opening_def is_failing_def intro!: future_quiet[OF i t])
next
  case (Call_Step k ns rest moved)
  then show ?thesis
    by (cases "attempt_call en fate k ns") (auto simp: run_task_def t is_opening_def is_failing_def intro!: future_quiet[OF i t])
next
  case (Fail_With x rest moved)
  show ?thesis using future_claim[OF i t, of "[Dispatch rest moved]" "FAILED x" None] by (simp add: run_task_def t Fail_With is_opening_def)
next
  case (Settle outs)
  show ?thesis using future_claim[OF i t, of "[]" RESULT "Some outs"] by (simp add: run_task_def t Settle)
qed (auto simp: run_task_def t is_opening_def is_failing_def Let_def split: sum.splits intro!: future_quiet[OF i t])

section \<open>Every step of an execution\<close>

definition exec_inv :: "ensemble_model \<Rightarrow> execution \<Rightarrow> bool" where
  "exec_inv en e \<longleftrightarrow> sched_inv en e \<and> future_ok e"

lemma exec_inv_new: "exec_inv en (new_execution given)" "exec_inv en ((new_execution given)\<lparr>ex_tasks := [Fail_With x [] moved]\<rparr>)"
  by (auto simp: exec_inv_def new_execution_def sched_inv_def future_ok_def pending_steps_def task_views)

lemma sched_answer:
  assumes i: "sched_inv en e" and j: "j < length (ex_flight e)"
  shows "sched_inv en (answer_call en j e)"
proof -
  obtain k ins where f: "ex_flight e ! j = (k, ins)" by force
  have sp: "ex_flight e = take j (ex_flight e) @ (k, ins) # drop (Suc j) (ex_flight e)" using id_take_nth_drop[OF j] f by simp
  let ?e = "answer_call en j e"
  define t where "t = (case en_call en k ins of Inl x \<Rightarrow> Fail_With x [] False | Inr outs \<Rightarrow> Write_Back k outs)"
  have e: "ex_tasks ?e = ex_tasks e @ [t]" "ex_flight ?e = take j (ex_flight e) @ drop (Suc j) (ex_flight e)" "ex_started ?e = ex_started e"
    "ex_finished ?e = ex_finished e" "ex_settled ?e = ex_settled e" by (simp_all add: answer_call_def f t_def)
  have "mset (map fst (ex_flight e)) = add_mset k (mset (map fst (ex_flight ?e)))" unfolding e(2) by (subst sp) simp
  then have m: "mset (pending_steps e) = add_mset k (mset (concat (map pend (ex_tasks e))) + mset (map fst (ex_flight ?e)) + mset (ex_finished e))"
    by (simp add: pending_steps_def ac_simps del: mset_map)
  have m': "mset (pending_steps ?e) = mset (pend t) + (mset (concat (map pend (ex_tasks e))) + mset (map fst (ex_flight ?e)) + mset (ex_finished e))"
    by (simp add: pending_steps_def e(1,4) ac_simps del: mset_map)
  have t: "is_failing t \<and> pend t = [] \<or> \<not> is_failing t \<and> pend t = [k]" unfolding t_def by (auto simp: task_views split: sum.splits)
  have sub: "mset (pending_steps ?e) \<subseteq># mset (pending_steps e)" unfolding m m' using t by (auto intro: subset_mset.less_imp_le simp: subset_mset.less_le)
  have pu: "pumpable en ?e = pumpable en e" by (simp add: pumpable_def e)
  show ?thesis unfolding sched_inv_def e(1,3,5) pu
  proof (intro conjI impI)
    show "mset (pending_steps ?e) \<subseteq># mset (ex_started e)" using sub sched_invD(3)[OF i] by (rule subset_mset.order_trans)
    show "mset (pending_steps ?e) = mset (ex_started e)" if "\<not> ex_settled e \<and> (\<forall>t \<in> set (ex_tasks e @ [t]). \<not> is_failing t)"
    proof -
      have "pend t = [k]" using t that by auto
      then have "mset (pending_steps ?e) = mset (pending_steps e)" unfolding m m' by simp
      then show ?thesis using sched_invD(4)[OF i] that by simp
    qed
    show "\<exists>t \<in> set (ex_tasks e @ [t]). will_pump t" if "\<not> ex_settled e \<and> pumpable en e" using sched_invD(5)[OF i] that by auto
  qed (fact sched_invD(1,2)[OF i])+
qed

lemma future_answer: "future_ok e \<Longrightarrow> future_ok (answer_call en j e)"
  by (auto simp: future_ok_def answer_call_def is_opening_def is_failing_def split: prod.splits sum.splits list.splits if_splits)

lemma exec_inv_step:
  assumes i: "exec_inv en e" and ok: "plans_ok (en_plans en)"
  shows "exec_inv en (exec_step en pool_open a e)"
proof (cases a)
  case (Run_Task k fate)
  then show ?thesis
  proof (cases "k < length (ex_tasks e)")
    case True
    then obtain xs t ys where t: "ex_tasks e = xs @ t # ys" "length xs = k" by (metis id_take_nth_drop length_take min.absorb4)
    show ?thesis using sched_run_task[OF _ _ ok t(1)] future_run_task[OF _ t(1)] i t(2) True by (auto simp: exec_inv_def Run_Task)
  qed (use i in simp)
next
  case (Answer_Call j)
  then show ?thesis using i sched_answer future_answer by (auto simp: exec_inv_def)
next
  case Cancel_Future
  then show ?thesis using i by (auto simp: exec_inv_def sched_inv_def future_ok_def pending_steps_def pumpable_def split: list.splits if_splits)
next
  case Stop_Exec
  then show ?thesis using i
    by (auto simp: exec_inv_def pending_steps_def future_ok_def claim_exec_def settle_future_def intro!: sched_settled[of en e])
qed

lemma exec_quiet_settled:
  assumes i: "exec_inv en e" and ok: "plans_ok (en_plans en)" and q: "ex_tasks e = []" "ex_flight e = []"
  shows "ex_settled e"
proof (rule ccontr)
  assume u: "\<not> ex_settled e"
  have s: "sched_inv en e" using i by (simp add: exec_inv_def)
  have "mset (ex_finished e) = mset (ex_started e)" using sched_invD(4)[OF s u] q by (simp add: pending_steps_def)
  then have fs: "set (ex_finished e) = set (ex_started e)" "length (ex_finished e) = length (ex_started e)" by (metis set_mset_mset, metis size_mset)
  have np: "\<not> pumpable en e" using sched_invD(5)[OF s u] q by auto
  let ?left = "\<lambda>i. i < length (en_plans en) \<and> i \<notin> set (ex_started e)"
  have "\<exists>i. ?left i"
  proof (rule ccontr)
    assume "\<not> ?thesis"
    then have "set (ex_started e) = {..<length (en_plans en)}" using sched_invD(2)[OF s] by auto
    then have "length (ex_started e) = length (en_plans en)" using sched_invD(1)[OF s] by (metis card_lessThan distinct_card)
    then show False using np fs(2) by (simp add: pumpable_def)
  qed
  then have l: "?left (LEAST i. ?left i)" by (rule LeastI_ex)
  have "waits en (LEAST i. ?left i) \<subseteq> set (ex_finished e)"
  proof
    fix j assume "j \<in> waits en (LEAST i. ?left i)"
    then have "j < (LEAST i. ?left i)" using waits_below[OF ok] l by blast
    then show "j \<in> set (ex_finished e)" using not_less_Least[of j ?left] l fs(1) by auto
  qed
  then show False using np l by (auto simp: pumpable_def)
qed

section \<open>The ensemble\<close>

lemma validate_steps_index:
  "validate_steps resolve k ss avail conds = Inr (plans, avail') \<Longrightarrow> map sp_index plans = [k..<k + length ss] \<and> map sp_step plans = ss"
proof (induction ss arbitrary: k avail conds plans)
  case (Cons s ss)
  obtain sig where r: "resolve (es_model s) = Some sig" using Cons.prems by (cases "resolve (es_model s)") simp_all
  obtain p ps avail2 conds2 where p: "plans = p # ps" "sp_index p = k" "sp_step p = s" "validate_steps resolve (Suc k) ss avail2 conds2 = Inr (ps, avail')"
    using Cons.prems by (auto simp: r rbind_Inr_iff Let_def split: if_splits)
  have "[k..<k + length (s # ss)] = k # [Suc k..<Suc k + length ss]" by (simp add: upt_conv_Cons del: upt_Suc)
  then show ?case using Cons.IH[OF p(4)] p(1-3) by (simp del: upt_Suc)
qed simp

lemma started_plans_ok:
  assumes "ensemble_start resolve own steps = Inr plans"
  shows "plans_ok plans" "map sp_step plans = steps"
proof -
  obtain avail where v: "validate_steps resolve 0 steps (specs_by_name (sn_inputs own)) [] = Inr (plans, avail)" and l: "\<not> late_producers plans"
    using assms by (auto simp: ensemble_start_def validate_graph_def rbind_Inr_iff split: if_splits)
  note ix = validate_steps_index[OF v]
  then have len: "length plans = length steps" by (metis length_map)
  show "map sp_step plans = steps" using ix by simp
  have "sp_index (plans ! i) = i" if "i < length plans" for i
    using ix that len by (metis add_0 length_map nth_map nth_upt)
  then show "plans_ok plans" using l by (simp add: plans_ok_def)
qed

definition unsettled :: "ensemble_state \<Rightarrow> nat" where
  "unsettled m = length (filter (\<lambda>e. \<not> ex_settled e) (em_execs m))"

definition ens_inv :: "ensemble_model \<Rightarrow> ensemble_state \<Rightarrow> bool" where
  "ens_inv en m \<longleftrightarrow> (\<forall>e \<in> set (em_execs m). exec_inv en e) \<and> em_slots m + int (unsettled m) = em_capacity m \<and> 0 \<le> em_slots m"

lemma settled_stays: "ex_settled e \<Longrightarrow> ex_settled (exec_step en pool_open a e)"
  by (cases a) (auto simp: run_task_def pump_def Let_def answer_call_def split: ens_task.splits list.splits sum.splits prod.splits)

lemma filter_update_count:
  "n < length xs \<Longrightarrow> length (filter P (xs[n := x])) + (if P (xs ! n) then 1 else 0) = length (filter P xs) + (if P x then 1 else 0)"
proof (induction xs arbitrary: n)
  case (Cons y ys)
  then show ?case by (cases n) auto
qed simp

lemma on_exec_inv:
  assumes i: "ens_inv en m" and ok: "plans_ok (en_plans en)"
  shows "ens_inv en (on_exec en n a m)"
proof (cases "n < length (em_execs m)")
  case True
  let ?e = "em_execs m ! n" let ?e' = "exec_step en (em_pool_open m) a ?e"
  have e': "exec_inv en ?e'" by (rule exec_inv_step[OF _ ok]) (use i True in \<open>auto simp: ens_inv_def\<close>)
  have st: "ex_settled ?e \<Longrightarrow> ex_settled ?e'" by (rule settled_stays)
  have "set ((em_execs m)[n := ?e']) \<subseteq> insert ?e' (set (em_execs m))" by (rule set_update_subset_insert)
  then have all: "\<forall>e \<in> set ((em_execs m)[n := ?e']). exec_inv en e" using e' i by (auto simp: ens_inv_def)
  show ?thesis using i all st filter_update_count[OF True, of "\<lambda>e. \<not> ex_settled e" ?e'] True
    by (cases "ex_settled ?e") (auto simp: ens_inv_def on_exec_def Let_def unsettled_def)
qed (use i in \<open>simp add: on_exec_def\<close>)

lemma ensemble_step_inv:
  assumes i: "ens_inv en m" and ok: "plans_ok (en_plans en)"
  shows "ens_inv en (ensemble_step_event en own a m)"
proof (cases a)
  case (Infer given)
  then show ?thesis using i exec_inv_new
    by (auto simp: ens_inv_def ensemble_infer_def unsettled_def new_execution_def split: sum.splits if_splits)
next
  case (On n b)
  then show ?thesis using on_exec_inv[OF i ok] i by simp
qed (use i in \<open>auto simp: ens_inv_def unsettled_def\<close>)

lemma ensemble_run_inv:
  assumes "ens_inv en m" and "plans_ok (en_plans en)"
  shows "ens_inv en (ensemble_run en own as m)"
  using assms unfolding ensemble_run_def by (induction as arbitrary: m) (simp_all add: ensemble_step_inv)

lemma ensemble_inv_init: "ens_inv en (init_ensemble name workers pending)"
  by (simp add: ens_inv_def init_ensemble_def unsettled_def ensemble_capacity_def)

lemma ensemble_capacity_const: "em_capacity (ensemble_run en own as m) = em_capacity m"
proof -
  have "em_capacity (ensemble_step_event en own a m) = em_capacity m" for a m
    by (cases a) (auto simp: ensemble_infer_def on_exec_def Let_def split: sum.splits)
  then show ?thesis unfolding ensemble_run_def by (induction as arbitrary: m) simp_all
qed

section \<open>The work left\<close>

text \<open>A bound of the steps the tasks of an execution have still to take, those of the calls in flight and of the steps not started included.\<close>

definition dispatch_work :: "nat list \<Rightarrow> bool \<Rightarrow> nat" where
  "dispatch_work rest moved = 9 * length rest + (if moved then 5 else 1)"

fun task_work :: "ens_task \<Rightarrow> nat" where
  "task_work Begin_Task = 6"
| "task_work Set_Running = 5"
| "task_work Retire = 1"
| "task_work Pump = 4"
| "task_work (Dispatch rest moved) = dispatch_work rest moved"
| "task_work (Skip_Step i rest) = dispatch_work rest True + 1"
| "task_work (Call_Step i ns rest moved) = dispatch_work rest moved + 8"
| "task_work (Fail_With x rest moved) = dispatch_work rest moved + 1"
| "task_work Collect = 3"
| "task_work (Settle outs) = 1"
| "task_work (Write_Back i outs) = 6"
| "task_work Submit = 5"

definition work_left :: "ensemble_model \<Rightarrow> execution \<Rightarrow> nat" where
  "work_left en e = sum_list (map task_work (ex_tasks e)) + 7 * length (ex_flight e) + 9 * (length (en_plans en) - length (ex_started e))"

lemma work_quiet:
  assumes t: "ex_tasks e = xs @ t # ys" and t': "ex_tasks e' = xs @ ts @ ys" and s: "ex_started e' = ex_started e"
    and w: "sum_list (map task_work ts) + 7 * length (ex_flight e') < task_work t + 7 * length (ex_flight e)"
  shows "work_left en e' < work_left en e"
  using w by (simp add: work_left_def t t' s)

lemma started_at_most:
  assumes "sched_inv en e"
  shows "length (ex_started e) \<le> length (en_plans en)"
  using card_mono[OF finite_lessThan sched_invD(2)[OF assms]] distinct_card[OF sched_invD(1)[OF assms]] by simp

lemma work_pump:
  assumes i: "sched_inv en e" and ok: "plans_ok (en_plans en)" and t: "ex_tasks e = xs @ Pump # ys"
  shows "work_left en (pump en (length xs) e) < work_left en e"
proof (cases "ex_settled e \<or> take_ready en e = []")
  case True
  let ?ts = "if \<not> ex_settled e \<and> length (ex_finished e) = length (en_plans en) then [Collect] else []"
  have "pump en (length xs) e = swap_task (length xs) ?ts e" using True by (auto simp: pump_def Let_def)
  then show ?thesis by (intro work_quiet[OF t, where ts = ?ts]) (auto simp: t)
next
  case False
  have e: "ex_started (pump en (length xs) e) = ex_started e @ take_ready en e" using False by (simp add: pump_def Let_def)
  have "length (ex_started (pump en (length xs) e)) \<le> length (en_plans en)" by (rule started_at_most[OF sched_pump[OF i ok t]])
  then show ?thesis using False by (simp add: work_left_def e) (simp add: pump_def Let_def t dispatch_work_def)
qed

lemma work_run_task:
  assumes i: "sched_inv en e" and ok: "plans_ok (en_plans en)" and t: "ex_tasks e = xs @ t # ys"
  shows "work_left en (run_task en pool_open fate (length xs) e) < work_left en e"
proof (cases t)
  case Pump
  then show ?thesis using work_pump[OF i ok] t by (simp add: run_task_def)
next
  case (Dispatch todo moved)
  then show ?thesis by (cases todo) (auto simp: run_task_def t dispatch_work_def intro!: work_quiet[OF t])
next
  case (Call_Step k ns rest moved)
  then show ?thesis by (cases "attempt_call en fate k ns") (auto simp: run_task_def t dispatch_work_def intro!: work_quiet[OF t])
next
  case Set_Running
  then show ?thesis
    by (cases "set_running_or_notify_cancel (ex_future e)") (auto simp: run_task_def t split: prod.splits intro!: work_quiet[OF t])
qed (auto simp: run_task_def t dispatch_work_def Let_def split: sum.splits intro!: work_quiet[OF t])

lemma work_answer:
  assumes j: "j < length (ex_flight e)"
  shows "work_left en (answer_call en j e) < work_left en e"
proof -
  have "length (take j (ex_flight e) @ drop (Suc j) (ex_flight e)) + 1 = length (ex_flight e)" using j by simp
  then show ?thesis by (auto simp: work_left_def answer_call_def dispatch_work_def split: prod.splits sum.splits)
qed

definition acts :: "exec_event \<Rightarrow> execution \<Rightarrow> bool" where
  "acts a e = (case a of Run_Task k fate \<Rightarrow> k < length (ex_tasks e) | Answer_Call j \<Rightarrow> j < length (ex_flight e) | _ \<Rightarrow> False)"

lemma work_step:
  assumes i: "exec_inv en e" and ok: "plans_ok (en_plans en)"
  shows "work_left en (exec_step en pool_open a e) + (if acts a e then 1 else 0) \<le> work_left en e"
proof (cases a)
  case (Run_Task k fate)
  show ?thesis
  proof (cases "k < length (ex_tasks e)")
    case True
    then obtain xs t ys where t: "ex_tasks e = xs @ t # ys" "length xs = k" by (metis id_take_nth_drop length_take min.absorb4)
    show ?thesis using work_run_task[OF _ ok t(1), of pool_open fate] i t(2) True by (simp add: exec_inv_def Run_Task acts_def)
  qed (simp add: Run_Task acts_def)
next
  case (Answer_Call j)
  then show ?thesis using work_answer[of j e en] by (cases "j < length (ex_flight e)") (simp_all add: acts_def)
qed (simp_all add: acts_def work_left_def)

fun exec_moves :: "ensemble_model \<Rightarrow> (bool \<times> exec_event) list \<Rightarrow> execution \<Rightarrow> nat" where
  "exec_moves en [] e = 0"
| "exec_moves en ((pool_open, a) # as) e = (if acts a e then 1 else 0) + exec_moves en as (exec_step en pool_open a e)"

lemma exec_moves_bound:
  assumes "exec_inv en e" and "plans_ok (en_plans en)"
  shows "exec_moves en as e \<le> work_left en e"
  using assms(1)
proof (induction as arbitrary: e)
  case (Cons a as)
  obtain po b where a: "a = (po, b)" by force
  show ?case using Cons.IH[OF exec_inv_step[OF Cons.prems assms(2)], of po b] work_step[OF Cons.prems assms(2), of po b] unfolding a exec_moves.simps
    by linarith
qed simp

section \<open>A started ensemble\<close>

text \<open>\<^verbatim>\<open>detect\<close> makes boxes of the images, \<^verbatim>\<open>refine\<close> rewrites them in place, \<^verbatim>\<open>embed\<close> runs when there are any and \<^verbatim>\<open>count\<close> only reads the images.\<close>

definition named_spec :: "string \<Rightarrow> tensor_spec" where
  "named_spec n = \<lparr>sname = n, sdtype = FP32, sshape = [2], optional = False\<rparr>"

definition sample_signature :: "string \<Rightarrow> signature option" where
  "sample_signature n =
     (if n = ''detect'' then Some \<lparr>sn_inputs = [named_spec ''images''], sn_outputs = [named_spec ''boxes'']\<rparr>
      else if n = ''refine'' then Some \<lparr>sn_inputs = [named_spec ''boxes''], sn_outputs = [named_spec ''boxes'']\<rparr>
      else if n = ''embed'' then Some \<lparr>sn_inputs = [named_spec ''crops''], sn_outputs = [named_spec ''emb'']\<rparr>
      else if n = ''count'' then Some \<lparr>sn_inputs = [named_spec ''images''], sn_outputs = [named_spec ''total'']\<rparr>
      else None)"

definition sample_step :: "string \<Rightarrow> (string, string) dict \<Rightarrow> string option \<Rightarrow> ensemble_step" where
  "sample_step n ins cond = \<lparr>es_model = n, es_version = None, input_map = ins, output_map = [], condition = cond\<rparr>"

definition sample_steps :: "ensemble_step list" where
  "sample_steps = [sample_step ''detect'' [] None, sample_step ''refine'' [] None,
     sample_step ''embed'' [(''crops'', ''boxes'')] (Some ''boxes''), sample_step ''count'' [] None]"

definition sample_own :: signature where
  "sample_own = \<lparr>sn_inputs = [named_spec ''images''], sn_outputs = [named_spec ''emb'', named_spec ''total'']\<rparr>"

definition sample_plans :: "step_plan list" where
  "sample_plans = (case ensemble_start sample_signature sample_own sample_steps of Inl x \<Rightarrow> [] | Inr plans \<Rightarrow> plans)"

text \<open>Each model answers with its first input under the name of its output.\<close>

definition sample_call :: "nat \<Rightarrow> namespace \<Rightarrow> err + namespace" where
  "sample_call i ins = (case ins of [] \<Rightarrow> Inl InferenceError | nt # rest \<Rightarrow> Inr [([''boxes'', ''boxes'', ''emb'', ''total''] ! i, snd nt)])"

definition sample_model :: ensemble_model where
  "sample_model = started_ensemble sample_signature sample_own sample_call sample_plans"

definition sample_image :: tensor where
  "sample_image = projr (from_numpy \<lparr>nd_dtype = numpy_dtype FP32, nd_shape = [1, 2], nd_data = [3, 4]\<rparr>)"

definition sample_request :: namespace where
  "sample_request = [(''images'', sample_image)]"

definition go :: "nat \<Rightarrow> ens_event" where
  "go k = On 0 (Run_Task k Accepted)"

lemma sample_starts: "ensemble_start sample_signature sample_own sample_steps = Inr (en_plans sample_model)"
  by code_simp

text \<open>\<^verbatim>\<open>count\<close> answers before \<^verbatim>\<open>detect\<close> does.\<close>

definition sample_ens_run :: "ens_event list" where
  "sample_ens_run = Infer sample_request # replicate 12 (go 0) @ [On 0 (Answer_Call 1)] @ replicate 12 (go 0) @
     concat (replicate 3 (On 0 (Answer_Call 0) # replicate 12 (go 0)))"

definition sample_ens_end :: ensemble_state where
  "sample_ens_end = ensemble_run sample_model sample_own sample_ens_run (init_ensemble ''e'' 1 1)"

definition sample_exec :: execution where
  "sample_exec = em_execs sample_ens_end ! 0"

lemma sample_exec_end: "em_execs sample_ens_end = [sample_exec] \<and> ex_tasks sample_exec = [] \<and> ex_flight sample_exec = [] \<and>
    ex_future sample_exec = RESULT \<and> em_slots sample_ens_end = 1"
  by code_simp

section \<open>Properties\<close>

text \<open>
  C37: nobody waits for ever.  In any state that the ensemble reaches, whatever the interleaving of pool threads and answering models, whatever fails, is cancelled or is
  stopped: an execution for which no task is left and no call is outstanding has claimed its end, and its caller's future is resolved or cancelled.
\<close>

theorem ensemble_never_hangs:
  assumes start: "ensemble_start resolve own steps = Inr (en_plans en)"
    and e: "e \<in> set (em_execs (ensemble_run en own as (init_ensemble name workers pending)))" and q: "ex_tasks e = []" "ex_flight e = []"
  shows "ex_settled e \<and> ex_future e \<noteq> PENDING \<and> ex_future e \<noteq> RUNNING"
proof -
  note ok = started_plans_ok(1)[OF start]
  have i: "exec_inv en e" using ensemble_run_inv[OF ensemble_inv_init ok] e by (auto simp: ens_inv_def)
  then have "ex_settled e" using ok q by (rule exec_quiet_settled)
  then show ?thesis using i future_okD(2) by (auto simp: exec_inv_def)
qed

lemma ensemble_never_hangs_witness:
  "ex_settled sample_exec \<and> ex_future sample_exec \<noteq> PENDING \<and> ex_future sample_exec \<noteq> RUNNING"
  by (rule ensemble_never_hangs[OF sample_starts, where as = sample_ens_run and name = "''e''" and workers = 1 and pending = 1])
    (use sample_exec_end in \<open>simp_all add: sample_ens_end_def\<close>)

text \<open>
  C38: and it gets there.  From its admission on, an execution takes at most nine steps for each step of the graph and six more, counted over everything its tasks and its
  calls do in any interleaving: the loop of \<^verbatim>\<open>_pump\<close> cannot spin.
\<close>

theorem execution_terminates:
  assumes "ensemble_start resolve own steps = Inr (en_plans en)"
  shows "exec_moves en as (new_execution given) \<le> 9 * length steps + 6"
proof -
  have "work_left en (new_execution given) = 9 * length steps + 6"
    using started_plans_ok(2)[OF assms] by (auto simp: work_left_def new_execution_def)
  then show ?thesis using exec_moves_bound[OF exec_inv_new(1) started_plans_ok(1)[OF assms]] by metis
qed

lemma execution_terminates_witness:
  "exec_moves sample_model (replicate 50 (True, Run_Task 0 Accepted)) (new_execution sample_request) \<le> 9 * length sample_steps + 6"
  by (rule execution_terminates[OF sample_starts])



text \<open>
  A step is claimed once.  In every reachable state of an execution each step of the graph is in one place at most: claimed by a thread that has yet to dispatch it,
  called, writing back, or finished; two threads that pump at the same time never call a model twice for one request.
\<close>

theorem step_claimed_once:
  assumes "ensemble_start resolve own steps = Inr (en_plans en)"
    and "e \<in> set (em_execs (ensemble_run en own as (init_ensemble name workers pending)))"
  shows "distinct (pending_steps e) \<and> set (pending_steps e) \<subseteq> set (ex_started e) \<and> set (ex_started e) \<subseteq> {..<length steps}"
proof -
  have s: "sched_inv en e" using ensemble_run_inv[OF ensemble_inv_init started_plans_ok(1)[OF assms(1)]] assms(2) by (auto simp: ens_inv_def exec_inv_def)
  have len: "length (en_plans en) = length steps" using started_plans_ok(2)[OF assms(1)] by (metis length_map)
  have sub: "mset (pending_steps e) \<subseteq># mset (ex_started e)" by (rule sched_invD(3)[OF s])
  have "count (mset (pending_steps e)) x \<le> 1" for x
    using mset_subset_eq_count[OF sub, of x] sched_invD(1)[OF s] by (metis distinct_count_atmost_1 le_trans nat_le_linear zero_le_one)
  then have "distinct (pending_steps e)" by (metis distinct_count_atmost_1 le_neq_implies_less less_one count_eq_zero_iff set_mset_mset)
  then show ?thesis using set_mset_mono[OF sub] sched_invD(2)[OF s] len by simp
qed

lemma step_claimed_once_witness:
  "distinct (pending_steps sample_exec) \<and> set (pending_steps sample_exec) \<subseteq> set (ex_started sample_exec) \<and> set (ex_started sample_exec) \<subseteq> {..<length sample_steps}"
  by (rule step_claimed_once[OF sample_starts, where as = sample_ens_run and name = "''e''" and workers = 1 and pending = 1])
    (use sample_exec_end in \<open>simp add: sample_ens_end_def\<close>)

end
