(* ===== verification/Ensemble_Walk.thy ===== *)
theory Ensemble_Walk
  imports Ensemble_Schedule
begin

text \<open>
  An ensemble answers like the sequential walk of its steps: whatever ran at the same time and in whatever order it finished, a step read what the steps before it left.
  The invariant carries the outcome of every finished step and says that the namespace is what these outcomes leave when they are written in the order of declaration.
\<close>

section \<open>What a step depends on\<close>

abbreviation agree :: "string set \<Rightarrow> namespace \<Rightarrow> namespace \<Rightarrow> bool" where
  "agree X ns ns' \<equiv> \<forall>x \<in> X. map_of ns x = map_of ns' x"

definition names_read :: "ensemble_model \<Rightarrow> nat \<Rightarrow> string set" where
  "names_read en i = set (sp_reads (en_plans en ! i))"

definition names_written :: "ensemble_model \<Rightarrow> nat \<Rightarrow> string set" where
  "names_written en i = set (sp_writes (en_plans en ! i))"

definition graph_ok :: "ensemble_model \<Rightarrow> bool" where
  "graph_ok en \<longleftrightarrow> plans_ok (en_plans en) \<and>
     (\<forall>i < length (en_plans en). (has_condition (step_of en i) \<longrightarrow> the (condition (step_of en i)) \<in> names_read en i) \<and>
        (\<forall>spec \<in> set (en_specs en i). renamed (input_map (step_of en i)) (sname spec) \<in> names_read en i) \<and>
        (\<forall>ins outs. en_call en i ins = Inr outs \<longrightarrow> (\<forall>nt \<in> set outs. renamed (output_map (step_of en i)) (fst nt) \<in> names_written en i)))"

lemma graph_okD:
  assumes "graph_ok en"
  shows "plans_ok (en_plans en)"
    "i < length (en_plans en) \<Longrightarrow> has_condition (step_of en i) \<Longrightarrow> the (condition (step_of en i)) \<in> names_read en i"
    "i < length (en_plans en) \<Longrightarrow> spec \<in> set (en_specs en i) \<Longrightarrow> renamed (input_map (step_of en i)) (sname spec) \<in> names_read en i"
    "i < length (en_plans en) \<Longrightarrow> en_call en i ins = Inr outs \<Longrightarrow> nt \<in> set outs \<Longrightarrow> renamed (output_map (step_of en i)) (fst nt) \<in> names_written en i"
  using assms unfolding graph_ok_def by blast+

lemma skipped_cong:
  assumes "graph_ok en" and "i < length (en_plans en)" and "agree (names_read en i) ns ns'"
  shows "is_skipped (step_of en i) ns = is_skipped (step_of en i) ns'"
  using graph_okD(2)[OF assms(1,2)] assms(3) by (simp add: is_skipped_def)

lemma step_inputs_cong:
  assumes "\<And>spec. spec \<in> set specs \<Longrightarrow> map_of ns (renamed (input_map s) (sname spec)) = map_of ns' (renamed (input_map s) (sname spec))"
  shows "step_inputs s specs ns = step_inputs s specs ns'"
  using assms by (induction specs) (auto split: option.splits)

lemma inputs_cong:
  assumes "graph_ok en" and "i < length (en_plans en)" and "agree (names_read en i) ns ns'"
  shows "step_inputs (step_of en i) (en_specs en i) ns = step_inputs (step_of en i) (en_specs en i) ns'"
  using graph_okD(3)[OF assms(1,2)] assms(3) by (intro step_inputs_cong) blast

lemma walk_step_cong:
  assumes "graph_ok en" and "i < length (en_plans en)" and "agree (names_read en i) ns ns'"
  shows "walk_step en i ns = walk_step en i ns'"
  unfolding walk_step_def using skipped_cong[OF assms] inputs_cong[OF assms] by simp

lemma collect_cong: "map_of ns = map_of ns' \<Longrightarrow> collect_outputs specs ns = collect_outputs specs ns'"
  by (simp add: collect_outputs_def)

text \<open>A name that a step reads is written before it by a step it waits for, and never after it.\<close>

lemma no_late_writer:
  assumes "graph_ok en" and "i < length (en_plans en)" "j < length (en_plans en)" and "x \<in> names_read en i" "x \<in> names_written en j"
  shows "j = i \<or> j \<in> waits en i"
proof -
  have ok: "sp_index (en_plans en ! k) = k" if "k < length (en_plans en)" for k using graph_okD(1)[OF assms(1)] that by (simp add: plans_ok_def)
  have "\<not> i < j"
  proof
    assume "i < j"
    let ?p = "en_plans en ! i" and ?q = "en_plans en ! j"
    have "?p \<in> set (en_plans en)" "?q \<in> set (en_plans en)" "sp_index ?p < sp_index ?q" "x \<in> set (sp_reads ?p)" "x \<in> set (sp_writes ?q)"
      using \<open>i < j\<close> assms(2-5) ok by (simp_all add: names_read_def names_written_def)
    then have "late_producers (en_plans en)" unfolding late_producers_def list_ex_iff by blast
    then show False using graph_okD(1)[OF assms(1)] by (simp add: plans_ok_def)
  qed
  moreover have "j \<in> waits en i" if "j < i"
  proof -
    let ?p = "en_plans en ! i" and ?q = "en_plans en ! j"
    have "?q \<in> set (en_plans en)" "sp_index ?q < sp_index ?p" "x \<in> set (sp_reads ?p)" "x \<in> set (sp_writes ?q)" "sp_index ?q = j"
      using that assms(2-5) ok by (simp_all add: names_read_def names_written_def)
    then show ?thesis unfolding waits_def waits_on_def list_ex_iff by (auto intro!: image_eqI[of j sp_index ?q])
  qed
  ultimately show ?thesis by (meson linorder_neqE_nat)
qed

section \<open>What the finished steps leave\<close>

fun effect_of :: "ensemble_step \<Rightarrow> namespace \<Rightarrow> string \<Rightarrow> tensor option" where
  "effect_of s [] = Map.empty"
| "effect_of s (nt # outs) = [renamed (output_map s) (fst nt) \<mapsto> snd nt] ++ effect_of s outs"

lemma write_all_lookup: "map_of (write_all s outs ns) = map_of ns ++ effect_of s outs"
proof (induction outs arbitrary: ns)
  case (Cons nt outs)
  have "write_all s (nt # outs) ns = write_all s outs (AList.update (renamed (output_map s) (fst nt)) (snd nt) ns)" by (simp add: write_all_def case_prod_beta)
  then show ?case by (auto simp: Cons update_conv' map_add_def split: option.splits)
qed (simp add: write_all_def)

lemma write_outputs_lookup:
  "fold (write_output k s) outs (ns, wb) = (ns', wb') \<Longrightarrow>
   (\<forall>x. map_of ns' x = (if effect_of s outs x \<noteq> None \<and> (case map_of wb x of None \<Rightarrow> True | Some j \<Rightarrow> j \<le> k) then effect_of s outs x else map_of ns x)) \<and>
   (\<forall>x. map_of wb' x = (if effect_of s outs x \<noteq> None \<and> (case map_of wb x of None \<Rightarrow> True | Some j \<Rightarrow> j \<le> k) then Some k else map_of wb x))"
proof (induction outs arbitrary: ns wb)
  case (Cons nt outs)
  let ?t = "renamed (output_map s) (fst nt)"
  obtain ns1 wb1 where w: "write_output k s nt (ns, wb) = (ns1, wb1)" by force
  have ih: "fold (write_output k s) outs (ns1, wb1) = (ns', wb')" using Cons.prems w by simp
  show ?case
  proof (cases "case map_of wb ?t of None \<Rightarrow> True | Some j \<Rightarrow> j \<le> k")
    case True
    then have 1: "map_of ns1 = (map_of ns)(?t \<mapsto> snd nt)" "map_of wb1 = (map_of wb)(?t \<mapsto> k)" using w by (auto simp: write_output_def Let_def update_conv')
    show ?thesis using Cons.IH[OF ih] True unfolding 1 by (auto simp: map_add_def split: option.splits)
  next
    case False
    then have 1: "ns1 = ns" "wb1 = wb" using w by (auto simp: write_output_def Let_def)
    show ?thesis using Cons.IH[OF ih] False unfolding 1 by (auto simp: map_add_def split: option.splits)
  qed
qed simp

definition effect :: "ensemble_model \<Rightarrow> (nat \<Rightarrow> namespace option) \<Rightarrow> nat \<Rightarrow> string \<Rightarrow> tensor option" where
  "effect en outc i = (case outc i of None \<Rightarrow> Map.empty | Some outs \<Rightarrow> effect_of (step_of en i) outs)"

text \<open>The namespace that the steps of \<open>F\<close> below \<open>i\<close> leave when they run in the order of their declaration, and who wrote what in it.\<close>

primrec prefix_ns :: "ensemble_model \<Rightarrow> nat set \<Rightarrow> (nat \<Rightarrow> namespace option) \<Rightarrow> namespace \<Rightarrow> nat \<Rightarrow> namespace" where
  "prefix_ns en F outc given 0 = given"
| "prefix_ns en F outc given (Suc i) =
     (if i \<in> F then case outc i of None \<Rightarrow> prefix_ns en F outc given i | Some outs \<Rightarrow> write_all (step_of en i) outs (prefix_ns en F outc given i)
      else prefix_ns en F outc given i)"

primrec last_writer :: "ensemble_model \<Rightarrow> nat set \<Rightarrow> (nat \<Rightarrow> namespace option) \<Rightarrow> nat \<Rightarrow> string \<Rightarrow> nat option" where
  "last_writer en F outc 0 = Map.empty"
| "last_writer en F outc (Suc i) = (\<lambda>x. if i \<in> F \<and> effect en outc i x \<noteq> None then Some i else last_writer en F outc i x)"

lemma prefix_ns_Suc: "map_of (prefix_ns en F outc given (Suc i)) x =
    (if i \<in> F \<and> effect en outc i x \<noteq> None then effect en outc i x else map_of (prefix_ns en F outc given i) x)"
  by (auto simp: effect_def write_all_lookup map_add_def split: option.splits)

lemma last_writer_below: "last_writer en F outc i x = Some j \<Longrightarrow> j < i \<and> j \<in> F"
  by (induction i) (auto split: if_splits)

lemma prefix_lookup:
  "map_of (prefix_ns en F outc given i) x = (case last_writer en F outc i x of None \<Rightarrow> map_of given x | Some j \<Rightarrow> effect en outc j x)"
  by (induction i) (auto simp: prefix_ns_Suc simp del: prefix_ns.simps(2))

lemma effect_cong: "outc' j = outc j \<Longrightarrow> effect en outc' j = effect en outc j"
  by (simp add: effect_def)

lemma last_writer_insert:
  assumes "k \<notin> F" and o: "\<And>j. j \<noteq> k \<Longrightarrow> outc' j = outc j"
  shows "last_writer en (insert k F) outc' i x =
    (if k < i \<and> effect en outc' k x \<noteq> None \<and> (case last_writer en F outc i x of None \<Rightarrow> True | Some j \<Rightarrow> j \<le> k) then Some k else last_writer en F outc i x)"
proof (induction i)
  case (Suc i)
  show ?case
  proof (cases "i = k")
    case True
    have "case last_writer en F outc k x of None \<Rightarrow> True | Some j \<Rightarrow> j \<le> k"
      using last_writer_below[of en F outc k x] by (auto split: option.splits intro: less_imp_le)
    then show ?thesis using Suc True assms(1) by simp
  next
    case False
    have e: "effect en outc' i x = effect en outc i x" using effect_cong[of outc' i outc] o[OF False] by simp
    show ?thesis using Suc False e by (cases "i \<in> F \<and> effect en outc i x \<noteq> None") (auto split: option.splits)
  qed
qed simp

lemma prefix_insert:
  assumes "k \<notin> F" and o: "\<And>j. j \<noteq> k \<Longrightarrow> outc' j = outc j" and "i \<le> k \<or> effect en outc' k x = None"
  shows "map_of (prefix_ns en (insert k F) outc' given i) x = map_of (prefix_ns en F outc given i) x"
proof -
  have w: "last_writer en (insert k F) outc' i x = last_writer en F outc i x" using assms(3) by (subst last_writer_insert[OF assms(1) o]) auto
  have "effect en outc' j x = effect en outc j x" if "last_writer en F outc i x = Some j" for j
    using last_writer_below[OF that] assms(1) effect_cong[of outc' j outc en] o by metis
  then show ?thesis unfolding prefix_lookup w by (auto split: option.splits)
qed

lemma prefix_tail:
  assumes "i \<le> m" and "\<And>j. i \<le> j \<Longrightarrow> j < m \<Longrightarrow> j \<in> F \<Longrightarrow> effect en outc j x = None"
  shows "map_of (prefix_ns en F outc given m) x = map_of (prefix_ns en F outc given i) x"
  using assms
proof (induction m)
  case (Suc m)
  show ?case
  proof (cases "i = Suc m")
    case False
    then have "map_of (prefix_ns en F outc given m) x = map_of (prefix_ns en F outc given i) x" using Suc by simp
    then show ?thesis using False Suc.prems by (auto simp: prefix_ns_Suc simp del: prefix_ns.simps(2))
  qed simp
qed simp

lemma walk_steps_prefix:
  assumes "\<And>j. j < i + k \<Longrightarrow> j \<in> F \<and> walk_step en j (prefix_ns en F outc given j) = Inr (outc j)"
  shows "walk_steps en i k (prefix_ns en F outc given i) = Inr (prefix_ns en F outc given (i + k))"
  using assms
proof (induction k arbitrary: i)
  case (Suc k)
  have w: "i \<in> F" "walk_step en i (prefix_ns en F outc given i) = Inr (outc i)" using Suc.prems[of i] by simp_all
  have "walk_steps en i (Suc k) (prefix_ns en F outc given i) = walk_steps en (Suc i) k (prefix_ns en F outc given (Suc i))"
    using w by (simp add: rbind_def split: option.splits)
  then show ?case using Suc.IH[of "Suc i"] Suc.prems by simp
qed simp

section \<open>The invariant of the data\<close>

definition task_ok :: "ensemble_model \<Rightarrow> nat set \<Rightarrow> (nat \<Rightarrow> namespace) \<Rightarrow> ens_task \<Rightarrow> bool" where
  "task_ok en F P t = (case t of
      Skip_Step i rest \<Rightarrow> is_skipped (step_of en i) (P i)
    | Call_Step i ns rest moved \<Rightarrow> \<not> is_skipped (step_of en i) (P i) \<and> agree (names_read en i) ns (P i)
    | Write_Back i outs \<Rightarrow> walk_step en i (P i) = Inr (Some outs)
    | Collect \<Rightarrow> F = {..<length (en_plans en)}
    | Settle outs \<Rightarrow> F = {..<length (en_plans en)} \<and> collect_outputs (en_outputs en) (P (length (en_plans en))) = Inr outs
    | _ \<Rightarrow> True)"

definition flight_ok :: "ensemble_model \<Rightarrow> (nat \<Rightarrow> namespace) \<Rightarrow> nat \<times> namespace \<Rightarrow> bool" where
  "flight_ok en P c \<longleftrightarrow> \<not> is_skipped (step_of en (fst c)) (P (fst c)) \<and> step_inputs (step_of en (fst c)) (en_specs en (fst c)) (P (fst c)) = Inr (snd c)"

definition data_ok :: "ensemble_model \<Rightarrow> (nat \<Rightarrow> namespace option) \<Rightarrow> execution \<Rightarrow> bool" where
  "data_ok en outc e \<longleftrightarrow> (let F = set (ex_finished e); P = prefix_ns en F outc (ex_request e); n = length (en_plans en) in
     (\<forall>i \<in> set (ex_started e). waits en i \<subseteq> F) \<and> (\<forall>i \<in> F. walk_step en i (P i) = Inr (outc i)) \<and>
     map_of (ex_namespace e) = map_of (P n) \<and> map_of (ex_written_by e) = last_writer en F outc n \<and>
     (\<forall>c \<in> set (ex_flight e). flight_ok en P c) \<and> (\<forall>t \<in> set (ex_tasks e). task_ok en F P t))"

lemma data_okD:
  assumes "data_ok en outc e"
  defines "F \<equiv> set (ex_finished e)"
  defines "P \<equiv> prefix_ns en F outc (ex_request e)"
  shows "i \<in> set (ex_started e) \<Longrightarrow> waits en i \<subseteq> F" "i \<in> F \<Longrightarrow> walk_step en i (P i) = Inr (outc i)"
    "map_of (ex_namespace e) = map_of (P (length (en_plans en)))" "map_of (ex_written_by e) = last_writer en F outc (length (en_plans en))"
    "c \<in> set (ex_flight e) \<Longrightarrow> flight_ok en P c" "t \<in> set (ex_tasks e) \<Longrightarrow> task_ok en F P t"
  using assms(1) unfolding data_ok_def Let_def F_def P_def by (elim conjE; simp)+

text \<open>Nothing that counts changes but the tasks and the calls.\<close>

lemma data_quiet:
  assumes d: "data_ok en outc e" and s: "ex_finished e' = ex_finished e" "ex_request e' = ex_request e" "ex_namespace e' = ex_namespace e"
      "ex_written_by e' = ex_written_by e" "\<And>i. i \<in> set (ex_started e') \<Longrightarrow> i \<in> set (ex_started e) \<or> waits en i \<subseteq> set (ex_finished e)"
    and f: "\<And>c. c \<in> set (ex_flight e') \<Longrightarrow> c \<in> set (ex_flight e) \<or> flight_ok en (prefix_ns en (set (ex_finished e)) outc (ex_request e)) c"
    and t: "\<And>u. u \<in> set (ex_tasks e') \<Longrightarrow> u \<in> set (ex_tasks e) \<or> task_ok en (set (ex_finished e)) (prefix_ns en (set (ex_finished e)) outc (ex_request e)) u"
  shows "data_ok en outc e'"
  unfolding data_ok_def Let_def s(1-4)
proof (intro conjI ballI)
  show "waits en i \<subseteq> set (ex_finished e)" if "i \<in> set (ex_started e')" for i using s(5)[OF that] data_okD(1)[OF d] by blast
  show "walk_step en i (prefix_ns en (set (ex_finished e)) outc (ex_request e) i) = Inr (outc i)" if "i \<in> set (ex_finished e)" for i using data_okD(2)[OF d that] .
  show "flight_ok en (prefix_ns en (set (ex_finished e)) outc (ex_request e)) c" if "c \<in> set (ex_flight e')" for c using f[OF that] data_okD(5)[OF d] by blast
  show "task_ok en (set (ex_finished e)) (prefix_ns en (set (ex_finished e)) outc (ex_request e)) u" if "u \<in> set (ex_tasks e')" for u
    using t[OF that] data_okD(6)[OF d] by blast
qed (fact data_okD(3)[OF d] data_okD(4)[OF d])+

lemma mset_twice: "distinct xs \<Longrightarrow> add_mset x (add_mset x M) \<subseteq># mset xs \<Longrightarrow> False"
  using mset_subset_eq_count[of "add_mset x (add_mset x M)" "mset xs" x] distinct_count_atmost_1[of xs] by (auto split: if_splits)

lemma pending_apart:
  assumes s: "sched_inv en e" and i: "t \<in> set (ex_tasks e) \<and> i \<in> set (pend t) \<or> i \<in> fst ` set (ex_flight e)"
  shows "i \<in> set (ex_started e)" "i \<notin> set (ex_finished e)" "i < length (en_plans en)"
proof -
  let ?early = "concat (map pend (ex_tasks e)) @ map fst (ex_flight e)"
  have e: "i \<in> set ?early" using i by auto
  have m: "mset (pending_steps e) = mset ?early + mset (ex_finished e)" by (simp add: pending_steps_def)
  show st: "i \<in> set (ex_started e)" using set_mset_mono[OF sched_invD(3)[OF s]] e unfolding m by auto
  then show "i < length (en_plans en)" using sched_invD(2)[OF s] by auto
  show "i \<notin> set (ex_finished e)"
  proof
    assume "i \<in> set (ex_finished e)"
    then obtain A B where "mset ?early = add_mset i A" "mset (ex_finished e) = add_mset i B" using e by (metis insert_DiffM set_mset_mset)
    then have "add_mset i (add_mset i (A + B)) \<subseteq># mset (ex_started e)" using sched_invD(3)[OF s] unfolding m by simp
    then show False by (rule mset_twice[OF sched_invD(1)[OF s]])
  qed
qed

lemma walk_step_named:
  assumes "graph_ok en" and "i < length (en_plans en)" and "walk_step en i ns = Inr (outc i)" and "effect en outc i x \<noteq> None"
  shows "x \<in> names_written en i"
proof -
  obtain outs where o: "outc i = Some outs" using assms(4) by (cases "outc i") (simp_all add: effect_def)
  then obtain ins where "en_call en i ins = Inr outs" using assms(3) by (auto simp: walk_step_def rbind_Inr_iff split: if_splits)
  note named = graph_okD(4)[OF assms(1,2) this]
  have img: "x \<in> (\<lambda>nt. renamed (output_map s) (fst nt)) ` set outs" if "effect_of s outs x \<noteq> None" for s outs
    using that by (induction outs) (auto simp: map_add_def split: option.splits if_splits)
  have "effect_of (step_of en i) outs x \<noteq> None" using assms(4) o by (simp add: effect_def)
  from img[OF this] show ?thesis using named by blast
qed

text \<open>The namespace is good to read for a step that has not finished: nothing after it has written what it reads.\<close>

lemma current_agree:
  assumes g: "graph_ok en" and s: "sched_inv en e" and d: "data_ok en outc e" and i: "i < length (en_plans en)" "i \<notin> set (ex_finished e)"
  shows "agree (names_read en i) (ex_namespace e) (prefix_ns en (set (ex_finished e)) outc (ex_request e) i)"
proof
  fix x assume x: "x \<in> names_read en i"
  have "effect en outc j x = None" if j: "i \<le> j" "j \<in> set (ex_finished e)" for j
  proof (rule ccontr)
    assume "effect en outc j x \<noteq> None"
    moreover have jn: "j < length (en_plans en)" using finished_within(3)[OF s] j(2) by auto
    ultimately have "x \<in> names_written en j" using walk_step_named[where outc = outc, OF g _ data_okD(2)[OF d j(2)]] by blast
    then have "j = i \<or> j \<in> waits en i" by (rule no_late_writer[OF g i(1) jn x])
    then show False using waits_below[OF graph_okD(1)[OF g] i(1)] j i(2) by force
  qed
  then show "map_of (ex_namespace e) x = map_of (prefix_ns en (set (ex_finished e)) outc (ex_request e) i) x"
    using i(1) by (subst data_okD(3)[OF d], intro prefix_tail) auto
qed

text \<open>Finishing a step leaves alone what the started steps read.\<close>

lemma finish_agree:
  assumes g: "graph_ok en" and s: "sched_inv en e" and d: "data_ok en outc e" and k: "k < length (en_plans en)" "k \<notin> set (ex_finished e)"
    and w: "walk_step en k ns = Inr (outc' k)" and o: "\<And>j. j \<noteq> k \<Longrightarrow> outc' j = outc j" and i: "i \<in> set (ex_started e)"
  shows "agree (names_read en i) (prefix_ns en (set (ex_finished e)) outc (ex_request e) i) (prefix_ns en (insert k (set (ex_finished e))) outc' (ex_request e) i)"
proof
  fix x assume x: "x \<in> names_read en i"
  have i_n: "i < length (en_plans en)" using sched_invD(2)[OF s] i by auto
  have "i \<le> k \<or> effect en outc' k x = None"
  proof (rule ccontr)
    assume a: "\<not> ?thesis"
    then have "x \<in> names_written en k" using walk_step_named[where outc = outc', OF g k(1) w] by blast
    then have "k = i \<or> k \<in> waits en i" by (rule no_late_writer[OF g i_n k(1) x])
    then show False using data_okD(1)[OF d i] k(2) a by auto
  qed
  then show "map_of (prefix_ns en (set (ex_finished e)) outc (ex_request e) i) x = map_of (prefix_ns en (insert k (set (ex_finished e))) outc' (ex_request e) i) x"
    by (intro prefix_insert[symmetric] k(2) o)
qed

lemma data_finish:
  assumes g: "graph_ok en" and s: "sched_inv en e" and d: "data_ok en outc e" and k: "k < length (en_plans en)" "k \<notin> set (ex_finished e)"
    and w: "walk_step en k (prefix_ns en (set (ex_finished e)) outc (ex_request e) k) = Inr (outc' k)" and o: "\<And>j. j \<noteq> k \<Longrightarrow> outc' j = outc j"
    and ks: "k \<in> set (ex_started e)"
    and e': "ex_started e' = ex_started e" "ex_request e' = ex_request e" "ex_finished e' = ex_finished e @ [k]"
    and ns: "\<And>x. map_of (ex_namespace e') x = (if effect en outc' k x \<noteq> None \<and> (case map_of (ex_written_by e) x of None \<Rightarrow> True | Some j \<Rightarrow> j \<le> k)
      then effect en outc' k x else map_of (ex_namespace e) x)"
    and wb: "\<And>x. map_of (ex_written_by e') x = (if effect en outc' k x \<noteq> None \<and> (case map_of (ex_written_by e) x of None \<Rightarrow> True | Some j \<Rightarrow> j \<le> k)
      then Some k else map_of (ex_written_by e) x)"
    and f: "set (ex_flight e') \<subseteq> set (ex_flight e)"
    and t: "\<And>u. u \<in> set (ex_tasks e') \<Longrightarrow> u \<in> set (ex_tasks e) \<or> (\<forall>F P. task_ok en F P u)"
  shows "data_ok en outc' e'"
proof -
  let ?F = "set (ex_finished e)" let ?P = "prefix_ns en ?F outc (ex_request e)" let ?n = "length (en_plans en)"
  let ?P' = "prefix_ns en (insert k ?F) outc' (ex_request e)"
  note lw = data_okD(4)[OF d]
  have ag: "agree (names_read en i) (?P i) (?P' i)" "i < ?n" if "i \<in> set (ex_started e)" for i
    using finish_agree[where outc = outc and outc' = outc', OF g s d k w _ that] o sched_invD(2)[OF s] that by auto
  have lwi: "last_writer en (insert k ?F) outc' ?n x = (if k < ?n \<and> effect en outc' k x \<noteq> None \<and> (case last_writer en ?F outc ?n x of None \<Rightarrow> True | Some j \<Rightarrow> j \<le> k)
      then Some k else last_writer en ?F outc ?n x)" for x by (rule last_writer_insert[OF k(2)]) (rule o)
  have lwb: "map_of (ex_written_by e') = last_writer en (insert k ?F) outc' ?n" by (rule ext) (simp only: lwi wb lw k(1) simp_thms)
  have old: "effect en outc' j x = effect en outc j x" if "last_writer en ?F outc ?n x = Some j" for j x
    using last_writer_below[OF that] k(2) effect_cong[of outc' j outc en] o by metis
  have nsp: "map_of (ex_namespace e') = map_of (?P' ?n)"
  proof
    fix x
    show "map_of (ex_namespace e') x = map_of (?P' ?n) x"
      unfolding ns lw data_okD(3)[OF d] prefix_lookup lwi using k(1) old by (auto split: option.splits)
  qed
  have F': "set (ex_finished e') = insert k ?F" by (simp add: e')
  show ?thesis unfolding data_ok_def Let_def F' e'(1,2)
  proof (intro conjI ballI)
    show "waits en i \<subseteq> insert k ?F" if "i \<in> set (ex_started e)" for i using data_okD(1)[OF d that] by blast
    show "walk_step en i (?P' i) = Inr (outc' i)" if i: "i \<in> insert k ?F" for i
    proof -
      have i_st: "i \<in> set (ex_started e)" using i ks finished_within(2)[OF s] by blast
      have "walk_step en i (?P i) = Inr (outc' i)" using i w data_okD(2)[OF d, of i] k(2) o by (cases "i = k") auto
      then show ?thesis using walk_step_cong[OF g ag(2)[OF i_st] ag(1)[OF i_st]] by simp
    qed
    show "flight_ok en ?P' c" if "c \<in> set (ex_flight e')" for c
    proof -
      have c: "c \<in> set (ex_flight e)" using f that by blast
      then have i_st: "fst c \<in> set (ex_started e)" using pending_apart(1)[OF s] by blast
      then show ?thesis using data_okD(5)[OF d c] skipped_cong[OF g ag(2) ag(1)] inputs_cong[OF g ag(2) ag(1)] by (simp add: flight_ok_def)
    qed
    show "task_ok en (insert k ?F) ?P' u" if u: "u \<in> set (ex_tasks e')" for u
    proof (cases "u \<in> set (ex_tasks e)")
      case True
      note ok = data_okD(6)[OF d True]
      have st: "i \<in> set (ex_started e)" if "i \<in> set (pend u)" for i using pending_apart(1)[OF s] True that by blast
      have full: "?F \<noteq> {..<?n}" using k by auto
      show ?thesis
      proof (cases u)
        case (Skip_Step i rest)
        then have "i \<in> set (ex_started e)" using st by (simp add: pend_def)
        then show ?thesis using ok skipped_cong[OF g ag(2) ag(1)] by (simp add: task_ok_def Skip_Step)
      next
        case (Call_Step i ms rest moved)
        then have "i \<in> set (ex_started e)" using st by (simp add: pend_def)
        then show ?thesis using ok skipped_cong[OF g ag(2) ag(1)] ag(1) by (simp add: task_ok_def Call_Step)
      next
        case (Write_Back i outs)
        then have "i \<in> set (ex_started e)" using st by (simp add: pend_def)
        then show ?thesis using ok walk_step_cong[OF g ag(2) ag(1)] by (simp add: task_ok_def Write_Back)
      qed (use ok full in \<open>simp_all add: task_ok_def\<close>)
    qed (use t[OF u] in blast)
  qed (fact nsp lwb)+
qed

definition walk_inv :: "ensemble_model \<Rightarrow> execution \<Rightarrow> bool" where
  "walk_inv en e \<longleftrightarrow> (\<forall>outs. ex_answer e = Some outs \<longrightarrow> walk_ensemble en (ex_request e) = Inr outs) \<and> (\<not> ex_settled e \<longrightarrow> (\<exists>outc. data_ok en outc e))"

lemma data_complete:
  assumes d: "data_ok en outc e" and F: "set (ex_finished e) = {..<length (en_plans en)}"
    and c: "collect_outputs (en_outputs en) (prefix_ns en (set (ex_finished e)) outc (ex_request e) (length (en_plans en))) = Inr outs"
  shows "walk_ensemble en (ex_request e) = Inr outs"
proof -
  have "walk_steps en 0 (length (en_plans en)) (prefix_ns en (set (ex_finished e)) outc (ex_request e) 0) =
      Inr (prefix_ns en (set (ex_finished e)) outc (ex_request e) (0 + length (en_plans en)))"
    by (rule walk_steps_prefix) (use data_okD(2)[OF d] F in auto)
  then show ?thesis using c by (simp add: walk_ensemble_def)
qed

section \<open>Every step keeps the walk\<close>

lemma walk_inv_answer: "walk_inv en e \<Longrightarrow> ex_answer e = Some outs \<Longrightarrow> walk_ensemble en (ex_request e) = Inr outs"
  by (simp add: walk_inv_def)

lemma walk_data: "walk_inv en e \<Longrightarrow> \<not> ex_settled e \<Longrightarrow> \<exists>outc. data_ok en outc e"
  by (simp add: walk_inv_def)

lemma walk_same_answer:
  assumes "walk_inv en e" and "ex_request e' = ex_request e" "ex_answer e' = ex_answer e \<or> ex_answer e' = None" and "\<not> ex_settled e' \<Longrightarrow> \<exists>outc. data_ok en outc e'"
  shows "walk_inv en e'"
  using assms by (auto simp: walk_inv_def)

lemma walk_quiet:
  assumes i: "walk_inv en e" and t: "ex_tasks e = xs @ t # ys" and e': "ex_tasks e' = xs @ ts @ ys" "ex_request e' = ex_request e"
      "ex_answer e' = ex_answer e" "ex_settled e' = ex_settled e" "ex_finished e' = ex_finished e" "ex_namespace e' = ex_namespace e"
      "ex_written_by e' = ex_written_by e" "ex_started e' = ex_started e" "ex_flight e' = ex_flight e"
    and ts: "\<And>outc u. data_ok en outc e \<Longrightarrow> \<not> ex_settled e \<Longrightarrow> u \<in> set ts \<Longrightarrow>
      task_ok en (set (ex_finished e)) (prefix_ns en (set (ex_finished e)) outc (ex_request e)) u"
  shows "walk_inv en e'"
proof (rule walk_same_answer[OF i e'(2)])
  assume u: "\<not> ex_settled e'"
  then obtain outc where d: "data_ok en outc e" using walk_data[OF i] e'(4) by auto
  have "data_ok en outc e'"
    by (rule data_quiet[OF d e'(5,2,6,7)]) (use ts[OF d] u e'(4) in \<open>auto simp: e'(1,8,9) t\<close>)
  then show "\<exists>outc. data_ok en outc e'" by blast
qed (use e'(3) in simp)

lemma walk_claim:
  assumes "walk_inv en e"
  shows "walk_inv en (swap_task k ts (claim_exec new None e))"
  using assms by (auto simp: walk_inv_def claim_exec_def)

lemma walk_pump:
  assumes g: "graph_ok en" and s: "sched_inv en e" and i: "walk_inv en e" and t: "ex_tasks e = xs @ Pump # ys"
  shows "walk_inv en (pump en (length xs) e)"
proof (cases "ex_settled e \<or> take_ready en e = []")
  case True
  let ?ts = "if \<not> ex_settled e \<and> length (ex_finished e) = length (en_plans en) then [Collect] else []"
  have e: "pump en (length xs) e = swap_task (length xs) ?ts e" using True by (auto simp: pump_def Let_def)
  show ?thesis unfolding e
    by (rule walk_quiet[OF i t, where ts = ?ts]) (use all_finished[OF s] in \<open>auto simp: t task_ok_def split: if_splits\<close>)
next
  case False
  have e: "pump en (length xs) e = swap_task (length xs) [Dispatch (take_ready en e) False] (e\<lparr>ex_started := ex_started e @ take_ready en e\<rparr>)"
    using False by (simp add: pump_def Let_def)
  obtain outc where d: "data_ok en outc e" using walk_data[OF i] False by auto
  have "data_ok en outc (pump en (length xs) e)"
    by (rule data_quiet[OF d]) (use take_ready_set(1)[OF graph_okD(1)[OF g], of e] in \<open>auto simp: e t task_ok_def\<close>)
  then show ?thesis using i by (intro walk_same_answer[OF i]) (auto simp: e)
qed

lemma walk_skip:
  assumes g: "graph_ok en" and s: "sched_inv en e" and i: "walk_inv en e" and t: "ex_tasks e = xs @ Skip_Step k rest # ys"
  shows "walk_inv en (swap_task (length xs) [Dispatch rest True] (e\<lparr>ex_finished := ex_finished e @ [k]\<rparr>))" (is "walk_inv en ?e")
proof (rule walk_same_answer[OF i])
  assume "\<not> ex_settled ?e"
  then obtain outc where d: "data_ok en outc e" using walk_data[OF i] by auto
  have k: "k \<in> set (ex_started e)" "k \<notin> set (ex_finished e)" "k < length (en_plans en)"
    using pending_apart[OF s, of "Skip_Step k rest" k] by (simp_all add: t pend_def)
  have "is_skipped (step_of en k) (prefix_ns en (set (ex_finished e)) outc (ex_request e) k)"
    using data_okD(6)[OF d, of "Skip_Step k rest"] by (simp add: t task_ok_def)
  then have w: "walk_step en k (prefix_ns en (set (ex_finished e)) outc (ex_request e) k) = Inr ((outc(k := None)) k)" by (simp add: walk_step_def)
  have "data_ok en (outc(k := None)) ?e"
    by (rule data_finish[where outc = outc and outc' = "outc(k := None)", OF g s d k(3,2) w _ k(1)]) (auto simp: t effect_def task_ok_def)
  then show "\<exists>outc. data_ok en outc ?e" by blast
qed auto

lemma walk_write:
  assumes g: "graph_ok en" and s: "sched_inv en e" and i: "walk_inv en e" and t: "ex_tasks e = xs @ Write_Back k outs # ys"
    and st: "fold (write_output k (step_of en k)) outs (ex_namespace e, ex_written_by e) = (ns, wb)"
  shows "walk_inv en (swap_task (length xs) [Submit] (e\<lparr>ex_namespace := ns, ex_written_by := wb, ex_finished := ex_finished e @ [k]\<rparr>))" (is "walk_inv en ?e")
proof (rule walk_same_answer[OF i])
  assume "\<not> ex_settled ?e"
  then obtain outc where d: "data_ok en outc e" using walk_data[OF i] by auto
  have k: "k \<in> set (ex_started e)" "k \<notin> set (ex_finished e)" "k < length (en_plans en)"
    using pending_apart[OF s, of "Write_Back k outs" k] by (simp_all add: t pend_def)
  have w: "walk_step en k (prefix_ns en (set (ex_finished e)) outc (ex_request e) k) = Inr ((outc(k := Some outs)) k)"
    using data_okD(6)[OF d, of "Write_Back k outs"] by (simp add: t task_ok_def)
  have ef: "effect en (outc(k := Some outs)) k = effect_of (step_of en k) outs" by (simp add: effect_def)
  have "data_ok en (outc(k := Some outs)) ?e"
    by (rule data_finish[where outc = outc and outc' = "outc(k := Some outs)", OF g s d k(3,2) w _ k(1)]) (use write_outputs_lookup[OF st] in \<open>auto simp: t ef task_ok_def\<close>)
  then show "\<exists>outc. data_ok en outc ?e" by blast
qed auto

lemma walk_dispatch:
  assumes g: "graph_ok en" and s: "sched_inv en e" and i: "walk_inv en e" and t: "ex_tasks e = xs @ Dispatch (k # rest) moved # ys"
  shows "walk_inv en (run_task en pool_open fate (length xs) e)"
proof -
  have k: "k \<notin> set (ex_finished e)" "k < length (en_plans en)"
    using pending_apart[OF s, of "Dispatch (k # rest) moved" k] by (simp_all add: t pend_def)
  let ?P = "\<lambda>outc. prefix_ns en (set (ex_finished e)) outc (ex_request e) k"
  have ag: "agree (names_read en k) (ex_namespace e) (?P outc)" if "data_ok en outc e" for outc by (rule current_agree[OF g s that k(2,1)])
  let ?ts = "if ex_settled e then [Dispatch rest moved] else if is_skipped (step_of en k) (ex_namespace e) then [Skip_Step k rest]
    else [Call_Step k (ex_namespace e) rest moved]"
  have e: "run_task en pool_open fate (length xs) e = swap_task (length xs) ?ts e" by (simp add: run_task_def t)
  show ?thesis unfolding e
  proof (rule walk_quiet[OF i t, where ts = ?ts])
    fix outc u assume d: "data_ok en outc e" and u: "\<not> ex_settled e" "u \<in> set ?ts"
    have "is_skipped (step_of en k) (ex_namespace e) = is_skipped (step_of en k) (?P outc)" by (rule skipped_cong[OF g k(2) ag[OF d]])
    then show "task_ok en (set (ex_finished e)) (prefix_ns en (set (ex_finished e)) outc (ex_request e)) u"
      using u ag[OF d] by (auto simp: task_ok_def split: if_splits)
  qed (simp_all add: t)
qed

lemma walk_call:
  assumes g: "graph_ok en" and s: "sched_inv en e" and i: "walk_inv en e" and t: "ex_tasks e = xs @ Call_Step k ns rest moved # ys"
  shows "walk_inv en (run_task en pool_open fate (length xs) e)"
proof (cases "attempt_call en fate k ns")
  case (Inl x)
  then show ?thesis by (auto simp: run_task_def t task_ok_def intro!: walk_quiet[OF i t])
next
  case (Inr ins)
  have k: "k < length (en_plans en)" using pending_apart(3)[OF s, of "Call_Step k ns rest moved" k] by (simp add: t pend_def)
  have ins: "step_inputs (step_of en k) (en_specs en k) ns = Inr ins" using Inr by (auto simp: attempt_call_def rbind_Inr_iff split: call_fate.splits)
  have e: "run_task en pool_open fate (length xs) e = swap_task (length xs) [Dispatch rest moved] (e\<lparr>ex_flight := ex_flight e @ [(k, ins)]\<rparr>)"
    by (simp add: run_task_def t Inr)
  show ?thesis unfolding e
  proof (rule walk_same_answer[OF i])
    assume "\<not> ex_settled (swap_task (length xs) [Dispatch rest moved] (e\<lparr>ex_flight := ex_flight e @ [(k, ins)]\<rparr>))"
    then obtain outc where d: "data_ok en outc e" using walk_data[OF i] by auto
    let ?P = "prefix_ns en (set (ex_finished e)) outc (ex_request e)"
    have p: "\<not> is_skipped (step_of en k) (?P k)" "agree (names_read en k) ns (?P k)"
      using data_okD(6)[OF d, of "Call_Step k ns rest moved"] by (simp_all add: t task_ok_def)
    have "step_inputs (step_of en k) (en_specs en k) (?P k) = Inr ins" using inputs_cong[OF g k p(2)] ins by simp
    then have "flight_ok en ?P (k, ins)" using p(1) by (simp add: flight_ok_def)
    then have "data_ok en outc (swap_task (length xs) [Dispatch rest moved] (e\<lparr>ex_flight := ex_flight e @ [(k, ins)]\<rparr>))"
      by (intro data_quiet[OF d]) (auto simp: t task_ok_def)
    then show "\<exists>outc. data_ok en outc (swap_task (length xs) [Dispatch rest moved] (e\<lparr>ex_flight := ex_flight e @ [(k, ins)]\<rparr>))" by blast
  qed auto
qed

lemma walk_run_task:
  assumes g: "graph_ok en" and s: "sched_inv en e" and i: "walk_inv en e" and t: "ex_tasks e = xs @ t # ys"
  shows "walk_inv en (run_task en pool_open fate (length xs) e)"
proof (cases t)
  case Pump
  then show ?thesis using walk_pump[OF g s i] t by (simp add: run_task_def)
next
  case (Dispatch todo moved)
  then show ?thesis
  proof (cases todo)
    case Nil
    then show ?thesis by (auto simp: run_task_def t Dispatch task_ok_def intro!: walk_quiet[OF i t])
  qed (use walk_dispatch[OF g s i] t Dispatch in simp)
next
  case (Skip_Step k rest)
  then show ?thesis using walk_skip[OF g s i] t by (simp add: run_task_def)
next
  case (Call_Step k ns rest moved)
  then show ?thesis using walk_call[OF g s i] t by simp
next
  case (Write_Back k outs)
  obtain ns wb where st: "fold (write_output k (step_of en k)) outs (ex_namespace e, ex_written_by e) = (ns, wb)" by force
  show ?thesis
  proof (cases "ex_settled e")
    case True
    then show ?thesis by (auto simp: run_task_def t Write_Back intro!: walk_quiet[OF i t])
  next
    case False
    then show ?thesis using walk_write[OF g s i _ st] t by (simp add: run_task_def Write_Back st)
  qed
next
  case (Fail_With x rest moved)
  then show ?thesis using walk_claim[OF i] by (simp add: run_task_def t)
next
  case Retire
  then show ?thesis using walk_claim[OF i] by (simp add: run_task_def t)
next
  case Collect
  then show ?thesis
  proof (cases "ex_settled e")
    case True
    then show ?thesis by (auto simp: run_task_def t Collect intro!: walk_quiet[OF i t])
  next
    case False
    define c where "c = collect_outputs (en_outputs en) (ex_namespace e)"
    have "task_ok en (set (ex_finished e)) (prefix_ns en (set (ex_finished e)) outc (ex_request e)) u"
      if d: "data_ok en outc e" and u: "u = (case c of Inl x \<Rightarrow> Fail_With x [] False | Inr outs \<Rightarrow> Settle outs)" for outc u
      using data_okD(6)[OF d, of Collect] collect_cong[OF data_okD(3)[OF d]] u by (auto simp: t Collect task_ok_def c_def split: sum.splits)
    then show ?thesis using False
      by (cases c) (auto simp: run_task_def t Collect c_def[symmetric] intro!: walk_quiet[OF i t])
  qed
next
  case (Settle outs)
  show ?thesis
  proof (cases "ex_settled e")
    case True
    then show ?thesis by (auto simp: run_task_def t Settle claim_exec_def intro!: walk_quiet[OF i t])
  next
    case False
    then obtain outc where d: "data_ok en outc e" using walk_data[OF i] by auto
    have "task_ok en (set (ex_finished e)) (prefix_ns en (set (ex_finished e)) outc (ex_request e)) (Settle outs)"
      using data_okD(6)[OF d] by (simp add: t Settle)
    then have "walk_ensemble en (ex_request e) = Inr outs" unfolding task_ok_def ens_task.case by (elim conjE) (rule data_complete[OF d])
    then show ?thesis using False by (simp add: run_task_def t Settle walk_inv_def claim_exec_def)
  qed
next
  case Set_Running
  define r where "r = set_running_or_notify_cancel (ex_future e)"
  show ?thesis
    by (cases r) (auto simp: run_task_def t Set_Running r_def[symmetric] task_ok_def split: prod.splits intro!: walk_quiet[OF i t])
qed (auto simp: run_task_def t task_ok_def split: if_splits intro!: walk_quiet[OF i t])

lemma walk_answer_call:
  assumes g: "graph_ok en" and s: "sched_inv en e" and i: "walk_inv en e" and j: "j < length (ex_flight e)"
  shows "walk_inv en (answer_call en j e)"
proof (rule walk_same_answer[OF i])
  obtain k ins where f: "ex_flight e ! j = (k, ins)" by force
  have c: "(k, ins) \<in> set (ex_flight e)" using nth_mem[OF j] f by simp
  assume "\<not> ex_settled (answer_call en j e)"
  then obtain outc where d: "data_ok en outc e" using walk_data[OF i] by (auto simp: answer_call_def f)
  have "task_ok en (set (ex_finished e)) (prefix_ns en (set (ex_finished e)) outc (ex_request e)) (case en_call en k ins of Inl x \<Rightarrow> Fail_With x [] False | Inr outs \<Rightarrow> Write_Back k outs)"
    using data_okD(5)[OF d c] by (auto simp: flight_ok_def task_ok_def walk_step_def split: sum.splits)
  then have "data_ok en outc (answer_call en j e)"
    by (intro data_quiet[OF d]) (auto simp: answer_call_def f dest: in_set_takeD in_set_dropD)
  then show "\<exists>outc. data_ok en outc (answer_call en j e)" by blast
qed (auto simp: answer_call_def split: prod.splits)

lemma walk_exec_step:
  assumes g: "graph_ok en" and s: "sched_inv en e" and i: "walk_inv en e"
  shows "walk_inv en (exec_step en pool_open a e)"
proof (cases a)
  case (Run_Task k fate)
  show ?thesis
  proof (cases "k < length (ex_tasks e)")
    case True
    then obtain xs t ys where t: "ex_tasks e = xs @ t # ys" "length xs = k" by (metis id_take_nth_drop length_take min.absorb4)
    show ?thesis using walk_run_task[OF g s i t(1), of pool_open fate] t(2) True by (simp add: Run_Task)
  qed (use i Run_Task in simp)
next
  case (Answer_Call j)
  then show ?thesis using walk_answer_call[OF g s i] i by simp
next
  case Cancel_Future
  then show ?thesis using i by (simp add: walk_inv_def data_ok_def Let_def)
next
  case Stop_Exec
  then show ?thesis using i by (auto simp: walk_inv_def claim_exec_def)
qed

lemma prefix_ns_empty: "prefix_ns en {} outc given i = given"
  by (induction i) simp_all

lemma last_writer_empty: "last_writer en {} outc i = Map.empty"
  by (induction i) simp_all

lemma walk_inv_new:
  "walk_inv en (new_execution given)" "walk_inv en ((new_execution given)\<lparr>ex_tasks := [Fail_With x [] moved]\<rparr>)"
  by (auto simp: walk_inv_def new_execution_def data_ok_def prefix_ns_empty last_writer_empty task_ok_def)

lemma ensemble_walk_inv:
  assumes g: "graph_ok en"
  shows "\<forall>e \<in> set (em_execs (ensemble_run en own as (init_ensemble name workers pending))). walk_inv en e"
proof -
  have step: "\<forall>e \<in> set (em_execs (ensemble_step_event en own a m)). walk_inv en e"
    if "\<forall>e \<in> set (em_execs m). walk_inv en e" "ens_inv en m" for a m
  proof (cases a)
    case (Infer given)
    then show ?thesis using that(1) walk_inv_new by (auto simp: ensemble_infer_def split: sum.splits if_splits)
  next
    case (On n b)
    have "\<forall>e \<in> set (em_execs (on_exec en n b m)). walk_inv en e"
    proof (cases "n < length (em_execs m)")
      case True
      let ?e = "em_execs m ! n"
      have e: "?e \<in> set (em_execs m)" using True by simp
      have "sched_inv en ?e" using that(2) e by (auto simp: ens_inv_def exec_inv_def)
      then have "walk_inv en (exec_step en (em_pool_open m) b ?e)" using walk_exec_step[OF g] that(1) e by blast
      then show ?thesis using that(1) True set_update_subset_insert[of "em_execs m" n "exec_step en (em_pool_open m) b ?e"] by (auto simp: on_exec_def Let_def)
    qed (use that(1) in \<open>simp add: on_exec_def\<close>)
    then show ?thesis using that(1) On by simp
  qed (use that(1) in auto)
  have all: "\<forall>e \<in> set (em_execs (ensemble_run en own as m)). walk_inv en e"
    if "\<forall>e \<in> set (em_execs m). walk_inv en e" "ens_inv en m" for m
    using that
  proof (induction as arbitrary: m)
    case (Cons a as)
    show ?case using Cons.IH[OF step[OF Cons.prems] ensemble_step_inv[OF Cons.prems(2) graph_okD(1)[OF g]]] by (simp add: ensemble_run_def)
  qed (simp add: ensemble_run_def)
  show ?thesis by (rule all[OF _ ensemble_inv_init]) (simp add: init_ensemble_def)
qed


section \<open>The graph that start checked\<close>

lemma check_inputs_reads:
  "check_inputs s avail conds specs reads = Inr reads' \<Longrightarrow> set reads' = set reads \<union> (\<lambda>spec. renamed (input_map s) (sname spec)) ` set specs"
  by (induction s avail conds specs reads rule: check_inputs.induct) (auto simp: Let_def split: option.splits if_splits)

definition plan_wired :: "(string \<Rightarrow> signature option) \<Rightarrow> step_plan \<Rightarrow> bool" where
  "plan_wired resolve p \<longleftrightarrow> (\<exists>sig. resolve (es_model (sp_step p)) = Some sig \<and> sp_writes p = step_writes (sp_step p) (sn_outputs sig) \<and>
     (\<forall>spec \<in> set (sn_inputs sig). renamed (input_map (sp_step p)) (sname spec) \<in> set (sp_reads p)) \<and>
     (has_condition (sp_step p) \<longrightarrow> the (condition (sp_step p)) \<in> set (sp_reads p)))"

lemma validate_steps_wired:
  "validate_steps resolve k ss avail conds = Inr (plans, avail') \<Longrightarrow> \<forall>p \<in> set plans. plan_wired resolve p"
proof (induction ss arbitrary: k avail conds plans)
  case (Cons s ss)
  obtain sig where r: "resolve (es_model s) = Some sig" using Cons.prems by (cases "resolve (es_model s)") simp_all
  obtain reads where c: "check_inputs s avail conds (sn_inputs sig) [] = Inr reads" using Cons.prems by (auto simp: r rbind_Inr_iff)
  obtain ps avail2 conds2 where p: "plans = \<lparr>sp_index = k, sp_step = s, sp_reads = if has_condition s then reads @ [the (condition s)] else reads,
      sp_writes = step_writes s (sn_outputs sig)\<rparr> # ps" "validate_steps resolve (Suc k) ss avail2 conds2 = Inr (ps, avail')"
    using Cons.prems by (auto simp: r c rbind_Inr_iff Let_def split: if_splits)
  show ?case using Cons.IH[OF p(2)] check_inputs_reads[OF c] r by (auto simp: p(1) plan_wired_def)
qed simp

text \<open>A model answers with outputs that its configuration declares.\<close>

definition answers_declared :: "(string \<Rightarrow> signature option) \<Rightarrow> step_plan list \<Rightarrow> (nat \<Rightarrow> namespace \<Rightarrow> err + namespace) \<Rightarrow> bool" where
  "answers_declared resolve plans call \<longleftrightarrow> (\<forall>i < length plans. \<forall>sig ins outs. resolve (es_model (sp_step (plans ! i))) = Some sig \<longrightarrow> call i ins = Inr outs \<longrightarrow>
     fst ` set outs \<subseteq> sname ` set (sn_outputs sig))"

lemma started_graph_ok:
  assumes start: "ensemble_start resolve own steps = Inr plans" and named: "answers_declared resolve plans call"
  shows "graph_ok (started_ensemble resolve own call plans)"
proof -
  obtain avail where v: "validate_steps resolve 0 steps (specs_by_name (sn_inputs own)) [] = Inr (plans, avail)"
    using start by (auto simp: ensemble_start_def validate_graph_def rbind_Inr_iff split: if_splits)
  have w: "plan_wired resolve (plans ! i)" if "i < length plans" for i using validate_steps_wired[OF v] that by simp
  show ?thesis unfolding graph_ok_def
  proof (intro conjI allI impI ballI)
    show "plans_ok (en_plans (started_ensemble resolve own call plans))" using started_plans_ok(1)[OF start] by (simp add: started_ensemble_def)
  next
    fix i ins outs nt assume i: "i < length (en_plans (started_ensemble resolve own call plans))"
      and c: "en_call (started_ensemble resolve own call plans) i ins = Inr outs" and nt: "nt \<in> set outs"
    obtain sig where sig: "resolve (es_model (sp_step (plans ! i))) = Some sig" "sp_writes (plans ! i) = step_writes (sp_step (plans ! i)) (sn_outputs sig)"
      using w[of i] i by (auto simp: plan_wired_def started_ensemble_def)
    have "fst ` set outs \<subseteq> sname ` set (sn_outputs sig)"
      using named i c sig(1) unfolding answers_declared_def by (simp add: started_ensemble_def)
    then have "fst nt \<in> sname ` set (sn_outputs sig)" using nt by blast
    then show "renamed (output_map (step_of (started_ensemble resolve own call plans) i)) (fst nt) \<in> names_written (started_ensemble resolve own call plans) i"
      using sig(2) by (auto simp: names_written_def step_of_def started_ensemble_def step_writes_def)
  next
    fix i spec assume i: "i < length (en_plans (started_ensemble resolve own call plans))" and spec: "spec \<in> set (en_specs (started_ensemble resolve own call plans) i)"
    obtain sig where "resolve (es_model (sp_step (plans ! i))) = Some sig"
      "\<forall>spec \<in> set (sn_inputs sig). renamed (input_map (sp_step (plans ! i))) (sname spec) \<in> set (sp_reads (plans ! i))"
      using w[of i] i by (auto simp: plan_wired_def started_ensemble_def)
    then show "renamed (input_map (step_of (started_ensemble resolve own call plans) i)) (sname spec) \<in> names_read (started_ensemble resolve own call plans) i"
      using spec by (simp add: names_read_def step_of_def started_ensemble_def)
  next
    fix i assume "i < length (en_plans (started_ensemble resolve own call plans))" "has_condition (step_of (started_ensemble resolve own call plans) i)"
    then show "the (condition (step_of (started_ensemble resolve own call plans) i)) \<in> names_read (started_ensemble resolve own call plans) i"
      using w[of i] by (auto simp: plan_wired_def names_read_def step_of_def started_ensemble_def)
  qed
qed

section \<open>Properties\<close>

text \<open>
  C40: an ensemble answers like the sequential walk.  If an execution of a started ensemble answers, its answer is what running the steps one after another in the order of
  their declaration gives on the same request, whatever ran at the same time, whichever step finished first and whatever other requests were under way; the models are
  functions of the step and its inputs that answer with the outputs they declare.
\<close>

theorem ensemble_answers_as_walk:
  assumes "ensemble_start resolve own steps = Inr plans" and "answers_declared resolve plans call"
    and e: "e \<in> set (em_execs (ensemble_run (started_ensemble resolve own call plans) own as (init_ensemble name workers pending)))"
    and "ex_answer e = Some outs"
  shows "walk_ensemble (started_ensemble resolve own call plans) (ex_request e) = Inr outs"
  by (rule walk_inv_answer[OF bspec[OF ensemble_walk_inv e] assms(4)]) (rule started_graph_ok[OF assms(1,2)])

lemma sample_answers_declared: "answers_declared sample_signature sample_plans sample_call"
proof -
  have four: "length sample_plans = 4" by code_simp
  have "map (\<lambda>p. es_model (sp_step p)) sample_plans = [''detect'', ''refine'', ''embed'', ''count'']" by code_simp
  then have m: "es_model (sp_step (sample_plans ! i)) = [''detect'', ''refine'', ''embed'', ''count''] ! i" if "i < 4" for i
    using that four by (metis nth_map)
  have "fst ` set outs \<subseteq> sname ` set (sn_outputs sig)"
    if i: "i < 4" and "sample_signature ([''detect'', ''refine'', ''embed'', ''count''] ! i) = Some sig" "sample_call i ins = Inr outs" for i sig ins outs
  proof -
    have "i = 0 \<or> i = 1 \<or> i = 2 \<or> i = 3" using i by auto
    then show ?thesis using that by (auto simp: sample_signature_def sample_call_def named_spec_def split: list.splits)
  qed
  then show ?thesis using m by (auto simp: answers_declared_def four)
qed

lemma ensemble_answers_as_walk_witness:
  "walk_ensemble sample_model (ex_request sample_exec) = Inr (the (ex_answer sample_exec)) \<and> map fst (the (ex_answer sample_exec)) = [''emb'', ''total'']"
proof -
  have a: "ex_answer sample_exec = Some (the (ex_answer sample_exec))" "map fst (the (ex_answer sample_exec)) = [''emb'', ''total'']" by code_simp+
  have s: "ensemble_start sample_signature sample_own sample_steps = Inr sample_plans" by code_simp
  have "walk_ensemble (started_ensemble sample_signature sample_own sample_call sample_plans) (ex_request sample_exec) = Inr (the (ex_answer sample_exec))"
    by (rule ensemble_answers_as_walk[OF s sample_answers_declared _ a(1), where as = sample_ens_run and name = "''e''" and workers = 1 and pending = 1])
      (use sample_exec_end in \<open>simp add: sample_ens_end_def sample_model_def\<close>)
  then show ?thesis using a(2) by (simp add: sample_model_def)
qed

section \<open>What the start-up check lets through\<close>

text \<open>
  An empty \<^verbatim>\<open>condition:\<close> is no condition for the start-up check and for the read of the namespace, and one for the dispatch, which tests it against \<^verbatim>\<open>None\<close>:
  the step is skipped on every request.
\<close>

lemma blank_condition_skips: "condition s = Some [] \<Longrightarrow> \<not> has_condition s \<and> is_skipped s ns"
  by (simp add: has_condition_def is_skipped_def is_truthy_def)

text \<open>
  A conditional step may read what another branch makes: the check asks for some condition, not for that one.  Here \<^verbatim>\<open>gate\<close> makes an all-zero flag, \<^verbatim>\<open>crop\<close> depends on it
  and is skipped, and \<^verbatim>\<open>embed\<close>, under a condition of its own that holds, reads the crops.
\<close>

definition branch_signature :: "string \<Rightarrow> signature option" where
  "branch_signature n =
     (if n = ''gate'' then Some \<lparr>sn_inputs = [named_spec ''images''], sn_outputs = [named_spec ''flag'']\<rparr>
      else if n = ''crop'' then Some \<lparr>sn_inputs = [named_spec ''images''], sn_outputs = [named_spec ''crops'']\<rparr>
      else if n = ''embed'' then Some \<lparr>sn_inputs = [named_spec ''crops''], sn_outputs = [named_spec ''emb'']\<rparr>
      else None)"

definition branch_steps :: "ensemble_step list" where
  "branch_steps = [sample_step ''gate'' [] None, sample_step ''crop'' [] (Some ''flag''), sample_step ''embed'' [] (Some ''images'')]"

definition branch_own :: signature where
  "branch_own = \<lparr>sn_inputs = [named_spec ''images''], sn_outputs = [named_spec ''emb'']\<rparr>"

definition branch_call :: "nat \<Rightarrow> namespace \<Rightarrow> err + namespace" where
  "branch_call i ins = Inr [([''flag'', ''crops'', ''emb''] ! i, projr (from_numpy \<lparr>nd_dtype = numpy_dtype FP32, nd_shape = [1, 2], nd_data = [0, 0]\<rparr>))]"

definition branch_model :: ensemble_model where
  "branch_model = started_ensemble branch_signature branch_own branch_call (projr (ensemble_start branch_signature branch_own branch_steps))"

lemma other_branch_fails:
  "ensemble_start branch_signature branch_own branch_steps = Inr (en_plans branch_model) \<and>
   validate_against sample_request (sn_inputs branch_own) = Inr () \<and>
   walk_ensemble branch_model sample_request = Inl InferenceError \<and>
   ex_future (em_execs (ensemble_run branch_model branch_own (Infer sample_request # replicate 12 (go 0) @ On 0 (Answer_Call 0) # replicate 12 (go 0))
     (init_ensemble ''e'' 1 1)) ! 0) = fut_state.FAILED InferenceError"
  by (intro conjI; code_simp)

end
