(* ===== verification/Plan_Text.thy ===== *)
theory Plan_Text
  imports Caps Frame_State
begin

text \<open>
  \<^verbatim>\<open>src/shipinfer/topology/plan.py\<close>: the resolved chain as the line-oriented text that crosses to the other plane, its writer and its reader.  A character is a code point
  below 256, as in \<^verbatim>\<open>Caps\<close>.  Floats are a parameter, with what the format relies on: \<^verbatim>\<open>repr\<close> of a finite float is a number that \<^verbatim>\<open>float\<close> reads back.
\<close>

section \<open>Words and lines\<close>

text \<open>What \<^verbatim>\<open>str.splitlines\<close> breaks at, among the characters below 256.\<close>

definition is_break :: "char \<Rightarrow> bool" where
  "is_break c = (let n = of_char c :: nat in (10 \<le> n \<and> n \<le> 13) \<or> (28 \<le> n \<and> n \<le> 30) \<or> n = 133)"

fun splitlines :: "string \<Rightarrow> string list" where
  "splitlines [] = []"
| "splitlines (c # cs) =
     (if is_break c then [] # splitlines (if c = CHR 0x0D \<and> take 1 cs = [CHR 0x0A] then drop 1 cs else cs)
      else case splitlines cs of [] \<Rightarrow> [[c]] | l # ls \<Rightarrow> (c # l) # ls)"

text \<open>\<^verbatim>\<open>str.split()\<close>, and the remainder \<^verbatim>\<open>line.split(maxsplit=2)[2]\<close> of a stripped line with at least three words.\<close>

function word_list :: "string \<Rightarrow> string list" where
  "word_list s = (let t = lstrip s in if t = [] then [] else takeWhile (\<lambda>c. \<not> is_space c) t # word_list (dropWhile (\<lambda>c. \<not> is_space c) t))"
  by auto
termination
proof (relation "measure length", goal_cases)
  case (2 s t)
  obtain c cs where t: "t = c # cs" using 2(2) by (cases t) simp_all
  have "\<not> is_space c" using dropWhile_eq_Cons_conv[of is_space s c cs] 2(1) t by (metis lstrip_def)
  then have "length (dropWhile (\<lambda>c. \<not> is_space c) t) < length t" by (simp add: t le_imp_less_Suc length_dropWhile_le)
  also have "length t \<le> length s" using 2(1) by (simp add: lstrip_def length_dropWhile_le)
  finally show ?case by simp
qed simp

declare word_list.simps [simp del]

definition skip_word :: "string \<Rightarrow> string" where
  "skip_word s = lstrip (dropWhile (\<lambda>c. \<not> is_space c) s)"

definition rest_of :: "string \<Rightarrow> string" where
  "rest_of line = skip_word (skip_word line)"

fun unwords :: "string list \<Rightarrow> string" where
  "unwords [] = []"
| "unwords [w] = w"
| "unwords (w # v # ws) = w @ '' '' @ unwords (v # ws)"

fun split_on :: "char \<Rightarrow> string \<Rightarrow> string list" where
  "split_on sep [] = [[]]"
| "split_on sep (c # cs) = (if c = sep then [] # split_on sep cs else case split_on sep cs of [] \<Rightarrow> [[c]] | l # ls \<Rightarrow> (c # l) # ls)"

fun join_on :: "char \<Rightarrow> string list \<Rightarrow> string" where
  "join_on sep [] = []"
| "join_on sep [w] = w"
| "join_on sep (w # v # ws) = w @ sep # join_on sep (v # ws)"


section \<open>The plan\<close>

text \<open>Python's floats as far as the format uses them: \<^verbatim>\<open>repr\<close>, \<^verbatim>\<open>float\<close>, \<^verbatim>\<open>isfinite\<close> and the value of a finite one.\<close>

record 'f float_ops =
  fo_repr :: "'f \<Rightarrow> string"
  fo_read :: "string \<Rightarrow> 'f"
  fo_finite :: "'f \<Rightarrow> bool"
  fo_value :: "'f \<Rightarrow> rat"

record 'f plan_node =
  pn_slot :: string
  pn_kind :: string
  pn_impl :: string
  pn_model :: "string option"
  pn_classes :: "string list option"
  pn_crop :: "(int \<times> int) option"
  pn_letterbox :: "(int \<times> int) option"
  pn_score :: "'f option"
  pn_max_detections :: "int option"
  pn_instances :: "int option"
  pn_queue_delay_us :: "int option"
  pn_artefact :: "string option"
  pn_fold_score :: "'f option"
  pn_fold_mask :: "'f option"
  pn_fold_detections :: "string option"
  pn_fold_prototypes :: "string option"
  pn_when :: "string option"
  pn_per :: "string option"
  pn_scope :: "string option"
  pn_sync_window_ms :: "'f option"
  pn_max_instants :: "int option"
  pn_group :: "string option"
  pn_cameras :: "string list"
  pn_min_hits :: "int option"
  pn_min_height :: "'f option"
  pn_regression_reset :: "int option"
  pn_tracker_options :: "(string, string) dict"
  pn_algorithm :: string

definition new_node :: "string \<Rightarrow> string \<Rightarrow> string \<Rightarrow> 'f plan_node" where
  "new_node s k i = \<lparr>pn_slot = s, pn_kind = k, pn_impl = i, pn_model = None, pn_classes = None, pn_crop = None, pn_letterbox = None,
     pn_score = None, pn_max_detections = None, pn_instances = None, pn_queue_delay_us = None, pn_artefact = None, pn_fold_score = None, pn_fold_mask = None,
     pn_fold_detections = None, pn_fold_prototypes = None, pn_when = None, pn_per = None, pn_scope = None, pn_sync_window_ms = None, pn_max_instants = None,
     pn_group = None, pn_cameras = [], pn_min_hits = None, pn_min_height = None, pn_regression_reset = None, pn_tracker_options = [], pn_algorithm = []\<rparr>"

definition SETTING_BOUNDS :: "(string \<times> int) list" where
  "SETTING_BOUNDS = [(''workers'', 1), (''pipeline_queue'', 1), (''instance_queue'', 1), (''enqueue_block_timeout_ms'', 0), (''stage_timeout_ms'', 1),
     (''reassembly_capacity'', 1), (''reassembly_timeout_ms'', 1), (''reassembly_sweep_ms'', 1)]"

definition SETTING_KEYS :: "string list" where
  "SETTING_KEYS = map fst SETTING_BOUNDS"

record plan_settings =
  ps_workers :: int
  ps_pipeline_queue :: int
  ps_instance_queue :: int
  ps_enqueue_block_timeout_ms :: int
  ps_stage_timeout_ms :: int
  ps_reassembly_capacity :: int
  ps_reassembly_timeout_ms :: int
  ps_reassembly_sweep_ms :: int

text \<open>\<^verbatim>\<open>getattr\<close> over the keys, and the construction from a dict that has them all.\<close>

definition setting_values :: "plan_settings \<Rightarrow> (string, int) dict" where
  "setting_values s = zip SETTING_KEYS [ps_workers s, ps_pipeline_queue s, ps_instance_queue s, ps_enqueue_block_timeout_ms s, ps_stage_timeout_ms s,
     ps_reassembly_capacity s, ps_reassembly_timeout_ms s, ps_reassembly_sweep_ms s]"

definition settings_of :: "(string, int) dict \<Rightarrow> plan_settings" where
  "settings_of d = (let v = (\<lambda>k. the (map_of d k)) in \<lparr>ps_workers = v ''workers'', ps_pipeline_queue = v ''pipeline_queue'', ps_instance_queue = v ''instance_queue'',
     ps_enqueue_block_timeout_ms = v ''enqueue_block_timeout_ms'', ps_stage_timeout_ms = v ''stage_timeout_ms'', ps_reassembly_capacity = v ''reassembly_capacity'',
     ps_reassembly_timeout_ms = v ''reassembly_timeout_ms'', ps_reassembly_sweep_ms = v ''reassembly_sweep_ms''\<rparr>)"

record 'f resolved_plan =
  rp_name :: string
  rp_nodes :: "'f plan_node list"
  rp_edges :: "(string \<times> string \<times> string) list"
  rp_labels :: "(int, string) dict"
  rp_fields :: "(string, string list) dict"
  rp_settings :: "plan_settings option"
  rp_policy :: string
  rp_policy_options :: "(string, string) dict"
  rp_version :: int

definition PLAN_VERSION :: int where "PLAN_VERSION = 3"

section \<open>The writer\<close>

text \<open>Each attribute is a list of lines: none when the node does not have it.\<close>

definition word_lines :: "string \<Rightarrow> string option \<Rightarrow> string list" where
  "word_lines key v = (case v of None \<Rightarrow> [] | Some w \<Rightarrow> if w = [] then [] else [unwords [key, w]])"

definition int_lines :: "string \<Rightarrow> int option \<Rightarrow> string list" where
  "int_lines key v = (case v of None \<Rightarrow> [] | Some i \<Rightarrow> [unwords [key, int_str i]])"

definition float_lines :: "'f float_ops \<Rightarrow> string \<Rightarrow> 'f option \<Rightarrow> string list" where
  "float_lines fo key v = (case v of None \<Rightarrow> [] | Some x \<Rightarrow> [unwords [key, fo_repr fo x]])"

definition extent_lines :: "string \<Rightarrow> (int \<times> int) option \<Rightarrow> string list" where
  "extent_lines key v = (case v of None \<Rightarrow> [] | Some (h, w) \<Rightarrow> [unwords [key, int_str h, int_str w]])"

definition class_lines :: "string list option \<Rightarrow> string list" where
  "class_lines v = (case v of None \<Rightarrow> []
     | Some cs \<Rightarrow> [unwords [''classes'', if join_on CHR '','' cs = [] then ''-'' else join_on CHR '','' cs]])"

definition attr_lines :: "'f float_ops \<Rightarrow> 'f plan_node \<Rightarrow> string list" where
  "attr_lines fo n = word_lines ''model'' (pn_model n) @ class_lines (pn_classes n) @ extent_lines ''crop'' (pn_crop n) @
     extent_lines ''letterbox'' (pn_letterbox n) @ float_lines fo ''score'' (pn_score n) @ int_lines ''max_detections'' (pn_max_detections n) @
     int_lines ''instances'' (pn_instances n) @ int_lines ''queue_delay_us'' (pn_queue_delay_us n) @ word_lines ''artefact'' (pn_artefact n) @
     word_lines ''fold_detections'' (pn_fold_detections n) @ word_lines ''fold_prototypes'' (pn_fold_prototypes n) @
     float_lines fo ''fold_score'' (pn_fold_score n) @ float_lines fo ''fold_mask'' (pn_fold_mask n) @ word_lines ''when'' (pn_when n) @
     word_lines ''per'' (pn_per n) @ word_lines ''scope'' (pn_scope n) @ word_lines ''group'' (pn_group n) @
     map (\<lambda>c. unwords [''camera'', c]) (pn_cameras n) @ int_lines ''min_hits'' (pn_min_hits n) @
     float_lines fo ''min_height_fraction'' (pn_min_height n) @ float_lines fo ''sync_window_ms'' (pn_sync_window_ms n) @
     int_lines ''max_instants'' (pn_max_instants n) @ (if pn_algorithm n = [] then [] else [unwords [''algorithm'', pn_algorithm n]]) @
     int_lines ''regression_reset'' (pn_regression_reset n) @ map (\<lambda>(k, v). unwords [''tracker_option'', k, v]) (pn_tracker_options n)"

definition node_lines :: "'f float_ops \<Rightarrow> 'f plan_node \<Rightarrow> string list" where
  "node_lines fo n = [[], unwords [''node'', pn_slot n, pn_kind n, pn_impl n]] @ attr_lines fo n"

definition plan_lines :: "'f float_ops \<Rightarrow> 'f resolved_plan \<Rightarrow> string list" where
  "plan_lines fo p =
     [''# A RESOLVED chain, written by `shipinfer plan` -- do not hand-edit.'', unwords [''plan'', int_str (rp_version p), if rp_name p = [] then ''-'' else rp_name p]] @
     (case rp_settings p of None \<Rightarrow> [] | Some s \<Rightarrow> map (\<lambda>(k, v). unwords [''setting'', k, int_str v]) (setting_values s)) @
     (if rp_policy p = [] then [] else unwords [''policy'', rp_policy p] # map (\<lambda>(k, v). unwords [''policy_option'', k, v]) (sort_key fst (rp_policy_options p))) @
     map (\<lambda>(i, l). unwords [''label'', int_str i, l]) (sort_key fst (rp_labels p)) @ concat (map (node_lines fo) (rp_nodes p)) @ [[]] @
     map (\<lambda>(a, b, c). unwords [''edge'', a, b, c]) (rp_edges p) @ map (\<lambda>(f, slots). unwords [''field'', f, unwords slots]) (sort_key fst (rp_fields p))"

definition plan_text :: "'f float_ops \<Rightarrow> 'f resolved_plan \<Rightarrow> string" where
  "plan_text fo p = concat (map (\<lambda>l. l @ [CHR 0x0A]) (plan_lines fo p))"

section \<open>The reader\<close>

text \<open>
  What is wrong with a line: it is refused by its number, or \<^verbatim>\<open>int()\<close> raises a bare \<^verbatim>\<open>ValueError\<close> over Python's limit of digits.  What is wrong with a plan: a line, or what is
  checked at the end.
\<close>

datatype line_fault = Refused_Line | Digits_Limit

datatype plan_error = At_Line nat line_fault | No_Header | Undeclared_Slot | Partial_Settings

definition want :: "string list \<Rightarrow> nat \<Rightarrow> line_fault + unit" where
  "want args n = (if length args = n then Inr () else Inl Refused_Line)"

definition INT_MAX :: int where "INT_MAX = 2 ^ 31 - 1"

definition unsigned :: "string \<Rightarrow> string" where
  "unsigned s = (if s \<noteq> [] \<and> (hd s = CHR ''+'' \<or> hd s = CHR ''-'') then tl s else s)"

definition all_digits :: "string \<Rightarrow> bool" where
  "all_digits s \<longleftrightarrow> s \<noteq> [] \<and> list_all is_digit_char s"

definition plan_int :: "string \<Rightarrow> line_fault + int" where
  "plan_int s = (let ds = unsigned s in
     if \<not> all_digits ds then Inl Refused_Line
     else if 4300 < length ds then Inl Digits_Limit
     else let v = (if hd s = CHR ''-'' then - int (digits_value ds) else int (digits_value ds))
       in if - INT_MAX - 1 \<le> v \<and> v \<le> INT_MAX then Inr v else Inl Refused_Line)"

text \<open>The regular expression of a number: digits with at most one point, and an exponent after \<^verbatim>\<open>e\<close> or \<^verbatim>\<open>E\<close>.\<close>

definition mantissa_re :: "string \<Rightarrow> bool" where
  "mantissa_re m = (let i = takeWhile is_digit_char m; r = dropWhile is_digit_char m
     in if i \<noteq> [] then r = [] \<or> (hd r = CHR ''.'' \<and> list_all is_digit_char (tl r)) else r \<noteq> [] \<and> hd r = CHR ''.'' \<and> all_digits (tl r))"

definition no_exponent :: "char \<Rightarrow> bool" where
  "no_exponent c \<longleftrightarrow> c \<noteq> CHR ''e'' \<and> c \<noteq> CHR ''E''"

definition number_re :: "string \<Rightarrow> bool" where
  "number_re s = (let x = dropWhile no_exponent (unsigned s) in mantissa_re (takeWhile no_exponent (unsigned s)) \<and> (x = [] \<or> all_digits (unsigned (tl x))))"

definition plan_float :: "'f float_ops \<Rightarrow> ('f \<Rightarrow> bool) \<Rightarrow> string \<Rightarrow> line_fault + 'f" where
  "plan_float fo P s = (if number_re s \<and> fo_finite fo (fo_read fo s) \<and> P (fo_read fo s) then Inr (fo_read fo s) else Inl Refused_Line)"

definition one_arg :: "string list \<Rightarrow> (string \<Rightarrow> line_fault + 'a) \<Rightarrow> line_fault + 'a" where
  "one_arg args f = rbind (want args 1) (\<lambda>_. f (hd args))"

definition int_from :: "int \<Rightarrow> string \<Rightarrow> line_fault + int" where
  "int_from lo s = rbind (plan_int s) (\<lambda>v. if v < lo then Inl Refused_Line else Inr v)"

definition extent_arg :: "string list \<Rightarrow> line_fault + int \<times> int" where
  "extent_arg args = rbind (want args 2) (\<lambda>_. rbind (plan_int (args ! 0)) (\<lambda>h. rbind (plan_int (args ! 1)) (\<lambda>w.
     if h \<le> 0 \<or> w \<le> 0 then Inl Refused_Line else Inr (h, w))))"

definition class_args :: "string list \<Rightarrow> line_fault + string list" where
  "class_args args = (if args = [] then Inl Refused_Line
     else if unwords args = ''-'' then Inr []
     else let labels = map strip (split_on CHR '','' (unwords args)) in if list_all (\<lambda>l. l \<noteq> []) labels then Inr labels else Inl Refused_Line)"

definition camera_arg :: "string list \<Rightarrow> string list \<Rightarrow> line_fault + string list" where
  "camera_arg cams args = one_arg args (\<lambda>c. if c \<in> set cams then Inl Refused_Line else Inr (cams @ [c]))"

definition tracker_option_args :: "(string, string) dict \<Rightarrow> string list \<Rightarrow> line_fault + (string, string) dict" where
  "tracker_option_args opts args = rbind (want args 2) (\<lambda>_.
     if args ! 0 \<in> fst ` set opts then Inl Refused_Line else Inr (sort_key fst (opts @ [(args ! 0, args ! 1)])))"


text \<open>The table of attributes: \<^verbatim>\<open>None\<close> for a verb that is not one of them.\<close>

definition apply_attr :: "'f float_ops \<Rightarrow> string \<Rightarrow> string list \<Rightarrow> 'f plan_node \<Rightarrow> (line_fault + 'f plan_node) option" where
  "apply_attr fo verb args m =
     (let word = (\<lambda>upd. Some (one_arg args (\<lambda>w. Inr (upd w))));
          whole = (\<lambda>lo upd. Some (one_arg args (\<lambda>w. rbind (int_from lo w) (\<lambda>i. Inr (upd i)))));
          real = (\<lambda>P upd. Some (one_arg args (\<lambda>w. rbind (plan_float fo P w) (\<lambda>x. Inr (upd x)))))
      in
      if verb = ''model'' then word (\<lambda>w. m\<lparr>pn_model := Some w\<rparr>)
      else if verb = ''classes'' then Some (rbind (class_args args) (\<lambda>cs. Inr (m\<lparr>pn_classes := Some cs\<rparr>)))
      else if verb = ''crop'' then Some (rbind (extent_arg args) (\<lambda>e. Inr (m\<lparr>pn_crop := Some e\<rparr>)))
      else if verb = ''letterbox'' then Some (rbind (extent_arg args) (\<lambda>e. Inr (m\<lparr>pn_letterbox := Some e\<rparr>)))
      else if verb = ''score'' then real (\<lambda>x. True) (\<lambda>x. m\<lparr>pn_score := Some x\<rparr>)
      else if verb = ''max_detections'' then whole 1 (\<lambda>i. m\<lparr>pn_max_detections := Some i\<rparr>)
      else if verb = ''fold_detections'' then word (\<lambda>w. m\<lparr>pn_fold_detections := Some w\<rparr>)
      else if verb = ''fold_prototypes'' then word (\<lambda>w. m\<lparr>pn_fold_prototypes := Some w\<rparr>)
      else if verb = ''fold_score'' then real (\<lambda>x. True) (\<lambda>x. m\<lparr>pn_fold_score := Some x\<rparr>)
      else if verb = ''fold_mask'' then real (\<lambda>x. 0 < fo_value fo x \<and> fo_value fo x < 1) (\<lambda>x. m\<lparr>pn_fold_mask := Some x\<rparr>)
      else if verb = ''instances'' then whole 1 (\<lambda>i. m\<lparr>pn_instances := Some i\<rparr>)
      else if verb = ''queue_delay_us'' then whole 0 (\<lambda>i. m\<lparr>pn_queue_delay_us := Some i\<rparr>)
      else if verb = ''artefact'' then word (\<lambda>w. m\<lparr>pn_artefact := Some w\<rparr>)
      else if verb = ''when'' then Some (if args = [] then Inl Refused_Line else Inr (m\<lparr>pn_when := Some (unwords args)\<rparr>))
      else if verb = ''per'' then word (\<lambda>w. m\<lparr>pn_per := Some w\<rparr>)
      else if verb = ''scope'' then word (\<lambda>w. m\<lparr>pn_scope := Some w\<rparr>)
      else if verb = ''sync_window_ms'' then real (\<lambda>x. 0 < fo_value fo x) (\<lambda>x. m\<lparr>pn_sync_window_ms := Some x\<rparr>)
      else if verb = ''max_instants'' then whole 1 (\<lambda>i. m\<lparr>pn_max_instants := Some i\<rparr>)
      else if verb = ''group'' then word (\<lambda>w. m\<lparr>pn_group := Some w\<rparr>)
      else if verb = ''camera'' then Some (rbind (camera_arg (pn_cameras m) args) (\<lambda>cs. Inr (m\<lparr>pn_cameras := cs\<rparr>)))
      else if verb = ''min_hits'' then whole 1 (\<lambda>i. m\<lparr>pn_min_hits := Some i\<rparr>)
      else if verb = ''min_height_fraction'' then real (\<lambda>x. 0 \<le> fo_value fo x \<and> fo_value fo x < 1) (\<lambda>x. m\<lparr>pn_min_height := Some x\<rparr>)
      else if verb = ''algorithm'' then word (\<lambda>w. m\<lparr>pn_algorithm := w\<rparr>)
      else if verb = ''regression_reset'' then whole 0 (\<lambda>i. m\<lparr>pn_regression_reset := Some i\<rparr>)
      else if verb = ''tracker_option'' then Some (rbind (tracker_option_args (pn_tracker_options m) args) (\<lambda>d. Inr (m\<lparr>pn_tracker_options := d\<rparr>)))
      else None)"

text \<open>What the loop over the lines has read so far.\<close>

record 'f reader =
  rd_name :: "string option"
  rd_version :: int
  rd_labels :: "(int, string) dict"
  rd_settings :: "(string, int) dict"
  rd_policy :: string
  rd_policy_options :: "(string, string) dict"
  rd_nodes :: "'f plan_node list"
  rd_edges :: "(string \<times> string \<times> string) list"
  rd_fields :: "(string, string list) dict"

definition new_reader :: "'f reader" where
  "new_reader = \<lparr>rd_name = None, rd_version = 0, rd_labels = [], rd_settings = [], rd_policy = [], rd_policy_options = [], rd_nodes = [], rd_edges = [], rd_fields = []\<rparr>"

definition read_header :: "string \<Rightarrow> string list \<Rightarrow> line_fault + int \<times> string" where
  "read_header line args = (if length args < 2 then Inl Refused_Line
     else rbind (plan_int (args ! 0)) (\<lambda>v. if v \<noteq> PLAN_VERSION then Inl Refused_Line else Inr (v, rest_of line)))"

definition read_setting :: "string list \<Rightarrow> (string, int) dict \<Rightarrow> line_fault + (string, int) dict" where
  "read_setting args d = rbind (want args 2) (\<lambda>_.
     if args ! 0 \<notin> set SETTING_KEYS \<or> args ! 0 \<in> fst ` set d then Inl Refused_Line
     else rbind (int_from (the (map_of SETTING_BOUNDS (args ! 0))) (args ! 1)) (\<lambda>v. Inr (d @ [(args ! 0, v)])))"

definition read_label :: "string \<Rightarrow> string list \<Rightarrow> (int, string) dict \<Rightarrow> line_fault + (int, string) dict" where
  "read_label line args d = (if length args < 2 then Inl Refused_Line
     else rbind (plan_int (args ! 0)) (\<lambda>i. if i \<in> fst ` set d then Inl Refused_Line else Inr (d @ [(i, rest_of line)])))"

definition read_attr :: "'f float_ops \<Rightarrow> string \<Rightarrow> string list \<Rightarrow> 'f plan_node list \<Rightarrow> line_fault + 'f plan_node list" where
  "read_attr fo verb args ns = (if ns = [] then Inl Refused_Line
     else case apply_attr fo verb args (last ns) of None \<Rightarrow> Inl Refused_Line | Some r \<Rightarrow> rbind r (\<lambda>m. Inr (butlast ns @ [m])))"

definition read_line :: "'f float_ops \<Rightarrow> string \<Rightarrow> 'f reader \<Rightarrow> line_fault + 'f reader" where
  "read_line fo line st = (let verb = hd (word_list line); args = tl (word_list line) in
     if verb = ''plan'' then (if rd_name st \<noteq> None then Inl Refused_Line else rbind (read_header line args) (\<lambda>(v, n). Inr (st\<lparr>rd_name := Some n, rd_version := v\<rparr>)))
     else if rd_name st = None then Inl Refused_Line
     else if verb = ''setting'' then rbind (read_setting args (rd_settings st)) (\<lambda>d. Inr (st\<lparr>rd_settings := d\<rparr>))
     else if verb = ''policy'' then rbind (want args 1) (\<lambda>_. if rd_policy st \<noteq> [] then Inl Refused_Line else Inr (st\<lparr>rd_policy := args ! 0\<rparr>))
     else if verb = ''policy_option'' then rbind (want args 2) (\<lambda>_. if rd_policy st = [] \<or> args ! 0 \<in> fst ` set (rd_policy_options st) then Inl Refused_Line
       else Inr (st\<lparr>rd_policy_options := rd_policy_options st @ [(args ! 0, args ! 1)]\<rparr>))
     else if verb = ''label'' then rbind (read_label line args (rd_labels st)) (\<lambda>d. Inr (st\<lparr>rd_labels := d\<rparr>))
     else if verb = ''node'' then rbind (want args 3) (\<lambda>_. if args ! 0 \<in> pn_slot ` set (rd_nodes st) then Inl Refused_Line
       else Inr (st\<lparr>rd_nodes := rd_nodes st @ [new_node (args ! 0) (args ! 1) (args ! 2)]\<rparr>))
     else if verb = ''edge'' then rbind (want args 3) (\<lambda>_. Inr (st\<lparr>rd_edges := rd_edges st @ [(args ! 0, args ! 1, args ! 2)]\<rparr>))
     else if verb = ''field'' then (if length args < 2 \<or> args ! 0 \<in> fst ` set (rd_fields st) then Inl Refused_Line
       else Inr (st\<lparr>rd_fields := rd_fields st @ [(args ! 0, tl args)]\<rparr>))
     else rbind (read_attr fo verb args (rd_nodes st)) (\<lambda>ns. Inr (st\<lparr>rd_nodes := ns\<rparr>)))"

definition content_of :: "string \<Rightarrow> string" where
  "content_of raw = strip (takeWhile (\<lambda>c. c \<noteq> CHR ''#'') raw)"

fun read_lines :: "'f float_ops \<Rightarrow> nat \<Rightarrow> string list \<Rightarrow> 'f reader \<Rightarrow> plan_error + 'f reader" where
  "read_lines fo k [] st = Inr st"
| "read_lines fo k (raw # ls) st =
     (if content_of raw = [] then read_lines fo (Suc k) ls st
      else case read_line fo (content_of raw) st of Inl f \<Rightarrow> Inl (At_Line k f) | Inr st' \<Rightarrow> read_lines fo (Suc k) ls st')"

definition plan_settings_from :: "(string, int) dict \<Rightarrow> plan_error + plan_settings option" where
  "plan_settings_from d = (if d = [] then Inr None
     else if list_ex (\<lambda>k. k \<notin> fst ` set d) SETTING_KEYS then Inl Partial_Settings else Inr (Some (settings_of d)))"

definition finish_plan :: "'f reader \<Rightarrow> plan_error + 'f resolved_plan" where
  "finish_plan st = (case rd_name st of None \<Rightarrow> Inl No_Header
     | Some n \<Rightarrow>
         if list_ex (\<lambda>(f, slots). list_ex (\<lambda>s. s \<notin> pn_slot ` set (rd_nodes st)) slots) (rd_fields st) then Inl Undeclared_Slot
         else rbind (plan_settings_from (rd_settings st)) (\<lambda>s. Inr \<lparr>rp_name = if n = ''-'' then [] else n, rp_nodes = rd_nodes st, rp_edges = rd_edges st,
           rp_labels = rd_labels st, rp_fields = rd_fields st, rp_settings = s, rp_policy = rd_policy st, rp_policy_options = rd_policy_options st,
           rp_version = rd_version st\<rparr>))"

definition parse_plan :: "'f float_ops \<Rightarrow> string \<Rightarrow> plan_error + 'f resolved_plan" where
  "parse_plan fo text = rbind (read_lines fo 1 (splitlines text) new_reader) finish_plan"

end
