(* ===== verification/Plan_Roundtrip.thy ===== *)
theory Plan_Roundtrip
  imports Plan_Text
begin

text \<open>
  A plan is read back from its text, and what the reader accepts is such a plan.
\<close>

section \<open>Words and phrases\<close>

text \<open>A word of a plan line; a phrase, the last argument of a line that takes the rest of it; a sentence, whose words are one space apart.\<close>

definition plan_word :: "string \<Rightarrow> bool" where
  "plan_word w \<longleftrightarrow> w \<noteq> [] \<and> list_all (\<lambda>c. \<not> is_space c \<and> c \<noteq> CHR ''#'') w"

definition phrase :: "string \<Rightarrow> bool" where
  "phrase w \<longleftrightarrow> w \<noteq> [] \<and> \<not> is_space (hd w) \<and> \<not> is_space (last w) \<and> list_all (\<lambda>c. \<not> is_break c \<and> c \<noteq> CHR ''#'') w"

definition sentence :: "string \<Rightarrow> bool" where
  "sentence w \<longleftrightarrow> w \<noteq> [] \<and> unwords (word_list w) = w \<and> CHR ''#'' \<notin> set w"

lemma break_space: "is_break c \<Longrightarrow> is_space c"
  by (auto simp: is_break_def is_space_def Let_def)

lemma space_chars [simp]: "is_space CHR '' ''" "\<not> is_break CHR '' ''" "is_break CHR 0x0A" "\<not> is_space CHR ''#''"
  by code_simp+

lemma plan_wordD:
  assumes "plan_word w"
  shows "w \<noteq> []" "c \<in> set w \<Longrightarrow> \<not> is_space c" "c \<in> set w \<Longrightarrow> c \<noteq> CHR ''#''" "c \<in> set w \<Longrightarrow> \<not> is_break c"
  using assms break_space by (auto simp: plan_word_def list_all_iff)

lemma plan_word_phrase: "plan_word w \<Longrightarrow> phrase w"
  using break_space by (auto simp: plan_word_def phrase_def list_all_iff)

lemma word_list_Nil [simp]: "word_list [] = []"
  by (subst word_list.simps) (simp add: lstrip_def)

lemma word_list_space: "is_space c \<Longrightarrow> word_list (c # s) = word_list s"
  by (subst (1 2) word_list.simps) (simp add: lstrip_def)

lemma lstrip_id: "s \<noteq> [] \<Longrightarrow> \<not> is_space (hd s) \<Longrightarrow> lstrip s = s"
  by (cases s) (auto simp: lstrip_def)

lemma word_list_word: "w \<noteq> [] \<Longrightarrow> (\<And>c. c \<in> set w \<Longrightarrow> \<not> is_space c) \<Longrightarrow> s = [] \<or> is_space (hd s) \<Longrightarrow> word_list (w @ s) = w # word_list s"
proof -
  assume w: "w \<noteq> []" "\<And>c. c \<in> set w \<Longrightarrow> \<not> is_space c" and s: "s = [] \<or> is_space (hd s)"
  have t: "takeWhile (\<lambda>c. \<not> is_space c) (w @ s) = w" "dropWhile (\<lambda>c. \<not> is_space c) (w @ s) = s"
    using w(2) s by (cases s; auto simp: takeWhile_append dropWhile_append)+
  have l: "lstrip (w @ s) = w @ s" using w by (cases w) (auto intro!: lstrip_id)
  show ?thesis using w(1) by (subst word_list.simps) (simp add: l t)
qed

lemma word_list_single: "plan_word w \<Longrightarrow> word_list w = [w]"
  using word_list_word[of w "[]"] plan_wordD by simp

lemma word_list_cons: "plan_word w \<Longrightarrow> word_list (w @ '' '' @ s) = w # word_list s"
  using word_list_word[of w "'' '' @ s"] plan_wordD by (simp add: word_list_space)

lemma skip_word_cons: "plan_word w \<Longrightarrow> s \<noteq> [] \<Longrightarrow> \<not> is_space (hd s) \<Longrightarrow> skip_word (w @ '' '' @ s) = s"
proof -
  assume w: "plan_word w" and s: "s \<noteq> []" "\<not> is_space (hd s)"
  have "dropWhile (\<lambda>c. \<not> is_space c) (w @ '' '' @ s) = '' '' @ s" using plan_wordD(2)[OF w] by (simp add: dropWhile_append)
  then show ?thesis using lstrip_id[OF s] by (simp add: skip_word_def lstrip_def)
qed

lemma unwords_Cons: "ws \<noteq> [] \<Longrightarrow> unwords (w # ws) = w @ '' '' @ unwords ws"
  by (cases ws) simp_all

lemma word_list_unwords: "list_all plan_word ws \<Longrightarrow> word_list (unwords ws) = ws"
proof (induction ws rule: unwords.induct)
  case (3 w v ws)
  then show ?case using word_list_cons[of w "unwords (v # ws)"] by simp
qed (simp_all add: word_list_single)

lemma unwords_ends:
  "ws \<noteq> [] \<Longrightarrow> (\<And>w. w \<in> set ws \<Longrightarrow> w \<noteq> []) \<Longrightarrow> unwords ws \<noteq> [] \<and> hd (unwords ws) = hd (hd ws) \<and> last (unwords ws) = last (last ws)"
  by (induction ws rule: unwords.induct) (auto simp: hd_append)

lemma unwords_chars: "set (unwords ws) \<subseteq> insert CHR '' '' (\<Union> (set ` set ws))"
  by (induction ws rule: unwords.induct) auto

text \<open>The words of a text, and what it is made of.\<close>

lemma word_list_words:
  "w \<in> set (word_list s) \<Longrightarrow> w \<noteq> [] \<and> (\<forall>c \<in> set w. \<not> is_space c \<and> c \<in> set s)"
proof (induction s arbitrary: w rule: word_list.induct)
  case (1 s)
  let ?t = "lstrip s"
  show ?case
  proof (cases "?t = []")
    case True
    then show ?thesis using 1(2) by (subst (asm) word_list.simps) simp
  next
    case False
    then obtain c cs where t: "?t = c # cs" by (cases ?t) auto
    then have c: "\<not> is_space c" using dropWhile_eq_Cons_conv[of is_space s c cs] by (metis lstrip_def)
    have sub: "set ?t \<subseteq> set s" by (auto simp: lstrip_def dest: set_dropWhileD)
    have "w = takeWhile (\<lambda>c. \<not> is_space c) ?t \<or> w \<in> set (word_list (dropWhile (\<lambda>c. \<not> is_space c) ?t))"
      using 1(2) False by (subst (asm) word_list.simps) (auto simp: Let_def)
    then show ?thesis
    proof
      assume "w = takeWhile (\<lambda>c. \<not> is_space c) ?t"
      then show ?thesis using c t sub by (auto dest!: set_takeWhileD)
    next
      assume w: "w \<in> set (word_list (dropWhile (\<lambda>c. \<not> is_space c) ?t))"
      show ?thesis using 1(1)[OF refl False w] sub set_dropWhileD[of _ "\<lambda>c. \<not> is_space c" ?t] by blast
    qed
  qed
qed

lemma sentence_phrase: "sentence w \<Longrightarrow> phrase w"
proof -
  assume s: "sentence w"
  let ?ws = "word_list w"
  have u: "unwords ?ws = w" using s by (simp add: sentence_def)
  have ne: "?ws \<noteq> []" using s u by (metis sentence_def unwords.simps(1))
  have e: "hd w = hd (hd ?ws)" "last w = last (last ?ws)" using unwords_ends[OF ne] word_list_words u by metis+
  have "c = CHR '' '' \<or> \<not> is_space c" if "c \<in> set w" for c
    using that unwords_chars[of ?ws] word_list_words[of _ w] unfolding u by blast
  then have "\<not> is_break c" if "c \<in> set w" for c using that break_space by force
  moreover have "\<not> is_space (hd w)" "\<not> is_space (last w)"
    using e word_list_words[of "hd ?ws" w] word_list_words[of "last ?ws" w] ne by (metis hd_in_set last_in_set)+
  ultimately show ?thesis using s by (auto simp: phrase_def sentence_def list_all_iff)
qed

section \<open>The lines of a text\<close>

lemma splitlines_line: "(\<And>c. c \<in> set l \<Longrightarrow> \<not> is_break c) \<Longrightarrow> splitlines (l @ CHR 0x0A # rest) = l # splitlines rest"
  by (induction l) auto

lemma splitlines_lines: "\<forall>l \<in> set ls. \<forall>c \<in> set l. \<not> is_break c \<Longrightarrow> splitlines (concat (map (\<lambda>l. l @ [CHR 0x0A]) ls)) = ls"
  by (induction ls) (simp_all add: splitlines_line)

lemma content_phrase: "phrase l \<Longrightarrow> content_of l = l"
proof -
  assume l: "phrase l"
  then have t: "takeWhile (\<lambda>c. c \<noteq> CHR ''#'') l = l" by (simp add: phrase_def list_all_iff takeWhile_eq_all_conv)
  show ?thesis unfolding content_of_def t using l by (intro strip_id) (auto simp: phrase_def)
qed

lemma phrase_line: "list_all plan_word ws \<Longrightarrow> ws \<noteq> [] \<Longrightarrow> phrase p \<Longrightarrow> phrase (unwords (ws @ [p]))"
proof (induction ws rule: unwords.induct)
  case (2 w)
  then show ?case using plan_wordD[of w] by (auto simp: phrase_def list_all_iff hd_append)
next
  case (3 w v ws)
  have p: "phrase (unwords ((v # ws) @ [p]))" using 3 by simp
  have u: "unwords ((w # v # ws) @ [p]) = w @ '' '' @ unwords ((v # ws) @ [p])" by simp
  show ?case unfolding u using p plan_wordD[of w] 3(2) by (auto simp: phrase_def list_all_iff hd_append)
qed simp


section \<open>Numbers\<close>

lemma digit_char: "is_digit_char c \<longleftrightarrow> 48 \<le> (of_char c :: nat) \<and> (of_char c :: nat) \<le> 57"
  by (simp add: is_digit_char_def Let_def)

lemma digit_plain: "is_digit_char c \<Longrightarrow> \<not> is_space c \<and> c \<noteq> CHR ''#'' \<and> c \<noteq> CHR ''-'' \<and> c \<noteq> CHR ''+''"
  by (auto simp: is_digit_char_def is_space_def Let_def)

lemma nat_digits_digits: "all_digits (nat_digits n)"
proof -
  have "nat_digits n \<noteq> []" by (subst nat_digits.simps) simp
  then show ?thesis using nat_digits_chars[of _ n] by (simp add: all_digits_def list_all_iff digit_char)
qed

lemma int_str_word: "plan_word (int_str i)"
  using nat_digits_digits digit_plain by (auto simp: int_str_def plan_word_def all_digits_def list_all_iff is_space_def)

lemma nat_digits_length: "n < 10 ^ k \<Longrightarrow> 0 < k \<Longrightarrow> length (nat_digits n) \<le> k"
proof (induction k arbitrary: n)
  case (Suc k)
  show ?case
  proof (cases "n < 10")
    case True
    then show ?thesis by (simp add: nat_digits.simps[of n])
  next
    case False
    then have "0 < k" using Suc.prems by (cases k) auto
    then have "length (nat_digits (n div 10)) \<le> k" using Suc by (simp add: less_mult_imp_div_less mult.commute)
    then show ?thesis using False by (simp add: nat_digits.simps[of n])
  qed
qed simp

lemma plan_int_str:
  assumes "- INT_MAX - 1 \<le> i" "i \<le> INT_MAX"
  shows "plan_int (int_str i) = Inr i"
proof -
  define d where "d = nat_digits (nat \<bar>i\<bar>)"
  have d: "all_digits d" unfolding d_def by (rule nat_digits_digits)
  then obtain c cs where c: "d = c # cs" "c \<noteq> CHR ''-''" "c \<noteq> CHR ''+''" using digit_plain by (cases d) (auto simp: all_digits_def)
  have s: "int_str i = (if i < 0 then CHR ''-'' # d else d)" by (auto simp: int_str_def d_def)
  have u: "unsigned (int_str i) = d" using c by (simp add: s unsigned_def)
  have "nat \<bar>i\<bar> < 10 ^ 10" using assms by (simp add: INT_MAX_def)
  then have l: "length d \<le> 10" unfolding d_def by (rule nat_digits_length) simp
  have h: "hd (int_str i) = CHR ''-'' \<longleftrightarrow> i < 0" using c by (simp add: s)
  show ?thesis unfolding plan_int_def Let_def u h using d l assms by (simp add: d_def nat_digits_value)
qed

section \<open>Well-formed plans\<close>

definition in_range :: "int \<Rightarrow> int \<Rightarrow> bool" where
  "in_range lo v \<longleftrightarrow> lo \<le> v \<and> v \<le> INT_MAX"

definition float_ok :: "'f float_ops \<Rightarrow> ('f \<Rightarrow> bool) \<Rightarrow> 'f option \<Rightarrow> bool" where
  "float_ok fo P v \<longleftrightarrow> pred_option (\<lambda>x. fo_finite fo x \<and> P x) v"

definition classes_ok :: "string list \<Rightarrow> bool" where
  "classes_ok cs \<longleftrightarrow> cs \<noteq> [''-''] \<and> list_all (\<lambda>c. sentence c \<and> CHR '','' \<notin> set c) cs"

definition extent_ok :: "int \<times> int \<Rightarrow> bool" where
  "extent_ok e \<longleftrightarrow> in_range 1 (fst e) \<and> in_range 1 (snd e)"

definition node_ok :: "'f float_ops \<Rightarrow> 'f plan_node \<Rightarrow> bool" where
  "node_ok fo n \<longleftrightarrow> plan_word (pn_slot n) \<and> plan_word (pn_kind n) \<and> plan_word (pn_impl n) \<and> pred_option plan_word (pn_model n) \<and>
     pred_option classes_ok (pn_classes n) \<and> pred_option extent_ok (pn_crop n) \<and> pred_option extent_ok (pn_letterbox n) \<and>
     float_ok fo (\<lambda>x. True) (pn_score n) \<and> pred_option (in_range 1) (pn_max_detections n) \<and> pred_option (in_range 1) (pn_instances n) \<and>
     pred_option (in_range 0) (pn_queue_delay_us n) \<and> pred_option plan_word (pn_artefact n) \<and> float_ok fo (\<lambda>x. True) (pn_fold_score n) \<and>
     float_ok fo (\<lambda>x. 0 < fo_value fo x \<and> fo_value fo x < 1) (pn_fold_mask n) \<and> pred_option plan_word (pn_fold_detections n) \<and>
     pred_option plan_word (pn_fold_prototypes n) \<and> pred_option sentence (pn_when n) \<and> pred_option plan_word (pn_per n) \<and> pred_option plan_word (pn_scope n) \<and>
     float_ok fo (\<lambda>x. 0 < fo_value fo x) (pn_sync_window_ms n) \<and> pred_option (in_range 1) (pn_max_instants n) \<and> pred_option plan_word (pn_group n) \<and>
     distinct (pn_cameras n) \<and> list_all plan_word (pn_cameras n) \<and> pred_option (in_range 1) (pn_min_hits n) \<and>
     float_ok fo (\<lambda>x. 0 \<le> fo_value fo x \<and> fo_value fo x < 1) (pn_min_height n) \<and> pred_option (in_range 0) (pn_regression_reset n) \<and>
     sorted (map fst (pn_tracker_options n)) \<and> distinct (map fst (pn_tracker_options n)) \<and>
     list_all (\<lambda>(k, v). plan_word k \<and> plan_word v) (pn_tracker_options n) \<and> (pn_algorithm n = [] \<or> plan_word (pn_algorithm n))"

text \<open>The documented behaviour of \<^verbatim>\<open>repr\<close> and \<^verbatim>\<open>float\<close>.\<close>

definition float_laws :: "'f float_ops \<Rightarrow> bool" where
  "float_laws fo \<longleftrightarrow> (\<forall>x. fo_finite fo x \<longrightarrow> number_re (fo_repr fo x) \<and> fo_read fo (fo_repr fo x) = x)"

lemma mantissa_re_chars: "mantissa_re m \<Longrightarrow> m \<noteq> [] \<and> (\<forall>c \<in> set m. is_digit_char c \<or> c = CHR ''.'')"
proof -
  assume m: "mantissa_re m"
  let ?i = "takeWhile is_digit_char m" let ?r = "dropWhile is_digit_char m"
  have i: "\<forall>c \<in> set ?i. is_digit_char c" by (auto dest: set_takeWhileD)
  have r: "\<forall>c \<in> set ?r. is_digit_char c \<or> c = CHR ''.''"
  proof (cases ?r)
    case Nil
    show ?thesis unfolding Nil by simp
  next
    case (Cons c cs)
    show ?thesis using m unfolding mantissa_re_def Let_def Cons by (auto simp: all_digits_def list_all_iff split: if_splits)
  qed
  have "m \<noteq> []" using m by (auto simp: mantissa_re_def)
  moreover have "set m = set ?i \<union> set ?r" by (metis set_append takeWhile_dropWhile_id)
  ultimately show ?thesis using i r by blast
qed

lemma unsigned_chars: "set s \<subseteq> insert CHR ''+'' (insert CHR ''-'' (set (unsigned s)))" "unsigned [] = []"
  by (cases s; auto simp: unsigned_def)+

lemma number_re_chars: "number_re s \<Longrightarrow> s \<noteq> [] \<and> (\<forall>c \<in> set s. is_digit_char c \<or> c \<in> {CHR ''+'', CHR ''-'', CHR ''.'', CHR ''e'', CHR ''E''})"
proof -
  assume n: "number_re s"
  let ?m = "takeWhile no_exponent (unsigned s)" let ?x = "dropWhile no_exponent (unsigned s)"
  have m: "?m \<noteq> []" "\<forall>c \<in> set ?m. is_digit_char c \<or> c = CHR ''.''" using n mantissa_re_chars[of ?m] by (simp_all add: number_re_def Let_def)
  have x: "\<forall>c \<in> set ?x. is_digit_char c \<or> c \<in> {CHR ''+'', CHR ''-'', CHR ''e'', CHR ''E''}"
  proof (cases ?x)
    case (Cons e y)
    then have "\<not> no_exponent e" using dropWhile_eq_Cons_conv by metis
    moreover have "all_digits (unsigned y)" using n Cons by (simp add: number_re_def)
    ultimately show ?thesis using unsigned_chars(1)[of y] unfolding Cons by (auto simp: no_exponent_def all_digits_def list_all_iff)
  next
    case Nil
    show ?thesis unfolding Nil by simp
  qed
  have "set (unsigned s) = set ?m \<union> set ?x" by (metis set_append takeWhile_dropWhile_id)
  then have "\<forall>c \<in> set (unsigned s). is_digit_char c \<or> c \<in> {CHR ''+'', CHR ''-'', CHR ''.'', CHR ''e'', CHR ''E''}" using m(2) x by auto
  moreover have "s \<noteq> []" using m(1) unsigned_chars(2) by auto
  ultimately show ?thesis using unsigned_chars(1)[of s] by auto
qed

lemma number_word: "number_re s \<Longrightarrow> plan_word s"
proof -
  assume n: "number_re s"
  have "list_all (\<lambda>c. \<not> is_space c \<and> c \<noteq> CHR ''#'') ''+-.eE''" by code_simp
  then have "\<not> is_space c \<and> c \<noteq> CHR ''#''" if "c \<in> {CHR ''+'', CHR ''-'', CHR ''.'', CHR ''e'', CHR ''E''}" for c
    using that unfolding list_all_iff by (simp only: list.set insert_iff empty_iff) blast
  then show ?thesis using number_re_chars[OF n] digit_plain unfolding plan_word_def list_all_iff by blast
qed

section \<open>Reading an attribute\<close>

definition reads :: "'f float_ops \<Rightarrow> string list \<Rightarrow> 'f plan_node \<Rightarrow> 'f plan_node \<Rightarrow> bool" where
  "reads fo ls m m' \<longleftrightarrow> (\<forall>k st ns. rd_name st \<noteq> None \<longrightarrow> read_lines fo k ls (st\<lparr>rd_nodes := ns @ [m]\<rparr>) = Inr (st\<lparr>rd_nodes := ns @ [m']\<rparr>))"

lemma read_lines_append: "read_lines fo k (ls @ ls') st = rbind (read_lines fo k ls st) (read_lines fo (k + length ls) ls')"
  by (induction fo k ls st rule: read_lines.induct) (auto split: sum.splits)

lemma reads_Nil: "reads fo [] m m"
  by (simp add: reads_def)

lemma reads_append: "reads fo ls m m1 \<Longrightarrow> reads fo ls' m1 m2 \<Longrightarrow> reads fo (ls @ ls') m m2"
  by (simp add: reads_def read_lines_append)

definition top_verbs :: "string list" where
  "top_verbs = [''plan'', ''setting'', ''policy'', ''policy_option'', ''label'', ''node'', ''edge'', ''field'']"

lemma reads_line:
  assumes "phrase l" and w: "word_list l = verb # args" and t: "verb \<notin> set top_verbs" and a: "apply_attr fo verb args m = Some (Inr m')"
  shows "reads fo [l] m m'"
proof -
  have n: "rd_name (st\<lparr>rd_nodes := ns\<rparr>) = rd_name st" for st :: "'f reader" and ns by simp
  have "l \<noteq> []" using assms(1) by (simp add: phrase_def)
  then show ?thesis using t content_phrase[OF assms(1)] by (auto simp: reads_def read_line_def w top_verbs_def read_attr_def a)
qed

lemma reads_words:
  assumes "list_all plan_word (verb # args)" and "verb \<notin> set top_verbs" and "apply_attr fo verb args m = Some (Inr m')"
  shows "reads fo [unwords (verb # args)] m m'"
proof (rule reads_line)
  show "word_list (unwords (verb # args)) = verb # args" using assms(1) by (rule word_list_unwords)
  show "phrase (unwords (verb # args))"
  proof (cases args rule: rev_cases)
    case Nil
    then show ?thesis using assms(1) plan_word_phrase by simp
  next
    case (snoc ws w)
    then show ?thesis using phrase_line[of "verb # ws" w] assms(1) plan_word_phrase by simp
  qed
qed (fact assms)+

lemma reads_word_lines:
  assumes "plan_word key" "key \<notin> set top_verbs" and "pred_option plan_word v" and "v = None \<Longrightarrow> m' = m"
    and "\<And>w. v = Some w \<Longrightarrow> apply_attr fo key [w] m = Some (Inr m')"
  shows "reads fo (word_lines key v) m m'"
proof (cases v)
  case (Some w)
  then have "reads fo [unwords [key, w]] m m'" using assms by (intro reads_words) auto
  then show ?thesis using Some assms(3) by (auto simp: word_lines_def plan_word_def)
qed (use assms(4) in \<open>simp add: word_lines_def reads_Nil\<close>)

lemma reads_int_lines:
  assumes "plan_word key" "key \<notin> set top_verbs" and "v = None \<Longrightarrow> m' = m" and "\<And>i. v = Some i \<Longrightarrow> apply_attr fo key [int_str i] m = Some (Inr m')"
  shows "reads fo (int_lines key v) m m'"
proof (cases v)
  case (Some i)
  then have "reads fo [unwords [key, int_str i]] m m'" using assms by (intro reads_words) (auto simp: int_str_word)
  then show ?thesis using Some by (simp add: int_lines_def)
qed (use assms(3) in \<open>simp add: int_lines_def reads_Nil\<close>)

lemma reads_float_lines:
  assumes "float_laws fo" and "plan_word key" "key \<notin> set top_verbs" and "float_ok fo P v" and "v = None \<Longrightarrow> m' = m"
    and "\<And>x. v = Some x \<Longrightarrow> plan_float fo P (fo_repr fo x) = Inr x \<Longrightarrow> apply_attr fo key [fo_repr fo x] m = Some (Inr m')"
  shows "reads fo (float_lines fo key v) m m'"
proof (cases v)
  case (Some x)
  then have x: "number_re (fo_repr fo x)" "plan_float fo P (fo_repr fo x) = Inr x" using assms(1,4) by (auto simp: float_laws_def float_ok_def plan_float_def)
  then have "reads fo [unwords [key, fo_repr fo x]] m m'" using Some assms number_word by (intro reads_words) auto
  then show ?thesis using Some by (simp add: float_lines_def)
qed (use assms(5) in \<open>simp add: float_lines_def reads_Nil\<close>)

lemma reads_extent_lines:
  assumes "plan_word key" "key \<notin> set top_verbs" and "pred_option extent_ok v" and "v = None \<Longrightarrow> m' = m"
    and "\<And>e. v = Some e \<Longrightarrow> extent_arg [int_str (fst e), int_str (snd e)] = Inr e \<Longrightarrow> apply_attr fo key [int_str (fst e), int_str (snd e)] m = Some (Inr m')"
  shows "reads fo (extent_lines key v) m m'"
proof (cases v)
  case (Some e)
  then have "extent_arg [int_str (fst e), int_str (snd e)] = Inr e"
    using assms(3) plan_int_str[of "fst e"] plan_int_str[of "snd e"] by (auto simp: extent_arg_def want_def extent_ok_def in_range_def INT_MAX_def)
  then have "reads fo [unwords [key, int_str (fst e), int_str (snd e)]] m m'" using Some assms by (intro reads_words) (auto simp: int_str_word)
  then show ?thesis using Some by (cases e) (simp add: extent_lines_def)
qed (use assms(4) in \<open>simp add: extent_lines_def reads_Nil\<close>)


lemma key_words: "list_all plan_word [''model'', ''classes'', ''crop'', ''letterbox'', ''score'', ''max_detections'', ''instances'', ''queue_delay_us'', ''artefact'',
    ''fold_detections'', ''fold_prototypes'', ''fold_score'', ''fold_mask'', ''when'', ''per'', ''scope'', ''group'', ''camera'', ''min_hits'', ''min_height_fraction'',
    ''sync_window_ms'', ''max_instants'', ''algorithm'', ''regression_reset'', ''tracker_option'']" and
  key_verbs: "list_all (\<lambda>k. k \<notin> set top_verbs) [''model'', ''classes'', ''crop'', ''letterbox'', ''score'', ''max_detections'', ''instances'', ''queue_delay_us'', ''artefact'',
    ''fold_detections'', ''fold_prototypes'', ''fold_score'', ''fold_mask'', ''when'', ''per'', ''scope'', ''group'', ''camera'', ''min_hits'', ''min_height_fraction'',
    ''sync_window_ms'', ''max_instants'', ''algorithm'', ''regression_reset'', ''tracker_option'']"
  by code_simp+

lemmas key_facts = key_words[unfolded list.pred_inject simp_thms] key_verbs[unfolded list.pred_inject simp_thms]

lemma one_arg_single: "one_arg [w] f = f w"
  by (simp add: one_arg_def want_def)

lemma int_from_str: "in_range lo i \<Longrightarrow> - INT_MAX - 1 \<le> lo \<Longrightarrow> int_from lo (int_str i) = Inr i"
  by (simp add: int_from_def in_range_def plan_int_str)

text \<open>The table, entry by entry.\<close>

lemma key_distinct: "distinct (rev [''model'', ''classes'', ''crop'', ''letterbox'', ''score'', ''max_detections'', ''fold_detections'', ''fold_prototypes'', ''fold_score'', ''fold_mask'', ''instances'', ''queue_delay_us'', ''artefact'', ''when'', ''per'', ''scope'', ''sync_window_ms'', ''max_instants'', ''group'', ''camera'', ''min_hits'', ''min_height_fraction'', ''algorithm'', ''regression_reset'', ''tracker_option''])"
  by code_simp

lemmas key_neqs = key_distinct[unfolded rev.simps append.simps distinct.simps list.set insert_iff empty_iff de_Morgan_disj simp_thms conj_assoc]

lemma attr_eqs:
  "apply_attr fo ''model'' args m = Some (one_arg args (\<lambda>w. Inr (m\<lparr>pn_model := Some w\<rparr>)))"
  "apply_attr fo ''classes'' args m = Some (rbind (class_args args) (\<lambda>cs. Inr (m\<lparr>pn_classes := Some cs\<rparr>)))"
  "apply_attr fo ''crop'' args m = Some (rbind (extent_arg args) (\<lambda>e. Inr (m\<lparr>pn_crop := Some e\<rparr>)))"
  "apply_attr fo ''letterbox'' args m = Some (rbind (extent_arg args) (\<lambda>e. Inr (m\<lparr>pn_letterbox := Some e\<rparr>)))"
  "apply_attr fo ''score'' args m = Some (one_arg args (\<lambda>w. rbind (plan_float fo (\<lambda>x. True) w) (\<lambda>x. Inr (m\<lparr>pn_score := Some x\<rparr>))))"
  "apply_attr fo ''max_detections'' args m = Some (one_arg args (\<lambda>w. rbind (int_from 1 w) (\<lambda>i. Inr (m\<lparr>pn_max_detections := Some i\<rparr>))))"
  "apply_attr fo ''fold_detections'' args m = Some (one_arg args (\<lambda>w. Inr (m\<lparr>pn_fold_detections := Some w\<rparr>)))"
  "apply_attr fo ''fold_prototypes'' args m = Some (one_arg args (\<lambda>w. Inr (m\<lparr>pn_fold_prototypes := Some w\<rparr>)))"
  "apply_attr fo ''fold_score'' args m = Some (one_arg args (\<lambda>w. rbind (plan_float fo (\<lambda>x. True) w) (\<lambda>x. Inr (m\<lparr>pn_fold_score := Some x\<rparr>))))"
  "apply_attr fo ''fold_mask'' args m = Some (one_arg args (\<lambda>w. rbind (plan_float fo (\<lambda>x. 0 < fo_value fo x \<and> fo_value fo x < 1) w) (\<lambda>x. Inr (m\<lparr>pn_fold_mask := Some x\<rparr>))))"
  "apply_attr fo ''instances'' args m = Some (one_arg args (\<lambda>w. rbind (int_from 1 w) (\<lambda>i. Inr (m\<lparr>pn_instances := Some i\<rparr>))))"
  "apply_attr fo ''queue_delay_us'' args m = Some (one_arg args (\<lambda>w. rbind (int_from 0 w) (\<lambda>i. Inr (m\<lparr>pn_queue_delay_us := Some i\<rparr>))))"
  "apply_attr fo ''artefact'' args m = Some (one_arg args (\<lambda>w. Inr (m\<lparr>pn_artefact := Some w\<rparr>)))"
  "apply_attr fo ''when'' args m = Some (if args = [] then Inl Refused_Line else Inr (m\<lparr>pn_when := Some (unwords args)\<rparr>))"
  "apply_attr fo ''per'' args m = Some (one_arg args (\<lambda>w. Inr (m\<lparr>pn_per := Some w\<rparr>)))"
  "apply_attr fo ''scope'' args m = Some (one_arg args (\<lambda>w. Inr (m\<lparr>pn_scope := Some w\<rparr>)))"
  "apply_attr fo ''sync_window_ms'' args m = Some (one_arg args (\<lambda>w. rbind (plan_float fo (\<lambda>x. 0 < fo_value fo x) w) (\<lambda>x. Inr (m\<lparr>pn_sync_window_ms := Some x\<rparr>))))"
  "apply_attr fo ''max_instants'' args m = Some (one_arg args (\<lambda>w. rbind (int_from 1 w) (\<lambda>i. Inr (m\<lparr>pn_max_instants := Some i\<rparr>))))"
  "apply_attr fo ''group'' args m = Some (one_arg args (\<lambda>w. Inr (m\<lparr>pn_group := Some w\<rparr>)))"
  "apply_attr fo ''camera'' args m = Some (rbind (camera_arg (pn_cameras m) args) (\<lambda>cs. Inr (m\<lparr>pn_cameras := cs\<rparr>)))"
  "apply_attr fo ''min_hits'' args m = Some (one_arg args (\<lambda>w. rbind (int_from 1 w) (\<lambda>i. Inr (m\<lparr>pn_min_hits := Some i\<rparr>))))"
  "apply_attr fo ''min_height_fraction'' args m = Some (one_arg args (\<lambda>w. rbind (plan_float fo (\<lambda>x. 0 \<le> fo_value fo x \<and> fo_value fo x < 1) w) (\<lambda>x. Inr (m\<lparr>pn_min_height := Some x\<rparr>))))"
  "apply_attr fo ''algorithm'' args m = Some (one_arg args (\<lambda>w. Inr (m\<lparr>pn_algorithm := w\<rparr>)))"
  "apply_attr fo ''regression_reset'' args m = Some (one_arg args (\<lambda>w. rbind (int_from 0 w) (\<lambda>i. Inr (m\<lparr>pn_regression_reset := Some i\<rparr>))))"
  "apply_attr fo ''tracker_option'' args m = Some (rbind (tracker_option_args (pn_tracker_options m) args) (\<lambda>d. Inr (m\<lparr>pn_tracker_options := d\<rparr>)))"
  by (simp_all only: apply_attr_def Let_def key_neqs if_True if_False simp_thms)

lemma reads_simple_words:
  "pn_model m = None \<Longrightarrow> pred_option plan_word v \<Longrightarrow> reads fo (word_lines ''model'' v) m (m\<lparr>pn_model := v\<rparr>)"
  "pn_artefact m = None \<Longrightarrow> pred_option plan_word v \<Longrightarrow> reads fo (word_lines ''artefact'' v) m (m\<lparr>pn_artefact := v\<rparr>)"
  "pn_fold_detections m = None \<Longrightarrow> pred_option plan_word v \<Longrightarrow> reads fo (word_lines ''fold_detections'' v) m (m\<lparr>pn_fold_detections := v\<rparr>)"
  "pn_fold_prototypes m = None \<Longrightarrow> pred_option plan_word v \<Longrightarrow> reads fo (word_lines ''fold_prototypes'' v) m (m\<lparr>pn_fold_prototypes := v\<rparr>)"
  "pn_per m = None \<Longrightarrow> pred_option plan_word v \<Longrightarrow> reads fo (word_lines ''per'' v) m (m\<lparr>pn_per := v\<rparr>)"
  "pn_scope m = None \<Longrightarrow> pred_option plan_word v \<Longrightarrow> reads fo (word_lines ''scope'' v) m (m\<lparr>pn_scope := v\<rparr>)"
  "pn_group m = None \<Longrightarrow> pred_option plan_word v \<Longrightarrow> reads fo (word_lines ''group'' v) m (m\<lparr>pn_group := v\<rparr>)"
  by (rule reads_word_lines; simp add: key_facts attr_eqs one_arg_single)+

lemma reads_simple_ints:
  "pn_max_detections m = None \<Longrightarrow> pred_option (in_range 1) v \<Longrightarrow> reads fo (int_lines ''max_detections'' v) m (m\<lparr>pn_max_detections := v\<rparr>)"
  "pn_instances m = None \<Longrightarrow> pred_option (in_range 1) v \<Longrightarrow> reads fo (int_lines ''instances'' v) m (m\<lparr>pn_instances := v\<rparr>)"
  "pn_queue_delay_us m = None \<Longrightarrow> pred_option (in_range 0) v \<Longrightarrow> reads fo (int_lines ''queue_delay_us'' v) m (m\<lparr>pn_queue_delay_us := v\<rparr>)"
  "pn_max_instants m = None \<Longrightarrow> pred_option (in_range 1) v \<Longrightarrow> reads fo (int_lines ''max_instants'' v) m (m\<lparr>pn_max_instants := v\<rparr>)"
  "pn_min_hits m = None \<Longrightarrow> pred_option (in_range 1) v \<Longrightarrow> reads fo (int_lines ''min_hits'' v) m (m\<lparr>pn_min_hits := v\<rparr>)"
  "pn_regression_reset m = None \<Longrightarrow> pred_option (in_range 0) v \<Longrightarrow> reads fo (int_lines ''regression_reset'' v) m (m\<lparr>pn_regression_reset := v\<rparr>)"
  by (rule reads_int_lines; simp add: key_facts attr_eqs one_arg_single int_from_str INT_MAX_def)+

lemma reads_score:
  "float_laws fo \<Longrightarrow> pn_score m = None \<Longrightarrow> float_ok fo (\<lambda>x. True) v \<Longrightarrow> reads fo (float_lines fo ''score'' v) m (m\<lparr>pn_score := v\<rparr>)"
  by (rule reads_float_lines[where P = "\<lambda>x. True"]; simp add: key_facts attr_eqs one_arg_single)

lemma reads_fold_score:
  "float_laws fo \<Longrightarrow> pn_fold_score m = None \<Longrightarrow> float_ok fo (\<lambda>x. True) v \<Longrightarrow> reads fo (float_lines fo ''fold_score'' v) m (m\<lparr>pn_fold_score := v\<rparr>)"
  by (rule reads_float_lines[where P = "\<lambda>x. True"]; simp add: key_facts attr_eqs one_arg_single)

lemma reads_fold_mask:
  "float_laws fo \<Longrightarrow> pn_fold_mask m = None \<Longrightarrow> float_ok fo (\<lambda>x. 0 < fo_value fo x \<and> fo_value fo x < 1) v \<Longrightarrow> reads fo (float_lines fo ''fold_mask'' v) m (m\<lparr>pn_fold_mask := v\<rparr>)"
  by (rule reads_float_lines[where P = "\<lambda>x. 0 < fo_value fo x \<and> fo_value fo x < 1"]; simp add: key_facts attr_eqs one_arg_single)

lemma reads_sync_window_ms:
  "float_laws fo \<Longrightarrow> pn_sync_window_ms m = None \<Longrightarrow> float_ok fo (\<lambda>x. 0 < fo_value fo x) v \<Longrightarrow> reads fo (float_lines fo ''sync_window_ms'' v) m (m\<lparr>pn_sync_window_ms := v\<rparr>)"
  by (rule reads_float_lines[where P = "\<lambda>x. 0 < fo_value fo x"]; simp add: key_facts attr_eqs one_arg_single)

lemma reads_min_height_fraction:
  "float_laws fo \<Longrightarrow> pn_min_height m = None \<Longrightarrow> float_ok fo (\<lambda>x. 0 \<le> fo_value fo x \<and> fo_value fo x < 1) v \<Longrightarrow> reads fo (float_lines fo ''min_height_fraction'' v) m (m\<lparr>pn_min_height := v\<rparr>)"
  by (rule reads_float_lines[where P = "\<lambda>x. 0 \<le> fo_value fo x \<and> fo_value fo x < 1"]; simp add: key_facts attr_eqs one_arg_single)

lemma reads_simple_extents:
  "pn_crop m = None \<Longrightarrow> pred_option extent_ok v \<Longrightarrow> reads fo (extent_lines ''crop'' v) m (m\<lparr>pn_crop := v\<rparr>)"
  "pn_letterbox m = None \<Longrightarrow> pred_option extent_ok v \<Longrightarrow> reads fo (extent_lines ''letterbox'' v) m (m\<lparr>pn_letterbox := v\<rparr>)"
  by (rule reads_extent_lines; simp add: key_facts attr_eqs)+

lemma reads_when:
  assumes m: "pn_when m = None" and v: "pred_option sentence v"
  shows "reads fo (word_lines ''when'' v) m (m\<lparr>pn_when := v\<rparr>)"
proof (cases v)
  case None
  have "m\<lparr>pn_when := None\<rparr> = m" using m by (cases m) simp
  then show ?thesis using None by (simp add: word_lines_def reads_Nil)
next
  case (Some w)
  then have s: "sentence w" "w \<noteq> []" "unwords (word_list w) = w" using v by (auto simp: sentence_def)
  then have ne: "word_list w \<noteq> []" by (metis unwords.simps(1))
  have l: "phrase (unwords ([''when''] @ [w]))" using sentence_phrase[OF s(1)] key_facts by (intro phrase_line) auto
  have "word_list (unwords [''when'', w]) = ''when'' # word_list w" using word_list_cons[of "''when''" w] key_facts by simp
  then have "reads fo [unwords [''when'', w]] m (m\<lparr>pn_when := v\<rparr>)"
    by (rule reads_line[OF l[simplified append.simps]]) (use s ne Some in \<open>simp_all add: attr_eqs top_verbs_def\<close>)
  then show ?thesis using Some s(2) by (simp add: word_lines_def)
qed

lemma split_join:
  "cs \<noteq> [] \<Longrightarrow> (\<And>c. c \<in> set cs \<Longrightarrow> sep \<notin> set c) \<Longrightarrow> split_on sep (join_on sep cs) = cs"
proof (induction sep cs rule: join_on.induct)
  case (2 sep w)
  then have "sep \<notin> set w" by simp
  then show ?case by (simp, induction w) auto
next
  case (3 sep w v ws)
  then have w: "sep \<notin> set w" and ih: "split_on sep (join_on sep (v # ws)) = v # ws" by simp_all
  have "split_on sep (w @ sep # s) = w # split_on sep s" for s using w by (induction w) auto
  then show ?case using ih by simp
qed simp

lemma sentence_words: "sentence w \<longleftrightarrow> (\<exists>ws. ws \<noteq> [] \<and> list_all plan_word ws \<and> w = unwords ws)"
proof
  assume s: "sentence w"
  then have "word_list w \<noteq> []" by (metis sentence_def unwords.simps(1))
  moreover have "list_all plan_word (word_list w)" using word_list_words[of _ w] s by (fastforce simp: list_all_iff plan_word_def sentence_def)
  ultimately show "\<exists>ws. ws \<noteq> [] \<and> list_all plan_word ws \<and> w = unwords ws" using s by (metis sentence_def)
next
  assume "\<exists>ws. ws \<noteq> [] \<and> list_all plan_word ws \<and> w = unwords ws"
  then obtain ws where ws: "ws \<noteq> []" "list_all plan_word ws" "w = unwords ws" by blast
  have "CHR ''#'' \<notin> set w" using unwords_chars[of ws] ws plan_wordD(3) by (fastforce simp: list_all_iff)
  moreover have "w \<noteq> []" using unwords_ends[of ws] ws plan_wordD(1) by (auto simp: list_all_iff)
  ultimately show "sentence w" using ws word_list_unwords by (simp add: sentence_def)
qed

lemma unwords_glue: "unwords (xs @ [x]) @ s @ unwords (y # ys) = unwords (xs @ [x @ s @ y] @ ys)"
proof (induction xs)
  case Nil
  show ?case by (cases ys) simp_all
next
  case (Cons z xs)
  then show ?case using unwords_Cons[of "xs @ [x]" z] unwords_Cons[of "xs @ [x @ s @ y] @ ys" z] by simp
qed

lemma sentence_join: "sentence a \<Longrightarrow> sentence b \<Longrightarrow> sentence (a @ CHR '','' # b)"
proof -
  assume "sentence a" "sentence b"
  then obtain as bs where a: "as \<noteq> []" "list_all plan_word as" "a = unwords as" and b: "bs \<noteq> []" "list_all plan_word bs" "b = unwords bs" by (auto simp: sentence_words)
  obtain xs x where x: "as = xs @ [x]" using a(1) by (cases as rule: rev_cases) auto
  obtain y ys where y: "bs = y # ys" using b(1) by (cases bs) auto
  have "\<not> is_space CHR '',''" by code_simp
  then have "plan_word (x @ '','' @ y)" using a(2) b(2) by (simp add: x y plan_word_def)
  then have "list_all plan_word (xs @ [x @ '','' @ y] @ ys)" using a(2) b(2) by (simp add: x y)
  moreover have "a @ CHR '','' # b = unwords (xs @ [x @ '','' @ y] @ ys)" using unwords_glue[of xs x "'',''" y ys] by (simp add: a(3) b(3) x y)
  ultimately show ?thesis unfolding sentence_words by blast
qed

lemma join_sentence: "cs \<noteq> [] \<Longrightarrow> list_all sentence cs \<Longrightarrow> sentence (join_on CHR '','' cs)"
  by (induction "CHR '',''" cs rule: join_on.induct) (simp_all add: sentence_join)

lemma phrase_strip: "phrase w \<Longrightarrow> strip w = w"
  by (simp add: phrase_def strip_id)

lemma reads_classes:
  assumes m: "pn_classes m = None" and v: "pred_option classes_ok v"
  shows "reads fo (class_lines v) m (m\<lparr>pn_classes := v\<rparr>)"
proof (cases v)
  case None
  have "m\<lparr>pn_classes := None\<rparr> = m" using m by (cases m) simp
  then show ?thesis using None by (simp add: class_lines_def reads_Nil)
next
  case (Some cs)
  define j where "j = (if join_on CHR '','' cs = [] then ''-'' else join_on CHR '','' cs)"
  have cs: "classes_ok cs" using v Some by simp
  have dash: "sentence ''-''" by code_simp
  have j: "sentence j \<and> class_args (word_list j) = Inr cs"
  proof (cases "cs = []")
    case True
    have "class_args (word_list ''-'') = Inr []" by code_simp
    then show ?thesis using dash True by (simp add: j_def)
  next
    case False
    have s: "list_all sentence cs" "\<And>c. c \<in> set cs \<Longrightarrow> CHR '','' \<notin> set c" using cs by (auto simp: classes_ok_def list_all_iff)
    have js: "sentence (join_on CHR '','' cs)" by (rule join_sentence[OF False s(1)])
    then have jj: "j = join_on CHR '','' cs" by (simp add: j_def sentence_def)
    have sp: "split_on CHR '','' j = cs" unfolding jj by (rule split_join[OF False s(2)])
    have nd: "j \<noteq> ''-''"
    proof
      assume "j = ''-''"
      then have "cs = [''-'']" using sp by simp
      then show False using cs by (simp add: classes_ok_def)
    qed
    have st: "map strip cs = cs" using s(1) phrase_strip sentence_phrase by (simp add: list_all_iff map_idI)
    have u: "unwords (word_list j) = j" "word_list j \<noteq> []" using js jj by (auto simp: sentence_def)
    show ?thesis using js nd s(1) u unfolding jj[symmetric] by (simp add: class_args_def sp st list_all_iff sentence_def)
  qed
  have l: "phrase (unwords ([''classes''] @ [j]))" using sentence_phrase j key_facts by (intro phrase_line) auto
  have "word_list (unwords [''classes'', j]) = ''classes'' # word_list j" using word_list_cons[of "''classes''" j] key_facts by simp
  then have "reads fo [unwords [''classes'', j]] m (m\<lparr>pn_classes := v\<rparr>)"
    by (rule reads_line[OF l[simplified append.simps]]) (use j Some in \<open>simp_all add: attr_eqs top_verbs_def\<close>)
  then show ?thesis using Some by (simp add: class_lines_def j_def)
qed

end
